(* ===== verification/Prelude.thy ===== *)
theory Prelude
  imports Main "HOL-Library.Word" "HOL-Library.Multiset" "HOL-Library.Product_Lexorder"
begin

text \<open>
  The vocabulary every component theory uses: machine integers, byte strings, the 256-bit
  hash type with the order the code gives it, results of C++ functions that may throw, and
  the facts on lists and words that several components share.

  A C++ function that mutates its object and may throw is a function from the state to
  a result that carries the state in both cases: an exception does not roll the object back.
\<close>

subsection \<open>Machine integers and byte strings\<close>

type_synonym u8 = "8 word"
type_synonym u16 = "16 word"
type_synonym u32 = "32 word"
type_synonym u64 = "64 word"
type_synonym bytes = "u8 list"

text \<open>\<open>ReplicaID\<close> of \<open>hotstuff/type.h\<close>.\<close>

type_synonym replica_id = u16

subsection \<open>Results\<close>

datatype err =
    Runtime_Error string
  | Invalid_Argument string
  | Hotstuff_Error string
  | Stream_Failure
  | Undefined_Behaviour
  | Endless_Loop

text \<open>
  \<open>Undefined_Behaviour\<close> marks an operation C++ leaves undefined (an index out of range, a
  null or dangling pointer followed), so that no theorem about a value read there can be
  proved by accident. \<open>Endless_Loop\<close> is the result of a loop that has run longer than the bound its
  model gives it; that the bound is enough is proved where the loop is used.
\<close>

datatype ('a, 's) res = Ok 'a 's | Exc err 's

fun res_bind :: "('a, 's) res \<Rightarrow> ('a \<Rightarrow> 's \<Rightarrow> ('b, 's) res) \<Rightarrow> ('b, 's) res" where
  "res_bind (Ok a s) f = f a s"
| "res_bind (Exc e s) f = Exc e s"

fun res_state :: "('a, 's) res \<Rightarrow> 's" where
  "res_state (Ok a s) = s"
| "res_state (Exc e s) = s"

fun is_ok :: "('a, 's) res \<Rightarrow> bool" where
  "is_ok (Ok a s) = True"
| "is_ok (Exc e s) = False"

lemma res_bind_Ok_iff:
  "res_bind m f = Ok b t \<longleftrightarrow> (\<exists>a s. m = Ok a s \<and> f a s = Ok b t)"
  by (cases m) auto

lemma res_bind_assoc:
  "res_bind (res_bind m f) g = res_bind m (\<lambda>a s. res_bind (f a s) g)"
  by (cases m) auto

lemma res_bind_OkE:
  assumes "res_bind m f = Ok b t"
  obtains a s where "m = Ok a s" and "f a s = Ok b t"
  using assms by (auto simp: res_bind_Ok_iff)

subsection \<open>Little-endian bytes of a word\<close>

text \<open>
  \<open>le_bytes n w\<close> is the memory of an \<open>n\<close>-byte unsigned integer on the little-endian hosts
  the code targets, and \<open>of_le_bytes\<close> reads it back.
\<close>

definition le_bytes :: "nat \<Rightarrow> 'a::len word \<Rightarrow> bytes" where
  "le_bytes n w = map (\<lambda>i. ucast (drop_bit (8 * i) w)) [0..<n]"

fun of_le_bytes :: "bytes \<Rightarrow> 'a::len word" where
  "of_le_bytes [] = 0"
| "of_le_bytes (b # bs) = or (ucast b) (push_bit 8 (of_le_bytes bs))"

lemma length_le_bytes [simp]: "length (le_bytes n w) = n"
  by (simp add: le_bytes_def)

lemma le_bytes_Suc:
  "le_bytes (Suc n) w = ucast w # le_bytes n (drop_bit 8 w)"
  by (simp add: le_bytes_def upt_conv_Cons map_Suc_upt [symmetric] add.commute del: upt_Suc map_Suc_upt)

lemma bit_of_le_bytes_le_bytes:
  "bit (of_le_bytes (le_bytes n w) :: 'a::len word) k \<longleftrightarrow> k < 8 * n \<and> bit (w :: 'a word) k"
proof (induction n arbitrary: w k)
  case 0
  then show ?case by (simp add: le_bytes_def)
next
  case (Suc n)
  show ?case
    by (auto simp: le_bytes_Suc bit_or_iff bit_push_bit_iff bit_ucast_iff Suc.IH bit_drop_bit_eq
        dest: bit_imp_le_length)
qed

lemma of_le_bytes_le_bytes:
  "LENGTH('a) \<le> 8 * n \<Longrightarrow> of_le_bytes (le_bytes n w) = (w :: 'a::len word)"
  by (rule bit_word_eqI) (simp add: bit_of_le_bytes_le_bytes)

subsection \<open>The 256-bit hash\<close>

text \<open>
  \<open>uint256_t\<close> is \<open>Blob<256>\<close> of \<open>salticidae/stream.h\<close>: four 64-bit limbs, the least significant
  first, compared limb by limb from the most significant one.
\<close>

datatype uint256 = U256 (limb0: u64) (limb1: u64) (limb2: u64) (limb3: u64)

definition uint256_less :: "uint256 \<Rightarrow> uint256 \<Rightarrow> bool" where
  "uint256_less a b =
     (if limb3 a \<noteq> limb3 b then limb3 a < limb3 b
      else if limb2 a \<noteq> limb2 b then limb2 a < limb2 b
      else if limb1 a \<noteq> limb1 b then limb1 a < limb1 b
      else limb0 a < limb0 b)"

text \<open>It is the lexicographic order of the limbs, so it is linear.\<close>

definition limbs :: "uint256 \<Rightarrow> u64 \<times> u64 \<times> u64 \<times> u64" where
  "limbs a = (limb3 a, limb2 a, limb1 a, limb0 a)"

lemma limbs_inject: "limbs a = limbs b \<longleftrightarrow> a = b"
  by (cases a; cases b) (auto simp: limbs_def)

lemma uint256_less_limbs: "uint256_less a b \<longleftrightarrow> limbs a < limbs b"
  by (auto simp add: uint256_less_def limbs_def less_prod_simp)

instantiation uint256 :: linorder
begin

definition less_uint256 :: "uint256 \<Rightarrow> uint256 \<Rightarrow> bool" where
  "less_uint256 = uint256_less"

definition less_eq_uint256 :: "uint256 \<Rightarrow> uint256 \<Rightarrow> bool" where
  "less_eq_uint256 a b \<longleftrightarrow> a = b \<or> uint256_less a b"

instance
  by standard (auto simp: less_uint256_def less_eq_uint256_def uint256_less_limbs
      limbs_inject [symmetric])

end

instantiation uint256 :: zero
begin

definition zero_uint256 :: uint256 where
  "zero_uint256 = U256 0 0 0 0"

instance ..

end

text \<open>A hash with one small limb, for concrete instances.\<close>

abbreviation h256 :: "u64 \<Rightarrow> uint256" where
  "h256 n \<equiv> U256 n 0 0 0"

subsection \<open>What \<open>std::sort\<close> promises\<close>

text \<open>
  \<open>std::sort\<close> with a comparator on an integer key leaves a permutation in ascending order of
  the key; the order of elements with equal keys is unspecified, so the sort is an argument of
  the model. \<open>sort_key\<close> is one implementation.
\<close>

definition std_sort_ok :: "((nat \<Rightarrow> int) \<Rightarrow> nat list \<Rightarrow> nat list) \<Rightarrow> bool" where
  "std_sort_ok srt \<longleftrightarrow> (\<forall>k xs. mset (srt k xs) = mset xs \<and> sorted (map k (srt k xs)))"

lemma std_sort_ok_sort_key: "std_sort_ok sort_key"
  by (simp add: std_sort_ok_def)

lemma std_sort_mset: "std_sort_ok srt \<Longrightarrow> mset (srt k xs) = mset xs"
  by (simp add: std_sort_ok_def)

lemma std_sort_set: "std_sort_ok srt \<Longrightarrow> set (srt k xs) = set xs"
  by (metis std_sort_mset set_mset_mset)

lemma std_sort_length: "std_sort_ok srt \<Longrightarrow> length (srt k xs) = length xs"
  by (metis std_sort_mset size_mset)

lemma std_sort_distinct: "std_sort_ok srt \<Longrightarrow> distinct (srt k xs) = distinct xs"
  by (metis std_sort_mset mset_eq_imp_distinct_iff)

lemma std_sort_sorted: "std_sort_ok srt \<Longrightarrow> sorted (map k (srt k xs))"
  by (simp add: std_sort_ok_def)

text \<open>Where the key is strictly increasing along the input, every correct sort is the identity.\<close>

lemma std_sort_strict:
  assumes "std_sort_ok srt" and "sorted_wrt (<) (map k xs)"
  shows "srt k xs = xs"
proof -
  have sorted: "sorted (map k xs)"
    using assms(2) by (rule strict_sorted_imp_sorted)
  have "mset (map k (srt k xs)) = mset (map k xs)"
    by (simp add: std_sort_mset [OF assms(1)])
  then have "sort (map k xs) = map k (srt k xs)"
    using std_sort_sorted [OF assms(1)] by (rule properties_for_sort)
  with sorted have keys: "map k (srt k xs) = map k xs"
    by (simp add: sorted_sort_id)
  have "distinct (map k xs)"
    using assms(2) by (simp add: strict_sorted_iff)
  then have "inj_on k (set (srt k xs) \<union> set xs)"
    by (simp add: distinct_map std_sort_set [OF assms(1)])
  with keys show ?thesis
    by (rule map_inj_on)
qed

subsection \<open>Lists\<close>

text \<open>The standard library's \<open>std::is_sorted\<close> on an integer sequence.\<close>

fun std_is_sorted :: "u64 list \<Rightarrow> bool" where
  "std_is_sorted (x # y # zs) = (x \<le> y \<and> std_is_sorted (y # zs))"
| "std_is_sorted xs = True"

lemma std_is_sorted_iff: "std_is_sorted xs \<longleftrightarrow> sorted xs"
  by (induction xs rule: std_is_sorted.induct) (auto intro: order_trans)

text \<open>\<open>a\<close> stands before \<open>b\<close> in \<open>xs\<close>.\<close>

definition before :: "'a list \<Rightarrow> 'a \<Rightarrow> 'a \<Rightarrow> bool" where
  "before xs a b \<longleftrightarrow> (\<exists>us vs ws. xs = us @ a # vs @ b # ws)"

lemma before_nth: "before xs a b \<longleftrightarrow> (\<exists>i j. i < j \<and> j < length xs \<and> xs ! i = a \<and> xs ! j = b)"
proof
  assume "before xs a b"
  then obtain us vs ws where "xs = us @ a # vs @ b # ws"
    by (auto simp: before_def)
  then show "\<exists>i j. i < j \<and> j < length xs \<and> xs ! i = a \<and> xs ! j = b"
    by (intro exI [of _ "length us"] exI [of _ "length us + length vs + 1"])
       (simp add: nth_append)
next
  assume "\<exists>i j. i < j \<and> j < length xs \<and> xs ! i = a \<and> xs ! j = b"
  then obtain i j where *: "i < j" "j < length xs" "xs ! i = a" "xs ! j = b"
    by blast
  then have "xs = take i xs @ a # drop (Suc i) xs"
    by (metis id_take_nth_drop less_trans)
  moreover have "drop (Suc i) xs = take (j - Suc i) (drop (Suc i) xs) @ b # drop (Suc j) xs"
    using * id_take_nth_drop [of "j - Suc i" "drop (Suc i) xs"] by simp
  ultimately show "before xs a b"
    unfolding before_def by metis
qed

lemma before_Nil [simp]: "\<not> before [] a b"
  by (simp add: before_nth)

lemma before_Cons: "before (x # xs) a b \<longleftrightarrow> x = a \<and> b \<in> set xs \<or> before xs a b"
proof
  assume "before (x # xs) a b"
  then obtain us vs ws where *: "x # xs = us @ a # vs @ b # ws"
    by (auto simp: before_def)
  then show "x = a \<and> b \<in> set xs \<or> before xs a b"
    by (cases us) (auto simp: before_def)
next
  assume "x = a \<and> b \<in> set xs \<or> before xs a b"
  then show "before (x # xs) a b"
  proof
    assume "x = a \<and> b \<in> set xs"
    then show ?thesis
      unfolding before_def by (metis append_Nil split_list)
  next
    assume "before xs a b"
    then show ?thesis
      unfolding before_def by (metis append_Cons)
  qed
qed

lemma before_append:
  "before (xs @ ys) a b \<longleftrightarrow> before xs a b \<or> before ys a b \<or> a \<in> set xs \<and> b \<in> set ys"
  by (induction xs) (auto simp: before_Cons)

lemma before_in_set: "before xs a b \<Longrightarrow> a \<in> set xs \<and> b \<in> set xs"
  by (induction xs) (auto simp: before_Cons)

lemma map_sum_InrE:
  assumes "map_sum f g x = Inr y"
  obtains z where "x = Inr z" and "y = g z"
  using assms by (cases x) simp_all

end
