(* ===== verification/Data_Stream.thy ===== *)
theory Data_Stream
  imports Prelude
begin

text \<open>
  \<open>DataStream\<close>, \<open>Blob<256>\<close> of \<open>salticidae/include/salticidae/stream.h\<close>: a byte buffer with a
  read offset, to which values are appended and from which they are read in order. Integers are
  written as they lie in memory; the hosts are little-endian, where \<open>htole\<close> and \<open>letoh\<close> are
  the identity.
\<close>

record data_stream =
  buffer :: bytes
  offset :: nat

definition ds_new :: data_stream where
  "ds_new = \<lparr>buffer = [], offset = 0\<rparr>"

definition ds_of_bytes :: "bytes \<Rightarrow> data_stream" where
  "ds_of_bytes bs = \<lparr>buffer = bs, offset = 0\<rparr>"

definition ds_clear :: "data_stream \<Rightarrow> data_stream" where
  "ds_clear s = s\<lparr>buffer := [], offset := 0\<rparr>"

definition ds_size :: "data_stream \<Rightarrow> nat" where
  "ds_size s = length (buffer s) - offset s"

text \<open>\<open>put_data\<close> and \<open>operator<<\<close> on a byte array append.\<close>

definition ds_put_data :: "bytes \<Rightarrow> data_stream \<Rightarrow> data_stream" where
  "ds_put_data bs s = s\<lparr>buffer := buffer s @ bs\<rparr>"

text \<open>\<open>operator<<\<close> on an integral type of \<open>sizeof(T)\<close> bytes.\<close>

definition ds_put :: "'a::len word \<Rightarrow> data_stream \<Rightarrow> data_stream" where
  "ds_put d s = ds_put_data (le_bytes (LENGTH('a) div 8) d) s"

text \<open>
  \<open>operator>>\<close> on an integral type: the check comes first, so a short buffer leaves the offset
  where it was.
\<close>

definition ds_get :: "data_stream \<Rightarrow> ('a::len word, data_stream) res" where
  "ds_get s =
     (let n = LENGTH('a) div 8 in
      if offset s + n > length (buffer s) then Exc Stream_Failure s
      else Ok (of_le_bytes (take n (drop (offset s) (buffer s)))) (s\<lparr>offset := offset s + n\<rparr>))"

text \<open>\<open>get_data_inplace\<close> moves the offset before it checks: a failed read has moved it.\<close>

definition ds_get_data_inplace :: "nat \<Rightarrow> data_stream \<Rightarrow> (bytes, data_stream) res" where
  "ds_get_data_inplace len s =
     (let t = s\<lparr>offset := offset s + len\<rparr> in
      if offset t > length (buffer s) then Exc Stream_Failure t
      else Ok (take len (drop (offset s) (buffer s))) t)"

text \<open>The conversion to a byte array: the unread part.\<close>

definition ds_bytes :: "data_stream \<Rightarrow> bytes" where
  "ds_bytes s = drop (offset s) (buffer s)"

definition uint256_serialize :: "uint256 \<Rightarrow> data_stream \<Rightarrow> data_stream" where
  "uint256_serialize x s =
     ds_put (limb3 x) (ds_put (limb2 x) (ds_put (limb1 x) (ds_put (limb0 x) s)))"

definition uint256_unserialize :: "data_stream \<Rightarrow> (uint256, data_stream) res" where
  "uint256_unserialize s =
     res_bind (ds_get s) (\<lambda>a s. res_bind (ds_get s) (\<lambda>b s.
     res_bind (ds_get s) (\<lambda>c s. res_bind (ds_get s) (\<lambda>d s. Ok (U256 a b c d) s))))"

text \<open>
  The loops \<open>for (const auto &h: v) s << h\<close> and \<open>v.resize(n); for (auto &h: v) s >> h\<close> that every
  message of the protocol uses.
\<close>

definition put_all :: "('a \<Rightarrow> data_stream \<Rightarrow> data_stream) \<Rightarrow> 'a list \<Rightarrow> data_stream \<Rightarrow> data_stream" where
  "put_all put xs s = foldl (\<lambda>s x. put x s) s xs"

fun get_n :: "(data_stream \<Rightarrow> ('a, data_stream) res) \<Rightarrow> nat \<Rightarrow> data_stream
    \<Rightarrow> ('a list, data_stream) res" where
  "get_n get 0 s = Ok [] s"
| "get_n get (Suc n) s =
     res_bind (get s) (\<lambda>x s. res_bind (get_n get n s) (\<lambda>xs s. Ok (x # xs) s))"

definition put_vec :: "('a \<Rightarrow> data_stream \<Rightarrow> data_stream) \<Rightarrow> 'a list \<Rightarrow> data_stream \<Rightarrow> data_stream" where
  "put_vec put xs s = put_all put xs (ds_put (of_nat (length xs) :: u32) s)"

definition get_vec :: "(data_stream \<Rightarrow> ('a, data_stream) res) \<Rightarrow> data_stream
    \<Rightarrow> ('a list, data_stream) res" where
  "get_vec get s = res_bind (ds_get s) (\<lambda>n s. get_n get (unat (n :: u32)) s)"

subsection \<open>Reading what was written\<close>

definition ds_wf :: "data_stream \<Rightarrow> bool" where
  "ds_wf s \<longleftrightarrow> offset s \<le> length (buffer s)"

definition ds_skip :: "nat \<Rightarrow> data_stream \<Rightarrow> data_stream" where
  "ds_skip n s = s\<lparr>offset := offset s + n\<rparr>"

lemma ds_wf_new [simp]: "ds_wf ds_new"
  by (simp add: ds_wf_def ds_new_def)

lemma ds_bytes_new [simp]: "ds_bytes ds_new = []"
  by (simp add: ds_bytes_def ds_new_def)

lemma ds_bytes_put_data [simp]: "ds_wf s \<Longrightarrow> ds_bytes (ds_put_data bs s) = ds_bytes s @ bs"
  by (simp add: ds_bytes_def ds_put_data_def ds_wf_def)

lemma ds_wf_put_data [simp]: "ds_wf s \<Longrightarrow> ds_wf (ds_put_data bs s)"
  by (simp add: ds_wf_def ds_put_data_def)

lemma ds_bytes_skip [simp]: "ds_bytes (ds_skip n s) = drop n (ds_bytes s)"
  by (simp add: ds_bytes_def ds_skip_def add.commute)

lemma ds_skip_skip [simp]: "ds_skip m (ds_skip n s) = ds_skip (n + m) s"
  by (simp add: ds_skip_def add.assoc)

lemma ds_skip_0 [simp]: "ds_skip 0 s = s"
  by (simp add: ds_skip_def)

lemma ds_wf_skip: "ds_wf s \<Longrightarrow> n \<le> length (ds_bytes s) \<Longrightarrow> ds_wf (ds_skip n s)"
  by (auto simp: ds_wf_def ds_skip_def ds_bytes_def)

lemma ds_put_data_append: "ds_put_data ys (ds_put_data xs s) = ds_put_data (xs @ ys) s"
  by (simp add: ds_put_data_def)

lemma ds_put_data_Nil [simp]: "ds_put_data [] s = s"
  by (simp add: ds_put_data_def)

text \<open>
  The contract between a writer and a reader: writing a value appends its encoding, and reading
  at the start of an encoding gives the value back and stops behind it. \<open>ok\<close> is the set of values
  the encoding represents.
\<close>

locale codec =
  fixes put :: "'a \<Rightarrow> data_stream \<Rightarrow> data_stream"
    and get :: "data_stream \<Rightarrow> ('a, data_stream) res"
    and enc :: "'a \<Rightarrow> bytes"
    and ok :: "'a \<Rightarrow> bool"
  assumes put_enc: "ok x \<Longrightarrow> put x s = ds_put_data (enc x) s"
    and get_enc: "ds_wf s \<Longrightarrow> ok x \<Longrightarrow> ds_bytes s = enc x @ post \<Longrightarrow>
      get s = Ok x (ds_skip (length (enc x)) s)"
begin

lemma get_bind:
  assumes "ds_wf s" and "ok x" and "ds_bytes s = enc x @ post"
    and "\<And>t. t = ds_skip (length (enc x)) s \<Longrightarrow> ds_wf t \<Longrightarrow> ds_bytes t = post \<Longrightarrow> k x t = r"
  shows "res_bind (get s) k = r"
proof -
  have "ds_wf (ds_skip (length (enc x)) s)"
    using assms(1,3) by (intro ds_wf_skip) simp_all
  then show ?thesis
    using assms by (simp add: get_enc)
qed

lemma put_all_enc: "list_all ok xs \<Longrightarrow> put_all put xs s = ds_put_data (concat (map enc xs)) s"
  by (induction xs arbitrary: s) (simp_all add: put_all_def put_enc ds_put_data_append)

lemma get_n_enc:
  "ds_wf s \<Longrightarrow> list_all ok xs \<Longrightarrow> ds_bytes s = concat (map enc xs) @ post \<Longrightarrow>
   get_n get (length xs) s = Ok xs (ds_skip (length (concat (map enc xs))) s)"
proof (induction xs arbitrary: s)
  case Nil
  then show ?case by simp
next
  case (Cons x xs)
  let ?t = "ds_skip (length (enc x)) s"
  have get: "get s = Ok x ?t"
    using Cons.prems get_enc [of s x "concat (map enc xs) @ post"] by simp
  have "ds_wf ?t"
    using Cons.prems by (intro ds_wf_skip) simp_all
  moreover have "ds_bytes ?t = concat (map enc xs) @ post"
    using Cons.prems by simp
  ultimately have "get_n get (length xs) ?t = Ok xs (ds_skip (length (concat (map enc xs))) ?t)"
    using Cons.prems by (intro Cons.IH) simp_all
  with get show ?case by simp
qed

lemma round_trip:
  "ok x \<Longrightarrow> ds_wf s \<Longrightarrow> ds_bytes s = [] \<Longrightarrow>
   get (put x s) = Ok x (ds_skip (length (enc x)) (ds_put_data (enc x) s))"
  using get_enc [of "ds_put_data (enc x) s" x "[]"] by (simp add: put_enc)

end

text \<open>A vector goes with its 32-bit length in front.\<close>

definition vec_enc :: "('a \<Rightarrow> bytes) \<Rightarrow> 'a list \<Rightarrow> bytes" where
  "vec_enc enc xs = le_bytes 4 (of_nat (length xs) :: u32) @ concat (map enc xs)"

definition vec_ok :: "('a \<Rightarrow> bool) \<Rightarrow> 'a list \<Rightarrow> bool" where
  "vec_ok ok xs \<longleftrightarrow> list_all ok xs \<and> length xs < 2 ^ 32"

lemma ds_get_bytes:
  fixes d :: "'a::len word"
  assumes "ds_wf s" and "ds_bytes s = le_bytes (LENGTH('a) div 8) d @ post"
    and "LENGTH('a) = 8 * (LENGTH('a) div 8)"
  shows "ds_get s = Ok d (ds_skip (LENGTH('a) div 8) s)"
proof -
  have "length (buffer s) = offset s + LENGTH('a) div 8 + length post"
    using assms(1) arg_cong [OF assms(2), of length] by (simp add: ds_wf_def ds_bytes_def)
  moreover have "take (LENGTH('a) div 8) (drop (offset s) (buffer s)) = le_bytes (LENGTH('a) div 8) d"
    using assms(2) by (simp add: ds_bytes_def)
  moreover have "of_le_bytes (le_bytes (LENGTH('a) div 8) d) = d"
    using assms(3) by (intro of_le_bytes_le_bytes) simp
  ultimately show ?thesis
    by (simp add: ds_get_def ds_skip_def)
qed

definition uint256_enc :: "uint256 \<Rightarrow> bytes" where
  "uint256_enc x = le_bytes 8 (limb0 x) @ le_bytes 8 (limb1 x) @ le_bytes 8 (limb2 x) @ le_bytes 8 (limb3 x)"

lemma length_uint256_enc [simp]: "length (uint256_enc x) = 32"
  by (simp add: uint256_enc_def)

interpretation u8c: codec ds_put ds_get "le_bytes 1 :: u8 \<Rightarrow> bytes" "\<lambda>_. True"
  by unfold_locales (simp_all add: ds_put_def ds_get_bytes)

interpretation u16c: codec ds_put ds_get "le_bytes 2 :: u16 \<Rightarrow> bytes" "\<lambda>_. True"
  by unfold_locales (simp_all add: ds_put_def ds_get_bytes)

interpretation u32c: codec ds_put ds_get "le_bytes 4 :: u32 \<Rightarrow> bytes" "\<lambda>_. True"
  by unfold_locales (simp_all add: ds_put_def ds_get_bytes)

interpretation u64c: codec ds_put ds_get "le_bytes 8 :: u64 \<Rightarrow> bytes" "\<lambda>_. True"
  by unfold_locales (simp_all add: ds_put_def ds_get_bytes)

lemma uint256_get_enc:
  assumes "ds_wf s" and "ds_bytes s = uint256_enc x @ post"
  shows "uint256_unserialize s = Ok x (ds_skip 32 s)"
proof -
  have wf: "ds_wf (ds_skip n s)" if "n \<le> 32" for n
    using that assms by (intro ds_wf_skip) (simp_all add: assms(2))
  have 0: "ds_get s = Ok (limb0 x) (ds_skip 8 s)"
    using assms by (intro u64c.get_enc [simplified]) (simp_all add: uint256_enc_def)
  have 1: "ds_get (ds_skip 8 s) = Ok (limb1 x) (ds_skip 16 s)"
    using u64c.get_enc [OF wf [of 8] TrueI] by (simp add: assms(2) uint256_enc_def)
  have 2: "ds_get (ds_skip 16 s) = Ok (limb2 x) (ds_skip 24 s)"
    using u64c.get_enc [OF wf [of 16] TrueI] by (simp add: assms(2) uint256_enc_def)
  have 3: "ds_get (ds_skip 24 s) = Ok (limb3 x) (ds_skip 32 s)"
    using u64c.get_enc [OF wf [of 24] TrueI] by (simp add: assms(2) uint256_enc_def)
  show ?thesis
    by (simp add: uint256_unserialize_def 0 1 2 3)
qed

interpretation u256c: codec uint256_serialize uint256_unserialize uint256_enc "\<lambda>_. True"
proof unfold_locales
  show "uint256_serialize x s = ds_put_data (uint256_enc x) s" for x s
    by (simp add: uint256_serialize_def uint256_enc_def u64c.put_enc ds_put_data_append)
  show "uint256_unserialize s = Ok x (ds_skip (length (uint256_enc x)) s)"
    if "ds_wf s" "True" "ds_bytes s = uint256_enc x @ post" for s x post
    using uint256_get_enc that by simp
qed


context codec
begin

lemma vec: "codec (put_vec put) (get_vec get) (vec_enc enc) (vec_ok ok)"
proof unfold_locales
  show "put_vec put xs s = ds_put_data (vec_enc enc xs) s" if "vec_ok ok xs" for xs s
    using that by (simp add: put_vec_def vec_enc_def vec_ok_def u32c.put_enc put_all_enc ds_put_data_append)
next
  fix s xs post
  assume wf: "ds_wf s" and ok: "vec_ok ok xs" and bs: "ds_bytes s = vec_enc enc xs @ post"
  have 1: "ds_get s = Ok (of_nat (length xs) :: u32) (ds_skip 4 s)"
    using u32c.get_enc [OF wf TrueI] bs by (simp add: vec_enc_def)
  have n: "unat (of_nat (length xs) :: u32) = length xs"
    using ok by (simp add: vec_ok_def unat_of_nat take_bit_nat_eq_self)
  have "ds_wf (ds_skip 4 s)"
    using wf bs by (intro ds_wf_skip) (simp_all add: vec_enc_def)
  moreover have "ds_bytes (ds_skip 4 s) = concat (map enc xs) @ post"
    by (simp add: bs vec_enc_def)
  ultimately have "get_n get (length xs) (ds_skip 4 s)
      = Ok xs (ds_skip (length (concat (map enc xs))) (ds_skip 4 s))"
    using ok by (intro get_n_enc) (simp_all add: vec_ok_def)
  with 1 n show "get_vec get s = Ok xs (ds_skip (length (vec_enc enc xs)) s)"
    by (simp add: get_vec_def vec_enc_def)
qed

end

interpretation u256v: codec "put_vec uint256_serialize" "get_vec uint256_unserialize" "vec_enc uint256_enc"
    "vec_ok (\<lambda>_. True)"
  by (rule u256c.vec)

interpretation u64v: codec "put_vec ds_put" "get_vec ds_get" "vec_enc (le_bytes 8 :: u64 \<Rightarrow> bytes)"
    "vec_ok (\<lambda>_. True)"
  by (rule u64c.vec)

end
