(* ===== verification/Replica_Config.thy ===== *)
theory Replica_Config
  imports Prelude Complex_Main "HOL-Library.AList"
begin

text \<open>
  \<open>ReplicaInfo\<close> and \<open>ReplicaConfig\<close> of \<open>flashorder/include/hotstuff/entity.h\<close>: the replicas a node
  knows, with the protocol parameters. Keys and addresses are opaque byte strings.
\<close>

type_synonym pubkey = bytes
type_synonym peer_id = bytes

record replica_info =
  ri_id :: replica_id
  ri_peer_id :: peer_id
  ri_pubkey :: pubkey

record replica_config =
  replica_map :: "(replica_id \<times> replica_info) list"
  nreplicas :: u64
  nmajority :: u64
  fairness_parameter :: real
  solid_tx_threshold :: real
  non_blank_tx_threshold :: real
  tx_edge_threshold :: real
  gen_param :: real
  network_param :: real
  auto_param :: bool

definition config_new :: replica_config where
  "config_new = \<lparr>replica_map = [], nreplicas = 0, nmajority = 0, fairness_parameter = 1,
     solid_tx_threshold = 0, non_blank_tx_threshold = 0, tx_edge_threshold = 0, gen_param = 0,
     network_param = 0, auto_param = True\<rparr>"

text \<open>
  \<open>insert\<close> of an unordered map keeps an entry that is there; the counter goes up all the same.
\<close>

definition map_insert :: "'k \<Rightarrow> 'v \<Rightarrow> ('k \<times> 'v) list \<Rightarrow> ('k \<times> 'v) list" where
  "map_insert k v m = (if map_of m k = None then m @ [(k, v)] else m)"

definition config_add_replica :: "replica_id \<Rightarrow> replica_info \<Rightarrow> replica_config \<Rightarrow> replica_config" where
  "config_add_replica rid info c =
     c\<lparr>replica_map := map_insert rid info (replica_map c), nreplicas := nreplicas c + 1\<rparr>"

definition get_info :: "replica_config \<Rightarrow> replica_id \<Rightarrow> err + replica_info" where
  "get_info c rid = (case map_of (replica_map c) rid of
     None \<Rightarrow> Inl (Hotstuff_Error ''rid not found'')
   | Some info \<Rightarrow> Inr info)"

definition get_pubkey :: "replica_config \<Rightarrow> replica_id \<Rightarrow> err + pubkey" where
  "get_pubkey c rid = map_sum id ri_pubkey (get_info c rid)"

definition get_peer_id :: "replica_config \<Rightarrow> replica_id \<Rightarrow> err + peer_id" where
  "get_peer_id c rid = map_sum id ri_peer_id (get_info c rid)"

lemma map_insert_lookup:
  "map_of (map_insert k v m) = (if map_of m k = None then (map_of m)(k \<mapsto> v) else map_of m)"
  by (auto simp: map_insert_def map_add_def fun_eq_iff split: option.split)

lemma map_insert_keys:
  "set (map fst (map_insert k v m)) = insert k (set (map fst m))"
  by (auto simp: map_insert_def dom_map_of_conv_image_fst [symmetric] domIff)

lemma map_insert_distinct: "distinct (map fst m) \<Longrightarrow> distinct (map fst (map_insert k v m))"
  by (auto simp: map_insert_def map_of_eq_None_iff)

text \<open>The counter is the number of entries as long as no id is added twice.\<close>

definition config_wf :: "replica_config \<Rightarrow> bool" where
  "config_wf c \<longleftrightarrow> distinct (map fst (replica_map c)) \<and> unat (nreplicas c) = length (replica_map c)"

lemma config_wf_new: "config_wf config_new"
  by (simp add: config_wf_def config_new_def)

lemma config_wf_add:
  assumes "config_wf c" and "map_of (replica_map c) rid = None"
    and "length (replica_map c) < 2 ^ 64 - 1"
  shows "config_wf (config_add_replica rid info c)"
proof -
  have "unat (nreplicas c + 1) = unat (nreplicas c) + 1"
    using assms(1,3) by (simp add: config_wf_def unat_word_ariths)
  with assms(1,2) show ?thesis
    by (simp add: config_wf_def config_add_replica_def map_insert_def map_of_eq_None_iff)
qed

end
