(* ===== verification/Crypto_Cert.thy ===== *)
theory Crypto_Cert
  imports Data_Stream Replica_Config
begin

text \<open>
  Quorum certificates: \<open>_Bits<uint64_t>\<close> of \<open>salticidae/include/salticidae/stream.h\<close> and the
  certificates of \<open>flashorder/include/hotstuff/crypto.h\<close> and \<open>flashorder/src/crypto.cpp\<close>. The
  signature scheme itself (libsecp256k1) is an argument: \<open>vrf\<close> verifies a signature on a digest and
  \<open>psig\<close> parses the compact form of a signature.
\<close>

subsection \<open>Bit vectors\<close>

record bits =
  bdata :: "u64 list"
  nbits :: u32

text \<open>\<open>ndata\<close>, computed in 32 bits.\<close>

definition bits_ndata :: "u32 \<Rightarrow> nat" where
  "bits_ndata n = unat ((n + 63) div 64)"

text \<open>\<open>_Bits(uint32_t)\<close> allocates without initialising: \<open>mem\<close> is what the memory holds.\<close>

definition bits_new :: "(nat \<Rightarrow> u64) \<Rightarrow> u32 \<Rightarrow> bits" where
  "bits_new mem n = \<lparr>bdata = map mem [0..<bits_ndata n], nbits = n\<rparr>"

definition bits_clear :: "bits \<Rightarrow> bits" where
  "bits_clear b = b\<lparr>bdata := replicate (length (bdata b)) 0\<rparr>"

definition bits_get :: "u32 \<Rightarrow> bits \<Rightarrow> (bool, bits) res" where
  "bits_get idx b =
     (let i = unat (drop_bit 6 idx); pos = unat (and idx 63)
      in if length (bdata b) \<le> i then Exc Undefined_Behaviour b
         else Ok (and (drop_bit pos (bdata b ! i)) 1 \<noteq> 0) b)"

definition bits_set :: "u32 \<Rightarrow> bits \<Rightarrow> (unit, bits) res" where
  "bits_set idx b =
     (let i = unat (drop_bit 6 idx); pos = unat (and idx 63)
      in if length (bdata b) \<le> i then Exc Undefined_Behaviour b
         else let w = bdata b ! i
              in Ok () (b\<lparr>bdata := (bdata b)[i := xor w (push_bit pos (xor (and (drop_bit pos w) 1) 1))]\<rparr>))"

definition bits_unset :: "u32 \<Rightarrow> bits \<Rightarrow> (unit, bits) res" where
  "bits_unset idx b =
     (let i = unat (drop_bit 6 idx); pos = unat (and idx 63)
      in if length (bdata b) \<le> i then Exc Undefined_Behaviour b
         else let w = bdata b ! i
              in Ok () (b\<lparr>bdata := (bdata b)[i := xor w (push_bit pos (and (drop_bit pos w) 1))]\<rparr>))"

definition bits_flip :: "u32 \<Rightarrow> bits \<Rightarrow> (unit, bits) res" where
  "bits_flip idx b =
     (let i = unat (drop_bit 6 idx); pos = unat (and idx 63)
      in if length (bdata b) \<le> i then Exc Undefined_Behaviour b
         else Ok () (b\<lparr>bdata := (bdata b)[i := xor (bdata b ! i) (push_bit pos 1)]\<rparr>))"

definition bits_serialize :: "bits \<Rightarrow> data_stream \<Rightarrow> data_stream" where
  "bits_serialize b s = put_all ds_put (bdata b) (ds_put (nbits b) s)"

definition bits_unserialize :: "data_stream \<Rightarrow> (bits, data_stream) res" where
  "bits_unserialize s =
     res_bind (ds_get s) (\<lambda>n s.
     res_bind (get_n ds_get (bits_ndata n) s) (\<lambda>ws s. Ok \<lparr>bdata = ws, nbits = n\<rparr> s))"

subsection \<open>Certificates\<close>

type_synonym sig = bytes

text \<open>\<open>PartCertDummy\<close> and \<open>PartCertSecp256k1\<close>.\<close>

datatype part_cert =
    PartCertDummy (pc_obj_hash: uint256)
  | PartCertSecp256k1 (pc_obj_hash: uint256) (pc_sig: sig)

record secp_qc =
  sq_obj_hash :: uint256
  sq_rids :: bits
  sq_sigs :: "(replica_id \<times> sig) list"

datatype quorum_cert = QuorumCertDummy uint256 | QuorumCertSecp256k1 secp_qc

fun qc_get_obj_hash :: "quorum_cert \<Rightarrow> uint256" where
  "qc_get_obj_hash (QuorumCertDummy h) = h"
| "qc_get_obj_hash (QuorumCertSecp256k1 q) = sq_obj_hash q"

text \<open>The constructor with a configuration: \<open>rids(config.nreplicas)\<close>, then \<open>rids.clear()\<close>.\<close>

definition create_quorum_cert :: "(nat \<Rightarrow> u64) \<Rightarrow> replica_config \<Rightarrow> uint256 \<Rightarrow> quorum_cert" where
  "create_quorum_cert mem c h = QuorumCertSecp256k1
     \<lparr>sq_obj_hash = h, sq_rids = bits_clear (bits_new mem (ucast (nreplicas c))), sq_sigs = []\<rparr>"

text \<open>
  \<open>add_part\<close>. The dummy certificate ignores parts. The cast of the part of a secp256k1 certificate
  is unchecked, so a dummy part is undefined behaviour. \<open>sigs.insert\<close> keeps the first signature.
\<close>

fun qc_add_part :: "replica_id \<Rightarrow> part_cert \<Rightarrow> quorum_cert \<Rightarrow> (unit, quorum_cert) res" where
  "qc_add_part rid pc (QuorumCertDummy h) = Ok () (QuorumCertDummy h)"
| "qc_add_part rid pc (QuorumCertSecp256k1 q) =
     (if pc_obj_hash pc \<noteq> sq_obj_hash q
      then Exc (Invalid_Argument ''PartCert does match the block hash'') (QuorumCertSecp256k1 q)
      else case pc of
        PartCertDummy h \<Rightarrow> Exc Undefined_Behaviour (QuorumCertSecp256k1 q)
      | PartCertSecp256k1 h sg \<Rightarrow>
          let q = q\<lparr>sq_sigs := map_insert rid sg (sq_sigs q)\<rparr>
          in case bits_set (ucast rid) (sq_rids q) of
               Ok u b \<Rightarrow> Ok () (QuorumCertSecp256k1 (q\<lparr>sq_rids := b\<rparr>))
             | Exc e b \<Rightarrow> Exc e (QuorumCertSecp256k1 (q\<lparr>sq_rids := b\<rparr>)))"

text \<open>
  \<open>verify\<close>: the loop over the bits. A bit \<open>i\<close> is looked up as the 16-bit id \<open>i mod 2 ^ 16\<close>;
  \<open>sigs[i]\<close> of an absent id would be an uninitialised signature.
\<close>

fun qc_verify_loop :: "(uint256 \<Rightarrow> pubkey \<Rightarrow> sig \<Rightarrow> bool) \<Rightarrow> replica_config \<Rightarrow> secp_qc \<Rightarrow> nat list
    \<Rightarrow> (bool, secp_qc) res" where
  "qc_verify_loop vrf c q [] = Ok True q"
| "qc_verify_loop vrf c q (i # is) =
     (case bits_get (of_nat i) (sq_rids q) of
        Exc e b \<Rightarrow> Exc e q
      | Ok False b \<Rightarrow> qc_verify_loop vrf c q is
      | Ok True b \<Rightarrow>
          (case map_of (sq_sigs q) (of_nat i) of
             None \<Rightarrow> Exc Undefined_Behaviour q
           | Some sg \<Rightarrow>
               (case get_pubkey c (of_nat i) of
                  Inl e \<Rightarrow> Exc e q
                | Inr pk \<Rightarrow> if vrf (sq_obj_hash q) pk sg then qc_verify_loop vrf c q is else Ok False q)))"

fun qc_verify :: "(uint256 \<Rightarrow> pubkey \<Rightarrow> sig \<Rightarrow> bool) \<Rightarrow> replica_config \<Rightarrow> quorum_cert
    \<Rightarrow> (bool, quorum_cert) res" where
  "qc_verify vrf c (QuorumCertDummy h) = Ok True (QuorumCertDummy h)"
| "qc_verify vrf c (QuorumCertSecp256k1 q) =
     (if of_nat (length (sq_sigs q)) < nmajority c then Ok False (QuorumCertSecp256k1 q)
      else case qc_verify_loop vrf c q [0..<unat (nbits (sq_rids q))] of
             Ok r q \<Rightarrow> Ok r (QuorumCertSecp256k1 q)
           | Exc e q \<Rightarrow> Exc e (QuorumCertSecp256k1 q))"

text \<open>\<open>serialize\<close>: \<open>sigs.at(i)\<close> throws when the signature of a set bit is absent.\<close>

fun sigs_serialize :: "secp_qc \<Rightarrow> nat list \<Rightarrow> data_stream \<Rightarrow> (unit, data_stream) res" where
  "sigs_serialize q [] s = Ok () s"
| "sigs_serialize q (i # is) s =
     (case bits_get (of_nat i) (sq_rids q) of
        Exc e b \<Rightarrow> Exc e s
      | Ok False b \<Rightarrow> sigs_serialize q is s
      | Ok True b \<Rightarrow>
          (case map_of (sq_sigs q) (of_nat i) of
             None \<Rightarrow> Exc (Runtime_Error ''out of range'') s
           | Some sg \<Rightarrow> sigs_serialize q is (ds_put_data sg s)))"

fun qc_serialize :: "quorum_cert \<Rightarrow> data_stream \<Rightarrow> (unit, data_stream) res" where
  "qc_serialize (QuorumCertDummy h) s = Ok () (uint256_serialize h (ds_put (1 :: u32) s))"
| "qc_serialize (QuorumCertSecp256k1 q) s =
     sigs_serialize q [0..<unat (nbits (sq_rids q))]
       (bits_serialize (sq_rids q) (uint256_serialize (sq_obj_hash q) s))"

text \<open>
  \<open>unserialize\<close> of the secp256k1 certificate. \<open>SigSecp256k1::unserialize\<close> turns a short buffer into
  its own exception; \<open>s >> sigs[i]\<close> replaces an earlier signature of the same 16-bit id.
\<close>

definition sig_unserialize :: "(bytes \<Rightarrow> sig option) \<Rightarrow> data_stream \<Rightarrow> (sig, data_stream) res" where
  "sig_unserialize psig s =
     (case ds_get_data_inplace 64 s of
        Exc e t \<Rightarrow> Exc (Invalid_Argument ''ill-formed signature'') t
      | Ok bs t \<Rightarrow> (case psig bs of
          None \<Rightarrow> Exc (Invalid_Argument ''ill-formed signature'') t
        | Some sg \<Rightarrow> Ok sg t))"

fun sigs_unserialize :: "(bytes \<Rightarrow> sig option) \<Rightarrow> bits \<Rightarrow> (replica_id \<times> sig) list \<Rightarrow> nat list \<Rightarrow> data_stream
    \<Rightarrow> ((replica_id \<times> sig) list, data_stream) res" where
  "sigs_unserialize psig b m [] s = Ok m s"
| "sigs_unserialize psig b m (i # is) s =
     (case bits_get (of_nat i) b of
        Exc e b' \<Rightarrow> Exc e s
      | Ok False b' \<Rightarrow> sigs_unserialize psig b m is s
      | Ok True b' \<Rightarrow> res_bind (sig_unserialize psig s)
          (\<lambda>sg s. sigs_unserialize psig b (AList.update (of_nat i) sg m) is s))"

definition qc_unserialize :: "(bytes \<Rightarrow> sig option) \<Rightarrow> data_stream \<Rightarrow> (quorum_cert, data_stream) res" where
  "qc_unserialize psig s =
     res_bind (uint256_unserialize s) (\<lambda>h s.
     res_bind (bits_unserialize s) (\<lambda>b s.
     res_bind (sigs_unserialize psig b [] [0..<unat (nbits b)] s) (\<lambda>m s.
       Ok (QuorumCertSecp256k1 \<lparr>sq_obj_hash = h, sq_rids = b, sq_sigs = m\<rparr>) s)))"

text \<open>The parts of both kinds.\<close>

fun pc_serialize :: "part_cert \<Rightarrow> data_stream \<Rightarrow> data_stream" where
  "pc_serialize (PartCertDummy h) s = uint256_serialize h (ds_put (0 :: u32) s)"
| "pc_serialize (PartCertSecp256k1 h sg) s = ds_put_data sg (uint256_serialize h s)"

definition pc_unserialize :: "(bytes \<Rightarrow> sig option) \<Rightarrow> data_stream \<Rightarrow> (part_cert, data_stream) res" where
  "pc_unserialize psig s =
     res_bind (uint256_unserialize s) (\<lambda>h s.
     res_bind (sig_unserialize psig s) (\<lambda>sg s. Ok (PartCertSecp256k1 h sg) s))"

fun pc_verify :: "(uint256 \<Rightarrow> pubkey \<Rightarrow> sig \<Rightarrow> bool) \<Rightarrow> pubkey \<Rightarrow> part_cert \<Rightarrow> bool" where
  "pc_verify vrf pk (PartCertDummy h) = True"
| "pc_verify vrf pk (PartCertSecp256k1 h sg) = vrf h pk sg"

subsection \<open>Facts on bit vectors\<close>

definition bits_ok :: "bits \<Rightarrow> bool" where
  "bits_ok b \<longleftrightarrow> length (bdata b) = bits_ndata (nbits b)"

text \<open>The set of the bits that are one.\<close>

definition bits_mem :: "bits \<Rightarrow> u32 \<Rightarrow> bool" where
  "bits_mem b idx \<longleftrightarrow> unat (drop_bit 6 idx) < length (bdata b) \<and>
     bit (bdata b ! unat (drop_bit 6 idx)) (unat (and idx 63))"

lemma and_63_less: "unat (and idx (63 :: u32)) < 64"
proof -
  have "and idx 63 = take_bit 6 idx"
    by (simp add: take_bit_eq_mask mask_eq_decr_exp)
  then have "unat (and idx 63) = take_bit 6 (unat idx)"
    by (simp add: unsigned_take_bit_eq)
  then show ?thesis
    using take_bit_nat_less_exp [of 6 "unat idx"] by simp
qed

lemma word_and_one_bit: "and (drop_bit n w) 1 = (of_bool (bit w n) :: u64)"
  by (simp add: and_one_eq mod_2_eq_odd bit_iff_odd_drop_bit)

lemma bits_get_mem:
  "unat (drop_bit 6 idx) < length (bdata b) \<Longrightarrow> bits_get idx b = Ok (bits_mem b idx) b"
  by (simp add: bits_get_def bits_mem_def Let_def word_and_one_bit)

lemma idx_split: "drop_bit 6 i = drop_bit 6 j \<Longrightarrow> and i 63 = and j (63 :: u32) \<Longrightarrow> i = j"
proof -
  assume "drop_bit 6 i = drop_bit 6 j" and "and i 63 = and j (63 :: u32)"
  moreover have "and k 63 = take_bit 6 k" for k :: u32
    by (simp add: take_bit_eq_mask mask_eq_decr_exp)
  ultimately show "i = j"
    by (metis bits_ident)
qed

lemma bits_set_mem:
  assumes "unat (drop_bit 6 idx) < length (bdata b)"
  obtains b' where "bits_set idx b = Ok () b'" and "nbits b' = nbits b"
    and "length (bdata b') = length (bdata b)"
    and "\<And>j. bits_mem b' j \<longleftrightarrow> j = idx \<or> bits_mem b j"
proof -
  let ?i = "unat (drop_bit 6 idx)" and ?pos = "unat (and idx 63)"
  let ?w = "bdata b ! ?i"
  let ?b = "b\<lparr>bdata := (bdata b)[?i := xor ?w (push_bit ?pos (xor (and (drop_bit ?pos ?w) 1) 1))]\<rparr>"
  have set: "bits_set idx b = Ok () ?b"
    using assms by (simp add: bits_set_def Let_def)
  have w: "bit (xor ?w (push_bit ?pos (xor (and (drop_bit ?pos ?w) 1) 1))) k \<longleftrightarrow> k = ?pos \<or> bit ?w k"
    if "k < 64" for k
    using that and_63_less [of idx]
    by (auto simp: word_and_one_bit bit_xor_iff bit_push_bit_iff bit_1_iff bit_exp_iff)
  have "bits_mem ?b j \<longleftrightarrow> j = idx \<or> bits_mem b j" for j
  proof (cases "drop_bit 6 j = drop_bit 6 idx")
    case True
    have "unat (and j 63) = ?pos \<longleftrightarrow> j = idx"
      using idx_split [OF True] by (metis word_unat_eq_iff)
    with True assms w [OF and_63_less [of j]] show ?thesis
      by (simp add: bits_mem_def)
  next
    case False
    then have "unat (drop_bit 6 j) \<noteq> ?i" and "j \<noteq> idx"
      by (metis word_unat_eq_iff, metis)
    then show ?thesis
      by (simp add: bits_mem_def)
  qed
  with set show ?thesis
    by (intro that [of ?b]) simp_all
qed


lemma bits_ndata_less: "unat n \<le> 2 ^ 32 - 64 \<Longrightarrow> i < unat n \<Longrightarrow> i div 64 < bits_ndata n"
proof -
  assume n: "unat n \<le> 2 ^ 32 - 64" and i: "i < unat n"
  have "unat (n + 63) = unat n + 63"
    using n by (simp add: unat_word_ariths)
  then have "bits_ndata n = (unat n + 63) div 64"
    by (simp add: bits_ndata_def unat_div)
  with i show ?thesis
    by linarith
qed

lemma unat_drop_bit_6: "unat (drop_bit 6 (of_nat i :: u32)) = (i mod 2 ^ 32) div 64"
proof -
  have "unat (drop_bit 6 (of_nat i :: u32)) = drop_bit 6 (unat (of_nat i :: u32))"
    by (rule unat_drop_bit_eq)
  then show ?thesis
    by (simp add: unat_of_nat drop_bit_eq_div take_bit_eq_mod)
qed

lemma bits_get_ok:
  assumes "bits_ok b" and "unat (nbits b) \<le> 2 ^ 32 - 64" and "i < unat (nbits b)"
  shows "bits_get (of_nat i) b = Ok (bits_mem b (of_nat i)) b"
proof -
  have "i mod 2 ^ 32 = i"
    using assms(2,3) by simp
  then show ?thesis
    using bits_ndata_less [OF assms(2,3)] assms(1) by (intro bits_get_mem) (simp add: unat_drop_bit_6 bits_ok_def)
qed

subsection \<open>The bit vector on the wire\<close>

definition bits_enc :: "bits \<Rightarrow> bytes" where
  "bits_enc b = le_bytes 4 (nbits b) @ concat (map (le_bytes 8) (bdata b))"

interpretation bitsc: codec bits_serialize bits_unserialize bits_enc bits_ok
proof unfold_locales
  show "bits_serialize b s = ds_put_data (bits_enc b) s" for b s
    by (simp add: bits_serialize_def bits_enc_def u32c.put_enc u64c.put_all_enc list_all_iff ds_put_data_append)
next
  fix s b post
  assume wf: "ds_wf s" and ok: "bits_ok b" and bs: "ds_bytes s = bits_enc b @ post"
  have 1: "ds_get s = Ok (nbits b) (ds_skip 4 s)"
    using u32c.get_enc [OF wf] bs by (simp add: bits_enc_def)
  have "ds_wf (ds_skip 4 s)"
    using wf bs by (intro ds_wf_skip) (simp_all add: bits_enc_def)
  moreover have "ds_bytes (ds_skip 4 s) = concat (map (le_bytes 8) (bdata b)) @ post"
    by (simp add: bs bits_enc_def)
  ultimately have "get_n ds_get (length (bdata b)) (ds_skip 4 s)
      = Ok (bdata b) (ds_skip (length (concat (map (le_bytes 8) (bdata b)))) (ds_skip 4 s))"
    by (intro u64c.get_n_enc) (simp_all add: list_all_iff)
  with 1 ok show "bits_unserialize s = Ok b (ds_skip (length (bits_enc b)) s)"
    by (simp add: bits_unserialize_def bits_ok_def bits_enc_def)
qed

subsection \<open>Certificates on the wire\<close>

definition sig_ok :: "(bytes \<Rightarrow> sig option) \<Rightarrow> sig \<Rightarrow> bool" where
  "sig_ok psig sg \<longleftrightarrow> length sg = 64 \<and> psig sg = Some sg"

lemma ds_get_data_inplace_bytes:
  assumes "ds_wf s" and "ds_bytes s = bs @ post"
  shows "ds_get_data_inplace (length bs) s = Ok bs (ds_skip (length bs) s)"
proof -
  have "length (buffer s) = offset s + length bs + length post"
    using assms(1) arg_cong [OF assms(2), of length] by (simp add: ds_wf_def ds_bytes_def)
  then show ?thesis
    using assms(2) by (simp add: ds_get_data_inplace_def ds_skip_def ds_bytes_def Let_def)
qed

interpretation sigc: codec ds_put_data "sig_unserialize psig" id "sig_ok psig" for psig
proof unfold_locales
  show "ds_put_data x s = ds_put_data (id x) s" for x s
    by simp
  show "sig_unserialize psig s = Ok sg (ds_skip (length (id sg)) s)"
    if "ds_wf s" "sig_ok psig sg" "ds_bytes s = id sg @ post" for s sg post
    using ds_get_data_inplace_bytes [of s sg post] that by (simp add: sig_unserialize_def sig_ok_def)
qed

interpretation pcc: codec pc_serialize "pc_unserialize psig"
    "\<lambda>pc. uint256_enc (pc_obj_hash pc) @ (case pc of PartCertSecp256k1 h sg \<Rightarrow> sg | _ \<Rightarrow> [])"
    "\<lambda>pc. case pc of PartCertSecp256k1 h sg \<Rightarrow> sig_ok psig sg | _ \<Rightarrow> False" for psig
proof unfold_locales
  fix pc s
  assume "case pc of PartCertSecp256k1 h sg \<Rightarrow> sig_ok psig sg | _ \<Rightarrow> False"
  then show "pc_serialize pc s
      = ds_put_data (uint256_enc (pc_obj_hash pc) @ (case pc of PartCertSecp256k1 h sg \<Rightarrow> sg | _ \<Rightarrow> [])) s"
    by (cases pc) (simp_all add: u256c.put_enc ds_put_data_append)
next
  fix s pc post
  assume wf: "ds_wf s" and ok: "case pc of PartCertSecp256k1 h sg \<Rightarrow> sig_ok psig sg | _ \<Rightarrow> False"
    and bs: "ds_bytes s = (uint256_enc (pc_obj_hash pc) @ (case pc of PartCertSecp256k1 h sg \<Rightarrow> sg | _ \<Rightarrow> [])) @ post"
  obtain h sg where pc: "pc = PartCertSecp256k1 h sg" and sg: "sig_ok psig sg"
    using ok by (cases pc) simp_all
  have 1: "uint256_unserialize s = Ok h (ds_skip 32 s)"
    using u256c.get_enc [OF wf TrueI] bs by (simp add: pc)
  have "ds_wf (ds_skip 32 s)"
    using wf bs by (intro ds_wf_skip) (simp_all add: pc)
  then have "sig_unserialize psig (ds_skip 32 s) = Ok sg (ds_skip (length sg) (ds_skip 32 s))"
    using sigc.get_enc [OF _ sg, of "ds_skip 32 s" post] bs by (simp add: pc)
  with 1 show "pc_unserialize psig s = Ok pc (ds_skip (length
      (uint256_enc (pc_obj_hash pc) @ (case pc of PartCertSecp256k1 h sg \<Rightarrow> sg | _ \<Rightarrow> []))) s)"
    by (simp add: pc_unserialize_def pc)
qed

text \<open>
  A certificate whose bit vector has its length, whose signatures are those of the set bits, in
  the order of the bits, and parse back.
\<close>

definition set_bits :: "bits \<Rightarrow> nat list \<Rightarrow> nat list" where
  "set_bits b is = filter (\<lambda>i. bits_mem b (of_nat i)) is"

definition sqc_ok :: "(bytes \<Rightarrow> sig option) \<Rightarrow> secp_qc \<Rightarrow> bool" where
  "sqc_ok psig q \<longleftrightarrow>
     bits_ok (sq_rids q) \<and> unat (nbits (sq_rids q)) \<le> 2 ^ 16 \<and>
     map fst (sq_sigs q) = map of_nat (set_bits (sq_rids q) [0..<unat (nbits (sq_rids q))]) \<and>
     list_all (sig_ok psig \<circ> snd) (sq_sigs q)"

definition sqc_enc :: "secp_qc \<Rightarrow> bytes" where
  "sqc_enc q = uint256_enc (sq_obj_hash q) @ bits_enc (sq_rids q) @ concat (map snd (sq_sigs q))"

lemma of_nat_inj16: "inj_on (of_nat :: nat \<Rightarrow> replica_id) {..<2 ^ 16}"
  by (auto simp: inj_on_def word_unat_eq_iff unat_of_nat take_bit_nat_eq_self)

lemma sigs_serialize_ok:
  assumes get: "\<And>i. i \<in> set is \<Longrightarrow> bits_get (of_nat i) (sq_rids q) = Ok (bits_mem (sq_rids q) (of_nat i)) (sq_rids q)"
    and sigs: "\<And>i. i \<in> set (set_bits (sq_rids q) is) \<Longrightarrow> map_of (sq_sigs q) (of_nat i) \<noteq> None"
  shows "sigs_serialize q is s =
    Ok () (ds_put_data (concat (map (\<lambda>i. the (map_of (sq_sigs q) (of_nat i))) (set_bits (sq_rids q) is))) s)"
  using assms
proof (induction "is" arbitrary: s)
  case Nil
  then show ?case by (simp add: set_bits_def)
next
  case (Cons i js)
  have g: "bits_get (of_nat i) (sq_rids q) = Ok (bits_mem (sq_rids q) (of_nat i)) (sq_rids q)"
    using Cons.prems(1) [of i] by simp
  have IH: "sigs_serialize q js s =
      Ok () (ds_put_data (concat (map (\<lambda>i. the (map_of (sq_sigs q) (of_nat i))) (set_bits (sq_rids q) js))) s)" for s
    using Cons by (simp add: set_bits_def)
  show ?case
  proof (cases "bits_mem (sq_rids q) (of_nat i)")
    case True
    then obtain sg where "map_of (sq_sigs q) (of_nat i) = Some sg"
      using Cons.prems(2) [of i] by (auto simp: set_bits_def)
    with True g show ?thesis
      by (simp add: IH set_bits_def ds_put_data_append)
  next
    case False
    with g show ?thesis
      by (simp add: IH set_bits_def)
  qed
qed

lemma update_fresh: "k \<notin> set (map fst m) \<Longrightarrow> AList.update k v m = m @ [(k, v)]"
  by (induction m) auto

lemma sigs_unserialize_ok:
  assumes "\<And>i. i \<in> set is \<Longrightarrow> bits_get (of_nat i) b = Ok (bits_mem b (of_nat i)) b"
    and "map fst ms = map of_nat (set_bits b is)" and "list_all (sig_ok psig \<circ> snd) ms"
    and "distinct (map fst (m @ ms))"
    and "ds_wf s" and "ds_bytes s = concat (map snd ms) @ post"
  shows "sigs_unserialize psig b m is s = Ok (m @ ms) (ds_skip (length (concat (map snd ms))) s)"
  using assms
proof (induction "is" arbitrary: m ms s)
  case Nil
  then show ?case by (simp add: set_bits_def)
next
  case (Cons i js)
  have g: "bits_get (of_nat i) b = Ok (bits_mem b (of_nat i)) b"
    using Cons.prems(1) [of i] by simp
  have js: "\<And>i. i \<in> set js \<Longrightarrow> bits_get (of_nat i) b = Ok (bits_mem b (of_nat i)) b"
    using Cons.prems(1) by simp
  show ?case
  proof (cases "bits_mem b (of_nat i)")
    case True
    then obtain sg ms' where ms: "ms = (of_nat i, sg) # ms'" and ms': "map fst ms' = map of_nat (set_bits b js)"
      using Cons.prems(2) by (auto simp: set_bits_def map_eq_Cons_conv)
    have sg: "sig_unserialize psig s = Ok sg (ds_skip (length sg) s)"
      using sigc.get_enc [of s psig sg] Cons.prems(3,5,6) by (simp add: ms)
    have "ds_wf (ds_skip (length sg) s)"
      using Cons.prems(5,6) by (intro ds_wf_skip) (simp_all add: ms)
    then have "sigs_unserialize psig b (m @ [(of_nat i, sg)]) js (ds_skip (length sg) s)
        = Ok ((m @ [(of_nat i, sg)]) @ ms') (ds_skip (length (concat (map snd ms'))) (ds_skip (length sg) s))"
      using Cons.prems(3,4,6) by (intro Cons.IH [OF js ms']) (simp_all add: ms)
    moreover have "AList.update (of_nat i) sg m = m @ [(of_nat i, sg)]"
      using Cons.prems(4) by (intro update_fresh) (simp add: ms)
    ultimately show ?thesis
      using True g sg by (simp add: ms)
  next
    case False
    then have "map fst ms = map of_nat (set_bits b js)"
      using Cons.prems(2) by (simp add: set_bits_def)
    then have "sigs_unserialize psig b m js s = Ok (m @ ms) (ds_skip (length (concat (map snd ms))) s)"
      using Cons.prems(3-6) by (intro Cons.IH [OF js])
    with False g show ?thesis
      by simp
  qed
qed

lemma sqc_gets:
  assumes "sqc_ok psig q" and "i \<in> set [0..<unat (nbits (sq_rids q))]"
  shows "bits_get (of_nat i) (sq_rids q) = Ok (bits_mem (sq_rids q) (of_nat i)) (sq_rids q)"
  using assms by (intro bits_get_ok) (simp_all add: sqc_ok_def)

lemma sqc_keys_distinct:
  assumes "sqc_ok psig q"
  shows "distinct (map fst (sq_sigs q))"
proof -
  have "set (set_bits (sq_rids q) [0..<unat (nbits (sq_rids q))]) \<subseteq> {..<2 ^ 16}"
    using assms by (auto simp: sqc_ok_def set_bits_def)
  then have "inj_on (of_nat :: nat \<Rightarrow> replica_id) (set (set_bits (sq_rids q) [0..<unat (nbits (sq_rids q))]))"
    by (rule inj_on_subset [OF of_nat_inj16])
  then show ?thesis
    using assms by (simp add: sqc_ok_def distinct_map set_bits_def)
qed

lemma map_of_keys: "distinct (map fst m) \<Longrightarrow> map (\<lambda>k. the (map_of m k)) (map fst m) = map snd m"
  by (induction m) (auto intro!: map_cong simp: image_iff)

lemma qc_serialize_ok:
  assumes "sqc_ok psig q"
  shows "qc_serialize (QuorumCertSecp256k1 q) s = Ok () (ds_put_data (sqc_enc q) s)"
proof -
  let ?is = "[0..<unat (nbits (sq_rids q))]"
  have keys: "map fst (sq_sigs q) = map of_nat (set_bits (sq_rids q) ?is)"
    using assms by (simp add: sqc_ok_def)
  have ser: "sigs_serialize q ?is t = Ok () (ds_put_data
      (concat (map (\<lambda>i. the (map_of (sq_sigs q) (of_nat i))) (set_bits (sq_rids q) ?is))) t)" for t
  proof (rule sigs_serialize_ok)
    show "map_of (sq_sigs q) (of_nat i) \<noteq> None" if "i \<in> set (set_bits (sq_rids q) ?is)" for i
      using that arg_cong [OF keys, of set] by (auto simp: map_of_eq_None_iff)
  qed (rule sqc_gets [OF assms])
  have "map (\<lambda>i. the (map_of (sq_sigs q) (of_nat i))) (set_bits (sq_rids q) ?is)
      = map (\<lambda>k. the (map_of (sq_sigs q) k)) (map fst (sq_sigs q))"
    unfolding keys by (simp add: comp_def)
  also have "\<dots> = map snd (sq_sigs q)"
    by (rule map_of_keys [OF sqc_keys_distinct [OF assms]])
  finally have vals: "map (\<lambda>i. the (map_of (sq_sigs q) (of_nat i))) (set_bits (sq_rids q) ?is) = map snd (sq_sigs q)" .
  have bits: "bits_serialize (sq_rids q) t = ds_put_data (bits_enc (sq_rids q)) t" for t
    using assms by (intro bitsc.put_enc) (simp add: sqc_ok_def)
  show ?thesis
    unfolding qc_serialize.simps ser vals bits by (simp add: sqc_enc_def u256c.put_enc ds_put_data_append)
qed

text \<open>\<open>qc_put\<close> is the serialisation of a certificate that can be serialised.\<close>

definition qc_put :: "secp_qc \<Rightarrow> data_stream \<Rightarrow> data_stream" where
  "qc_put q s = res_state (qc_serialize (QuorumCertSecp256k1 q) s)"

definition qc_get :: "(bytes \<Rightarrow> sig option) \<Rightarrow> data_stream \<Rightarrow> (secp_qc, data_stream) res" where
  "qc_get psig s = res_bind (qc_unserialize psig s)
     (\<lambda>qc s. case qc of QuorumCertSecp256k1 q \<Rightarrow> Ok q s | _ \<Rightarrow> Exc Undefined_Behaviour s)"

lemma qc_unserialize_ok:
  assumes wf: "ds_wf s" and ok: "sqc_ok psig q" and bs: "ds_bytes s = sqc_enc q @ post"
  shows "qc_unserialize psig s = Ok (QuorumCertSecp256k1 q) (ds_skip (length (sqc_enc q)) s)"
proof -
  let ?b = "sq_rids q" and ?m = "sq_sigs q"
  let ?s1 = "ds_skip 32 s"
  let ?s2 = "ds_skip (length (bits_enc ?b)) ?s1"
  have 1: "uint256_unserialize s = Ok (sq_obj_hash q) ?s1"
    using u256c.get_enc [OF wf TrueI] bs by (simp add: sqc_enc_def)
  have wf1: "ds_wf ?s1"
    using wf bs by (intro ds_wf_skip) (simp_all add: sqc_enc_def)
  have 2: "bits_unserialize ?s1 = Ok ?b ?s2"
    using wf1 ok bs by (intro bitsc.get_enc) (simp_all add: sqc_ok_def sqc_enc_def)
  have wf2: "ds_wf ?s2"
    using wf1 by (rule ds_wf_skip) (simp add: bs sqc_enc_def)
  have "sigs_unserialize psig ?b [] [0..<unat (nbits ?b)] ?s2
      = Ok ([] @ ?m) (ds_skip (length (concat (map snd ?m))) ?s2)"
  proof (rule sigs_unserialize_ok)
    show "ds_bytes ?s2 = concat (map snd ?m) @ post"
      by (simp add: bs sqc_enc_def)
  qed (use ok sqc_gets [OF ok] sqc_keys_distinct [OF ok] wf2 in \<open>simp_all add: sqc_ok_def\<close>)
  then show ?thesis
    by (simp add: qc_unserialize_def 1 2 sqc_enc_def add.assoc)
qed

interpretation qcc: codec qc_put "qc_get psig" sqc_enc "sqc_ok psig" for psig
  by unfold_locales (simp_all only: qc_put_def qc_serialize_ok qc_get_def qc_unserialize_ok
      res_bind.simps res_state.simps quorum_cert.case)

text \<open>The serialised form of a certificate reads back as the certificate.\<close>

theorem certificate_round_trip:
  assumes "sqc_ok psig q"
  shows "\<exists>s t. qc_serialize (QuorumCertSecp256k1 q) ds_new = Ok () s \<and>
    qc_unserialize psig s = Ok (QuorumCertSecp256k1 q) t \<and> ds_bytes t = []"
proof -
  have "qc_unserialize psig (ds_put_data (sqc_enc q) ds_new)
      = Ok (QuorumCertSecp256k1 q) (ds_skip (length (sqc_enc q)) (ds_put_data (sqc_enc q) ds_new))"
    using assms by (intro qc_unserialize_ok [where post = "[]"]) simp_all
  then show ?thesis
    unfolding qc_serialize_ok [OF assms] by simp
qed

definition example_qc :: secp_qc where
  "example_qc = \<lparr>sq_obj_hash = h256 7, sq_rids = \<lparr>bdata = [5], nbits = 3\<rparr>,
     sq_sigs = [(0, replicate 64 1), (2, replicate 64 9)]\<rparr>"

lemma example_qc_ok: "sqc_ok Some example_qc"
proof -
  have "set_bits \<lparr>bdata = [5], nbits = 3\<rparr> [0..<3] = [0, 2]"
    by (simp add: set_bits_def bits_mem_def upt_rec)
  then show ?thesis
    by (simp add: sqc_ok_def example_qc_def sig_ok_def bits_ok_def bits_ndata_def)
qed

theorem certificate_round_trip_witness:
  "\<exists>s t. qc_serialize (QuorumCertSecp256k1 example_qc) ds_new = Ok () s \<and>
    qc_unserialize Some s = Ok (QuorumCertSecp256k1 example_qc) t \<and> ds_bytes t = []"
  by (rule certificate_round_trip [OF example_qc_ok])

subsection \<open>What a verified certificate proves\<close>

lemma map_of_update: "map_of (AList.update k v m) = (map_of m)(k \<mapsto> v)"
  by (rule update_conv')

text \<open>The 16-bit ids of the set bits among \<open>is\<close>.\<close>

definition ids_of :: "bits \<Rightarrow> nat list \<Rightarrow> replica_id set" where
  "ids_of b is = of_nat ` {i \<in> set is. \<exists>b'. bits_get (of_nat i) b = Ok True b'}"

lemma ids_of_Cons:
  "ids_of b (i # is) = (if \<exists>b'. bits_get (of_nat i) b = Ok True b' then {of_nat i} else {}) \<union> ids_of b is"
  by (auto simp: ids_of_def)

lemma update_key_set: "set (map fst (AList.update k v m)) = insert k (set (map fst m))"
  unfolding update_keys by auto

lemma sigs_unserialize_keys:
  "sigs_unserialize psig b m is s = Ok m' t \<Longrightarrow> distinct (map fst m) \<Longrightarrow>
   distinct (map fst m') \<and> set (map fst m') = set (map fst m) \<union> ids_of b is"
proof (induction "is" arbitrary: m s)
  case Nil
  then show ?case by (simp add: ids_of_def)
next
  case (Cons i js)
  consider b' where "bits_get (of_nat i) b = Ok False b'" | b' where "bits_get (of_nat i) b = Ok True b'"
    using Cons.prems(1) by (cases "bits_get (of_nat i) b") (auto split: bool.splits)
  then show ?case
  proof cases
    case 1
    with Cons show ?thesis by (simp add: ids_of_Cons)
  next
    case 2
    with Cons.prems(1) obtain sg s1 where sg: "sig_unserialize psig s = Ok sg s1"
      and rest: "sigs_unserialize psig b (AList.update (of_nat i) sg m) js s1 = Ok m' t"
      by (auto elim: res_bind_OkE)
    have "distinct (map fst (AList.update (of_nat i) sg m))"
      using Cons.prems(2) by (rule distinct_update)
    from Cons.IH [OF rest this] 2 show ?thesis
      unfolding update_key_set ids_of_Cons by auto
  qed
qed

lemma qc_verify_loop_true:
  "qc_verify_loop vrf c q is = Ok True q' \<Longrightarrow> r \<in> ids_of (sq_rids q) is \<Longrightarrow>
   \<exists>sg pk. map_of (sq_sigs q) r = Some sg \<and> get_pubkey c r = Inr pk \<and> vrf (sq_obj_hash q) pk sg"
proof (induction "is")
  case Nil
  then show ?case by (simp add: ids_of_def)
next
  case (Cons i js)
  then show ?case
    by (auto simp: ids_of_Cons split: res.splits bool.splits option.splits sum.splits if_splits)
qed

lemma length_distinct_keys16:
  assumes "distinct (map fst (m :: (replica_id \<times> 'a) list))"
  shows "length m = card (set (map fst m))" and "length m \<le> 2 ^ 16"
proof -
  show len: "length m = card (set (map fst m))"
    using distinct_card [OF assms] by simp
  have "card (set (map fst m)) \<le> card (UNIV :: replica_id set)"
    by (intro card_mono) simp_all
  also have "card (UNIV :: replica_id set) = 2 ^ 16"
    by (simp add: card_word)
  finally show "length m \<le> 2 ^ 16"
    by (simp add: len)
qed


definition example_config :: replica_config where
  "example_config = (fold (\<lambda>r. config_add_replica r \<lparr>ri_id = r, ri_peer_id = [], ri_pubkey = []\<rparr>)
     [0, 1, 2, 3] config_new)\<lparr>nmajority := 2\<rparr>"

definition example_vrf :: "uint256 \<Rightarrow> pubkey \<Rightarrow> sig \<Rightarrow> bool" where
  "example_vrf h pk sg \<longleftrightarrow> length sg = 64 \<and> h = h256 7"


subsection \<open>A bit count that wraps\<close>

text \<open>
  A bit count of 2^32 - 1 on the wire wraps when the word count is computed, so no word is
  read, and the first access of a bit is out of bounds: reading a certificate with this count
  is undefined behaviour.
\<close>

theorem bit_count_wraps:
  "qc_unserialize psig (ds_of_bytes (uint256_enc h @ [255, 255, 255, 255]))
   = Exc Undefined_Behaviour (ds_skip 36 (ds_of_bytes (uint256_enc h @ [255, 255, 255, 255])))"
proof -
  let ?s = "ds_of_bytes (uint256_enc h @ [255, 255, 255, 255])"
  let ?b = "\<lparr>bdata = [], nbits = 4294967295\<rparr>"
  have wf: "ds_wf ?s" and bs: "ds_bytes ?s = uint256_enc h @ [255, 255, 255, 255]"
    by (simp_all add: ds_wf_def ds_of_bytes_def ds_bytes_def)
  have 1: "uint256_unserialize ?s = Ok h (ds_skip 32 ?s)"
    using u256c.get_enc [OF wf TrueI bs] by simp
  have enc: "bits_enc ?b = [255, 255, 255, 255]"
    by (simp add: bits_enc_def le_bytes_def upt_rec)
  have "ds_wf (ds_skip 32 ?s)"
    using wf bs by (intro ds_wf_skip) simp_all
  then have 2: "bits_unserialize (ds_skip 32 ?s) = Ok ?b (ds_skip 36 ?s)"
    using bitsc.get_enc [of "ds_skip 32 ?s" ?b "[]"] bs enc
    by (simp add: bits_ok_def bits_ndata_def)
  have first: "sigs_unserialize psig ?b [] [0..<n] t = Exc Undefined_Behaviour t" if "0 < n" for n t
  proof -
    have "[0..<n] = 0 # [1..<n]"
      using that by (simp add: upt_conv_Cons)
    then show ?thesis
      by (simp add: bits_get_def Let_def)
  qed
  have "0 < unat (nbits ?b)"
    by simp
  from first [OF this] have "sigs_unserialize psig ?b [] [0..<unat (nbits ?b)] (ds_skip 36 ?s)
      = Exc Undefined_Behaviour (ds_skip 36 ?s)" .
  then show ?thesis
    by (simp only: qc_unserialize_def 1 2 res_bind.simps bits.simps)
qed

end
