(* ===== verification/Entity.thy ===== *)
theory Entity
  imports Crypto_Cert
begin

text \<open>
  \<open>Block\<close> of \<open>flashorder/include/hotstuff/entity.h\<close> with its codec in \<open>flashorder/src/entity.cpp\<close>.
  Blocks are shared through counted references, so a reference (\<open>block_t\<close>) is an address of a heap
  the core's state holds. SHA-256 (OpenSSL) is the argument \<open>sha\<close>.
\<close>

type_synonym ref = nat

record block =
  parent_hashes :: "uint256 list"
  blk_cmds :: "uint256 list"
  blk_qc :: "quorum_cert option"
  extra :: bytes
  blk_hash :: uint256
  parents :: "ref list"
  qc_ref :: "ref option"
  self_qc :: "quorum_cert option"
  height :: u32
  delivered :: bool
  decision :: u8
  voted :: "replica_id set"

text \<open>\<open>Block()\<close>; the hash is null until it is computed.\<close>

definition block_empty :: block where
  "block_empty = \<lparr>parent_hashes = [], blk_cmds = [], blk_qc = None, extra = [], blk_hash = 0,
     parents = [], qc_ref = None, self_qc = None, height = 0, delivered = False, decision = 0, voted = {}\<rparr>"

definition block_serialize :: "block \<Rightarrow> data_stream \<Rightarrow> (unit, data_stream) res" where
  "block_serialize b s =
     (let s = put_vec uint256_serialize (blk_cmds b) (put_vec uint256_serialize (parent_hashes b) s)
      in case blk_qc b of
           None \<Rightarrow> Exc Undefined_Behaviour s
         | Some qc \<Rightarrow> res_bind (qc_serialize qc s) (\<lambda>u s.
             Ok () (ds_put_data (extra b) (ds_put (of_nat (length (extra b)) :: u32) s))))"

text \<open>\<open>salticidae::get_hash(*this)\<close>.\<close>

definition block_get_hash :: "(bytes \<Rightarrow> uint256) \<Rightarrow> block \<Rightarrow> err + uint256" where
  "block_get_hash sha b =
     (case block_serialize b ds_new of Ok u s \<Rightarrow> Inr (sha (ds_bytes s)) | Exc e s \<Rightarrow> Inl e)"

text \<open>\<open>Block(bool delivered, int8_t decision)\<close>, the genesis block; its dummy certificate has a null hash.\<close>

definition block_genesis :: "(bytes \<Rightarrow> uint256) \<Rightarrow> bool \<Rightarrow> u8 \<Rightarrow> err + block" where
  "block_genesis sha dlv dec =
     (let b = block_empty\<lparr>blk_qc := Some (QuorumCertDummy 0), delivered := dlv, decision := dec\<rparr>
      in map_sum id (\<lambda>h. b\<lparr>blk_hash := h\<rparr>) (block_get_hash sha b))"

text \<open>The constructor of a proposed block; \<open>ps\<close> are the parents' addresses in the heap \<open>hp\<close>.\<close>

definition block_make :: "(bytes \<Rightarrow> uint256) \<Rightarrow> (ref \<Rightarrow> block) \<Rightarrow> ref list \<Rightarrow> uint256 list \<Rightarrow> quorum_cert
    \<Rightarrow> bytes \<Rightarrow> u32 \<Rightarrow> ref option \<Rightarrow> quorum_cert option \<Rightarrow> u8 \<Rightarrow> err + block" where
  "block_make sha hp ps cs qc ex ht qr sq dec =
     (let b = block_empty\<lparr>parent_hashes := map (\<lambda>p. blk_hash (hp p)) ps, blk_cmds := cs, blk_qc := Some qc,
              extra := ex, parents := ps, qc_ref := qr, self_qc := sq, height := ht, delivered := False,
              decision := dec\<rparr>
      in map_sum id (\<lambda>h. b\<lparr>blk_hash := h\<rparr>) (block_get_hash sha b))"

definition block_unserialize :: "(bytes \<Rightarrow> sig option) \<Rightarrow> (bytes \<Rightarrow> uint256) \<Rightarrow> data_stream
    \<Rightarrow> (block, data_stream) res" where
  "block_unserialize psig sha s =
     res_bind (get_vec uint256_unserialize s) (\<lambda>ps s.
     res_bind (get_vec uint256_unserialize s) (\<lambda>cs s.
     res_bind (qc_unserialize psig s) (\<lambda>qc s.
     res_bind (ds_get s) (\<lambda>n s.
     res_bind (if (n :: u32) = 0 then Ok [] s else ds_get_data_inplace (unat n) s) (\<lambda>ex s.
       let b = block_empty\<lparr>parent_hashes := ps, blk_cmds := cs, blk_qc := Some qc, extra := ex\<rparr>
       in case block_get_hash sha b of
            Inl e \<Rightarrow> Exc e s
          | Inr h \<Rightarrow> Ok (b\<lparr>blk_hash := h\<rparr>) s)))))"

text \<open>\<open>Block::verify\<close>: the certificate for the genesis block needs no check.\<close>

definition block_verify :: "(uint256 \<Rightarrow> pubkey \<Rightarrow> sig \<Rightarrow> bool) \<Rightarrow> replica_config \<Rightarrow> uint256 \<Rightarrow> block
    \<Rightarrow> err + bool" where
  "block_verify vrf c genesis_hash b =
     (case blk_qc b of
        None \<Rightarrow> Inl Undefined_Behaviour
      | Some qc \<Rightarrow>
          if qc_get_obj_hash qc = genesis_hash then Inr True
          else (case qc_verify vrf c qc of Ok r q \<Rightarrow> Inr r | Exc e q \<Rightarrow> Inl e))"

subsection \<open>Round trip\<close>

definition block_ok :: "(bytes \<Rightarrow> sig option) \<Rightarrow> block \<Rightarrow> bool" where
  "block_ok psig b \<longleftrightarrow>
     length (parent_hashes b) < 2 ^ 32 \<and> length (blk_cmds b) < 2 ^ 32 \<and> length (extra b) < 2 ^ 32 \<and>
     (\<exists>q. blk_qc b = Some (QuorumCertSecp256k1 q) \<and> sqc_ok psig q)"

definition block_enc :: "block \<Rightarrow> bytes" where
  "block_enc b = vec_enc uint256_enc (parent_hashes b) @ vec_enc uint256_enc (blk_cmds b) @
     (case blk_qc b of Some (QuorumCertSecp256k1 q) \<Rightarrow> sqc_enc q | _ \<Rightarrow> []) @
     le_bytes 4 (of_nat (length (extra b)) :: u32) @ extra b"

lemma vec_okI: "length xs < 2 ^ 32 \<Longrightarrow> vec_ok (\<lambda>_. True) xs"
  by (simp add: vec_ok_def list_all_iff)

lemma block_serialize_ok:
  assumes "block_ok psig b"
  shows "block_serialize b s = Ok () (ds_put_data (block_enc b) s)"
proof -
  obtain q where q: "blk_qc b = Some (QuorumCertSecp256k1 q)" "sqc_ok psig q"
    using assms by (auto simp: block_ok_def)
  have "vec_ok (\<lambda>_. True) (parent_hashes b)" "vec_ok (\<lambda>_. True) (blk_cmds b)"
    using assms by (auto simp: block_ok_def intro: vec_okI)
  then show ?thesis
    by (simp add: block_serialize_def block_enc_def q(1) u256v.put_enc qc_serialize_ok [OF q(2)]
        ds_put_data_append u32c.put_enc Let_def del: qc_serialize.simps)
qed

lemma block_unserialize_ok:
  assumes wf: "ds_wf s" and ok: "block_ok psig b" and bs: "ds_bytes s = block_enc b @ post"
  shows "block_unserialize psig sha s
    = Ok (block_empty\<lparr>parent_hashes := parent_hashes b, blk_cmds := blk_cmds b, blk_qc := blk_qc b,
            extra := extra b, blk_hash := sha (block_enc b)\<rparr>) (ds_skip (length (block_enc b)) s)"
proof -
  obtain q where q: "blk_qc b = Some (QuorumCertSecp256k1 q)" "sqc_ok psig q"
    using ok by (auto simp: block_ok_def)
  have len: "vec_ok (\<lambda>_. True) (parent_hashes b)" "vec_ok (\<lambda>_. True) (blk_cmds b)" "length (extra b) < 2 ^ 32"
    using ok by (auto simp: block_ok_def intro: vec_okI)
  let ?p = "length (vec_enc uint256_enc (parent_hashes b))" and ?c = "length (vec_enc uint256_enc (blk_cmds b))"
  have enc: "block_enc b = vec_enc uint256_enc (parent_hashes b) @ vec_enc uint256_enc (blk_cmds b) @
      sqc_enc q @ le_bytes 4 (of_nat (length (extra b)) :: u32) @ extra b"
    by (simp add: block_enc_def q)
  have wfs: "ds_wf (ds_skip n s)" if "n \<le> length (block_enc b)" for n
    using that bs by (intro ds_wf_skip [OF wf]) simp
  have 1: "get_vec uint256_unserialize s = Ok (parent_hashes b) (ds_skip ?p s)"
    using bs by (intro u256v.get_enc [OF wf len(1)]) (simp add: enc)
  have 2: "get_vec uint256_unserialize (ds_skip ?p s) = Ok (blk_cmds b) (ds_skip (?p + ?c) s)"
    using u256v.get_enc [OF wfs len(2), of ?p] bs by (simp add: enc)
  have 3: "qc_unserialize psig (ds_skip (?p + ?c) s)
      = Ok (QuorumCertSecp256k1 q) (ds_skip (?p + ?c + length (sqc_enc q)) s)"
    using qc_unserialize_ok [OF wfs q(2), of "?p + ?c"] bs by (simp add: enc)
  have 4: "ds_get (ds_skip (?p + ?c + length (sqc_enc q)) s)
      = Ok (of_nat (length (extra b)) :: u32) (ds_skip (?p + ?c + length (sqc_enc q) + 4) s)"
    using u32c.get_enc [OF wfs TrueI, of "?p + ?c + length (sqc_enc q)"] bs by (simp add: enc)
  have n: "unat (of_nat (length (extra b)) :: u32) = length (extra b)"
    using len(3) by (simp add: unat_of_nat take_bit_nat_eq_self)
  then have zero: "(of_nat (length (extra b)) :: u32) = 0 \<longleftrightarrow> extra b = []"
    by (metis length_0_conv unat_eq_zero)
  have 5: "ds_get_data_inplace (length (extra b)) (ds_skip (?p + ?c + length (sqc_enc q) + 4) s)
      = Ok (extra b) (ds_skip (length (block_enc b)) s)"
    using ds_get_data_inplace_bytes [OF wfs, of "?p + ?c + length (sqc_enc q) + 4" "extra b" post] bs
    by (simp add: enc add.assoc)
  have 6: "extra b = [] \<Longrightarrow> ?p + ?c + length (sqc_enc q) + 4 = length (block_enc b)"
    by (simp add: enc)
  let ?b = "block_empty\<lparr>parent_hashes := parent_hashes b, blk_cmds := blk_cmds b, blk_qc := blk_qc b, extra := extra b\<rparr>"
  have "block_ok psig ?b" "block_enc ?b = block_enc b"
    using ok by (simp_all add: block_ok_def block_enc_def)
  then have h: "block_get_hash sha ?b = Inr (sha (block_enc b))"
    by (simp add: block_get_hash_def block_serialize_ok)
  have 7: "(if (of_nat (length (extra b)) :: u32) = 0 then Ok [] (ds_skip (?p + ?c + length (sqc_enc q) + 4) s)
      else ds_get_data_inplace (length (extra b)) (ds_skip (?p + ?c + length (sqc_enc q) + 4) s))
      = Ok (extra b) (ds_skip (length (block_enc b)) s)"
    using 5 6 by (simp add: zero)
  show ?thesis
    unfolding block_unserialize_def 1 2 3 4 n res_bind.simps 7 q(1) [symmetric] Let_def h
    by simp
qed

text \<open>
  C13: a block whose lists fit the 32-bit length fields reads back with all its fields, and the
  reader computes the hash of the bytes the writer sent.
\<close>

theorem block_round_trip:
  assumes "block_ok psig b"
  shows "\<exists>s t. block_serialize b ds_new = Ok () s \<and>
    block_unserialize psig sha s = Ok (block_empty\<lparr>parent_hashes := parent_hashes b, blk_cmds := blk_cmds b,
      blk_qc := blk_qc b, extra := extra b, blk_hash := sha (ds_bytes s)\<rparr>) t \<and> ds_bytes t = []"
proof -
  have "block_unserialize psig sha (ds_put_data (block_enc b) ds_new)
    = Ok (block_empty\<lparr>parent_hashes := parent_hashes b, blk_cmds := blk_cmds b, blk_qc := blk_qc b,
            extra := extra b, blk_hash := sha (block_enc b)\<rparr>)
        (ds_skip (length (block_enc b)) (ds_put_data (block_enc b) ds_new))"
    using assms by (intro block_unserialize_ok [where post = "[]"]) simp_all
  then show ?thesis
    unfolding block_serialize_ok [OF assms] by simp
qed

theorem block_round_trip_witness:
  "\<exists>s t. block_serialize (block_empty\<lparr>parent_hashes := [h256 1], blk_cmds := [h256 3, h256 4],
      blk_qc := Some (QuorumCertSecp256k1 example_qc), extra := [9]\<rparr>) ds_new = Ok () s \<and>
    block_unserialize Some (\<lambda>bs. h256 (of_nat (length bs))) s
      = Ok (block_empty\<lparr>parent_hashes := [h256 1], blk_cmds := [h256 3, h256 4],
          blk_qc := Some (QuorumCertSecp256k1 example_qc), extra := [9],
          blk_hash := h256 (of_nat (length (ds_bytes s)))\<rparr>) t \<and> ds_bytes t = []"
  using block_round_trip [of Some "block_empty\<lparr>parent_hashes := [h256 1], blk_cmds := [h256 3, h256 4],
      blk_qc := Some (QuorumCertSecp256k1 example_qc), extra := [9]\<rparr>" "\<lambda>bs. h256 (of_nat (length bs))"]
  by (simp add: block_ok_def example_qc_ok)

end
