(* ===== verification/Ordered_List.thy ===== *)
theory Ordered_List
  imports Prelude
begin

text \<open>
  \<open>flashorder/include/hotstuff/ordered_list.h\<close>: the local order a replica sends to the leader (the
  commands with their receive times) with its sort, and the set of commands seen but not yet
  proposed or executed.
\<close>

record ordered_list =
  ol_cmds :: "uint256 list"
  timestamps :: "u64 list"

text \<open>
  \<open>sort_cmds\<close> sorts an index vector by timestamp and rearranges both vectors by it. Nothing
  happens when the two vectors differ in length.
\<close>

definition sort_cmds :: "((nat \<Rightarrow> int) \<Rightarrow> nat list \<Rightarrow> nat list) \<Rightarrow> ordered_list \<Rightarrow> ordered_list" where
  "sort_cmds srt l =
     (if length (ol_cmds l) \<noteq> length (timestamps l) \<or> length (ol_cmds l) \<le> 1 then l
      else let idx = srt (\<lambda>a. uint (timestamps l ! a)) [0..<length (ol_cmds l)] in
        \<lparr>ol_cmds = map (\<lambda>i. ol_cmds l ! i) idx, timestamps = map (\<lambda>i. timestamps l ! i) idx\<rparr>)"

lemma mset_map_nth_perm:
  assumes "mset idx = mset [0..<length xs]"
  shows "mset (map (\<lambda>i. xs ! i) idx) = mset xs"
proof -
  have "mset (map (\<lambda>i. xs ! i) idx) = image_mset (\<lambda>i. xs ! i) (mset [0..<length xs])"
    by (simp add: assms)
  also have "\<dots> = mset (map (\<lambda>i. xs ! i) [0..<length xs])"
    by simp
  finally show ?thesis by (simp add: map_nth)
qed

lemma sort_cmds_mset: "std_sort_ok srt \<Longrightarrow> mset (ol_cmds (sort_cmds srt l)) = mset (ol_cmds l)"
  using mset_map_nth_perm [of _ "ol_cmds l"] by (simp add: sort_cmds_def Let_def std_sort_mset del: mset_map)

lemma sort_cmds_set: "std_sort_ok srt \<Longrightarrow> set (ol_cmds (sort_cmds srt l)) = set (ol_cmds l)"
  by (metis sort_cmds_mset set_mset_mset)

lemma sort_cmds_distinct:
  "std_sort_ok srt \<Longrightarrow> distinct (ol_cmds (sort_cmds srt l)) = distinct (ol_cmds l)"
  by (metis sort_cmds_mset mset_eq_imp_distinct_iff)

lemma sort_cmds_length [simp]:
  assumes "std_sort_ok srt"
  shows "length (ol_cmds (sort_cmds srt l)) = length (ol_cmds l)"
    and "length (timestamps (sort_cmds srt l)) = length (timestamps l)"
  using assms by (simp_all add: sort_cmds_def Let_def std_sort_length)

lemma sorted_map_uint: "sorted (map uint (xs :: 'a::len word list)) \<longleftrightarrow> sorted xs"
  by (simp add: sorted_map word_le_def [symmetric])

text \<open>
  The pairs travel together, and the timestamps come out ascending.
\<close>

lemma sort_cmds_pairs:
  assumes "std_sort_ok srt" and "length (ol_cmds l) = length (timestamps l)"
  shows "mset (zip (ol_cmds (sort_cmds srt l)) (timestamps (sort_cmds srt l)))
       = mset (zip (ol_cmds l) (timestamps l))"
proof (cases "length (ol_cmds l) \<le> 1")
  case True
  then show ?thesis by (simp add: sort_cmds_def)
next
  case False
  let ?idx = "srt (\<lambda>a. uint (timestamps l ! a)) [0..<length (ol_cmds l)]"
  have idx: "mset ?idx = mset [0..<length (zip (ol_cmds l) (timestamps l))]"
    using assms by (simp add: std_sort_mset)
  have "zip (map (\<lambda>i. ol_cmds l ! i) ?idx) (map (\<lambda>i. timestamps l ! i) ?idx)
      = map (\<lambda>i. (ol_cmds l ! i, timestamps l ! i)) ?idx"
    by (simp add: zip_map1 zip_map2 zip_same_conv_map)
  also have "\<dots> = map (\<lambda>i. zip (ol_cmds l) (timestamps l) ! i) ?idx"
    using assms by (intro map_cong refl) (auto simp: std_sort_set)
  finally have "mset (zip (map (\<lambda>i. ol_cmds l ! i) ?idx) (map (\<lambda>i. timestamps l ! i) ?idx))
      = mset (zip (ol_cmds l) (timestamps l))"
    using mset_map_nth_perm [OF idx] by simp
  with False assms(2) show ?thesis
    by (simp add: sort_cmds_def Let_def)
qed

lemma sort_cmds_sorted:
  assumes "std_sort_ok srt" and "length (ol_cmds l) = length (timestamps l)"
  shows "sorted (timestamps (sort_cmds srt l))"
proof (cases "length (ol_cmds l) \<le> 1")
  case True
  then show ?thesis
    using assms(2) by (cases "timestamps l") (simp_all add: sort_cmds_def)
next
  case False
  let ?idx = "srt (\<lambda>a. uint (timestamps l ! a)) [0..<length (ol_cmds l)]"
  have "sorted (map uint (map (\<lambda>a. timestamps l ! a) ?idx))"
    using std_sort_sorted [OF assms(1)] by (simp add: comp_def)
  then have "sorted (map (\<lambda>a. timestamps l ! a) ?idx)"
    by (simp only: sorted_map_uint)
  with False assms(2) show ?thesis
    by (simp add: sort_cmds_def Let_def)
qed

subsection \<open>\<open>SeenOrderTracker\<close>\<close>

text \<open>
  An unordered set of commands. \<open>get_cmds\<close>, whose vector comes in the hash table's order, has
  no caller.
\<close>

record seen_order_tracker =
  seen :: "uint256 set"

definition seen_add :: "uint256 \<Rightarrow> seen_order_tracker \<Rightarrow> seen_order_tracker" where
  "seen_add cmd t = t\<lparr>seen := insert cmd (seen t)\<rparr>"

definition seen_remove :: "uint256 \<Rightarrow> seen_order_tracker \<Rightarrow> seen_order_tracker" where
  "seen_remove cmd t = t\<lparr>seen := seen t - {cmd}\<rparr>"

definition seen_contains :: "uint256 \<Rightarrow> seen_order_tracker \<Rightarrow> bool" where
  "seen_contains cmd t \<longleftrightarrow> cmd \<in> seen t"

definition seen_size :: "seen_order_tracker \<Rightarrow> nat" where
  "seen_size t = card (seen t)"

end
