(* ===== verification/Storage.thy ===== *)
theory Storage
  imports Entity Ordered_List
begin

text \<open>
  \<open>EntityStorage\<close> of \<open>flashorder/include/hotstuff/entity.h\<close>: the caches of blocks and commands, the
  per-replica queues of local orders, and the sets of seen and proposed commands. A hash table
  is an association list with distinct keys; the order in which the code iterates over the
  queues is the table's and therefore an argument (\<open>iter\<close>) of the operation that iterates.
\<close>

type_synonym heap = "ref \<Rightarrow> block"
type_synonym command = nat

record entity_storage =
  blk_cache :: "(uint256 \<times> ref) list"
  cmd_cache :: "(uint256 \<times> command) list"
  ordered_list_cache :: "(replica_id \<times> ordered_list list) list"
  seen_propose_level :: seen_order_tracker
  seen_execute_level :: seen_order_tracker
  proposed_cmds_cache :: "uint256 set"

definition storage_new :: entity_storage where
  "storage_new = \<lparr>blk_cache = [], cmd_cache = [], ordered_list_cache = [],
     seen_propose_level = \<lparr>seen = {}\<rparr>, seen_execute_level = \<lparr>seen = {}\<rparr>, proposed_cmds_cache = {}\<rparr>"

subsection \<open>Blocks and commands\<close>

definition is_blk_delivered :: "heap \<Rightarrow> uint256 \<Rightarrow> entity_storage \<Rightarrow> bool" where
  "is_blk_delivered hp h st =
     (case map_of (blk_cache st) h of None \<Rightarrow> False | Some r \<Rightarrow> delivered (hp r))"

definition is_blk_fetched :: "uint256 \<Rightarrow> entity_storage \<Rightarrow> bool" where
  "is_blk_fetched h st \<longleftrightarrow> map_of (blk_cache st) h \<noteq> None"

text \<open>\<open>add_blk\<close> returns the block that is cached under the hash, the old one if there is one.\<close>

definition add_blk :: "heap \<Rightarrow> ref \<Rightarrow> entity_storage \<Rightarrow> ref \<times> entity_storage" where
  "add_blk hp r st =
     (let c = map_insert (blk_hash (hp r)) r (blk_cache st)
      in (the (map_of c (blk_hash (hp r))), st\<lparr>blk_cache := c\<rparr>))"

definition find_blk :: "uint256 \<Rightarrow> entity_storage \<Rightarrow> ref option" where
  "find_blk h st = map_of (blk_cache st) h"

definition is_cmd_fetched :: "uint256 \<Rightarrow> entity_storage \<Rightarrow> bool" where
  "is_cmd_fetched h st \<longleftrightarrow> map_of (cmd_cache st) h \<noteq> None"

definition add_cmd :: "uint256 \<Rightarrow> command \<Rightarrow> entity_storage \<Rightarrow> command \<times> entity_storage" where
  "add_cmd h cmd st =
     (let c = map_insert h cmd (cmd_cache st) in (the (map_of c h), st\<lparr>cmd_cache := c\<rparr>))"

definition find_cmd :: "uint256 \<Rightarrow> entity_storage \<Rightarrow> command option" where
  "find_cmd h st = map_of (cmd_cache st) h"

definition get_cmd_cache_size :: "entity_storage \<Rightarrow> nat" where
  "get_cmd_cache_size st = length (cmd_cache st)"

definition get_blk_cache_size :: "entity_storage \<Rightarrow> nat" where
  "get_blk_cache_size st = length (blk_cache st)"

text \<open>The number of references to the object is the argument \<open>cnt\<close>.\<close>

definition try_release_cmd :: "nat \<Rightarrow> uint256 \<Rightarrow> entity_storage \<Rightarrow> bool \<times> entity_storage" where
  "try_release_cmd cnt h st =
     (if cnt = 2 then (True, st\<lparr>cmd_cache := AList.delete h (cmd_cache st)\<rparr>) else (False, st))"

definition try_release_blk :: "nat \<Rightarrow> uint256 \<Rightarrow> entity_storage \<Rightarrow> bool \<times> entity_storage" where
  "try_release_blk cnt h st =
     (if cnt = 2 then (True, st\<lparr>blk_cache := AList.delete h (blk_cache st)\<rparr>) else (False, st))"

subsection \<open>The queues of local orders\<close>

definition is_cmd_proposed :: "uint256 \<Rightarrow> entity_storage \<Rightarrow> bool" where
  "is_cmd_proposed cmd st \<longleftrightarrow> cmd \<in> proposed_cmds_cache st"

text \<open>
  The filter loop of \<open>add_local_order\<close>: \<open>P\<close> is \<open>is_cmd_proposed\<close>. A timestamp list shorter than the
  command list leaves the result's shorter, too.
\<close>

fun filter_order :: "(uint256 \<Rightarrow> bool) \<Rightarrow> uint256 list \<Rightarrow> u64 list \<Rightarrow> ordered_list" where
  "filter_order P [] ts = \<lparr>ol_cmds = [], timestamps = []\<rparr>"
| "filter_order P (c # cs) ts =
     (let rest = filter_order P cs (tl ts) in
      if P c then rest
      else \<lparr>ol_cmds = c # ol_cmds rest,
            timestamps = (case ts of [] \<Rightarrow> timestamps rest | t # _ \<Rightarrow> t # timestamps rest)\<rparr>)"

definition queue_of :: "replica_id \<Rightarrow> entity_storage \<Rightarrow> ordered_list list" where
  "queue_of rid st = (case map_of (ordered_list_cache st) rid of None \<Rightarrow> [] | Some q \<Rightarrow> q)"

definition add_local_order :: "replica_id \<Rightarrow> ordered_list \<Rightarrow> entity_storage \<Rightarrow> entity_storage" where
  "add_local_order rid ol st =
     (let filtered = filter_order (\<lambda>c. is_cmd_proposed c st) (ol_cmds ol) (timestamps ol)
      in if ol_cmds filtered = [] then st
         else st\<lparr>ordered_list_cache :=
                AList.update rid (queue_of rid st @ [filtered]) (ordered_list_cache st)\<rparr>)"

definition get_local_order_cache_size :: "entity_storage \<Rightarrow> nat" where
  "get_local_order_cache_size st = length (ordered_list_cache st)"

definition get_ordered_list_replica_vector :: "(replica_id list \<Rightarrow> replica_id list) \<Rightarrow> entity_storage
    \<Rightarrow> replica_id list" where
  "get_ordered_list_replica_vector iter st = iter (map fst (ordered_list_cache st))"

text \<open>
  \<open>front()\<close> and \<open>pop_front()\<close> of an empty queue are undefined; the subscript has entered an empty
  queue for an unknown replica before.
\<close>

definition get_front_ordered_list :: "replica_id \<Rightarrow> entity_storage \<Rightarrow> (ordered_list, entity_storage) res" where
  "get_front_ordered_list rid st =
     (case queue_of rid st of
        [] \<Rightarrow> Exc Undefined_Behaviour
          (st\<lparr>ordered_list_cache := AList.update rid [] (ordered_list_cache st)\<rparr>)
      | l # _ \<Rightarrow> Ok l st)"

definition pop_front_ordered_list :: "replica_id \<Rightarrow> entity_storage \<Rightarrow> (unit, entity_storage) res" where
  "pop_front_ordered_list rid st =
     (case queue_of rid st of
        [] \<Rightarrow> Exc Undefined_Behaviour
          (st\<lparr>ordered_list_cache := AList.update rid [] (ordered_list_cache st)\<rparr>)
      | l # q \<Rightarrow> Ok () (st\<lparr>ordered_list_cache :=
          (if q = [] then AList.delete rid (ordered_list_cache st)
           else AList.update rid q (ordered_list_cache st))\<rparr>))"

definition collect_ordered_lists :: "(replica_id list \<Rightarrow> replica_id list) \<Rightarrow> entity_storage
    \<Rightarrow> ordered_list list" where
  "collect_ordered_lists iter st =
     List.map_filter (\<lambda>rid. case queue_of rid st of [] \<Rightarrow> None | l # _ \<Rightarrow> Some l)
       (iter (map fst (ordered_list_cache st)))"

definition pop_all_front_ordered_lists :: "entity_storage \<Rightarrow> (unit, entity_storage) res" where
  "pop_all_front_ordered_lists st =
     (if \<exists>e \<in> set (ordered_list_cache st). snd e = [] then Exc Undefined_Behaviour st
      else Ok () (st\<lparr>ordered_list_cache :=
        filter (\<lambda>e. snd e \<noteq> []) (map (\<lambda>e. (fst e, tl (snd e))) (ordered_list_cache st))\<rparr>))"

subsection \<open>Seen and proposed commands\<close>

definition update_local_order_seen :: "uint256 list \<Rightarrow> entity_storage \<Rightarrow> entity_storage" where
  "update_local_order_seen cmds st =
     fold (\<lambda>cmd st. st\<lparr>seen_propose_level := seen_add cmd (seen_propose_level st),
                      seen_execute_level := seen_add cmd (seen_execute_level st)\<rparr>) cmds st"

definition remove_local_order_seen_execute_level :: "uint256 \<Rightarrow> entity_storage \<Rightarrow> entity_storage" where
  "remove_local_order_seen_execute_level cmd st =
     st\<lparr>seen_execute_level := seen_remove cmd (seen_execute_level st)\<rparr>"

definition remove_local_order_seen_propose_level :: "uint256 \<Rightarrow> entity_storage \<Rightarrow> entity_storage" where
  "remove_local_order_seen_propose_level cmd st =
     st\<lparr>seen_propose_level := seen_remove cmd (seen_propose_level st)\<rparr>"

definition add_to_proposed_cmds_cache :: "uint256 \<Rightarrow> entity_storage \<Rightarrow> entity_storage" where
  "add_to_proposed_cmds_cache cmd st = st\<lparr>proposed_cmds_cache := insert cmd (proposed_cmds_cache st)\<rparr>"

definition remove_from_proposed_cmds_cache :: "uint256 \<Rightarrow> entity_storage \<Rightarrow> entity_storage" where
  "remove_from_proposed_cmds_cache cmd st = st\<lparr>proposed_cmds_cache := proposed_cmds_cache st - {cmd}\<rparr>"

subsection \<open>The filter keeps commands and times together\<close>

lemma filter_order_cmds: "ol_cmds (filter_order P cs ts) = filter (\<lambda>c. \<not> P c) cs"
  by (induction P cs ts rule: filter_order.induct) (simp_all add: Let_def)

lemma filter_order_zip:
  "length cs = length ts \<Longrightarrow>
   zip (ol_cmds (filter_order P cs ts)) (timestamps (filter_order P cs ts)) = filter (\<lambda>(c, t). \<not> P c) (zip cs ts) \<and>
   length (ol_cmds (filter_order P cs ts)) = length (timestamps (filter_order P cs ts))"
proof (induction cs arbitrary: ts)
  case Nil
  then show ?case by simp
next
  case (Cons c cs)
  then obtain t us where "ts = t # us" "length cs = length us"
    by (cases ts) simp_all
  with Cons.IH show ?case
    by (simp add: Let_def)
qed

lemma sorted_filter_zip:
  assumes "length cs = length ts" and "sorted (ts :: u64 list)"
  shows "sorted (map snd (filter P (zip cs ts)))"
  using assms by (intro sorted_filter) (simp add: map_snd_zip)

lemma filter_order_sorted:
  assumes "length cs = length ts" and "sorted ts"
  shows "sorted (timestamps (filter_order P cs ts))"
proof -
  let ?f = "filter_order P cs ts"
  have z: "zip (ol_cmds ?f) (timestamps ?f) = filter (\<lambda>(c, t). \<not> P c) (zip cs ts)"
    and l: "length (ol_cmds ?f) = length (timestamps ?f)"
    using filter_order_zip [OF assms(1), of P] by blast+
  have "timestamps ?f = map snd (zip (ol_cmds ?f) (timestamps ?f))"
    by (simp only: map_snd_zip [OF l])
  then show ?thesis
    using sorted_filter_zip [OF assms] by (simp only: z)
qed

subsection \<open>The queues as a map\<close>

text \<open>
  What the leader relies on: a queue of local orders per replica, to which an order is pushed,
  and from all of which the front is taken off at once.
\<close>

locale order_queues =
  fixes push :: "replica_id \<Rightarrow> ordered_list \<Rightarrow> 's \<Rightarrow> 's"
    and drain :: "'s \<Rightarrow> (unit, 's) res"
    and view :: "'s \<Rightarrow> replica_id \<Rightarrow> ordered_list list"
    and pending :: "'s \<Rightarrow> nat"
    and accepted :: "'s \<Rightarrow> ordered_list \<Rightarrow> ordered_list option"
    and inv :: "'s \<Rightarrow> bool"
  assumes push_inv: "inv s \<Longrightarrow> inv (push r l s)"
    and push_view: "inv s \<Longrightarrow> view (push r l s) =
      (case accepted s l of None \<Rightarrow> view s | Some l' \<Rightarrow> (view s)(r := view s r @ [l']))"
    and drain_ok: "inv s \<Longrightarrow> \<exists>s'. drain s = Ok () s' \<and> inv s' \<and> view s' = (\<lambda>r. tl (view s r))"
    and pending_view: "inv s \<Longrightarrow> pending s = card {r. view s r \<noteq> []} \<and> finite {r. view s r \<noteq> []}"
begin

text \<open>Taking the fronts off \<open>n\<close> times.\<close>

primrec drains :: "nat \<Rightarrow> 's \<Rightarrow> (unit, 's) res" where
  "drains 0 s = Ok () s"
| "drains (Suc n) s = res_bind (drain s) (\<lambda>u s. drains n s)"

lemma drains_view:
  "inv s \<Longrightarrow> \<exists>s'. drains n s = Ok () s' \<and> inv s' \<and> view s' = (\<lambda>r. drop n (view s r))"
proof (induction n arbitrary: s)
  case 0
  then show ?case by simp
next
  case (Suc n)
  obtain s1 where s1: "drain s = Ok () s1" "inv s1" "view s1 = (\<lambda>r. tl (view s r))"
    using drain_ok [OF Suc.prems] by blast
  with Suc.IH [OF s1(2)] show ?case
    by (auto simp: drop_Suc)
qed

text \<open>After as many rounds as the longest queue has orders, none is pending.\<close>

lemma drains_all:
  assumes "inv s" and "\<forall>r. length (view s r) \<le> n"
  shows "\<exists>s'. drains n s = Ok () s' \<and> pending s' = 0"
proof -
  obtain s' where s': "drains n s = Ok () s'" "inv s'" "view s' = (\<lambda>r. drop n (view s r))"
    using drains_view [OF assms(1)] by blast
  then have "{r. view s' r \<noteq> []} = {}"
    using assms(2) by (auto simp: not_less)
  with s' pending_view [OF s'(2)] show ?thesis
    by simp
qed

text \<open>A push that is accepted leaves at least one order pending, and none that was pending is lost.\<close>

lemma push_pending: "inv s \<Longrightarrow> pending s \<le> pending (push r l s)"
proof -
  assume inv: "inv s"
  have "{r'. view s r' \<noteq> []} \<subseteq> {r'. view (push r l s) r' \<noteq> []}"
    by (auto simp: push_view [OF inv] split: option.split)
  then show ?thesis
    using pending_view [OF push_inv [OF inv]] pending_view [OF inv] by (simp add: card_mono)
qed

end

definition storage_wf :: "entity_storage \<Rightarrow> bool" where
  "storage_wf st \<longleftrightarrow> distinct (map fst (ordered_list_cache st)) \<and> (\<forall>e \<in> set (ordered_list_cache st). snd e \<noteq> [])"

definition accepted_order :: "entity_storage \<Rightarrow> ordered_list \<Rightarrow> ordered_list option" where
  "accepted_order st ol =
     (let f = filter_order (\<lambda>c. is_cmd_proposed c st) (ol_cmds ol) (timestamps ol)
      in if ol_cmds f = [] then None else Some f)"

lemma storage_wf_new: "storage_wf storage_new"
  by (simp add: storage_wf_def storage_new_def)

lemma queue_of_update:
  "queue_of r (st\<lparr>ordered_list_cache := AList.update k q (ordered_list_cache st)\<rparr>) = (if r = k then q else queue_of r st)"
  by (simp add: queue_of_def update_conv')

lemma set_alist_update: "set (AList.update k v m) \<subseteq> insert (k, v) (set m)"
  by (induction m) auto

lemma add_local_order_wf: "storage_wf st \<Longrightarrow> storage_wf (add_local_order rid ol st)"
  using set_alist_update [of rid "queue_of rid st @ [filter_order (\<lambda>c. is_cmd_proposed c st) (ol_cmds ol) (timestamps ol)]"
      "ordered_list_cache st"]
  by (auto simp: storage_wf_def add_local_order_def Let_def distinct_update)

lemma queue_of_nonempty:
  "storage_wf st \<Longrightarrow> queue_of r st \<noteq> [] \<longleftrightarrow> r \<in> set (map fst (ordered_list_cache st))"
  unfolding storage_wf_def queue_of_def
  by (auto split: option.split dest: map_of_SomeD simp: map_of_eq_None_iff) force

lemma map_of_filter_tl:
  "distinct (map fst m) \<Longrightarrow>
   (case map_of (filter (\<lambda>e. snd e \<noteq> []) (map (\<lambda>e. (fst e, tl (snd e))) m)) r of None \<Rightarrow> [] | Some q \<Rightarrow> q)
   = tl (case map_of m r of None \<Rightarrow> [] | Some q \<Rightarrow> q)"
proof (induction m)
  case Nil
  then show ?case by simp
next
  case (Cons e m)
  have "map_of (filter (\<lambda>e. snd e \<noteq> []) (map (\<lambda>e. (fst e, tl (snd e))) m)) (fst e) = None"
    using Cons.prems by (auto simp: map_of_eq_None_iff image_iff)
  with Cons show ?case
    by (cases e) (auto split: option.splits)
qed

lemma pop_all_front_ok:
  assumes "storage_wf st"
  shows "\<exists>st'. pop_all_front_ordered_lists st = Ok () st' \<and> storage_wf st' \<and> (\<forall>r. queue_of r st' = tl (queue_of r st)) \<and>
    proposed_cmds_cache st' = proposed_cmds_cache st \<and> blk_cache st' = blk_cache st"
proof -
  let ?m = "ordered_list_cache st"
  let ?m' = "filter (\<lambda>e. snd e \<noteq> []) (map (\<lambda>e. (fst e, tl (snd e))) ?m)"
  have "distinct (map fst (map (\<lambda>e. (fst e, tl (snd e))) ?m))"
    using assms by (simp add: storage_wf_def comp_def)
  then have "distinct (map fst ?m')"
    by (rule distinct_map_filter)
  then have "storage_wf (st\<lparr>ordered_list_cache := ?m'\<rparr>)"
    by (simp add: storage_wf_def)
  moreover have "queue_of r (st\<lparr>ordered_list_cache := ?m'\<rparr>) = tl (queue_of r st)" for r
    using map_of_filter_tl [of ?m r] assms by (simp add: queue_of_def storage_wf_def)
  moreover have "\<not> (\<exists>e \<in> set ?m. snd e = [])"
    using assms by (simp add: storage_wf_def)
  ultimately show ?thesis
    by (simp add: pop_all_front_ordered_lists_def)
qed

interpretation oq: order_queues add_local_order pop_all_front_ordered_lists "\<lambda>st r. queue_of r st"
    get_local_order_cache_size accepted_order storage_wf
proof unfold_locales
  show "storage_wf (add_local_order r l s)" if "storage_wf s" for s r l
    using that by (rule add_local_order_wf)
  show "(\<lambda>r'. queue_of r' (add_local_order r l s)) =
      (case accepted_order s l of None \<Rightarrow> \<lambda>r. queue_of r s
       | Some l' \<Rightarrow> (\<lambda>r. queue_of r s)(r := queue_of r s @ [l']))" for s r l
    by (auto simp: accepted_order_def add_local_order_def Let_def queue_of_update fun_eq_iff)
  show "\<exists>s'. pop_all_front_ordered_lists s = Ok () s' \<and> storage_wf s' \<and>
      (\<lambda>r. queue_of r s') = (\<lambda>r. tl (queue_of r s))" if "storage_wf s" for s
    using pop_all_front_ok [OF that] by (auto simp: fun_eq_iff)
  show "get_local_order_cache_size s = card {r. queue_of r s \<noteq> []} \<and> finite {r. queue_of r s \<noteq> []}"
    if "storage_wf s" for s
  proof -
    have "{r. queue_of r s \<noteq> []} = set (map fst (ordered_list_cache s))"
      using queue_of_nonempty [OF that] by auto
    then show ?thesis
      using that distinct_card [of "map fst (ordered_list_cache s)"]
      by (simp add: get_local_order_cache_size_def storage_wf_def)
  qed
qed

subsection \<open>Collecting the fronts\<close>

text \<open>What an iteration over the table visits: every key once.\<close>

definition iter_ok :: "(replica_id list \<Rightarrow> replica_id list) \<Rightarrow> bool" where
  "iter_ok iter \<longleftrightarrow> (\<forall>ks. mset (iter ks) = mset ks)"

lemma iter_ok_id: "iter_ok (\<lambda>ks. ks)"
  by (simp add: iter_ok_def)

lemma iter_set: "iter_ok iter \<Longrightarrow> set (iter ks) = set ks"
  by (metis iter_ok_def set_mset_mset)

lemma map_filter_all_Some:
  "(\<And>x. x \<in> set xs \<Longrightarrow> f x = Some (g x)) \<Longrightarrow> List.map_filter f xs = map g xs"
  by (induction xs) (simp_all add: map_filter_simps)

lemma collect_ordered_lists_eq:
  assumes "storage_wf st" and "iter_ok iter"
  shows "collect_ordered_lists iter st = map (\<lambda>r. hd (queue_of r st)) (iter (map fst (ordered_list_cache st)))"
proof -
  let ?ks = "iter (map fst (ordered_list_cache st))"
  have "queue_of r st \<noteq> []" if "r \<in> set ?ks" for r
    using that queue_of_nonempty [OF assms(1)] by (simp add: iter_set [OF assms(2)])
  then have "(case queue_of r st of [] \<Rightarrow> None | l # _ \<Rightarrow> Some l) = Some (hd (queue_of r st))" if "r \<in> set ?ks" for r
    using that by (auto split: list.split)
  then show ?thesis
    unfolding collect_ordered_lists_def by (rule map_filter_all_Some)
qed

lemma collect_size:
  assumes "storage_wf st" and "iter_ok iter"
  shows "length (collect_ordered_lists iter st) = card {r. queue_of r st \<noteq> []}"
proof -
  have "mset (iter (map fst (ordered_list_cache st))) = mset (map fst (ordered_list_cache st))"
    using assms(2) by (simp add: iter_ok_def)
  then have "length (iter (map fst (ordered_list_cache st))) = length (map fst (ordered_list_cache st))"
    by (rule mset_eq_length)
  then have "length (collect_ordered_lists iter st) = get_local_order_cache_size st"
    by (simp add: collect_ordered_lists_eq [OF assms] get_local_order_cache_size_def)
  then show ?thesis
    using oq.pending_view [OF assms(1)] by simp
qed

text \<open>
  C14: the leader collects one order from each replica that has some pending, the oldest one, and
  taking the fronts off is defined and leaves the rest of every queue.
\<close>

theorem collect_and_pop:
  assumes "storage_wf st" and "iter_ok iter"
  shows "mset (collect_ordered_lists iter st)
      = mset (map (\<lambda>r. hd (queue_of r st)) (map fst (ordered_list_cache st))) \<and>
    length (collect_ordered_lists iter st) = card {r. queue_of r st \<noteq> []} \<and>
    (\<exists>st'. pop_all_front_ordered_lists st = Ok () st' \<and> storage_wf st' \<and> (\<forall>r. queue_of r st' = tl (queue_of r st)))"
proof -
  have m: "mset (iter (map fst (ordered_list_cache st))) = mset (map fst (ordered_list_cache st))"
    using assms(2) by (simp add: iter_ok_def)
  have "mset (collect_ordered_lists iter st)
      = image_mset (\<lambda>r. hd (queue_of r st)) (mset (iter (map fst (ordered_list_cache st))))"
    by (simp add: collect_ordered_lists_eq [OF assms])
  then show ?thesis
    using pop_all_front_ok [OF assms(1)] collect_size [OF assms]
    by (auto simp: m image_mset.compositionality comp_def)
qed

theorem collect_and_pop_witness:
  "length (collect_ordered_lists rev (add_local_order 2 \<lparr>ol_cmds = [h256 1], timestamps = [5]\<rparr>
     (add_local_order 1 \<lparr>ol_cmds = [h256 1], timestamps = [4]\<rparr> storage_new))) = 2"
proof -
  let ?st = "add_local_order 2 \<lparr>ol_cmds = [h256 1], timestamps = [5]\<rparr>
     (add_local_order 1 \<lparr>ol_cmds = [h256 1], timestamps = [4]\<rparr> storage_new)"
  have "storage_wf ?st"
    by (intro add_local_order_wf storage_wf_new)
  moreover have "iter_ok rev"
    by (simp add: iter_ok_def)
  ultimately have "length (collect_ordered_lists rev ?st) = card {r. queue_of r ?st \<noteq> []}"
    using collect_and_pop [of ?st rev] by blast
  also have "{r. queue_of r ?st \<noteq> []} = {1, 2}"
    by (auto simp: queue_of_def add_local_order_def storage_new_def is_cmd_proposed_def)
  finally show ?thesis by simp
qed

end
