(* ===== verification/Hyper_Graph.thy ===== *)
theory Hyper_Graph
  imports Ordered_List Complex_Main
begin

text \<open>
  \<open>FlashOrder::HyperGraph\<close> of \<open>flashorder/include/hotstuff/flashorder.h\<close>: the ordering algorithm the
  leader runs on the local orders it collected. This theory holds the class's state and its
  methods. \<open>double\<close> is modelled by the real numbers; the 16-bit preference counters keep their
  width; the \<open>int\<close> counters are bounded by the number of commands, at most 10000.
\<close>

record hyper_edge =
  he_members :: "nat list"
  internal_order :: "nat list"

record hyper_graph =
  pref :: "u16 list"
  canonical_pos :: "int list"
  hyperedges :: "hyper_edge list"
  he_adj :: "nat list list"
  he_indeg :: "int list"
  cmd_to_id :: "uint256 \<Rightarrow> nat option"
  id_to_cmd :: "uint256 list"
  n_txns :: nat
  threshold :: int
  gamma :: real
  hg_k :: real
  margin :: real
  n_nodes :: int
  n_f :: int

text \<open>The constructor; the fields it does not set are set before they are read.\<close>

definition hg_new :: hyper_graph where
  "hg_new = \<lparr>pref = [], canonical_pos = [], hyperedges = [], he_adj = [], he_indeg = [],
     cmd_to_id = (\<lambda>_. None), id_to_cmd = [], n_txns = 0, threshold = 0, gamma = 0,
     hg_k = 15 / 10, margin = 12 / 10, n_nodes = 0, n_f = 0\<rparr>"

subsection \<open>\<open>compute_preferences\<close>\<close>

text \<open>
  Lists whose timestamps are out of order are sorted; then every command gets the next free id,
  until the table of \<open>max_number_cmds\<close> is full (the \<open>break\<close> leaves the current list only).
\<close>

definition sort_if_needed :: "((nat \<Rightarrow> int) \<Rightarrow> nat list \<Rightarrow> nat list) \<Rightarrow> ordered_list \<Rightarrow> ordered_list" where
  "sort_if_needed srt l =
     (if 2 \<le> length (timestamps l) \<and> \<not> std_is_sorted (timestamps l) then sort_cmds srt l else l)"

fun register_cmds :: "nat \<Rightarrow> uint256 list \<Rightarrow> hyper_graph \<Rightarrow> hyper_graph" where
  "register_cmds mx [] g = g"
| "register_cmds mx (c # cs) g =
     (if cmd_to_id g c = None then
        if mx \<le> n_txns g then g
        else register_cmds mx cs
          (g\<lparr>cmd_to_id := (cmd_to_id g)(c := Some (n_txns g)),
             id_to_cmd := id_to_cmd g @ [c],
             n_txns := n_txns g + 1\<rparr>)
      else register_cmds mx cs g)"

definition mapped_ids :: "hyper_graph \<Rightarrow> ordered_list \<Rightarrow> nat list" where
  "mapped_ids g l = List.map_filter (cmd_to_id g) (ol_cmds l)"

text \<open>\<open>pref_row\<close> is the inner loop over \<open>j\<close>, \<open>pref_list\<close> the loop over \<open>i\<close>; a counter wraps at 2^16.\<close>

fun pref_row :: "nat \<Rightarrow> nat \<Rightarrow> nat list \<Rightarrow> u16 list \<Rightarrow> u16 list" where
  "pref_row n i [] p = p"
| "pref_row n i (j # js) p = pref_row n i js (p[i * n + j := p ! (i * n + j) + 1])"

fun pref_list :: "nat \<Rightarrow> nat list \<Rightarrow> u16 list \<Rightarrow> u16 list" where
  "pref_list n [] p = p"
| "pref_list n (i # js) p = pref_list n js (pref_row n i js p)"

definition compute_preferences :: "((nat \<Rightarrow> int) \<Rightarrow> nat list \<Rightarrow> nat list) \<Rightarrow> nat \<Rightarrow> ordered_list list
    \<Rightarrow> hyper_graph \<Rightarrow> ordered_list list \<times> hyper_graph" where
  "compute_preferences srt mx ls g =
     (let ls = map (sort_if_needed srt) ls;
          g = g\<lparr>cmd_to_id := (\<lambda>_. None), id_to_cmd := [], n_txns := 0\<rparr>;
          g = fold (\<lambda>l. register_cmds mx (ol_cmds l)) ls g
      in if n_txns g = 0 then (ls, g)
         else (ls, g\<lparr>pref := fold (pref_list (n_txns g)) (map (mapped_ids g) ls)
                        (replicate (n_txns g * n_txns g) 0)\<rparr>))"

subsection \<open>\<open>compute_canonical_positions\<close>\<close>

text \<open>The test \<open>other != tx && pref[other * n_txns + tx] >= threshold\<close>.\<close>

definition prefers :: "hyper_graph \<Rightarrow> nat \<Rightarrow> nat \<Rightarrow> bool" where
  "prefers g other tx \<longleftrightarrow> other \<noteq> tx \<and> threshold g \<le> uint (pref g ! (other * n_txns g + tx))"

definition compute_canonical_positions :: "nat \<Rightarrow> hyper_graph \<Rightarrow> hyper_graph" where
  "compute_canonical_positions mx g =
     g\<lparr>canonical_pos :=
        fold (\<lambda>other cp.
          fold (\<lambda>tx cp. if prefers g other tx then cp[tx := cp ! tx + 1] else cp) [0..<n_txns g] cp)
        [0..<n_txns g] (replicate mx 0)\<rparr>"

subsection \<open>\<open>compute_delta\<close>\<close>

text \<open>
  The function-local statics are a state of their own, which outlives a \<open>HyperGraph\<close>; \<open>now\<close> is
  the reading of the monotonic clock in nanoseconds.
\<close>

record delta_state =
  auto_gen_param :: real
  auto_network_param :: real
  sample_count :: nat
  last_update_time :: int

definition delta_init :: "int \<Rightarrow> delta_state" where
  "delta_init now = \<lparr>auto_gen_param = 100, auto_network_param = 100, sample_count = 0,
     last_update_time = now\<rparr>"

text \<open>
  The conversion \<open>(int) x\<close> of a \<open>double\<close>: truncation, and the least \<open>int\<close> for a value outside
  the range (what the conversion instruction of the x86-64 hosts gives; C++ leaves it open).
\<close>

definition double_to_int :: "real \<Rightarrow> int" where
  "double_to_int x =
     (let t = (if 0 \<le> x then \<lfloor>x\<rfloor> else \<lceil>x\<rceil>)
      in if - (2 ^ 31) \<le> t \<and> t < 2 ^ 31 then t else - (2 ^ 31))"

text \<open>\<open>std::round\<close>: halves away from zero.\<close>

definition std_round :: "real \<Rightarrow> real" where
  "std_round x = (if 0 \<le> x then of_int \<lfloor>x + 1 / 2\<rfloor> else of_int \<lceil>x - 1 / 2\<rceil>)"

definition canonical_span :: "((nat \<Rightarrow> int) \<Rightarrow> nat list \<Rightarrow> nat list) \<Rightarrow> hyper_graph \<Rightarrow> real" where
  "canonical_span srt g =
     (if 2 \<le> n_txns g then
        let sid = srt (\<lambda>a. canonical_pos g ! a) [0..<n_txns g]
        in of_int (canonical_pos g ! (sid ! (n_txns g - 1)) - canonical_pos g ! (sid ! 0))
           / of_nat (n_txns g - 1)
      else 0)"

definition auto_detect :: "((nat \<Rightarrow> int) \<Rightarrow> nat list \<Rightarrow> nat list) \<Rightarrow> int \<Rightarrow> hyper_graph \<Rightarrow> delta_state
    \<Rightarrow> delta_state" where
  "auto_detect srt now g ds =
     (let elapsed_s = of_int ((now - last_update_time ds) div 1000000) / 1000;
          ds = (if sample_count ds < 100 then
                  let alpha = 1 / 10;
                      instant_gen = (if 0 < elapsed_s then 1000 / elapsed_s else 100);
                      span = canonical_span srt g;
                      instant_network = (if 0 < span then span else 100)
                  in ds\<lparr>sample_count := sample_count ds + 1,
                        auto_gen_param := alpha * auto_gen_param ds + (1 - alpha) * instant_gen,
                        auto_network_param :=
                          alpha * auto_network_param ds + (1 - alpha) * instant_network\<rparr>
                else ds)
      in ds\<lparr>last_update_time := now\<rparr>)"

definition scale_factor :: "nat \<Rightarrow> real" where
  "scale_factor n =
     (if 1000 < n then 1 + 3 / 10 * ln (of_nat n / 1000)
      else if n < 100 then max (7 / 10) (1 - 3 / 10 * ln (100 / of_nat n))
      else 1)"

definition similarity_factor :: "real \<Rightarrow> real" where
  "similarity_factor gam =
     (let target = max (1 / 2) (min (9 / 10) (1 / 2 + 4 / 10 * gam))
      in max (8 / 10) (min 2 (8 / 10 + 12 / 10 * (target - 1 / 2) / (45 / 100))))"

definition compute_delta :: "((nat \<Rightarrow> int) \<Rightarrow> nat list \<Rightarrow> nat list) \<Rightarrow> int \<Rightarrow> real \<Rightarrow> real \<Rightarrow> hyper_graph
    \<Rightarrow> delta_state \<Rightarrow> int \<times> delta_state" where
  "compute_delta srt now gen_param network_param g ds =
     (let given = (0 < gen_param \<and> 0 < network_param);
          ds = (if given then ds\<lparr>auto_gen_param := gen_param, auto_network_param := network_param,
                                sample_count := 0\<rparr>
                else auto_detect srt now g ds);
          gen = (if given then gen_param else auto_gen_param ds);
          net = (if given then network_param else auto_network_param ds);
          base_delta = 1 / 10 * net / gen;
          adjusted = base_delta * scale_factor (n_txns g) * similarity_factor (gamma g)
      in (max 1 (min 100 (double_to_int (std_round adjusted))), ds))"

subsection \<open>\<open>detect_clusters_refined\<close>\<close>

text \<open>
  The loop over the sorted ids: \<open>cur\<close> is the cluster being filled, \<open>prev\<close> the id before.
\<close>

fun cluster_loop :: "(nat \<Rightarrow> int) \<Rightarrow> int \<Rightarrow> nat \<Rightarrow> nat list \<Rightarrow> nat list \<Rightarrow> nat list list" where
  "cluster_loop pos delta prev cur [] = [cur]"
| "cluster_loop pos delta prev cur (x # xs) =
     (if pos x - pos prev < delta then cluster_loop pos delta x (cur @ [x]) xs
      else cur # cluster_loop pos delta x [x] xs)"

definition detect_clusters_refined :: "((nat \<Rightarrow> int) \<Rightarrow> nat list \<Rightarrow> nat list) \<Rightarrow> int \<Rightarrow> real \<Rightarrow> real
    \<Rightarrow> hyper_graph \<Rightarrow> delta_state \<Rightarrow> hyper_graph \<times> delta_state" where
  "detect_clusters_refined srt now gen_param network_param g ds =
     (if n_txns g = 0 then (g\<lparr>hyperedges := []\<rparr>, ds)
      else let sid = srt (\<lambda>a. canonical_pos g ! a) [0..<n_txns g];
               (delta, ds) = compute_delta srt now gen_param network_param g ds
           in (g\<lparr>hyperedges := map (\<lambda>ms. \<lparr>he_members = ms, internal_order = []\<rparr>)
                   (cluster_loop (\<lambda>a. canonical_pos g ! a) delta (hd sid) [hd sid] (tl sid))\<rparr>, ds))"

subsection \<open>\<open>build_hypergraph\<close>\<close>

text \<open>
  Inside a cluster the members are sorted by descending net preference against the other
  members; the pairs \<open>(net, m)\<close> of the code are the members with \<open>net\<close> as the sort key.
\<close>

definition net_score :: "hyper_graph \<Rightarrow> nat list \<Rightarrow> nat \<Rightarrow> int" where
  "net_score g ms m =
     (\<Sum>o' \<leftarrow> ms. if m \<noteq> o' then uint (pref g ! (m * n_txns g + o')) - uint (pref g ! (o' * n_txns g + m))
                else 0)"

definition order_members :: "((nat \<Rightarrow> int) \<Rightarrow> nat list \<Rightarrow> nat list) \<Rightarrow> hyper_graph \<Rightarrow> hyper_edge \<Rightarrow> hyper_edge" where
  "order_members srt g he =
     (if length (he_members he) \<le> 1 then
        if length (he_members he) = 1 then he\<lparr>internal_order := he_members he\<rparr> else he
      else he\<lparr>internal_order := srt (\<lambda>m. - net_score g (he_members he) m) (he_members he)\<rparr>)"

text \<open>\<open>s_ij\<close>: how often a member of one cluster stands before a member of the other.\<close>

definition support :: "hyper_graph \<Rightarrow> hyper_edge \<Rightarrow> hyper_edge \<Rightarrow> int" where
  "support g A B =
     (\<Sum>a \<leftarrow> he_members A. \<Sum>b \<leftarrow> he_members B. uint (pref g ! (a * n_txns g + b)))"

text \<open>The edge between clusters \<open>i < j\<close>, if the margin decides one.\<close>

definition add_edge :: "nat \<Rightarrow> nat \<Rightarrow> hyper_graph \<Rightarrow> hyper_graph" where
  "add_edge u v g =
     g\<lparr>he_adj := (he_adj g)[u := he_adj g ! u @ [v]], he_indeg := (he_indeg g)[v := he_indeg g ! v + 1]\<rparr>"

definition link_clusters :: "nat \<Rightarrow> nat \<Rightarrow> hyper_graph \<Rightarrow> hyper_graph" where
  "link_clusters i j g =
     (let s_ij = support g (hyperedges g ! i) (hyperedges g ! j);
          s_ji = support g (hyperedges g ! j) (hyperedges g ! i)
      in if margin g * of_int s_ji < of_int s_ij then add_edge i j g
         else if margin g * of_int s_ij < of_int s_ji then add_edge j i g
         else g)"

definition build_hypergraph :: "((nat \<Rightarrow> int) \<Rightarrow> nat list \<Rightarrow> nat list) \<Rightarrow> hyper_graph \<Rightarrow> hyper_graph" where
  "build_hypergraph srt g =
     (let H = length (hyperedges g) in
      if H = 0 then g
      else let g = g\<lparr>he_adj := replicate H [], he_indeg := replicate H 0,
                     hyperedges := map (order_members srt g) (hyperedges g)\<rparr>
           in if H = 1 then g
              else fold (\<lambda>i g. fold (\<lambda>j g. link_clusters i j g) [i + 1..<H] g) [0..<H] g)"

end
