(* ===== verification/Topo_Sort.thy ===== *)
theory Topo_Sort
  imports Hyper_Graph
begin

text \<open>
  \<open>HyperGraph::topological_sort\<close> and \<open>HyperGraph::finalize\<close> of
  \<open>flashorder/include/hotstuff/flashorder.h\<close>. The sort removes vertices of in-degree zero one
  after another; what is left on cycles is appended by index. Proved here: it ends, its result is
  a permutation of the vertices, and it respects every edge when there is no cycle.
\<close>

subsection \<open>The queue loop\<close>

text \<open>
  \<open>for (int v : he_adj[u]) if (--d[v] == 0) q.push(v)\<close>. The test on \<open>v\<close> guards an index that a
  built hypergraph never has (\<open>topo_wf\<close> below).
\<close>

fun relax :: "nat list \<Rightarrow> int list \<Rightarrow> nat list \<Rightarrow> int list \<times> nat list" where
  "relax [] d q = (d, q)"
| "relax (v # vs) d q =
     (if v < length d then
        let d' = d[v := d ! v - 1] in relax vs d' (if d' ! v = 0 then q @ [v] else q)
      else relax vs d q)"

definition pos_count :: "int list \<Rightarrow> nat" where
  "pos_count d = length (filter (\<lambda>x. 0 < x) d)"

lemma pos_count_decrement:
  "v < length d \<Longrightarrow>
   pos_count (d[v := d ! v - 1]) + (if d ! v - 1 = 0 then 1 else 0) = pos_count d"
proof (induction d arbitrary: v)
  case Nil
  then show ?case by simp
next
  case (Cons x d)
  then show ?case by (cases v) (auto simp: pos_count_def)
qed

lemma relax_measure:
  "relax vs d q = (d', q') \<Longrightarrow> length q' + pos_count d' = length q + pos_count d"
proof (induction vs d q rule: relax.induct)
  case (1 d q)
  then show ?case by simp
next
  case (2 v vs d q)
  show ?case
  proof (cases "v < length d")
    case True
    with "2.prems" have "relax vs (d[v := d ! v - 1])
        (if d ! v - 1 = 0 then q @ [v] else q) = (d', q')"
      by (simp add: Let_def)
    with "2.IH"(1) [OF True refl] True
    have "length q' + pos_count d' = length (if d ! v - 1 = 0 then q @ [v] else q)
        + pos_count (d[v := d ! v - 1])"
      by simp
    with pos_count_decrement [OF True] show ?thesis
      by (simp split: if_splits)
  next
    case False
    with 2 show ?thesis by simp
  qed
qed

function kahn :: "nat list list \<Rightarrow> int list \<Rightarrow> nat list \<Rightarrow> nat list \<Rightarrow> nat list" where
  "kahn adj d [] order = order"
| "kahn adj d (u # q) order =
     (let (d', q') = relax (adj ! u) d q in kahn adj d' q' (order @ [u]))"
  by pat_completeness auto

text \<open>
  The loop ends on any input: a vertex enters the queue when its counter reaches zero, so the
  queue's length plus the number of positive counters goes down by one in every round.
\<close>

termination
proof (relation "measure (\<lambda>(adj, d, q, order). length q + pos_count d)")
  fix adj :: "nat list list" and d u q order x d' q'
  assume "x = relax (adj ! u) d q" and "(d', q') = x"
  then have "relax (adj ! u) d q = (d', q')" by simp
  then show "((adj, d', q', order @ [u]), adj, d, u # q, order)
      \<in> measure (\<lambda>(adj, d, q, order). length q + pos_count d)"
    by (auto dest: relax_measure)
qed simp

definition topological_sort :: "hyper_graph \<Rightarrow> nat list" where
  "topological_sort g =
     (let H = length (hyperedges g) in
      if H = 0 then []
      else let order = kahn (he_adj g) (he_indeg g) (filter (\<lambda>i. he_indeg g ! i = 0) [0..<H]) []
           in if length order \<noteq> H then order @ filter (\<lambda>i. i \<notin> set order) [0..<H]
              else order)"

subsection \<open>\<open>finalize\<close>\<close>

text \<open>
  \<open>gam\<close>, \<open>gen_param\<close> and \<open>network_param\<close> are the configured parameters. The result carries the
  order, the (possibly sorted) input lists, the object and the statics of \<open>compute_delta\<close>.
\<close>

definition hg_threshold :: "int \<Rightarrow> real \<Rightarrow> int \<Rightarrow> int" where
  "hg_threshold n gam f = max 1 (double_to_int (of_int n * (1 - gam)) + f + 1)"

definition finalize :: "((nat \<Rightarrow> int) \<Rightarrow> nat list \<Rightarrow> nat list) \<Rightarrow> nat \<Rightarrow> int \<Rightarrow> ordered_list list
    \<Rightarrow> int \<Rightarrow> int \<Rightarrow> real \<Rightarrow> real \<Rightarrow> real \<Rightarrow> hyper_graph \<Rightarrow> delta_state
    \<Rightarrow> uint256 list \<times> ordered_list list \<times> hyper_graph \<times> delta_state" where
  "finalize srt mx now ls nfaulty nnodes gam gen_param network_param g ds =
     (let g = g\<lparr>n_f := nfaulty, n_nodes := max 1 nnodes, gamma := gam,
              threshold := hg_threshold (max 1 nnodes) gam nfaulty\<rparr>;
          (ls, g) = compute_preferences srt mx ls g
      in if n_txns g = 0 then ([], ls, g, ds)
         else if n_txns g = 1 then ([id_to_cmd g ! 0], ls, g, ds)
         else let g = compute_canonical_positions mx g;
                  (g, ds) = detect_clusters_refined srt now gen_param network_param g ds;
                  g = build_hypergraph srt g;
                  order = topological_sort g
              in (concat (map (\<lambda>idx. map (\<lambda>tid. id_to_cmd g ! tid)
                    (internal_order (hyperedges g ! idx))) order), ls, g, ds))"

subsection \<open>Correctness of the queue loop\<close>

lemma count_list_pos_iff: "0 < count_list xs x \<longleftrightarrow> x \<in> set xs"
  by (metis count_list_0_iff gr0I less_numeral_extra(3))

lemma relax_spec:
  assumes "relax vs d q = (d', q')"
  shows "length d' = length d"
    and "\<And>v. v < length d \<Longrightarrow> d' ! v = d ! v - int (count_list vs v)"
    and "\<exists>new. q' = q @ new \<and> distinct new \<and> set new = {v. v < length d \<and> 0 < d ! v \<and> d' ! v \<le> 0}"
proof -
  have "length d' = length d \<and> (\<forall>v < length d. d' ! v = d ! v - int (count_list vs v)) \<and>
    (\<exists>new. q' = q @ new \<and> distinct new \<and> set new = {v. v < length d \<and> 0 < d ! v \<and> d' ! v \<le> 0})"
    using assms
  proof (induction vs d q rule: relax.induct)
    case (1 d q)
    then show ?case by force
  next
    case (2 v vs d q)
    show ?case
    proof (cases "v < length d")
      case True
      define d1 where "d1 = d[v := d ! v - 1]"
      define q1 where "q1 = (if d1 ! v = 0 then q @ [v] else q)"
      have "relax vs d1 q1 = (d', q')"
        using "2.prems" True by (simp add: Let_def d1_def q1_def)
      then have len: "length d' = length d1"
        and val: "\<forall>w < length d1. d' ! w = d1 ! w - int (count_list vs w)"
        and ex: "\<exists>new. q' = q1 @ new \<and> distinct new \<and>
          set new = {w. w < length d1 \<and> 0 < d1 ! w \<and> d' ! w \<le> 0}"
        using "2.IH"(1) [OF True d1_def] unfolding q1_def by blast+
      from ex obtain new where new: "q' = q1 @ new" "distinct new"
        "set new = {w. w < length d1 \<and> 0 < d1 ! w \<and> d' ! w \<le> 0}"
        by blast
      have d1: "d1 ! w = d ! w - (if w = v then 1 else 0)" if "w < length d" for w
        using that by (simp add: d1_def)
      have val': "\<forall>w < length d. d' ! w = d ! w - int (count_list (v # vs) w)"
        using val d1 by (auto simp: d1_def)
      let ?new = "(if d1 ! v = 0 then [v] else []) @ new"
      have "q' = q @ ?new"
        using new(1) by (simp add: q1_def)
      moreover have "distinct ?new"
        using new(2,3) by auto
      moreover have "set ?new = {w. w < length d \<and> 0 < d ! w \<and> d' ! w \<le> 0}"
      proof -
        have "d' ! v \<le> d1 ! v"
          using val True by (simp add: d1_def)
        then show ?thesis
          using new(3) True d1 by (auto simp: d1_def split: if_splits)
      qed
      ultimately show ?thesis
        using len val' by (intro conjI exI [of _ ?new]) (simp_all add: d1_def)
    next
      case False
      with "2.prems" have "relax vs d q = (d', q')" by simp
      with "2.IH"(2) [OF False] False show ?thesis by auto
    qed
  qed
  then show "length d' = length d"
    and "\<And>v. v < length d \<Longrightarrow> d' ! v = d ! v - int (count_list vs v)"
    and "\<exists>new. q' = q @ new \<and> distinct new \<and> set new = {v. v < length d \<and> 0 < d ! v \<and> d' ! v \<le> 0}"
    by blast+
qed

text \<open>
  The invariant of the loop: a vertex has been emitted or queued exactly when its counter is used
  up, the counter holds the edges from vertices not yet emitted, and every predecessor of an
  emitted vertex was emitted before it.
\<close>

definition kahn_inv :: "nat list list \<Rightarrow> int list \<Rightarrow> nat list \<Rightarrow> nat list \<Rightarrow> bool" where
  "kahn_inv adj d q order \<longleftrightarrow>
     length d = length adj \<and> distinct (order @ q) \<and> set (order @ q) \<subseteq> {..<length adj} \<and>
     (\<forall>v < length adj. v \<in> set (order @ q) \<longleftrightarrow> d ! v \<le> 0) \<and>
     (\<forall>v < length adj. d ! v = (\<Sum>u \<in> {..<length adj} - set order. int (count_list (adj ! u) v))) \<and>
     (\<forall>u < length adj. \<forall>v < length adj. v \<in> set (adj ! u) \<longrightarrow> v \<in> set order \<longrightarrow> before order u v)"

lemma kahn_inv_pred:
  assumes "kahn_inv adj d q order" and "u < length adj" and "v < length adj"
    and "v \<in> set (adj ! u)" and "v \<in> set (order @ q)"
  shows "u \<in> set order"
proof (rule ccontr)
  assume "u \<notin> set order"
  let ?S = "{..<length adj} - set order"
  have "(\<Sum>w \<in> ?S. int (count_list (adj ! w) v)) = d ! v"
    using assms(1,3) by (simp add: kahn_inv_def)
  also have "d ! v \<le> 0"
    using assms(1,3,5) unfolding kahn_inv_def by blast
  finally have "(\<Sum>w \<in> ?S. int (count_list (adj ! w) v)) = 0"
    by (simp add: antisym sum_nonneg)
  then have "int (count_list (adj ! u) v) = 0"
    using \<open>u \<notin> set order\<close> assms(2) by (simp add: sum_nonneg_eq_0_iff)
  with assms(4) show False
    by (simp add: count_list_0_iff)
qed

lemma kahn_inv_step:
  assumes inv: "kahn_inv adj d (u # q) order" and relax: "relax (adj ! u) d q = (d', q')"
  shows "kahn_inv adj d' q' (order @ [u])"
proof -
  note spec = relax_spec [OF relax]
  obtain new where new: "q' = q @ new" "distinct new"
    "set new = {v. v < length d \<and> 0 < d ! v \<and> d' ! v \<le> 0}"
    using spec(3) by blast
  have len: "length d = length adj" and u: "u < length adj" "u \<notin> set order"
    and old: "distinct (order @ u # q)" "set (order @ u # q) \<subseteq> {..<length adj}"
    and used: "\<And>v. v < length adj \<Longrightarrow> v \<in> set (order @ u # q) \<longleftrightarrow> d ! v \<le> 0"
    and cnt: "\<And>v. v < length adj \<Longrightarrow>
      d ! v = (\<Sum>w \<in> {..<length adj} - set order. int (count_list (adj ! w) v))"
    and bef: "\<And>w v. w < length adj \<Longrightarrow> v < length adj \<Longrightarrow> v \<in> set (adj ! w) \<Longrightarrow>
      v \<in> set order \<Longrightarrow> before order w v"
    using inv unfolding kahn_inv_def by auto
  have le: "d' ! v \<le> d ! v" if "v < length adj" for v
    using spec(2) that len by simp
  have fresh: "v \<notin> set (order @ u # q)" if "v \<in> set new" for v
    using that used [of v] len unfolding new(3) by force
  have "distinct ((order @ [u]) @ q')"
  proof -
    have "set (order @ u # q) \<inter> set new = {}"
      using fresh by blast
    with old(1) new(2) have "distinct ((order @ u # q) @ new)"
      by (simp only: distinct_append simp_thms)
    then show ?thesis
      by (simp add: new(1))
  qed
  moreover have "set ((order @ [u]) @ q') \<subseteq> {..<length adj}"
  proof -
    have "set new \<subseteq> {..<length adj}"
      using len unfolding new(3) by auto
    with old(2) show ?thesis
      by (simp add: new(1))
  qed
  moreover have "v \<in> set ((order @ [u]) @ q') \<longleftrightarrow> d' ! v \<le> 0" if "v < length adj" for v
  proof -
    have "v \<in> set ((order @ [u]) @ q') \<longleftrightarrow> v \<in> set (order @ u # q) \<or> v \<in> set new"
      by (simp add: new(1) disj_ac)
    also have "\<dots> \<longleftrightarrow> d ! v \<le> 0 \<or> v \<in> set new"
      by (simp only: used [OF that])
    also have "\<dots> \<longleftrightarrow> d' ! v \<le> 0"
      using le [OF that] that len unfolding new(3) by auto
    finally show ?thesis .
  qed
  moreover have "d' ! v = (\<Sum>w \<in> {..<length adj} - set (order @ [u]). int (count_list (adj ! w) v))"
    if "v < length adj" for v
  proof -
    let ?f = "\<lambda>w. int (count_list (adj ! w) v)" and ?T = "{..<length adj} - set (order @ [u])"
    have "sum ?f ({..<length adj} - set order) = ?f u + sum ?f (({..<length adj} - set order) - {u})"
      using u by (intro sum.remove) simp_all
    moreover have "({..<length adj} - set order) - {u} = ?T"
      by (simp add: set_diff_eq) blast
    ultimately have "sum ?f ({..<length adj} - set order) = ?f u + sum ?f ?T"
      by (simp only:)
    then have "d ! v = ?f u + sum ?f ?T"
      using cnt [OF that] by (simp only:)
    moreover have "d' ! v = d ! v - ?f u"
      using spec(2) that len by simp
    ultimately show ?thesis
      by linarith
  qed
  moreover have "before (order @ [u]) w v"
    if "w < length adj" "v < length adj" "v \<in> set (adj ! w)" "v \<in> set (order @ [u])" for w v
  proof (cases "v \<in> set order")
    case True
    then show ?thesis
      using bef that by (simp add: before_append)
  next
    case False
    with that have "v = u" by simp
    moreover have "w \<in> set order"
      using kahn_inv_pred [OF inv that(1-3)] \<open>v = u\<close> by simp
    ultimately show ?thesis
      by (simp add: before_append)
  qed
  ultimately show ?thesis
    using spec(1) len unfolding kahn_inv_def by simp
qed

lemma kahn_inv_result:
  "kahn_inv adj d q order \<Longrightarrow> \<exists>d'. kahn_inv adj d' [] (kahn adj d q order)"
proof (induction adj d q order rule: kahn.induct)
  case (1 adj d order)
  then show ?case by auto
next
  case (2 adj d u q order)
  obtain d' q' where *: "relax (adj ! u) d q = (d', q')"
    by fastforce
  then have "kahn_inv adj d' q' (order @ [u])"
    using kahn_inv_step "2.prems" by blast
  with "2.IH" * show ?case
    by simp
qed

subsection \<open>The whole sort\<close>

definition he_edges :: "hyper_graph \<Rightarrow> (nat \<times> nat) set" where
  "he_edges g = {(u, v). u < length (hyperedges g) \<and> v \<in> set (he_adj g ! u)}"

definition topo_wf :: "hyper_graph \<Rightarrow> bool" where
  "topo_wf g \<longleftrightarrow>
     length (he_adj g) = length (hyperedges g) \<and> length (he_indeg g) = length (hyperedges g) \<and>
     (\<forall>u < length (hyperedges g). set (he_adj g ! u) \<subseteq> {..<length (hyperedges g)}) \<and>
     (\<forall>v < length (hyperedges g).
        he_indeg g ! v = (\<Sum>u < length (hyperedges g). int (count_list (he_adj g ! u) v)))"

text \<open>The part the queue loop emits.\<close>

definition kahn_part :: "hyper_graph \<Rightarrow> nat list" where
  "kahn_part g = kahn (he_adj g) (he_indeg g)
     (filter (\<lambda>i. he_indeg g ! i = 0) [0..<length (hyperedges g)]) []"

lemma kahn_part_inv:
  assumes "topo_wf g"
  shows "\<exists>d'. kahn_inv (he_adj g) d' [] (kahn_part g)"
proof -
  let ?H = "length (hyperedges g)"
  have "0 \<le> he_indeg g ! v" if "v < ?H" for v
    using assms that by (simp add: topo_wf_def sum_nonneg)
  then have "kahn_inv (he_adj g) (he_indeg g) (filter (\<lambda>i. he_indeg g ! i = 0) [0..<?H]) []"
    using assms unfolding kahn_inv_def topo_wf_def by (auto simp: antisym)
  then show ?thesis
    unfolding kahn_part_def by (rule kahn_inv_result)
qed

lemma kahn_part_distinct: "topo_wf g \<Longrightarrow> distinct (kahn_part g)"
  and kahn_part_set: "topo_wf g \<Longrightarrow> set (kahn_part g) \<subseteq> {..<length (hyperedges g)}"
  and kahn_part_before: "topo_wf g \<Longrightarrow> (u, v) \<in> he_edges g \<Longrightarrow> v \<in> set (kahn_part g) \<Longrightarrow>
    before (kahn_part g) u v"
  using kahn_part_inv [of g] by (auto simp: kahn_inv_def topo_wf_def he_edges_def)

lemma topological_sort_alt:
  assumes "topo_wf g"
  shows "topological_sort g =
    kahn_part g @ filter (\<lambda>i. i \<notin> set (kahn_part g)) [0..<length (hyperedges g)]"
proof -
  have empty: "kahn_part g = []" if "hyperedges g = []"
    using that kahn_part_set [OF assms] by auto
  show ?thesis
  proof (cases "length (kahn_part g) = length (hyperedges g)")
  case True
  have "card (set (kahn_part g)) = card {..<length (hyperedges g)}"
    using True kahn_part_distinct [OF assms] by (simp add: distinct_card)
  then have "set (kahn_part g) = {..<length (hyperedges g)}"
    using kahn_part_set [OF assms] by (simp add: card_subset_eq)
  then have "filter (\<lambda>i. i \<notin> set (kahn_part g)) [0..<length (hyperedges g)] = []"
    by (simp add: filter_empty_conv)
  with True empty show ?thesis
    by (simp add: topological_sort_def Let_def flip: kahn_part_def)
next
  case False
  with empty show ?thesis
    by (simp add: topological_sort_def Let_def flip: kahn_part_def)
qed
qed

lemma topological_sort_mset:
  assumes "topo_wf g"
  shows "mset (topological_sort g) = mset [0..<length (hyperedges g)]"
proof -
  let ?xs = "kahn_part g @ filter (\<lambda>i. i \<notin> set (kahn_part g)) [0..<length (hyperedges g)]"
  have "set ?xs = set [0..<length (hyperedges g)]"
    using kahn_part_set [OF assms] by auto
  moreover have "distinct ?xs"
    using kahn_part_distinct [OF assms] by auto
  ultimately have "mset ?xs = mset [0..<length (hyperedges g)]"
    using distinct_upt set_eq_iff_mset_eq_distinct by blast
  then show ?thesis
    by (simp only: topological_sort_alt [OF assms])
qed

text \<open>Without a cycle the queue loop reaches every vertex.\<close>

lemma kahn_part_complete:
  assumes "topo_wf g" and "acyclic (he_edges g)"
  shows "set (kahn_part g) = {..<length (hyperedges g)}"
proof -
  let ?H = "length (hyperedges g)"
  have len: "length (he_adj g) = ?H"
    using assms(1) by (simp add: topo_wf_def)
  obtain d where inv: "kahn_inv (he_adj g) d [] (kahn_part g)"
    using kahn_part_inv [OF assms(1)] by blast
  have "finite (he_edges g)"
    using assms(1) by (intro finite_subset [of "he_edges g" "{..<?H} \<times> {..<?H}"])
      (auto simp: he_edges_def topo_wf_def)
  then have wf: "wf (he_edges g)"
    using assms(2) by (simp add: finite_acyclic_wf)
  have "v \<in> set (kahn_part g)" if "v < ?H" for v
    using wf that
  proof (induction v rule: wf_induct_rule)
    case (less v)
    have "int (count_list (he_adj g ! u) v) = 0" if "u \<in> {..<?H} - set (kahn_part g)" for u
      using less that by (auto simp: he_edges_def count_list_0_iff)
    then have "d ! v = 0"
      using inv less.prems by (simp add: kahn_inv_def len)
    then show ?case
      using inv less.prems by (simp add: kahn_inv_def len)
  qed
  then show ?thesis
    using kahn_part_set [OF assms(1)] by auto
qed

lemma topological_sort_before:
  assumes "topo_wf g" and "acyclic (he_edges g)" and "(u, v) \<in> he_edges g"
  shows "before (topological_sort g) u v"
proof -
  have "v < length (hyperedges g)"
    using assms(1,3) by (auto simp: he_edges_def topo_wf_def)
  then have "before (kahn_part g) u v"
    using assms by (intro kahn_part_before) (simp_all add: kahn_part_complete)
  then show ?thesis
    by (simp add: topological_sort_alt [OF assms(1)] before_append)
qed

end
