(* ===== verification/Core.thy ===== *)
theory Core
  imports Storage Topo_Sort
begin

text \<open>
  \<open>HotStuffCore\<close> of \<open>flashorder/include/hotstuff/consensus.h\<close> and \<open>flashorder/src/consensus.cpp\<close>: the
  protocol state machine of one replica, three-step variant. The virtual outputs (\<open>do_vote\<close>,
  \<open>do_decide\<close> and so on) and the resolution of promises are recorded, in the order in which they
  happen, in the field \<open>events\<close>.
\<close>

record proposal =
  prop_proposer :: replica_id
  prop_blk :: ref

record vote =
  voter :: replica_id
  vote_blk_hash :: uint256
  vote_cert :: part_cert

record local_order =
  initiator :: replica_id
  ordered_hashes :: "uint256 list"
  lo_timestamps :: "u64 list"

record finality =
  fin_rid :: replica_id
  fin_decision :: u8
  cmd_idx :: u32
  cmd_height :: u32
  cmd_hash :: uint256
  fin_blk_hash :: uint256

datatype event =
    Do_Decide finality
  | Do_Consensus ref
  | Do_Broadcast_Proposal proposal
  | Do_Vote replica_id vote
  | Do_Send_Local_Order replica_id local_order
  | Resolve_QC ref
  | Resolve_Propose proposal
  | Resolve_Receive_Proposal proposal
  | Resolve_Hqc_Update

record core =
  heap :: heap
  next_ref :: ref
  b0 :: ref
  hqc :: "(ref \<times> quorum_cert) option"
  b_lock :: ref
  b_exec :: ref
  vheight :: u32
  tails :: "ref set"
  config :: replica_config
  qc_waiting :: "ref set"
  vote_disabled :: bool
  core_id :: replica_id
  storage :: entity_storage
  hg_statics :: "delta_state option"
  events :: "event list"

text \<open>
  What the core takes from outside: SHA-256, the signing of a hash with its private key, the
  contents of fresh memory, and \<open>std::sort\<close>.
\<close>

record env =
  e_sha :: "bytes \<Rightarrow> uint256"
  e_sign :: "uint256 \<Rightarrow> sig"
  e_mem :: "nat \<Rightarrow> u64"
  e_srt :: "(nat \<Rightarrow> int) \<Rightarrow> nat list \<Rightarrow> nat list"

definition create_part_cert :: "env \<Rightarrow> uint256 \<Rightarrow> part_cert" where
  "create_part_cert e h = PartCertSecp256k1 h (e_sign e h)"

abbreviation blk :: "core \<Rightarrow> ref \<Rightarrow> block" where
  "blk c r \<equiv> heap c r"

definition upd_blk :: "ref \<Rightarrow> (block \<Rightarrow> block) \<Rightarrow> core \<Rightarrow> core" where
  "upd_blk r f c = c\<lparr>heap := (heap c)(r := f (heap c r))\<rparr>"

definition emit :: "event \<Rightarrow> core \<Rightarrow> core" where
  "emit e c = c\<lparr>events := events c @ [e]\<rparr>"

text \<open>The constructor.\<close>

definition core_new :: "env \<Rightarrow> replica_id \<Rightarrow> err + core" where
  "core_new e rid =
     map_sum id (\<lambda>g. let hp = (\<lambda>_. block_empty)(0 := g) in
       \<lparr>heap = hp, next_ref = 1, b0 = 0, hqc = None, b_lock = 0, b_exec = 0, vheight = 0, tails = {0},
        config = config_new, qc_waiting = {}, vote_disabled = False, core_id = rid,
        storage = snd (add_blk hp 0 storage_new), hg_statics = None, events = []\<rparr>)
     (block_genesis (e_sha e) True 1)"

subsection \<open>Delivery\<close>

definition get_delivered_blk :: "uint256 \<Rightarrow> core \<Rightarrow> err + ref" where
  "get_delivered_blk h c =
     (case find_blk h (storage c) of
        None \<Rightarrow> Inl (Runtime_Error ''block not delivered'')
      | Some r \<Rightarrow> if delivered (blk c r) then Inr r else Inl (Runtime_Error ''block not delivered''))"

fun deliver_parents :: "ref \<Rightarrow> uint256 list \<Rightarrow> core \<Rightarrow> (unit, core) res" where
  "deliver_parents r [] c = Ok () c"
| "deliver_parents r (h # hs) c =
     (case get_delivered_blk h c of
        Inl e \<Rightarrow> Exc e c
      | Inr p \<Rightarrow> deliver_parents r hs (upd_blk r (\<lambda>b. b\<lparr>parents := parents b @ [p]\<rparr>) c))"

text \<open>The end of \<open>on_deliver_blk\<close>: the tails and the flag.\<close>

definition deliver_done :: "ref \<Rightarrow> core \<Rightarrow> core" where
  "deliver_done r c =
     upd_blk r (\<lambda>b. b\<lparr>delivered := True\<rparr>) (c\<lparr>tails := insert r (tails c - set (parents (blk c r)))\<rparr>)"

definition on_deliver_blk :: "ref \<Rightarrow> core \<Rightarrow> (bool, core) res" where
  "on_deliver_blk r c =
     (if delivered (blk c r) then Ok False c
      else res_bind (deliver_parents r (parent_hashes (blk c r)) (upd_blk r (\<lambda>b. b\<lparr>parents := []\<rparr>) c))
        (\<lambda>u c. case parents (blk c r) of
           [] \<Rightarrow> Exc Undefined_Behaviour c
         | p # ps \<Rightarrow>
             let c = upd_blk r (\<lambda>b. b\<lparr>height := height (blk c p) + 1\<rparr>) c
             in case blk_qc (blk c r) of
                  None \<Rightarrow> Ok True (deliver_done r c)
                | Some qc \<Rightarrow>
                    (case find_blk (qc_get_obj_hash qc) (storage c) of
                       None \<Rightarrow> Exc (Runtime_Error ''block referred by qc not fetched'') c
                     | Some q \<Rightarrow> Ok True (deliver_done r (upd_blk r (\<lambda>b. b\<lparr>qc_ref := Some q\<rparr>) c)))))"

subsection \<open>The chain rules\<close>

definition update_hqc :: "ref \<Rightarrow> quorum_cert option \<Rightarrow> core \<Rightarrow> (unit, core) res" where
  "update_hqc r qc c =
     (case hqc c of
        None \<Rightarrow> Exc Undefined_Behaviour c
      | Some (h, old) \<Rightarrow>
          if height (blk c h) < height (blk c r) then
            (case qc of
               None \<Rightarrow> Exc Undefined_Behaviour c
             | Some q \<Rightarrow> Ok () (emit Resolve_Hqc_Update (c\<lparr>hqc := Some (r, q)\<rparr>)))
          else Ok () c)"

text \<open>
  The loop \<open>for (b = start; b->height > h; b = b->parents[0])\<close> that two handlers share: the blocks it
  visits and the block it stops at. The fuel is one more than the height it starts from.
\<close>

fun walk :: "nat \<Rightarrow> heap \<Rightarrow> u32 \<Rightarrow> ref \<Rightarrow> err + (ref list \<times> ref)" where
  "walk 0 hp h b = Inl Endless_Loop"
| "walk (Suc n) hp h b =
     (if h < height (hp b) then
        (case parents (hp b) of
           [] \<Rightarrow> Inl Undefined_Behaviour
         | p # _ \<Rightarrow> map_sum id (\<lambda>(bs, e). (b # bs, e)) (walk n hp h p))
      else Inr ([], b))"

definition walk_down :: "heap \<Rightarrow> u32 \<Rightarrow> ref \<Rightarrow> err + (ref list \<times> ref)" where
  "walk_down hp h b = walk (unat (height (hp b)) + 1) hp h b"

text \<open>
  \<open>add_blk\<close> of a block that has just been made or read from the wire: it moves to the heap, unless
  its hash is cached; then the cached block is the result and the new object is released.
\<close>

definition fetch_blk :: "block \<Rightarrow> core \<Rightarrow> ref \<times> core" where
  "fetch_blk b c =
     (case find_blk (blk_hash b) (storage c) of
        Some r \<Rightarrow> (r, c)
      | None \<Rightarrow>
          let hp = (heap c)(next_ref c := b); (r, st) = add_blk hp (next_ref c) (storage c)
          in (r, c\<lparr>heap := hp, next_ref := next_ref c + 1, storage := st\<rparr>))"

definition fair_finalize :: "block \<Rightarrow> uint256 list" where
  "fair_finalize b = blk_cmds b"

text \<open>The loop over the commands of a block that is being committed.\<close>

fun decide_cmds :: "ref \<Rightarrow> nat \<Rightarrow> uint256 list \<Rightarrow> core \<Rightarrow> core" where
  "decide_cmds r i [] c = c"
| "decide_cmds r i (cmd # cmds) c =
     (let c = emit (Do_Decide \<lparr>fin_rid = core_id c, fin_decision = 1, cmd_idx = of_nat i,
                cmd_height = height (blk c r), cmd_hash = cmd, fin_blk_hash = blk_hash (blk c r)\<rparr>) c
      in decide_cmds r (i + 1) cmds
           (c\<lparr>storage := remove_from_proposed_cmds_cache cmd
                (remove_local_order_seen_execute_level cmd (storage c))\<rparr>))"

definition commit_blk :: "ref \<Rightarrow> core \<Rightarrow> core" where
  "commit_blk r c =
     (let order = fair_finalize (blk c r);
          c = emit (Do_Consensus r) (upd_blk r (\<lambda>b. b\<lparr>decision := 1\<rparr>) c)
      in (decide_cmds r 0 order c)\<lparr>b_exec := r\<rparr>)"

text \<open>The tail of \<open>update\<close>: commit \<open>b\<close> and its uncommitted ancestors, the oldest first.\<close>

definition commit_chain :: "ref \<Rightarrow> core \<Rightarrow> (unit, core) res" where
  "commit_chain b c =
     (case walk_down (heap c) (height (blk c (b_exec c))) b of
        Inl e \<Rightarrow> Exc e c
      | Inr (queue, stop) \<Rightarrow>
          if stop \<noteq> b_exec c then Exc (Runtime_Error ''safety breached'') c
          else Ok () (fold commit_blk (rev queue) c))"

text \<open>\<open>parents[0]\<close> of a block is \<open>p\<close>; without a parent the access is undefined.\<close>

definition first_parent :: "block \<Rightarrow> ref option" where
  "first_parent b = (case parents b of [] \<Rightarrow> None | p # _ \<Rightarrow> Some p)"

text \<open>
  \<open>update\<close> in three stages: \<open>blk2\<close>, \<open>blk1\<close> and \<open>b\<close> are the blocks the certificates of the new block,
  of \<open>blk2\<close> and of \<open>blk1\<close> refer to.
\<close>

definition update_commit :: "ref \<Rightarrow> ref \<Rightarrow> core \<Rightarrow> (unit, core) res" where
  "update_commit blk2 blk1 c =
     (case qc_ref (blk c blk1) of
        None \<Rightarrow> Ok () c
      | Some b \<Rightarrow>
          if decision (blk c b) \<noteq> 0 then Ok () c
          else case first_parent (blk c blk2) of
            None \<Rightarrow> Exc Undefined_Behaviour c
          | Some p2 \<Rightarrow>
              if p2 \<noteq> blk1 then Ok () c
              else case first_parent (blk c blk1) of
                None \<Rightarrow> Exc Undefined_Behaviour c
              | Some p1 \<Rightarrow> if p1 \<noteq> b then Ok () c else commit_chain b c)"

definition update_lock :: "ref \<Rightarrow> core \<Rightarrow> (unit, core) res" where
  "update_lock blk2 c =
     (case qc_ref (blk c blk2) of
        None \<Rightarrow> Ok () c
      | Some blk1 \<Rightarrow>
          if decision (blk c blk1) \<noteq> 0 then Ok () c
          else update_commit blk2 blk1
            (if height (blk c (b_lock c)) < height (blk c blk1) then c\<lparr>b_lock := blk1\<rparr> else c))"

definition update :: "ref \<Rightarrow> core \<Rightarrow> (unit, core) res" where
  "update nblk c =
     (let c = c\<lparr>storage := fold remove_local_order_seen_propose_level (blk_cmds (blk c nblk)) (storage c)\<rparr>
      in case qc_ref (blk c nblk) of
           None \<Rightarrow> Ok () c
         | Some blk2 \<Rightarrow>
             if decision (blk c blk2) \<noteq> 0 then Ok () c
             else res_bind (update_hqc blk2 (blk_qc (blk c nblk)) c) (\<lambda>u c. update_lock blk2 c))"

subsection \<open>Promises\<close>

definition on_qc_finish :: "ref \<Rightarrow> core \<Rightarrow> core" where
  "on_qc_finish r c =
     (if r \<in> qc_waiting c then (emit (Resolve_QC r) c)\<lparr>qc_waiting := qc_waiting c - {r}\<rparr> else c)"

text \<open>The result tells whether the promise is already resolved.\<close>

definition async_qc_finish :: "ref \<Rightarrow> core \<Rightarrow> bool \<times> core" where
  "async_qc_finish r c =
     (if nmajority (config c) \<le> of_nat (card (voted (blk c r))) then (True, c)
      else (False, c\<lparr>qc_waiting := insert r (qc_waiting c)\<rparr>))"

subsection \<open>Proposals and votes\<close>

text \<open>The decision to vote: the liveness condition, else the safety condition.\<close>

definition vote_opinion :: "ref \<Rightarrow> core \<Rightarrow> (bool, core) res" where
  "vote_opinion r c =
     (if vheight c < height (blk c r) then
        if (case qc_ref (blk c r) of Some q \<Rightarrow> height (blk c (b_lock c)) < height (blk c q) | None \<Rightarrow> False)
        then Ok True (c\<lparr>vheight := height (blk c r)\<rparr>)
        else (case walk_down (heap c) (height (blk c (b_lock c))) r of
                Inl e \<Rightarrow> Exc e c
              | Inr (bs, b) \<Rightarrow>
                  if b = b_lock c then Ok True (c\<lparr>vheight := height (blk c r)\<rparr>) else Ok False c)
      else Ok False c)"

definition on_receive_proposal :: "env \<Rightarrow> proposal \<Rightarrow> core \<Rightarrow> (unit, core) res" where
  "on_receive_proposal e prop c =
     (let self_prop = (prop_proposer prop = core_id c); bnew = prop_blk prop
      in res_bind (if self_prop then Ok () c
           else if \<not> delivered (blk c bnew) then Exc (Runtime_Error ''block not delivered'') c
           else update bnew c)
         (\<lambda>u c. res_bind (vote_opinion bnew c) (\<lambda>opinion c.
           let c = (case qc_ref (blk c bnew) of
                      Some q \<Rightarrow> if self_prop then c else on_qc_finish q c
                    | None \<Rightarrow> c);
               c = emit (Resolve_Receive_Proposal prop) c
           in if opinion \<and> \<not> vote_disabled c
              then Ok () (emit (Do_Vote (prop_proposer prop)
                     \<lparr>voter = core_id c, vote_blk_hash = blk_hash (blk c bnew),
                      vote_cert = create_part_cert e (blk_hash (blk c bnew))\<rparr>) c)
              else Ok () c)))"

text \<open>
  \<open>on_propose\<close>. When the hash of the new block is cached already, \<open>add_blk\<close> returns the old block.
\<close>

definition on_propose :: "env \<Rightarrow> uint256 list \<Rightarrow> ref list \<Rightarrow> bytes \<Rightarrow> core \<Rightarrow> (ref, core) res" where
  "on_propose e cmds ps ex c =
     (case ps of
        [] \<Rightarrow> Exc (Runtime_Error ''empty parents'') c
      | p # _ \<Rightarrow>
          let c = c\<lparr>tails := tails c - set ps\<rparr>
          in case hqc c of
               None \<Rightarrow> Exc Undefined_Behaviour c
             | Some (h, qc) \<Rightarrow>
                 (case block_make (e_sha e) (heap c) ps cmds qc ex (height (blk c p) + 1) (Some h) None 0 of
                    Inl er \<Rightarrow> Exc er c
                  | Inr b \<Rightarrow>
                      let (bnew, c) = fetch_blk b c;
                          c = upd_blk bnew (\<lambda>b. b\<lparr>self_qc :=
                                Some (create_quorum_cert (e_mem e) (config c) (blk_hash b))\<rparr>) c;
                          prop = \<lparr>prop_proposer = core_id c, prop_blk = bnew\<rparr>
                      in res_bind (on_deliver_blk bnew c) (\<lambda>d c. res_bind (update bnew c) (\<lambda>u c.
                           if height (blk c bnew) \<le> vheight c
                           then Exc (Runtime_Error ''new block should be higher than vheight'') c
                           else res_bind (on_receive_proposal e prop c) (\<lambda>u c.
                             Ok bnew (emit (Do_Broadcast_Proposal prop) (emit (Resolve_Propose prop) c)))))))"

definition on_receive_vote :: "env \<Rightarrow> vote \<Rightarrow> core \<Rightarrow> (unit, core) res" where
  "on_receive_vote e v c =
     (case get_delivered_blk (vote_blk_hash v) c of
        Inl er \<Rightarrow> Exc er c
      | Inr r \<Rightarrow>
          let qsize = of_nat (card (voted (blk c r))) :: u64
          in if nmajority (config c) \<le> qsize then Ok () c
             else if voter v \<in> voted (blk c r) then Ok () c
             else
               let c = upd_blk r (\<lambda>b. b\<lparr>voted := insert (voter v) (voted b)\<rparr>) c;
                   qc = (case self_qc (blk c r) of
                           None \<Rightarrow> create_quorum_cert (e_mem e) (config c) (blk_hash (blk c r))
                         | Some qc \<Rightarrow> qc)
               in case qc_add_part (voter v) (vote_cert v) qc of
                    Exc er qc \<Rightarrow> Exc er (upd_blk r (\<lambda>b. b\<lparr>self_qc := Some qc\<rparr>) c)
                  | Ok u qc \<Rightarrow>
                      let c = upd_blk r (\<lambda>b. b\<lparr>self_qc := Some qc\<rparr>) c
                      in if qsize + 1 = nmajority (config c)
                         then res_bind (update_hqc r (Some qc) c) (\<lambda>u c. Ok () (on_qc_finish r c))
                         else Ok () c)"

subsection \<open>Local orders\<close>

text \<open>
  \<open>mx\<close> is the template argument (10000) and \<open>now\<close> the clock reading. The statics of
  \<open>compute_delta\<close> come into being at the first call.
\<close>

definition flashorder_propose :: "env \<Rightarrow> (replica_id list \<Rightarrow> replica_id list) \<Rightarrow> nat \<Rightarrow> int \<Rightarrow> core
    \<Rightarrow> (uint256 list, core) res" where
  "flashorder_propose e iter mx now c =
     (let lists = collect_ordered_lists iter (storage c)
      in if lists = [] then Ok [] c
         else
           let nfaulty = nreplicas (config c) - nmajority (config c);
               ds = (case hg_statics c of None \<Rightarrow> delta_init now | Some ds \<Rightarrow> ds);
               (order, ls, g, ds) = finalize (e_srt e) mx now lists (sint (ucast nfaulty :: 32 word))
                 (sint (ucast (nreplicas (config c)) :: 32 word)) (fairness_parameter (config c))
                 (gen_param (config c)) (network_param (config c)) hg_new ds;
               c = c\<lparr>hg_statics := Some ds\<rparr>
           in case pop_all_front_ordered_lists (storage c) of
                Exc er st \<Rightarrow> Exc er (c\<lparr>storage := st\<rparr>)
              | Ok u st \<Rightarrow> Ok order (c\<lparr>storage := fold add_to_proposed_cmds_cache order st\<rparr>))"

definition on_local_order :: "replica_id \<Rightarrow> uint256 list \<Rightarrow> u64 list \<Rightarrow> core \<Rightarrow> core" where
  "on_local_order proposer order ts c =
     (if order = [] then c
      else emit (Do_Send_Local_Order proposer
             \<lparr>initiator = core_id c, ordered_hashes = order, lo_timestamps = ts\<rparr>)
           (c\<lparr>storage := update_local_order_seen order (storage c)\<rparr>))"

definition on_receive_local_order :: "local_order \<Rightarrow> core \<Rightarrow> bool \<times> core" where
  "on_receive_local_order lo c =
     (let c = c\<lparr>storage := add_local_order (initiator lo)
            \<lparr>ol_cmds = ordered_hashes lo, timestamps = lo_timestamps lo\<rparr> (storage c)\<rparr>
      in (nmajority (config c) \<le> of_nat (get_local_order_cache_size (storage c)), c))"

subsection \<open>Configuration\<close>

definition get_solid_tx_threshold :: "replica_config \<Rightarrow> real" where
  "get_solid_tx_threshold cf =
     (let n = nreplicas cf; f = n - nmajority cf in real (unat n) - 2 * real (unat f))"

definition get_tx_edge_threshold :: "replica_config \<Rightarrow> real" where
  "get_tx_edge_threshold cf =
     (let n = nreplicas cf; f = n - nmajority cf
      in real (unat n) * (1 - fairness_parameter cf) + real (unat f) + 1)"

definition get_non_blank_tx_threshold :: "replica_config \<Rightarrow> real" where
  "get_non_blank_tx_threshold cf =
     (let n = nreplicas cf; f = n - nmajority cf;
          solid = real (unat n) - 2 * real (unat f);
          shaded = real (unat n) * (1 - fairness_parameter cf) + real (unat f) + 1
      in if shaded < solid then shaded else solid)"

definition on_init :: "env \<Rightarrow> u32 \<Rightarrow> real \<Rightarrow> real \<Rightarrow> real \<Rightarrow> core \<Rightarrow> core" where
  "on_init e nfaulty fair gen net c =
     (let cf = (config c)\<lparr>nmajority := nreplicas (config c) - ucast nfaulty, fairness_parameter := fair\<rparr>;
          cf = (if 0 < gen then cf\<lparr>gen_param := gen, auto_param := False\<rparr> else cf);
          cf = (if 0 < net then cf\<lparr>network_param := net, auto_param := False\<rparr> else cf);
          cf = cf\<lparr>solid_tx_threshold := get_solid_tx_threshold cf\<rparr>;
          cf = cf\<lparr>non_blank_tx_threshold := get_non_blank_tx_threshold cf\<rparr>;
          cf = cf\<lparr>tx_edge_threshold := get_tx_edge_threshold cf\<rparr>;
          qc = create_quorum_cert (e_mem e) cf (blk_hash (blk c (b0 c)))
      in (upd_blk (b0 c) (\<lambda>b. b\<lparr>blk_qc := Some qc, self_qc := Some qc, qc_ref := Some (b0 c)\<rparr>) c)
           \<lparr>config := cf, hqc := Some (b0 c, qc)\<rparr>)"

definition add_replica :: "replica_id \<Rightarrow> peer_id \<Rightarrow> pubkey \<Rightarrow> core \<Rightarrow> core" where
  "add_replica rid peer pk c =
     upd_blk (b0 c) (\<lambda>b. b\<lparr>voted := insert rid (voted b)\<rparr>)
       (c\<lparr>config := config_add_replica rid \<lparr>ri_id = rid, ri_peer_id = peer, ri_pubkey = pk\<rparr> (config c)\<rparr>)"

subsection \<open>Start\<close>

text \<open>
  What \<open>HotStuffBase::start\<close> does to the core: the replicas are added in the order of their index,
  then \<open>on_init\<close>.
\<close>

definition core_start :: "env \<Rightarrow> replica_id \<Rightarrow> (replica_id \<times> peer_id \<times> pubkey) list \<Rightarrow> u32 \<Rightarrow> real \<Rightarrow> real \<Rightarrow> real
    \<Rightarrow> err + core" where
  "core_start e rid reps nfaulty fair gen net =
     map_sum id (\<lambda>c. on_init e nfaulty fair gen net
       (fold (\<lambda>(i, peer, pk). add_replica i peer pk) reps c)) (core_new e rid)"

end
