(* ===== verification/Core_Facts.thy ===== *)
theory Core_Facts
  imports Core
begin

text \<open>
  What the operations of \<open>HotStuffCore\<close> keep: the shape of the block tree, the monotonicity of
  \<open>vheight\<close>, the lock, the highest certificate and the executed block, and what they append to
  the event log.
\<close>

subsection \<open>Operations that leave the tree alone\<close>

definition same_shape :: "block \<Rightarrow> block \<Rightarrow> bool" where
  "same_shape b b' \<longleftrightarrow>
     delivered b' = delivered b \<and> height b' = height b \<and> parents b' = parents b \<and> qc_ref b' = qc_ref b \<and>
     blk_hash b' = blk_hash b \<and> blk_cmds b' = blk_cmds b \<and> blk_qc b' = blk_qc b \<and> parent_hashes b' = parent_hashes b"

lemma same_shape_refl [simp]: "same_shape b b"
  by (simp add: same_shape_def)

lemma same_shape_trans: "same_shape a b \<Longrightarrow> same_shape b c \<Longrightarrow> same_shape a c"
  by (simp add: same_shape_def)

definition keeps :: "core \<Rightarrow> core \<Rightarrow> bool" where
  "keeps c c' \<longleftrightarrow>
     next_ref c' = next_ref c \<and> b0 c' = b0 c \<and> core_id c' = core_id c \<and> config c' = config c \<and>
     blk_cache (storage c') = blk_cache (storage c) \<and> (\<forall>r. same_shape (blk c r) (blk c' r))"

lemma keeps_refl [simp]: "keeps c c"
  by (simp add: keeps_def)

lemma keeps_trans: "keeps a b \<Longrightarrow> keeps b c \<Longrightarrow> keeps a c"
  by (simp add: keeps_def) (blast intro: same_shape_trans)

lemma keeps_blk:
  assumes "keeps c c'"
  shows "delivered (blk c' r) = delivered (blk c r)" "height (blk c' r) = height (blk c r)"
    "parents (blk c' r) = parents (blk c r)" "qc_ref (blk c' r) = qc_ref (blk c r)"
    "blk_hash (blk c' r) = blk_hash (blk c r)" "blk_cmds (blk c' r) = blk_cmds (blk c r)"
    "next_ref c' = next_ref c" "b0 c' = b0 c" "parent_hashes (blk c' r) = parent_hashes (blk c r)" "blk_qc (blk c' r) = blk_qc (blk c r)"
  using assms by (simp_all add: keeps_def same_shape_def)

lemma keeps_emit [simp]: "keeps c (emit e c)"
  by (simp add: keeps_def emit_def)

lemma keeps_upd_blk: "(\<And>b. same_shape b (f b)) \<Longrightarrow> keeps c (upd_blk r f c)"
  by (simp add: keeps_def upd_blk_def)

lemma remove_seen_blk_cache [simp]:
  "blk_cache (remove_local_order_seen_execute_level cmd st) = blk_cache st"
  "blk_cache (remove_local_order_seen_propose_level cmd st) = blk_cache st"
  "blk_cache (remove_from_proposed_cmds_cache cmd st) = blk_cache st"
  "blk_cache (add_to_proposed_cmds_cache cmd st) = blk_cache st"
  by (simp_all add: remove_local_order_seen_execute_level_def remove_local_order_seen_propose_level_def
      remove_from_proposed_cmds_cache_def add_to_proposed_cmds_cache_def)

lemma fold_blk_cache:
  "(\<And>x st. blk_cache (f x st) = blk_cache st) \<Longrightarrow> blk_cache (fold f xs st) = blk_cache st"
  by (induction xs arbitrary: st) simp_all

lemma keeps_storage: "blk_cache st = blk_cache (storage c) \<Longrightarrow> keeps c (c\<lparr>storage := st\<rparr>)"
  by (simp add: keeps_def)

subsection \<open>What the log holds\<close>

definition votes_of :: "event list \<Rightarrow> (replica_id \<times> vote) list" where
  "votes_of es = List.map_filter (\<lambda>e. case e of Do_Vote p v \<Rightarrow> Some (p, v) | _ \<Rightarrow> None) es"

definition commits_of :: "event list \<Rightarrow> ref list" where
  "commits_of es = List.map_filter (\<lambda>e. case e of Do_Consensus r \<Rightarrow> Some r | _ \<Rightarrow> None) es"

definition decides_of :: "event list \<Rightarrow> finality list" where
  "decides_of es = List.map_filter (\<lambda>e. case e of Do_Decide f \<Rightarrow> Some f | _ \<Rightarrow> None) es"

lemma map_filter_append: "List.map_filter f (xs @ ys) = List.map_filter f xs @ List.map_filter f ys"
  by (simp add: List.map_filter_def)

lemma log_append [simp]:
  "votes_of (es @ fs) = votes_of es @ votes_of fs" "commits_of (es @ fs) = commits_of es @ commits_of fs"
  "decides_of (es @ fs) = decides_of es @ decides_of fs"
  by (simp_all add: votes_of_def commits_of_def decides_of_def map_filter_append)

lemma log_single [simp]:
  "votes_of [e] = (case e of Do_Vote p v \<Rightarrow> [(p, v)] | _ \<Rightarrow> [])"
  "commits_of [e] = (case e of Do_Consensus r \<Rightarrow> [r] | _ \<Rightarrow> [])"
  "decides_of [e] = (case e of Do_Decide f \<Rightarrow> [f] | _ \<Rightarrow> [])"
  "votes_of [] = []" "commits_of [] = []" "decides_of [] = []"
  by (simp_all add: votes_of_def commits_of_def decides_of_def map_filter_simps split: event.split)

subsection \<open>Committing\<close>

text \<open>The finalities of a block: one per command, numbered from \<open>i\<close>.\<close>

fun finalities :: "replica_id \<Rightarrow> block \<Rightarrow> nat \<Rightarrow> uint256 list \<Rightarrow> finality list" where
  "finalities rid b i [] = []"
| "finalities rid b i (cmd # cmds) =
     \<lparr>fin_rid = rid, fin_decision = 1, cmd_idx = of_nat i, cmd_height = height b, cmd_hash = cmd,
      fin_blk_hash = blk_hash b\<rparr> # finalities rid b (i + 1) cmds"

lemma finalities_cmds: "map cmd_hash (finalities rid b i cmds) = cmds"
  by (induction cmds arbitrary: i) simp_all

lemma finalities_same_shape: "same_shape b b' \<Longrightarrow> finalities rid b' i cmds = finalities rid b i cmds"
  by (induction cmds arbitrary: i) (simp_all add: same_shape_def)

lemma decide_cmds_spec:
  "heap (decide_cmds r i cmds c) = heap c \<and> keeps c (decide_cmds r i cmds c) \<and>
   events (decide_cmds r i cmds c) = events c @ map Do_Decide (finalities (core_id c) (blk c r) i cmds) \<and>
   vheight (decide_cmds r i cmds c) = vheight c \<and> b_lock (decide_cmds r i cmds c) = b_lock c \<and>
   hqc (decide_cmds r i cmds c) = hqc c \<and> vote_disabled (decide_cmds r i cmds c) = vote_disabled c"
proof (induction cmds arbitrary: i c)
  case Nil
  then show ?case by simp
next
  case (Cons cmd cmds)
  let ?f = "Do_Decide \<lparr>fin_rid = core_id c, fin_decision = 1, cmd_idx = of_nat i,
      cmd_height = height (blk c r), cmd_hash = cmd, fin_blk_hash = blk_hash (blk c r)\<rparr>"
  let ?c = "(emit ?f c)\<lparr>storage := remove_from_proposed_cmds_cache cmd
      (remove_local_order_seen_execute_level cmd (storage (emit ?f c)))\<rparr>"
  have step: "decide_cmds r i (cmd # cmds) c = decide_cmds r (i + 1) cmds ?c"
    by (simp add: Let_def)
  have "keeps c ?c"
    by (rule keeps_trans [OF keeps_emit keeps_storage]) simp
  moreover have "heap ?c = heap c" "core_id ?c = core_id c" "events ?c = events c @ [?f]"
    "vheight ?c = vheight c" "b_lock ?c = b_lock c" "hqc ?c = hqc c" "vote_disabled ?c = vote_disabled c"
    by (simp_all add: emit_def)
  ultimately show ?case
    using Cons.IH [of "i + 1" ?c] keeps_trans unfolding step by (auto simp del: decide_cmds.simps)
qed

lemma commit_blk_spec:
  fixes r c
  defines "c' \<equiv> commit_blk r c"
  shows "keeps c c'" "b_exec c' = r" "vheight c' = vheight c" "b_lock c' = b_lock c" "hqc c' = hqc c"
    "vote_disabled c' = vote_disabled c"
    "events c' = events c @ Do_Consensus r # map Do_Decide (finalities (core_id c) (blk c r) 0 (blk_cmds (blk c r)))"
    "\<And>x. x \<noteq> r \<Longrightarrow> decision (blk c' x) = decision (blk c x)"
proof -
  let ?c1 = "emit (Do_Consensus r) (upd_blk r (\<lambda>b. b\<lparr>decision := 1\<rparr>) c)"
  have c': "c' = (decide_cmds r 0 (blk_cmds (blk c r)) ?c1)\<lparr>b_exec := r\<rparr>"
    by (simp add: c'_def commit_blk_def Let_def fair_finalize_def)
  have "keeps c ?c1"
    by (rule keeps_trans [OF keeps_upd_blk keeps_emit]) (simp add: same_shape_def)
  moreover have "keeps ?c1 c'"
    using decide_cmds_spec [of r 0 "blk_cmds (blk c r)" ?c1] by (simp add: c' keeps_def)
  ultimately show "keeps c c'"
    by (rule keeps_trans)
  have "finalities (core_id c) (blk ?c1 r) 0 (blk_cmds (blk c r)) = finalities (core_id c) (blk c r) 0 (blk_cmds (blk c r))"
    by (rule finalities_same_shape) (simp add: same_shape_def emit_def upd_blk_def)
  then show "b_exec c' = r" "vheight c' = vheight c" "b_lock c' = b_lock c" "hqc c' = hqc c"
    "vote_disabled c' = vote_disabled c"
    "events c' = events c @ Do_Consensus r # map Do_Decide (finalities (core_id c) (blk c r) 0 (blk_cmds (blk c r)))"
    "\<And>x. x \<noteq> r \<Longrightarrow> decision (blk c' x) = decision (blk c x)"
    using decide_cmds_spec [of r 0 "blk_cmds (blk c r)" ?c1] unfolding c'
    by (simp_all add: emit_def upd_blk_def)
qed

text \<open>The finalities of a list of blocks, in the order of the list.\<close>

definition block_finalities :: "core \<Rightarrow> ref list \<Rightarrow> finality list" where
  "block_finalities c rs = concat (map (\<lambda>r. finalities (core_id c) (blk c r) 0 (blk_cmds (blk c r))) rs)"

lemma block_finalities_keeps: "keeps c c' \<Longrightarrow> block_finalities c' rs = block_finalities c rs"
proof -
  assume k: "keeps c c'"
  then have "core_id c' = core_id c" and "blk_cmds (blk c' r) = blk_cmds (blk c r)"
    and "same_shape (blk c r) (blk c' r)" for r
    by (simp_all add: keeps_def same_shape_def)
  then have "finalities rid (blk c' r) i cs = finalities rid (blk c r) i cs" for rid r i cs
    by (intro finalities_same_shape)
  with \<open>core_id c' = core_id c\<close> \<open>\<And>r. blk_cmds (blk c' r) = blk_cmds (blk c r)\<close> show ?thesis
    by (simp add: block_finalities_def)
qed

lemma map_filter_map: "List.map_filter f (map g xs) = List.map_filter (f \<circ> g) xs"
  by (simp add: List.map_filter_def comp_def filter_map)

lemma log_decides [simp]:
  "votes_of (map Do_Decide fs) = []" "commits_of (map Do_Decide fs) = []" "decides_of (map Do_Decide fs) = fs"
  by (simp_all add: votes_of_def commits_of_def decides_of_def map_filter_map) (simp_all add: List.map_filter_def comp_def)

lemma log_Cons:
  "votes_of (e # es) = votes_of [e] @ votes_of es" "commits_of (e # es) = commits_of [e] @ commits_of es"
  "decides_of (e # es) = decides_of [e] @ decides_of es"
  using log_append [of "[e]" es] by simp_all

lemma fold_commit_spec:
  "keeps c (fold commit_blk rs c) \<and> vheight (fold commit_blk rs c) = vheight c \<and>
   b_lock (fold commit_blk rs c) = b_lock c \<and> hqc (fold commit_blk rs c) = hqc c \<and>
   vote_disabled (fold commit_blk rs c) = vote_disabled c \<and>
   b_exec (fold commit_blk rs c) = last (b_exec c # rs) \<and>
   votes_of (events (fold commit_blk rs c)) = votes_of (events c) \<and>
   commits_of (events (fold commit_blk rs c)) = commits_of (events c) @ rs \<and>
   decides_of (events (fold commit_blk rs c)) = decides_of (events c) @ block_finalities c rs \<and>
   (\<forall>r. r \<notin> set rs \<longrightarrow> decision (blk (fold commit_blk rs c) r) = decision (blk c r))"
proof (induction rs arbitrary: c)
  case Nil
  then show ?case by (simp add: block_finalities_def)
next
  case (Cons r rs)
  note one = commit_blk_spec [where r = r and c = c]
  note IH = Cons.IH [of "commit_blk r c"]
  have "keeps c (fold commit_blk (r # rs) c)"
    using keeps_trans [OF one(1)] IH by simp
  moreover have "decides_of (events (fold commit_blk (r # rs) c)) = decides_of (events c) @ block_finalities c (r # rs)"
  proof -
    have "decides_of (events (fold commit_blk rs (commit_blk r c)))
        = decides_of (events (commit_blk r c)) @ block_finalities c rs"
      using IH block_finalities_keeps [OF one(1), of rs] by metis
    moreover have "decides_of (events (commit_blk r c))
        = decides_of (events c) @ finalities (core_id c) (blk c r) 0 (blk_cmds (blk c r))"
      by (simp add: one(7) log_Cons [of "Do_Consensus r"])
    ultimately show ?thesis
      by (simp add: block_finalities_def)
  qed
  ultimately show ?case
    using IH one(2-6) by (simp add: one(7,8) log_Cons [of "Do_Consensus r"])
qed


subsection \<open>The well-formed tree\<close>

text \<open>
  A delivered block other than the genesis block has a delivered first parent one below it; a
  block that is not delivered has height 0; references stay inside the heap.
\<close>

definition blk_wf :: "heap \<Rightarrow> nat \<Rightarrow> ref \<Rightarrow> ref \<Rightarrow> bool" where
  "blk_wf hp n z r \<longleftrightarrow>
     (\<forall>q. qc_ref (hp r) = Some q \<longrightarrow> q < n) \<and>
     (if delivered (hp r)
      then r = z \<and> height (hp r) = 0 \<or>
        (\<exists>p ps. parents (hp r) = p # ps \<and> p < n \<and> delivered (hp p) \<and>
           unat (height (hp r)) = Suc (unat (height (hp p))))
      else height (hp r) = 0)"

definition tree_wf :: "core \<Rightarrow> bool" where
  "tree_wf c \<longleftrightarrow>
     b0 c < next_ref c \<and> delivered (blk c (b0 c)) \<and> height (blk c (b0 c)) = 0 \<and>
     (\<forall>r < next_ref c. blk_wf (heap c) (next_ref c) (b0 c) r) \<and>
     (\<forall>h r. map_of (blk_cache (storage c)) h = Some r \<longrightarrow> r < next_ref c)"

lemma blk_wf_same_shape:
  assumes "blk_wf hp n z r" and "\<And>r. same_shape (hp r) (hp' r)"
  shows "blk_wf hp' n z r"
proof -
  have "delivered (hp' x) = delivered (hp x)" "height (hp' x) = height (hp x)"
    "parents (hp' x) = parents (hp x)" "qc_ref (hp' x) = qc_ref (hp x)" for x
    using assms(2) [of x] by (simp_all add: same_shape_def)
  then have "blk_wf hp' n z r = blk_wf hp n z r"
    by (simp add: blk_wf_def)
  with assms(1) show ?thesis by simp
qed

lemma tree_wf_keeps: "tree_wf c \<Longrightarrow> keeps c c' \<Longrightarrow> tree_wf c'"
  using blk_wf_same_shape [of "heap c" _ _ _ "heap c'"]
  by (simp add: tree_wf_def keeps_def same_shape_def)

lemma tree_wf_parent:
  assumes "tree_wf c" and "r < next_ref c" and "0 < height (blk c r)"
  obtains p ps where "parents (blk c r) = p # ps" and "p < next_ref c" and "delivered (blk c p)"
    and "unat (height (blk c r)) = Suc (unat (height (blk c p)))" and "delivered (blk c r)"
  using assms by (auto simp: tree_wf_def blk_wf_def split: if_splits)

lemma tree_wf_qc_ref: "tree_wf c \<Longrightarrow> r < next_ref c \<Longrightarrow> qc_ref (blk c r) = Some q \<Longrightarrow> q < next_ref c"
  by (simp add: tree_wf_def blk_wf_def)

subsection \<open>The walk towards the root ends\<close>

text \<open>The blocks from the start down to the one the walk stops at, each the first parent of the one before.\<close>

definition chain :: "heap \<Rightarrow> ref list \<Rightarrow> bool" where
  "chain hp rs \<longleftrightarrow> successively (\<lambda>p r. first_parent (hp r) = Some p) rs"

lemma walk_ok:
  assumes "tree_wf c"
  shows "b < next_ref c \<Longrightarrow> unat (height (blk c b)) < n \<Longrightarrow>
    \<exists>bs e. walk n (heap c) h b = Inr (bs, e) \<and> e < next_ref c \<and> height (blk c e) \<le> h \<and>
      chain (heap c) (e # rev bs) \<and> (\<forall>x \<in> set bs. x < next_ref c \<and> delivered (blk c x) \<and> h < height (blk c x)) \<and>
      (bs = [] \<longrightarrow> e = b) \<and> (bs \<noteq> [] \<longrightarrow> last (rev bs) = b)"
proof (induction n arbitrary: b)
  case 0
  then show ?case by simp
next
  case (Suc n)
  show ?case
  proof (cases "h < height (blk c b)")
    case False
    then have "walk (Suc n) (heap c) h b = Inr ([], b)" and "height (blk c b) \<le> h"
      by simp_all
    with Suc.prems show ?thesis by (simp add: chain_def)
  next
    case True
    then have "0 < height (blk c b)"
      by (simp add: word_gt_0_no word_greater_zero_iff) (metis word_not_simps(1))
    then obtain p ps where p: "parents (blk c b) = p # ps" "p < next_ref c" "delivered (blk c p)"
      "unat (height (blk c b)) = Suc (unat (height (blk c p)))" "delivered (blk c b)"
      using tree_wf_parent [OF assms Suc.prems(1)] by blast
    have "unat (height (blk c p)) < n"
      using p(4) Suc.prems(2) by simp
    from Suc.IH [OF p(2) this] obtain bs e where w: "walk n (heap c) h p = Inr (bs, e)" "e < next_ref c"
      "height (blk c e) \<le> h" "chain (heap c) (e # rev bs)"
      "\<forall>x \<in> set bs. x < next_ref c \<and> delivered (blk c x) \<and> h < height (blk c x)"
      "bs = [] \<longrightarrow> e = p" "bs \<noteq> [] \<longrightarrow> last (rev bs) = p"
      by blast
    have "last (e # rev bs) = p"
      using w(6,7) by auto
    moreover have "first_parent (blk c b) = Some p"
      by (simp add: first_parent_def p(1))
    ultimately have "chain (heap c) (e # rev (b # bs))"
      using w(4) successively_append_iff [of _ "e # rev bs" "[b]"] by (simp add: chain_def)
    with w p True Suc.prems(1) show ?thesis
      by simp
  qed
qed

lemma walk_down_ok:
  assumes "tree_wf c" and "b < next_ref c"
  obtains bs e where "walk_down (heap c) h b = Inr (bs, e)" and "e < next_ref c" and "height (blk c e) \<le> h"
    and "chain (heap c) (e # rev bs)"
    and "\<forall>x \<in> set bs. x < next_ref c \<and> delivered (blk c x) \<and> h < height (blk c x)"
    and "last (e # rev bs) = b"
proof -
  from walk_ok [OF assms, of "unat (height (blk c b)) + 1" h]
  obtain bs e where w: "walk (unat (height (blk c b)) + 1) (heap c) h b = Inr (bs, e)" "e < next_ref c"
    "height (blk c e) \<le> h" "chain (heap c) (e # rev bs)"
    "\<forall>x \<in> set bs. x < next_ref c \<and> delivered (blk c x) \<and> h < height (blk c x)"
    "bs = [] \<longrightarrow> e = b" "bs \<noteq> [] \<longrightarrow> last (rev bs) = b"
    by auto
  have "last (e # rev bs) = b"
    using w(6,7) by (cases "bs = []") simp_all
  with w that show ?thesis
    by (simp add: walk_down_def)
qed

subsection \<open>What \<open>update\<close> may do\<close>

text \<open>
  \<open>advance c c'\<close>: the tree, \<open>vheight\<close> and the votes are as before; the lock and the highest
  certificate have moved up or not at all; a chain of blocks, which starts above the block that
  was executed last, has been committed, and every command of it decided, in order.
\<close>

definition higher :: "core \<Rightarrow> ref \<Rightarrow> ref \<Rightarrow> bool" where
  "higher c x y \<longleftrightarrow> y = x \<or> y < next_ref c \<and> height (blk c x) < height (blk c y)"

definition advance :: "core \<Rightarrow> core \<Rightarrow> bool" where
  "advance c c' \<longleftrightarrow>
     keeps c c' \<and> vheight c' = vheight c \<and> vote_disabled c' = vote_disabled c \<and>
     votes_of (events c') = votes_of (events c) \<and> higher c (b_lock c) (b_lock c') \<and>
     (hqc c = None \<longrightarrow> hqc c' = None) \<and>
     (\<forall>h q. hqc c = Some (h, q) \<longrightarrow> (\<exists>h' q'. hqc c' = Some (h', q') \<and> higher c h h')) \<and>
     (\<exists>rs. commits_of (events c') = commits_of (events c) @ rs \<and> chain (heap c) (b_exec c # rs) \<and>
        (\<forall>r \<in> set rs. r < next_ref c \<and> delivered (blk c r) \<and> 0 < height (blk c r)) \<and>
        b_exec c' = last (b_exec c # rs) \<and> decides_of (events c') = decides_of (events c) @ block_finalities c rs \<and>
        (\<forall>r. r \<notin> set rs \<longrightarrow> decision (blk c' r) = decision (blk c r)))"

lemma higher_refl [simp]: "higher c x x"
  by (simp add: higher_def)

lemma higher_trans: "higher c x y \<Longrightarrow> higher c y z \<Longrightarrow> higher c x z"
  by (auto simp: higher_def)

lemma higher_keeps: "keeps c c' \<Longrightarrow> higher c' x y = higher c x y"
  by (simp add: higher_def keeps_blk)

lemma chain_keeps: "keeps c c' \<Longrightarrow> chain (heap c') rs = chain (heap c) rs"
  by (simp add: chain_def first_parent_def keeps_blk)

lemma chain_append: "chain hp (x # rs) \<Longrightarrow> chain hp (last (x # rs) # ss) \<Longrightarrow> chain hp (x # rs @ ss)"
proof -
  assume "chain hp (x # rs)" and "chain hp (last (x # rs) # ss)"
  then have "chain hp ((x # rs) @ ss)"
    unfolding chain_def successively_append_iff by (cases ss) simp_all
  then show ?thesis by simp
qed

lemma advance_refl [simp]: "advance c c"
  by (simp add: advance_def chain_def block_finalities_def)

lemma advance_keeps: "advance c c' \<Longrightarrow> keeps c c'"
  by (simp add: advance_def)

lemma advance_trans:
  assumes "advance a b" and "advance b c"
  shows "advance a c"
proof -
  note k = advance_keeps [OF assms(1)]
  obtain rs where rs: "commits_of (events b) = commits_of (events a) @ rs" "chain (heap a) (b_exec a # rs)"
    "\<forall>r \<in> set rs. r < next_ref a \<and> delivered (blk a r) \<and> 0 < height (blk a r)"
    "b_exec b = last (b_exec a # rs)" "decides_of (events b) = decides_of (events a) @ block_finalities a rs"
    "\<forall>r. r \<notin> set rs \<longrightarrow> decision (blk b r) = decision (blk a r)"
    using assms(1) by (auto simp: advance_def)
  obtain ss where ss: "commits_of (events c) = commits_of (events b) @ ss" "chain (heap b) (b_exec b # ss)"
    "\<forall>r \<in> set ss. r < next_ref b \<and> delivered (blk b r) \<and> 0 < height (blk b r)"
    "b_exec c = last (b_exec b # ss)" "decides_of (events c) = decides_of (events b) @ block_finalities b ss"
    "\<forall>r. r \<notin> set ss \<longrightarrow> decision (blk c r) = decision (blk b r)"
    using assms(2) by (auto simp: advance_def)
  have "\<exists>ts. commits_of (events c) = commits_of (events a) @ ts \<and> chain (heap a) (b_exec a # ts) \<and>
      (\<forall>r \<in> set ts. r < next_ref a \<and> delivered (blk a r) \<and> 0 < height (blk a r)) \<and>
      b_exec c = last (b_exec a # ts) \<and> decides_of (events c) = decides_of (events a) @ block_finalities a ts \<and>
      (\<forall>r. r \<notin> set ts \<longrightarrow> decision (blk c r) = decision (blk a r))"
  proof (intro exI [of _ "rs @ ss"] conjI)
    show "commits_of (events c) = commits_of (events a) @ rs @ ss"
      by (simp add: rs(1) ss(1))
    show "chain (heap a) (b_exec a # rs @ ss)"
      using rs(2,4) ss(2) by (intro chain_append) (simp_all add: chain_keeps [OF k])
    show "\<forall>r \<in> set (rs @ ss). r < next_ref a \<and> delivered (blk a r) \<and> 0 < height (blk a r)"
      using rs(3) ss(3) by (auto simp: keeps_blk [OF k])
    show "b_exec c = last (b_exec a # rs @ ss)"
      using rs(4) ss(4) by (simp split: if_splits)
    show "decides_of (events c) = decides_of (events a) @ block_finalities a (rs @ ss)"
      by (simp add: rs(5) ss(5) block_finalities_keeps [OF k]) (simp add: block_finalities_def)
    show "\<forall>r. r \<notin> set (rs @ ss) \<longrightarrow> decision (blk c r) = decision (blk a r)"
      using rs(6) ss(6) by simp
  qed
  moreover have "\<exists>h' q'. hqc c = Some (h', q') \<and> higher a h h'" if "hqc a = Some (h, q)" for h q
    using that assms higher_trans unfolding advance_def by (metis higher_keeps [OF k])
  moreover have "higher a (b_lock a) (b_lock c)"
    using assms higher_trans unfolding advance_def by (metis higher_keeps [OF k])
  moreover have "keeps a c"
    by (rule keeps_trans [OF k advance_keeps [OF assms(2)]])
  moreover have "hqc a = None \<longrightarrow> hqc c = None"
    using assms by (simp add: advance_def)
  moreover have "vheight c = vheight a \<and> vote_disabled c = vote_disabled a \<and>
      votes_of (events c) = votes_of (events a)"
    using assms by (simp add: advance_def)
  ultimately show ?thesis
    unfolding advance_def by blast
qed

lemma advance_storage: "blk_cache st = blk_cache (storage c) \<Longrightarrow> advance c (c\<lparr>storage := st\<rparr>)"
  unfolding advance_def higher_def
  by (auto simp: keeps_storage chain_def block_finalities_def intro!: exI [of _ "[]"])

lemma advance_lock:
  "y < next_ref c \<Longrightarrow> height (blk c (b_lock c)) < height (blk c y) \<Longrightarrow> advance c (c\<lparr>b_lock := y\<rparr>)"
  by (simp add: advance_def higher_def keeps_def chain_def block_finalities_def)

lemma advance_hqc:
  assumes "update_hqc r qc c = Ok u c'" and "r < next_ref c"
  shows "advance c c'"
proof -
  obtain h old where h: "hqc c = Some (h, old)"
    using assms(1) by (auto simp: update_hqc_def split: option.splits)
  show ?thesis
  proof (cases "height (blk c h) < height (blk c r)")
    case False
    with assms(1) h show ?thesis by (simp add: update_hqc_def)
  next
    case True
    with assms(1) h obtain q where "c' = emit Resolve_Hqc_Update (c\<lparr>hqc := Some (r, q)\<rparr>)"
      by (auto simp: update_hqc_def split: option.splits)
    with True h assms(2) show ?thesis
      by (simp add: advance_def higher_def keeps_def chain_def block_finalities_def emit_def)
  qed
qed

lemma advance_commit:
  assumes "tree_wf c" and "b < next_ref c" and "commit_chain b c = Ok u c'"
  shows "advance c c'"
proof -
  obtain bs e where w: "walk_down (heap c) (height (blk c (b_exec c))) b = Inr (bs, e)"
    "chain (heap c) (e # rev bs)" "\<forall>x \<in> set bs. x < next_ref c \<and> delivered (blk c x) \<and> height (blk c (b_exec c)) < height (blk c x)"
    by (rule walk_down_ok [OF assms(1,2)])
  have e: "e = b_exec c" and c': "c' = fold commit_blk (rev bs) c"
  proof -
    have "(if e \<noteq> b_exec c then Exc (Runtime_Error ''safety breached'') c
        else Ok () (fold commit_blk (rev bs) c)) = Ok u c'"
      using assms(3) by (simp only: commit_chain_def w(1) sum.case prod.case)
    then show "e = b_exec c" and "c' = fold commit_blk (rev bs) c"
      by (metis res.distinct(1) res.inject(1))+
  qed
  have pos: "0 < height (blk c x)" if "x \<in> set bs" for x
    using w(3) that word_zero_le le_less_trans by blast
  have "\<exists>rs. commits_of (events c') = commits_of (events c) @ rs \<and> chain (heap c) (b_exec c # rs) \<and>
      (\<forall>r \<in> set rs. r < next_ref c \<and> delivered (blk c r) \<and> 0 < height (blk c r)) \<and>
      b_exec c' = last (b_exec c # rs) \<and> decides_of (events c') = decides_of (events c) @ block_finalities c rs \<and>
      (\<forall>r. r \<notin> set rs \<longrightarrow> decision (blk c' r) = decision (blk c r))"
    using w e pos fold_commit_spec [where rs = "rev bs" and c = c] unfolding c' by (intro exI [of _ "rev bs"]) simp
  then show ?thesis
    using fold_commit_spec [where rs = "rev bs" and c = c] unfolding c' by (simp add: advance_def)
qed

lemma advance_update_commit:
  assumes wf: "tree_wf c" and "blk1 < next_ref c" and "update_commit blk2 blk1 c = Ok u c'"
  shows "advance c c'"
proof (cases "qc_ref (blk c blk1)")
  case None
  with assms(3) show ?thesis by (simp add: update_commit_def)
next
  case (Some b)
  have "c' = c \<or> commit_chain b c = Ok u c'"
    using assms(3) Some by (auto simp: update_commit_def split: if_splits option.splits)
  then show ?thesis
    using advance_commit [OF wf tree_wf_qc_ref [OF wf assms(2) Some]] by auto
qed

lemma advance_update_lock:
  assumes wf: "tree_wf c" and "blk2 < next_ref c" and "update_lock blk2 c = Ok u c'"
  shows "advance c c'"
proof (cases "qc_ref (blk c blk2)")
  case None
  with assms(3) show ?thesis by (simp add: update_lock_def)
next
  case (Some blk1)
  let ?c1 = "if height (blk c (b_lock c)) < height (blk c blk1) then c\<lparr>b_lock := blk1\<rparr> else c"
  have b1: "blk1 < next_ref c"
    using tree_wf_qc_ref [OF wf assms(2) Some] .
  have a1: "advance c ?c1"
    using advance_lock [OF b1] by simp
  have "c' = c \<or> update_commit blk2 blk1 ?c1 = Ok u c'"
    using assms(3) Some by (auto simp: update_lock_def split: if_splits)
  moreover have "advance ?c1 c'" if "update_commit blk2 blk1 ?c1 = Ok u c'"
    using advance_update_commit [OF tree_wf_keeps [OF wf advance_keeps [OF a1]] _ that] b1 by simp
  ultimately show ?thesis
    using advance_trans [OF a1] by auto
qed

lemma advance_update:
  assumes wf: "tree_wf c" and r: "nblk < next_ref c" and u: "update nblk c = Ok u c'"
  shows "advance c c'"
proof -
  define c0 where "c0 = c\<lparr>storage := fold remove_local_order_seen_propose_level (blk_cmds (blk c nblk)) (storage c)\<rparr>"
  have a0: "advance c c0"
    unfolding c0_def by (intro advance_storage fold_blk_cache) simp
  have k0: "heap c0 = heap c" "next_ref c0 = next_ref c"
    by (simp_all add: c0_def)
  consider "c' = c0" | blk2 c1 u1 where "qc_ref (blk c nblk) = Some blk2"
      "update_hqc blk2 (blk_qc (blk c nblk)) c0 = Ok u1 c1" "update_lock blk2 c1 = Ok u c'"
    using u unfolding update_def Let_def c0_def [symmetric] k0
    by (auto split: option.splits if_splits elim!: res_bind_OkE)
  then show ?thesis
  proof cases
    case 1
    with a0 show ?thesis by simp
  next
    case (2 blk2 c1 u1)
    have b2: "blk2 < next_ref c"
      using tree_wf_qc_ref [OF wf r 2(1)] .
    have a1: "advance c c1"
      using b2 by (intro advance_trans [OF a0 advance_hqc [OF 2(2)]]) (simp add: k0)
    have "advance c1 c'"
      using tree_wf_keeps [OF wf advance_keeps [OF a1]] b2 keeps_blk(7) [OF advance_keeps [OF a1]]
      by (intro advance_update_lock [OF _ _ 2(3)]) simp_all
    with a1 show ?thesis
      by (rule advance_trans)
  qed
qed

end
