(* ===== verification/Core_Run.thy ===== *)
theory Core_Run
  imports Core_Facts
begin

text \<open>
  Which operations of the core keep the tree and move the rest forwards (\<open>advance\<close>), and which let the
  tree grow (\<open>grows\<close>): the caching of a new block and its delivery behind its parents.
\<close>

subsection \<open>Quiet operations\<close>

text \<open>\<open>idles c c'\<close>: a step forwards that moves neither the lock nor the executed block.\<close>

definition idles :: "core \<Rightarrow> core \<Rightarrow> bool" where
  "idles c c' \<longleftrightarrow> advance c c' \<and> b_lock c' = b_lock c \<and> commits_of (events c') = commits_of (events c)"

lemma idles_refl [simp]: "idles c c"
  by (simp add: idles_def)

lemma idles_trans: "idles a b \<Longrightarrow> idles b c \<Longrightarrow> idles a c"
  using advance_trans by (auto simp: idles_def)

lemma idles_parts:
  assumes "idles c c'"
  shows "advance c c'" "b_lock c' = b_lock c" "b_exec c' = b_exec c" "decision (blk c' r) = decision (blk c r)"
    "commits_of (events c') = commits_of (events c)"
  using assms by (auto simp: idles_def advance_def)

lemma idlesI:
  assumes "keeps c c'" and "vheight c' = vheight c" and "vote_disabled c' = vote_disabled c"
    and "votes_of (events c') = votes_of (events c)" and "commits_of (events c') = commits_of (events c)"
    and "decides_of (events c') = decides_of (events c)"
    and "b_lock c' = b_lock c" and "hqc c' = hqc c" and "b_exec c' = b_exec c"
    and "\<And>r. decision (blk c' r) = decision (blk c r)"
  shows "idles c c'"
  using assms by (simp add: idles_def advance_def chain_def block_finalities_def)

lemma idles_storage: "blk_cache st = blk_cache (storage c) \<Longrightarrow> idles c (c\<lparr>storage := st\<rparr>)"
  by (simp add: idles_def advance_storage)

lemma idles_hqc:
  assumes "update_hqc r qc c = Ok u c'" and "r < next_ref c"
  shows "idles c c'"
  using advance_hqc [OF assms] assms(1)
  by (auto simp: idles_def update_hqc_def emit_def split: option.splits if_splits)

lemma idles_emit:
  "votes_of [e] = [] \<Longrightarrow> commits_of [e] = [] \<Longrightarrow> decides_of [e] = [] \<Longrightarrow> idles c (emit e c)"
  by (intro idlesI keeps_emit) (simp_all add: emit_def)

lemma idles_upd_blk: "(\<And>b. same_shape b (f b) \<and> decision (f b) = decision b) \<Longrightarrow> idles c (upd_blk r f c)"
  by (intro idlesI keeps_upd_blk) (simp_all add: upd_blk_def)

lemma idles_on_qc_finish: "idles c (on_qc_finish r c)"
proof (cases "r \<in> qc_waiting c")
  case True
  have "idles c (emit (Resolve_QC r) c)"
    by (rule idles_emit) simp_all
  moreover have "idles (emit (Resolve_QC r) c) ((emit (Resolve_QC r) c)\<lparr>qc_waiting := qc_waiting c - {r}\<rparr>)"
    by (rule idlesI) (simp_all add: keeps_def)
  ultimately have "idles c ((emit (Resolve_QC r) c)\<lparr>qc_waiting := qc_waiting c - {r}\<rparr>)"
    by (rule idles_trans)
  with True show ?thesis by (simp add: on_qc_finish_def)
next
  case False
  then show ?thesis by (simp add: on_qc_finish_def)
qed

lemma idles_async_qc_finish: "idles c (snd (async_qc_finish r c))"
proof -
  have "idles c (c\<lparr>qc_waiting := insert r (qc_waiting c)\<rparr>)"
    by (rule idlesI) (simp_all add: keeps_def)
  then show ?thesis by (simp add: async_qc_finish_def)
qed

lemma idles_on_receive_vote:
  assumes wf: "tree_wf c" and ok: "on_receive_vote e v c = Ok u c'"
  shows "idles c c'"
proof -
  obtain r where r: "get_delivered_blk (vote_blk_hash v) c = Inr r"
    using ok by (auto simp: on_receive_vote_def split: sum.splits)
  then have less: "r < next_ref c"
    using wf by (auto simp: get_delivered_blk_def find_blk_def tree_wf_def split: option.splits if_splits)
  define c1 where "c1 = upd_blk r (\<lambda>b. b\<lparr>voted := insert (voter v) (voted b)\<rparr>) c"
  have a1: "idles c c1"
    unfolding c1_def by (rule idles_upd_blk) (simp add: same_shape_def)
  consider "c' = c" | qc where "c' = upd_blk r (\<lambda>b. b\<lparr>self_qc := Some qc\<rparr>) c1"
    | qc c2 where "update_hqc r (Some qc) (upd_blk r (\<lambda>b. b\<lparr>self_qc := Some qc\<rparr>) c1) = Ok () c2"
        "c' = on_qc_finish r c2"
    using ok unfolding on_receive_vote_def r sum.case Let_def c1_def [symmetric]
    by (auto split: if_splits res.splits elim!: res_bind_OkE)
  moreover have a2: "idles c (upd_blk r (\<lambda>b. b\<lparr>self_qc := Some qc\<rparr>) c1)" for qc
    by (rule idles_trans [OF a1 idles_upd_blk]) (simp add: same_shape_def)
  moreover have "idles c (on_qc_finish r c2)"
    if "update_hqc r (Some qc) (upd_blk r (\<lambda>b. b\<lparr>self_qc := Some qc\<rparr>) c1) = Ok () c2" for qc c2
  proof -
    have "r < next_ref (upd_blk r (\<lambda>b. b\<lparr>self_qc := Some qc\<rparr>) c1)"
      using less by (simp add: c1_def upd_blk_def)
    then show ?thesis
      by (rule idles_trans [OF idles_trans [OF a2 idles_hqc [OF that]] idles_on_qc_finish])
  qed
  ultimately show ?thesis
    by cases simp_all
qed

lemma update_local_order_seen_cache: "blk_cache (update_local_order_seen cmds st) = blk_cache st"
  unfolding update_local_order_seen_def by (rule fold_blk_cache) simp

lemma idles_on_local_order: "idles c (on_local_order p order ts c)"
proof (cases "order = []")
  case False
  have "idles c (c\<lparr>storage := update_local_order_seen order (storage c)\<rparr>)"
    by (rule idles_storage) (rule update_local_order_seen_cache)
  then show ?thesis
    using False by (auto simp: on_local_order_def intro!: idles_trans [OF _ idles_emit])
qed (simp add: on_local_order_def)

lemma idles_on_receive_local_order: "idles c (snd (on_receive_local_order lo c))"
  unfolding on_receive_local_order_def Let_def snd_conv
  by (rule idles_storage) (simp add: add_local_order_def Let_def)

lemma pop_all_cache: "pop_all_front_ordered_lists st = Ok u st' \<Longrightarrow> blk_cache st' = blk_cache st"
  by (auto simp: pop_all_front_ordered_lists_def split: if_splits)

lemma idles_flashorder_propose:
  assumes "flashorder_propose e iter mx now c = Ok order c'"
  shows "idles c c'"
proof (cases "collect_ordered_lists iter (storage c) = []")
  case True
  with assms show ?thesis by (simp add: flashorder_propose_def)
next
  case False
  let ?ds = "case hg_statics c of None \<Rightarrow> delta_init now | Some ds \<Rightarrow> ds"
  obtain os ls g ds where F: "finalize (e_srt e) mx now (collect_ordered_lists iter (storage c))
      (sint (ucast (nreplicas (config c) - nmajority (config c)) :: 32 word))
      (sint (ucast (nreplicas (config c)) :: 32 word)) (fairness_parameter (config c))
      (gen_param (config c)) (network_param (config c)) hg_new ?ds = (os, ls, g, ds)"
    by (rule prod_cases4)
  have "\<exists>st. pop_all_front_ordered_lists (storage c) = Ok () st \<and>
      c' = c\<lparr>hg_statics := Some ds, storage := fold add_to_proposed_cmds_cache os st\<rparr>"
    using assms False unfolding flashorder_propose_def Let_def F prod.case
    by (auto split: res.splits)
  then obtain st where st: "pop_all_front_ordered_lists (storage c) = Ok () st"
    "c' = c\<lparr>hg_statics := Some ds, storage := fold add_to_proposed_cmds_cache os st\<rparr>"
    by blast
  have "blk_cache (fold add_to_proposed_cmds_cache os st) = blk_cache (storage c)"
    using pop_all_cache [OF st(1)] fold_blk_cache [of add_to_proposed_cmds_cache os st] by simp
  then show ?thesis
    unfolding st(2) by (intro idlesI) (simp_all add: keeps_def)
qed

lemmas advance_ops = idles_on_receive_vote [THEN idles_parts(1)] idles_on_local_order [THEN idles_parts(1)]
  idles_on_receive_local_order [THEN idles_parts(1)] idles_flashorder_propose [THEN idles_parts(1)]
  idles_async_qc_finish [THEN idles_parts(1)]

subsection \<open>Operations that grow the tree\<close>

text \<open>Delivered blocks keep their shape; nothing but the tree, the tails and the cache changes.\<close>

definition grows :: "core \<Rightarrow> core \<Rightarrow> bool" where
  "grows c c' \<longleftrightarrow>
     next_ref c \<le> next_ref c' \<and> b0 c' = b0 c \<and> core_id c' = core_id c \<and>
     (\<forall>r < next_ref c. delivered (blk c r) \<longrightarrow> same_shape (blk c r) (blk c' r)) \<and>
     vheight c' = vheight c \<and> b_lock c' = b_lock c \<and> b_exec c' = b_exec c \<and> hqc c' = hqc c \<and> events c' = events c \<and>
     (\<forall>r < next_ref c. decision (blk c' r) = decision (blk c r)) \<and>
     (\<forall>r < next_ref c'. next_ref c \<le> r \<longrightarrow> decision (blk c' r) = 0)"

lemma grows_refl [simp]: "grows c c"
  by (simp add: grows_def)

lemma grows_trans: "grows a b \<Longrightarrow> grows b c \<Longrightarrow> grows a c"
  unfolding grows_def using same_shape_trans by (auto simp: same_shape_def)

lemma grows_blk:
  assumes "grows c c'" and "r < next_ref c" and "delivered (blk c r)"
  shows "delivered (blk c' r)" "height (blk c' r) = height (blk c r)" "parents (blk c' r) = parents (blk c r)"
    "blk_hash (blk c' r) = blk_hash (blk c r)" "blk_cmds (blk c' r) = blk_cmds (blk c r)"
    "r < next_ref c'" "same_shape (blk c r) (blk c' r)"
    "qc_ref (blk c' r) = qc_ref (blk c r)" "parent_hashes (blk c' r) = parent_hashes (blk c r)" "blk_qc (blk c' r) = blk_qc (blk c r)"
  using assms by (auto simp: grows_def same_shape_def)

text \<open>
  While a block \<open>r\<close> is being proposed its height is set although it is not delivered:
  \<open>tree_wf_but c r\<close> asks nothing of \<open>r\<close> but that it is not delivered and refers into the heap.
\<close>

definition tree_wf_but :: "core \<Rightarrow> ref \<Rightarrow> bool" where
  "tree_wf_but c r \<longleftrightarrow>
     b0 c < next_ref c \<and> delivered (blk c (b0 c)) \<and> height (blk c (b0 c)) = 0 \<and>
     r < next_ref c \<and> \<not> delivered (blk c r) \<and> (\<forall>q. qc_ref (blk c r) = Some q \<longrightarrow> q < next_ref c) \<and>
     (\<forall>x < next_ref c. x \<noteq> r \<longrightarrow> blk_wf (heap c) (next_ref c) (b0 c) x) \<and>
     (\<forall>h x. map_of (blk_cache (storage c)) h = Some x \<longrightarrow> x < next_ref c)"

lemma tree_wf_butI:
  "tree_wf c \<Longrightarrow> r < next_ref c \<Longrightarrow> \<not> delivered (blk c r) \<Longrightarrow> tree_wf_but c r"
  using tree_wf_qc_ref [of c r] unfolding tree_wf_def tree_wf_but_def by blast

lemma tree_wf_but_full:
  "tree_wf_but c r \<Longrightarrow> height (blk c r) = 0 \<Longrightarrow> tree_wf c"
  unfolding tree_wf_def tree_wf_but_def by (metis blk_wf_def)

text \<open>Only delivered blocks and \<open>x\<close> itself matter for \<open>x\<close>.\<close>

lemma blk_wf_agree:
  assumes wf: "blk_wf hp n z x" and x: "x < n" and le: "n \<le> m"
    and eq: "\<And>y. y < n \<Longrightarrow> y = x \<or> delivered (hp y) \<Longrightarrow> hp' y = hp y"
  shows "blk_wf hp' m z x"
proof -
  have hx: "hp' x = hp x"
    using eq x by simp
  have q: "q < m" if "qc_ref (hp x) = Some q" for q
    using wf that le by (auto simp: blk_wf_def)
  show ?thesis
  proof (cases "delivered (hp x)")
    case False
    with wf q show ?thesis by (simp add: blk_wf_def hx)
  next
    case True
    with wf consider "x = z" "height (hp x) = 0"
      | p ps where "parents (hp x) = p # ps" "p < n" "delivered (hp p)"
          "unat (height (hp x)) = Suc (unat (height (hp p)))"
      unfolding blk_wf_def by auto
    then show ?thesis
    proof cases
      case 1
      with True q show ?thesis unfolding blk_wf_def hx by simp
    next
      case (2 p ps)
      then have "hp' p = hp p"
        by (intro eq) simp_all
      with 2 True q le show ?thesis
        by (simp add: blk_wf_def hx)
    qed
  qed
qed

lemma fetch_blk_cases:
  assumes "fetch_blk b c = (r, c')"
  obtains (cached) "map_of (blk_cache (storage c)) (blk_hash b) = Some r" "c' = c"
  | (new) "map_of (blk_cache (storage c)) (blk_hash b) = None" "r = next_ref c"
      "c' = c\<lparr>heap := (heap c)(next_ref c := b), next_ref := next_ref c + 1,
        storage := (storage c)\<lparr>blk_cache := blk_cache (storage c) @ [(blk_hash b, next_ref c)]\<rparr>\<rparr>"
  using assms
  by (auto simp: fetch_blk_def find_blk_def add_blk_def map_insert_def map_add_def Let_def split: option.splits)

lemma fetch_blk_new:
  assumes wf: "tree_wf c" and b: "\<not> delivered b" "\<forall>q. qc_ref b = Some q \<longrightarrow> q < next_ref c" "decision b = 0"
    and new: "c' = c\<lparr>heap := (heap c)(next_ref c := b), next_ref := next_ref c + 1,
        storage := (storage c)\<lparr>blk_cache := blk_cache (storage c) @ [(blk_hash b, next_ref c)]\<rparr>\<rparr>"
  shows "tree_wf_but c' (next_ref c)" and "grows c c'"
proof -
  have cache: "x < next_ref c" if "map_of (blk_cache (storage c)) h = Some x" for h x
    using that wf by (simp add: tree_wf_def)
  have old: "x < next_ref c'" if "map_of (blk_cache (storage c')) h = Some x" for h x
    using that cache [of h x] by (auto simp: new map_add_def split: option.splits if_splits)
  have "blk_wf (heap c') (next_ref c') (b0 c) x" if "x < next_ref c'" "x \<noteq> next_ref c" for x
  proof -
    have x: "x < next_ref c"
      using that by (simp add: new)
    then have *: "blk_wf (heap c) (next_ref c) (b0 c) x"
      using wf by (simp add: tree_wf_def)
    then show ?thesis
      using x by (intro blk_wf_agree [OF *]) (simp_all add: new)
  qed
  with wf b old show "tree_wf_but c' (next_ref c)"
    by (auto simp: tree_wf_but_def new tree_wf_def)
  show "grows c c'"
    using b(3) by (simp add: new grows_def)
qed

text \<open>A block that is not delivered may change as long as it stays so.\<close>

lemma upd_undelivered:
  assumes wf: "tree_wf_but c r" and f: "\<not> delivered (f (blk c r))" and d: "decision (f (blk c r)) = decision (blk c r)"
    and q: "\<forall>q. qc_ref (f (blk c r)) = Some q \<longrightarrow> q < next_ref c"
  shows "tree_wf_but (upd_blk r f c) r" and "grows c (upd_blk r f c)"
proof -
  have "r \<noteq> b0 c"
    using wf by (auto simp: tree_wf_but_def)
  moreover have "blk_wf ((heap c)(r := f (heap c r))) (next_ref c) (b0 c) x" if "x < next_ref c" "x \<noteq> r" for x
  proof (rule blk_wf_agree)
    show "blk_wf (heap c) (next_ref c) (b0 c) x"
      using wf that by (simp add: tree_wf_but_def)
  qed (use wf that in \<open>auto simp: tree_wf_but_def\<close>)
  ultimately show "tree_wf_but (upd_blk r f c) r"
    using wf f q by (simp add: tree_wf_but_def upd_blk_def)
  show "grows c (upd_blk r f c)"
    using wf d by (auto simp: grows_def upd_blk_def tree_wf_but_def)
qed

lemma deliver_parents_wf:
  "tree_wf_but c r \<Longrightarrow> deliver_parents r hs c = Ok u c' \<Longrightarrow>
   \<forall>p \<in> set (parents (blk c r)). p < next_ref c \<and> delivered (blk c p) \<Longrightarrow>
   tree_wf_but c' r \<and> grows c c' \<and> (\<forall>p \<in> set (parents (blk c' r)). p < next_ref c' \<and> delivered (blk c' p)) \<and>
   (\<forall>x. delivered (blk c' x) = delivered (blk c x)) \<and> next_ref c' = next_ref c"
proof (induction hs arbitrary: c)
  case Nil
  then show ?case by simp
next
  case (Cons h hs)
  obtain p where p: "get_delivered_blk h c = Inr p"
    and rest: "deliver_parents r hs (upd_blk r (\<lambda>b. b\<lparr>parents := parents b @ [p]\<rparr>) c) = Ok u c'"
    using Cons.prems(2) by (auto split: sum.splits)
  have pd: "p < next_ref c" "delivered (blk c p)"
    using p Cons.prems(1) by (auto simp: get_delivered_blk_def find_blk_def tree_wf_but_def split: option.splits if_splits)
  let ?c = "upd_blk r (\<lambda>b. b\<lparr>parents := parents b @ [p]\<rparr>) c"
  have up: "tree_wf_but ?c r" "grows c ?c"
    by (rule upd_undelivered [OF Cons.prems(1)]; use Cons.prems(1) in \<open>simp add: tree_wf_but_def\<close>)+
  have "\<forall>p \<in> set (parents (blk ?c r)). p < next_ref ?c \<and> delivered (blk ?c p)"
    using Cons.prems(3) pd by (auto simp: upd_blk_def)
  from Cons.IH [OF up(1) rest this] show ?case
    using grows_trans [OF up(2)] by (auto simp: upd_blk_def)
qed


text \<open>No block stands so high that the height of a child would wrap.\<close>

definition no_overflow :: "core \<Rightarrow> bool" where
  "no_overflow c \<longleftrightarrow> (\<forall>r < next_ref c. delivered (blk c r) \<longrightarrow> unat (height (blk c r)) < 2 ^ 32 - 1)"

lemma deliver_finish:
  assumes wf: "tree_wf_but c r" and par: "parents (blk c r) = p # ps" "p < next_ref c" "delivered (blk c p)"
    and ht: "unat (height (blk c r)) = Suc (unat (height (blk c p)))"
  shows "tree_wf (deliver_done r c)" and "grows c (deliver_done r c)"
proof -
  define c' where "c' = deliver_done r c"
  note c' = c'_def deliver_done_def
  have pr: "p \<noteq> r" "r \<noteq> b0 c"
    using wf par(3) by (auto simp: tree_wf_but_def)
  have "blk_wf (heap c') (next_ref c) (b0 c) x" if "x < next_ref c" for x
  proof (cases "x = r")
    case True
    then show ?thesis
      using wf par ht pr by (auto simp: blk_wf_def c' upd_blk_def tree_wf_but_def)
  next
    case False
    show ?thesis
    proof (rule blk_wf_agree)
      show "blk_wf (heap c) (next_ref c) (b0 c) x"
        using wf that False by (simp add: tree_wf_but_def)
    qed (use wf that False in \<open>auto simp: tree_wf_but_def c' upd_blk_def\<close>)
  qed
  with wf pr show "tree_wf (deliver_done r c)"
    by (simp add: tree_wf_def tree_wf_but_def c' upd_blk_def)
  show "grows c (deliver_done r c)"
    using wf by (auto simp: grows_def deliver_done_def upd_blk_def tree_wf_but_def)
qed

lemma on_deliver_blk_cases:
  assumes "on_deliver_blk r c = Ok d c'" and "\<not> delivered (blk c r)"
  obtains c1 p ps q where
    "deliver_parents r (parent_hashes (blk c r)) (upd_blk r (\<lambda>b. b\<lparr>parents := []\<rparr>) c) = Ok () c1"
    "parents (blk c1 r) = p # ps"
    "q = (case blk_qc (blk c1 r) of None \<Rightarrow> qc_ref (blk c1 r) | Some qc \<Rightarrow> find_blk (qc_get_obj_hash qc) (storage c1))"
    "blk_qc (blk c1 r) \<noteq> None \<Longrightarrow> q \<noteq> None"
    "c' = deliver_done r (upd_blk r (\<lambda>b. b\<lparr>height := height (blk c1 p) + 1, qc_ref := q\<rparr>) c1)"
proof -
  obtain c1 where dp: "deliver_parents r (parent_hashes (blk c r)) (upd_blk r (\<lambda>b. b\<lparr>parents := []\<rparr>) c) = Ok () c1"
    using assms by (auto simp: on_deliver_blk_def elim!: res_bind_OkE)
  obtain p ps where p: "parents (blk c1 r) = p # ps"
    using assms dp by (auto simp: on_deliver_blk_def split: list.splits)
  let ?c2 = "upd_blk r (\<lambda>b. b\<lparr>height := height (blk c1 p) + 1\<rparr>) c1"
  have same: "blk_qc (blk ?c2 r) = blk_qc (blk c1 r)" "storage ?c2 = storage c1"
    by (simp_all add: upd_blk_def)
  have two: "upd_blk r (\<lambda>b. b\<lparr>qc_ref := q\<rparr>) ?c2 = upd_blk r (\<lambda>b. b\<lparr>height := height (blk c1 p) + 1, qc_ref := q\<rparr>) c1" for q
    by (simp add: upd_blk_def)
  have none: "?c2 = upd_blk r (\<lambda>b. b\<lparr>height := height (blk c1 p) + 1, qc_ref := qc_ref (blk c1 r)\<rparr>) c1"
    by (simp add: upd_blk_def)
  have u: "(case blk_qc (blk c1 r) of
      None \<Rightarrow> Ok True (deliver_done r ?c2)
    | Some qc \<Rightarrow> (case find_blk (qc_get_obj_hash qc) (storage c1) of
         None \<Rightarrow> Exc (Runtime_Error ''block referred by qc not fetched'') ?c2
       | Some q \<Rightarrow> Ok True (deliver_done r (upd_blk r (\<lambda>b. b\<lparr>qc_ref := Some q\<rparr>) ?c2)))) = Ok d c'"
    using assms unfolding on_deliver_blk_def by (simp add: dp p Let_def same cong: option.case_cong)
  show ?thesis
  proof (cases "blk_qc (blk c1 r)")
    case None
    with u have "c' = deliver_done r ?c2" by simp
    then show ?thesis
      unfolding none by (intro that [OF dp p, of "qc_ref (blk c1 r)"]) (simp_all add: None)
  next
    case (Some qc)
    with u obtain q where "find_blk (qc_get_obj_hash qc) (storage c1) = Some q"
      "c' = deliver_done r (upd_blk r (\<lambda>b. b\<lparr>qc_ref := Some q\<rparr>) ?c2)"
      by (auto split: option.splits)
    then show ?thesis
      unfolding two by (intro that [OF dp p, of "Some q"]) (auto simp: Some)
  qed
qed

lemma on_deliver_blk_wf:
  assumes wf: "tree_wf_but c r" and ok: "on_deliver_blk r c = Ok d c'" and small: "no_overflow c"
  shows "tree_wf c'" and "grows c c'" and "delivered (blk c' r)" and "r < next_ref c'"
proof -
  have r: "\<not> delivered (blk c r)" "r < next_ref c"
    using wf by (simp_all add: tree_wf_but_def)
  obtain c1 p ps q where 1: "deliver_parents r (parent_hashes (blk c r)) (upd_blk r (\<lambda>b. b\<lparr>parents := []\<rparr>) c) = Ok () c1"
    "parents (blk c1 r) = p # ps" "q = (case blk_qc (blk c1 r) of None \<Rightarrow> qc_ref (blk c1 r) | Some qc \<Rightarrow> find_blk (qc_get_obj_hash qc) (storage c1))"
    and c': "c' = deliver_done r (upd_blk r (\<lambda>b. b\<lparr>height := height (blk c1 p) + 1, qc_ref := q\<rparr>) c1)"
    by (rule on_deliver_blk_cases [OF ok r(1)])
  let ?c0 = "upd_blk r (\<lambda>b. b\<lparr>parents := []\<rparr>) c"
  let ?c2 = "upd_blk r (\<lambda>b. b\<lparr>height := height (blk c1 p) + 1, qc_ref := q\<rparr>) c1"
  have 0: "tree_wf_but ?c0 r" "grows c ?c0"
    by (rule upd_undelivered [OF wf]; use wf in \<open>simp add: tree_wf_but_def\<close>)+
  have "\<forall>p \<in> set (parents (blk ?c0 r)). p < next_ref ?c0 \<and> delivered (blk ?c0 p)"
    by (simp add: upd_blk_def)
  note dp = deliver_parents_wf [OF 0(1) 1(1) this]
  have "p \<in> set (parents (blk c1 r))"
    by (simp add: 1(2))
  then have p: "p < next_ref c1" "delivered (blk c1 p)"
    using dp by blast+
  have q: "\<forall>x. q = Some x \<longrightarrow> x < next_ref c1"
    using dp 1(3) by (auto simp: tree_wf_but_def find_blk_def split: option.splits)
  have wf1: "tree_wf_but c1 r"
    using dp by blast
  then have nd: "\<not> delivered (blk c1 r)"
    by (simp add: tree_wf_but_def)
  have wf2: "tree_wf_but ?c2 r" and g2: "grows c1 ?c2"
    by (rule upd_undelivered [OF wf1]; use nd q in simp)+
  have g: "grows c ?c2"
    using grows_trans [OF grows_trans [OF 0(2)] g2] dp by blast
  have pr: "p \<noteq> r"
    using p(2) nd by auto
  have "unat (height (blk c1 p)) < 2 ^ 32 - 1"
  proof -
    have d: "p < next_ref c" "delivered (blk c p)"
      using p dp pr by (auto simp: upd_blk_def split: if_splits)
    have "grows c c1"
      using grows_trans [OF 0(2)] dp by blast
    then have "height (blk c1 p) = height (blk c p)"
      using d by (rule grows_blk(2))
    then show ?thesis
      using small d by (simp add: no_overflow_def)
  qed
  then have "unat (height (blk c1 p) + 1) = Suc (unat (height (blk c1 p)))"
    by (simp add: unat_word_ariths)
  then have ht: "unat (height (blk ?c2 r)) = Suc (unat (height (blk ?c2 p)))"
    using pr by (simp add: upd_blk_def)
  have par: "parents (blk ?c2 r) = p # ps" "p < next_ref ?c2" "delivered (blk ?c2 p)"
    using 1(2) p pr by (simp_all add: upd_blk_def)
  show "tree_wf c'" and "grows c c'"
    using deliver_finish [OF wf2 par ht, folded c'] grows_trans [OF g] by blast+
  show "delivered (blk c' r)" and "r < next_ref c'"
    using dp by (simp_all add: c' deliver_done_def upd_blk_def tree_wf_but_def)
qed

end
