(* ===== verification/Core_Safety.thy ===== *)
theory Core_Safety
  imports Core_Run
begin

text \<open>
  The invariant of a core: the block tree is well formed, the votes it has cast stand at rising heights,
  and what it has executed is one chain from the genesis block. \<open>advance\<close> and \<open>grows\<close> keep it.
\<close>

subsection \<open>The invariant\<close>

definition refs_ok :: "core \<Rightarrow> bool" where
  "refs_ok c \<longleftrightarrow>
     b_lock c < next_ref c \<and> delivered (blk c (b_lock c)) \<and>
     b_exec c < next_ref c \<and> delivered (blk c (b_exec c)) \<and>
     (\<forall>h q. hqc c = Some (h, q) \<longrightarrow> h < next_ref c \<and> delivered (blk c h))"

text \<open>The blocks voted for, oldest first: one per vote, at strictly increasing heights.\<close>

definition vote_log :: "core \<Rightarrow> ref list \<Rightarrow> bool" where
  "vote_log c rs \<longleftrightarrow>
     map (\<lambda>(p, v). vote_blk_hash v) (votes_of (events c)) = map (\<lambda>r. blk_hash (blk c r)) rs \<and>
     (\<forall>r \<in> set rs. r < next_ref c \<and> delivered (blk c r) \<and> height (blk c r) \<le> vheight c) \<and>
     sorted_wrt (\<lambda>r s. height (blk c r) < height (blk c s)) rs"

definition exec_log :: "core \<Rightarrow> bool" where
  "exec_log c \<longleftrightarrow>
     chain (heap c) (b0 c # commits_of (events c)) \<and>
     (\<forall>r \<in> set (commits_of (events c)). r < next_ref c \<and> delivered (blk c r) \<and> 0 < height (blk c r)) \<and>
     last (b0 c # commits_of (events c)) = b_exec c \<and>
     decides_of (events c) = block_finalities c (commits_of (events c))"

definition core_inv :: "core \<Rightarrow> bool" where
  "core_inv c \<longleftrightarrow> tree_wf c \<and> refs_ok c \<and> (\<exists>rs. vote_log c rs) \<and> exec_log c"

lemma core_inv_parts:
  assumes "core_inv c"
  shows "tree_wf c" "refs_ok c" "\<exists>rs. vote_log c rs" "exec_log c"
  using assms by (simp_all add: core_inv_def)

subsection \<open>Preservation\<close>

lemma higher_ok:
  assumes wf: "tree_wf c" and "higher c x y" and "x < next_ref c" and "delivered (blk c x)"
  shows "y < next_ref c" and "delivered (blk c y)"
proof -
  have "y < next_ref c \<and> delivered (blk c y)"
  proof (cases "y = x")
    case True
    with assms show ?thesis by simp
  next
    case False
    then have y: "y < next_ref c" "height (blk c x) < height (blk c y)"
      using assms(2) by (auto simp: higher_def)
    then have "0 < height (blk c y)"
      using word_zero_le le_less_trans by blast
    with y show ?thesis
      using tree_wf_parent [OF wf y(1)] by blast
  qed
  then show "y < next_ref c" and "delivered (blk c y)" by simp_all
qed

lemma refs_ok_advance:
  assumes wf: "tree_wf c" and ok: "refs_ok c" and a: "advance c c'"
  shows "refs_ok c'"
proof -
  note k = advance_keeps [OF a]
  have l: "higher c (b_lock c) (b_lock c')"
    using a by (simp add: advance_def)
  have lock: "b_lock c' < next_ref c" "delivered (blk c (b_lock c'))"
    using higher_ok [OF wf l] ok by (simp_all add: refs_ok_def)
  obtain rs where rs: "\<forall>r \<in> set rs. r < next_ref c \<and> delivered (blk c r) \<and> 0 < height (blk c r)" "b_exec c' = last (b_exec c # rs)"
    using a by (auto simp: advance_def)
  have exec: "b_exec c' < next_ref c" "delivered (blk c (b_exec c'))"
    using rs ok last_in_set [of rs] by (auto simp: refs_ok_def)
  have "h' < next_ref c \<and> delivered (blk c h')" if h': "hqc c' = Some (h', q')" for h' q'
  proof (cases "hqc c")
    case None
    then have "hqc c' = None"
      using a by (simp add: advance_def)
    with h' show ?thesis by simp
  next
    case (Some hq)
    then obtain h q where hq: "hqc c = Some (h, q)" by (cases hq) simp
    then have "higher c h h'"
      using a h' by (auto simp: advance_def)
    then show ?thesis
      using higher_ok [OF wf, of h h'] ok hq by (auto simp: refs_ok_def)
  qed
  with lock exec show ?thesis
    by (simp add: refs_ok_def keeps_blk [OF k])
qed

lemma vote_log_same:
  assumes "vote_log c rs" and "votes_of (events c') = votes_of (events c)" and "vheight c' = vheight c"
    and "\<And>r. r < next_ref c \<Longrightarrow> delivered (blk c r) \<Longrightarrow>
      r < next_ref c' \<and> delivered (blk c' r) \<and> height (blk c' r) = height (blk c r) \<and> blk_hash (blk c' r) = blk_hash (blk c r)"
  shows "vote_log c' rs"
proof -
  have r: "r < next_ref c" "delivered (blk c r)" if "r \<in> set rs" for r
    using assms(1) that by (simp_all add: vote_log_def)
  have same: "r < next_ref c'" "delivered (blk c' r)" "height (blk c' r) = height (blk c r)"
    "blk_hash (blk c' r) = blk_hash (blk c r)" if "r \<in> set rs" for r
    using assms(4) [OF r [OF that]] by simp_all
  have "map (\<lambda>r. blk_hash (blk c' r)) rs = map (\<lambda>r. blk_hash (blk c r)) rs"
    by (simp add: same(4))
  moreover have "sorted_wrt (\<lambda>r s. height (blk c' r) < height (blk c' s)) rs"
    using assms(1) unfolding vote_log_def by (auto intro: sorted_wrt_mono_rel [rotated] simp: same(3))
  ultimately show ?thesis
    using assms(1-3) same by (simp add: vote_log_def)
qed

lemma exec_log_advance:
  assumes ok: "exec_log c" and a: "advance c c'"
  shows "exec_log c'"
proof -
  note k = advance_keeps [OF a]
  obtain rs where rs: "commits_of (events c') = commits_of (events c) @ rs" "chain (heap c) (b_exec c # rs)"
    "\<forall>r \<in> set rs. r < next_ref c \<and> delivered (blk c r) \<and> 0 < height (blk c r)" "b_exec c' = last (b_exec c # rs)"
    "decides_of (events c') = decides_of (events c) @ block_finalities c rs"
    using a by (auto simp: advance_def)
  have last: "last (b0 c # commits_of (events c)) = b_exec c"
    using ok by (simp add: exec_log_def)
  have "chain (heap c) (b0 c # commits_of (events c) @ rs)"
    using ok rs(2) unfolding last [symmetric] by (intro chain_append) (simp_all add: exec_log_def)
  moreover have "last (b0 c # commits_of (events c) @ rs) = b_exec c'"
    using last rs(4) by (simp split: if_splits)
  moreover have "block_finalities c (commits_of (events c) @ rs) = decides_of (events c')"
    using ok rs(5) by (simp add: exec_log_def block_finalities_def)
  ultimately show ?thesis
    using ok rs(1,3) unfolding exec_log_def
    by (simp only: keeps_blk [OF k] chain_keeps [OF k] block_finalities_keeps [OF k]) auto
qed


lemma core_inv_advance:
  assumes inv: "core_inv c" and a: "advance c c'"
  shows "core_inv c'"
proof -
  note k = advance_keeps [OF a]
  obtain rs where "vote_log c rs"
    using core_inv_parts(3) [OF inv] by blast
  then have "vote_log c' rs"
    by (rule vote_log_same) (use a in \<open>simp_all add: advance_def keeps_blk [OF k]\<close>)
  then show ?thesis
    using tree_wf_keeps [OF core_inv_parts(1) [OF inv] k]
      refs_ok_advance [OF core_inv_parts(1,2) [OF inv] a] exec_log_advance [OF core_inv_parts(4) [OF inv] a]
    unfolding core_inv_def by blast
qed

lemma refs_ok_grows:
  assumes "refs_ok c" and g: "grows c c'"
  shows "refs_ok c'"
proof -
  have same: "b_lock c' = b_lock c" "b_exec c' = b_exec c" "hqc c' = hqc c"
    using g by (simp_all add: grows_def)
  have "r < next_ref c' \<and> delivered (blk c' r)" if "r < next_ref c" "delivered (blk c r)" for r
    using grows_blk [OF g that] that by simp
  then show ?thesis
    using assms(1) unfolding refs_ok_def same by blast
qed

lemma chain_grows:
  assumes "grows c c'" and "\<forall>r \<in> set rs. r < next_ref c \<and> delivered (blk c r)" and "chain (heap c) rs"
  shows "chain (heap c') rs"
proof -
  have "first_parent (blk c' r) = first_parent (blk c r)" if "r \<in> set rs" for r
    using assms(1,2) that by (simp add: first_parent_def grows_blk)
  then show ?thesis
    using assms(3) unfolding chain_def by (auto elim!: successively_mono)
qed

lemma block_finalities_grows:
  assumes "grows c c'" and "\<forall>r \<in> set rs. r < next_ref c \<and> delivered (blk c r)"
  shows "block_finalities c' rs = block_finalities c rs"
proof -
  have "finalities (core_id c') (blk c' r) 0 (blk_cmds (blk c' r)) = finalities (core_id c) (blk c r) 0 (blk_cmds (blk c r))"
    if "r \<in> set rs" for r
  proof -
    have r: "r < next_ref c" "delivered (blk c r)"
      using assms(2) that by simp_all
    have "core_id c' = core_id c"
      using assms(1) by (simp add: grows_def)
    then show ?thesis
      using grows_blk(5) [OF assms(1) r] finalities_same_shape [OF grows_blk(7) [OF assms(1) r]] by simp
  qed
  then show ?thesis
    by (simp add: block_finalities_def cong: map_cong)
qed

lemma core_inv_grows:
  assumes inv: "core_inv c" and g: "grows c c'" and wf: "tree_wf c'"
  shows "core_inv c'"
proof -
  have same: "events c' = events c" "vheight c' = vheight c" "b0 c' = b0 c" "b_exec c' = b_exec c"
    using g by (simp_all add: grows_def)
  obtain rs where "vote_log c rs"
    using core_inv_parts(3) [OF inv] by blast
  then have "vote_log c' rs"
    by (rule vote_log_same) (simp_all add: same grows_blk [OF g])
  moreover have ex: "exec_log c"
    by (rule core_inv_parts(4) [OF inv])
  then have all: "\<forall>r \<in> set (b0 c # commits_of (events c)). r < next_ref c \<and> delivered (blk c r)"
    using core_inv_parts(1) [OF inv] by (simp add: exec_log_def tree_wf_def)
  have "exec_log c'"
    using ex chain_grows [OF g all] block_finalities_grows [OF g, of "commits_of (events c)"] all
    by (simp add: exec_log_def same grows_blk [OF g])
  ultimately show ?thesis
    using wf refs_ok_grows [OF core_inv_parts(2) [OF inv] g] unfolding core_inv_def by blast
qed

text \<open>
  The handler raises \<open>vheight\<close> first and votes last. In between, the block may be voted for: it
  stands above every block voted for so far.
\<close>

definition can_vote :: "core \<Rightarrow> ref \<Rightarrow> bool" where
  "can_vote c r \<longleftrightarrow>
     r < next_ref c \<and> delivered (blk c r) \<and> height (blk c r) \<le> vheight c \<and>
     (\<exists>rs. vote_log c rs \<and> (\<forall>s \<in> set rs. height (blk c s) < height (blk c r)))"

lemma core_inv_vheight:
  assumes inv: "core_inv c" and r: "vheight c < h"
  shows "core_inv (c\<lparr>vheight := h\<rparr>)"
proof -
  obtain rs where rs: "vote_log c rs"
    using core_inv_parts(3) [OF inv] by blast
  then have "vote_log (c\<lparr>vheight := h\<rparr>) rs"
    using r by (auto simp: vote_log_def)
  then show ?thesis
    using inv by (auto simp: core_inv_def tree_wf_def refs_ok_def exec_log_def block_finalities_def)
qed

lemma can_vote_vheight:
  assumes inv: "core_inv c" and r: "r < next_ref c" "vheight c < height (blk c r)"
  shows "can_vote (c\<lparr>vheight := height (blk c r)\<rparr>) r"
proof -
  obtain rs where rs: "vote_log c rs"
    using core_inv_parts(3) [OF inv] by blast
  then have "vote_log (c\<lparr>vheight := height (blk c r)\<rparr>) rs"
    using r by (auto simp: vote_log_def)
  moreover have "\<forall>s \<in> set rs. height (blk c s) < height (blk c r)"
    using rs r(2) by (auto simp: vote_log_def)
  moreover have "0 < height (blk c r)"
    using r(2) word_zero_le le_less_trans by blast
  then have "delivered (blk c r)"
    using tree_wf_parent [OF core_inv_parts(1) [OF inv] r(1)] by blast
  ultimately show ?thesis
    using r(1) unfolding can_vote_def by auto
qed

lemma can_vote_advance:
  assumes v: "can_vote c r" and a: "advance c c'"
  shows "can_vote c' r"
proof -
  note k = advance_keeps [OF a]
  obtain rs where rs: "vote_log c rs" "\<forall>s \<in> set rs. height (blk c s) < height (blk c r)"
    using v by (auto simp: can_vote_def)
  have "vote_log c' rs"
    by (rule vote_log_same [OF rs(1)]) (use a in \<open>simp_all add: advance_def keeps_blk [OF k]\<close>)
  then show ?thesis
    using v rs(2) a unfolding can_vote_def keeps_blk [OF k] by (auto simp: advance_def)
qed

lemma vote_log_vote:
  assumes rs: "vote_log c rs" "\<forall>s \<in> set rs. height (blk c s) < height (blk c r)"
    and r: "r < next_ref c" "delivered (blk c r)" "height (blk c r) \<le> vheight c"
  shows "vote_log (emit (Do_Vote p \<lparr>voter = core_id c, vote_blk_hash = blk_hash (blk c r), vote_cert = pc\<rparr>) c) (rs @ [r])"
    (is "vote_log ?c _")
proof -
  have heap: "heap ?c = heap c" "next_ref ?c = next_ref c" "vheight ?c = vheight c"
    by (simp_all add: emit_def)
  show ?thesis
    unfolding vote_log_def heap
  proof (intro conjI ballI)
    show "map (\<lambda>(p, v). vote_blk_hash v) (votes_of (events ?c)) = map (\<lambda>r. blk_hash (blk c r)) (rs @ [r])"
      using rs by (simp add: emit_def vote_log_def)
    show "sorted_wrt (\<lambda>r s. height (blk c r) < height (blk c s)) (rs @ [r])"
      using rs by (simp add: sorted_wrt_append vote_log_def)
  qed (use rs r in \<open>auto simp: vote_log_def\<close>)
qed

lemma core_inv_vote:
  assumes inv: "core_inv c" and r: "can_vote c r"
    and c': "c' = emit (Do_Vote p \<lparr>voter = core_id c, vote_blk_hash = blk_hash (blk c r), vote_cert = pc\<rparr>) c"
  shows "core_inv c'"
proof -
  obtain rs where rs: "vote_log c rs" "\<forall>s \<in> set rs. height (blk c s) < height (blk c r)"
    using r by (auto simp: can_vote_def)
  have "vote_log c' (rs @ [r])"
    unfolding c' by (rule vote_log_vote [OF rs]) (use r in \<open>simp_all add: can_vote_def\<close>)
  moreover have "tree_wf c'" "refs_ok c'"
    using core_inv_parts(1,2) [OF inv] by (simp_all add: c' emit_def tree_wf_def refs_ok_def)
  moreover have "exec_log c'"
    using core_inv_parts(4) [OF inv] by (simp add: c' emit_def exec_log_def block_finalities_def)
  ultimately show ?thesis
    unfolding core_inv_def by blast
qed

end
