(* ===== verification/Core_Steps.thy ===== *)
theory Core_Steps
  imports Core_Safety
begin

text \<open>
  The step relation of one replica's core, with one rule per call that the node makes, and the
  proof that every step keeps the invariant.
\<close>

subsection \<open>Receiving a proposal\<close>

lemma vote_opinion_cases:
  assumes "vote_opinion r c = Ok op c'"
  obtains (no) "\<not> op" "c' = c"
  | (yes) "op" "vheight c < height (blk c r)" "c' = c\<lparr>vheight := height (blk c r)\<rparr>"
  using assms
  by (auto simp: vote_opinion_def split: if_splits option.splits sum.splits prod.splits)

definition proposal_vote :: "env \<Rightarrow> proposal \<Rightarrow> core \<Rightarrow> event" where
  "proposal_vote e prop c =
     Do_Vote (prop_proposer prop) \<lparr>voter = core_id c, vote_blk_hash = blk_hash (blk c (prop_blk prop)),
       vote_cert = create_part_cert e (blk_hash (blk c (prop_blk prop)))\<rparr>"

text \<open>
  What a successful call does: an update, unless the replica proposes itself, the vote decision, quiet
  steps, perhaps a vote.
\<close>

lemma on_receive_proposal_stages:
  assumes ok: "on_receive_proposal e prop c = Ok u c'"
  obtains c1 c2 c4 op where
    "if prop_proposer prop = core_id c then c1 = c else delivered (blk c (prop_blk prop)) \<and> update (prop_blk prop) c = Ok () c1"
    "vote_opinion (prop_blk prop) c1 = Ok op c2" "idles c2 c4" "heap c4 = heap c2"
    "c' = (if op \<and> \<not> vote_disabled c4 then emit (proposal_vote e prop c4) c4 else c4)"
proof -
  let ?r = "prop_blk prop" and ?self = "prop_proposer prop = core_id c"
  obtain c1 where c1: "(if ?self then Ok () c
           else if \<not> delivered (blk c ?r) then Exc (Runtime_Error ''block not delivered'') c
           else update ?r c) = Ok () c1"
    and rest: "res_bind (vote_opinion ?r c1) (\<lambda>opinion c.
           let c = (case qc_ref (blk c ?r) of
                      Some q \<Rightarrow> if ?self then c else on_qc_finish q c
                    | None \<Rightarrow> c);
               c = emit (Resolve_Receive_Proposal prop) c
           in if opinion \<and> \<not> vote_disabled c
              then Ok () (emit (Do_Vote (prop_proposer prop)
                     \<lparr>voter = core_id c, vote_blk_hash = blk_hash (blk c ?r),
                      vote_cert = create_part_cert e (blk_hash (blk c ?r))\<rparr>) c)
              else Ok () c) = Ok u c'"
    using ok unfolding on_receive_proposal_def Let_def by (auto elim!: res_bind_OkE)
  obtain op c2 where c2: "vote_opinion ?r c1 = Ok op c2"
    using rest by (auto elim!: res_bind_OkE)
  define c3 where "c3 = (case qc_ref (blk c2 ?r) of
      Some q \<Rightarrow> if ?self then c2 else on_qc_finish q c2 | None \<Rightarrow> c2)"
  define c4 where "c4 = emit (Resolve_Receive_Proposal prop) c3"
  have "idles c2 c3"
    by (simp add: c3_def idles_on_qc_finish split: option.split)
  moreover have "idles c3 c4"
    unfolding c4_def by (rule idles_emit) simp_all
  ultimately have s4: "idles c2 c4"
    by (rule idles_trans)
  have c': "c' = (if op \<and> \<not> vote_disabled c4 then emit (proposal_vote e prop c4) c4 else c4)"
    using rest unfolding c2 by (auto simp: Let_def c3_def c4_def proposal_vote_def split: if_splits)
  have "heap c4 = heap c2"
    by (simp add: c4_def c3_def emit_def on_qc_finish_def split: option.split)
  from that [OF _ c2 s4 this c'] c1 show thesis
    by (simp split: if_splits)
qed

lemma on_receive_proposal_cases:
  assumes wf: "tree_wf c" and r: "prop_blk prop < next_ref c" and ok: "on_receive_proposal e prop c = Ok u c'"
  obtains c1 c2 c4 op where "advance c c1" "vote_opinion (prop_blk prop) c1 = Ok op c2" "advance c2 c4"
    "heap c4 = heap c2" "b_lock c4 = b_lock c2" "next_ref c4 = next_ref c2"
    "c' = (if op \<and> \<not> vote_disabled c4 then emit (proposal_vote e prop c4) c4 else c4)"
proof -
  obtain c1 c2 c4 op where 1: "if prop_proposer prop = core_id c then c1 = c
      else delivered (blk c (prop_blk prop)) \<and> update (prop_blk prop) c = Ok () c1"
    and 2: "vote_opinion (prop_blk prop) c1 = Ok op c2" "idles c2 c4" "heap c4 = heap c2"
    "c' = (if op \<and> \<not> vote_disabled c4 then emit (proposal_vote e prop c4) c4 else c4)"
    by (rule on_receive_proposal_stages [OF ok])
  have "advance c c1"
    using 1 advance_update [OF wf r] by (auto split: if_splits)
  then show thesis
    using 2 idles_parts [OF 2(2)] by (intro that [OF _ 2(1) _ 2(3) _ _ 2(4)]) (simp_all add: keeps_blk [OF advance_keeps])
qed

lemma core_inv_receive_proposal:
  assumes inv: "core_inv c" and r: "prop_blk prop < next_ref c" and ok: "on_receive_proposal e prop c = Ok u c'"
  shows "core_inv c'"
proof -
  obtain c1 c2 c4 op where a1: "advance c c1" and v: "vote_opinion (prop_blk prop) c1 = Ok op c2"
    and a4: "advance c2 c4" and "heap c4 = heap c2" "b_lock c4 = b_lock c2" "next_ref c4 = next_ref c2"
    and c': "c' = (if op \<and> \<not> vote_disabled c4 then emit (proposal_vote e prop c4) c4 else c4)"
    by (rule on_receive_proposal_cases [OF core_inv_parts(1) [OF inv] r ok])
  have inv1: "core_inv c1"
    by (rule core_inv_advance [OF inv a1])
  have r1: "prop_blk prop < next_ref c1"
    using r keeps_blk(7) [OF advance_keeps [OF a1]] by simp
  from v show ?thesis
  proof (cases rule: vote_opinion_cases)
    case no
    with core_inv_advance [OF inv1] a4 c' show ?thesis by simp
  next
    case yes
    have inv4: "core_inv c4"
      using core_inv_advance [OF core_inv_vheight [OF inv1 yes(2)]] a4 yes(3) by simp
    have "can_vote c4 (prop_blk prop)"
      using can_vote_advance [OF can_vote_vheight [OF inv1 r1 yes(2)]] a4 yes(3) by simp
    then have "core_inv (emit (proposal_vote e prop c4) c4)"
      by (rule core_inv_vote [OF inv4 _ proposal_vote_def [THEN arg_cong [of _ _ "\<lambda>ev. emit ev c4"]]])
    with inv4 c' show ?thesis by simp
  qed
qed

subsection \<open>Proposing\<close>

lemma idles_tails: "idles c (c\<lparr>tails := t\<rparr>)"
  by (rule idlesI) (simp_all add: keeps_def)

lemma block_make_fields:
  assumes "block_make sha hp ps cmds qc ex h q self d = Inr b"
  shows "\<not> delivered b" "qc_ref b = q" "height b = h" "blk_cmds b = cmds" "parents b = ps" "decision b = d" "blk_qc b = Some qc"
  using assms by (cases "block_get_hash sha (block_empty\<lparr>parent_hashes := map (\<lambda>p. blk_hash (hp p)) ps, blk_cmds := cmds,
      blk_qc := Some qc, extra := ex, parents := ps, qc_ref := q, self_qc := self, height := h,
      delivered := False, decision := d\<rparr>)"; force simp: block_make_def Let_def)+

lemma advance_receive_deliver:
  assumes inv: "core_inv c" and small: "no_overflow c" and r: "r < next_ref c" and ok: "on_deliver_blk r c = Ok d c'"
  shows "core_inv c'" and "grows c c'" and "delivered (blk c' r)" and "r < next_ref c'"
proof -
  have "core_inv c' \<and> grows c c' \<and> delivered (blk c' r) \<and> r < next_ref c'"
  proof (cases "delivered (blk c r)")
    case True
    with ok inv r show ?thesis by (simp add: on_deliver_blk_def)
  next
    case False
    note wf = on_deliver_blk_wf [OF tree_wf_butI [OF core_inv_parts(1) [OF inv] r False] ok small]
    show ?thesis
      using wf core_inv_grows [OF inv wf(2,1)] by simp
  qed
  then show "core_inv c'" and "grows c c'" and "delivered (blk c' r)" and "r < next_ref c'"
    by simp_all
qed

text \<open>The part of \<open>on_propose\<close> up to the delivery of the new block.\<close>

lemma core_inv_make:
  assumes inv: "core_inv c" and small: "no_overflow c" and b: "\<not> delivered b" "\<forall>q. qc_ref b = Some q \<longrightarrow> q < next_ref c" "decision b = 0"
    and f: "fetch_blk b c = (r, c1)" and ok: "on_deliver_blk r (upd_blk r (\<lambda>b. b\<lparr>self_qc := sq b\<rparr>) c1) = Ok d c'"
  shows "core_inv c'" and "r < next_ref c'" and "delivered (blk c' r)" and "\<exists>c2. idles c c2 \<and> grows c2 c'"
proof -
  let ?c2 = "upd_blk r (\<lambda>b. b\<lparr>self_qc := sq b\<rparr>) c1"
  have "core_inv c' \<and> r < next_ref c' \<and> delivered (blk c' r) \<and> (\<exists>c2. idles c c2 \<and> grows c2 c')"
    using f
  proof (cases rule: fetch_blk_cases)
    case cached
    have "r < next_ref c"
      using cached(1) core_inv_parts(1) [OF inv] by (simp add: tree_wf_def)
    moreover have st: "idles c ?c2"
      unfolding cached(2) by (rule idles_upd_blk) (simp add: same_shape_def)
    then have a: "advance c ?c2"
      by (rule idles_parts)
    moreover have "no_overflow ?c2"
      using small by (simp add: no_overflow_def keeps_blk [OF advance_keeps [OF a]])
    ultimately show ?thesis
      using advance_receive_deliver [OF core_inv_advance [OF inv a] _ _ ok] keeps_blk(7) [OF advance_keeps [OF a]]
      st by auto
  next
    case new
    note w = fetch_blk_new [OF core_inv_parts(1) [OF inv] b new(3)]
    have w2: "tree_wf_but ?c2 r" "grows c1 ?c2"
      by (rule upd_undelivered [OF w(1) [folded new(2)]];
          use b w(1) in \<open>auto simp: new tree_wf_but_def\<close>)+
    have "no_overflow ?c2"
      using small b(1) by (auto simp: no_overflow_def new upd_blk_def)
    note wf = on_deliver_blk_wf [OF w2(1) ok this]
    have g: "grows c c'"
      by (rule grows_trans [OF grows_trans [OF w(2) w2(2)] wf(2)])
    show ?thesis
      using wf core_inv_grows [OF inv g wf(1)] g by (auto intro: exI [of _ c])
  qed
  then show "core_inv c'" and "r < next_ref c'" and "delivered (blk c' r)" and "\<exists>c2. idles c c2 \<and> grows c2 c'"
    by blast+
qed

text \<open>The calls a successful \<open>on_propose\<close> makes.\<close>

lemma on_propose_runs:
  assumes ok: "on_propose e cmds ps ex c = Ok r c'"
  obtains p ct h qc b c1 sq c2 pro d c3 u4 c4 u5 c5
  where "ct = c\<lparr>tails := tails c - set ps\<rparr>" "p = hd ps" "ps \<noteq> []" "hqc ct = Some (h, qc)"
    "block_make (e_sha e) (heap ct) ps cmds qc ex (height (blk ct p) + 1) (Some h) None 0 = Inr b"
    "fetch_blk b ct = (r, c1)" "c2 = upd_blk r (\<lambda>b. b\<lparr>self_qc := sq b\<rparr>) c1"
    "pro = \<lparr>prop_proposer = core_id c2, prop_blk = r\<rparr>" "on_deliver_blk r c2 = Ok d c3" "update r c3 = Ok u4 c4"
    "vheight c4 < height (blk c4 r)" "on_receive_proposal e pro c4 = Ok u5 c5"
    "c' = emit (Do_Broadcast_Proposal pro) (emit (Resolve_Propose pro) c5)"
proof -
  define ct where "ct = c\<lparr>tails := tails c - set ps\<rparr>"
  obtain p ps' where p: "ps = p # ps'"
    using ok by (cases ps) (simp_all add: on_propose_def)
  obtain h qc where h: "hqc ct = Some (h, qc)"
    using ok p by (auto simp: on_propose_def Let_def ct_def split: option.splits)
  obtain b where b: "block_make (e_sha e) (heap ct) ps cmds qc ex (height (blk ct p) + 1) (Some h) None 0 = Inr b"
    using ok p h by (auto simp: on_propose_def Let_def ct_def split: sum.splits)
  obtain bnew c1 where f: "fetch_blk b ct = (bnew, c1)"
    by fastforce
  define c2 where "c2 = upd_blk bnew (\<lambda>x. x\<lparr>self_qc :=
      Some (create_quorum_cert (e_mem e) (config c1) (blk_hash x))\<rparr>) c1"
  define pro where "pro = \<lparr>prop_proposer = core_id c2, prop_blk = bnew\<rparr>"
  have "res_bind (on_deliver_blk bnew c2) (\<lambda>d c. res_bind (update bnew c) (\<lambda>u c.
      if height (blk c bnew) \<le> vheight c
      then Exc (Runtime_Error ''new block should be higher than vheight'') c
      else res_bind (on_receive_proposal e pro c) (\<lambda>u c.
        Ok bnew (emit (Do_Broadcast_Proposal pro) (emit (Resolve_Propose pro) c))))) = Ok r c'"
    using ok unfolding on_propose_def p list.case Let_def ct_def [symmetric, unfolded p] h option.case prod.case
      b [unfolded p] sum.case f prod.case
    by (simp only: c2_def pro_def)
  then obtain d c3 u4 c4 u5 c5 where dl: "on_deliver_blk bnew c2 = Ok d c3" and r: "r = bnew" and up: "update bnew c3 = Ok u4 c4"
    and vh: "vheight c4 < height (blk c4 bnew)" and rp: "on_receive_proposal e pro c4 = Ok u5 c5"
    and c': "c' = emit (Do_Broadcast_Proposal pro) (emit (Resolve_Propose pro) c5)"
    by (auto elim!: res_bind_OkE split: if_splits simp: not_le)
  show thesis
    by (rule that [OF ct_def _ _ h _ _ c2_def [folded r]]; use p b f dl up vh rp c' r in \<open>simp add: pro_def\<close>)
qed

text \<open>What it does to the state: a block is made and delivered, an update, and the proposal is received.\<close>

lemma on_propose_stages:
  assumes inv: "core_inv c" and small: "no_overflow c" and ok: "on_propose e cmds ps ex c = Ok r c'"
  obtains ct c2 c3 u4 c4 pro u5 c5 where "idles c ct" "idles ct c2" "grows c2 c3" "core_inv c3" "update r c3 = Ok u4 c4"
    "prop_proposer pro = core_id c4" "prop_blk pro = r" "r < next_ref c3" "delivered (blk c3 r)" "on_receive_proposal e pro c4 = Ok u5 c5" "idles c5 c'"
proof -
  obtain p ct h qc b c1 sq c2 pro d c3 u4 c4 u5 c5
  where ct: "ct = c\<lparr>tails := tails c - set ps\<rparr>" and h: "hqc ct = Some (h, qc)"
    and b: "block_make (e_sha e) (heap ct) ps cmds qc ex (height (blk ct p) + 1) (Some h) None 0 = Inr b"
    and f: "fetch_blk b ct = (r, c1)" and c2: "c2 = upd_blk r (\<lambda>b. b\<lparr>self_qc := sq b\<rparr>) c1"
    and pro: "pro = \<lparr>prop_proposer = core_id c2, prop_blk = r\<rparr>"
    and dl: "on_deliver_blk r c2 = Ok d c3" and up: "update r c3 = Ok u4 c4"
    and rp: "on_receive_proposal e pro c4 = Ok u5 c5"
    and c': "c' = emit (Do_Broadcast_Proposal pro) (emit (Resolve_Propose pro) c5)"
    by (rule on_propose_runs [OF ok])
  have t: "idles c ct"
    unfolding ct by (rule idles_tails)
  have invt: "core_inv ct"
    by (rule core_inv_advance [OF inv idles_parts(1) [OF t]])
  have q: "\<forall>q. qc_ref b = Some q \<longrightarrow> q < next_ref ct"
    using core_inv_parts(2) [OF invt] h by (simp add: block_make_fields [OF b] refs_ok_def)
  have small': "no_overflow ct"
    using small by (simp add: no_overflow_def ct)
  note m = core_inv_make [OF invt small' block_make_fields(1) [OF b] q block_make_fields(6) [OF b] f dl [unfolded c2]]
  have a4: "advance c3 c4"
    by (rule advance_update [OF core_inv_parts(1) [OF m(1)] m(2) up])
  have "idles c5 (emit (Resolve_Propose pro) c5)"
    by (rule idles_emit) simp_all
  moreover have "idles (emit (Resolve_Propose pro) c5) c'"
    unfolding c' by (rule idles_emit) simp_all
  ultimately have a6: "idles c5 c'"
    by (rule idles_trans)
  have "core_id c3 = core_id ct"
    using m(4) by (auto simp: grows_def idles_def advance_def keeps_def)
  moreover have "core_id c2 = core_id ct"
    using f by (cases rule: fetch_blk_cases) (simp_all add: c2 upd_blk_def)
  moreover have "core_id c4 = core_id c3"
    using advance_keeps [OF a4] by (simp add: keeps_def)
  moreover obtain cm where "idles ct cm" "grows cm c3"
    using m(4) by blast
  ultimately show thesis
    using m(3) by (intro that [OF t _ _ m(1) up _ _ m(2) _ rp a6]) (simp_all add: pro)
qed

lemma on_propose_cases:
  assumes inv: "core_inv c" and small: "no_overflow c" and ok: "on_propose e cmds ps ex c = Ok r c'"
  obtains ct c2 c3 c4 pro u5 c5 where "advance c ct" "advance ct c2" "grows c2 c3" "core_inv c3" "advance c3 c4"
    "prop_blk pro = r" "r < next_ref c4" "delivered (blk c3 r)" "on_receive_proposal e pro c4 = Ok u5 c5" "advance c5 c'"
proof -
  obtain ct c2 c3 u4 c4 pro u5 c5 where p: "idles c ct" "idles ct c2" "grows c2 c3" "core_inv c3" "update r c3 = Ok u4 c4"
    "prop_proposer pro = core_id c4" "prop_blk pro = r" "r < next_ref c3" "delivered (blk c3 r)"
    "on_receive_proposal e pro c4 = Ok u5 c5" "idles c5 c'"
    by (rule on_propose_stages [OF inv small ok])
  have a4: "advance c3 c4"
    by (rule advance_update [OF core_inv_parts(1) [OF p(4)] p(8,5)])
  then have "r < next_ref c4"
    using p(8) by (simp add: keeps_blk [OF advance_keeps])
  with p a4 show thesis
    by (intro that [OF idles_parts(1) idles_parts(1) _ _ a4 _ _ _ _ idles_parts(1)])
qed

lemma core_inv_propose:
  assumes inv: "core_inv c" and small: "no_overflow c" and ok: "on_propose e cmds ps ex c = Ok r c'"
  shows "core_inv c'"
proof -
  obtain ct c2 c3 c4 pro u5 c5 where "core_inv c3" "advance c3 c4"
    "prop_blk pro = r" "r < next_ref c4" "on_receive_proposal e pro c4 = Ok u5 c5" "advance c5 c'"
    by (rule on_propose_cases [OF inv small ok])
  then show ?thesis
    using core_inv_advance core_inv_receive_proposal by blast
qed

subsection \<open>Steps\<close>

text \<open>
  A block as \<open>Block::unserialize\<close> leaves it: no parents resolved, no height, not delivered, not decided.
\<close>

definition wire_block :: "block \<Rightarrow> bool" where
  "wire_block b \<longleftrightarrow> \<not> delivered b \<and> height b = 0 \<and> qc_ref b = None \<and> decision b = 0"

text \<open>
  One rule per call the node makes to its core. A handler that throws has its connection closed and may
  leave its work half done; only calls that return are steps. References come from the block cache, so
  they lie in the heap.
\<close>

inductive core_step :: "env \<Rightarrow> core \<Rightarrow> core \<Rightarrow> bool" for e :: env where
  fetch: "wire_block b \<Longrightarrow> fetch_blk b c = (r, c') \<Longrightarrow> core_step e c c'"
| deliver: "r < next_ref c \<Longrightarrow> no_overflow c \<Longrightarrow> on_deliver_blk r c = Ok d c' \<Longrightarrow> core_step e c c'"
| receive_proposal: "prop_blk pro < next_ref c \<Longrightarrow> on_receive_proposal e pro c = Ok u c' \<Longrightarrow> core_step e c c'"
| receive_vote: "on_receive_vote e v c = Ok u c' \<Longrightarrow> core_step e c c'"
| propose: "no_overflow c \<Longrightarrow> on_propose e cmds ps ex c = Ok r c' \<Longrightarrow> core_step e c c'"
| local_order: "core_step e c (on_local_order p hs ts c)"
| receive_local_order: "core_step e c (snd (on_receive_local_order lo c))"
| order_cmds: "flashorder_propose e iter mx now c = Ok hs c' \<Longrightarrow> core_step e c c'"
| wait_qc: "core_step e c (snd (async_qc_finish r c))"

inductive_cases core_stepE: "core_step e c c'"

lemma core_inv_fetch:
  assumes inv: "core_inv c" and b: "wire_block b" and f: "fetch_blk b c = (r, c')"
  shows "core_inv c'"
  using f
proof (cases rule: fetch_blk_cases)
  case cached
  with inv show ?thesis by simp
next
  case new
  have b': "\<not> delivered b" "\<forall>q. qc_ref b = Some q \<longrightarrow> q < next_ref c" "decision b = 0" "height b = 0"
    using b by (simp_all add: wire_block_def)
  note w = fetch_blk_new [OF core_inv_parts(1) [OF inv] b'(1-3) new(3)]
  have "tree_wf c'"
    by (rule tree_wf_but_full [OF w(1)]) (simp add: new b'(4))
  then show ?thesis
    by (rule core_inv_grows [OF inv w(2)])
qed

lemma core_step_inv:
  assumes "core_step e c c'" and inv: "core_inv c"
  shows "core_inv c'"
  using assms(1)
proof cases
  case (fetch b r)
  then show ?thesis using core_inv_fetch [OF inv] by blast
next
  case (deliver r d)
  then show ?thesis using advance_receive_deliver(1) [OF inv] by blast
next
  case (receive_proposal pro u)
  then show ?thesis using core_inv_receive_proposal [OF inv] by blast
next
  case (receive_vote v u)
  then show ?thesis using core_inv_advance [OF inv advance_ops(1)] core_inv_parts(1) [OF inv] by blast
next
  case (propose cmds ps ex r)
  then show ?thesis using core_inv_propose [OF inv] by blast
next
  case (local_order p hs ts)
  then show ?thesis using core_inv_advance [OF inv advance_ops(2)] by simp
next
  case (receive_local_order lo)
  then show ?thesis using core_inv_advance [OF inv advance_ops(3)] by simp
next
  case (order_cmds iter mx now hs)
  then show ?thesis using core_inv_advance [OF inv advance_ops(4)] by blast
next
  case (wait_qc r)
  then show ?thesis using core_inv_advance [OF inv advance_ops(5)] by simp
qed

end
