(* ===== verification/Core_Example.thy ===== *)
theory Core_Example
  imports Core_Facts
begin

text \<open>
  A run of a system of four replicas, seen from replica 0: it starts, proposes a block with one
  command, delivers it and votes for it. The properties are applied to it, so that none of them
  speaks of a state that cannot arise.
\<close>

definition run_env :: env where
  "run_env = \<lparr>e_sha = \<lambda>bs. h256 (of_nat (length bs)), e_sign = \<lambda>h. [], e_mem = \<lambda>i. 0, e_srt = \<lambda>f xs. xs\<rparr>"

lemma run_hash0: "block_genesis (e_sha run_env) True 1 = Inr (block_empty\<lparr>blk_qc := Some (QuorumCertDummy 0), delivered := True, decision := 1, blk_hash := h256 48\<rparr>)"
  by (simp add: block_genesis_def Let_def block_get_hash_def block_serialize_def run_env_def block_empty_def put_vec_def put_all_def ds_put_def ds_put_data_def uint256_serialize_def ds_new_def ds_bytes_def)

definition run_replicas :: "(replica_id \<times> peer_id \<times> pubkey) list" where
  "run_replicas = [(0, [0], [0]), (1, [1], [1]), (2, [2], [2]), (3, [3], [3])]"

definition run_cfg :: replica_config where
  "run_cfg = config_new\<lparr>replica_map := map (\<lambda>(i, p, k). (i, \<lparr>ri_id = i, ri_peer_id = p, ri_pubkey = k\<rparr>)) run_replicas, nreplicas := 4\<rparr>"

definition run_blank :: core where
  "run_blank =
   \<lparr>heap = (\<lambda>_. block_empty)(0 := block_empty\<lparr>blk_qc := Some (QuorumCertDummy 0), delivered := True, decision := 1, blk_hash := h256 48\<rparr>), next_ref = 1, b0 = 0, hqc = None, b_lock = 0, b_exec = 0, vheight = 0, tails = {0},
        config = config_new, qc_waiting = {}, vote_disabled = False, core_id = 0,
        storage = storage_new\<lparr>blk_cache := [(h256 48, 0)]\<rparr>, hg_statics = None, events = []\<rparr>"

lemma run_new: "core_new run_env 0 = Inr run_blank"
  by (simp add: core_new_def run_hash0 run_blank_def add_blk_def map_insert_def storage_new_def)

lemma run_reps: "fold (\<lambda>(i, peer, pk). add_replica i peer pk) run_replicas run_blank
  = upd_blk 0 (\<lambda>b. b\<lparr>voted := {0, 1, 2, 3}\<rparr>) (run_blank\<lparr>config := run_cfg\<rparr>)"
  by (simp add: run_replicas_def add_replica_def upd_blk_def config_add_replica_def map_insert_def config_new_def
   run_blank_def run_cfg_def block_empty_def insert_commute)

definition run_core_qc :: quorum_cert where
  "run_core_qc = QuorumCertSecp256k1 \<lparr>sq_obj_hash = h256 48, sq_rids = \<lparr>bdata = [0], nbits = 4\<rparr>, sq_sigs = []\<rparr>"

definition run_start :: core where
  "run_start = (upd_blk 0 (\<lambda>b. b\<lparr>voted := {0, 1, 2, 3}, blk_qc := Some run_core_qc, self_qc := Some run_core_qc, qc_ref := Some 0\<rparr>) run_blank)
     \<lparr>config := run_cfg\<lparr>nmajority := 3, fairness_parameter := 0, solid_tx_threshold := 2,
        non_blank_tx_threshold := 2, tx_edge_threshold := 6\<rparr>, hqc := Some (0, run_core_qc)\<rparr>"

lemma run_init: "on_init run_env 1 0 0 0 (upd_blk 0 (\<lambda>b. b\<lparr>voted := {0, 1, 2, 3}\<rparr>) (run_blank\<lparr>config := run_cfg\<rparr>)) = run_start"
  by (simp add: on_init_def Let_def upd_blk_def run_blank_def run_start_def run_cfg_def config_new_def
     get_solid_tx_threshold_def get_tx_edge_threshold_def get_non_blank_tx_threshold_def create_quorum_cert_def bits_clear_def bits_new_def
     bits_ndata_def run_core_qc_def run_env_def block_empty_def)

lemma run_core_start: "core_start run_env 0 run_replicas 1 0 0 0 = Inr run_start"
  by (simp add: core_start_def run_new run_reps run_init)

definition run_block :: block where
  "run_block = block_empty\<lparr>parent_hashes := [h256 48], blk_cmds := [h256 1], blk_qc := Some run_core_qc, parents := [0], qc_ref := Some 0, height := 1, blk_hash := h256 120\<rparr>"

lemma run_make: "block_make (e_sha run_env) (heap run_start) [0] [h256 1] run_core_qc [] 1 (Some 0) None 0 = Inr run_block"
  by (simp add: block_make_def Let_def block_get_hash_def block_serialize_def run_env_def block_empty_def put_vec_def put_all_def
      ds_put_def ds_put_data_def uint256_serialize_def ds_new_def ds_bytes_def run_core_qc_def run_block_def run_start_def
      run_blank_def upd_blk_def bits_serialize_def upt_rec bits_get_def)

lemma run_start_simps: "hqc run_start = Some (0, run_core_qc)" "next_ref run_start = 1" "heap run_start 0 = block_empty\<lparr>voted := {0, 1, 2, 3}, blk_qc := Some run_core_qc, self_qc := Some run_core_qc, qc_ref := Some 0, delivered := True, decision := 1, blk_hash := h256 48\<rparr>"
  "storage run_start = storage_new\<lparr>blk_cache := [(h256 48, 0)]\<rparr>" "vheight run_start = 0" "b_lock run_start = 0" "b_exec run_start = 0" "core_id run_start = 0" "events run_start = []" "vote_disabled run_start = False"
  by (simp_all add: run_start_def run_blank_def upd_blk_def)
definition run_made :: "block \<Rightarrow> core" where
  "run_made b = run_start\<lparr>tails := tails run_start - {0}, heap := (heap run_start)(1 := b), next_ref := 2,
     storage := storage_new\<lparr>blk_cache := [(h256 48, 0), (h256 120, 1)]\<rparr>\<rparr>"

lemma run_fetch: "fetch_blk run_block (run_start\<lparr>tails := tails run_start - {0}\<rparr>) = (1, run_made run_block)"
  by (simp add: fetch_blk_def find_blk_def add_blk_def map_insert_def run_start_simps run_made_def run_block_def storage_new_def)

lemma run_made_simps: "heap (run_made b) = (heap run_start)(1 := b)" "next_ref (run_made b) = 2"
   "storage (run_made b) = storage_new\<lparr>blk_cache := [(h256 48, 0), (h256 120, 1)]\<rparr>" 
   "hqc (run_made b) = Some (0, run_core_qc)" "vheight (run_made b) = 0" "b_lock (run_made b) = 0" "b_exec (run_made b) = 0" "core_id (run_made b) = 0" "events (run_made b) = []" "vote_disabled (run_made b) = False"
  by (simp_all add: run_made_def run_start_simps)

lemma run_deliver: "on_deliver_blk 1 (run_made (run_block\<lparr>self_qc := sq\<rparr>)) = 
   Ok True ((run_made (run_block\<lparr>self_qc := sq, delivered := True\<rparr>))\<lparr>tails := insert 1 (tails run_start - {0} - {0})\<rparr>)"
  by (simp add: on_deliver_blk_def run_made_def run_block_def upd_blk_def block_empty_def get_delivered_blk_def find_blk_def storage_new_def
    run_start_simps Let_def run_core_qc_def deliver_done_def)
lemma run_update: "update 1 ((run_made (run_block\<lparr>self_qc := sq, delivered := True\<rparr>))\<lparr>tails := t\<rparr>) =
   Ok () ((run_made (run_block\<lparr>self_qc := sq, delivered := True\<rparr>))\<lparr>tails := t\<rparr>)"
  by (simp add: update_def run_made_def run_block_def block_empty_def run_start_simps Let_def storage_new_def remove_local_order_seen_propose_level_def seen_remove_def)
lemma run_receive: "on_receive_proposal run_env \<lparr>prop_proposer = 0, prop_blk = 1\<rparr> ((run_made (run_block\<lparr>self_qc := sq, delivered := True\<rparr>))\<lparr>tails := t\<rparr>) =
   Ok () ((run_made (run_block\<lparr>self_qc := sq, delivered := True\<rparr>))\<lparr>tails := t, vheight := 1,
     events := [Resolve_Receive_Proposal \<lparr>prop_proposer = 0, prop_blk = 1\<rparr>, Do_Vote 0 \<lparr>voter = 0, vote_blk_hash = h256 120, vote_cert = PartCertSecp256k1 (h256 120) []\<rparr>]\<rparr>)"
  by (simp add: on_receive_proposal_def run_made_def run_block_def block_empty_def run_start_simps Let_def vote_opinion_def
   emit_def walk_down_def create_part_cert_def run_env_def)

lemma run_made_upd: "upd_blk 1 f (run_made b) = run_made (f b)"
  by (simp add: upd_blk_def run_made_def)

lemma run_block_simps: "blk_hash run_block = h256 120" "height run_block = 1"
  by (simp_all add: run_block_def)

definition run_block_qc :: quorum_cert where
  "run_block_qc = QuorumCertSecp256k1 \<lparr>sq_obj_hash = h256 120, sq_rids = \<lparr>bdata = [0], nbits = 4\<rparr>, sq_sigs = []\<rparr>"

definition run_proposed :: core where
  "run_proposed = (run_made (run_block\<lparr>self_qc := Some run_block_qc, delivered := True\<rparr>))\<lparr>tails := {1}, vheight := 1,
     events := [Resolve_Receive_Proposal \<lparr>prop_proposer = 0, prop_blk = 1\<rparr>,
       Do_Vote 0 \<lparr>voter = 0, vote_blk_hash = h256 120, vote_cert = PartCertSecp256k1 (h256 120) []\<rparr>,
       Resolve_Propose \<lparr>prop_proposer = 0, prop_blk = 1\<rparr>,
       Do_Broadcast_Proposal \<lparr>prop_proposer = 0, prop_blk = 1\<rparr>]\<rparr>"

lemma run_propose: "on_propose run_env [h256 1] [0] [] run_start = Ok 1 run_proposed"
proof -
  have make: "block_make (e_sha run_env) (heap (run_start\<lparr>tails := tails run_start - {0}\<rparr>)) [0] [h256 1] run_core_qc []
     (height (heap (run_start\<lparr>tails := tails run_start - {0}\<rparr>) 0) + 1) (Some 0) None 0 = Inr run_block"
    using run_make by (simp add: run_start_simps block_empty_def)
  have hq: "hqc (run_start\<lparr>tails := tails run_start - {0}\<rparr>) = Some (0, run_core_qc)"
    by (simp add: run_start_simps)
  have s0: "set [0::ref] = {0}"
    by simp
  have "create_quorum_cert (e_mem run_env) (config (run_made run_block)) (h256 120) = run_block_qc"
    by (simp add: create_quorum_cert_def run_made_def run_start_def run_cfg_def config_new_def bits_clear_def
        bits_new_def bits_ndata_def run_block_qc_def upd_blk_def)
  then show ?thesis
    unfolding on_propose_def list.case Let_def s0 hq option.case prod.case make sum.case run_fetch run_made_upd
      run_block_simps run_deliver run_made_simps(8) res_bind.simps run_update run_receive
    by (simp add: emit_def run_made_simps run_block_def run_proposed_def run_start_def run_blank_def upd_blk_def)
qed

lemma run_proposed_votes:
  "votes_of (events run_proposed)
    = [(0, \<lparr>voter = 0, vote_blk_hash = h256 120, vote_cert = PartCertSecp256k1 (h256 120) []\<rparr>)]"
  by (simp add: run_proposed_def votes_of_def map_filter_simps)

subsection \<open>A block from another replica\<close>

definition run_wire :: block where
  "run_wire = run_block\<lparr>parents := [], qc_ref := None, height := 0\<rparr>"

definition run_fetched :: core where
  "run_fetched = (run_made run_wire)\<lparr>tails := {0}\<rparr>"

definition run_delivered :: core where
  "run_delivered = (run_made (run_block\<lparr>delivered := True\<rparr>))\<lparr>tails := {1}\<rparr>"

definition run_voted :: core where
  "run_voted = run_delivered\<lparr>vheight := 1,
     events := [Resolve_Receive_Proposal \<lparr>prop_proposer = 2, prop_blk = 1\<rparr>,
       Do_Vote 2 \<lparr>voter = 0, vote_blk_hash = h256 120, vote_cert = PartCertSecp256k1 (h256 120) []\<rparr>]\<rparr>"

lemma run_start_tails: "tails run_start = {0}"
  by (simp add: run_start_def run_blank_def upd_blk_def)

lemma run_wire_fetch: "fetch_blk run_wire run_start = (1, run_fetched)"
  by (simp add: fetch_blk_def find_blk_def add_blk_def map_insert_def run_start_simps run_made_def run_wire_def
      run_block_def storage_new_def run_fetched_def run_start_tails [symmetric])

lemma run_wire_deliver: "on_deliver_blk 1 run_fetched = Ok True run_delivered"
  by (simp add: on_deliver_blk_def run_made_def run_wire_def run_block_def upd_blk_def block_empty_def get_delivered_blk_def
      find_blk_def storage_new_def run_start_simps Let_def run_core_qc_def deliver_done_def run_fetched_def run_delivered_def)

lemma run_wire_receive: "on_receive_proposal run_env \<lparr>prop_proposer = 2, prop_blk = 1\<rparr> run_delivered = Ok () run_voted"
  by (simp add: on_receive_proposal_def run_made_def run_block_def block_empty_def run_start_simps Let_def
      vote_opinion_def emit_def walk_down_def create_part_cert_def run_env_def run_delivered_def run_voted_def
      update_def storage_new_def remove_local_order_seen_propose_level_def seen_remove_def on_qc_finish_def run_start_def run_blank_def upd_blk_def
      update_hqc_def update_lock_def)

subsection \<open>A vote that is counted\<close>

definition run_vote :: vote where
  "run_vote = \<lparr>voter = 2, vote_blk_hash = h256 120, vote_cert = PartCertSecp256k1 (h256 120) []\<rparr>"

definition run_counted :: core where
  "run_counted = upd_blk 1 (\<lambda>b. b\<lparr>voted := {2}, self_qc := Some (QuorumCertSecp256k1 \<lparr>sq_obj_hash = h256 120,
     sq_rids = \<lparr>bdata = [4], nbits = 4\<rparr>, sq_sigs = [(2, [])]\<rparr>)\<rparr>) run_proposed"

lemma run_vote_block: "get_delivered_blk (vote_blk_hash run_vote) run_proposed = Inr 1"
  by (simp add: get_delivered_blk_def find_blk_def run_vote_def run_proposed_def run_made_simps storage_new_def)

lemma run_vote_counts: "on_receive_vote run_env run_vote run_proposed = Ok () run_counted"
  unfolding on_receive_vote_def run_vote_block sum.case Let_def
  by (simp add: run_counted_def run_proposed_def run_vote_def upd_blk_def run_made_def run_block_def block_empty_def run_block_qc_def bits_set_def run_start_def map_insert_def)

subsection \<open>A tower of certified blocks\<close>

definition link :: "ref \<Rightarrow> u32 \<Rightarrow> block" where
  "link r h = block_empty\<lparr>parents := [r], qc_ref := Some r, blk_qc := Some run_core_qc, height := h, delivered := True\<rparr>"

definition run_tower :: core where
  "run_tower = run_start\<lparr>heap := (heap run_start)(1 := link 0 1, 2 := link 1 2, 3 := link 2 3, 4 := link 3 4), next_ref := 5\<rparr>"

lemma run_tower_heap: "heap run_tower 0 = heap run_start 0" "heap run_tower 1 = link 0 1" "heap run_tower 2 = link 1 2" "heap run_tower 3 = link 2 3" "heap run_tower 4 = link 3 4"
  "next_ref run_tower = 5" "b0 run_tower = 0" "b_exec run_tower = 0"
  by (simp_all add: run_tower_def run_start_def run_blank_def upd_blk_def)

lemma run_tower_wf: "tree_wf run_tower"
proof -
  have "blk_wf (heap run_tower) 5 0 r" if "r < 5" for r
  proof -
    from that have "r = 0 \<or> r = 1 \<or> r = 2 \<or> r = 3 \<or> r = 4" by auto
    then show ?thesis
      by (elim disjE) (simp_all add: blk_wf_def run_tower_heap link_def block_empty_def run_start_simps del: One_nat_def)
  qed
  moreover have "map_of (blk_cache (storage run_tower)) h = Some x \<longrightarrow> x < 5" for h x
    by (simp add: run_tower_def run_start_simps)
  ultimately show ?thesis
    unfolding tree_wf_def run_tower_heap by (auto simp: run_start_simps block_empty_def)
qed

lemma run_tower_simps: "hqc run_tower = Some (0, run_core_qc)" "b_lock run_tower = 0"
  "heap (run_tower\<lparr>storage := st, b_lock := l, hqc := q, events := ev\<rparr>) = heap run_tower"
   "heap (emit e c) = heap c" "b_lock (emit e c) = b_lock c" "b_exec (emit e c) = b_exec c" 
  by (simp_all add: run_tower_def run_start_simps emit_def)
lemma run_tower_walk: "walk 2 (heap run_tower) 0 1 = Inr ([1], 0)"
  by (simp add: numeral_2_eq_2 run_tower_heap [simplified] link_def block_empty_def run_start_simps)

lemma run_tower_update: "\<exists>c. update 4 run_tower = Ok () c \<and> b_exec c = 1"
  by (simp add: update_def Let_def run_tower_heap link_def block_empty_def run_tower_simps run_start_simps
     update_hqc_def update_lock_def update_commit_def first_parent_def commit_chain_def walk_down_def
     run_tower_walk commit_blk_spec(2) del: One_nat_def)

end
