(* ===== verification/Replica_Safety.thy ===== *)
theory Replica_Safety
  imports Core_Steps Core_Example
begin

text \<open>
  The reachable states of one replica's core and its safety properties: one vote per height, one
  chain of executed blocks, rising lock, certificate and vote height, the voting rule, the
  three-chain commit rule, and the loops that end.
\<close>

subsection \<open>Reachability\<close>

inductive core_reachable :: "env \<Rightarrow> core \<Rightarrow> bool" for e :: env where
  start: "core_start e rid reps nfaulty fair gen net = Inr c \<Longrightarrow> core_reachable e c"
| step: "core_reachable e c \<Longrightarrow> core_step e c c' \<Longrightarrow> core_reachable e c'"

definition fresh_core :: "core \<Rightarrow> bool" where
  "fresh_core c \<longleftrightarrow>
     next_ref c = 1 \<and> b0 c = 0 \<and> b_lock c = 0 \<and> b_exec c = 0 \<and> events c = [] \<and>
     delivered (blk c 0) \<and> height (blk c 0) = 0 \<and> qc_ref (blk c 0) = None \<and>
     (\<forall>h r. map_of (blk_cache (storage c)) h = Some r \<longrightarrow> r = 0)"

lemma fresh_core_new:
  assumes "core_new e rid = Inr c"
  shows "fresh_core c"
proof -
  obtain g where g: "block_genesis (e_sha e) True 1 = Inr g"
    using assms by (cases "block_genesis (e_sha e) True 1") (simp_all add: core_new_def)
  then have "delivered g" "height g = 0" "qc_ref g = None"
    by (auto simp: block_genesis_def block_empty_def Let_def elim!: map_sum_InrE)
  with assms g show ?thesis
    by (auto simp: core_new_def fresh_core_def Let_def add_blk_def storage_new_def map_insert_def split: if_splits)
qed

lemma fresh_add_replica: "fresh_core c \<Longrightarrow> fresh_core (add_replica rid peer pk c)"
  by (simp add: fresh_core_def add_replica_def upd_blk_def)

lemma fresh_add_replicas: "fresh_core c \<Longrightarrow> fresh_core (fold (\<lambda>(i, peer, pk). add_replica i peer pk) reps c)"
  by (induction reps arbitrary: c) (auto intro: fresh_add_replica)

lemma fresh_on_init:
  assumes "fresh_core c"
  shows "core_inv (on_init e nfaulty fair gen net c)"
proof -
  let ?c = "on_init e nfaulty fair gen net c"
  have f: "next_ref c = 1" "b0 c = 0" "b_lock c = 0" "b_exec c = 0" "events c = []" "delivered (blk c 0)"
    "height (blk c 0) = 0" "\<forall>h r. map_of (blk_cache (storage c)) h = Some r \<longrightarrow> r = 0"
    using assms by (simp_all add: fresh_core_def)
  obtain q where h: "hqc ?c = Some (0, q)"
    by (simp add: on_init_def f(2) Let_def)
  have i: "next_ref ?c = 1" "b0 ?c = 0" "b_lock ?c = 0" "b_exec ?c = 0" "events ?c = []"
    "delivered (blk ?c 0)" "height (blk ?c 0) = 0" "qc_ref (blk ?c 0) = Some 0" "storage ?c = storage c"
    using f by (simp_all add: on_init_def Let_def upd_blk_def)
  have "tree_wf ?c"
    using i f(8) by (auto simp: tree_wf_def blk_wf_def)
  moreover have "refs_ok ?c"
    using i h by (simp add: refs_ok_def)
  moreover have "vote_log ?c []"
    by (simp add: vote_log_def i)
  moreover have "exec_log ?c"
    by (simp add: exec_log_def i chain_def block_finalities_def)
  ultimately show ?thesis
    unfolding core_inv_def by blast
qed

lemma core_inv_start:
  assumes "core_start e rid reps nfaulty fair gen net = Inr c"
  shows "core_inv c"
proof -
  obtain c0 where "core_new e rid = Inr c0"
    "c = on_init e nfaulty fair gen net (fold (\<lambda>(i, peer, pk). add_replica i peer pk) reps c0)"
    using assms by (cases "core_new e rid") (simp_all add: core_start_def)
  then show ?thesis
    using fresh_on_init [OF fresh_add_replicas [OF fresh_core_new]] by blast
qed

lemma core_reachable_inv: "core_reachable e c \<Longrightarrow> core_inv c"
  by (induction rule: core_reachable.induct) (auto intro: core_inv_start core_step_inv)

text \<open>The example run is one of the reachable states.\<close>

lemma run_reachable: "core_reachable run_env run_start" "core_reachable run_env run_proposed"
proof -
  show s: "core_reachable run_env run_start"
    by (rule core_reachable.start [OF run_core_start])
  have "no_overflow run_start"
    by (simp add: no_overflow_def run_start_simps block_empty_def)
  then show "core_reachable run_env run_proposed"
    by (intro core_reachable.step [OF s] core_step.propose [OF _ run_propose])
qed
lemma run_proposed_next: "next_ref run_proposed = 2"
  by (simp add: run_proposed_def run_made_simps)

lemma run_delivered_reachable: "core_reachable run_env run_delivered"
proof -
  have "core_step run_env run_start run_fetched"
    by (rule core_step.fetch [OF _ run_wire_fetch]) (simp add: wire_block_def run_wire_def run_block_def block_empty_def)
  moreover have "core_step run_env run_fetched run_delivered"
  proof (rule core_step.deliver [OF _ _ run_wire_deliver])
    show "1 < next_ref run_fetched"
      by (simp add: run_fetched_def run_made_simps)
    show "no_overflow run_fetched"
      by (auto simp: no_overflow_def run_fetched_def run_made_simps run_wire_def run_block_def block_empty_def run_start_simps less_2_cases_iff)
  qed
  ultimately show ?thesis
    using run_reachable(1) core_reachable.step by blast
qed

subsection \<open>Votes\<close>

text \<open>
  C6: a replica votes at strictly increasing heights, so never for two blocks of one height, and
  every block it votes for has been delivered and stands at most at \<open>vheight\<close>.
\<close>

theorem votes_increase:
  assumes "core_reachable e c"
  shows "\<exists>rs. map (\<lambda>(p, v). vote_blk_hash v) (votes_of (events c)) = map (\<lambda>r. blk_hash (blk c r)) rs \<and>
    (\<forall>r \<in> set rs. delivered (blk c r) \<and> height (blk c r) \<le> vheight c) \<and>
    sorted_wrt (\<lambda>r s. height (blk c r) < height (blk c s)) rs"
  using core_inv_parts(3) [OF core_reachable_inv [OF assms]] unfolding vote_log_def by blast

theorem votes_increase_witness:
  "length (votes_of (events run_proposed)) = 1 \<and> (\<exists>rs.
    map (\<lambda>(p, v). vote_blk_hash v) (votes_of (events run_proposed)) = map (\<lambda>r. blk_hash (blk run_proposed r)) rs)"
  using votes_increase [OF run_reachable(2)] by (intro conjI) (simp add: run_proposed_votes, blast)

subsection \<open>Execution\<close>

lemma chain_heights:
  assumes wf: "tree_wf c"
  shows "chain (heap c) (x # rs) \<Longrightarrow> \<forall>r \<in> set rs. r < next_ref c \<and> delivered (blk c r) \<and> 0 < height (blk c r) \<Longrightarrow>
    sorted_wrt (\<lambda>r s. height (blk c r) < height (blk c s)) (x # rs)"
proof (induction rs arbitrary: x)
  case Nil
  then show ?case by simp
next
  case (Cons r rs)
  have ch: "first_parent (blk c r) = Some x" "chain (heap c) (r # rs)"
    using Cons.prems(1) by (simp_all add: chain_def)
  have "blk_wf (heap c) (next_ref c) (b0 c) r" "delivered (blk c r)" "0 < height (blk c r)"
    using wf Cons.prems(2) by (simp_all add: tree_wf_def)
  then have "unat (height (blk c r)) = Suc (unat (height (blk c x)))"
    using ch(1) by (auto simp: blk_wf_def first_parent_def)
  then have lt: "height (blk c x) < height (blk c r)"
    by (simp add: word_less_nat_alt)
  have "sorted_wrt (\<lambda>r s. height (blk c r) < height (blk c s)) (r # rs)"
    using Cons.IH [OF ch(2)] Cons.prems(2) by simp
  with lt show ?case
    by (auto intro: less_trans)
qed

lemma executed_blocks:
  assumes "core_inv c"
  shows "chain (heap c) (b0 c # commits_of (events c)) \<and>
    last (b0 c # commits_of (events c)) = b_exec c \<and> distinct (b0 c # commits_of (events c)) \<and>
    map cmd_hash (decides_of (events c)) = concat (map (\<lambda>r. blk_cmds (blk c r)) (commits_of (events c)))"
proof -
  have ex: "exec_log c"
    by (rule core_inv_parts(4) [OF assms])
  then have "sorted_wrt (\<lambda>r s. height (blk c r) < height (blk c s)) (b0 c # commits_of (events c))"
    unfolding exec_log_def by (intro chain_heights [OF core_inv_parts(1) [OF assms]]) blast+
  then have "distinct (b0 c # commits_of (events c))"
    unfolding distinct_conv_nth sorted_wrt_iff_nth_less by (metis less_irrefl linorder_neqE_nat)
  moreover have "map cmd_hash (block_finalities c rs) = concat (map (\<lambda>r. blk_cmds (blk c r)) rs)" for rs
    by (simp add: block_finalities_def map_concat comp_def finalities_cmds)
  ultimately show ?thesis
    using ex unfolding exec_log_def by simp
qed

text \<open>
  C7: what a replica has executed is one chain of first parents from the genesis block up to
  \<open>b_exec\<close>, no block twice, and the commands it has decided are those of these blocks, in order.
\<close>

theorem executed_chain:
  assumes "core_reachable e c"
  shows "chain (heap c) (b0 c # commits_of (events c)) \<and>
    last (b0 c # commits_of (events c)) = b_exec c \<and> distinct (b0 c # commits_of (events c)) \<and>
    map cmd_hash (decides_of (events c)) = concat (map (\<lambda>r. blk_cmds (blk c r)) (commits_of (events c)))"
  using executed_blocks [OF core_reachable_inv [OF assms]] .

theorem executed_chain_witness:
  "b_exec run_proposed = 0 \<and> distinct (b0 run_proposed # commits_of (events run_proposed))"
  using executed_chain [OF run_reachable(2)] by (simp add: run_proposed_def run_made_simps)

subsection \<open>Monotonicity\<close>

definition rises :: "core \<Rightarrow> core \<Rightarrow> bool" where
  "rises c c' \<longleftrightarrow>
     vheight c \<le> vheight c' \<and> height (blk c (b_lock c)) \<le> height (blk c' (b_lock c')) \<and>
     (\<forall>h q. hqc c = Some (h, q) \<longrightarrow> (\<exists>h' q'. hqc c' = Some (h', q') \<and> height (blk c h) \<le> height (blk c' h'))) \<and>
     (\<exists>rs. commits_of (events c') = commits_of (events c) @ rs)"

lemma rises_refl [simp]: "rises c c"
  by (simp add: rises_def)

lemma rises_trans:
  assumes "rises a b" and "rises b c"
  shows "rises a c"
proof -
  have "\<exists>h' q'. hqc c = Some (h', q') \<and> height (blk a h) \<le> height (blk c h')" if "hqc a = Some (h, q)" for h q
    using assms that unfolding rises_def by (meson order_trans)
  then show ?thesis
    using assms unfolding rises_def by (auto intro: order_trans)
qed

lemma higher_le: "higher c x y \<Longrightarrow> height (blk c x) \<le> height (blk c y)"
  by (auto simp: higher_def)

lemma rises_advance:
  assumes a: "advance c c'"
  shows "rises c c'"
proof -
  note k = advance_keeps [OF a]
  have "height (blk c (b_lock c)) \<le> height (blk c' (b_lock c'))"
    using a by (simp add: advance_def keeps_blk [OF k] higher_le)
  moreover have "\<exists>h' q'. hqc c' = Some (h', q') \<and> height (blk c h) \<le> height (blk c' h')" if "hqc c = Some (h, q)" for h q
    using a that higher_le unfolding keeps_blk [OF k] advance_def by meson
  ultimately show ?thesis
    using a by (auto simp: rises_def advance_def)
qed

lemma rises_grows:
  assumes g: "grows c c'" and ok: "refs_ok c"
  shows "rises c c'"
proof -
  have same: "b_lock c' = b_lock c" "hqc c' = hqc c" "vheight c' = vheight c" "events c' = events c"
    using g by (simp_all add: grows_def)
  have "height (blk c' r) = height (blk c r)" if "r < next_ref c" "delivered (blk c r)" for r
    using grows_blk(2) [OF g that] .
  then show ?thesis
    using ok by (auto simp: rises_def refs_ok_def same)
qed

lemma rises_vheight: "vheight c \<le> h \<Longrightarrow> rises c (c\<lparr>vheight := h\<rparr>)"
  by (simp add: rises_def)

lemma rises_vote: "rises c (emit (Do_Vote p v) c)"
  by (simp add: rises_def emit_def)

lemma rises_receive_proposal:
  assumes wf: "tree_wf c" and r: "prop_blk pro < next_ref c" and ok: "on_receive_proposal e pro c = Ok u c'"
  shows "rises c c'"
proof -
  obtain c1 c2 c4 op where a1: "advance c c1" and v: "vote_opinion (prop_blk pro) c1 = Ok op c2"
    and a4: "advance c2 c4" and "heap c4 = heap c2" "b_lock c4 = b_lock c2" "next_ref c4 = next_ref c2"
    and c': "c' = (if op \<and> \<not> vote_disabled c4 then emit (proposal_vote e pro c4) c4 else c4)"
    by (rule on_receive_proposal_cases [OF wf r ok])
  have "rises c1 c2"
    using v by (cases rule: vote_opinion_cases) (simp_all add: rises_vheight)
  moreover have "rises c4 c'"
    by (simp add: c' proposal_vote_def rises_vote)
  ultimately show ?thesis
    using rises_advance [OF a1] rises_advance [OF a4] by (blast intro: rises_trans)
qed

lemma rises_step:
  assumes inv: "core_inv c" and st: "core_step e c c'"
  shows "rises c c'"
  using st
proof cases
  case (fetch b r)
  from fetch(2) show ?thesis
  proof (cases rule: fetch_blk_cases)
    case new
    then have "grows c c'"
      using fetch(1) core_inv_parts(1) [OF inv] by (intro fetch_blk_new(2) [OF _ _ _ _ new(3)]) (simp_all add: wire_block_def)
    then show ?thesis
      by (rule rises_grows [OF _ core_inv_parts(2) [OF inv]])
  qed simp
next
  case (deliver r d)
  then show ?thesis
    using rises_grows [OF advance_receive_deliver(2) [OF inv]] core_inv_parts(2) [OF inv] by blast
next
  case (receive_proposal pro u)
  then show ?thesis
    using rises_receive_proposal core_inv_parts(1) [OF inv] by blast
next
  case (receive_vote v u)
  then show ?thesis
    using rises_advance advance_ops(1) core_inv_parts(1) [OF inv] by blast
next
  case (propose cmds ps ex r)
  obtain ct c2 c3 c4 pro u5 c5 where p: "advance c ct" "advance ct c2" "grows c2 c3" "core_inv c3" "advance c3 c4"
    "prop_blk pro = r" "r < next_ref c4" "on_receive_proposal e pro c4 = Ok u5 c5" "advance c5 c'"
    by (rule on_propose_cases [OF inv propose])
  have "core_inv c2" "core_inv c4"
    using core_inv_advance inv p(1,2,4,5) by blast+
  then have "rises c2 c3" "rises c4 c5"
    using rises_grows [OF p(3)] rises_receive_proposal [OF _ _ p(8)] core_inv_parts p(6,7) by simp_all
  then show ?thesis
    using p(1,2,5,9) rises_advance rises_trans by meson
next
  case (local_order p hs ts)
  then show ?thesis using rises_advance advance_ops(2) by simp
next
  case (receive_local_order lo)
  then show ?thesis using rises_advance advance_ops(3) by simp
next
  case (order_cmds iter mx now hs)
  then show ?thesis using rises_advance advance_ops(4) by blast
next
  case (wait_qc r)
  then show ?thesis using rises_advance advance_ops(5) by simp
qed

text \<open>
  C11: along every run \<open>vheight\<close>, the height of the lock and the height of the highest certificate
  never fall, and committed blocks stay committed.
\<close>

theorem run_rises:
  assumes "core_reachable e c" and "(core_step e)\<^sup>*\<^sup>* c c'"
  shows "vheight c \<le> vheight c' \<and> height (blk c (b_lock c)) \<le> height (blk c' (b_lock c')) \<and>
    (\<forall>h q. hqc c = Some (h, q) \<longrightarrow> (\<exists>h' q'. hqc c' = Some (h', q') \<and> height (blk c h) \<le> height (blk c' h'))) \<and>
    (\<exists>rs. commits_of (events c') = commits_of (events c) @ rs)"
proof -
  have "core_reachable e c' \<and> rises c c'"
    using assms(2)
  proof (induction rule: rtranclp_induct)
    case base
    with assms(1) show ?case by simp
  next
    case (step d d')
    then show ?case
      using rises_step [OF core_reachable_inv] rises_trans core_reachable.step by blast
  qed
  then show ?thesis
    by (simp add: rises_def)
qed

theorem run_rises_witness:
  "vheight run_start = 0 \<and> vheight run_proposed = 1 \<and> vheight run_start \<le> vheight run_proposed"
proof -
  have "core_step run_env run_start run_proposed"
    by (intro core_step.propose [OF _ run_propose]) (simp add: no_overflow_def run_start_simps block_empty_def)
  then have "vheight run_start \<le> vheight run_proposed"
    using run_rises [OF run_reachable(1), of run_proposed] by blast
  then show ?thesis
    by (simp add: run_start_simps run_proposed_def)
qed

subsection \<open>The voting rule\<close>

text \<open>
  C9: a vote is cast only for the proposed block, above every height voted for before, and only if
  the certificate of the block is higher than the lock or the lock is an ancestor of the block.
\<close>

theorem vote_respects_lock:
  assumes "core_reachable e c" and "prop_blk pro < next_ref c" and "on_receive_proposal e pro c = Ok u c'"
    and "votes_of (events c') \<noteq> votes_of (events c)"
  shows "votes_of (events c') = votes_of (events c) @
      [(prop_proposer pro, \<lparr>voter = core_id c', vote_blk_hash = blk_hash (blk c' (prop_blk pro)),
        vote_cert = create_part_cert e (blk_hash (blk c' (prop_blk pro)))\<rparr>)] \<and>
    vheight c < height (blk c (prop_blk pro)) \<and> vheight c' = height (blk c (prop_blk pro)) \<and>
    ((\<exists>q. qc_ref (blk c' (prop_blk pro)) = Some q \<and> height (blk c' (b_lock c')) < height (blk c' q)) \<or>
     (\<exists>bs. chain (heap c') (b_lock c' # bs) \<and> last (b_lock c' # bs) = prop_blk pro))"
proof -
  let ?r = "prop_blk pro"
  have inv: "core_inv c"
    by (rule core_reachable_inv [OF assms(1)])
  obtain c1 c2 c4 op where a1: "advance c c1" and v: "vote_opinion ?r c1 = Ok op c2"
    and a4: "advance c2 c4" and same: "heap c4 = heap c2" "b_lock c4 = b_lock c2" "next_ref c4 = next_ref c2"
    and c': "c' = (if op \<and> \<not> vote_disabled c4 then emit (proposal_vote e pro c4) c4 else c4)"
    by (rule on_receive_proposal_cases [OF core_inv_parts(1) [OF inv] assms(2,3)])
  note k1 = advance_keeps [OF a1]
  have votes: "votes_of (events c1) = votes_of (events c)" "votes_of (events c4) = votes_of (events c2)"
    using a1 a4 by (simp_all add: advance_def)
  have op: "op" "vheight c1 < height (blk c1 ?r)" "c2 = c1\<lparr>vheight := height (blk c1 ?r)\<rparr>"
  proof -
    have "op"
    proof (rule ccontr)
      assume "\<not> op"
      then have "c2 = c1" and "c' = c4"
        using v c' by (auto elim: vote_opinion_cases)
      with votes assms(4) show False by simp
    qed
    with v show "op" "vheight c1 < height (blk c1 ?r)" "c2 = c1\<lparr>vheight := height (blk c1 ?r)\<rparr>"
      by (auto elim: vote_opinion_cases)
  qed
  have heap: "heap c' = heap c1" "b_lock c' = b_lock c1"
    using same by (simp_all add: c' op(3) proposal_vote_def emit_def)
  have "vheight c4 = vheight c2" "vheight c1 = vheight c"
    using a1 a4 by (simp_all add: advance_def)
  then have vh: "vheight c' = height (blk c1 ?r)" "vheight c1 = vheight c"
    by (simp_all add: c' op(3) proposal_vote_def emit_def)
  have "votes_of (events c4) = votes_of (events c)"
    using votes by (simp add: op(3))
  then have ev: "votes_of (events c') = votes_of (events c) @
      [(prop_proposer pro, \<lparr>voter = core_id c', vote_blk_hash = blk_hash (blk c' ?r),
        vote_cert = create_part_cert e (blk_hash (blk c' ?r))\<rparr>)]"
    using assms(4) op(1) by (auto simp: c' proposal_vote_def emit_def)
  have r1: "?r < next_ref c1"
    using assms(2) by (simp add: keeps_blk [OF k1])
  have "(\<exists>q. qc_ref (blk c1 ?r) = Some q \<and> height (blk c1 (b_lock c1)) < height (blk c1 q)) \<or>
      (\<exists>bs. chain (heap c1) (b_lock c1 # bs) \<and> last (b_lock c1 # bs) = ?r)"
  proof (cases "\<exists>q. qc_ref (blk c1 ?r) = Some q \<and> height (blk c1 (b_lock c1)) < height (blk c1 q)")
    case False
    then have no: "\<not> (case qc_ref (blk c1 ?r) of Some q \<Rightarrow> height (blk c1 (b_lock c1)) < height (blk c1 q) | None \<Rightarrow> False)"
      by (simp split: option.split)
    obtain bs z where w: "walk_down (heap c1) (height (blk c1 (b_lock c1))) ?r = Inr (bs, z)"
      "chain (heap c1) (z # rev bs)" "last (z # rev bs) = ?r"
      by (rule walk_down_ok [OF core_inv_parts(1) [OF core_inv_advance [OF inv a1]] r1])
    have "z = b_lock c1"
      using v op(1,2) no by (simp add: vote_opinion_def w(1) split: if_splits)
    with w show ?thesis by blast
  qed simp
  then show ?thesis
    using ev vh op(2) by (simp add: heap keeps_blk [OF k1])
qed

theorem vote_respects_lock_witness:
  "vheight run_delivered < height (blk run_delivered 1) \<and> length (votes_of (events run_voted)) = 1"
proof -
  have "votes_of (events run_voted) \<noteq> votes_of (events run_delivered)"
    by (simp add: run_voted_def run_delivered_def run_made_simps votes_of_def map_filter_simps)
  moreover have "prop_blk \<lparr>prop_proposer = 2, prop_blk = 1\<rparr> < next_ref run_delivered"
    by (simp add: run_delivered_def run_made_simps)
  ultimately show ?thesis
    using vote_respects_lock [OF run_delivered_reachable _ run_wire_receive] by (simp add: run_delivered_def run_made_simps)
qed

subsection \<open>The commit rule\<close>

lemma update_hqc_Ok:
  assumes "update_hqc r qc c = Ok u c'"
  obtains h q where "hqc c = Some (h, q)"
    "c' = (if height (blk c h) < height (blk c r) then emit Resolve_Hqc_Update (c\<lparr>hqc := Some (r, the qc)\<rparr>) else c)"
  using assms by (auto simp: update_hqc_def split: option.splits if_splits)

lemma update_hqc_keeps:
  assumes "update_hqc r qc c = Ok u c'"
  shows "heap c' = heap c" "b_exec c' = b_exec c" "b_lock c' = b_lock c"
  by (rule update_hqc_Ok [OF assms], simp add: emit_def)+

lemma commit_chain_exec:
  assumes "tree_wf d" and "heap c = heap d" and "b < next_ref d" and "commit_chain b c = Ok u c'"
  shows "b_exec c' = b" and "b_lock c' = b_lock c"
proof -
  obtain bs z where w: "walk_down (heap c) (height (blk c (b_exec c))) b = Inr (bs, z)" "last (z # rev bs) = b"
    using walk_down_ok [OF assms(1,3)] assms(2) by metis
  have "(if z \<noteq> b_exec c then Exc (Runtime_Error ''safety breached'') c else Ok () (fold commit_blk (rev bs) c)) = Ok u c'"
    using assms(4) by (simp only: commit_chain_def w(1) sum.case prod.case)
  then have "z = b_exec c" "c' = fold commit_blk (rev bs) c"
    by (metis res.distinct(1) res.inject(1))+
  then show "b_exec c' = b" and "b_lock c' = b_lock c"
    using fold_commit_spec [where rs = "rev bs" and c = c] w(2) by simp_all
qed

text \<open>
  What a successful \<open>update\<close> does to the lock and to the executed block: nothing; or it moves the lock
  to the block two certificates below, if this is higher; or it also commits the block three below.
\<close>

lemma update_cases:
  assumes wf: "tree_wf c" and r: "r < next_ref c" and up: "update r c = Ok u c'"
  obtains (quiet) "b_lock c' = b_lock c" "b_exec c' = b_exec c"
      "\<And>y g. qc_ref (blk c r) = Some y \<Longrightarrow> qc_ref (blk c y) = Some g \<Longrightarrow> decision (blk c y) \<noteq> 0 \<or> decision (blk c g) \<noteq> 0"
  | (lock) y g where "qc_ref (blk c r) = Some y" "qc_ref (blk c y) = Some g"
      "b_lock c' = (if height (blk c (b_lock c)) < height (blk c g) then g else b_lock c)" "b_exec c' = b_exec c"
  | (commit) y g b where "qc_ref (blk c r) = Some y" "qc_ref (blk c y) = Some g"
      "b_lock c' = (if height (blk c (b_lock c)) < height (blk c g) then g else b_lock c)" "b_exec c' = b"
      "qc_ref (blk c g) = Some b" "first_parent (blk c y) = Some g" "first_parent (blk c g) = Some b"
      "decision (blk c b) = 0"
proof -
  define c0 where "c0 = c\<lparr>storage := fold remove_local_order_seen_propose_level (blk_cmds (blk c r)) (storage c)\<rparr>"
  have k0: "heap c0 = heap c" "b_exec c0 = b_exec c" "b_lock c0 = b_lock c"
    by (simp_all add: c0_def)
  consider "c' = c0" "\<And>y. qc_ref (blk c r) = Some y \<Longrightarrow> decision (blk c y) \<noteq> 0"
    | y c1 u1 where "qc_ref (blk c r) = Some y" "update_hqc y (blk_qc (blk c r)) c0 = Ok u1 c1" "update_lock y c1 = Ok u c'"
    using up unfolding update_def Let_def c0_def [symmetric] k0
    by (auto split: option.splits if_splits elim!: res_bind_OkE)
  then show thesis
  proof cases
    case 1
    then show thesis by (intro quiet) (simp_all add: k0)
  next
    case (2 y c1 u1)
    have k1: "heap c1 = heap c" "b_exec c1 = b_exec c" "b_lock c1 = b_lock c"
      using update_hqc_keeps [OF 2(2)] k0 by simp_all
    show thesis
    proof (cases "\<exists>g. qc_ref (blk c y) = Some g \<and> decision (blk c g) = 0")
      case False
      then have "c' = c1"
        using 2(3) unfolding update_lock_def k1(1) by (auto split: option.splits)
      with False 2(1) show thesis by (intro quiet) (auto simp: k1)
    next
      case True
      then obtain g where g: "qc_ref (blk c y) = Some g" "decision (blk c g) = 0" by blast
      define c2 where "c2 = (if height (blk c1 (b_lock c1)) < height (blk c1 g) then c1\<lparr>b_lock := g\<rparr> else c1)"
      have k2: "heap c2 = heap c" "b_exec c2 = b_exec c"
        "b_lock c2 = (if height (blk c (b_lock c)) < height (blk c g) then g else b_lock c)"
        by (simp_all add: c2_def k1)
      have uc: "update_commit y g c2 = Ok u c'"
        using 2(3) g by (simp add: update_lock_def k1(1) c2_def [unfolded k1(1), symmetric])
      consider "c' = c2"
        | b where "qc_ref (blk c g) = Some b" "decision (blk c b) = 0" "first_parent (blk c y) = Some g"
          "first_parent (blk c g) = Some b" "commit_chain b c2 = Ok u c'"
        using uc unfolding update_commit_def k2(1) by (auto split: option.splits if_splits)
      then show thesis
      proof cases
        case 1
        then show thesis by (intro lock [OF 2(1) g(1)]) (simp_all add: k2)
      next
        case (2 b)
        have "b < next_ref c"
          using tree_wf_qc_ref [OF wf] r \<open>qc_ref (blk c r) = Some y\<close> g(1) 2(1) by blast
        from commit_chain_exec [OF wf k2(1) this 2(5)] show thesis
          using \<open>qc_ref (blk c r) = Some y\<close> g(1) 2 by (intro commit) (simp_all add: k2)
      qed
    qed
  qed
qed

text \<open>
  C8: \<open>update\<close> commits only on a three-chain: the certificates of the new block, of the block it
  certifies and of the one below name a chain of direct parents, whose lowest block becomes \<open>b_exec\<close>.
\<close>

theorem commit_three_chain:
  assumes "tree_wf c" and "r < next_ref c" and "update r c = Ok u c'" and "b_exec c' \<noteq> b_exec c"
  shows "\<exists>b2 b1. qc_ref (blk c r) = Some b2 \<and> qc_ref (blk c b2) = Some b1 \<and> qc_ref (blk c b1) = Some (b_exec c') \<and>
    first_parent (blk c b2) = Some b1 \<and> first_parent (blk c b1) = Some (b_exec c') \<and>
    decision (blk c (b_exec c')) = 0"
  using assms(1-3)
proof (cases rule: update_cases)
  case (commit y g b)
  then show ?thesis by auto
qed (use assms(4) in simp_all)

theorem commit_three_chain_witness: "\<exists>c. update 4 run_tower = Ok () c \<and> b_exec c = 1 \<and> (\<exists>b2 b1. qc_ref (blk run_tower 4) = Some b2 \<and> qc_ref (blk run_tower b2) = Some b1 \<and> first_parent (blk run_tower b1) = Some 1)"
proof -
  obtain c where c: "update 4 run_tower = Ok () c" "b_exec c = 1"
    using run_tower_update by blast
  have "4 < next_ref run_tower" "b_exec c \<noteq> b_exec run_tower"
    by (simp_all add: run_tower_heap c(2))
  from commit_three_chain [OF run_tower_wf this(1) c(1) this(2)] c show ?thesis
    by auto
qed
subsection \<open>The loops end\<close>

text \<open>
  The loops \<open>for (b = start; b->height > h; b = b->parents[0])\<close> of \<open>update\<close> and
  \<open>on_receive_proposal\<close> end in every reachable state, at every start and bound, without reading a
  missing parent: they return the blocks above \<open>h\<close> and the first block at or below \<open>h\<close>.
\<close>

theorem walk_ends:
  assumes "core_reachable e c" and "r < next_ref c"
  shows "\<exists>bs z. walk_down (heap c) h r = Inr (bs, z) \<and> height (blk c z) \<le> h \<and>
    chain (heap c) (z # rev bs) \<and> last (z # rev bs) = r \<and> (\<forall>b \<in> set bs. h < height (blk c b))"
  using walk_down_ok [OF core_inv_parts(1) [OF core_reachable_inv [OF assms(1)]] assms(2), of h] by metis

theorem walk_ends_witness: "\<exists>bs z. walk_down (heap run_proposed) 0 1 = Inr (bs, z) \<and> last (z # rev bs) = 1"
proof -
  have "1 < next_ref run_proposed"
    by (simp add: run_proposed_next)
  from walk_ends [OF run_reachable(2) this, of 0] show ?thesis
    by blast
qed

subsection \<open>Counting votes\<close>

lemma on_receive_vote_cases:
  assumes r: "get_delivered_blk (vote_blk_hash v) c = Inr r" and ok: "on_receive_vote e v c = Ok u c'"
  obtains (late) "voter v \<in> voted (blk c r) \<or> nmajority (config c) \<le> of_nat (card (voted (blk c r)))" "c' = c"
  | (counted) qc c2 where "\<not> (voter v \<in> voted (blk c r) \<or> nmajority (config c) \<le> of_nat (card (voted (blk c r))))"
      "c2 = upd_blk r (\<lambda>b. b\<lparr>voted := insert (voter v) (voted b), self_qc := Some qc\<rparr>) c"
      "if of_nat (card (voted (blk c r))) + 1 = nmajority (config c)
       then \<exists>c3. update_hqc r (Some qc) c2 = Ok () c3 \<and> c' = on_qc_finish r c3 else c' = c2"
proof (cases "voter v \<in> voted (blk c r) \<or> nmajority (config c) \<le> of_nat (card (voted (blk c r)))")
  case True
  then have "c' = c"
    using ok unfolding on_receive_vote_def r sum.case Let_def by (cases "voter v \<in> voted (blk c r)") (simp_all split: if_splits)
  with True that(1) show thesis by blast
next
  case False
  define c1 where "c1 = upd_blk r (\<lambda>b. b\<lparr>voted := insert (voter v) (voted b)\<rparr>) c"
  define qc0 where "qc0 = (case self_qc (blk c1 r) of
      None \<Rightarrow> create_quorum_cert (e_mem e) (config c1) (blk_hash (blk c1 r)) | Some qc \<Rightarrow> qc)"
  have cfg: "config (upd_blk r f c1) = config c" for f
    by (simp add: c1_def upd_blk_def)
  have n: "(nmajority (config c) \<le> of_nat (card (voted (blk c r)))) = False" "(voter v \<in> voted (blk c r)) = False"
    using False by simp_all
  obtain u' qc where "qc_add_part (voter v) (vote_cert v) qc0 = Ok u' qc"
    and rest: "(if of_nat (card (voted (blk c r))) + 1 = nmajority (config c)
       then res_bind (update_hqc r (Some qc) (upd_blk r (\<lambda>b. b\<lparr>self_qc := Some qc\<rparr>) c1)) (\<lambda>u c. Ok () (on_qc_finish r c))
       else Ok () (upd_blk r (\<lambda>b. b\<lparr>self_qc := Some qc\<rparr>) c1)) = Ok u c'"
    using ok unfolding on_receive_vote_def r sum.case Let_def c1_def [symmetric] qc0_def [symmetric] n if_False cfg
    by (simp split: res.splits)
  have c2: "upd_blk r (\<lambda>b. b\<lparr>self_qc := Some qc\<rparr>) c1
      = upd_blk r (\<lambda>b. b\<lparr>voted := insert (voter v) (voted b), self_qc := Some qc\<rparr>) c"
    by (simp add: c1_def upd_blk_def)
  show thesis
  proof (rule that(2) [OF False refl])
    show "if of_nat (card (voted (blk c r))) + 1 = nmajority (config c)
       then \<exists>c3. update_hqc r (Some qc) (upd_blk r (\<lambda>b. b\<lparr>voted := insert (voter v) (voted b), self_qc := Some qc\<rparr>) c) = Ok () c3 \<and>
         c' = on_qc_finish r c3
       else c' = upd_blk r (\<lambda>b. b\<lparr>voted := insert (voter v) (voted b), self_qc := Some qc\<rparr>) c"
      using rest unfolding c2 by (cases "update_hqc r (Some qc) (upd_blk r (\<lambda>b. b\<lparr>voted := insert (voter v) (voted b), self_qc := Some qc\<rparr>) c)") (auto split: if_splits)
  qed
qed

text \<open>
  A vote for a delivered block counts once: a second vote of the same replica and a vote beyond
  the quorum change nothing, and the vote that completes the quorum makes the block the highest
  certified one if it is higher; no other vote touches the highest certificate.
\<close>

theorem vote_counted_once:
  assumes "get_delivered_blk (vote_blk_hash v) c = Inr r" and "on_receive_vote e v c = Ok u c'"
  shows "if voter v \<in> voted (blk c r) \<or> nmajority (config c) \<le> of_nat (card (voted (blk c r))) then c' = c
    else voted (blk c' r) = insert (voter v) (voted (blk c r)) \<and>
      (\<forall>h q. hqc c = Some (h, q) \<longrightarrow>
        (if of_nat (card (voted (blk c r))) + 1 = nmajority (config c) \<and> height (blk c h) < height (blk c r)
         then \<exists>q'. hqc c' = Some (r, q') \<and> self_qc (blk c' r) = Some q' else hqc c' = hqc c))"
  using assms
proof (cases rule: on_receive_vote_cases)
  case late
  then show ?thesis by simp
next
  case (counted qc c2)
  have c2: "voted (blk c2 r) = insert (voter v) (voted (blk c r))" "self_qc (blk c2 r) = Some qc" "hqc c2 = hqc c"
    "height (blk c2 x) = height (blk c x)" for x
    by (simp_all add: counted(2) upd_blk_def)
  have fin: "heap (on_qc_finish r d) = heap d" "hqc (on_qc_finish r d) = hqc d" for d
    by (simp_all add: on_qc_finish_def emit_def)
  show ?thesis
  proof (cases "of_nat (card (voted (blk c r))) + 1 = nmajority (config c)")
    case False
    with counted c2 show ?thesis by simp
  next
    case True
    then obtain c3 where c3: "update_hqc r (Some qc) c2 = Ok () c3" "c' = on_qc_finish r c3"
      using counted(3) by auto
    have "heap c3 = heap c2"
      by (rule update_hqc_keeps(1) [OF c3(1)])
    moreover have "if height (blk c h) < height (blk c r) then hqc c3 = Some (r, qc) else hqc c3 = hqc c"
      if "hqc c = Some (h, q)" for h q
      by (rule update_hqc_Ok [OF c3(1)]) (use that in \<open>simp add: c2 emit_def\<close>)
    ultimately show ?thesis
      using counted(1) True c2 by (auto simp: c3(2) fin)
  qed
qed

theorem vote_counted_once_witness: "voted (blk run_counted 1) = {2}"
  using vote_counted_once [OF run_vote_block run_vote_counts]
  by (simp add: run_proposed_def run_made_simps run_block_def block_empty_def run_vote_def run_start_def run_made_def run_cfg_def upd_blk_def)

end
