(* ===== verification/Lock_Rule.thy ===== *)
theory Lock_Rule
  imports Replica_Safety
begin

text \<open>
  What a replica has to do for agreement: from its first vote on it is locked on a certified block, votes
  only above its lock or on a higher certificate, and commits on certified three-chains. All this holds
  in the runs in which the certificate of each delivered block names an ancestor of the block.
\<close>

subsection \<open>Runs\<close>

text \<open>
  The steps of a replica that receives proposals from other replicas only: \<open>propose_handler\<close> compares the
  proposer with the peer at the other end of the connection. The replica's own proposals come from
  \<open>on_propose\<close>.
\<close>

inductive peer_step :: "env \<Rightarrow> core \<Rightarrow> core \<Rightarrow> bool" for e :: env where
  proposal: "prop_proposer pro \<noteq> core_id c \<Longrightarrow> prop_blk pro < next_ref c \<Longrightarrow> on_receive_proposal e pro c = Ok u c'
    \<Longrightarrow> peer_step e c c'"
| own: "no_overflow c \<Longrightarrow> on_propose e cmds ps ex c = Ok r c' \<Longrightarrow> peer_step e c c'"
| other: "core_step e c c' \<Longrightarrow> votes_of (events c') = votes_of (events c) \<Longrightarrow> peer_step e c c'"

inductive peer_reachable :: "env \<Rightarrow> core \<Rightarrow> bool" for e :: env where
  start: "core_start e rid reps nfaulty fair gen net = Inr c \<Longrightarrow> peer_reachable e c"
| step: "peer_reachable e c \<Longrightarrow> peer_step e c c' \<Longrightarrow> peer_reachable e c'"

lemma peer_core_step: "peer_step e c c' \<Longrightarrow> core_step e c c'"
  by (cases rule: peer_step.cases) (auto intro: core_step.intros)

lemma peer_core_reachable: "peer_reachable e c \<Longrightarrow> core_reachable e c"
  by (induction rule: peer_reachable.induct) (auto intro: core_reachable.intros peer_core_step)

subsection \<open>Delivered blocks are final\<close>

definition extends :: "core \<Rightarrow> core \<Rightarrow> bool" where
  "extends c c' \<longleftrightarrow> next_ref c \<le> next_ref c' \<and> b0 c' = b0 c \<and>
     (\<forall>r < next_ref c. delivered (blk c r) \<longrightarrow> same_shape (blk c r) (blk c' r))"

lemma extends_refl [simp]: "extends c c"
  by (simp add: extends_def)

lemma extends_trans: "extends a b \<Longrightarrow> extends b c \<Longrightarrow> extends a c"
  unfolding extends_def using same_shape_trans by (auto simp: same_shape_def)

lemma extends_keeps: "keeps c c' \<Longrightarrow> extends c c'"
  by (simp add: extends_def keeps_def)

lemma extends_grows: "grows c c' \<Longrightarrow> extends c c'"
  by (simp add: extends_def grows_def)

lemma extends_blk:
  assumes "extends c c'" and "r < next_ref c" and "delivered (blk c r)"
  shows "delivered (blk c' r)" "height (blk c' r) = height (blk c r)" "first_parent (blk c' r) = first_parent (blk c r)"
    "qc_ref (blk c' r) = qc_ref (blk c r)" "blk_hash (blk c' r) = blk_hash (blk c r)" "r < next_ref c'"
    "parent_hashes (blk c' r) = parent_hashes (blk c r)" "blk_qc (blk c' r) = blk_qc (blk c r)"
  using assms by (auto simp: extends_def same_shape_def first_parent_def)

lemma extends_step:
  assumes inv: "core_inv c" and st: "core_step e c c'"
  shows "extends c c'"
proof -
  have adv: "extends a b" if "advance a b" for a b
    using extends_keeps [OF advance_keeps [OF that]] .
  have vote: "extends a (emit ev a)" for a ev
    by (simp add: extends_keeps)
  have receive: "extends a b" if a: "core_inv a" "prop_blk pro < next_ref a" "on_receive_proposal e pro a = Ok u b" for pro u a b
  proof -
    obtain c1 c2 c4 op where *: "advance a c1" "vote_opinion (prop_blk pro) c1 = Ok op c2" "advance c2 c4"
      "heap c4 = heap c2" "b_lock c4 = b_lock c2" "next_ref c4 = next_ref c2"
      "b = (if op \<and> \<not> vote_disabled c4 then emit (proposal_vote e pro c4) c4 else c4)"
      by (rule on_receive_proposal_cases [OF core_inv_parts(1) [OF a(1)] a(2,3)])
    have "extends c1 c2"
      using *(2) by (cases rule: vote_opinion_cases) (simp_all add: extends_def)
    then show ?thesis
      using extends_trans [OF extends_trans [OF adv [OF *(1)]]] extends_trans [OF adv [OF *(3)] vote] adv [OF *(3)]
      by (auto simp: *(7) intro: extends_trans)
  qed
  show ?thesis
    using st
  proof cases
    case (fetch b r)
    from fetch(2) show ?thesis
    proof (cases rule: fetch_blk_cases)
      case new
      then have "grows c c'"
        using fetch(1) core_inv_parts(1) [OF inv] by (intro fetch_blk_new(2) [OF _ _ _ _ new(3)]) (simp_all add: wire_block_def)
      then show ?thesis by (rule extends_grows)
    qed simp
  next
    case (deliver r d)
    then show ?thesis
      using extends_grows [OF advance_receive_deliver(2) [OF inv]] by blast
  next
    case (receive_proposal pro u)
    then show ?thesis using receive [OF inv] by blast
  next
    case (propose cmds ps ex r)
    obtain ct c2 c3 c4 pro u5 c5 where p: "advance c ct" "advance ct c2" "grows c2 c3" "core_inv c3" "advance c3 c4"
      "prop_blk pro = r" "r < next_ref c4" "delivered (blk c3 r)" "on_receive_proposal e pro c4 = Ok u5 c5" "advance c5 c'"
      by (rule on_propose_cases [OF inv propose])
    have "extends c4 c5"
      using receive [OF core_inv_advance [OF p(4,5)] _ p(9)] p(6,7) by blast
    then show ?thesis
      using p(1,2,5,10) extends_grows [OF p(3)] adv by (meson extends_trans)
  qed (use adv advance_ops core_inv_parts(1) [OF inv] in \<open>auto\<close>)
qed

subsection \<open>Certificates of ancestors\<close>

text \<open>The certificate of every delivered block but the genesis block names a block below it on its branch.\<close>

definition on_branch :: "core \<Rightarrow> bool" where
  "on_branch c \<longleftrightarrow> (\<forall>x < next_ref c. delivered (blk c x) \<longrightarrow> x \<noteq> b0 c \<longrightarrow>
     (\<forall>q. qc_ref (blk c x) = Some q \<longrightarrow> (\<exists>bs. chain (heap c) (q # bs @ [x]))))"

text \<open>The genesis block has no parent and names itself.\<close>

definition root_ok :: "core \<Rightarrow> bool" where
  "root_ok c \<longleftrightarrow> parents (blk c (b0 c)) = [] \<and> qc_ref (blk c (b0 c)) = Some (b0 c)"

lemma root_ok_extends: "tree_wf c \<Longrightarrow> root_ok c \<Longrightarrow> extends c c' \<Longrightarrow> root_ok c'"
  by (auto simp: root_ok_def extends_def tree_wf_def same_shape_def)

lemma first_parent_delivered:
  assumes wf: "tree_wf c" and ro: "root_ok c" and x: "x < next_ref c" "delivered (blk c x)" "first_parent (blk c x) = Some p"
  shows "p < next_ref c" and "delivered (blk c p)" and "unat (height (blk c x)) = Suc (unat (height (blk c p)))" and "x \<noteq> b0 c"
proof -
  show "x \<noteq> b0 c"
    using ro x(3) by (auto simp: root_ok_def first_parent_def)
  moreover have "blk_wf (heap c) (next_ref c) (b0 c) x"
    using wf x(1) by (simp add: tree_wf_def)
  ultimately show "p < next_ref c" "delivered (blk c p)" "unat (height (blk c x)) = Suc (unat (height (blk c p)))"
    using x by (auto simp: blk_wf_def first_parent_def)
qed

text \<open>A chain is determined from its upper end, so a later state has no other one.\<close>

lemma chain_snoc: "chain hp (xs @ [x, y]) \<longleftrightarrow> chain hp (xs @ [x]) \<and> first_parent (hp y) = Some x"
  by (auto simp: chain_def successively_append_iff)

lemma chain_back:
  assumes wf: "tree_wf c" and ro: "root_ok c" and e: "extends c c'"
  shows "chain (heap c') (bs @ [x]) \<Longrightarrow> x < next_ref c \<Longrightarrow> delivered (blk c x) \<Longrightarrow>
    chain (heap c) (bs @ [x]) \<and> (\<forall>y \<in> set (bs @ [x]). y < next_ref c \<and> delivered (blk c y))"
proof (induction bs arbitrary: x rule: rev_induct)
  case Nil
  then show ?case by (simp add: chain_def)
next
  case (snoc y ys)
  have ch: "chain (heap c') (ys @ [y])" "first_parent (blk c' x) = Some y"
    using snoc.prems(1) chain_snoc [of "heap c'" ys y x] by simp_all
  then have fp: "first_parent (blk c x) = Some y"
    using extends_blk(3) [OF e snoc.prems(2,3)] by simp
  note y = first_parent_delivered [OF wf ro snoc.prems(2,3) fp]
  show ?case
    using snoc.IH [OF ch(1) y(1,2)] snoc.prems(2,3) fp chain_snoc [of "heap c" ys y x] by simp
qed

lemma on_branch_back:
  assumes wf: "tree_wf c" and ro: "root_ok c" and e: "extends c c'" and ob: "on_branch c'"
  shows "on_branch c"
  unfolding on_branch_def
proof (intro allI impI)
  fix x q
  assume x: "x < next_ref c" "delivered (blk c x)" "x \<noteq> b0 c" "qc_ref (blk c x) = Some q"
  have "b0 c' = b0 c"
    using e by (simp add: extends_def)
  then obtain bs where "chain (heap c') (q # bs @ [x])"
    using ob x extends_blk [OF e x(1,2)] unfolding on_branch_def by metis
  then show "\<exists>bs. chain (heap c) (q # bs @ [x])"
    using chain_back [OF wf ro e, of "q # bs" x] x by auto
qed

lemma chain_below:
  assumes wf: "tree_wf c" and ro: "root_ok c"
  shows "chain (heap c) (q # bs @ [x]) \<Longrightarrow> x < next_ref c \<Longrightarrow> delivered (blk c x) \<Longrightarrow>
    q < next_ref c \<and> delivered (blk c q) \<and> height (blk c q) < height (blk c x)"
proof (induction bs arbitrary: x rule: rev_induct)
  case Nil
  then have "first_parent (blk c x) = Some q"
    by (simp add: chain_def)
  from first_parent_delivered [OF wf ro Nil(2,3) this] show ?case
    by (simp add: word_less_nat_alt)
next
  case (snoc y ys)
  have ch: "chain (heap c) (q # ys @ [y])" "first_parent (blk c x) = Some y"
    using snoc.prems(1) chain_snoc [of "heap c" "q # ys" y x] by simp_all
  note y = first_parent_delivered [OF wf ro snoc.prems(2,3) ch(2)]
  show ?case
    using snoc.IH [OF ch(1) y(1,2)] y(3) by (auto simp: word_less_nat_alt)
qed

text \<open>What a delivered block certifies is delivered and lower; only the genesis block certifies itself.\<close>

lemma qc_below:
  assumes wf: "tree_wf c" and ro: "root_ok c" and ob: "on_branch c" and x: "x < next_ref c" "delivered (blk c x)"
    and q: "qc_ref (blk c x) = Some q"
  shows "q < next_ref c" and "delivered (blk c q)" and "x = b0 c \<and> q = b0 c \<or> height (blk c q) < height (blk c x)"
proof -
  have "q < next_ref c \<and> delivered (blk c q) \<and> (x = b0 c \<and> q = b0 c \<or> height (blk c q) < height (blk c x))"
  proof (cases "x = b0 c")
    case True
    with ro q x show ?thesis by (simp add: root_ok_def)
  next
    case False
    then obtain bs where "chain (heap c) (q # bs @ [x])"
      using ob x q unfolding on_branch_def by blast
    from chain_below [OF wf ro this x] show ?thesis by simp
  qed
  then show "q < next_ref c" and "delivered (blk c q)" and "x = b0 c \<and> q = b0 c \<or> height (blk c q) < height (blk c x)"
    by simp_all
qed

subsection \<open>The lock\<close>

definition certified :: "core \<Rightarrow> ref \<Rightarrow> bool" where
  "certified c k \<longleftrightarrow> (\<exists>x < next_ref c. delivered (blk c x) \<and> x \<noteq> b0 c \<and> qc_ref (blk c x) = Some k)"

text \<open>\<open>b\<close> is the tail of a three-chain over direct parents that the block \<open>n\<close> certifies.\<close>

definition three_chain :: "core \<Rightarrow> ref \<Rightarrow> ref \<Rightarrow> bool" where
  "three_chain c n b \<longleftrightarrow> n < next_ref c \<and> delivered (blk c n) \<and> n \<noteq> b0 c \<and>
     (\<exists>y g. qc_ref (blk c n) = Some y \<and> qc_ref (blk c y) = Some g \<and> qc_ref (blk c g) = Some b \<and>
        first_parent (blk c y) = Some g \<and> first_parent (blk c g) = Some b)"

definition lock_ok :: "core \<Rightarrow> bool" where
  "lock_ok c \<longleftrightarrow> root_ok c \<and> (b_lock c = b0 c \<or> certified c (b_lock c)) \<and>
     height (blk c (b_exec c)) \<le> height (blk c (b_lock c)) \<and>
     (\<forall>r < next_ref c. decision (blk c r) \<noteq> 0 \<longrightarrow> delivered (blk c r) \<and> height (blk c r) \<le> height (blk c (b_exec c))) \<and>
     (b_exec c = b0 c \<or> (\<exists>n. three_chain c n (b_exec c)))"

lemma lock_ok_parts:
  assumes "lock_ok c"
  shows "root_ok c" "b_lock c = b0 c \<or> certified c (b_lock c)" "height (blk c (b_exec c)) \<le> height (blk c (b_lock c))"
    "r < next_ref c \<Longrightarrow> decision (blk c r) \<noteq> 0 \<Longrightarrow> delivered (blk c r) \<and> height (blk c r) \<le> height (blk c (b_exec c))"
    "b_exec c = b0 c \<or> (\<exists>n. three_chain c n (b_exec c))"
  using assms by (auto simp: lock_ok_def)

lemma certified_extends:
  assumes "extends c c'" and "certified c k"
  shows "certified c' k"
proof -
  obtain x where x: "x < next_ref c" "delivered (blk c x)" "x \<noteq> b0 c" "qc_ref (blk c x) = Some k"
    using assms(2) unfolding certified_def by blast
  have "b0 c' = b0 c"
    using assms(1) by (simp add: extends_def)
  with x extends_blk [OF assms(1) x(1,2)] show ?thesis
    unfolding certified_def by metis
qed

lemma three_chain_extends:
  assumes wf: "tree_wf c" and ro: "root_ok c" and ob: "on_branch c" and e: "extends c c'" and t: "three_chain c n b"
  shows "three_chain c' n b"
proof -
  obtain y g where t: "n < next_ref c" "delivered (blk c n)" "n \<noteq> b0 c" "qc_ref (blk c n) = Some y"
    "qc_ref (blk c y) = Some g" "qc_ref (blk c g) = Some b" "first_parent (blk c y) = Some g" "first_parent (blk c g) = Some b"
    using t unfolding three_chain_def by blast
  note y = qc_below [OF wf ro ob t(1,2,4)]
  note g = qc_below [OF wf ro ob y(1,2) t(5)]
  have "b0 c' = b0 c"
    using e by (simp add: extends_def)
  with t extends_blk [OF e t(1,2)] extends_blk [OF e y(1,2)] extends_blk [OF e g(1,2)] show ?thesis
    by (simp add: three_chain_def)
qed

lemma lock_ok_extends:
  assumes inv: "core_inv c" and ob: "on_branch c" and ok: "lock_ok c" and e: "extends c c'"
    and same: "b_lock c' = b_lock c" "b_exec c' = b_exec c"
    and old: "\<And>r. r < next_ref c \<Longrightarrow> decision (blk c' r) = decision (blk c r)"
    and new: "\<And>r. r < next_ref c' \<Longrightarrow> next_ref c \<le> r \<Longrightarrow> decision (blk c' r) = 0"
  shows "lock_ok c'"
proof -
  note wf = core_inv_parts(1) [OF inv] and ro = lock_ok_parts(1) [OF ok]
  have b0: "b0 c' = b0 c"
    using e by (simp add: extends_def)
  have ht: "height (blk c' (b_lock c)) = height (blk c (b_lock c))" "height (blk c' (b_exec c)) = height (blk c (b_exec c))"
    using extends_blk(2) [OF e] core_inv_parts(2) [OF inv] by (simp_all add: refs_ok_def)
  have "delivered (blk c' r) \<and> height (blk c' r) \<le> height (blk c' (b_exec c))"
    if "r < next_ref c'" "decision (blk c' r) \<noteq> 0" for r
  proof (cases "r < next_ref c")
    case True
    then have r: "delivered (blk c r)" "height (blk c r) \<le> height (blk c (b_exec c))"
      using lock_ok_parts(4) [OF ok] that(2) old by simp_all
    with extends_blk(1,2) [OF e True r(1)] ht show ?thesis by simp
  next
    case False
    then show ?thesis using new that by simp
  qed
  then show ?thesis
    using lock_ok_parts [OF ok] root_ok_extends [OF wf ro e] certified_extends [OF e] three_chain_extends [OF wf ro ob e]
    unfolding lock_ok_def same b0 ht by blast
qed

lemma lock_ok_idles:
  assumes "core_inv c" and "on_branch c" and "lock_ok c" and s: "idles c c'"
  shows "lock_ok c'"
proof (rule lock_ok_extends [OF assms(1-3) extends_keeps [OF advance_keeps [OF idles_parts(1) [OF s]]]])
  show "decision (blk c' r) = 0" if "r < next_ref c'" "next_ref c \<le> r" for r
    using that keeps_blk(7) [OF advance_keeps [OF idles_parts(1) [OF s]]] by simp
qed (use idles_parts [OF s] in auto)

lemma lock_ok_grows:
  assumes "core_inv c" and "on_branch c" and "lock_ok c" and g: "grows c c'"
  shows "lock_ok c'"
  by (rule lock_ok_extends [OF assms(1-3) extends_grows [OF g]]) (use g in \<open>auto simp: grows_def\<close>)

lemma lock_ok_fields:
  assumes "lock_ok c" and "heap c' = heap c" "next_ref c' = next_ref c" "b0 c' = b0 c" "b_lock c' = b_lock c" "b_exec c' = b_exec c"
  shows "lock_ok c'"
  using assms(1) unfolding lock_ok_def root_ok_def certified_def three_chain_def assms(2-) .

text \<open>What the votes for \<open>x\<close> have locked stands at most as high as \<open>l\<close>.\<close>

definition locked_upto :: "core \<Rightarrow> ref \<Rightarrow> ref \<Rightarrow> bool" where
  "locked_upto c x l \<longleftrightarrow>
     (\<forall>y g. qc_ref (blk c x) = Some y \<longrightarrow> qc_ref (blk c y) = Some g \<longrightarrow> height (blk c g) \<le> height (blk c l))"

lemma commits_below:
  assumes wf: "tree_wf c" and a: "advance c c'" and r: "decision (blk c' r) \<noteq> decision (blk c r)"
  shows "delivered (blk c r)" and "height (blk c r) \<le> height (blk c (b_exec c'))"
proof -
  obtain rs where rs: "chain (heap c) (b_exec c # rs)" "\<forall>r \<in> set rs. r < next_ref c \<and> delivered (blk c r) \<and> 0 < height (blk c r)"
    "b_exec c' = last (b_exec c # rs)" "\<forall>r. r \<notin> set rs \<longrightarrow> decision (blk c' r) = decision (blk c r)"
    using a unfolding advance_def by blast
  then have "r \<in> set rs" using r by blast
  with rs(2) show "delivered (blk c r)" by blast
  obtain xs ys where split: "rs = xs @ r # ys"
    using \<open>r \<in> set rs\<close> by (meson split_list)
  then have "sorted_wrt (\<lambda>r s. height (blk c r) < height (blk c s)) (r # ys)"
    using chain_heights [OF wf rs(1,2)] by (simp add: sorted_wrt_append)
  moreover have "b_exec c' = last (r # ys)"
    using rs(3) split by simp
  ultimately show "height (blk c r) \<le> height (blk c (b_exec c'))"
    by (cases ys rule: rev_cases) (auto intro: less_imp_le)
qed

lemma exec_rises:
  assumes wf: "tree_wf c" and a: "advance c c'"
  shows "height (blk c (b_exec c)) \<le> height (blk c (b_exec c'))"
proof -
  obtain rs where rs: "chain (heap c) (b_exec c # rs)" "\<forall>r \<in> set rs. r < next_ref c \<and> delivered (blk c r) \<and> 0 < height (blk c r)"
    "b_exec c' = last (b_exec c # rs)"
    using a unfolding advance_def by blast
  from chain_heights [OF wf rs(1,2)] show ?thesis
    unfolding rs(3) by (cases rs rule: rev_cases) (auto intro: less_imp_le)
qed

lemma lock_ok_update:
  assumes inv: "core_inv c" and ob: "on_branch c" and ok: "lock_ok c" and r: "r < next_ref c" "delivered (blk c r)"
    and up: "update r c = Ok u c'"
  shows "lock_ok c'" and "locked_upto c' r (b_lock c')"
    and "b_lock c' = b_lock c \<or> height (blk c (b_lock c')) < height (blk c r) \<and>
      (\<exists>y. qc_ref (blk c' r) = Some y \<and> height (blk c' (b_lock c')) < height (blk c' y))"
proof -
  note wf = core_inv_parts(1) [OF inv] and ro = lock_ok_parts(1) [OF ok]
  have adv: "advance c c'"
    by (rule advance_update [OF wf r(1) up])
  note k = keeps_blk [OF advance_keeps [OF adv]]
  have z: "height (blk c (b0 c)) = 0"
    using wf by (simp add: tree_wf_def)
  have lock: "height (blk c (b_lock c)) \<le> height (blk c (b_lock c'))"
    using adv by (simp add: advance_def higher_le)
  have below: "y < next_ref c \<and> delivered (blk c y) \<and> g < next_ref c \<and> delivered (blk c g) \<and>
      (g = b0 c \<or> y \<noteq> b0 c \<and> r \<noteq> b0 c \<and> height (blk c g) < height (blk c y) \<and> height (blk c y) < height (blk c r))"
    if "qc_ref (blk c r) = Some y" "qc_ref (blk c y) = Some g" for y g
  proof -
    note y = qc_below [OF wf ro ob r that(1)]
    note g = qc_below [OF wf ro ob y(1,2) that(2)]
    show ?thesis using y g z by auto
  qed
  have ext: "extends c c'"
    by (rule extends_keeps [OF advance_keeps [OF adv]])
  define moved where "moved y g \<longleftrightarrow> qc_ref (blk c r) = Some y \<and> qc_ref (blk c y) = Some g \<and>
      b_lock c' = (if height (blk c (b_lock c)) < height (blk c g) then g else b_lock c)" for y g
  have moved: "height (blk c g) \<le> height (blk c (b_lock c'))" "b_lock c' = b0 c \<or> certified c (b_lock c')" "locked_upto c r (b_lock c')"
    "b_lock c' = b_lock c \<or> b_lock c' = g \<and> height (blk c (b_lock c)) < height (blk c g)" if m: "moved y g" for y g
  proof -
    have g0: "g = b0 c \<or> certified c g"
      using below [of y g] m unfolding moved_def certified_def by blast
    show "height (blk c g) \<le> height (blk c (b_lock c'))" "b_lock c' = b0 c \<or> certified c (b_lock c')"
      "b_lock c' = b_lock c \<or> b_lock c' = g \<and> height (blk c (b_lock c)) < height (blk c g)"
      using m g0 lock_ok_parts(2) [OF ok] by (simp_all add: moved_def not_less)
    then show "locked_upto c r (b_lock c')"
      using m by (simp add: moved_def locked_upto_def)
  qed
  have old: "b_exec c = b0 c' \<or> (\<exists>n. three_chain c' n (b_exec c))"
    using lock_ok_parts(5) [OF ok] three_chain_extends [OF wf ro ob ext] unfolding k by blast
  have step: "(b_exec c' = b0 c' \<or> (\<exists>n. three_chain c' n (b_exec c'))) \<and> height (blk c (b_exec c')) \<le> height (blk c (b_lock c')) \<and>
      (b_lock c' = b0 c \<or> certified c (b_lock c')) \<and> locked_upto c r (b_lock c') \<and> (b_lock c' = b_lock c \<or> (\<exists>y g. moved y g \<and>
        b_lock c' = g \<and> height (blk c (b_lock c)) < height (blk c g)))"
    using wf r(1) up
  proof (cases rule: update_cases)
    case quiet
    have "height (blk c g) \<le> height (blk c (b_lock c))" if "qc_ref (blk c r) = Some y" "qc_ref (blk c y) = Some g" for y g
      using quiet(3) [OF that] below [OF that] z lock_ok_parts(3) [OF ok] lock_ok_parts(4) [OF ok, of y] lock_ok_parts(4) [OF ok, of g]
      by auto
    then show ?thesis
      using quiet old lock_ok_parts(2,3) [OF ok] by (simp add: locked_upto_def)
  next
    case (lock y g)
    then have m: "moved y g" by (simp add: moved_def)
    have "height (blk c (b_exec c)) \<le> height (blk c (b_lock c'))"
      using lock_ok_parts(3) [OF ok] \<open>height (blk c (b_lock c)) \<le> height (blk c (b_lock c'))\<close> by (rule order_trans)
    then show ?thesis
      using moved [OF m] m old lock(4) by auto
  next
    case (commit y g b)
    then have m: "moved y g" by (simp add: moved_def)
    note bel = below [OF commit(1,2)]
    have g: "unat (height (blk c g)) = Suc (unat (height (blk c b)))" "g \<noteq> b0 c"
      using first_parent_delivered(3,4) [OF wf ro _ _ commit(7)] bel by blast+
    then have "height (blk c b) \<le> height (blk c (b_lock c'))"
      using moved(1) [OF m] by (simp add: word_le_nat_alt)
    moreover have "three_chain c r b"
      using commit r bel g(2) by (auto simp: three_chain_def)
    then have "three_chain c' r b"
      by (rule three_chain_extends [OF wf ro ob ext])
    ultimately show ?thesis
      using moved [OF m] m commit(4) by auto
  qed
  then have upto: "locked_upto c r (b_lock c')" and move: "b_lock c' = b_lock c \<or> (\<exists>y g. moved y g \<and>
        b_lock c' = g \<and> height (blk c (b_lock c)) < height (blk c g))"
    by simp_all
  have dec: "delivered (blk c' x) \<and> height (blk c' x) \<le> height (blk c' (b_exec c'))" if "x < next_ref c'" "decision (blk c' x) \<noteq> 0" for x
    using that commits_below [OF wf adv, of x] lock_ok_parts(4) [OF ok, of x] exec_rises [OF wf adv] unfolding k
    by (cases "decision (blk c' x) = decision (blk c x)") auto
  show "lock_ok c'"
    using step dec root_ok_extends [OF wf ro ext] certified_extends [OF ext] unfolding lock_ok_def k by blast
  show "locked_upto c' r (b_lock c')"
    using upto by (simp add: locked_upto_def k)
  show "b_lock c' = b_lock c \<or> height (blk c (b_lock c')) < height (blk c r) \<and>
      (\<exists>y. qc_ref (blk c' r) = Some y \<and> height (blk c' (b_lock c')) < height (blk c' y))"
  proof (cases "b_lock c' = b_lock c")
    case False
    then obtain y g where g: "moved y g" "b_lock c' = g" "height (blk c (b_lock c)) < height (blk c g)"
      using move by blast
    then have "g \<noteq> b0 c"
      using z word_not_simps(1) by metis
    then have "height (blk c g) < height (blk c y)" "height (blk c y) < height (blk c r)"
      using below [of y g] g(1) by (auto simp: moved_def)
    with g(1,2) show ?thesis
      unfolding k by (auto simp: moved_def)
  qed simp
qed

subsection \<open>The history of the votes\<close>

text \<open>When \<open>w\<close> was voted for after \<open>xs\<close>, there was a lock that allowed it.\<close>

definition vote_safe :: "core \<Rightarrow> ref list \<Rightarrow> ref \<Rightarrow> bool" where
  "vote_safe c xs w \<longleftrightarrow>
     (\<exists>l < next_ref c. delivered (blk c l) \<and> (l = b0 c \<or> certified c l) \<and> height (blk c l) < height (blk c w) \<and>
        (\<forall>x \<in> set xs. locked_upto c x l) \<and>
        ((\<exists>k. qc_ref (blk c w) = Some k \<and> height (blk c l) < height (blk c k)) \<or>
         (\<exists>bs. chain (heap c) (l # bs) \<and> last (l # bs) = w)))"

definition vote_hist :: "core \<Rightarrow> ref list \<Rightarrow> bool" where
  "vote_hist c rs \<longleftrightarrow> vote_log c rs \<and> (\<forall>x \<in> set rs. locked_upto c x (b_lock c)) \<and>
     (\<forall>j < length rs. vote_safe c (take j rs) (rs ! j))"

definition lock_voted :: "core \<Rightarrow> bool" where
  "lock_voted c \<longleftrightarrow> height (blk c (b_lock c)) \<le> vheight c"

lemma vote_log_extends:
  assumes v: "vote_log c rs" and e: "extends c c'" and "votes_of (events c') = votes_of (events c)" and "vheight c \<le> vheight c'"
  shows "vote_log c' rs"
proof -
  have r: "r < next_ref c" "delivered (blk c r)" if "r \<in> set rs" for r
    using v that by (simp_all add: vote_log_def)
  note same = extends_blk [OF e r]
  have "map (\<lambda>r. blk_hash (blk c' r)) rs = map (\<lambda>r. blk_hash (blk c r)) rs"
    by (simp add: same(5))
  moreover have "sorted_wrt (\<lambda>r s. height (blk c' r) < height (blk c' s)) rs"
    using v unfolding vote_log_def by (auto intro: sorted_wrt_mono_rel [rotated] simp: same(2))
  ultimately show ?thesis
    using v assms(3,4) same unfolding vote_log_def by (fastforce intro: order_trans)
qed

lemma locked_upto_extends:
  assumes wf: "tree_wf c" and ro: "root_ok c" and ob: "on_branch c" and e: "extends c c'"
    and x: "x < next_ref c" "delivered (blk c x)" and l: "locked_upto c x l" "height (blk c l) \<le> height (blk c' l')"
  shows "locked_upto c' x l'"
  unfolding locked_upto_def
proof (intro allI impI)
  fix y g
  assume "qc_ref (blk c' x) = Some y" and g': "qc_ref (blk c' y) = Some g"
  then have y: "qc_ref (blk c x) = Some y"
    by (simp add: extends_blk(4) [OF e x])
  note yd = qc_below(1,2) [OF wf ro ob x y]
  have g: "qc_ref (blk c y) = Some g"
    using g' by (simp add: extends_blk(4) [OF e yd])
  have "height (blk c' g) = height (blk c g)"
    by (rule extends_blk(2) [OF e qc_below(1,2) [OF wf ro ob yd g]])
  then show "height (blk c' g) \<le> height (blk c' l')"
    using l y g unfolding locked_upto_def by (metis order_trans)
qed

lemma vote_safe_extends:
  assumes wf: "tree_wf c" and ro: "root_ok c" and ob: "on_branch c" and e: "extends c c'"
    and xs: "\<forall>x \<in> set xs. x < next_ref c \<and> delivered (blk c x)" and w: "w < next_ref c" "delivered (blk c w)"
    and v: "vote_safe c xs w"
  shows "vote_safe c' xs w"
proof -
  obtain l where l: "l < next_ref c" "delivered (blk c l)" "l = b0 c \<or> certified c l" "height (blk c l) < height (blk c w)"
    "\<forall>x \<in> set xs. locked_upto c x l"
    and or: "(\<exists>k. qc_ref (blk c w) = Some k \<and> height (blk c l) < height (blk c k)) \<or>
         (\<exists>bs. chain (heap c) (l # bs) \<and> last (l # bs) = w)"
    using v unfolding vote_safe_def by blast
  note le = extends_blk [OF e l(1,2)] and we = extends_blk [OF e w]
  have "\<forall>x \<in> set xs. locked_upto c' x l"
    using l(5) xs le(2) by (auto intro: locked_upto_extends [OF wf ro ob e])
  moreover have "(\<exists>k. qc_ref (blk c' w) = Some k \<and> height (blk c' l) < height (blk c' k)) \<or>
         (\<exists>bs. chain (heap c') (l # bs) \<and> last (l # bs) = w)"
    using or
  proof (elim disjE exE conjE)
    fix k
    assume k: "qc_ref (blk c w) = Some k" "height (blk c l) < height (blk c k)"
    then have "height (blk c' k) = height (blk c k)"
      using extends_blk(2) [OF e qc_below(1,2) [OF wf ro ob w k(1)]] by simp
    with k we le show ?thesis by simp
  next
    fix bs
    assume bs: "chain (heap c) (l # bs)" "last (l # bs) = w"
    obtain ys where ys: "l # bs = ys @ [w]"
      using bs(2) by (metis append_butlast_last_id list.distinct(1))
    have "\<forall>y \<in> set (ys @ [w]). y < next_ref c \<and> delivered (blk c y)"
      using chain_back [OF wf ro extends_refl, of ys w] bs(1) w unfolding ys by blast
    then have "chain (heap c') (l # bs)"
      using bs(1) unfolding ys chain_def by (auto elim!: successively_mono simp: extends_blk(3) [OF e])
    with bs(2) show ?thesis by blast
  qed
  moreover have "b0 c' = b0 c"
    using e by (simp add: extends_def)
  ultimately show ?thesis
    using l le we certified_extends [OF e] unfolding vote_safe_def by metis
qed

lemma vote_hist_extends:
  assumes wf: "tree_wf c" and ro: "root_ok c" and ob: "on_branch c" and e: "extends c c'" and h: "vote_hist c rs"
    and votes: "votes_of (events c') = votes_of (events c)"
    and up: "vheight c \<le> vheight c'" "height (blk c (b_lock c)) \<le> height (blk c' (b_lock c'))"
  shows "vote_hist c' rs"
proof -
  have all: "\<forall>r \<in> set rs. r < next_ref c \<and> delivered (blk c r)"
    using h by (simp add: vote_hist_def vote_log_def)
  then have "\<forall>x \<in> set (take j rs). x < next_ref c \<and> delivered (blk c x)" for j
    using set_take_subset by fast
  then have "vote_safe c' (take j rs) (rs ! j)" if "j < length rs" for j
    using h that all by (intro vote_safe_extends [OF wf ro ob e]) (auto simp: vote_hist_def)
  moreover have "vote_log c' rs"
    using h vote_log_extends [OF _ e votes up(1)] by (simp add: vote_hist_def)
  moreover have "\<forall>x \<in> set rs. locked_upto c' x (b_lock c')"
    using h all up(2) by (auto simp: vote_hist_def intro: locked_upto_extends [OF wf ro ob e])
  ultimately show ?thesis
    by (simp add: vote_hist_def)
qed

subsection \<open>Receiving a proposal\<close>

text \<open>\<open>r\<close> may be voted on: the lock stands below \<open>vheight\<close>, or the update for \<open>r\<close> has just raised it.\<close>

definition ready :: "core \<Rightarrow> ref \<Rightarrow> bool" where
  "ready c r \<longleftrightarrow> lock_ok c \<and> (lock_voted c \<or> height (blk c (b_lock c)) < height (blk c r) \<and>
     (\<exists>y. qc_ref (blk c r) = Some y \<and> height (blk c (b_lock c)) < height (blk c y)))"

lemma ready_update:
  assumes inv: "core_inv c" and ob: "on_branch c" and ok: "lock_ok c" "lock_voted c" and r: "r < next_ref c" "delivered (blk c r)"
    and up: "update r c = Ok u c'"
  shows "ready c' r" and "locked_upto c' r (b_lock c')"
proof -
  note l = lock_ok_update [OF inv ob ok(1) r up]
  have adv: "advance c c'"
    by (rule advance_update [OF core_inv_parts(1) [OF inv] r(1) up])
  then have "vheight c' = vheight c"
    by (simp add: advance_def)
  then have "lock_voted c'" if "b_lock c' = b_lock c"
    using ok(2) that by (simp add: lock_voted_def keeps_blk [OF advance_keeps [OF adv]])
  then show "ready c' r"
    using l(1,3) by (auto simp: ready_def keeps_blk [OF advance_keeps [OF adv]])
  show "locked_upto c' r (b_lock c')"
    by (rule l(2))
qed

lemma opinion_rule:
  assumes wf: "tree_wf c" and r: "r < next_ref c" and op: "vote_opinion r c = Ok True c'"
  shows "(\<exists>q. qc_ref (blk c r) = Some q \<and> height (blk c (b_lock c)) < height (blk c q)) \<or>
    (\<exists>bs. chain (heap c) (b_lock c # bs) \<and> last (b_lock c # bs) = r)"
proof (cases "\<exists>q. qc_ref (blk c r) = Some q \<and> height (blk c (b_lock c)) < height (blk c q)")
  case False
  then have no: "\<not> (case qc_ref (blk c r) of Some q \<Rightarrow> height (blk c (b_lock c)) < height (blk c q) | None \<Rightarrow> False)"
    by (simp split: option.split)
  obtain bs z where w: "walk_down (heap c) (height (blk c (b_lock c))) r = Inr (bs, z)"
    "chain (heap c) (z # rev bs)" "last (z # rev bs) = r"
    by (rule walk_down_ok [OF wf r])
  have "z = b_lock c"
    using op no by (simp add: vote_opinion_def w(1) split: if_splits)
  with w show ?thesis by blast
qed simp

lemma ready_opinion:
  assumes rd: "ready c r" and op: "vote_opinion r c = Ok op c'"
  shows "lock_ok c'" and "lock_voted c'" and "op \<Longrightarrow> height (blk c (b_lock c)) < height (blk c r)"
proof -
  have heap: "heap c' = heap c" "next_ref c' = next_ref c" "b0 c' = b0 c" "b_lock c' = b_lock c" "b_exec c' = b_exec c"
    using op by (cases rule: vote_opinion_cases; simp)+
  show "lock_ok c'"
    using rd lock_ok_fields [OF _ heap] by (simp add: ready_def)
  have below: "height (blk c (b_lock c)) < height (blk c r)" if "vheight c < height (blk c r)"
    using rd that by (auto simp: ready_def lock_voted_def)
  show "lock_voted c'"
  proof (cases op)
    case True
    from op show ?thesis
      by (cases rule: vote_opinion_cases) (use True below in \<open>auto simp: lock_voted_def intro: less_imp_le\<close>)
  next
    case False
    from op have c': "c' = c"
      by (cases rule: vote_opinion_cases) (use False in simp_all)
    show ?thesis
    proof (rule ccontr)
      assume "\<not> lock_voted c'"
      then obtain y where y: "height (blk c (b_lock c)) < height (blk c r)" "qc_ref (blk c r) = Some y"
        "height (blk c (b_lock c)) < height (blk c y)" "vheight c < height (blk c (b_lock c))"
        using rd by (auto simp: ready_def lock_voted_def c')
      then have "vote_opinion r c = Ok True (c\<lparr>vheight := height (blk c r)\<rparr>)"
        by (simp add: vote_opinion_def)
      with op False show False by simp
    qed
  qed
  show "height (blk c (b_lock c)) < height (blk c r)" if op
    using op that below by (auto elim: vote_opinion_cases)
qed

lemma opinion_extends: "vote_opinion r c = Ok op c' \<Longrightarrow> extends c c' \<and> vheight c \<le> vheight c'"
  by (erule vote_opinion_cases) (auto simp: extends_def)

lemma lock_voted_idles: "idles c c' \<Longrightarrow> lock_voted c \<Longrightarrow> lock_voted c'"
  using idles_parts(1,2) [of c c'] by (simp add: lock_voted_def keeps_blk [OF advance_keeps]) (simp add: advance_def)

text \<open>A step that casts a vote adds it to the history.\<close>

lemma vote_hist_vote:
  assumes inv: "core_inv c" and rd: "ready c r" and r: "r < next_ref c" and op: "vote_opinion r c = Ok True c2"
    and h: "vote_hist c rs" and upto: "locked_upto c r (b_lock c)"
    and c4: "core_inv c4" "on_branch c4" "lock_ok c4" "extends c c4" "votes_of (events c4) = votes_of (events c)" "b_lock c4 = b_lock c"
      "vheight c4 = height (blk c r)"
  shows "vote_hist (emit (Do_Vote p \<lparr>voter = core_id c4, vote_blk_hash = blk_hash (blk c4 r), vote_cert = pc\<rparr>) c4) (rs @ [r])"
    (is "vote_hist ?c _")
proof -
  let ?b = "b_lock c"
  note wf = core_inv_parts(1) [OF inv] and inv4 = core_inv_parts [OF c4(1)]
  have ro: "root_ok c" and ok: "lock_ok c"
    using rd lock_ok_parts(1) by (auto simp: ready_def)
  note ob = on_branch_back [OF wf ro c4(4,2)]
  have v: "vheight c < height (blk c r)"
    using op by (cases rule: vote_opinion_cases) simp_all
  then have "0 < height (blk c r)"
    using word_zero_le le_less_trans by blast
  then have d: "delivered (blk c r)"
    using tree_wf_parent [OF wf r] by blast
  note re = extends_blk [OF c4(4) r d]
  have b: "?b < next_ref c" "delivered (blk c ?b)"
    using core_inv_parts(2) [OF inv] by (simp_all add: refs_ok_def)
  note be = extends_blk [OF c4(4) b]
  have below: "height (blk c ?b) < height (blk c r)"
    by (rule ready_opinion(3) [OF rd op]) simp
  have h4: "vote_hist c4 rs"
    by (rule vote_hist_extends [OF wf ro ob c4(4) h c4(5)]) (use v in \<open>simp_all add: c4(6,7) be\<close>)
  have rs: "\<forall>s \<in> set rs. height (blk c4 s) < height (blk c4 r)"
    using h v extends_blk(2) [OF c4(4)] by (auto simp: vote_hist_def vote_log_def re(2) intro: le_less_trans)
  have "vote_safe c rs r"
    unfolding vote_safe_def
    using b below opinion_rule [OF wf r op] lock_ok_parts(2) [OF ok] h by (intro exI [of _ ?b]) (simp add: vote_hist_def)
  then have safe: "vote_safe c4 rs r"
    using h r d by (intro vote_safe_extends [OF wf ro ob c4(4)]) (auto simp: vote_hist_def vote_log_def)
  have upto4: "locked_upto c4 r (b_lock c4)"
    by (rule locked_upto_extends [OF wf ro ob c4(4) r d upto]) (simp add: c4(6) be)
  have same: "vote_safe ?c xs w = vote_safe c4 xs w" "locked_upto ?c x l = locked_upto c4 x l" "b_lock ?c = b_lock c4" for xs w x l
    by (simp_all add: vote_safe_def locked_upto_def certified_def emit_def)
  have "vote_log ?c (rs @ [r])"
    using h4 by (intro vote_log_vote [OF _ rs]) (simp_all add: vote_hist_def re c4(7))
  moreover have "vote_safe c4 (take j (rs @ [r])) ((rs @ [r]) ! j)" if "j < length (rs @ [r])" for j
    using that h4 safe by (cases "j = length rs") (auto simp: vote_hist_def nth_append)
  ultimately show ?thesis
    using h4 upto4 by (simp add: vote_hist_def same)
qed

lemma on_branch_fields: "heap c' = heap c \<Longrightarrow> next_ref c' = next_ref c \<Longrightarrow> b0 c' = b0 c \<Longrightarrow> on_branch c' = on_branch c"
  by (simp add: on_branch_def)

lemma core_inv_opinion:
  assumes "core_inv c" and op: "vote_opinion r c = Ok op c'"
  shows "core_inv c'"
  using op by (cases rule: vote_opinion_cases) (use assms(1) core_inv_vheight in auto)

text \<open>The end of \<open>on_receive_proposal\<close>: the decision to vote, quiet steps, the vote.\<close>

lemma receive_end:
  assumes inv: "core_inv c" and rd: "ready c r" and r: "r < next_ref c" and ob: "on_branch c'"
    and op: "vote_opinion r c = Ok op c2" and st: "idles c2 c4" "heap c4 = heap c2"
    and c': "c' = (if op \<and> \<not> vote_disabled c4 then emit (Do_Vote p \<lparr>voter = core_id c4, vote_blk_hash = blk_hash (blk c4 r), vote_cert = pc\<rparr>) c4 else c4)"
    and h: "vote_hist c rs" and upto: "locked_upto c r (b_lock c) \<or> votes_of (events c') = votes_of (events c)"
  shows "lock_ok c' \<and> lock_voted c' \<and> (\<exists>rs. vote_hist c' rs)"
proof -
  note wf = core_inv_parts(1) [OF inv]
  have ro: "root_ok c"
    using rd lock_ok_parts(1) by (auto simp: ready_def)
  have h2: "heap c2 = heap c" "next_ref c2 = next_ref c" "b0 c2 = b0 c" "b_lock c2 = b_lock c" "votes_of (events c2) = votes_of (events c)"
    using op by (cases rule: vote_opinion_cases; simp)+
  note a4 = idles_parts [OF st(1)]
  have k4: "next_ref c4 = next_ref c2" "b0 c4 = b0 c2" "vheight c4 = vheight c2" "votes_of (events c4) = votes_of (events c2)"
    using a4(1) by (simp_all add: advance_def keeps_blk)
  have f: "heap c' = heap c4" "next_ref c' = next_ref c4" "b0 c' = b0 c4" "b_lock c' = b_lock c4" "b_exec c' = b_exec c4" "vheight c' = vheight c4"
    by (simp_all add: c' emit_def)
  have ob4: "on_branch c4" and obc: "on_branch c"
    using ob on_branch_fields [of c' c4] on_branch_fields [of c' c] by (simp_all add: f st(2) h2 k4)
  have ob2: "on_branch c2"
    using obc on_branch_fields [of c2 c] by (simp add: h2)
  have i2: "core_inv c2" and i4: "core_inv c4"
    using core_inv_opinion [OF inv op] core_inv_advance a4(1) by blast+
  note o = ready_opinion [OF rd op]
  have l4: "lock_ok c4" "lock_voted c4"
    using lock_ok_idles [OF i2 ob2 o(1) st(1)] lock_voted_idles [OF st(1) o(2)] .
  have e4: "extends c c4"
    by (simp add: extends_def st(2) h2 k4)
  have lc: "lock_ok c'" "lock_voted c'"
    using lock_ok_fields [OF l4(1) f(1-5)] l4(2) by (simp_all add: lock_voted_def f)
  show ?thesis
  proof (cases "op \<and> \<not> vote_disabled c4")
    case True
    then have op1: "vote_opinion r c = Ok True c2"
      using op by simp
    have "votes_of (events c') \<noteq> votes_of (events c)"
      using True by (simp add: c' emit_def k4 h2)
    then have up: "locked_upto c r (b_lock c)"
      using upto by blast
    have "vheight c4 = height (blk c r)"
      using op1 k4(3) by (cases rule: vote_opinion_cases) simp_all
    then have "vote_hist c' (rs @ [r])"
      using True vote_hist_vote [OF inv rd r op1 h up i4 ob4 l4(1) e4] by (simp add: c' k4 h2 a4(2))
    with lc show ?thesis by blast
  next
    case False
    then have "c' = c4"
      unfolding c' by (rule if_not_P)
    moreover have "vote_hist c4 rs"
      by (rule vote_hist_extends [OF wf ro obc e4 h]) (use opinion_extends [OF op] in \<open>simp_all add: k4 h2 a4 st(2)\<close>)
    ultimately show ?thesis
      using lc by blast
  qed
qed

subsection \<open>Every step keeps the history\<close>

definition vote_inv :: "core \<Rightarrow> bool" where
  "vote_inv c \<longleftrightarrow> lock_ok c \<and> lock_voted c \<and> (\<exists>rs. vote_hist c rs)"

lemma branch_back:
  assumes "core_inv a" and "root_ok a" and "extends a b" and "on_branch b"
  shows "on_branch a"
  by (rule on_branch_back [OF core_inv_parts(1) [OF assms(1)] assms(2-4)])

lemma vote_inv_idles:
  assumes inv: "core_inv c" and v: "vote_inv c" and st: "idles c c'" and ob: "on_branch c'"
  shows "vote_inv c'"
proof -
  have ok: "lock_ok c" "lock_voted c" and e: "extends c c'"
    using v extends_keeps [OF advance_keeps [OF idles_parts(1) [OF st]]] by (simp_all add: vote_inv_def)
  note obc = branch_back [OF inv lock_ok_parts(1) [OF ok(1)] e ob]
  obtain rs where "vote_hist c rs"
    using v by (auto simp: vote_inv_def)
  then have "vote_hist c' rs"
    using idles_parts(1,2) [OF st] keeps_blk(2) [OF advance_keeps [OF idles_parts(1) [OF st]]]
    by (intro vote_hist_extends [OF core_inv_parts(1) [OF inv] lock_ok_parts(1) [OF ok(1)] obc e]) (simp_all add: advance_def)
  then show ?thesis
    using lock_ok_idles [OF inv obc ok(1) st] lock_voted_idles [OF st ok(2)] by (auto simp: vote_inv_def)
qed

lemma vote_inv_grows:
  assumes inv: "core_inv c" and v: "vote_inv c" and g: "grows c c'" and ob: "on_branch c'"
  shows "vote_inv c'"
proof -
  have ok: "lock_ok c" "lock_voted c" and e: "extends c c'"
    using v extends_grows [OF g] by (simp_all add: vote_inv_def)
  note obc = branch_back [OF inv lock_ok_parts(1) [OF ok(1)] e ob]
  have same: "b_lock c' = b_lock c" "vheight c' = vheight c" "events c' = events c"
    using g by (simp_all add: grows_def)
  have ht: "height (blk c' (b_lock c)) = height (blk c (b_lock c))"
    using extends_blk(2) [OF e] core_inv_parts(2) [OF inv] by (simp add: refs_ok_def)
  obtain rs where "vote_hist c rs"
    using v by (auto simp: vote_inv_def)
  then have "vote_hist c' rs"
    by (rule vote_hist_extends [OF core_inv_parts(1) [OF inv] lock_ok_parts(1) [OF ok(1)] obc e]) (simp_all add: same ht)
  then show ?thesis
    using lock_ok_grows [OF inv obc ok(1) g] ok(2) by (auto simp: vote_inv_def lock_voted_def same ht)
qed

lemma vote_hist_advance:
  assumes inv: "core_inv c" and ro: "root_ok c" and ob: "on_branch c" and a: "advance c c'" and h: "vote_hist c rs"
  shows "vote_hist c' rs"
proof (rule vote_hist_extends [OF core_inv_parts(1) [OF inv] ro ob extends_keeps [OF advance_keeps [OF a]] h])
  show "height (blk c (b_lock c)) \<le> height (blk c' (b_lock c'))"
    using rises_advance [OF a] by (simp add: rises_def)
qed (use a in \<open>simp_all add: advance_def\<close>)

lemma vote_inv_receive:
  assumes inv: "core_inv c" and r: "prop_blk pro < next_ref c" and ok: "on_receive_proposal e pro c = Ok u c'"
    and ob: "on_branch c'" and h: "vote_hist c rs"
    and start: "if prop_proposer pro = core_id c
      then ready c (prop_blk pro) \<and> (locked_upto c (prop_blk pro) (b_lock c) \<or> votes_of (events c') = votes_of (events c))
      else lock_ok c \<and> lock_voted c"
  shows "vote_inv c'"
proof -
  let ?r = "prop_blk pro"
  obtain c1 c2 c4 op where c1: "if prop_proposer pro = core_id c then c1 = c else delivered (blk c ?r) \<and> update ?r c = Ok () c1"
    and st: "vote_opinion ?r c1 = Ok op c2" "idles c2 c4" "heap c4 = heap c2"
    and c': "c' = (if op \<and> \<not> vote_disabled c4 then emit (proposal_vote e pro c4) c4 else c4)"
    by (rule on_receive_proposal_stages [OF ok])
  note fin = receive_end [OF _ _ _ ob st c' [unfolded proposal_vote_def]]
  show ?thesis
  proof (cases "prop_proposer pro = core_id c")
    case True
    then have c1: "c1 = c" and rd: "ready c ?r"
      and up: "locked_upto c ?r (b_lock c) \<or> votes_of (events c') = votes_of (events c)"
      using c1 start by auto
    show ?thesis
      unfolding vote_inv_def by (rule fin [unfolded c1, OF inv rd r h up])
  next
    case False
    then have c1: "delivered (blk c ?r)" "update ?r c = Ok () c1" and l: "lock_ok c" "lock_voted c"
      using c1 start by auto
    have a1: "advance c c1"
      by (rule advance_update [OF core_inv_parts(1) [OF inv] r c1(2)])
    have e: "extends c c'"
      by (rule extends_step [OF inv core_step.receive_proposal [OF r ok]])
    note obc = branch_back [OF inv lock_ok_parts(1) [OF l(1)] e ob]
    note rd = ready_update [OF inv obc l r c1]
    have r1: "?r < next_ref c1"
      using r by (simp add: keeps_blk [OF advance_keeps [OF a1]])
    show ?thesis
      unfolding vote_inv_def
      by (rule fin [OF core_inv_advance [OF inv a1] rd(1) r1 vote_hist_advance [OF inv lock_ok_parts(1) [OF l(1)] obc a1 h]]) (simp add: rd(2))
  qed
qed

lemma vote_inv_propose:
  assumes inv: "core_inv c" and v: "vote_inv c" and small: "no_overflow c" and ok: "on_propose e cmds ps ex c = Ok r c'"
    and ob: "on_branch c'"
  shows "vote_inv c'"
proof -
  obtain ct c2 c3 u4 c4 pro u5 c5 where p: "idles c ct" "idles ct c2" "grows c2 c3" "core_inv c3" "update r c3 = Ok u4 c4"
    "prop_proposer pro = core_id c4" "prop_blk pro = r" "r < next_ref c3" "delivered (blk c3 r)"
    "on_receive_proposal e pro c4 = Ok u5 c5" "idles c5 c'"
    by (rule on_propose_stages [OF inv small ok])
  have a4: "advance c3 c4"
    by (rule advance_update [OF core_inv_parts(1) [OF p(4)] p(8,5)])
  have i: "core_inv ct" "core_inv c2" "core_inv c4"
    using core_inv_advance [OF inv idles_parts(1) [OF p(1)]] core_inv_advance idles_parts(1) [OF p(2)] core_inv_advance [OF p(4) a4] by blast+
  have r4: "prop_blk pro < next_ref c4"
    using p(7,8) by (simp add: keeps_blk [OF advance_keeps [OF a4]])
  have i5: "core_inv c5"
    by (rule core_inv_receive_proposal [OF i(3) r4 p(10)])
  have e: "extends c ct" "extends ct c2" "extends c2 c3" "extends c3 c4" "extends c4 c5" "extends c5 c'"
    using extends_keeps [OF advance_keeps [OF idles_parts(1)]] p(1,2,11) extends_grows [OF p(3)] extends_keeps [OF advance_keeps [OF a4]]
      extends_step [OF i(3) core_step.receive_proposal [OF r4 p(10)]] by blast+
  have ro: "root_ok c"
    using v lock_ok_parts(1) by (auto simp: vote_inv_def)
  note w = core_inv_parts(1)
  have rs1: "root_ok ct" by (rule root_ok_extends [OF w [OF inv] ro e(1)])
  have rs2: "root_ok c2" by (rule root_ok_extends [OF w [OF i(1)] rs1 e(2)])
  have rs3: "root_ok c3" by (rule root_ok_extends [OF w [OF i(2)] rs2 e(3)])
  have rs4: "root_ok c4" by (rule root_ok_extends [OF w [OF p(4)] rs3 e(4)])
  have rs5: "root_ok c5" by (rule root_ok_extends [OF w [OF i(3)] rs4 e(5)])
  have b5: "on_branch c5" by (rule branch_back [OF i5 rs5 e(6) ob])
  have b4: "on_branch c4" by (rule branch_back [OF i(3) rs4 e(5) b5])
  have b3: "on_branch c3" by (rule branch_back [OF p(4) rs3 e(4) b4])
  have b2: "on_branch c2" by (rule branch_back [OF i(2) rs2 e(3) b3])
  have bt: "on_branch ct" by (rule branch_back [OF i(1) rs1 e(2) b2])
  have v3: "vote_inv c3"
    by (rule vote_inv_grows [OF i(2) vote_inv_idles [OF i(1) vote_inv_idles [OF inv v p(1) bt] p(2) b2] p(3) b3])
  then obtain rs where l: "lock_ok c3" "lock_voted c3" "vote_hist c3 rs"
    by (auto simp: vote_inv_def)
  note rd = ready_update [OF p(4) b3 l(1,2) p(8,9,5)]
  have "vote_inv c5"
    using rd p(6,7) by (intro vote_inv_receive [OF i(3) r4 p(10) b5 vote_hist_advance [OF p(4) rs3 b3 a4 l(3)]]) simp
  then show ?thesis
    by (rule vote_inv_idles [OF i5 _ p(11) ob])
qed

lemma vote_inv_step:
  assumes inv: "core_inv c" and v: "vote_inv c" and st: "peer_step e c c'" and ob: "on_branch c'"
  shows "vote_inv c'"
proof -
  obtain rs where l: "lock_ok c" "lock_voted c" "vote_hist c rs"
    using v by (auto simp: vote_inv_def)
  have rd: "ready c r" for r
    using l by (simp add: ready_def)
  show ?thesis
    using st
  proof cases
    case (proposal pro u)
    then show ?thesis
      using l by (intro vote_inv_receive [OF inv _ _ ob l(3)]) auto
  next
    case (own cmds ps ex r)
    then show ?thesis
      using vote_inv_propose [OF inv v _ _ ob] by blast
  next
    case other
    from other(1) show ?thesis
    proof cases
      case (fetch b r)
      from fetch(2) show ?thesis
      proof (cases rule: fetch_blk_cases)
        case new
        then have "grows c c'"
          using fetch(1) core_inv_parts(1) [OF inv] by (intro fetch_blk_new(2) [OF _ _ _ _ new(3)]) (simp_all add: wire_block_def)
        then show ?thesis by (rule vote_inv_grows [OF inv v _ ob])
      qed (use v in simp)
    next
      case (deliver r d)
      then show ?thesis
        using vote_inv_grows [OF inv v advance_receive_deliver(2) [OF inv] ob] by blast
    next
      case (receive_proposal pro u)
      then show ?thesis
        using l rd other(2) by (intro vote_inv_receive [OF inv _ _ ob l(3)]) auto
    next
      case (propose cmds ps ex r)
      then show ?thesis
        using vote_inv_propose [OF inv v _ _ ob] by blast
    next
      case (receive_vote vt u)
      then show ?thesis
        using vote_inv_idles [OF inv v idles_on_receive_vote ob] core_inv_parts(1) [OF inv] by blast
    next
      case (local_order p hs ts)
      then show ?thesis
        using vote_inv_idles [OF inv v idles_on_local_order] ob by simp
    next
      case (receive_local_order lo)
      then show ?thesis
        using vote_inv_idles [OF inv v idles_on_receive_local_order] ob by simp
    next
      case (order_cmds iter mx now hs)
      then show ?thesis
        using vote_inv_idles [OF inv v idles_flashorder_propose ob] by blast
    next
      case (wait_qc r)
      then show ?thesis
        using vote_inv_idles [OF inv v idles_async_qc_finish] ob by simp
    qed
  qed
qed

text \<open>Start.\<close>

lemma start_fields:
  assumes "core_start e rid reps nfaulty fair gen net = Inr c"
  shows "root_ok c" and "next_ref c = 1" and "b0 c = 0" and "b_lock c = 0" and "b_exec c = 0" and "events c = []" and "delivered (blk c 0)"
    and "height (blk c 0) = 0"
proof -
  obtain c0 where c0: "core_new e rid = Inr c0"
    "c = on_init e nfaulty fair gen net (fold (\<lambda>(i, peer, pk). add_replica i peer pk) reps c0)"
    using assms by (cases "core_new e rid") (simp_all add: core_start_def)
  let ?c = "fold (\<lambda>(i, peer, pk). add_replica i peer pk) reps c0"
  have f: "fresh_core ?c"
    by (rule fresh_add_replicas [OF fresh_core_new [OF c0(1)]])
  have "parents (blk (fold (\<lambda>(i, peer, pk). add_replica i peer pk) reps c0) 0) = parents (blk c0 0)" for reps c0
    by (induction reps arbitrary: c0) (auto simp: add_replica_def upd_blk_def)
  moreover have "parents (blk c0 0) = []"
    using c0(1) by (auto simp: core_new_def block_genesis_def block_empty_def Let_def elim!: map_sum_InrE)
  ultimately show "root_ok c"
    using f by (simp add: c0(2) root_ok_def on_init_def Let_def upd_blk_def fresh_core_def)
  show "next_ref c = 1" and "b0 c = 0" and "b_lock c = 0" and "b_exec c = 0" and "events c = []" and "delivered (blk c 0)"
    and "height (blk c 0) = 0"
    using f by (simp_all add: c0(2) on_init_def Let_def upd_blk_def fresh_core_def)
qed

lemma root_ok_reachable: "core_reachable e c \<Longrightarrow> root_ok c"
proof (induction rule: core_reachable.induct)
  case (start rid reps nfaulty fair gen net c)
  then show ?case by (rule start_fields(1))
next
  case (step c c')
  note inv = core_reachable_inv [OF step.hyps(1)]
  show ?case
    by (rule root_ok_extends [OF core_inv_parts(1) [OF inv] step.IH extends_step [OF inv step.hyps(2)]])
qed

lemma vote_inv_start:
  assumes "core_start e rid reps nfaulty fair gen net = Inr c"
  shows "vote_inv c"
proof -
  note f = start_fields [OF assms]
  have "vote_hist c []"
    by (simp add: vote_hist_def vote_log_def f)
  moreover have "lock_ok c" "lock_voted c"
    using f by (simp_all add: lock_ok_def lock_voted_def)
  ultimately show ?thesis
    by (auto simp: vote_inv_def)
qed

lemma peer_reachable_inv: "peer_reachable e c \<Longrightarrow> on_branch c \<Longrightarrow> vote_inv c"
proof (induction rule: peer_reachable.induct)
  case (start rid reps nfaulty fair gen net c)
  then show ?case by (simp add: vote_inv_start)
next
  case (step c c')
  note reach = peer_core_reachable [OF step.hyps(1)]
  note inv = core_reachable_inv [OF reach]
  have "on_branch c"
    by (rule branch_back [OF inv root_ok_reachable [OF reach] extends_step [OF inv peer_core_step [OF step.hyps(2)]] step.prems])
  then show ?case
    by (intro vote_inv_step [OF inv step.IH step.hyps(2) step.prems])
qed

end
