(* ===== verification/Hash_Links.thy ===== *)
theory Hash_Links
  imports Lock_Rule
begin

text \<open>
  How the references of a replica's tree follow from the hashes inside its blocks: the first parent of a
  delivered block is the block with its first parent hash, and \<open>qc_ref\<close> is the block its certificate names.
\<close>

definition parent_hash :: "block \<Rightarrow> uint256 option" where
  "parent_hash b = (case parent_hashes b of [] \<Rightarrow> None | h # _ \<Rightarrow> Some h)"

definition qc_hash :: "block \<Rightarrow> uint256 option" where
  "qc_hash b = map_option qc_get_obj_hash (blk_qc b)"

definition linked :: "core \<Rightarrow> ref \<Rightarrow> bool" where
  "linked c x \<longleftrightarrow> map_option (\<lambda>p. blk_hash (blk c p)) (first_parent (blk c x)) = parent_hash (blk c x) \<and>
     map_option (\<lambda>q. blk_hash (blk c q)) (qc_ref (blk c x)) = qc_hash (blk c x)"

definition links :: "core \<Rightarrow> bool" where
  "links c \<longleftrightarrow> (\<forall>h r. find_blk h (storage c) = Some r \<longrightarrow> blk_hash (blk c r) = h) \<and>
     (\<forall>x < next_ref c. x \<noteq> b0 c \<longrightarrow> (blk_qc (blk c x) = None \<longrightarrow> qc_ref (blk c x) = None) \<and>
        (delivered (blk c x) \<longrightarrow> linked c x))"

lemma links_keeps: "keeps c c' \<Longrightarrow> links c \<Longrightarrow> links c'"
  by (simp add: links_def linked_def find_blk_def keeps_def same_shape_def parent_hash_def qc_hash_def first_parent_def)

text \<open>A delivered block stays linked when only other blocks change, and these not in their hashes.\<close>

lemma linked_agree:
  assumes wf: "tree_wf_but c r \<or> tree_wf c \<and> next_ref c \<le> r" and x: "x < next_ref c" "x \<noteq> b0 c" "x \<noteq> r" "delivered (blk c x)" and l: "linked c x"
    and same: "\<And>y. y \<noteq> r \<Longrightarrow> blk c' y = blk c y" and r: "r < next_ref c \<Longrightarrow> blk_hash (blk c' r) = blk_hash (blk c r)"
  shows "linked c' x"
proof -
  have "blk_wf (heap c) (next_ref c) (b0 c) x"
    using wf x(1,3) by (auto simp: tree_wf_def tree_wf_but_def)
  then have "p < next_ref c" if "first_parent (blk c x) = Some p \<or> qc_ref (blk c x) = Some p" for p
    using x(2,4) that by (auto simp: blk_wf_def first_parent_def)
  moreover have "blk_hash (blk c' p) = blk_hash (blk c p)" if "p < next_ref c" for p
    using same r that by metis
  ultimately show ?thesis
    using l same [OF x(3)] unfolding linked_def by (auto simp: map_option_case split: option.splits)
qed

lemma links_fetch:
  assumes wf: "tree_wf c" and l: "links c" and b: "\<not> delivered b" "blk_qc b = None \<longrightarrow> qc_ref b = None" and f: "fetch_blk b c = (r, c')"
  shows "links c'"
  using f
proof (cases rule: fetch_blk_cases)
  case new
  have hp: "blk c' x = (if x = next_ref c then b else blk c x)" "next_ref c' = next_ref c + 1" "b0 c' = b0 c" for x
    by (simp_all add: new)
  have cache: "blk_hash (blk c' x) = h" if "find_blk h (storage c') = Some x" for h x
  proof -
    have "find_blk h (storage c) = Some x \<and> x < next_ref c \<or> h = blk_hash b \<and> x = next_ref c"
      using that wf by (auto simp: new find_blk_def map_add_def tree_wf_def split: option.splits if_splits)
    then show ?thesis
      using l by (auto simp: hp links_def)
  qed
  have "linked c' x" if "x < next_ref c" "x \<noteq> b0 c" "delivered (blk c x)" for x
    using l that wf by (intro linked_agree [of c "next_ref c" x c']) (auto simp: hp links_def)
  with l b cache show ?thesis
    by (auto simp: links_def hp less_Suc_eq)
qed (use l in simp)

subsection \<open>Delivery\<close>

lemma deliver_parents_hashes:
  "deliver_parents r hs c = Ok u c' \<Longrightarrow> \<forall>h x. find_blk h (storage c) = Some x \<longrightarrow> blk_hash (blk c x) = h \<Longrightarrow>
   (\<exists>ps. c' = upd_blk r (\<lambda>b. b\<lparr>parents := parents b @ ps\<rparr>) c \<and> map (\<lambda>p. blk_hash (blk c p)) ps = hs)"
proof (induction hs arbitrary: c)
  case Nil
  then show ?case
    by (intro exI [of _ "[]"]) (simp add: upd_blk_def)
next
  case (Cons h hs)
  obtain p where p: "get_delivered_blk h c = Inr p"
    and rest: "deliver_parents r hs (upd_blk r (\<lambda>b. b\<lparr>parents := parents b @ [p]\<rparr>) c) = Ok u c'"
    using Cons.prems(1) by (auto split: sum.splits)
  let ?c = "upd_blk r (\<lambda>b. b\<lparr>parents := parents b @ [p]\<rparr>) c"
  have hash: "blk_hash (blk ?c x) = blk_hash (blk c x)" for x
    by (simp add: upd_blk_def)
  have "blk_hash (blk c p) = h"
    using p Cons.prems(2) by (auto simp: get_delivered_blk_def split: option.splits if_splits)
  moreover have "storage ?c = storage c"
    by (simp add: upd_blk_def)
  then obtain ps where "c' = upd_blk r (\<lambda>b. b\<lparr>parents := parents b @ ps\<rparr>) ?c" "map (\<lambda>p. blk_hash (blk ?c p)) ps = hs"
    using Cons.IH [OF rest] Cons.prems(2) hash by auto
  ultimately show ?case
    by (intro exI [of _ "p # ps"]) (simp add: hash, simp add: upd_blk_def)
qed

lemma links_deliver:
  assumes wf: "tree_wf_but c r" and l: "links c" and ok: "on_deliver_blk r c = Ok d c'"
  shows "links c'"
proof -
  have nd: "\<not> delivered (blk c r)" and r: "r < next_ref c" "r \<noteq> b0 c"
    using wf by (auto simp: tree_wf_but_def)
  obtain c1 p ps q where 1: "deliver_parents r (parent_hashes (blk c r)) (upd_blk r (\<lambda>b. b\<lparr>parents := []\<rparr>) c) = Ok () c1"
    "parents (blk c1 r) = p # ps"
    "q = (case blk_qc (blk c1 r) of None \<Rightarrow> qc_ref (blk c1 r) | Some qc \<Rightarrow> find_blk (qc_get_obj_hash qc) (storage c1))"
    "blk_qc (blk c1 r) \<noteq> None \<Longrightarrow> q \<noteq> None"
    and c': "c' = deliver_done r (upd_blk r (\<lambda>b. b\<lparr>height := height (blk c1 p) + 1, qc_ref := q\<rparr>) c1)"
    by (rule on_deliver_blk_cases [OF ok nd]) blast
  let ?c0 = "upd_blk r (\<lambda>b. b\<lparr>parents := []\<rparr>) c"
  have cache: "\<forall>h x. find_blk h (storage ?c0) = Some x \<longrightarrow> blk_hash (blk ?c0 x) = h"
    using l by (auto simp: upd_blk_def links_def)
  obtain ps' where c1: "c1 = upd_blk r (\<lambda>b. b\<lparr>parents := parents b @ ps'\<rparr>) ?c0"
    and hs: "map (\<lambda>p. blk_hash (blk ?c0 p)) ps' = parent_hashes (blk c r)"
    using deliver_parents_hashes [OF 1(1) cache] by blast
  have ps: "ps' = p # ps"
    using 1(2) by (simp add: c1 upd_blk_def)
  have same: "blk c' y = blk c y" if "y \<noteq> r" for y
    using that by (simp add: c' c1 deliver_done_def upd_blk_def)
  have new: "blk_hash (blk c' r) = blk_hash (blk c r)" "parents (blk c' r) = p # ps" "parent_hashes (blk c' r) = parent_hashes (blk c r)"
    "blk_qc (blk c' r) = blk_qc (blk c r)" "qc_ref (blk c' r) = q" "next_ref c' = next_ref c" "b0 c' = b0 c" "storage c' = storage c"
    by (simp_all add: c' c1 deliver_done_def upd_blk_def ps)
  have hash: "blk_hash (blk c' x) = blk_hash (blk c x)" for x
    using same new(1) by (cases "x = r") simp_all
  have hash0: "blk_hash (blk ?c0 x) = blk_hash (blk c x)" for x
    by (simp add: upd_blk_def)
  have q: "q = (case blk_qc (blk c r) of None \<Rightarrow> qc_ref (blk c r) | Some qc \<Rightarrow> find_blk (qc_get_obj_hash qc) (storage c))"
    "blk_qc (blk c r) \<noteq> None \<Longrightarrow> q \<noteq> None"
    using 1(3,4) by (simp_all add: c1 upd_blk_def cong: option.case_cong)
  have none: "blk_qc (blk c x) = None \<longrightarrow> qc_ref (blk c x) = None" if "x < next_ref c" "x \<noteq> b0 c" for x
    using l that by (simp add: links_def)
  note none_r = none [OF r]
  have "linked c' r"
  proof -
    have "map_option (\<lambda>q. blk_hash (blk c q)) q = qc_hash (blk c r)"
      using q l none [OF r] by (auto simp: qc_hash_def links_def split: option.splits)
    moreover have "parent_hash (blk c r) = Some (blk_hash (blk c p))"
      using hs by (auto simp: parent_hash_def ps hash0 split: list.splits)
    ultimately show ?thesis
      by (simp add: linked_def new hash first_parent_def parent_hash_def qc_hash_def)
  qed
  moreover have "linked c' x" if "x < next_ref c" "x \<noteq> b0 c" "x \<noteq> r" "delivered (blk c x)" for x
    using l that wf by (intro linked_agree [of c r x c']) (auto simp: same new(1) links_def)
  moreover have "blk_qc (blk c' x) = None \<longrightarrow> qc_ref (blk c' x) = None" if "x < next_ref c" "x \<noteq> b0 c" for x
    using none [OF that] same new(4,5) q none [OF r] by (cases "x = r") (auto split: option.splits)
  ultimately show ?thesis
    using l unfolding links_def new(6-8) hash by (metis same)
qed

subsection \<open>Every step\<close>

lemma receive_keeps:
  assumes wf: "tree_wf c" and r: "prop_blk pro < next_ref c" and ok: "on_receive_proposal e pro c = Ok u c'"
  shows "keeps c c'"
proof -
  obtain c1 c2 c4 op where *: "advance c c1" "vote_opinion (prop_blk pro) c1 = Ok op c2" "advance c2 c4"
    "heap c4 = heap c2" "b_lock c4 = b_lock c2" "next_ref c4 = next_ref c2"
    "c' = (if op \<and> \<not> vote_disabled c4 then emit (proposal_vote e pro c4) c4 else c4)"
    by (rule on_receive_proposal_cases [OF wf r ok])
  have "keeps c1 c2"
    using *(2) by (cases rule: vote_opinion_cases) (simp_all add: keeps_def)
  then have "keeps c c4"
    using advance_keeps [OF *(1)] advance_keeps [OF *(3)] keeps_trans by blast
  then show ?thesis
    by (simp add: *(7) keeps_trans [OF _ keeps_emit])
qed

lemma links_deliver_step:
  assumes wf: "tree_wf c" and r: "r < next_ref c" and l: "links c" and ok: "on_deliver_blk r c = Ok d c'"
  shows "links c'"
proof (cases "delivered (blk c r)")
  case True
  with ok l show ?thesis by (simp add: on_deliver_blk_def)
next
  case False
  show ?thesis
    by (rule links_deliver [OF tree_wf_butI [OF wf r False] l ok])
qed

lemma links_propose:
  assumes inv: "core_inv c" and l: "links c" and small: "no_overflow c" and ok: "on_propose e cmds ps ex c = Ok r c'"
  shows "links c'"
proof -
  obtain p ct h qc b c1 sq c2 pro d c3 u4 c4 u5 c5
  where ct: "ct = c\<lparr>tails := tails c - set ps\<rparr>" and h: "hqc ct = Some (h, qc)"
    and b: "block_make (e_sha e) (heap ct) ps cmds qc ex (height (blk ct p) + 1) (Some h) None 0 = Inr b"
    and f: "fetch_blk b ct = (r, c1)" and c2: "c2 = upd_blk r (\<lambda>b. b\<lparr>self_qc := sq b\<rparr>) c1"
    and pro: "pro = \<lparr>prop_proposer = core_id c2, prop_blk = r\<rparr>"
    and dl: "on_deliver_blk r c2 = Ok d c3" and up: "update r c3 = Ok u4 c4"
    and rp: "on_receive_proposal e pro c4 = Ok u5 c5"
    and c': "c' = emit (Do_Broadcast_Proposal pro) (emit (Resolve_Propose pro) c5)"
    by (rule on_propose_runs [OF ok])
  note bf = block_make_fields [OF b]
  have t: "idles c ct"
    unfolding ct by (rule idles_tails)
  have inv_t: "core_inv ct"
    by (rule core_inv_advance [OF inv idles_parts(1) [OF t]])
  note wf = core_inv_parts(1) [OF inv_t]
  have q: "\<forall>q. qc_ref b = Some q \<longrightarrow> q < next_ref ct"
    using core_inv_parts(2) [OF inv_t] h by (simp add: bf refs_ok_def)
  have lt: "links ct"
    by (rule links_keeps [OF advance_keeps [OF idles_parts(1) [OF t]] l])
  have "links c1"
    by (rule links_fetch [OF wf lt bf(1) _ f]) (simp add: bf)
  then have l2: "links c2"
    unfolding c2 by (intro links_keeps [OF keeps_upd_blk]) (simp_all add: same_shape_def)
  have l3: "links c3"
    using f
  proof (cases rule: fetch_blk_cases)
    case cached
    then have "r < next_ref ct"
      using wf by (simp add: tree_wf_def)
    moreover have "keeps ct c2"
      unfolding c2 cached(2) by (rule keeps_upd_blk) (simp add: same_shape_def)
    ultimately show ?thesis
      using links_deliver_step [OF tree_wf_keeps [OF wf] _ l2 dl] by (simp add: keeps_blk)
  next
    case new
    note w = fetch_blk_new [OF wf bf(1) q bf(6) new(3)]
    have "tree_wf_but c2 r"
      unfolding c2 by (rule upd_undelivered(1) [OF w(1) [folded new(2)]]) (use bf q in \<open>simp_all add: new\<close>)
    then show ?thesis
      by (rule links_deliver [OF _ l2 dl])
  qed
  have small': "no_overflow ct"
    using small by (simp add: no_overflow_def ct)
  note m = core_inv_make [OF inv_t small' bf(1) q bf(6) f dl [unfolded c2]]
  have a4: "advance c3 c4"
    by (rule advance_update [OF core_inv_parts(1) [OF m(1)] m(2) up])
  have "keeps c4 c5"
    using m(2) by (intro receive_keeps [OF core_inv_parts(1) [OF core_inv_advance [OF m(1) a4]] _ rp])
      (simp add: pro keeps_blk [OF advance_keeps [OF a4]])
  then have "keeps c3 c'"
    unfolding c' using advance_keeps [OF a4] keeps_trans keeps_emit by blast
  then show ?thesis
    by (rule links_keeps [OF _ l3])
qed

lemma links_step:
  assumes inv: "core_inv c" and l: "links c" and st: "core_step e c c'"
  shows "links c'"
  using st
proof cases
  case (fetch b r)
  then show ?thesis
    by (intro links_fetch [OF core_inv_parts(1) [OF inv] l _ _ fetch(2)]) (auto simp: wire_block_def)
next
  case (deliver r d)
  then show ?thesis
    using links_deliver_step [OF core_inv_parts(1) [OF inv] _ l] by blast
next
  case (receive_proposal pro u)
  then show ?thesis
    using links_keeps [OF receive_keeps [OF core_inv_parts(1) [OF inv]] l] by blast
next
  case (propose cmds ps ex r)
  then show ?thesis
    using links_propose [OF inv l] by blast
next
  case (receive_vote v u)
  then show ?thesis
    using links_keeps [OF advance_keeps [OF advance_ops(1)] l] core_inv_parts(1) [OF inv] by blast
next
  case (local_order p hs ts)
  then show ?thesis using links_keeps [OF advance_keeps [OF advance_ops(2)] l] by simp
next
  case (receive_local_order lo)
  then show ?thesis using links_keeps [OF advance_keeps [OF advance_ops(3)] l] by simp
next
  case (order_cmds iter mx now hs)
  then show ?thesis using links_keeps [OF advance_keeps [OF advance_ops(4)] l] by blast
next
  case (wait_qc r)
  then show ?thesis using links_keeps [OF advance_keeps [OF advance_ops(5)] l] by simp
qed

subsection \<open>Reachable states\<close>

lemma add_replicas_block:
  fixes reps
  defines "add \<equiv> fold (\<lambda>(i, peer, pk). add_replica i peer pk) reps"
  shows "storage (add c) = storage c" "b0 (add c) = b0 c" "next_ref (add c) = next_ref c" "blk_hash (blk (add c) r) = blk_hash (blk c r)"
    "parents (blk (add c) r) = parents (blk c r)" "parent_hashes (blk (add c) r) = parent_hashes (blk c r)"
  unfolding add_def
  by (induction reps arbitrary: c) (auto simp: add_replica_def upd_blk_def)

lemma start_links:
  assumes "core_start e rid reps nfaulty fair gen net = Inr c"
  shows "links c \<and> linked c (b0 c) \<and> parent_hashes (blk c (b0 c)) = []"
proof -
  obtain c0 where c0: "core_new e rid = Inr c0"
    "c = on_init e nfaulty fair gen net (fold (\<lambda>(i, peer, pk). add_replica i peer pk) reps c0)"
    using assms by (cases "core_new e rid") (simp_all add: core_start_def)
  have new: "b0 c0 = 0" "next_ref c0 = 1" "parents (blk c0 0) = []" "parent_hashes (blk c0 0) = []" "blk_cache (storage c0) = [(blk_hash (blk c0 0), 0)]"
    using c0(1) by (auto simp: core_new_def block_genesis_def block_empty_def Let_def storage_new_def add_blk_def map_insert_def elim!: map_sum_InrE)
  note add = add_replicas_block [of reps c0]
  have "linked c (b0 c)"
    using new by (simp add: c0(2) on_init_def Let_def upd_blk_def add linked_def first_parent_def parent_hash_def qc_hash_def create_quorum_cert_def)
  moreover have "links c"
    using new by (simp add: c0(2) on_init_def Let_def upd_blk_def add links_def find_blk_def)
  moreover have "parent_hashes (blk c (b0 c)) = []"
    using new by (simp add: c0(2) on_init_def Let_def upd_blk_def add)
  ultimately show ?thesis by blast
qed

lemma linked_extends:
  assumes wf: "tree_wf c" and ro: "root_ok c" and e: "extends c c'" and l: "linked c (b0 c)"
  shows "linked c' (b0 c')"
proof -
  have z: "b0 c < next_ref c" "delivered (blk c (b0 c))" "b0 c' = b0 c"
    using wf e by (simp_all add: tree_wf_def extends_def)
  show ?thesis
    using l ro extends_blk [OF e z(1,2)] unfolding linked_def z(3)
    by (simp add: root_ok_def first_parent_def parent_hash_def qc_hash_def)
qed

lemma reachable_linked:
  assumes "core_reachable e c"
  shows "links c \<and> linked c (b0 c) \<and> parent_hashes (blk c (b0 c)) = []"
  using assms
proof (induction rule: core_reachable.induct)
  case (start rid reps nfaulty fair gen net c)
  then show ?case by (rule start_links)
next
  case (step c c')
  note inv = core_reachable_inv [OF step.hyps(1)] and e = extends_step [OF core_reachable_inv [OF step.hyps(1)] step.hyps(2)]
  note wf = core_inv_parts(1) [OF inv]
  have "parent_hashes (blk c' (b0 c')) = []"
    using step.IH extends_blk(7) [OF e, of "b0 c"] wf e by (simp add: tree_wf_def extends_def)
  then show ?case
    using step.IH links_step [OF inv _ step.hyps(2)] linked_extends [OF wf root_ok_reachable [OF step.hyps(1)] e] by blast
qed

lemma delivered_linked:
  assumes "core_reachable e c" and "x < next_ref c" and "delivered (blk c x)"
  shows "linked c x"
  using reachable_linked [OF assms(1)] assms(2,3) by (cases "x = b0 c") (auto simp: links_def)

end
