(* ===== verification/Quorum_Tree.thy ===== *)
theory Quorum_Tree
  imports Replica_Safety
begin

text \<open>
  The argument behind the three-chain rule, on a tree of blocks that many replicas share: each block has
  at most one parent and names at most one certified block. Quorums intersect in an honest replica, and
  an honest replica votes upwards and respects its lock.
\<close>

definition ancestry :: "('b \<Rightarrow> 'b option) \<Rightarrow> ('b \<times> 'b) set" where
  "ancestry par = {(p, b). par b = Some p}"

text \<open>
  \<open>respects_lock\<close>: when the replica votes for \<open>w\<close> after it has voted for \<open>xs\<close>, it is locked on some
  certified block below \<open>w\<close> that is at least as high as what the blocks of \<open>xs\<close> have locked.
\<close>

definition respects_lock :: "('b \<Rightarrow> 'b option) \<Rightarrow> ('b \<Rightarrow> 'b option) \<Rightarrow> ('b \<Rightarrow> nat) \<Rightarrow> 'b set \<Rightarrow> 'b list \<Rightarrow> 'b \<Rightarrow> bool" where
  "respects_lock par just ht locks xs w \<longleftrightarrow>
     (\<exists>l \<in> locks. ht l < ht w \<and>
        (\<forall>x \<in> set xs. \<forall>y g. just x = Some y \<longrightarrow> just y = Some g \<longrightarrow> ht g \<le> ht l) \<and>
        ((\<exists>k. just w = Some k \<and> ht l < ht k) \<or> (l, w) \<in> (ancestry par)\<^sup>*))"

definition quorum_voted :: "'r set \<Rightarrow> 'r set \<Rightarrow> nat \<Rightarrow> ('r \<Rightarrow> 'b list) \<Rightarrow> 'b \<Rightarrow> bool" where
  "quorum_voted N H q votes b \<longleftrightarrow> (\<exists>Q \<subseteq> N. q \<le> card Q \<and> (\<forall>s \<in> Q \<inter> H. b \<in> set (votes s)))"

text \<open>Two quorums have an honest replica in common.\<close>

lemma quorums_intersect:
  assumes "finite N" and "H \<subseteq> N" and "card N + card (N - H) < 2 * q"
    and "quorum_voted N H q votes b" and "quorum_voted N H q votes b'"
  obtains s where "s \<in> H" and "b \<in> set (votes s)" and "b' \<in> set (votes s)"
proof -
  obtain Q Q' where Q: "Q \<subseteq> N" "q \<le> card Q" "\<forall>s \<in> Q \<inter> H. b \<in> set (votes s)"
    and Q': "Q' \<subseteq> N" "q \<le> card Q'" "\<forall>s \<in> Q' \<inter> H. b' \<in> set (votes s)"
    using assms(4,5) unfolding quorum_voted_def by blast
  have fin: "finite Q" "finite Q'"
    using assms(1) Q(1) Q'(1) finite_subset by blast+
  have "card Q + card Q' = card (Q \<union> Q') + card (Q \<inter> Q')"
    by (rule card_Un_Int [OF fin])
  moreover have "card (Q \<union> Q') \<le> card N"
    using assms(1) Q(1) Q'(1) by (simp add: card_mono)
  ultimately have "card (N - H) < card (Q \<inter> Q')"
    using assms(3) Q(2) Q'(2) by simp
  then have "\<not> Q \<inter> Q' \<subseteq> N - H"
    using card_mono [of "N - H" "Q \<inter> Q'"] assms(1) by auto
  then obtain s where "s \<in> Q" "s \<in> Q'" "s \<in> H"
    using Q(1) by blast
  with Q(3) Q'(3) show thesis
    by (intro that) blast+
qed

lemma nth_higher_index:
  assumes "sorted_wrt (\<lambda>x y. ht x < (ht y :: nat)) xs" and "x \<in> set xs" and "y \<in> set xs" and "ht x < ht y"
  obtains j where "j < length xs" and "xs ! j = y" and "x \<in> set (take j xs)"
proof -
  obtain i j where ij: "i < length xs" "xs ! i = x" "j < length xs" "xs ! j = y"
    using assms(2,3) unfolding in_set_conv_nth by blast
  have "i < j"
  proof (rule ccontr)
    assume "\<not> i < j"
    then have "j = i \<or> j < i" by auto
    then show False
      using assms(1,4) ij by (auto simp: sorted_wrt_iff_nth_less dest: less_asym)
  qed
  then have "x \<in> set (take j xs)"
    using ij by (auto simp: in_set_conv_nth intro: exI [of _ i])
  with ij show thesis by (intro that)
qed

text \<open>
  The facts that the replicas' states supply: \<open>C\<close> are the certified blocks and \<open>z\<close> the genesis block.
\<close>

definition voting_tree :: "('b \<Rightarrow> 'b option) \<Rightarrow> ('b \<Rightarrow> 'b option) \<Rightarrow> ('b \<Rightarrow> nat) \<Rightarrow> 'b \<Rightarrow> 'b set \<Rightarrow> 'r set \<Rightarrow> ('r \<Rightarrow> 'b list) \<Rightarrow> bool" where
  "voting_tree par just ht z C H votes \<longleftrightarrow>
     ht z = 0 \<and> (\<forall>b p. par b = Some p \<longrightarrow> ht b = Suc (ht p)) \<and>
     (\<forall>b \<in> insert z C. \<forall>k. b \<noteq> z \<longrightarrow> just b = Some k \<longrightarrow> k \<in> insert z C \<and> (k, b) \<in> (ancestry par)\<^sup>+) \<and>
     (\<forall>b \<in> insert z C. ht b = 0 \<longrightarrow> b = z) \<and>
     (\<forall>s \<in> H. sorted_wrt (\<lambda>x y. ht x < ht y) (votes s) \<and>
        (\<forall>j < length (votes s). respects_lock par just ht (insert z C) (take j (votes s)) (votes s ! j)))"

lemma ancestry_height:
  assumes "\<And>b p. par b = Some p \<Longrightarrow> ht b = Suc (ht p)"
  shows "(a, b) \<in> (ancestry par)\<^sup>* \<Longrightarrow> ht a \<le> (ht b :: nat)" and "(a, b) \<in> (ancestry par)\<^sup>+ \<Longrightarrow> ht a < ht b"
proof -
  show "ht a \<le> ht b" if "(a, b) \<in> (ancestry par)\<^sup>*"
    using that by (induction rule: rtrancl_induct) (auto simp: ancestry_def dest: assms)
  show "ht a < ht b" if "(a, b) \<in> (ancestry par)\<^sup>+"
    using that by (induction rule: trancl_induct) (auto simp: ancestry_def dest: assms)
qed

text \<open>Two certified blocks of the same height are the same block.\<close>

lemma certified_unique:
  assumes N: "finite N" "H \<subseteq> N" "card N + card (N - H) < 2 * q"
    and t: "voting_tree par just ht z C H votes" and q: "\<forall>k \<in> C. k \<noteq> z \<longrightarrow> quorum_voted N H q votes k"
    and a: "a \<in> insert z C" and b: "b \<in> insert z C" and eq: "ht a = ht b"
  shows "a = b"
proof (cases "a = z \<or> b = z")
  case True
  then have "ht a = 0" "ht b = 0"
    using t eq by (auto simp: voting_tree_def)
  with a b t show ?thesis
    unfolding voting_tree_def by metis
next
  case False
  obtain s where s: "s \<in> H" "a \<in> set (votes s)" "b \<in> set (votes s)"
    using quorums_intersect [OF N, of votes a b] q a b False by auto
  then have "sorted_wrt (\<lambda>x y. ht x < ht y) (votes s)"
    using t by (simp add: voting_tree_def)
  with s eq show ?thesis
    unfolding in_set_conv_nth sorted_wrt_iff_nth_less by (metis less_irrefl linorder_neqE_nat)
qed

text \<open>
  A certified block that is at least as high as the tail of a certified three-chain over direct parents
  extends this tail.
\<close>

lemma extends_committed:
  assumes N: "finite N" "H \<subseteq> N" "card N + card (N - H) < 2 * q"
    and t: "voting_tree par just ht z C H votes" and q: "\<forall>k \<in> C. k \<noteq> z \<longrightarrow> quorum_voted N H q votes k"
    and three: "b2 \<in> C" "just b2 = Some b1" "just b1 = Some b" "par b2 = Some b1" "par b1 = Some b"
  shows "w \<in> insert z C \<Longrightarrow> ht b \<le> ht w \<Longrightarrow> (b, w) \<in> (ancestry par)\<^sup>*"
proof (induction "ht w" arbitrary: w rule: less_induct)
  case less
  have par: "par x = Some p \<Longrightarrow> ht x = Suc (ht p)" for x p
    using t by (simp add: voting_tree_def)
  have just: "k \<in> insert z C \<and> (k, x) \<in> (ancestry par)\<^sup>+" if "x \<in> insert z C" "x \<noteq> z" "just x = Some k" for x k
    using t that by (simp add: voting_tree_def)
  have hts: "ht b1 = Suc (ht b)" "ht b2 = Suc (Suc (ht b))"
    using par three(4,5) by simp_all
  have z: "ht z = 0"
    using t by (simp add: voting_tree_def)
  have "b1 \<noteq> z" "b2 \<noteq> z"
    using hts z by auto
  then have C: "b1 \<in> insert z C" "b \<in> insert z C"
    using just [of b2 b1] just [of b1 b] three by auto
  have up: "(b, b1) \<in> (ancestry par)\<^sup>*" "(b, b2) \<in> (ancestry par)\<^sup>*"
    using three(4,5) by (auto simp: ancestry_def intro: rtrancl_into_rtrancl)
  note unique = certified_unique [OF N t q]
  consider "ht w = ht b" | "ht w = ht b1" | "ht w = ht b2" | "ht b2 < ht w"
    using less.prems(2) hts by linarith
  then show ?case
  proof cases
    case 1
    then show ?thesis using unique [OF less.prems(1) C(2)] by simp
  next
    case 2
    then show ?thesis using unique [OF less.prems(1) C(1)] up(1) by simp
  next
    case 3
    then show ?thesis using unique [OF less.prems(1), of b2] three(1) up(2) by simp
  next
    case 4
    then have w: "w \<in> C" "w \<noteq> z" "b2 \<noteq> z"
      using less.prems(1) hts z by auto
    obtain s where s: "s \<in> H" "b2 \<in> set (votes s)" "w \<in> set (votes s)"
      using quorums_intersect [OF N, of votes b2 w] q three(1) w by auto
    then obtain j where j: "j < length (votes s)" "votes s ! j = w" "b2 \<in> set (take j (votes s))"
      using nth_higher_index [of ht "votes s" b2 w] t 4 unfolding voting_tree_def by blast
    then have "respects_lock par just ht (insert z C) (take j (votes s)) w"
      using t s(1) unfolding voting_tree_def by blast
    then obtain l where l: "l \<in> insert z C" "ht l < ht w" "ht b \<le> ht l"
      "(\<exists>k. just w = Some k \<and> ht l < ht k) \<or> (l, w) \<in> (ancestry par)\<^sup>*"
      unfolding respects_lock_def using j(3) three(2,3) by blast
    from l(4) show ?thesis
    proof (elim disjE exE conjE)
      fix k
      assume k: "just w = Some k" "ht l < ht k"
      have kw: "k \<in> insert z C" "(k, w) \<in> (ancestry par)\<^sup>+"
        using just [OF less.prems(1) w(2) k(1)] by simp_all
      have "(b, k) \<in> (ancestry par)\<^sup>*"
        using less.hyps [OF ancestry_height(2) [OF par kw(2)] kw(1)] k(2) l(3) by simp
      with kw(2) show ?thesis
        by (meson rtrancl_trans trancl_into_rtrancl)
    next
      assume "(l, w) \<in> (ancestry par)\<^sup>*"
      with less.hyps [OF l(2,1,3)] show ?thesis
        by (rule rtrancl_trans)
    qed
  qed
qed

end
