(* ===== verification/Agreement.thy ===== *)
theory Agreement
  imports Hash_Links Quorum_Tree "HOL-Library.Sublist"
begin

text \<open>
  Agreement between replicas: what two honest replicas commit is one chain, as far as both have got. The
  cores of the replicas are independent states; they meet in the hashes of their blocks and in the votes
  behind the certificates.
\<close>

subsection \<open>A system of replicas\<close>

definition voted_hashes :: "core \<Rightarrow> uint256 list" where
  "voted_hashes c = map (\<lambda>(p, v). vote_blk_hash v) (votes_of (events c))"

definition committed_hashes :: "core \<Rightarrow> uint256 list" where
  "committed_hashes c = map (\<lambda>r. blk_hash (blk c r)) (commits_of (events c))"

definition delivered_at :: "(replica_id \<Rightarrow> core) \<Rightarrow> replica_id set \<Rightarrow> replica_id \<Rightarrow> ref \<Rightarrow> bool" where
  "delivered_at cs H s x \<longleftrightarrow> s \<in> H \<and> x < next_ref (cs s) \<and> delivered (blk (cs s) x)"

text \<open>
  No two blocks that honest replicas have delivered have the same hash and differ in what SHA-256 was
  computed of: the parents, the commands, the certified block.
\<close>

definition collision_free :: "(replica_id \<Rightarrow> core) \<Rightarrow> replica_id set \<Rightarrow> bool" where
  "collision_free cs H \<longleftrightarrow>
     (\<forall>s t x y. delivered_at cs H s x \<longrightarrow> delivered_at cs H t y \<longrightarrow> blk_hash (blk (cs s) x) = blk_hash (blk (cs t) y) \<longrightarrow>
        parent_hashes (blk (cs s) x) = parent_hashes (blk (cs t) y) \<and> blk_cmds (blk (cs s) x) = blk_cmds (blk (cs t) y) \<and>
        qc_hash (blk (cs s) x) = qc_hash (blk (cs t) y))"

text \<open>
  Behind each certificate in a delivered block stand \<open>q\<close> replicas; the honest ones among them have voted
  for the certified block. The certificate of the genesis block has no votes.
\<close>

definition certificates_backed :: "(replica_id \<Rightarrow> core) \<Rightarrow> replica_id set \<Rightarrow> replica_id set \<Rightarrow> nat \<Rightarrow> bool" where
  "certificates_backed cs N H q \<longleftrightarrow>
     (\<forall>s x k. delivered_at cs H s x \<longrightarrow> qc_ref (blk (cs s) x) = Some k \<longrightarrow> k \<noteq> b0 (cs s) \<longrightarrow>
        quorum_voted N H q (\<lambda>t. voted_hashes (cs t)) (blk_hash (blk (cs s) k)))"

text \<open>
  The honest replicas \<open>H\<close> among the replicas \<open>N\<close> start from one genesis block with hash \<open>z\<close>.
\<close>

definition honest_system :: "(replica_id \<Rightarrow> env) \<Rightarrow> (replica_id \<Rightarrow> core) \<Rightarrow> replica_id set \<Rightarrow> replica_id set \<Rightarrow> nat \<Rightarrow> uint256 \<Rightarrow> bool" where
  "honest_system es cs N H q z \<longleftrightarrow> finite N \<and> H \<subseteq> N \<and> card N + card (N - H) < 2 * q \<and>
     (\<forall>s \<in> H. peer_reachable (es s) (cs s) \<and> blk_hash (blk (cs s) (b0 (cs s))) = z) \<and>
     collision_free cs H \<and> certificates_backed cs N H q"

subsection \<open>The common tree\<close>

text \<open>Some delivered block with the given hash; all of them agree on what the hash determines.\<close>

definition content :: "(replica_id \<Rightarrow> core) \<Rightarrow> replica_id set \<Rightarrow> uint256 \<Rightarrow> block option" where
  "content cs H h = (if \<exists>s x. delivered_at cs H s x \<and> blk_hash (blk (cs s) x) = h
     then Some (let (s, x) = SOME (s, x). delivered_at cs H s x \<and> blk_hash (blk (cs s) x) = h in blk (cs s) x) else None)"

definition hash_parent :: "(replica_id \<Rightarrow> core) \<Rightarrow> replica_id set \<Rightarrow> uint256 \<Rightarrow> uint256 option" where
  "hash_parent cs H h = Option.bind (content cs H h) parent_hash"

definition hash_just :: "(replica_id \<Rightarrow> core) \<Rightarrow> replica_id set \<Rightarrow> uint256 \<Rightarrow> uint256 option" where
  "hash_just cs H h = Option.bind (content cs H h) qc_hash"

definition hash_height :: "(replica_id \<Rightarrow> core) \<Rightarrow> replica_id set \<Rightarrow> uint256 \<Rightarrow> nat" where
  "hash_height cs H h = (case content cs H h of Some b \<Rightarrow> unat (height b) | None \<Rightarrow> 0)"

lemma content_obtain:
  assumes "content cs H h = Some b"
  obtains s x where "delivered_at cs H s x" "blk (cs s) x = b" "blk_hash b = h"
proof -
  let ?P = "\<lambda>(s, x). delivered_at cs H s x \<and> blk_hash (blk (cs s) x) = h"
  obtain s x where sx: "Eps ?P = (s, x)" by fastforce
  have "\<exists>y. ?P y"
    using assms by (auto simp: content_def split: if_splits)
  then have "?P (s, x)"
    unfolding sx [symmetric] by (rule someI_ex)
  moreover have "b = blk (cs s) x"
    using assms sx by (simp add: content_def split: if_splits)
  ultimately show thesis
    by (intro that [of s x]) simp_all
qed

lemma content_at:
  assumes "delivered_at cs H s x"
  obtains t y where "content cs H (blk_hash (blk (cs s) x)) = Some (blk (cs t) y)" "delivered_at cs H t y"
    "blk_hash (blk (cs t) y) = blk_hash (blk (cs s) x)"
proof -
  have "\<exists>t y. delivered_at cs H t y \<and> blk_hash (blk (cs t) y) = blk_hash (blk (cs s) x)"
    using assms by blast
  then obtain b where b: "content cs H (blk_hash (blk (cs s) x)) = Some b"
    unfolding content_def by simp
  from content_obtain [OF b] obtain t y where "delivered_at cs H t y" "blk (cs t) y = b" "blk_hash b = blk_hash (blk (cs s) x)" .
  with b show thesis by (intro that [of t y]) simp_all
qed

lemma hash_links:
  assumes cf: "collision_free cs H" and d: "delivered_at cs H s x"
  shows "hash_parent cs H (blk_hash (blk (cs s) x)) = parent_hash (blk (cs s) x)"
    and "hash_just cs H (blk_hash (blk (cs s) x)) = qc_hash (blk (cs s) x)"
proof -
  obtain t y where c: "content cs H (blk_hash (blk (cs s) x)) = Some (blk (cs t) y)" "delivered_at cs H t y"
    "blk_hash (blk (cs t) y) = blk_hash (blk (cs s) x)"
    by (rule content_at [OF d])
  have "parent_hashes (blk (cs t) y) = parent_hashes (blk (cs s) x)" "qc_hash (blk (cs t) y) = qc_hash (blk (cs s) x)"
    using cf c(2,3) d unfolding collision_free_def by blast+
  then show "hash_parent cs H (blk_hash (blk (cs s) x)) = parent_hash (blk (cs s) x)"
    and "hash_just cs H (blk_hash (blk (cs s) x)) = qc_hash (blk (cs s) x)"
    using c(1) by (simp_all add: hash_parent_def hash_just_def parent_hash_def)
qed

text \<open>What an honest core of the system satisfies.\<close>

lemma system_core:
  assumes sys: "honest_system es cs N H q z" and s: "s \<in> H"
  shows "core_inv (cs s)" and "root_ok (cs s)" and "x < next_ref (cs s) \<Longrightarrow> delivered (blk (cs s) x) \<Longrightarrow> linked (cs s) x"
    and "parent_hash (blk (cs s) (b0 (cs s))) = None" and "blk_hash (blk (cs s) (b0 (cs s))) = z"
    and "on_branch (cs s) \<Longrightarrow> vote_inv (cs s)" and "delivered_at cs H s (b0 (cs s))" and "height (blk (cs s) (b0 (cs s))) = 0"
proof -
  have p: "peer_reachable (es s) (cs s)" and z: "blk_hash (blk (cs s) (b0 (cs s))) = z"
    using sys s by (simp_all add: honest_system_def)
  note r = peer_core_reachable [OF p]
  show "core_inv (cs s)" "root_ok (cs s)" "x < next_ref (cs s) \<Longrightarrow> delivered (blk (cs s) x) \<Longrightarrow> linked (cs s) x"
    "blk_hash (blk (cs s) (b0 (cs s))) = z" "on_branch (cs s) \<Longrightarrow> vote_inv (cs s)"
    using core_reachable_inv [OF r] root_ok_reachable [OF r] delivered_linked [OF r] z peer_reachable_inv [OF p] by blast+
  show "parent_hash (blk (cs s) (b0 (cs s))) = None"
    using reachable_linked [OF r] by (simp add: parent_hash_def)
  show "delivered_at cs H s (b0 (cs s))" "height (blk (cs s) (b0 (cs s))) = 0"
    using core_inv_parts(1) [OF core_reachable_inv [OF r]] s by (simp_all add: delivered_at_def tree_wf_def)
qed

text \<open>The parent of a delivered block, in the tree of hashes.\<close>

lemma delivered_parent:
  assumes sys: "honest_system es cs N H q z" and d: "delivered_at cs H s x" and x: "x \<noteq> b0 (cs s)"
  obtains p where "first_parent (blk (cs s) x) = Some p" "delivered_at cs H s p"
    "unat (height (blk (cs s) x)) = Suc (unat (height (blk (cs s) p)))"
    "parent_hash (blk (cs s) x) = Some (blk_hash (blk (cs s) p))"
proof -
  have s: "s \<in> H" "x < next_ref (cs s)" "delivered (blk (cs s) x)"
    using d by (simp_all add: delivered_at_def)
  note c = system_core [OF sys s(1)]
  have "blk_wf (heap (cs s)) (next_ref (cs s)) (b0 (cs s)) x"
    using core_inv_parts(1) [OF c(1)] s(2) by (simp add: tree_wf_def)
  then obtain p where p: "first_parent (blk (cs s) x) = Some p"
    using x s(3) by (auto simp: blk_wf_def first_parent_def)
  note fp = first_parent_delivered [OF core_inv_parts(1) [OF c(1)] c(2) s(2,3) p]
  have "parent_hash (blk (cs s) x) = Some (blk_hash (blk (cs s) p))"
    using c(3) [OF s(2,3)] p by (simp add: linked_def)
  with p fp s(1) show thesis
    by (intro that) (simp_all add: delivered_at_def)
qed

lemma same_height:
  assumes sys: "honest_system es cs N H q z"
  shows "delivered_at cs H s x \<Longrightarrow> delivered_at cs H t y \<Longrightarrow> blk_hash (blk (cs s) x) = blk_hash (blk (cs t) y) \<Longrightarrow>
    unat (height (blk (cs s) x)) = n \<Longrightarrow> unat (height (blk (cs t) y)) = n"
proof (induction n arbitrary: s x t y)
  case 0
  have cf: "collision_free cs H"
    using sys by (simp add: honest_system_def)
  have "x = b0 (cs s)"
    using delivered_parent [OF sys 0(1)] 0(4) by (metis nat.distinct(1))
  then have "parent_hash (blk (cs t) y) = None"
    using hash_links(1) [OF cf] 0(1-3) system_core(4) [OF sys] by (metis delivered_at_def)
  then have "y = b0 (cs t)"
    using delivered_parent [OF sys 0(2)] by (metis option.distinct(1))
  then show ?case
    using system_core(8) [OF sys] 0(2) by (simp add: delivered_at_def)
next
  case (Suc n)
  have cf: "collision_free cs H"
    using sys by (simp add: honest_system_def)
  have "x \<noteq> b0 (cs s)"
    using Suc.prems(1,4) system_core(8) [OF sys] by (auto simp: delivered_at_def)
  then obtain p where p: "delivered_at cs H s p" "unat (height (blk (cs s) x)) = Suc (unat (height (blk (cs s) p)))"
    "parent_hash (blk (cs s) x) = Some (blk_hash (blk (cs s) p))"
    using delivered_parent [OF sys Suc.prems(1)] by metis
  then have ph: "parent_hash (blk (cs t) y) = Some (blk_hash (blk (cs s) p))"
    using hash_links(1) [OF cf] Suc.prems(1-3) by metis
  then have "y \<noteq> b0 (cs t)"
    using system_core(4) [OF sys] Suc.prems(2) by (auto simp: delivered_at_def)
  then obtain p' where p': "delivered_at cs H t p'" "unat (height (blk (cs t) y)) = Suc (unat (height (blk (cs t) p')))"
    "parent_hash (blk (cs t) y) = Some (blk_hash (blk (cs t) p'))"
    using delivered_parent [OF sys Suc.prems(2)] by metis
  have "unat (height (blk (cs t) p')) = n"
    by (rule Suc.IH [OF p(1) p'(1)]) (use ph p' p(2) Suc.prems(4) in simp_all)
  with p'(2) show ?case by simp
qed

lemma hash_height:
  assumes sys: "honest_system es cs N H q z" and d: "delivered_at cs H s x"
  shows "hash_height cs H (blk_hash (blk (cs s) x)) = unat (height (blk (cs s) x))"
proof -
  obtain t y where c: "content cs H (blk_hash (blk (cs s) x)) = Some (blk (cs t) y)" "delivered_at cs H t y"
    "blk_hash (blk (cs t) y) = blk_hash (blk (cs s) x)"
    by (rule content_at [OF d])
  then show ?thesis
    using same_height [OF sys c(2) d c(3) refl] by (simp add: hash_height_def)
qed

abbreviation above :: "(replica_id \<Rightarrow> core) \<Rightarrow> replica_id set \<Rightarrow> (uint256 \<times> uint256) set" where
  "above cs H \<equiv> ancestry (hash_parent cs H)"

lemma parent_above:
  assumes sys: "honest_system es cs N H q z" and d: "delivered_at cs H s x" and p: "first_parent (blk (cs s) x) = Some p"
  shows "(blk_hash (blk (cs s) p), blk_hash (blk (cs s) x)) \<in> above cs H" and "delivered_at cs H s p"
proof -
  have s: "s \<in> H" "x < next_ref (cs s)" "delivered (blk (cs s) x)"
    using d by (simp_all add: delivered_at_def)
  note c = system_core [OF sys s(1)]
  have "x \<noteq> b0 (cs s)"
    using c(2) p by (auto simp: root_ok_def first_parent_def)
  then obtain p' where p': "first_parent (blk (cs s) x) = Some p'" "delivered_at cs H s p'"
    "parent_hash (blk (cs s) x) = Some (blk_hash (blk (cs s) p'))"
    using delivered_parent [OF sys d] by metis
  have cf: "collision_free cs H"
    using sys by (simp add: honest_system_def)
  show "(blk_hash (blk (cs s) p), blk_hash (blk (cs s) x)) \<in> above cs H" and "delivered_at cs H s p"
    using p p' hash_links(1) [OF cf d] by (simp_all add: ancestry_def)
qed

lemma chain_above:
  assumes sys: "honest_system es cs N H q z"
  shows "chain (heap (cs s)) (k # bs @ [x]) \<Longrightarrow> delivered_at cs H s x \<Longrightarrow>
    (blk_hash (blk (cs s) k), blk_hash (blk (cs s) x)) \<in> (above cs H)\<^sup>+ \<and> delivered_at cs H s k"
proof (induction bs arbitrary: x rule: rev_induct)
  case Nil
  then have "first_parent (blk (cs s) x) = Some k"
    by (simp add: chain_def)
  from parent_above [OF sys Nil(2) this] show ?case by auto
next
  case (snoc y ys)
  have ch: "chain (heap (cs s)) (k # ys @ [y])" "first_parent (blk (cs s) x) = Some y"
    using snoc.prems(1) chain_snoc [of "heap (cs s)" "k # ys" y x] by simp_all
  note p = parent_above [OF sys snoc.prems(2) ch(2)]
  show ?case
    using snoc.IH [OF ch(1) p(2)] p(1) by (auto intro: trancl_into_trancl)
qed

lemma chain_above_rtrancl:
  assumes sys: "honest_system es cs N H q z" and "chain (heap (cs s)) (l # bs)" and "last (l # bs) = x" and "delivered_at cs H s x"
  shows "(blk_hash (blk (cs s) l), blk_hash (blk (cs s) x)) \<in> (above cs H)\<^sup>*"
proof (cases bs rule: rev_cases)
  case (snoc ys y)
  then show ?thesis
    using chain_above [OF sys, where k = l and bs = ys] assms(2-4) by (simp add: trancl_into_rtrancl)
qed (use assms(3) in simp)

text \<open>The certified blocks, by their hashes.\<close>

definition certified_hashes :: "(replica_id \<Rightarrow> core) \<Rightarrow> replica_id set \<Rightarrow> uint256 set" where
  "certified_hashes cs H = {blk_hash (blk (cs s) k) | s k. s \<in> H \<and> certified (cs s) k}"

definition all_on_branch :: "(replica_id \<Rightarrow> core) \<Rightarrow> replica_id set \<Rightarrow> bool" where
  "all_on_branch cs H \<longleftrightarrow> (\<forall>s \<in> H. on_branch (cs s))"

text \<open>What the certificate of a delivered block says about the tree of hashes.\<close>

lemma delivered_qc:
  assumes sys: "honest_system es cs N H q z" and ob: "all_on_branch cs H" and d: "delivered_at cs H s x"
  shows "hash_just cs H (blk_hash (blk (cs s) x)) = map_option (\<lambda>k. blk_hash (blk (cs s) k)) (qc_ref (blk (cs s) x))"
    and "qc_ref (blk (cs s) x) = Some k \<Longrightarrow> delivered_at cs H s k"
    and "qc_ref (blk (cs s) x) = Some k \<Longrightarrow> x \<noteq> b0 (cs s) \<Longrightarrow> blk_hash (blk (cs s) k) \<in> certified_hashes cs H \<and>
      (blk_hash (blk (cs s) k), blk_hash (blk (cs s) x)) \<in> (above cs H)\<^sup>+"
proof -
  have s: "s \<in> H" "x < next_ref (cs s)" "delivered (blk (cs s) x)"
    using d by (simp_all add: delivered_at_def)
  note c = system_core [OF sys s(1)]
  have o: "on_branch (cs s)"
    using ob s(1) by (simp add: all_on_branch_def)
  have cf: "collision_free cs H"
    using sys by (simp add: honest_system_def)
  show "hash_just cs H (blk_hash (blk (cs s) x)) = map_option (\<lambda>k. blk_hash (blk (cs s) k)) (qc_ref (blk (cs s) x))"
    using hash_links(2) [OF cf d] c(3) [OF s(2,3)] by (simp add: linked_def)
  show "delivered_at cs H s k" if "qc_ref (blk (cs s) x) = Some k"
    using qc_below(1,2) [OF core_inv_parts(1) [OF c(1)] c(2) o s(2,3) that] s(1) by (simp add: delivered_at_def)
  assume k: "qc_ref (blk (cs s) x) = Some k" "x \<noteq> b0 (cs s)"
  then obtain bs where "chain (heap (cs s)) (k # bs @ [x])"
    using o s(2,3) unfolding on_branch_def by blast
  then show "blk_hash (blk (cs s) k) \<in> certified_hashes cs H \<and>
      (blk_hash (blk (cs s) k), blk_hash (blk (cs s) x)) \<in> (above cs H)\<^sup>+"
    using chain_above [OF sys _ d] k s by (auto simp: certified_hashes_def certified_def)
qed

lemma just_obtain:
  assumes sys: "honest_system es cs N H q z" and ob: "all_on_branch cs H" and d: "delivered_at cs H s x"
    and j: "hash_just cs H (blk_hash (blk (cs s) x)) = Some h"
  obtains k where "qc_ref (blk (cs s) x) = Some k" "h = blk_hash (blk (cs s) k)" "delivered_at cs H s k"
proof (cases "qc_ref (blk (cs s) x)")
  case (Some k)
  then show thesis
    using j delivered_qc(1,2) [OF sys ob d] by (intro that [of k]) simp_all
qed (use j delivered_qc(1) [OF sys ob d] in simp)

lemma certified_at:
  assumes sys: "honest_system es cs N H q z" and ob: "all_on_branch cs H" and h: "h \<in> insert z (certified_hashes cs H)" and ne: "H \<noteq> {}"
  obtains s x where "delivered_at cs H s x" "blk_hash (blk (cs s) x) = h"
proof (cases "h = z")
  case True
  obtain s where "s \<in> H" using ne by blast
  then show thesis
    using True system_core(5,7) [OF sys, of s] by (intro that [of s "b0 (cs s)"]) simp_all
next
  case False
  then obtain s k where "s \<in> H" "certified (cs s) k" "blk_hash (blk (cs s) k) = h"
    using h by (auto simp: certified_hashes_def)
  moreover from this obtain x where "delivered_at cs H s x" "qc_ref (blk (cs s) x) = Some k"
    by (auto simp: certified_def delivered_at_def)
  ultimately show thesis
    using delivered_qc(2) [OF sys ob] that by blast
qed

subsection \<open>The replicas form a voting tree\<close>

lemma hash_parent_height:
  assumes sys: "honest_system es cs N H q z" and p: "hash_parent cs H h = Some h'"
  shows "hash_height cs H h = Suc (hash_height cs H h')"
proof -
  obtain b where b: "content cs H h = Some b" "parent_hash b = Some h'"
    using p by (auto simp: hash_parent_def bind_eq_Some_conv)
  from content_obtain [OF b(1)] obtain s x where sx: "delivered_at cs H s x" "blk (cs s) x = b" "blk_hash b = h" .
  then have "x \<noteq> b0 (cs s)"
    using system_core(4) [OF sys, of s] b(2) by (auto simp: delivered_at_def)
  then obtain p where "delivered_at cs H s p" "unat (height b) = Suc (unat (height (blk (cs s) p)))"
    "parent_hash b = Some (blk_hash (blk (cs s) p))"
    using delivered_parent [OF sys sx(1)] sx(2) by metis
  then show ?thesis
    using hash_height [OF sys] sx b(2) by (metis option.inject)
qed

lemma votes_upwards:
  assumes sys: "honest_system es cs N H q z" and ob: "all_on_branch cs H" and s: "s \<in> H"
  shows "sorted_wrt (\<lambda>x y. hash_height cs H x < hash_height cs H y) (voted_hashes (cs s)) \<and>
    (\<forall>j < length (voted_hashes (cs s)). respects_lock (hash_parent cs H) (hash_just cs H) (hash_height cs H)
       (insert z (certified_hashes cs H)) (take j (voted_hashes (cs s))) (voted_hashes (cs s) ! j))"
proof -
  note c = system_core [OF sys s]
  have "on_branch (cs s)"
    using ob s by (simp add: all_on_branch_def)
  then obtain rs where rs: "vote_hist (cs s) rs"
    using c(6) by (auto simp: vote_inv_def)
  then have log: "vote_log (cs s) rs"
    by (simp add: vote_hist_def)
  have votes: "voted_hashes (cs s) = map (\<lambda>r. blk_hash (blk (cs s) r)) rs"
    using log by (simp add: voted_hashes_def vote_log_def)
  have d: "delivered_at cs H s r" if "r \<in> set rs" for r
    using log s that by (simp add: vote_log_def delivered_at_def)
  note ht = hash_height [OF sys]
  have "sorted_wrt (\<lambda>x y. hash_height cs H (blk_hash (blk (cs s) x)) < hash_height cs H (blk_hash (blk (cs s) y))) rs"
    using log d ht unfolding vote_log_def by (auto intro: sorted_wrt_mono_rel [rotated] simp: word_less_nat_alt)
  moreover have "respects_lock (hash_parent cs H) (hash_just cs H) (hash_height cs H) (insert z (certified_hashes cs H))
      (take j (voted_hashes (cs s))) (voted_hashes (cs s) ! j)" if j: "j < length rs" for j
  proof -
    obtain l where l: "l < next_ref (cs s)" "delivered (blk (cs s) l)" "l = b0 (cs s) \<or> certified (cs s) l"
      "height (blk (cs s) l) < height (blk (cs s) (rs ! j))" "\<forall>x \<in> set (take j rs). locked_upto (cs s) x l"
      and or: "(\<exists>k. qc_ref (blk (cs s) (rs ! j)) = Some k \<and> height (blk (cs s) l) < height (blk (cs s) k)) \<or>
         (\<exists>bs. chain (heap (cs s)) (l # bs) \<and> last (l # bs) = rs ! j)"
      using rs j unfolding vote_hist_def vote_safe_def by blast
    have dl: "delivered_at cs H s l" and dw: "delivered_at cs H s (rs ! j)"
      using l s j d by (simp_all add: delivered_at_def)
    have "hash_height cs H g \<le> hash_height cs H (blk_hash (blk (cs s) l))"
      if xyg: "x \<in> set (take j rs)" "hash_just cs H (blk_hash (blk (cs s) x)) = Some y" "hash_just cs H y = Some g" for x y g
    proof -
      have dx: "delivered_at cs H s x"
        using xyg(1) d set_take_subset by fast
      obtain y' where y': "qc_ref (blk (cs s) x) = Some y'" "y = blk_hash (blk (cs s) y')" "delivered_at cs H s y'"
        by (rule just_obtain [OF sys ob dx xyg(2)])
      note dy = y'(3)
      obtain g' where g': "qc_ref (blk (cs s) y') = Some g'" "g = blk_hash (blk (cs s) g')"
        by (rule just_obtain [OF sys ob dy xyg(3) [unfolded y'(2)]])
      have "height (blk (cs s) g') \<le> height (blk (cs s) l)"
        using l(5) xyg(1) y'(1) g'(1) by (simp add: locked_upto_def)
      then show ?thesis
        using ht [OF delivered_qc(2) [OF sys ob dy g'(1)]] ht [OF dl] by (simp add: g'(2) word_le_nat_alt)
    qed
    moreover have "(\<exists>k. hash_just cs H (blk_hash (blk (cs s) (rs ! j))) = Some k \<and> hash_height cs H (blk_hash (blk (cs s) l)) < hash_height cs H k) \<or>
        (blk_hash (blk (cs s) l), blk_hash (blk (cs s) (rs ! j))) \<in> (above cs H)\<^sup>*"
      using or
    proof (elim disjE exE conjE)
      fix k
      assume "qc_ref (blk (cs s) (rs ! j)) = Some k" "height (blk (cs s) l) < height (blk (cs s) k)"
      then show ?thesis
        using delivered_qc(1,2) [OF sys ob dw] ht dl by (simp add: word_less_nat_alt)
    next
      fix bs
      assume "chain (heap (cs s)) (l # bs)" "last (l # bs) = rs ! j"
      then show ?thesis
        using chain_above_rtrancl [OF sys _ _ dw] by blast
    qed
    moreover have "blk_hash (blk (cs s) l) \<in> insert z (certified_hashes cs H)"
      using l(3) c(5) s by (auto simp: certified_hashes_def)
    moreover have "hash_height cs H (blk_hash (blk (cs s) l)) < hash_height cs H (blk_hash (blk (cs s) (rs ! j)))"
      using l(4) ht dl dw by (simp add: word_less_nat_alt)
    ultimately show ?thesis
      unfolding respects_lock_def using j by (intro bexI [of _ "blk_hash (blk (cs s) l)"]) (auto simp: votes take_map)
  qed
  ultimately show ?thesis
    by (simp add: votes sorted_wrt_map)
qed

lemma system_voting_tree:
  assumes sys: "honest_system es cs N H q z" and ob: "all_on_branch cs H" and ne: "H \<noteq> {}"
  shows "voting_tree (hash_parent cs H) (hash_just cs H) (hash_height cs H) z (certified_hashes cs H) H (\<lambda>s. voted_hashes (cs s))"
proof -
  note at = certified_at [OF sys ob _ ne]
  obtain s0 where s0: "s0 \<in> H" using ne by blast
  have "hash_height cs H z = 0"
    using hash_height [OF sys system_core(7) [OF sys s0]] system_core(5,8) [OF sys s0] by simp
  moreover have "k \<in> insert z (certified_hashes cs H) \<and> (k, h) \<in> (above cs H)\<^sup>+"
    if h: "h \<in> insert z (certified_hashes cs H)" "h \<noteq> z" "hash_just cs H h = Some k" for h k
  proof -
    obtain s x where sx: "delivered_at cs H s x" "blk_hash (blk (cs s) x) = h"
      by (rule at [OF h(1)])
    have "x \<noteq> b0 (cs s)"
      using sx h(2) system_core(5) [OF sys] by (auto simp: delivered_at_def)
    moreover obtain k' where "qc_ref (blk (cs s) x) = Some k'" "k = blk_hash (blk (cs s) k')"
      by (rule just_obtain [OF sys ob sx(1) h(3) [folded sx(2)]])
    ultimately show ?thesis
      using delivered_qc(3) [OF sys ob sx(1)] sx(2) by blast
  qed
  moreover have "h = z" if h: "h \<in> insert z (certified_hashes cs H)" "hash_height cs H h = 0" for h
  proof -
    obtain s x where sx: "delivered_at cs H s x" "blk_hash (blk (cs s) x) = h"
      by (rule at [OF h(1)])
    then have "unat (height (blk (cs s) x)) = 0"
      using hash_height [OF sys sx(1)] h(2) by simp
    then have "x = b0 (cs s)"
      using delivered_parent [OF sys sx(1)] by (metis nat.distinct(1))
    then show ?thesis
      using sx system_core(5) [OF sys] by (auto simp: delivered_at_def)
  qed
  ultimately show ?thesis
    using hash_parent_height [OF sys] votes_upwards [OF sys ob] unfolding voting_tree_def by blast
qed

subsection \<open>Chains of hashes\<close>

definition hash_chain :: "('b \<Rightarrow> 'b option) \<Rightarrow> 'b list \<Rightarrow> bool" where
  "hash_chain par hs \<longleftrightarrow> successively (\<lambda>p h. par h = Some p) hs"

lemma hash_chain_snoc: "hash_chain par (z # hs @ [h]) \<longleftrightarrow> hash_chain par (z # hs) \<and> par h = Some (last (z # hs))"
  using successively_append_iff [of _ "z # hs" "[h]"] by (simp add: hash_chain_def)

lemma hash_chain_unique:
  assumes "par z = None"
  shows "hash_chain par (z # us) \<Longrightarrow> hash_chain par (z # vs) \<Longrightarrow> last (z # us) = last (z # vs) \<Longrightarrow> us = vs"
proof (induction us arbitrary: vs rule: rev_induct)
  case Nil
  show ?case
  proof (cases vs rule: rev_cases)
    case (snoc ws w)
    with Nil assms show ?thesis by (simp only: hash_chain_snoc) simp
  qed simp
next
  case (snoc u us)
  show ?case
  proof (cases vs rule: rev_cases)
    case Nil
    with snoc.prems assms show ?thesis by (simp only: hash_chain_snoc) simp
  next
    case (snoc ws w)
    have "w = u"
      using snoc.prems(3) \<open>vs = ws @ [w]\<close> by simp
    then show ?thesis
      using snoc.prems(1,2) snoc.IH [of ws] unfolding \<open>vs = ws @ [w]\<close> hash_chain_snoc by simp
  qed
qed

lemma hash_chain_above: "hash_chain par (z # hs) \<Longrightarrow> (z, last (z # hs)) \<in> (ancestry par)\<^sup>*"
proof (induction hs rule: rev_induct)
  case (snoc h hs)
  then have "(last (z # hs), h) \<in> ancestry par" "(z, last (z # hs)) \<in> (ancestry par)\<^sup>*"
    by (simp_all only: hash_chain_snoc) (simp add: ancestry_def)
  then show ?case by (simp add: rtrancl_into_rtrancl)
qed simp

lemma hash_chain_prefix:
  assumes z: "par z = None" and us: "hash_chain par (z # us)"
  shows "hash_chain par (z # vs) \<Longrightarrow> (last (z # us), last (z # vs)) \<in> (ancestry par)\<^sup>* \<Longrightarrow> prefix us vs"
proof (induction vs rule: rev_induct)
  case Nil
  then have "(last (z # us), z) \<in> (ancestry par)\<^sup>*"
    by simp
  then have "last (z # us) = z"
    by (rule rtranclE) (simp_all add: z ancestry_def)
  then have "us = []"
    by (intro hash_chain_unique [OF z us Nil(1)]) (simp only: last.simps simp_thms if_True)
  then show ?case by simp
next
  case (snoc v vs)
  have v: "hash_chain par (z # vs)" "par v = Some (last (z # vs))"
    using snoc.prems(1) by (simp_all only: hash_chain_snoc)
  show ?case
  proof (cases "last (z # us) = v")
    case True
    then show ?thesis
      using hash_chain_unique [OF z us snoc.prems(1)] by simp
  next
    case False
    have "(last (z # us), v) \<in> (ancestry par)\<^sup>*"
      using snoc.prems(2) by simp
    then have "(last (z # us), last (z # vs)) \<in> (ancestry par)\<^sup>*"
      by (rule rtranclE) (use False v(2) in \<open>simp_all add: ancestry_def\<close>)
    then show ?thesis
      using snoc.IH [OF v(1)] by simp
  qed
qed

subsection \<open>Agreement\<close>

lemma committed_chain:
  assumes sys: "honest_system es cs N H q z" and s: "s \<in> H"
  shows "hash_chain (hash_parent cs H) (z # committed_hashes (cs s))"
    and "last (z # committed_hashes (cs s)) = blk_hash (blk (cs s) (b_exec (cs s)))" and "hash_parent cs H z = None"
proof -
  let ?c = "cs s" and ?rs = "commits_of (events (cs s))"
  note c = system_core [OF sys s]
  have ex: "chain (heap ?c) (b0 ?c # ?rs)" "\<forall>r \<in> set ?rs. r < next_ref ?c \<and> delivered (blk ?c r)" "last (b0 ?c # ?rs) = b_exec ?c"
    using core_inv_parts(4) [OF c(1)] by (simp_all add: exec_log_def)
  have d: "delivered_at cs H s r" if "r \<in> set (b0 ?c # ?rs)" for r
    using that ex(2) c(7) s by (auto simp: delivered_at_def)
  have z: "z # committed_hashes ?c = map (\<lambda>r. blk_hash (blk ?c r)) (b0 ?c # ?rs)"
    by (simp add: committed_hashes_def c(5))
  have "successively (\<lambda>p r. hash_parent cs H (blk_hash (blk ?c r)) = Some (blk_hash (blk ?c p))) (b0 ?c # ?rs)"
    using ex(1) unfolding chain_def
    by (rule successively_mono) (use d parent_above(1) [OF sys] in \<open>auto simp: ancestry_def\<close>)
  then show "hash_chain (hash_parent cs H) (z # committed_hashes ?c)"
    unfolding z hash_chain_def successively_map .
  show "last (z # committed_hashes ?c) = blk_hash (blk ?c (b_exec ?c))"
    unfolding z by (subst last_map) (use ex(3) in simp_all)
  have cf: "collision_free cs H"
    using sys by (simp add: honest_system_def)
  show "hash_parent cs H z = None"
    using hash_links(1) [OF cf c(7)] c(4,5) by simp
qed

text \<open>The last committed block is the genesis block or the tail of a three-chain that is certified.\<close>

lemma committed_three_chain:
  assumes sys: "honest_system es cs N H q z" and ob: "all_on_branch cs H" and s: "s \<in> H"
  defines "h \<equiv> blk_hash (blk (cs s) (b_exec (cs s)))"
  shows "h = z \<or> h \<in> certified_hashes cs H \<and> (\<exists>b2 b1. b2 \<in> certified_hashes cs H \<and> hash_just cs H b2 = Some b1 \<and>
    hash_just cs H b1 = Some h \<and> hash_parent cs H b2 = Some b1 \<and> hash_parent cs H b1 = Some h)"
proof -
  let ?c = "cs s"
  note c = system_core [OF sys s]
  have "on_branch ?c"
    using ob s by (simp add: all_on_branch_def)
  then have "b_exec ?c = b0 ?c \<or> (\<exists>n. three_chain ?c n (b_exec ?c))"
    using c(6) lock_ok_parts(5) by (auto simp: vote_inv_def)
  then show ?thesis
  proof (elim disjE exE)
    fix n
    assume "three_chain ?c n (b_exec ?c)"
    then obtain y g where t: "delivered_at cs H s n" "n \<noteq> b0 ?c" "qc_ref (blk ?c n) = Some y" "qc_ref (blk ?c y) = Some g"
      "qc_ref (blk ?c g) = Some (b_exec ?c)" "first_parent (blk ?c y) = Some g" "first_parent (blk ?c g) = Some (b_exec ?c)"
      using s by (auto simp: three_chain_def delivered_at_def)
    note dy = delivered_qc(2) [OF sys ob t(1,3)]
    note dg = delivered_qc(2) [OF sys ob dy t(4)]
    have "g \<noteq> b0 ?c"
      using t(7) c(2) by (auto simp: root_ok_def first_parent_def)
    then show ?thesis
      using delivered_qc(3) [OF sys ob t(1,3,2)] delivered_qc(3) [OF sys ob dg t(5)] delivered_qc(1) [OF sys ob dy] delivered_qc(1) [OF sys ob dg]
        parent_above(1) [OF sys dy t(6)] parent_above(1) [OF sys dg t(7)] t(4,5)
      by (auto simp: h_def ancestry_def)
  qed (use c(5) in \<open>simp add: h_def\<close>)
qed

lemma committed_prefix:
  assumes sys: "honest_system es cs N H q z" and ob: "all_on_branch cs H" and s: "s \<in> H" and t: "t \<in> H"
    and le: "height (blk (cs s) (b_exec (cs s))) \<le> height (blk (cs t) (b_exec (cs t)))"
  shows "prefix (committed_hashes (cs s)) (committed_hashes (cs t))"
proof (rule hash_chain_prefix [OF committed_chain(3,1) [OF sys s] committed_chain(1) [OF sys t]])
  let ?a = "blk_hash (blk (cs s) (b_exec (cs s)))" and ?b = "blk_hash (blk (cs t) (b_exec (cs t)))"
  have "delivered_at cs H x (b_exec (cs x))" if "x \<in> H" for x
    using core_inv_parts(2) [OF system_core(1) [OF sys that]] that by (simp add: refs_ok_def delivered_at_def)
  then have le: "hash_height cs H ?a \<le> hash_height cs H ?b"
    using hash_height [OF sys] s t le by (simp add: word_le_nat_alt)
  have N: "finite N" "H \<subseteq> N" "card N + card (N - H) < 2 * q"
    and bk: "certificates_backed cs N H q"
    using sys by (simp_all add: honest_system_def)
  have q: "\<forall>k \<in> certified_hashes cs H. k \<noteq> z \<longrightarrow> quorum_voted N H q (\<lambda>s. voted_hashes (cs s)) k"
    using bk system_core(5) [OF sys] unfolding certificates_backed_def certified_hashes_def certified_def delivered_at_def
    by fastforce
  have "(?a, ?b) \<in> (above cs H)\<^sup>*"
    using committed_three_chain [OF sys ob s]
  proof (elim disjE exE conjE)
    assume "?a = z"
    then show ?thesis
      using hash_chain_above [OF committed_chain(1) [OF sys t]] by (simp only: committed_chain(2) [OF sys t])
  next
    fix b2 b1
    assume "b2 \<in> certified_hashes cs H" "hash_just cs H b2 = Some b1" "hash_just cs H b1 = Some ?a"
      "hash_parent cs H b2 = Some b1" "hash_parent cs H b1 = Some ?a"
    then show ?thesis
      using committed_three_chain [OF sys ob t] le s by (intro extends_committed [OF N system_voting_tree [OF sys ob] q]) auto
  qed
  then show "(last (z # committed_hashes (cs s)), last (z # committed_hashes (cs t))) \<in> (above cs H)\<^sup>*"
    by (simp only: committed_chain(2) [OF sys s] committed_chain(2) [OF sys t])
qed

text \<open>Equal blocks have equal commands, so what is decided follows what is committed.\<close>

lemma committed_cmds:
  assumes sys: "honest_system es cs N H q z" and s: "s \<in> H"
  shows "map cmd_hash (decides_of (events (cs s))) =
    concat (map (\<lambda>h. case content cs H h of Some b \<Rightarrow> blk_cmds b | None \<Rightarrow> []) (committed_hashes (cs s)))"
proof -
  note c = system_core [OF sys s]
  have cf: "collision_free cs H"
    using sys by (simp add: honest_system_def)
  have "(case content cs H (blk_hash (blk (cs s) r)) of Some b \<Rightarrow> blk_cmds b | None \<Rightarrow> []) = blk_cmds (blk (cs s) r)"
    if "r \<in> set (commits_of (events (cs s)))" for r
  proof -
    have d: "delivered_at cs H s r"
      using core_inv_parts(4) [OF c(1)] that s by (simp add: exec_log_def delivered_at_def)
    obtain t y where y: "content cs H (blk_hash (blk (cs s) r)) = Some (blk (cs t) y)" "delivered_at cs H t y"
      "blk_hash (blk (cs t) y) = blk_hash (blk (cs s) r)"
      by (rule content_at [OF d])
    then have "blk_cmds (blk (cs t) y) = blk_cmds (blk (cs s) r)"
      using cf d unfolding collision_free_def by blast
    with y(1) show ?thesis by simp
  qed
  then show ?thesis
    using executed_blocks [OF c(1)] by (simp add: committed_hashes_def comp_def cong: map_cong)
qed

lemma decided_prefix:
  assumes sys: "honest_system es cs N H q z" and s: "s \<in> H" and t: "t \<in> H"
    and p: "prefix (committed_hashes (cs s)) (committed_hashes (cs t))"
  shows "prefix (map cmd_hash (decides_of (events (cs s)))) (map cmd_hash (decides_of (events (cs t))))"
  using p unfolding committed_cmds [OF sys s] committed_cmds [OF sys t] by (auto simp: prefix_def)

text \<open>
  C1: agreement. Let fewer than a third of the replicas be faulty, in the sense that any two quorums share
  an honest one; let each certificate an honest replica has delivered be backed by votes, hashes not
  collide, and every certificate name an ancestor of its block. Then whatever the faulty replicas send,
  of two honest replicas one has committed a prefix of the blocks, and executed a prefix of the
  commands, of the other.
\<close>

theorem agreement:
  assumes "honest_system es cs N H q z" and "all_on_branch cs H" and "s \<in> H" and "t \<in> H"
  shows "prefix (committed_hashes (cs s)) (committed_hashes (cs t)) \<and>
      prefix (map cmd_hash (decides_of (events (cs s)))) (map cmd_hash (decides_of (events (cs t)))) \<or>
    prefix (committed_hashes (cs t)) (committed_hashes (cs s)) \<and>
      prefix (map cmd_hash (decides_of (events (cs t)))) (map cmd_hash (decides_of (events (cs s))))"
proof -
  have "prefix (committed_hashes (cs s)) (committed_hashes (cs t)) \<or> prefix (committed_hashes (cs t)) (committed_hashes (cs s))"
    using committed_prefix [OF assms(1,2)] assms(3,4) by (meson linear)
  then show ?thesis
    using decided_prefix [OF assms(1)] assms(3,4) by blast
qed

end
