(* ===== verification/Fork_Runs.thy ===== *)
theory Fork_Runs
  imports Agreement
begin

text \<open>
  Four replicas, the first of them faulty. It proposes the chain \<open>1, 2, 3, 4\<close>, whose last block only
  replica 1 gets, and the chain \<open>5, ..., 11\<close> beside it, in which block 8 stands above the lock of
  replicas 2 and 3 only because of a certificate of the first chain.
\<close>

subsection \<open>Feeding a replica with proposals\<close>

definition small :: "core \<Rightarrow> bool" where
  "small c \<longleftrightarrow> list_all (\<lambda>r. height (blk c r) \<noteq> - 1) [0..<next_ref c]"

lemma small_height: "h \<noteq> - 1 \<Longrightarrow> unat (h :: u32) < 2 ^ 32 - 1"
proof -
  assume "h \<noteq> - 1"
  then have "unat h \<noteq> unat (- 1 :: u32)"
    by (simp add: word_unat_eq_iff)
  moreover have "unat (- 1 :: u32) = 2 ^ 32 - 1"
    by (simp add: unsigned_minus_1_eq_mask mask_eq_exp_minus_1)
  moreover have "unat h < 2 ^ LENGTH(32)"
    by (rule unsigned_less)
  ultimately show ?thesis by simp
qed

text \<open>A block is fetched, delivered and proposed by \<open>p\<close>.\<close>

definition take_proposal :: "env \<Rightarrow> replica_id \<Rightarrow> block \<Rightarrow> core \<Rightarrow> core option" where
  "take_proposal e p b c =
     (let (r, c1) = fetch_blk b c
      in if wire_block b \<and> p \<noteq> core_id c \<and> core_id c1 = core_id c \<and> r < next_ref c1 \<and> small c1 then
           (case on_deliver_blk r c1 of
              Exc er c2 \<Rightarrow> None
            | Ok d c2 \<Rightarrow>
                if core_id c2 = core_id c \<and> r < next_ref c2 \<and> votes_of (events c2) = votes_of (events c) then
                  (case on_receive_proposal e \<lparr>prop_proposer = p, prop_blk = r\<rparr> c2 of Exc er c3 \<Rightarrow> None | Ok u c3 \<Rightarrow> Some c3)
                else None)
         else None)"

fun take_proposals :: "env \<Rightarrow> replica_id \<Rightarrow> block list \<Rightarrow> core \<Rightarrow> core option" where
  "take_proposals e p [] c = Some c"
| "take_proposals e p (b # bs) c = Option.bind (take_proposal e p b c) (take_proposals e p bs)"

lemma take_proposal_reachable:
  assumes "peer_reachable e c" and "take_proposal e p b c = Some c'"
  shows "peer_reachable e c'"
proof -
  obtain r c1 where f: "fetch_blk b c = (r, c1)" by fastforce
  have g: "wire_block b" "p \<noteq> core_id c" "core_id c1 = core_id c" "r < next_ref c1" "small c1"
    using assms(2) by (auto simp: take_proposal_def f split: if_splits)
  then obtain d c2 u where d: "on_deliver_blk r c1 = Ok d c2" "core_id c2 = core_id c" "r < next_ref c2"
    "votes_of (events c2) = votes_of (events c)" "on_receive_proposal e \<lparr>prop_proposer = p, prop_blk = r\<rparr> c2 = Ok u c'"
    using assms(2) by (auto simp: take_proposal_def f split: if_splits res.splits)
  have "events c1 = events c"
    using f by (cases rule: fetch_blk_cases) simp_all
  then have 1: "peer_reachable e c1"
    by (intro peer_reachable.step [OF assms(1)] peer_step.other [OF core_step.fetch [OF g(1) f]]) simp
  have "no_overflow c1"
    using g(5) small_height by (auto simp: small_def no_overflow_def list_all_iff)
  then have 2: "peer_reachable e c2"
    using d(4) \<open>events c1 = events c\<close> by (intro peer_reachable.step [OF 1] peer_step.other [OF core_step.deliver [OF g(4) _ d(1)]]) simp_all
  show ?thesis
    using g(2) d(2,3) by (intro peer_reachable.step [OF 2] peer_step.proposal [OF _ _ d(5)]) simp_all
qed

lemma take_proposals_reachable:
  "peer_reachable e c \<Longrightarrow> take_proposals e p bs c = Some c' \<Longrightarrow> peer_reachable e c'"
  by (induction bs arbitrary: c) (auto simp: bind_eq_Some_conv intro: take_proposal_reachable)

subsection \<open>The blocks\<close>

definition fork_qc :: "nat \<Rightarrow> uint256 \<Rightarrow> quorum_cert" where
  "fork_qc m h = QuorumCertSecp256k1 \<lparr>sq_obj_hash = h, sq_rids = \<lparr>bdata = [of_nat m], nbits = 4\<rparr>,
     sq_sigs = map (\<lambda>r. (of_nat r, [])) (List.filter (\<lambda>r. odd (m div 2 ^ r)) [0..<4])\<rparr>"

definition fork_block :: "nat \<Rightarrow> uint256 list \<Rightarrow> nat \<Rightarrow> quorum_cert \<Rightarrow> block" where
  "fork_block i cmds p qc = block_empty\<lparr>parent_hashes := [h256 (of_nat p)], blk_cmds := cmds, blk_qc := Some qc,
     extra := replicate i 0, blk_hash := h256 (of_nat (88 + i + 32 * length cmds))\<rparr>"

definition first_chain :: "block list" where
  "first_chain = [fork_block 1 [h256 1] 48 run_core_qc, fork_block 2 [h256 2] 121 (fork_qc 14 (h256 121)),
     fork_block 3 [] 122 (fork_qc 14 (h256 122)), fork_block 4 [] 91 (fork_qc 14 (h256 91))]"

definition second_chain :: "block list" where
  "second_chain = [fork_block 5 [h256 5] 48 run_core_qc, fork_block 6 [] 125 run_core_qc, fork_block 7 [] 94 run_core_qc,
     fork_block 8 [] 95 (fork_qc 14 (h256 122)), fork_block 9 [] 96 (fork_qc 13 (h256 96)), fork_block 10 [] 97 (fork_qc 13 (h256 97)),
     fork_block 11 [] 98 (fork_qc 13 (h256 98))]"

definition fork_start :: "replica_id \<Rightarrow> core" where
  "fork_start s = run_start\<lparr>core_id := s\<rparr>"

lemma fork_new: "core_new run_env s = Inr (run_blank\<lparr>core_id := s\<rparr>)"
  by (simp add: core_new_def run_hash0 run_blank_def add_blk_def map_insert_def storage_new_def)

lemma fork_core_start: "core_start run_env s run_replicas 1 0 0 0 = Inr (fork_start s)"
proof -
  have "add_replica i p k (c\<lparr>core_id := s\<rparr>) = (add_replica i p k c)\<lparr>core_id := s\<rparr>" for i p k c
    by (simp add: add_replica_def upd_blk_def)
  then have "fold (\<lambda>(i, peer, pk). add_replica i peer pk) reps (c\<lparr>core_id := s\<rparr>) = (fold (\<lambda>(i, peer, pk). add_replica i peer pk) reps c)\<lparr>core_id := s\<rparr>" for reps c
    by (induction reps arbitrary: c) auto
  moreover have "on_init run_env 1 0 0 0 (c\<lparr>core_id := s\<rparr>) = (on_init run_env 1 0 0 0 c)\<lparr>core_id := s\<rparr>" for c
    by (simp add: on_init_def Let_def upd_blk_def)
  ultimately show ?thesis
    by (simp add: core_start_def fork_new run_reps run_init fork_start_def)
qed

text \<open>The blocks carry the hashes that \<open>run_env\<close> computes of them.\<close>

lemma fork_hashes1: "map (block_get_hash (e_sha run_env)) first_chain = map (\<lambda>b. Inr (blk_hash b)) first_chain"
  by code_simp

lemma fork_hashes2: "map (block_get_hash (e_sha run_env)) second_chain = map (\<lambda>b. Inr (blk_hash b)) second_chain"
  by code_simp

subsection \<open>States\<close>

text \<open>A heap with the blocks of a list, and the states of the run.\<close>

definition heap_of :: "block list \<Rightarrow> heap" where
  "heap_of bs r = (if r < length bs then bs ! r else block_empty)"

lemma heap_of_append: "r = length bs \<Longrightarrow> (heap_of bs)(r := b) = heap_of (bs @ [b])"
  by (auto simp: heap_of_def fun_eq_iff nth_append)

lemma heap_of_update: "r < length bs \<Longrightarrow> (heap_of bs)(r := b) = heap_of (bs[r := b])"
  by (auto simp: heap_of_def fun_eq_iff)

definition fork_storage :: "(uint256 \<times> ref) list \<Rightarrow> entity_storage" where
  "fork_storage cache = storage_new\<lparr>blk_cache := cache\<rparr>"

lemma fork_storage_simps [simp]:
  "blk_cache (fork_storage m) = m" "(fork_storage m)\<lparr>blk_cache := m'\<rparr> = fork_storage m'"
  "remove_local_order_seen_propose_level cmd (fork_storage m) = fork_storage m"
  "remove_local_order_seen_execute_level cmd (fork_storage m) = fork_storage m"
  "remove_from_proposed_cmds_cache cmd (fork_storage m) = fork_storage m"
  by (simp_all add: fork_storage_def storage_new_def remove_local_order_seen_propose_level_def
      remove_local_order_seen_execute_level_def remove_from_proposed_cmds_cache_def seen_remove_def)

definition fork_state :: "replica_id \<Rightarrow> block list \<Rightarrow> (ref \<times> quorum_cert) \<Rightarrow> ref \<Rightarrow> ref \<Rightarrow> u32 \<Rightarrow> ref set \<Rightarrow> event list \<Rightarrow> core" where
  "fork_state s bs hq l x v ts es = \<lparr>heap = heap_of bs, next_ref = length bs, b0 = 0, hqc = Some hq, b_lock = l, b_exec = x, vheight = v,
     tails = ts, config = config run_start, qc_waiting = {}, vote_disabled = False, core_id = s,
     storage = fork_storage (map (\<lambda>r. (blk_hash (bs ! r), r)) [0..<length bs]), hg_statics = None, events = es\<rparr>"

text \<open>A block as it is after its delivery.\<close>

definition placed :: "ref \<Rightarrow> ref \<Rightarrow> u32 \<Rightarrow> block \<Rightarrow> block" where
  "placed p q h b = b\<lparr>parents := [p], qc_ref := Some q, height := h, delivered := True\<rparr>"

definition root_block :: block where
  "root_block = heap run_start 0"

lemma root_block_simps [simp]:
  "parents root_block = []" "qc_ref root_block = Some 0" "height root_block = 0" "delivered root_block" "decision root_block = 1"
  "blk_hash root_block = h256 48" "parent_hashes root_block = []" "blk_cmds root_block = []" "blk_qc root_block = Some run_core_qc"
  by (simp_all add: root_block_def run_start_simps block_empty_def)

lemma fork_start_state: "fork_start s = fork_state s [root_block] (0, run_core_qc) 0 0 0 {0} []"
  by (simp add: fork_start_def fork_state_def run_start_def run_blank_def upd_blk_def root_block_def heap_of_def fun_eq_iff fork_storage_def)

text \<open>What a replica logs when it receives and votes for the block \<open>r\<close> of the faulty proposer.\<close>

definition received :: "ref \<Rightarrow> event" where
  "received r = Resolve_Receive_Proposal \<lparr>prop_proposer = 0, prop_blk = r\<rparr>"

definition vote_for :: "replica_id \<Rightarrow> uint256 \<Rightarrow> event" where
  "vote_for s h = Do_Vote 0 \<lparr>voter = s, vote_blk_hash = h, vote_cert = PartCertSecp256k1 h []\<rparr>"

lemma fork_block_simps [simp]:
  "parent_hashes (fork_block i cs p qc) = [h256 (of_nat p)]" "blk_cmds (fork_block i cs p qc) = cs" "blk_qc (fork_block i cs p qc) = Some qc"
  "parents (fork_block i cs p qc) = []" "qc_ref (fork_block i cs p qc) = None" "height (fork_block i cs p qc) = 0"
  "\<not> delivered (fork_block i cs p qc)" "decision (fork_block i cs p qc) = 0" "blk_hash (fork_block i cs p qc) = h256 (of_nat (88 + i + 32 * length cs))"
  by (simp_all add: fork_block_def block_empty_def)

lemma placed_simps [simp]:
  "parents (placed p q h b) = [p]" "qc_ref (placed p q h b) = Some q" "height (placed p q h b) = h" "delivered (placed p q h b)"
  "decision (placed p q h b) = decision b" "blk_hash (placed p q h b) = blk_hash b" "parent_hashes (placed p q h b) = parent_hashes b"
  "blk_cmds (placed p q h b) = blk_cmds b" "blk_qc (placed p q h b) = blk_qc b"
  by (simp_all add: placed_def)

lemma placed_fold: "b\<lparr>parents := [p], height := h, qc_ref := Some q, delivered := True\<rparr> = placed p q h b"
  by (simp add: placed_def)

definition mark_decided :: "block \<Rightarrow> block" where
  "mark_decided b = b\<lparr>decision := 1\<rparr>"

lemma mark_decided_simps [simp]:
  "parents (mark_decided b) = parents b" "qc_ref (mark_decided b) = qc_ref b" "height (mark_decided b) = height b" "delivered (mark_decided b) = delivered b"
  "decision (mark_decided b) = 1" "blk_hash (mark_decided b) = blk_hash b" "parent_hashes (mark_decided b) = parent_hashes b"
  "blk_cmds (mark_decided b) = blk_cmds b" "blk_qc (mark_decided b) = blk_qc b"
  by (simp_all add: mark_decided_def)

lemma fork_qc_simps [simp]: "qc_get_obj_hash run_core_qc = h256 48" "qc_get_obj_hash (fork_qc m h) = h"
  by (simp_all add: run_core_qc_def fork_qc_def)

lemma walk_numeral:
  "walk (numeral k) hp h b = (if h < height (hp b) then (case parents (hp b) of [] \<Rightarrow> Inl Undefined_Behaviour
     | p # _ \<Rightarrow> map_sum id (\<lambda>(bs, e). (b # bs, e)) (walk (pred_numeral k) hp h p)) else Inr ([], b))"
  by (simp add: numeral_eq_Suc)

lemmas fork_eval = walk_numeral take_proposal_def fork_state_def fetch_blk_def find_blk_def add_blk_def map_insert_def wire_block_def small_def
  on_deliver_blk_def Let_def upd_blk_def heap_of_append heap_of_update get_delivered_blk_def deliver_done_def on_receive_proposal_def
  update_def update_hqc_def update_lock_def update_commit_def vote_opinion_def emit_def walk_down_def received_def vote_for_def heap_of_def
  create_part_cert_def run_env_def on_qc_finish_def first_parent_def placed_fold mark_decided_def [symmetric] commit_chain_def commit_blk_def
  fair_finalize_def

text \<open>The three blocks of the first chain that all replicas get, and the fourth.\<close>

definition first_blocks :: "block list" where
  "first_blocks = [root_block, placed 0 0 1 (fork_block 1 [h256 1] 48 run_core_qc),
     placed 1 1 2 (fork_block 2 [h256 2] 121 (fork_qc 14 (h256 121))), placed 2 2 3 (fork_block 3 [] 122 (fork_qc 14 (h256 122)))]"

definition first_log :: "replica_id \<Rightarrow> event list" where
  "first_log s = [received 1, vote_for s (h256 121), Resolve_Hqc_Update, received 2, vote_for s (h256 122), Resolve_Hqc_Update,
     received 3, vote_for s (h256 91)]"

definition all_locked :: "replica_id \<Rightarrow> core" where
  "all_locked s = fork_state s first_blocks (2, fork_qc 14 (h256 122)) 1 0 3 {3} (first_log s)"

lemma first_run:
  assumes "s \<noteq> 0"
  shows "take_proposals run_env 0 (take 3 first_chain) (fork_start s) = Some (all_locked s)"
  using assms
  by (simp add: fork_start_state fork_eval first_chain_def all_locked_def first_log_def first_blocks_def) (simp add: numeral_2_eq_2 [symmetric])

definition one_committed :: "replica_id \<Rightarrow> core" where
  "one_committed s = fork_state s (first_blocks[1 := mark_decided (first_blocks ! 1)] @ [placed 3 3 4 (fork_block 4 [] 91 (fork_qc 14 (h256 91)))])
     (3, fork_qc 14 (h256 91)) 2 1 4 {4} (first_log s @ [Resolve_Hqc_Update, Do_Consensus 1, Do_Decide \<lparr>fin_rid = s, fin_decision = 1, cmd_idx = 0,
        cmd_height = 1, cmd_hash = h256 1, fin_blk_hash = h256 121\<rparr>, received 4, vote_for s (h256 92)])"

lemma fourth_run:
  assumes "s \<noteq> 0"
  shows "take_proposals run_env 0 (drop 3 first_chain) (all_locked s) = Some (one_committed s)"
  using assms
  by (simp add: fork_eval first_chain_def all_locked_def first_log_def first_blocks_def one_committed_def) (simp add: numeral_2_eq_2 [symmetric])

text \<open>The second chain: three blocks nobody votes for, and four that replicas 2 and 3 vote for.\<close>

definition filler_blocks :: "block list" where
  "filler_blocks = [placed 0 0 1 (fork_block 5 [h256 5] 48 run_core_qc), placed 4 0 2 (fork_block 6 [] 125 run_core_qc),
     placed 5 0 3 (fork_block 7 [] 94 run_core_qc)]"

definition sidelined :: "replica_id \<Rightarrow> core" where
  "sidelined s = fork_state s (first_blocks @ filler_blocks) (2, fork_qc 14 (h256 122)) 1 0 3 {3, 6}
     (first_log s @ [received 4, received 5, received 6])"

lemma filler_run:
  assumes "s \<noteq> 0"
  shows "take_proposals run_env 0 (take 3 second_chain) (all_locked s) = Some (sidelined s)"
  using assms
  by (simp add: fork_eval second_chain_def all_locked_def first_log_def first_blocks_def filler_blocks_def sidelined_def)
    (simp add: numeral_2_eq_2 [symmetric] insert_commute insert_Diff_if)

definition fork_blocks :: "block list" where
  "fork_blocks = [mark_decided (placed 6 2 4 (fork_block 8 [] 95 (fork_qc 14 (h256 122)))), placed 7 7 5 (fork_block 9 [] 96 (fork_qc 13 (h256 96))),
     placed 8 8 6 (fork_block 10 [] 97 (fork_qc 13 (h256 97))), placed 9 9 7 (fork_block 11 [] 98 (fork_qc 13 (h256 98)))]"

definition fork_log :: "replica_id \<Rightarrow> event list" where
  "fork_log s = [received 7, vote_for s (h256 96), Resolve_Hqc_Update, received 8, vote_for s (h256 97), Resolve_Hqc_Update,
     received 9, vote_for s (h256 98), Resolve_Hqc_Update, Do_Consensus 4, Do_Decide \<lparr>fin_rid = s, fin_decision = 1, cmd_idx = 0,
        cmd_height = 1, cmd_hash = h256 5, fin_blk_hash = h256 125\<rparr>, Do_Consensus 5, Do_Consensus 6, Do_Consensus 7, received 10, vote_for s (h256 99)]"

definition other_committed :: "replica_id \<Rightarrow> core" where
  "other_committed s = fork_state s (first_blocks @ map mark_decided filler_blocks @ fork_blocks) (9, fork_qc 13 (h256 98)) 8 7 7 {3, 10}
     (first_log s @ [received 4, received 5, received 6] @ fork_log s)"

lemma fork_run:
  assumes "s \<noteq> 0"
  shows "take_proposals run_env 0 (drop 3 second_chain) (sidelined s) = Some (other_committed s)"
  using assms
  by (simp add: fork_eval second_chain_def sidelined_def first_log_def first_blocks_def filler_blocks_def other_committed_def fork_blocks_def fork_log_def)
    (simp add: numeral_2_eq_2 [symmetric] insert_commute insert_Diff_if)

text \<open>The first chain goes on with a fifth block.\<close>

definition fifth_block :: block where
  "fifth_block = fork_block 12 [] 92 (fork_qc 14 (h256 92))"

definition two_committed :: "replica_id \<Rightarrow> core" where
  "two_committed s = fork_state s ([root_block] @ map mark_decided (take 2 (drop 1 first_blocks)) @ drop 3 first_blocks @
       [placed 3 3 4 (fork_block 4 [] 91 (fork_qc 14 (h256 91))), placed 4 4 5 fifth_block])
     (4, fork_qc 14 (h256 92)) 3 2 5 {5} (first_log s @ [Resolve_Hqc_Update, Do_Consensus 1, Do_Decide \<lparr>fin_rid = s, fin_decision = 1, cmd_idx = 0,
        cmd_height = 1, cmd_hash = h256 1, fin_blk_hash = h256 121\<rparr>, received 4, vote_for s (h256 92), Resolve_Hqc_Update, Do_Consensus 2,
        Do_Decide \<lparr>fin_rid = s, fin_decision = 1, cmd_idx = 0, cmd_height = 2, cmd_hash = h256 2, fin_blk_hash = h256 122\<rparr>,
        received 5, vote_for s (h256 100)])"

lemma fifth_run:
  assumes "s \<noteq> 0"
  shows "take_proposals run_env 0 [fifth_block] (one_committed s) = Some (two_committed s)"
  using assms
  by (simp add: fork_eval one_committed_def first_log_def first_blocks_def two_committed_def fifth_block_def) (simp add: numeral_2_eq_2 [symmetric])

lemma fork_reachable:
  assumes "s \<noteq> 0"
  shows "peer_reachable run_env (one_committed s)" and "peer_reachable run_env (two_committed s)" and "peer_reachable run_env (other_committed s)"
proof -
  have "peer_reachable run_env (fork_start s)"
    by (rule peer_reachable.start [OF fork_core_start])
  then have l: "peer_reachable run_env (all_locked s)"
    by (rule take_proposals_reachable [OF _ first_run [OF assms]])
  show one: "peer_reachable run_env (one_committed s)"
    by (rule take_proposals_reachable [OF l fourth_run [OF assms]])
  show "peer_reachable run_env (two_committed s)"
    by (rule take_proposals_reachable [OF one fifth_run [OF assms]])
  show "peer_reachable run_env (other_committed s)"
    by (rule take_proposals_reachable [OF take_proposals_reachable [OF l filler_run [OF assms]] fork_run [OF assms]])
qed

text \<open>What the states hold: the contents of the delivered blocks, the blocks certified, the votes, what is committed.\<close>

definition contents :: "core \<Rightarrow> (uint256 \<times> uint256 list \<times> uint256 list \<times> uint256 option) list" where
  "contents c = map (\<lambda>r. (blk_hash (blk c r), parent_hashes (blk c r), blk_cmds (blk c r), qc_hash (blk c r)))
     (List.filter (\<lambda>r. delivered (blk c r)) [0..<next_ref c])"

definition certificates :: "core \<Rightarrow> uint256 list" where
  "certificates c = concat (map (\<lambda>r. case qc_ref (blk c r) of None \<Rightarrow> [] | Some k \<Rightarrow> if k = b0 c then [] else [blk_hash (blk c k)])
     (List.filter (\<lambda>r. delivered (blk c r)) [0..<next_ref c]))"

lemmas fork_view = fork_state_def contents_def certificates_def voted_hashes_def committed_hashes_def votes_of_def commits_of_def decides_of_def
  map_filter_simps heap_of_def qc_hash_def received_def vote_for_def first_blocks_def filler_blocks_def fork_blocks_def
  first_log_def fork_log_def fifth_block_def


end
