(* ===== verification/Fork.thy ===== *)
theory Fork
  imports Fork_Runs
begin

text \<open>
  The two runs of \<open>Fork_Runs\<close> as systems of replicas: in one, agreement holds and its hypotheses are
  met; in the other a single faulty replica has broken it with a certificate that does not name an
  ancestor of its block.
\<close>

text \<open>The blocks of the run: hash, hash of the parent, commands, hash of the certified block.\<close>

definition fork_contents :: "(uint256 \<times> uint256 list \<times> uint256 list \<times> uint256 option) list" where
  "fork_contents = (h256 48, [], [], Some (h256 48)) # map (\<lambda>(h, p, cs, q). (h256 h, [h256 p], cs, Some (h256 q)))
     [(121, 48, [h256 1], 48), (122, 121, [h256 2], 121), (91, 122, [], 122), (92, 91, [], 91), (100, 92, [], 92),
      (125, 48, [h256 5], 48), (94, 125, [], 48), (95, 94, [], 48), (96, 95, [], 122), (97, 96, [], 96), (98, 97, [], 97), (99, 98, [], 98)]"

lemma fork_contents_distinct: "distinct (map fst fork_contents)"
  by (simp add: fork_contents_def)

lemma one_committed_view:
  "set (contents (one_committed s)) \<subseteq> set fork_contents" "set (certificates (one_committed s)) \<subseteq> {h256 121, h256 122, h256 91}"
  "voted_hashes (one_committed s) = map h256 [121, 122, 91, 92]" "committed_hashes (one_committed s) = [h256 121]"
  "map cmd_hash (decides_of (events (one_committed s))) = [h256 1]"
  by (simp_all add: one_committed_def fork_view fork_contents_def)

lemma two_committed_view:
  "set (contents (two_committed s)) \<subseteq> set fork_contents" "set (certificates (two_committed s)) \<subseteq> {h256 121, h256 122, h256 91, h256 92}"
  "voted_hashes (two_committed s) = map h256 [121, 122, 91, 92, 100]" "committed_hashes (two_committed s) = [h256 121, h256 122]"
  "map cmd_hash (decides_of (events (two_committed s))) = [h256 1, h256 2]"
  by (simp_all add: two_committed_def fork_view fork_contents_def)

lemma other_committed_view:
  "set (contents (other_committed s)) \<subseteq> set fork_contents"
  "set (certificates (other_committed s)) \<subseteq> {h256 121, h256 122, h256 96, h256 97, h256 98}"
  "voted_hashes (other_committed s) = map h256 [121, 122, 91, 96, 97, 98, 99]"
  "committed_hashes (other_committed s) = map h256 [125, 94, 95, 96]" "map cmd_hash (decides_of (events (other_committed s))) = [h256 5]"
  by (simp_all add: other_committed_def fork_view fork_contents_def)

lemma fork_root:
  "blk_hash (blk (one_committed s) (b0 (one_committed s))) = h256 48" "blk_hash (blk (two_committed s) (b0 (two_committed s))) = h256 48"
  "blk_hash (blk (other_committed s) (b0 (other_committed s))) = h256 48"
  by (simp_all add: one_committed_def two_committed_def other_committed_def fork_view)

definition straight :: "core \<Rightarrow> bool" where
  "straight c \<longleftrightarrow> list_all (\<lambda>r. delivered (blk c r) \<longrightarrow> r \<noteq> b0 c \<longrightarrow> qc_ref (blk c r) = first_parent (blk c r)) [0..<next_ref c]"

lemma straight_on_branch:
  assumes "straight c"
  shows "on_branch c"
  unfolding on_branch_def
proof (intro allI impI)
  fix x q
  assume "x < next_ref c" "delivered (blk c x)" "x \<noteq> b0 c" "qc_ref (blk c x) = Some q"
  then have "first_parent (blk c x) = Some q"
    using assms by (auto simp: straight_def list_all_iff)
  then show "\<exists>bs. chain (heap c) (q # bs @ [x])"
    by (intro exI [of _ "[]"]) (simp add: chain_def)
qed

lemma committed_straight: "straight (one_committed s)" "straight (two_committed s)"
  by (simp_all add: straight_def one_committed_def two_committed_def fork_view first_parent_def)

subsection \<open>Systems of such replicas\<close>

lemma contents_collision_free:
  assumes "\<forall>s \<in> H. set (contents (cs s)) \<subseteq> set T" and "distinct (map fst T)"
  shows "collision_free cs H"
proof -
  have in_table: "(blk_hash (blk (cs s) x), parent_hashes (blk (cs s) x), blk_cmds (blk (cs s) x), qc_hash (blk (cs s) x)) \<in> set T"
    if "delivered_at cs H s x" for s x
    using that assms(1) by (force simp: delivered_at_def contents_def)
  show ?thesis
    unfolding collision_free_def
    by (intro allI impI) (use in_table eq_key_imp_eq_value [OF assms(2)] in \<open>metis Pair_inject\<close>)
qed

lemma certificates_backedI:
  assumes "\<forall>s \<in> H. \<forall>h \<in> set (certificates (cs s)). quorum_voted N H q (\<lambda>t. voted_hashes (cs t)) h"
  shows "certificates_backed cs N H q"
  unfolding certificates_backed_def
proof (intro allI impI)
  fix s x k
  assume d: "delivered_at cs H s x" "qc_ref (blk (cs s) x) = Some k" "k \<noteq> b0 (cs s)"
  then have "blk_hash (blk (cs s) k) \<in> set (certificates (cs s))"
    by (force simp: delivered_at_def certificates_def)
  then show "quorum_voted N H q (\<lambda>t. voted_hashes (cs t)) (blk_hash (blk (cs s) k))"
    using assms d(1) unfolding delivered_at_def by blast
qed

text \<open>Replica 0 is faulty. Replica 1 has committed, replicas 2 and 3 are in the state \<open>f\<close>.\<close>

definition cores_with :: "(replica_id \<Rightarrow> core) \<Rightarrow> replica_id \<Rightarrow> core" where
  "cores_with f s = (if s = 1 then one_committed s else f s)"

lemma quorum_ofI:
  assumes "Q \<subseteq> {0, 1, 2, 3}" and "3 \<le> card Q" and "\<forall>t \<in> Q - {0}. h \<in> set (voted_hashes (cores_with f t))"
  shows "quorum_voted {0, 1, 2, 3} {1, 2, 3} 3 (\<lambda>t. voted_hashes (cores_with f t)) h"
  unfolding quorum_voted_def using assms by (intro exI [of _ Q]) auto

lemma cores_system:
  assumes "\<And>s. s \<noteq> 0 \<Longrightarrow> peer_reachable run_env (f s)" and "\<And>s. blk_hash (blk (f s) (b0 (f s))) = h256 48"
    and "\<And>s. set (contents (f s)) \<subseteq> set fork_contents"
    and "\<And>s h. s \<in> {1, 2, 3} \<Longrightarrow> h \<in> set (certificates (cores_with f s)) \<Longrightarrow>
      quorum_voted {0, 1, 2, 3} {1, 2, 3} 3 (\<lambda>t. voted_hashes (cores_with f t)) h"
  shows "honest_system (\<lambda>_. run_env) (cores_with f) {0, 1, 2, 3} {1, 2, 3} 3 (h256 48)"
proof -
  have "certificates_backed (cores_with f) {0, 1, 2, 3} {1, 2, 3} 3"
    by (rule certificates_backedI) (use assms(4) in blast)
  moreover have "collision_free (cores_with f) {1, 2, 3}"
    by (rule contents_collision_free [OF _ fork_contents_distinct]) (simp add: cores_with_def one_committed_view(1) assms(3))
  moreover have "{0, 1, 2, 3} - {1, 2, 3} = {0 :: replica_id}" by auto
  ultimately show ?thesis
    using fork_reachable(1) fork_root(1) assms(1,2) by (auto simp: honest_system_def cores_with_def)
qed

text \<open>A certificate of the first chain stands on the votes of 1, 2 and 3, one of the second on those of 2, 3 and the faulty replica.\<close>

lemma first_quorum:
  assumes "h \<in> {h256 121, h256 122, h256 91}"
  shows "quorum_voted {0, 1, 2, 3} {1, 2, 3} 3 (\<lambda>t. voted_hashes (cores_with other_committed t)) h"
  by (rule quorum_ofI [of "{1, 2, 3}"]) (use assms in \<open>auto simp: cores_with_def one_committed_view(3) other_committed_view(3)\<close>)

lemma second_quorum:
  assumes "h \<in> {h256 96, h256 97, h256 98}"
  shows "quorum_voted {0, 1, 2, 3} {1, 2, 3} 3 (\<lambda>t. voted_hashes (cores_with other_committed t)) h"
  by (rule quorum_ofI [of "{0, 2, 3}"]) (use assms in \<open>auto simp: cores_with_def other_committed_view(3)\<close>)

lemma steady_quorum:
  assumes "h \<in> {h256 121, h256 122, h256 91, h256 92}"
  shows "quorum_voted {0, 1, 2, 3} {1, 2, 3} 3 (\<lambda>t. voted_hashes (cores_with two_committed t)) h"
  by (rule quorum_ofI [of "{1, 2, 3}"]) (use assms in \<open>auto simp: cores_with_def one_committed_view(3) two_committed_view(3)\<close>)

lemma forked_system: "honest_system (\<lambda>_. run_env) (cores_with other_committed) {0, 1, 2, 3} {1, 2, 3} 3 (h256 48)"
proof (rule cores_system)
  show "peer_reachable run_env (other_committed s)" if "s \<noteq> 0" for s
    using that by (rule fork_reachable(3))
  fix s :: replica_id and h
  assume "h \<in> set (certificates (cores_with other_committed s))"
  then have "h \<in> {h256 121, h256 122, h256 91} \<union> {h256 96, h256 97, h256 98}"
    using one_committed_view(2) [of s] other_committed_view(2) [of s] by (auto simp: cores_with_def split: if_splits)
  then show "quorum_voted {0, 1, 2, 3} {1, 2, 3} 3 (\<lambda>t. voted_hashes (cores_with other_committed t)) h"
    using first_quorum second_quorum by blast
qed (rule fork_root(3), rule other_committed_view(1))

lemma steady_system: "honest_system (\<lambda>_. run_env) (cores_with two_committed) {0, 1, 2, 3} {1, 2, 3} 3 (h256 48)"
proof (rule cores_system)
  show "peer_reachable run_env (two_committed s)" if "s \<noteq> 0" for s
    using that by (rule fork_reachable(2))
  fix s :: replica_id and h
  assume "h \<in> set (certificates (cores_with two_committed s))"
  then have "h \<in> {h256 121, h256 122, h256 91, h256 92}"
    using one_committed_view(2) [of s] two_committed_view(2) [of s] by (auto simp: cores_with_def split: if_splits)
  then show "quorum_voted {0, 1, 2, 3} {1, 2, 3} 3 (\<lambda>t. voted_hashes (cores_with two_committed t)) h"
    by (rule steady_quorum)
qed (rule fork_root(2), rule two_committed_view(1))

text \<open>An honest run that satisfies the hypotheses of agreement: replica 1 lags behind replicas 2 and 3.\<close>

lemma agreement_witness:
  "prefix (committed_hashes (one_committed 1)) (committed_hashes (two_committed 2)) \<and> length (committed_hashes (two_committed 2)) = 2"
proof -
  have "all_on_branch (cores_with two_committed) {1, 2, 3}"
    using committed_straight straight_on_branch by (simp add: all_on_branch_def cores_with_def)
  from agreement [OF steady_system this, of 1 2] show ?thesis
    by (auto simp: cores_with_def one_committed_view(4) two_committed_view(4))
qed

text \<open>
  C2: nothing checks that the certificate of a block names an ancestor of it. Of four replicas one is
  faulty; every certificate is backed by the votes of three, no hash collides, and yet replica 1 commits
  the block of command 1 and replica 2 the block of command 5 at the same height: block 8 of the faulty
  proposer does not extend the lock of replicas 2 and 3, but names a block above the lock as certified,
  and so they vote for it.
\<close>

theorem stray_certificate_forks:
  "honest_system (\<lambda>_. run_env) (cores_with other_committed) {0, 1, 2, 3} {1, 2, 3} 3 (h256 48) \<and>
   committed_hashes (cores_with other_committed 1) = [h256 121] \<and>
   committed_hashes (cores_with other_committed 2) = map h256 [125, 94, 95, 96] \<and>
   map cmd_hash (decides_of (events (cores_with other_committed 1))) = [h256 1] \<and>
   map cmd_hash (decides_of (events (cores_with other_committed 2))) = [h256 5] \<and>
   \<not> prefix [h256 121] (map h256 [125, 94, 95, 96]) \<and> \<not> prefix (map h256 [125, 94, 95, 96]) [h256 121]"
  using forked_system by (simp add: cores_with_def one_committed_view(4,5) other_committed_view(4,5))

end
