(* ===== verification/Preferences.thy ===== *)
theory Preferences
  imports Hyper_Graph
begin

text \<open>
  What \<open>compute_preferences\<close> and \<open>compute_canonical_positions\<close> compute: the ids are a bijection
  between the first \<open>max_number_cmds\<close> distinct commands and an initial segment of the naturals,
  the matrix counts in how many places one command stands before another, and the canonical
  position of a command is the number of commands that enough lists put before it.
\<close>

subsection \<open>The id table\<close>

definition reg_inv :: "nat \<Rightarrow> hyper_graph \<Rightarrow> bool" where
  "reg_inv mx g \<longleftrightarrow>
     length (id_to_cmd g) = n_txns g \<and> n_txns g \<le> mx \<and> distinct (id_to_cmd g) \<and>
     (\<forall>c i. cmd_to_id g c = Some i \<longleftrightarrow> i < n_txns g \<and> id_to_cmd g ! i = c)"

lemma reg_inv_known: "reg_inv mx g \<Longrightarrow> cmd_to_id g c = None \<longleftrightarrow> c \<notin> set (id_to_cmd g)"
  unfolding reg_inv_def by (metis in_set_conv_nth not_None_eq nth_mem)

lemma reg_inv_insert:
  assumes "reg_inv mx g" and "n_txns g < mx" and "cmd_to_id g c = None"
  shows "reg_inv mx (g\<lparr>cmd_to_id := (cmd_to_id g)(c := Some (n_txns g)),
      id_to_cmd := id_to_cmd g @ [c], n_txns := Suc (n_txns g)\<rparr>)" (is "reg_inv mx ?g")
proof -
  have new: "c \<notin> set (id_to_cmd g)" and len: "length (id_to_cmd g) = n_txns g"
    using assms reg_inv_known [of mx g c] by (simp_all add: reg_inv_def)
  have "cmd_to_id ?g d = Some i \<longleftrightarrow> i < n_txns ?g \<and> id_to_cmd ?g ! i = d" for d i
  proof (cases "d = c")
    case True
    have "id_to_cmd g ! i \<noteq> c" if "i < n_txns g"
      using new len that nth_mem by metis
    with True len show ?thesis
      by (auto simp: nth_append less_Suc_eq)
  next
    case False
    with assms(1) len show ?thesis
      by (auto simp: reg_inv_def nth_append less_Suc_eq)
  qed
  with assms new len show ?thesis
    by (simp add: reg_inv_def)
qed

lemma register_cmds_inv: "reg_inv mx g \<Longrightarrow> reg_inv mx (register_cmds mx cs g)"
  by (induction cs arbitrary: g) (simp_all add: reg_inv_insert)

lemma register_cmds_set:
  "reg_inv mx g \<Longrightarrow> set (id_to_cmd (register_cmds mx cs g)) \<subseteq> set (id_to_cmd g) \<union> set cs"
proof (induction cs arbitrary: g)
  case Nil
  then show ?case by simp
next
  case (Cons c cs)
  show ?case
  proof (cases "cmd_to_id g c = None \<and> n_txns g < mx")
    case True
    with Cons.IH [OF reg_inv_insert [OF Cons.prems]] show ?thesis
      by auto
  next
    case False
    with Cons show ?thesis
      by auto
  qed
qed

text \<open>Only a full table leaves a command out.\<close>

lemma register_cmds_all:
  "reg_inv mx g \<Longrightarrow> n_txns (register_cmds mx cs g) = mx \<or>
   set (id_to_cmd (register_cmds mx cs g)) = set (id_to_cmd g) \<union> set cs"
proof (induction cs arbitrary: g)
  case Nil
  then show ?case by simp
next
  case (Cons c cs)
  consider "cmd_to_id g c = None" "n_txns g < mx" | "cmd_to_id g c = None" "n_txns g = mx"
    | "cmd_to_id g c \<noteq> None"
    using Cons.prems by (force simp: reg_inv_def)
  then show ?case
  proof cases
    case 1
    with Cons.IH [OF reg_inv_insert [OF Cons.prems]] show ?thesis
      by auto
  next
    case 2
    then show ?thesis by simp
  next
    case 3
    then have "c \<in> set (id_to_cmd g)"
      using reg_inv_known [OF Cons.prems] by auto
    then have "set (id_to_cmd g) \<union> set (c # cs) = set (id_to_cmd g) \<union> set cs"
      by auto
    moreover have "register_cmds mx (c # cs) g = register_cmds mx cs g"
      using 3 by auto
    ultimately show ?thesis
      using Cons.IH [OF Cons.prems] by (simp only:)
  qed
qed

lemma register_cmds_other [simp]:
  "pref (register_cmds mx cs g) = pref g" "canonical_pos (register_cmds mx cs g) = canonical_pos g"
  "hyperedges (register_cmds mx cs g) = hyperedges g" "threshold (register_cmds mx cs g) = threshold g"
  "margin (register_cmds mx cs g) = margin g" "gamma (register_cmds mx cs g) = gamma g"
  by (induction cs arbitrary: g) simp_all

text \<open>All the lists: \<open>register_all\<close> is the second loop over the replicas.\<close>

definition register_all :: "nat \<Rightarrow> ordered_list list \<Rightarrow> hyper_graph \<Rightarrow> hyper_graph" where
  "register_all mx ls g =
     fold (\<lambda>l. register_cmds mx (ol_cmds l)) ls (g\<lparr>cmd_to_id := (\<lambda>_. None), id_to_cmd := [], n_txns := 0\<rparr>)"

definition all_cmds :: "ordered_list list \<Rightarrow> uint256 set" where
  "all_cmds ls = (\<Union>l \<in> set ls. set (ol_cmds l))"

lemma all_cmds_simps [simp]:
  "all_cmds [] = {}" "all_cmds (l # ls) = set (ol_cmds l) \<union> all_cmds ls" "finite (all_cmds ls)"
  by (simp_all add: all_cmds_def)

lemma fold_register_inv:
  "reg_inv mx g \<Longrightarrow> reg_inv mx (fold (\<lambda>l. register_cmds mx (ol_cmds l)) ls g)"
  by (induction ls arbitrary: g) (simp_all add: register_cmds_inv)

lemma fold_register_set:
  "reg_inv mx g \<Longrightarrow> set (id_to_cmd (fold (\<lambda>l. register_cmds mx (ol_cmds l)) ls g))
     \<subseteq> set (id_to_cmd g) \<union> all_cmds ls"
proof (induction ls arbitrary: g)
  case Nil
  then show ?case by simp
next
  case (Cons l ls)
  show ?case
    using Cons.IH [OF register_cmds_inv [OF Cons.prems]]
      register_cmds_set [OF Cons.prems, of "ol_cmds l"] by fastforce
qed

lemma register_cmds_full: "reg_inv mx g \<Longrightarrow> n_txns g = mx \<Longrightarrow> n_txns (register_cmds mx cs g) = mx"
  by (induction cs arbitrary: g) simp_all

lemma fold_register_full:
  "reg_inv mx g \<Longrightarrow> n_txns g = mx \<Longrightarrow> n_txns (fold (\<lambda>l. register_cmds mx (ol_cmds l)) ls g) = mx"
  by (induction ls arbitrary: g) (simp_all add: register_cmds_full register_cmds_inv)

lemma fold_register_all:
  "reg_inv mx g \<Longrightarrow> n_txns (fold (\<lambda>l. register_cmds mx (ol_cmds l)) ls g) = mx \<or>
     set (id_to_cmd (fold (\<lambda>l. register_cmds mx (ol_cmds l)) ls g)) = set (id_to_cmd g) \<union> all_cmds ls"
proof (induction ls arbitrary: g)
  case Nil
  then show ?case by simp
next
  case (Cons l ls)
  note inv = register_cmds_inv [OF Cons.prems, of "ol_cmds l"]
  from register_cmds_all [OF Cons.prems, of "ol_cmds l"] show ?case
  proof
    assume "n_txns (register_cmds mx (ol_cmds l) g) = mx"
    then show ?thesis
      by (simp add: fold_register_full [OF inv])
  next
    assume "set (id_to_cmd (register_cmds mx (ol_cmds l) g)) = set (id_to_cmd g) \<union> set (ol_cmds l)"
    with Cons.IH [OF inv] show ?thesis
      by auto
  qed
qed

lemma reg_inv_reset: "reg_inv mx (g\<lparr>cmd_to_id := (\<lambda>_. None), id_to_cmd := [], n_txns := 0\<rparr>)"
  by (simp add: reg_inv_def)

lemma register_all_margin [simp]: "margin (register_all mx ls g) = margin g"
proof -
  have "margin (fold (\<lambda>l. register_cmds mx (ol_cmds l)) ls h) = margin h" for h
    by (induction ls arbitrary: h) simp_all
  then show ?thesis
    by (simp add: register_all_def)
qed

lemma register_all_inv: "reg_inv mx (register_all mx ls g)"
  unfolding register_all_def by (intro fold_register_inv reg_inv_reset)

lemma register_all_set: "set (id_to_cmd (register_all mx ls g)) \<subseteq> all_cmds ls"
  using fold_register_set [OF reg_inv_reset] unfolding register_all_def by fastforce

lemma register_all_card: "n_txns (register_all mx ls g) = min mx (card (all_cmds ls))"
proof -
  let ?g = "register_all mx ls g"
  have inv: "reg_inv mx ?g"
    by (rule register_all_inv)
  then have n: "n_txns ?g = card (set (id_to_cmd ?g))" and le: "n_txns ?g \<le> mx"
    by (simp_all add: reg_inv_def distinct_card)
  have "n_txns ?g \<le> card (all_cmds ls)"
    unfolding n by (intro card_mono register_all_set) simp
  moreover have "n_txns ?g = mx \<or> set (id_to_cmd ?g) = all_cmds ls"
    using fold_register_all [OF reg_inv_reset, where mx = mx and ls = ls] by (simp add: register_all_def)
  ultimately show ?thesis
    using n le by auto
qed

lemma register_all_complete:
  "card (all_cmds ls) \<le> mx \<Longrightarrow> set (id_to_cmd (register_all mx ls g)) = all_cmds ls"
  using register_all_card [where g = g and ls = ls and mx = mx]
    register_all_inv [where g = g and ls = ls and mx = mx]
    register_all_set [where g = g and ls = ls and mx = mx]
  by (intro card_subset_eq) (simp_all add: reg_inv_def distinct_card min_def)

subsection \<open>The preference matrix\<close>

text \<open>In how many pairs of places of \<open>xs\<close> the element \<open>a\<close> stands before \<open>b\<close>.\<close>

fun npairs :: "'a list \<Rightarrow> 'a \<Rightarrow> 'a \<Rightarrow> nat" where
  "npairs [] a b = 0"
| "npairs (x # xs) a b = (if x = a then count_list xs b else 0) + npairs xs a b"

lemma npairs_notin: "a \<notin> set xs \<or> b \<notin> set xs \<Longrightarrow> npairs xs a b = 0"
  by (induction xs) (auto simp: count_list_0_iff)

lemma count_list_distinct: "distinct xs \<Longrightarrow> count_list xs x = (if x \<in> set xs then 1 else 0)"
  by (induction xs) auto

lemma npairs_distinct: "distinct xs \<Longrightarrow> npairs xs a b = (if before xs a b then 1 else 0)"
proof (induction xs)
  case Nil
  then show ?case by simp
next
  case (Cons x xs)
  show ?case
  proof (cases "x = a")
    case True
    then have "\<not> before xs a b" and "npairs xs a b = 0"
      using Cons.prems before_in_set [of xs a b] by (auto simp: npairs_notin)
    with True Cons.prems show ?thesis
      by (simp add: before_Cons count_list_distinct)
  next
    case False
    with Cons show ?thesis
      by (simp add: before_Cons)
  qed
qed

lemma pref_row_length [simp]: "length (pref_row n i js p) = length p"
  by (induction js arbitrary: p) simp_all

lemma pref_list_length [simp]: "length (pref_list n js p) = length p"
  by (induction js arbitrary: p) simp_all

lemma cell_eq_iff: "b < n \<Longrightarrow> d < n \<Longrightarrow> a * n + b = c * n + d \<longleftrightarrow> a = c \<and> b = (d :: nat)"
  by (metis div_mult_self3 div_less add_cancel_right_right add_left_cancel less_nat_zero_code
      mult.commute add.commute)

lemma cell_less: "a < n \<Longrightarrow> b < n \<Longrightarrow> a * n + b < n * (n :: nat)"
  by (metis add.commute add_less_cancel_left less_le_trans mult_Suc mult_le_mono1 Suc_leI)

lemma pref_row_nth:
  assumes "set js \<subseteq> {..<n}" and "i < n" and "length p = n * n" and "a < n" and "b < n"
  shows "pref_row n i js p ! (a * n + b) = p ! (a * n + b) + (if a = i then of_nat (count_list js b) else 0)"
  using assms
proof (induction js arbitrary: p)
  case Nil
  then show ?case by simp
next
  case (Cons j js)
  let ?p = "p[i * n + j := p ! (i * n + j) + 1]"
  have "pref_row n i js ?p ! (a * n + b) = ?p ! (a * n + b) + (if a = i then of_nat (count_list js b) else 0)"
    using Cons by simp
  moreover have "?p ! (a * n + b) = p ! (a * n + b) + (if a = i \<and> b = j then 1 else 0)"
    using Cons.prems cell_less [of i n j] cell_eq_iff [of j n b i a] by (auto simp: nth_list_update)
  ultimately show ?case
    by (auto simp: ac_simps)
qed

lemma pref_list_nth:
  assumes "set js \<subseteq> {..<n}" and "length p = n * n" and "a < n" and "b < n"
  shows "pref_list n js p ! (a * n + b) = p ! (a * n + b) + of_nat (npairs js a b)"
  using assms
proof (induction js arbitrary: p)
  case Nil
  then show ?case by simp
next
  case (Cons i js)
  then show ?case
    by (simp add: pref_row_nth)
qed

lemma fold_pref_list_length [simp]: "length (fold (pref_list n) jss p) = length p"
  by (induction jss arbitrary: p) simp_all

lemma fold_pref_list_nth:
  assumes "\<forall>js \<in> set jss. set js \<subseteq> {..<n}" and "length p = n * n" and "a < n" and "b < n"
  shows "fold (pref_list n) jss p ! (a * n + b) = p ! (a * n + b) + of_nat (\<Sum>js \<leftarrow> jss. npairs js a b)"
  using assms
proof (induction jss arbitrary: p)
  case Nil
  then show ?case by simp
next
  case (Cons js jss)
  then show ?case
    by (simp add: pref_list_nth add.assoc)
qed


text \<open>The sorted lists and the result of \<open>compute_preferences\<close>.\<close>

lemma sort_if_needed_set:
  "std_sort_ok srt \<Longrightarrow> set (ol_cmds (sort_if_needed srt l)) = set (ol_cmds l)"
  by (simp add: sort_if_needed_def sort_cmds_set)

lemma sort_if_needed_distinct:
  "std_sort_ok srt \<Longrightarrow> distinct (ol_cmds (sort_if_needed srt l)) = distinct (ol_cmds l)"
  by (simp add: sort_if_needed_def sort_cmds_distinct)

lemma all_cmds_sort_if_needed:
  "std_sort_ok srt \<Longrightarrow> all_cmds (map (sort_if_needed srt) ls) = all_cmds ls"
  by (simp add: all_cmds_def sort_if_needed_set)

lemma compute_preferences_simps:
  "fst (compute_preferences srt mx ls g) = map (sort_if_needed srt) ls"
  "snd (compute_preferences srt mx ls g) =
     (let g1 = register_all mx (map (sort_if_needed srt) ls) g
      in if n_txns g1 = 0 then g1
         else g1\<lparr>pref := fold (pref_list (n_txns g1)) (map (mapped_ids g1) (map (sort_if_needed srt) ls))
                  (replicate (n_txns g1 * n_txns g1) 0)\<rparr>)"
  by (simp_all add: compute_preferences_def register_all_def Let_def)

lemma compute_preferences_keeps:
  fixes srt mx ls g
  defines "h \<equiv> snd (compute_preferences srt mx ls g)" and "r \<equiv> register_all mx (map (sort_if_needed srt) ls) g"
  shows "cmd_to_id h = cmd_to_id r" "id_to_cmd h = id_to_cmd r" "n_txns h = n_txns r"
    "margin h = margin r" "reg_inv mx h \<longleftrightarrow> reg_inv mx r" "mapped_ids h l = mapped_ids r l"
  by (simp_all add: compute_preferences_simps h_def r_def Let_def reg_inv_def mapped_ids_def)

lemma compute_preferences_inv: "reg_inv mx (snd (compute_preferences srt mx ls g))"
  by (simp add: compute_preferences_keeps register_all_inv)

lemma mapped_ids_less:
  assumes "reg_inv mx g"
  shows "set (mapped_ids g l) \<subseteq> {..<n_txns g}"
proof
  fix i assume "i \<in> set (mapped_ids g l)"
  then obtain c where "cmd_to_id g c = Some i"
    by (auto simp: mapped_ids_def map_filter_def)
  then show "i \<in> {..<n_txns g}"
    using assms by (simp add: reg_inv_def)
qed

lemma compute_preferences_nth:
  assumes "a < n_txns h" and "b < n_txns h" and "h = snd (compute_preferences srt mx ls g)"
  shows "pref h ! (a * n_txns h + b) =
    of_nat (\<Sum>l \<leftarrow> ls. npairs (mapped_ids h (sort_if_needed srt l)) a b)"
proof -
  define r where "r = register_all mx (map (sort_if_needed srt) ls) g"
  have n: "n_txns h = n_txns r" and ids: "mapped_ids h = mapped_ids r"
    by (auto simp: compute_preferences_keeps assms(3) r_def)
  have "pref h = fold (pref_list (n_txns r)) (map (mapped_ids r) (map (sort_if_needed srt) ls))
      (replicate (n_txns r * n_txns r) 0)"
    using assms(1) n by (simp add: assms(3) compute_preferences_simps Let_def r_def)
  moreover have "reg_inv mx r"
    by (simp add: r_def register_all_inv)
  ultimately show ?thesis
    using assms(1,2) mapped_ids_less [of mx r] cell_less [of a "n_txns r" b]
    by (simp add: fold_pref_list_nth n ids comp_def)
qed

text \<open>
  With fewer than \<open>2 ^ 16\<close> lists, none of which names a command twice, no counter wraps and each
  is the number of lists that put the one command before the other.
\<close>

lemma reg_inv_inj:
  assumes "reg_inv mx g"
  shows "inj_on (the \<circ> cmd_to_id g) {c. cmd_to_id g c \<noteq> None}"
proof (rule inj_onI)
  fix c d
  assume "c \<in> {c. cmd_to_id g c \<noteq> None}" and "d \<in> {c. cmd_to_id g c \<noteq> None}"
    and "(the \<circ> cmd_to_id g) c = (the \<circ> cmd_to_id g) d"
  then obtain i where "cmd_to_id g c = Some i" and "cmd_to_id g d = Some i"
    by auto
  then show "c = d"
    using assms by (simp add: reg_inv_def)
qed

lemma mapped_ids_distinct:
  assumes "reg_inv mx g" and "distinct (ol_cmds l)"
  shows "distinct (mapped_ids g l)"
proof -
  have "inj_on (the \<circ> cmd_to_id g) (set (filter (\<lambda>c. cmd_to_id g c \<noteq> None) (ol_cmds l)))"
    using reg_inv_inj [OF assms(1)] by (rule inj_on_subset) auto
  then show ?thesis
    using assms(2) by (simp add: mapped_ids_def List.map_filter_def distinct_map comp_def)
qed

lemma before_map_inj:
  assumes "inj_on f (set xs \<union> {a, b})"
  shows "before (map f xs) (f a) (f b) \<longleftrightarrow> before xs a b"
  using assms
proof (induction xs)
  case Nil
  then show ?case by simp
next
  case (Cons x xs)
  have "inj_on f (set xs \<union> {a, b})"
    using Cons.prems by (rule inj_on_subset) auto
  moreover have "f x = f a \<longleftrightarrow> x = a" "f b \<in> f ` set xs \<longleftrightarrow> b \<in> set xs"
    using Cons.prems by (auto simp: inj_on_def)
  ultimately show ?case
    using Cons.IH by (simp add: before_Cons)
qed

lemma before_filter: "before (filter P xs) a b \<longleftrightarrow> P a \<and> P b \<and> before xs a b"
  by (induction xs) (auto simp: before_Cons)

lemma before_mapped_ids:
  assumes inv: "reg_inv mx g" and ids: "cmd_to_id g c = Some i" "cmd_to_id g d = Some j"
  shows "before (mapped_ids g l) i j \<longleftrightarrow> before (ol_cmds l) c d"
proof -
  let ?f = "the \<circ> cmd_to_id g" and ?P = "\<lambda>c. cmd_to_id g c \<noteq> None"
  have "inj_on ?f (set (filter ?P (ol_cmds l)) \<union> {c, d})"
    using reg_inv_inj [OF inv] by (rule inj_on_subset) (auto simp: ids)
  then have "before (map ?f (filter ?P (ol_cmds l))) (?f c) (?f d) \<longleftrightarrow> before (filter ?P (ol_cmds l)) c d"
    by (rule before_map_inj)
  then show ?thesis
    by (simp add: mapped_ids_def List.map_filter_def comp_def ids before_filter)
qed

lemma sum_list_indicator: "(\<Sum>x \<leftarrow> xs. if P x then 1 else 0 :: nat) = length (filter P xs)"
  by (induction xs) auto

lemma compute_preferences_count:
  assumes h: "h = snd (compute_preferences srt mx ls g)" and srt: "std_sort_ok srt"
    and len: "length ls < 2 ^ 16" and dist: "\<forall>l \<in> set ls. distinct (ol_cmds l)"
    and ids: "cmd_to_id h c = Some i" "cmd_to_id h d = Some j"
  shows "unat (pref h ! (i * n_txns h + j)) =
    length (filter (\<lambda>l. before (ol_cmds (sort_if_needed srt l)) c d) ls)"
proof -
  have inv: "reg_inv mx h"
    by (simp add: h compute_preferences_inv)
  have ij: "i < n_txns h" "j < n_txns h"
    using inv ids by (simp_all add: reg_inv_def)
  have "npairs (mapped_ids h (sort_if_needed srt l)) i j =
      (if before (ol_cmds (sort_if_needed srt l)) c d then 1 else 0)" if "l \<in> set ls" for l
  proof -
    have "distinct (mapped_ids h (sort_if_needed srt l))"
      using that dist srt by (intro mapped_ids_distinct [OF inv]) (simp add: sort_if_needed_distinct)
    then show ?thesis
      by (simp add: npairs_distinct before_mapped_ids [OF inv ids])
  qed
  then have "(\<Sum>l \<leftarrow> ls. npairs (mapped_ids h (sort_if_needed srt l)) i j) =
      (\<Sum>l \<leftarrow> ls. if before (ol_cmds (sort_if_needed srt l)) c d then 1 else 0)"
    by (intro arg_cong [of _ _ sum_list] map_cong) simp_all
  then have "pref h ! (i * n_txns h + j) =
      of_nat (length (filter (\<lambda>l. before (ol_cmds (sort_if_needed srt l)) c d) ls))"
    using compute_preferences_nth [OF ij h] by (simp only: sum_list_indicator)
  moreover have "length (filter (\<lambda>l. before (ol_cmds (sort_if_needed srt l)) c d) ls) < 2 ^ 16"
    using len by (rule le_less_trans [rotated]) (rule length_filter_le)
  ultimately show ?thesis
    by (simp add: unat_of_nat take_bit_nat_eq_self)
qed

text \<open>Lists that all carry the same distinct commands leave these in the table, in their order.\<close>

lemma register_cmds_known:
  "\<forall>c \<in> set cs. cmd_to_id g c \<noteq> None \<Longrightarrow> register_cmds mx cs g = g"
  by (induction cs) auto

lemma register_cmds_fresh:
  "reg_inv mx g \<Longrightarrow> distinct cs \<Longrightarrow> set cs \<inter> set (id_to_cmd g) = {} \<Longrightarrow> n_txns g + length cs \<le> mx \<Longrightarrow>
   id_to_cmd (register_cmds mx cs g) = id_to_cmd g @ cs"
proof (induction cs arbitrary: g)
  case Nil
  then show ?case by simp
next
  case (Cons c cs)
  have new: "cmd_to_id g c = None" "n_txns g < mx"
    using Cons.prems reg_inv_known [OF Cons.prems(1), of c] by auto
  then have "reg_inv mx (g\<lparr>cmd_to_id := (cmd_to_id g)(c := Some (n_txns g)),
      id_to_cmd := id_to_cmd g @ [c], n_txns := Suc (n_txns g)\<rparr>)"
    by (intro reg_inv_insert Cons.prems(1))
  from Cons.IH [OF this] new Cons.prems show ?case
    by simp
qed

lemma register_all_agree:
  assumes "\<forall>l \<in> set ls. ol_cmds l = xs" and "ls \<noteq> []" and "distinct xs" and "length xs \<le> mx"
  shows "id_to_cmd (register_all mx ls g) = xs"
proof -
  let ?g = "g\<lparr>cmd_to_id := (\<lambda>_. None), id_to_cmd := [], n_txns := 0\<rparr>"
  let ?h = "register_cmds mx xs ?g"
  obtain l ks where ls: "ls = l # ks"
    using assms(2) by (cases ls) simp_all
  have ids: "id_to_cmd ?h = xs"
    using register_cmds_fresh [OF reg_inv_reset, of xs g mx] assms(3,4) by simp
  have "reg_inv mx ?h"
    by (intro register_cmds_inv reg_inv_reset)
  then have known: "\<forall>c \<in> set xs. cmd_to_id ?h c \<noteq> None"
    using reg_inv_known ids by metis
  have "\<forall>k \<in> set ks. ol_cmds k = xs \<Longrightarrow> fold (\<lambda>l. register_cmds mx (ol_cmds l)) ks ?h = ?h"
    by (induction ks) (simp_all add: register_cmds_known [OF known])
  then show ?thesis
    using assms(1) ids by (simp add: register_all_def ls)
qed

subsection \<open>Canonical positions\<close>

lemma fold_canonical_row:
  "length cp = m \<Longrightarrow> n \<le> m \<Longrightarrow>
   fold (\<lambda>tx cp. if P tx then cp[tx := cp ! tx + 1] else cp) [0..<n] cp
   = map (\<lambda>tx. cp ! tx + (if tx < n \<and> P tx then 1 else 0 :: int)) [0..<m]"
proof (induction n)
  case 0
  then show ?case by (auto intro: nth_equalityI)
next
  case (Suc n)
  then show ?case
    by (auto intro!: nth_equalityI simp: nth_list_update less_Suc_eq)
qed

lemma fold_canonical_rows:
  assumes "n \<le> m"
  shows "fold (\<lambda>other cp. fold (\<lambda>tx cp. if P other tx then cp[tx := cp ! tx + 1] else cp) [0..<n] cp)
     [0..<k] (replicate m (0 :: int))
   = map (\<lambda>tx. if tx < n then int (card {other. other < k \<and> P other tx}) else 0) [0..<m]"
proof (induction k)
  case 0
  then show ?case by (auto intro: nth_equalityI)
next
  case (Suc k)
  have "{other. other < Suc k \<and> P other tx} =
      (if P k tx then insert k {other. other < k \<and> P other tx} else {other. other < k \<and> P other tx})" for tx
    by (auto simp: less_Suc_eq)
  then show ?case
    using Suc assms by (auto intro!: nth_equalityI simp: fold_canonical_row)
qed

lemma canonical_pos_nth:
  assumes "n_txns g \<le> mx" and "tx < n_txns g"
  shows "canonical_pos (compute_canonical_positions mx g) ! tx
     = int (card {other. other < n_txns g \<and> prefers g other tx})"
  using assms fold_canonical_rows [OF assms(1), of "prefers g" "n_txns g"]
  by (simp add: compute_canonical_positions_def)

lemma canonical_pos_range:
  assumes "n_txns g \<le> mx" and "tx < n_txns g"
  shows "0 \<le> canonical_pos (compute_canonical_positions mx g) ! tx"
    and "canonical_pos (compute_canonical_positions mx g) ! tx < int (n_txns g)"
proof -
  have "card {other. other < n_txns g \<and> prefers g other tx} < card {..<n_txns g}"
    using assms(2) by (intro psubset_card_mono) (auto simp: prefers_def)
  then show "0 \<le> canonical_pos (compute_canonical_positions mx g) ! tx"
    and "canonical_pos (compute_canonical_positions mx g) ! tx < int (n_txns g)"
    by (simp_all add: canonical_pos_nth [OF assms])
qed

lemma compute_canonical_positions_other [simp]:
  "pref (compute_canonical_positions mx g) = pref g" "n_txns (compute_canonical_positions mx g) = n_txns g"
  "id_to_cmd (compute_canonical_positions mx g) = id_to_cmd g"
  "cmd_to_id (compute_canonical_positions mx g) = cmd_to_id g"
  "margin (compute_canonical_positions mx g) = margin g" "threshold (compute_canonical_positions mx g) = threshold g"
  "gamma (compute_canonical_positions mx g) = gamma g"
  by (simp_all add: compute_canonical_positions_def)

end
