(* ===== verification/Clusters.thy ===== *)
theory Clusters
  imports Preferences Topo_Sort
begin

text \<open>
  What \<open>detect_clusters_refined\<close> and \<open>build_hypergraph\<close> compute: the clusters partition the ids
  along the canonical positions, the internal order of a cluster is a permutation of it, and the
  graph has an edge exactly where one cluster's support beats the other's by the margin. The
  built graph satisfies what the topological sort needs.
\<close>

subsection \<open>\<open>compute_delta\<close>\<close>

lemma compute_delta_range:
  "1 \<le> fst (compute_delta srt now gp np g ds) \<and> fst (compute_delta srt now gp np g ds) \<le> 100"
  by (simp add: compute_delta_def Let_def)

text \<open>
  With explicit parameters, a network parameter no larger than the generation interval leaves
  \<open>delta\<close> at its least value for every table size: 0.1 * 4 * 2 is less than 3/2.
\<close>

lemma scale_factor_le: "n \<le> 10000 \<Longrightarrow> 0 \<le> scale_factor n \<and> scale_factor n \<le> 4"
proof -
  assume n: "n \<le> 10000"
  consider "1000 < n" | "n < 100" | "100 \<le> n" "n \<le> 1000" by linarith
  then show ?thesis
  proof cases
    case 1
    then have "0 \<le> ln (real n / 1000)"
      by (intro ln_ge_zero) simp
    moreover have "ln (real n / 1000) \<le> real n / 1000 - 1"
      using 1 by (intro ln_le_minus_one) simp
    moreover have "real n \<le> 10000"
      using n by simp
    ultimately have "3 / 10 * ln (real n / 1000) \<le> 27 / 10" and "0 \<le> 3 / 10 * ln (real n / 1000)"
      by linarith+
    with 1 show ?thesis by (simp add: scale_factor_def)
  next
    case 2
    have "0 \<le> ln (100 / real n)"
      using 2 by (cases "n = 0") (auto intro!: ln_ge_zero)
    then have "1 - 3 / 10 * ln (100 / real n) \<le> 1" by simp
    with 2 show ?thesis by (simp add: scale_factor_def max_def)
  next
    case 3
    then show ?thesis by (simp add: scale_factor_def)
  qed
qed

lemma similarity_factor_le: "0 \<le> similarity_factor gam \<and> similarity_factor gam \<le> 2"
  by (simp add: similarity_factor_def Let_def)

lemma round_small:
  assumes "0 \<le> x" and "x < 3 / 2"
  shows "double_to_int (std_round x) = 0 \<or> double_to_int (std_round x) = 1"
proof -
  have "\<lfloor>x + 1 / 2\<rfloor> = 0 \<or> \<lfloor>x + 1 / 2\<rfloor> = 1"
    using assms by linarith
  then have "std_round x = of_int 0 \<or> std_round x = of_int 1"
    using assms(1) unfolding std_round_def by metis
  moreover have "double_to_int (of_int k) = k" if "k = 0 \<or> k = 1" for k
    using that by (auto simp: double_to_int_def)
  ultimately show ?thesis
    by metis
qed

lemma compute_delta_one:
  assumes "0 < np" and "np \<le> gp" and "n_txns g \<le> 10000"
  shows "fst (compute_delta srt now gp np g ds) = 1"
proof -
  let ?x = "1 / 10 * np / gp * scale_factor (n_txns g) * similarity_factor (gamma g)"
  have 1: "0 \<le> 1 / 10 * np / gp" "1 / 10 * np / gp \<le> 1 / 10"
    using assms(1,2) by (simp_all add: field_simps)
  note 2 = scale_factor_le [OF assms(3)]
  note 3 = similarity_factor_le [of "gamma g"]
  have "1 / 10 * np / gp * scale_factor (n_txns g) \<le> 1 / 10 * 4"
    using 1 2 by (intro mult_mono) simp_all
  then have "?x \<le> (1 / 10 * 4) * 2"
    using 1 2 3 by (intro mult_mono) simp_all
  moreover have "0 \<le> ?x"
    using 1 2 3 by (intro mult_nonneg_nonneg) simp_all
  ultimately have "0 \<le> ?x" "?x < 3 / 2"
    by linarith+
  then have "double_to_int (std_round ?x) = 0 \<or> double_to_int (std_round ?x) = 1"
    by (rule round_small)
  then show ?thesis
    using assms(1,2) by (auto simp: compute_delta_def Let_def)
qed
subsection \<open>The clusters\<close>

lemma cluster_loop_concat: "concat (cluster_loop pos delta prev cur xs) = cur @ xs"
  by (induction xs arbitrary: prev cur) simp_all

lemma cluster_loop_nonempty: "cur \<noteq> [] \<Longrightarrow> [] \<notin> set (cluster_loop pos delta prev cur xs)"
  by (induction xs arbitrary: prev cur) simp_all

lemma cluster_loop_hd: "cur \<noteq> [] \<Longrightarrow> hd (hd (cluster_loop pos delta prev cur xs)) = hd cur"
  by (induction xs arbitrary: prev cur) simp_all

lemma cluster_loop_ne [simp]: "cluster_loop pos delta prev cur xs \<noteq> []"
  by (induction xs arbitrary: prev cur) simp_all

text \<open>Neighbours inside a cluster are closer than \<open>delta\<close>; a cluster ends where the gap is not.\<close>

definition close :: "(nat \<Rightarrow> int) \<Rightarrow> int \<Rightarrow> nat \<Rightarrow> nat \<Rightarrow> bool" where
  "close pos delta x y \<longleftrightarrow> pos y - pos x < delta"

lemma cluster_loop_inside:
  "cur \<noteq> [] \<Longrightarrow> last cur = prev \<Longrightarrow> successively (close pos delta) cur \<Longrightarrow>
   c \<in> set (cluster_loop pos delta prev cur xs) \<Longrightarrow> successively (close pos delta) c"
proof (induction xs arbitrary: prev cur)
  case Nil
  then show ?case by simp
next
  case (Cons x xs)
  show ?case
  proof (cases "pos x - pos prev < delta")
    case True
    with Cons.prems have "successively (close pos delta) (cur @ [x])"
      by (simp add: successively_append_iff close_def)
    with True Cons.prems show ?thesis
      by (intro Cons.IH [of "cur @ [x]" x]) simp_all
  next
    case False
    with Cons.prems consider "c = cur" | "c \<in> set (cluster_loop pos delta x [x] xs)"
      by auto
    then show ?thesis
      using Cons.prems Cons.IH [of "[x]" x] by cases simp_all
  qed
qed

lemma cluster_loop_between:
  "cur \<noteq> [] \<Longrightarrow> last cur = prev \<Longrightarrow>
   successively (\<lambda>c d. \<not> close pos delta (last c) (hd d)) (cluster_loop pos delta prev cur xs)"
proof (induction xs arbitrary: prev cur)
  case Nil
  then show ?case by simp
next
  case (Cons x xs)
  show ?case
  proof (cases "pos x - pos prev < delta")
    case True
    with Cons show ?thesis by simp
  next
    case False
    let ?cs = "cluster_loop pos delta x [x] xs"
    have "successively (\<lambda>c d. \<not> close pos delta (last c) (hd d)) ?cs"
      using Cons.IH [of "[x]" x] by simp
    moreover have "hd (hd ?cs) = x"
      by (simp add: cluster_loop_hd)
    ultimately show ?thesis
      using False Cons.prems by (simp add: successively_Cons close_def)
  qed
qed

definition clusters :: "hyper_graph \<Rightarrow> nat list list" where
  "clusters g = map he_members (hyperedges g)"

lemma detect_clusters_refined_keeps:
  "pref (fst (detect_clusters_refined srt now gp np g ds)) = pref g"
  "n_txns (fst (detect_clusters_refined srt now gp np g ds)) = n_txns g"
  "id_to_cmd (fst (detect_clusters_refined srt now gp np g ds)) = id_to_cmd g"
  "cmd_to_id (fst (detect_clusters_refined srt now gp np g ds)) = cmd_to_id g"
  "margin (fst (detect_clusters_refined srt now gp np g ds)) = margin g"
  "canonical_pos (fst (detect_clusters_refined srt now gp np g ds)) = canonical_pos g"
  by (simp_all add: detect_clusters_refined_def Let_def split: prod.split)

lemma clusters_detect:
  assumes "n_txns g \<noteq> 0"
  defines "sid \<equiv> \<lambda>srt. srt (\<lambda>a. canonical_pos g ! a) [0..<n_txns g]"
  shows "clusters (fst (detect_clusters_refined srt now gp np g ds)) =
    cluster_loop (\<lambda>a. canonical_pos g ! a) (fst (compute_delta srt now gp np g ds))
      (hd (sid srt)) [hd (sid srt)] (tl (sid srt))"
  using assms
  by (simp add: clusters_def detect_clusters_refined_def Let_def comp_def split: prod.split)

lemma clusters_concat:
  assumes "std_sort_ok srt" and "n_txns g \<noteq> 0"
  shows "concat (clusters (fst (detect_clusters_refined srt now gp np g ds)))
    = srt (\<lambda>a. canonical_pos g ! a) [0..<n_txns g]"
proof -
  have "srt (\<lambda>a. canonical_pos g ! a) [0..<n_txns g] \<noteq> []"
    using std_sort_length [OF assms(1), of "\<lambda>a. canonical_pos g ! a" "[0..<n_txns g]"] assms(2) by auto
  then show ?thesis
    by (simp add: clusters_detect [OF assms(2)] cluster_loop_concat)
qed

lemma clusters_nonempty: "n_txns g \<noteq> 0 \<Longrightarrow> [] \<notin> set (clusters (fst (detect_clusters_refined srt now gp np g ds)))"
  by (simp add: clusters_detect cluster_loop_nonempty)

subsection \<open>The internal orders\<close>

lemma order_members_mset:
  assumes "std_sort_ok srt" and "he_members he \<noteq> []"
  shows "mset (internal_order (order_members srt g he)) = mset (he_members he)"
proof (cases "length (he_members he) \<le> 1")
  case True
  with assms(2) have "length (he_members he) = 1"
    by (cases "he_members he") simp_all
  then show ?thesis by (simp add: order_members_def)
next
  case False
  then show ?thesis by (simp add: order_members_def std_sort_mset [OF assms(1)])
qed

lemma order_members_members [simp]: "he_members (order_members srt g he) = he_members he"
  by (simp add: order_members_def)

subsection \<open>The edges between clusters\<close>

definition beats :: "hyper_graph \<Rightarrow> nat \<Rightarrow> nat \<Rightarrow> bool" where
  "beats g u v \<longleftrightarrow>
     margin g * of_int (support g (hyperedges g ! v) (hyperedges g ! u))
       < (of_int (support g (hyperedges g ! u) (hyperedges g ! v)) :: real)"

lemma link_clusters_eq:
  "link_clusters i j g = (if beats g i j then add_edge i j g else if beats g j i then add_edge j i g else g)"
  by (simp add: link_clusters_def beats_def Let_def)

lemma add_edge_keeps [simp]:
  "hyperedges (add_edge u v g) = hyperedges g" "pref (add_edge u v g) = pref g"
  "n_txns (add_edge u v g) = n_txns g" "margin (add_edge u v g) = margin g"
  "id_to_cmd (add_edge u v g) = id_to_cmd g" "cmd_to_id (add_edge u v g) = cmd_to_id g"
  by (simp_all add: add_edge_def)

lemma support_add_edge [simp]: "support (add_edge u v g) A B = support g A B"
  by (simp add: support_def)

lemma beats_add_edge [simp]: "beats (add_edge u v g) i j = beats g i j"
  by (simp add: beats_def)

lemma add_edge_wf:
  assumes "topo_wf g" and "u < length (hyperedges g)" and "v < length (hyperedges g)"
  shows "topo_wf (add_edge u v g)" and "he_edges (add_edge u v g) = insert (u, v) (he_edges g)"
proof -
  let ?H = "length (hyperedges g)" and ?adj = "(he_adj g)[u := he_adj g ! u @ [v]]"
  have len: "length (he_adj g) = ?H" "length (he_indeg g) = ?H"
    using assms(1) by (simp_all add: topo_wf_def)
  have cnt: "(\<Sum>x < ?H. int (count_list (?adj ! x) w))
      = (\<Sum>x < ?H. int (count_list (he_adj g ! x) w)) + (if w = v then 1 else 0)" for w
  proof -
    have "(\<Sum>x < ?H. int (count_list (?adj ! x) w))
        = (\<Sum>x < ?H. int (count_list (he_adj g ! x) w) + (if x = u then if w = v then 1 else 0 else 0))"
      by (intro sum.cong) (auto simp: len nth_list_update)
    also have "\<dots> = (\<Sum>x < ?H. int (count_list (he_adj g ! x) w)) + (if w = v then 1 else 0)"
      using assms(2) by (simp only: sum.distrib sum.delta finite_lessThan lessThan_iff if_True)
    finally show ?thesis .
  qed
  have "he_indeg (add_edge u v g) ! w = he_indeg g ! w + (if w = v then 1 else 0)" if "w < ?H" for w
    using that len by (simp add: add_edge_def nth_list_update)
  moreover have "set (?adj ! x) \<subseteq> {..<?H}" if "x < ?H" for x
    using assms that len by (auto simp: topo_wf_def nth_list_update)
  ultimately show "topo_wf (add_edge u v g)"
    using assms(1) len cnt by (simp add: topo_wf_def add_edge_def)
  show "he_edges (add_edge u v g) = insert (u, v) (he_edges g)"
    using assms(2) len by (auto simp: he_edges_def add_edge_def nth_list_update split: if_splits)
qed

text \<open>The two nested loops go over the pairs in lexicographic order.\<close>

definition index_pairs :: "nat \<Rightarrow> (nat \<times> nat) list" where
  "index_pairs n = concat (map (\<lambda>i. map (Pair i) [Suc i..<n]) [0..<n])"

lemma set_index_pairs: "set (index_pairs n) = {(i, j). i < j \<and> j < n}"
  by (fastforce simp: index_pairs_def image_iff)

lemma fold_nested_pairs:
  "fold (\<lambda>i g. fold (\<lambda>j g. f i j g) (js i) g) is g
   = fold (\<lambda>(i, j). f i j) (concat (map (\<lambda>i. map (Pair i) (js i)) is)) g"
  by (induction "is" arbitrary: g) (simp_all add: fold_map comp_def)

definition edge_of :: "hyper_graph \<Rightarrow> nat \<times> nat \<Rightarrow> (nat \<times> nat) set" where
  "edge_of g p = (case p of (i, j) \<Rightarrow> if beats g i j then {(i, j)} else if beats g j i then {(j, i)} else {})"

lemma fold_link_clusters:
  "topo_wf g \<Longrightarrow> set ps \<subseteq> {..<length (hyperedges g)} \<times> {..<length (hyperedges g)} \<Longrightarrow>
   (let h = fold (\<lambda>(i, j). link_clusters i j) ps g
    in topo_wf h \<and> he_edges h = he_edges g \<union> (\<Union>p \<in> set ps. edge_of g p) \<and>
       hyperedges h = hyperedges g \<and> n_txns h = n_txns g \<and> id_to_cmd h = id_to_cmd g \<and>
       pref h = pref g \<and> margin h = margin g)"
proof (induction ps arbitrary: g)
  case Nil
  then show ?case by simp
next
  case (Cons p ps)
  obtain i j where p: "p = (i, j)" by (cases p)
  have ij: "i < length (hyperedges g)" "j < length (hyperedges g)"
    using Cons.prems p by simp_all
  define g1 where "g1 = link_clusters i j g"
  have keep: "hyperedges g1 = hyperedges g" "n_txns g1 = n_txns g" "id_to_cmd g1 = id_to_cmd g"
    "pref g1 = pref g" "margin g1 = margin g" "edge_of g1 = edge_of g"
    by (simp_all add: g1_def link_clusters_eq edge_of_def fun_eq_iff)
  have "topo_wf g1" and edges: "he_edges g1 = he_edges g \<union> edge_of g p"
    using Cons.prems(1) ij p by (simp_all add: g1_def link_clusters_eq add_edge_wf edge_of_def)
  moreover have "set ps \<subseteq> {..<length (hyperedges g1)} \<times> {..<length (hyperedges g1)}"
    using Cons.prems(2) keep by simp
  ultimately show ?case
    using Cons.IH [of g1] by (simp add: Let_def p g1_def [symmetric] keep edges Un_assoc)
qed

lemma support_nonneg: "0 \<le> support g A B"
  by (auto simp: support_def intro!: sum_list_nonneg)

lemma beats_asym:
  assumes "1 \<le> margin g" and "beats g u v"
  shows "\<not> beats g v u"
proof -
  let ?a = "of_int (support g (hyperedges g ! u) (hyperedges g ! v)) :: real"
  let ?b = "of_int (support g (hyperedges g ! v) (hyperedges g ! u)) :: real"
  have "0 \<le> ?a" "0 \<le> ?b"
    by (simp_all add: support_nonneg)
  then have "?a \<le> margin g * ?a" "?b \<le> margin g * ?b"
    using assms(1) by (simp_all add: mult_le_cancel_right1)
  then show ?thesis
    using assms(2) unfolding beats_def by linarith
qed

definition bh_start :: "((nat \<Rightarrow> int) \<Rightarrow> nat list \<Rightarrow> nat list) \<Rightarrow> hyper_graph \<Rightarrow> hyper_graph" where
  "bh_start srt g = g\<lparr>he_adj := replicate (length (hyperedges g)) [],
     he_indeg := replicate (length (hyperedges g)) 0, hyperedges := map (order_members srt g) (hyperedges g)\<rparr>"

lemma order_members_cong:
  "pref g = pref h \<Longrightarrow> n_txns g = n_txns h \<Longrightarrow> order_members srt g = order_members srt h"
  by (simp add: order_members_def net_score_def fun_eq_iff cong: if_cong)

lemma build_hypergraph_eq:
  assumes "hyperedges g \<noteq> []"
  shows "build_hypergraph srt g
    = fold (\<lambda>(i, j). link_clusters i j) (index_pairs (length (hyperedges g))) (bh_start srt g)"
proof -
  have "index_pairs 1 = []"
    by (simp add: index_pairs_def)
  then show ?thesis
    using assms
    by (auto simp: build_hypergraph_def Let_def bh_start_def fold_nested_pairs index_pairs_def [symmetric])
qed

lemma bh_start_wf: "topo_wf (bh_start srt g)" and bh_start_edges: "he_edges (bh_start srt g) = {}"
  by (auto simp: topo_wf_def bh_start_def he_edges_def)

lemma build_hypergraph_spec:
  assumes "hyperedges g \<noteq> []"
  shows "topo_wf (build_hypergraph srt g)"
    and "hyperedges (build_hypergraph srt g) = map (order_members srt g) (hyperedges g)"
    and "id_to_cmd (build_hypergraph srt g) = id_to_cmd g"
    and "n_txns (build_hypergraph srt g) = n_txns g"
    and "pref (build_hypergraph srt g) = pref g"
    and "margin (build_hypergraph srt g) = margin g"
    and "he_edges (build_hypergraph srt g) =
      (\<Union>p \<in> set (index_pairs (length (hyperedges g))). edge_of (bh_start srt g) p)"
proof -
  have "set (index_pairs (length (hyperedges g)))
      \<subseteq> {..<length (hyperedges (bh_start srt g))} \<times> {..<length (hyperedges (bh_start srt g))}"
    by (auto simp: set_index_pairs bh_start_def)
  note fold_link_clusters [OF bh_start_wf this, unfolded Let_def, folded build_hypergraph_eq [OF assms]]
  then show "topo_wf (build_hypergraph srt g)"
    and "hyperedges (build_hypergraph srt g) = map (order_members srt g) (hyperedges g)"
    and "id_to_cmd (build_hypergraph srt g) = id_to_cmd g"
    and "n_txns (build_hypergraph srt g) = n_txns g"
    and "pref (build_hypergraph srt g) = pref g"
    and "margin (build_hypergraph srt g) = margin g"
    and "he_edges (build_hypergraph srt g) =
      (\<Union>p \<in> set (index_pairs (length (hyperedges g))). edge_of (bh_start srt g) p)"
    by (simp_all add: bh_start_edges) (simp_all add: bh_start_def)
qed

lemma beats_bh_start: "u < length (hyperedges g) \<Longrightarrow> v < length (hyperedges g) \<Longrightarrow>
  beats (bh_start srt g) u v = beats g u v"
  by (simp add: beats_def bh_start_def support_def)

lemma build_hypergraph_edges:
  assumes "1 \<le> margin g"
  shows "hyperedges g \<noteq> [] \<Longrightarrow> he_edges (build_hypergraph srt g) =
    {(u, v). u < length (hyperedges g) \<and> v < length (hyperedges g) \<and> u \<noteq> v \<and> beats g u v}"
proof -
  assume ne: "hyperedges g \<noteq> []"
  let ?H = "length (hyperedges g)"
  have edge: "edge_of (bh_start srt g) (i, j) =
      (if beats g i j then {(i, j)} else if beats g j i then {(j, i)} else {})" if "i < ?H" "j < ?H" for i j
    using that by (simp add: edge_of_def beats_bh_start)
  have "(u, v) \<in> he_edges (build_hypergraph srt g) \<longleftrightarrow> u < ?H \<and> v < ?H \<and> u \<noteq> v \<and> beats g u v" for u v
  proof
    assume "(u, v) \<in> he_edges (build_hypergraph srt g)"
    then obtain i j where "i < j" "j < ?H" "(u, v) \<in> edge_of (bh_start srt g) (i, j)"
      by (auto simp: build_hypergraph_spec [OF ne] set_index_pairs)
    then show "u < ?H \<and> v < ?H \<and> u \<noteq> v \<and> beats g u v"
      using edge [of i j] by (auto split: if_splits)
  next
    assume *: "u < ?H \<and> v < ?H \<and> u \<noteq> v \<and> beats g u v"
    then have "\<not> beats g v u"
      using beats_asym [OF assms] by blast
    with * edge [of u v] edge [of v u]
    have "(u, v) \<in> edge_of (bh_start srt g) (u, v)" "(u, v) \<in> edge_of (bh_start srt g) (v, u)"
      by simp_all
    moreover have "(u, v) \<in> set (index_pairs ?H) \<or> (v, u) \<in> set (index_pairs ?H)"
      using * by (auto simp: set_index_pairs)
    ultimately show "(u, v) \<in> he_edges (build_hypergraph srt g)"
      unfolding build_hypergraph_spec(7) [OF ne] by blast
  qed
  then show ?thesis
    by auto
qed

lemma beats_build_hypergraph:
  assumes "u < length (hyperedges g)" and "v < length (hyperedges g)"
  shows "beats (build_hypergraph srt g) u v = beats g u v"
proof -
  have "hyperedges g \<noteq> []"
    using assms(1) by auto
  then show ?thesis
    using assms by (simp add: beats_def support_def build_hypergraph_spec)
qed

end
