(* ===== verification/Fair_Order.thy ===== *)
theory Fair_Order
  imports Clusters
begin

text \<open>
  What \<open>finalize\<close> returns: every collected command once (up to the size of the id table), ordered
  across clusters as the cluster graph asks, and the common order when all lists agree.
\<close>

subsection \<open>The stages of \<open>finalize\<close>\<close>

definition hg_prepare :: "((nat \<Rightarrow> int) \<Rightarrow> nat list \<Rightarrow> nat list) \<Rightarrow> nat \<Rightarrow> ordered_list list
    \<Rightarrow> int \<Rightarrow> int \<Rightarrow> real \<Rightarrow> hyper_graph \<Rightarrow> hyper_graph" where
  "hg_prepare srt mx ls nfaulty nnodes gam g =
     snd (compute_preferences srt mx ls (g\<lparr>n_f := nfaulty, n_nodes := max 1 nnodes, gamma := gam,
       threshold := hg_threshold (max 1 nnodes) gam nfaulty\<rparr>))"

definition hg_cluster :: "((nat \<Rightarrow> int) \<Rightarrow> nat list \<Rightarrow> nat list) \<Rightarrow> nat \<Rightarrow> int \<Rightarrow> real \<Rightarrow> real
    \<Rightarrow> hyper_graph \<Rightarrow> delta_state \<Rightarrow> hyper_graph" where
  "hg_cluster srt mx now gp np g ds =
     fst (detect_clusters_refined srt now gp np (compute_canonical_positions mx g) ds)"

definition hg_output :: "hyper_graph \<Rightarrow> nat list" where
  "hg_output g = concat (map (\<lambda>idx. internal_order (hyperedges g ! idx)) (topological_sort g))"

lemma finalize_stages:
  fixes srt mx ls nfaulty nnodes gam g
  defines "h \<equiv> hg_prepare srt mx ls nfaulty nnodes gam g"
  shows "fst (finalize srt mx now ls nfaulty nnodes gam gp np g ds) =
    (if n_txns h = 0 then [] else if n_txns h = 1 then [id_to_cmd h ! 0]
     else map (\<lambda>tid. id_to_cmd h ! tid) (hg_output (build_hypergraph srt (hg_cluster srt mx now gp np h ds))))"
proof -
  have "hyperedges (hg_cluster srt mx now gp np h ds) \<noteq> [] \<Longrightarrow>
      id_to_cmd (build_hypergraph srt (hg_cluster srt mx now gp np h ds)) = id_to_cmd h"
    by (simp add: build_hypergraph_spec hg_cluster_def detect_clusters_refined_keeps)
  moreover have "hyperedges (hg_cluster srt mx now gp np h ds) = [] \<Longrightarrow>
      id_to_cmd (build_hypergraph srt (hg_cluster srt mx now gp np h ds)) = id_to_cmd h"
    by (simp add: build_hypergraph_def Let_def hg_cluster_def detect_clusters_refined_keeps)
  ultimately have ids: "id_to_cmd (build_hypergraph srt (hg_cluster srt mx now gp np h ds)) = id_to_cmd h"
    by blast
  show ?thesis
    using ids unfolding h_def
    by (simp add: finalize_def Let_def hg_prepare_def hg_cluster_def hg_output_def map_concat
        split_beta comp_def)
qed

lemma hg_prepare_inv: "reg_inv mx (hg_prepare srt mx ls nfaulty nnodes gam g)"
  by (simp add: hg_prepare_def compute_preferences_inv)

lemma hg_prepare_ids:
  assumes "std_sort_ok srt"
  shows "set (id_to_cmd (hg_prepare srt mx ls nfaulty nnodes gam g)) \<subseteq> all_cmds ls"
    and "n_txns (hg_prepare srt mx ls nfaulty nnodes gam g) = min mx (card (all_cmds ls))"
proof -
  have *: "all_cmds (map (sort_if_needed srt) ls) = all_cmds ls"
    using assms by (rule all_cmds_sort_if_needed)
  then show "set (id_to_cmd (hg_prepare srt mx ls nfaulty nnodes gam g)) \<subseteq> all_cmds ls"
    unfolding hg_prepare_def compute_preferences_keeps by (metis register_all_set)
  show "n_txns (hg_prepare srt mx ls nfaulty nnodes gam g) = min mx (card (all_cmds ls))"
    unfolding hg_prepare_def compute_preferences_keeps by (simp only: register_all_card *)
qed

lemma hg_cluster_keeps:
  "n_txns (hg_cluster srt mx now gp np g ds) = n_txns g"
  "pref (hg_cluster srt mx now gp np g ds) = pref g"
  "margin (hg_cluster srt mx now gp np g ds) = margin g"
  "id_to_cmd (hg_cluster srt mx now gp np g ds) = id_to_cmd g"
  by (simp_all add: hg_cluster_def detect_clusters_refined_keeps)

lemma hg_cluster_members:
  assumes "std_sort_ok srt" and "n_txns g \<noteq> 0"
  shows "mset (concat (clusters (hg_cluster srt mx now gp np g ds))) = mset [0..<n_txns g]"
    and "[] \<notin> set (clusters (hg_cluster srt mx now gp np g ds))"
    and "hyperedges (hg_cluster srt mx now gp np g ds) \<noteq> []"
proof -
  let ?c = "compute_canonical_positions mx g"
  have n: "n_txns ?c \<noteq> 0"
    using assms(2) by simp
  show "mset (concat (clusters (hg_cluster srt mx now gp np g ds))) = mset [0..<n_txns g]"
    unfolding hg_cluster_def clusters_concat [OF assms(1) n] std_sort_mset [OF assms(1)] by simp
  show "[] \<notin> set (clusters (hg_cluster srt mx now gp np g ds))"
    unfolding hg_cluster_def using n by (rule clusters_nonempty)
  have "clusters (hg_cluster srt mx now gp np g ds) \<noteq> []"
    unfolding hg_cluster_def clusters_detect [OF n] by (rule cluster_loop_ne)
  then show "hyperedges (hg_cluster srt mx now gp np g ds) \<noteq> []"
    by (simp add: clusters_def)
qed

subsection \<open>Every command once\<close>

lemma mset_concat_perm:
  assumes "mset is = mset [0..<length xs]"
  shows "mset (concat (map (\<lambda>i. f (xs ! i)) is)) = mset (concat (map f xs))"
proof -
  have "mset (concat (map (\<lambda>i. f (xs ! i)) is)) = sum_mset (image_mset (\<lambda>i. mset (f (xs ! i))) (mset is))"
    by (induction "is") simp_all
  also have "\<dots> = sum_mset (mset (map (\<lambda>x. mset (f x)) (map ((!) xs) [0..<length xs])))"
    by (simp add: assms image_mset.compositionality comp_def del: map_nth)
  also have "\<dots> = mset (concat (map f xs))"
    unfolding map_nth by (induction xs) simp_all
  finally show ?thesis .
qed

lemma mset_concat_cong:
  "\<forall>x \<in> set xs. mset (f x) = mset (g x) \<Longrightarrow> mset (concat (map f xs)) = mset (concat (map g xs))"
  by (induction xs) simp_all

lemma hg_output_mset:
  assumes "std_sort_ok srt" and "hyperedges g \<noteq> []" and "[] \<notin> set (clusters g)"
  shows "mset (hg_output (build_hypergraph srt g)) = mset (concat (clusters g))"
proof -
  let ?b = "build_hypergraph srt g"
  have he: "hyperedges ?b = map (order_members srt g) (hyperedges g)"
    by (rule build_hypergraph_spec(2) [OF assms(2)])
  have "mset (hg_output ?b) = mset (concat (map internal_order (hyperedges ?b)))"
    unfolding hg_output_def
    by (intro mset_concat_perm topological_sort_mset build_hypergraph_spec(1) assms(2))
  also have "\<dots> = mset (concat (map (\<lambda>he. internal_order (order_members srt g he)) (hyperedges g)))"
    by (simp add: he comp_def)
  also have "\<dots> = mset (concat (map he_members (hyperedges g)))"
    using assms(1,3) by (intro mset_concat_cong ballI order_members_mset) (force simp: clusters_def)+
  finally show ?thesis
    by (simp add: clusters_def)
qed

lemma finalize_mset:
  assumes "std_sort_ok srt"
  shows "mset (fst (finalize srt mx now ls nfaulty nnodes gam gp np g ds)) =
    mset (id_to_cmd (hg_prepare srt mx ls nfaulty nnodes gam g))"
proof -
  let ?h = "hg_prepare srt mx ls nfaulty nnodes gam g"
  let ?c = "hg_cluster srt mx now gp np ?h ds"
  have len: "length (id_to_cmd ?h) = n_txns ?h"
    using hg_prepare_inv by (simp add: reg_inv_def)
  consider "n_txns ?h = 0" | "n_txns ?h = 1" | "n_txns ?h \<noteq> 0" "n_txns ?h \<noteq> 1"
    by blast
  then show ?thesis
  proof cases
    case 1
    then show ?thesis
      using len by (simp add: finalize_stages)
  next
    case 2
    then obtain c where "id_to_cmd ?h = [c]"
      using len by (auto simp: length_Suc_conv)
    with 2 show ?thesis
      by (simp add: finalize_stages)
  next
    case 3
    note members = hg_cluster_members [OF assms(1) 3(1)]
    have "mset (hg_output (build_hypergraph srt ?c)) = mset [0..<length (id_to_cmd ?h)]"
      using hg_output_mset [OF assms(1) members(3,2)] members(1) len by metis
    then have "mset (map (\<lambda>tid. id_to_cmd ?h ! tid) (hg_output (build_hypergraph srt ?c))) = mset (id_to_cmd ?h)"
      by (rule mset_map_nth_perm)
    with 3 show ?thesis
      by (simp add: finalize_stages)
  qed
qed

lemma finalize_names_once:
  assumes "std_sort_ok srt"
  shows "distinct (fst (finalize srt mx now ls nfaulty nnodes gam gp np g ds)) \<and>
    set (fst (finalize srt mx now ls nfaulty nnodes gam gp np g ds)) \<subseteq> all_cmds ls \<and>
    length (fst (finalize srt mx now ls nfaulty nnodes gam gp np g ds)) = min mx (card (all_cmds ls))"
proof -
  let ?h = "hg_prepare srt mx ls nfaulty nnodes gam g"
  have m: "mset (fst (finalize srt mx now ls nfaulty nnodes gam gp np g ds)) = mset (id_to_cmd ?h)"
    by (rule finalize_mset [OF assms])
  have "distinct (id_to_cmd ?h)" and "length (id_to_cmd ?h) = n_txns ?h"
    using hg_prepare_inv [of mx srt ls nfaulty nnodes gam g] by (simp_all add: reg_inv_def)
  then show ?thesis
    using hg_prepare_ids [OF assms, of mx ls nfaulty nnodes gam g] mset_eq_imp_distinct_iff [OF m]
      mset_eq_length [OF m] mset_eq_setD [OF m] by simp
qed

text \<open>C3: the order the leader proposes names every collected command exactly once.\<close>

theorem finalize_permutation:
  assumes "std_sort_ok srt"
  shows "distinct (fst (finalize srt mx now ls nfaulty nnodes gam gp np g ds)) \<and>
    set (fst (finalize srt mx now ls nfaulty nnodes gam gp np g ds)) \<subseteq> all_cmds ls \<and>
    length (fst (finalize srt mx now ls nfaulty nnodes gam gp np g ds)) = min mx (card (all_cmds ls))"
  by (rule finalize_names_once [OF assms])

theorem finalize_permutation_witness:
  "length (fst (finalize sort_key 10 0
     [\<lparr>ol_cmds = [h256 7, h256 5], timestamps = [9, 2]\<rparr>, \<lparr>ol_cmds = [h256 5, h256 1], timestamps = [3, 4]\<rparr>]
     0 2 1 100 100 hg_new (delta_init 0))) = 3"
  using finalize_permutation [OF std_sort_ok_sort_key, of 10 0
      "[\<lparr>ol_cmds = [h256 7, h256 5], timestamps = [9, 2]\<rparr>, \<lparr>ol_cmds = [h256 5, h256 1], timestamps = [3, 4]\<rparr>]"
      0 2 1 100 100 hg_new "delta_init 0"]
  by (simp add: card_insert_if)

subsection \<open>The cluster graph decides\<close>

lemma before_map: "before xs a b \<Longrightarrow> before (map f xs) (f a) (f b)"
  by (induction xs) (auto simp: before_Cons)

lemma before_concat:
  "before is u v \<Longrightarrow> a \<in> set (f u) \<Longrightarrow> b \<in> set (f v) \<Longrightarrow> before (concat (map f is)) a b"
  by (induction "is") (auto simp: before_Cons before_append)

text \<open>The relation of the clusters of a built graph.\<close>

definition beats_rel :: "hyper_graph \<Rightarrow> (nat \<times> nat) set" where
  "beats_rel g = {(u, v). u < length (hyperedges g) \<and> v < length (hyperedges g) \<and> u \<noteq> v \<and> beats g u v}"

lemma beats_rel_edges:
  assumes "1 \<le> margin g" and "hyperedges g \<noteq> []"
  shows "beats_rel (build_hypergraph srt g) = he_edges (build_hypergraph srt g)"
  using assms
  by (auto simp: beats_rel_def build_hypergraph_edges build_hypergraph_spec(2) beats_build_hypergraph)

lemma hg_output_before:
  assumes "std_sort_ok srt" and "hyperedges g \<noteq> []" and "[] \<notin> set (clusters g)"
    and "acyclic (he_edges (build_hypergraph srt g))" and "(u, v) \<in> he_edges (build_hypergraph srt g)"
    and "a \<in> set (clusters g ! u)" and "b \<in> set (clusters g ! v)"
    and "u < length (hyperedges g)" and "v < length (hyperedges g)"
  shows "before (hg_output (build_hypergraph srt g)) a b"
proof -
  let ?b = "build_hypergraph srt g"
  have sets: "set (internal_order (hyperedges ?b ! w)) = set (clusters g ! w)" if "w < length (hyperedges g)" for w
  proof -
    have "he_members (hyperedges g ! w) \<noteq> []"
      using assms(3) nth_mem [OF that] by (auto simp: clusters_def image_iff)
    then have "mset (internal_order (hyperedges ?b ! w)) = mset (clusters g ! w)"
      using that by (simp add: build_hypergraph_spec [OF assms(2)] order_members_mset [OF assms(1)] clusters_def)
    then show ?thesis
      by (rule mset_eq_setD)
  qed
  have "before (topological_sort ?b) u v"
    by (intro topological_sort_before build_hypergraph_spec assms)
  moreover have "a \<in> set (internal_order (hyperedges ?b ! u))"
    unfolding sets [OF assms(8)] by (rule assms(6))
  moreover have "b \<in> set (internal_order (hyperedges ?b ! v))"
    unfolding sets [OF assms(9)] by (rule assms(7))
  ultimately show ?thesis
    unfolding hg_output_def by (rule before_concat)
qed

lemma finalize_graph:
  fixes srt mx ls nfaulty nnodes gam g
  defines "h \<equiv> hg_prepare srt mx ls nfaulty nnodes gam g"
  assumes "finalize srt mx now ls nfaulty nnodes gam gp np g ds = (r, ls', g', ds')" and "2 \<le> n_txns h"
  shows "g' = build_hypergraph srt (hg_cluster srt mx now gp np h ds)"
  using assms(2,3) unfolding h_def
  by (simp add: finalize_def Let_def hg_prepare_def hg_cluster_def split_beta)

text \<open>
  C5: when the relation of the clusters has no cycle, every command of a cluster that another
  cluster beats comes after all commands of that one.
\<close>

theorem finalize_respects_clusters:
  assumes srt: "std_sort_ok srt" and marg: "1 \<le> margin g"
    and fin: "finalize srt mx now ls nfaulty nnodes gam gp np g ds = (r, ls', g', ds')"
    and two: "2 \<le> min mx (card (all_cmds ls))"
    and acyc: "acyclic (beats_rel g')" and uv: "(u, v) \<in> beats_rel g'"
    and a: "a \<in> set (clusters g' ! u)" and b: "b \<in> set (clusters g' ! v)"
  shows "before r (id_to_cmd g' ! a) (id_to_cmd g' ! b)"
proof -
  define h where "h = hg_prepare srt mx ls nfaulty nnodes gam g"
  define c where "c = hg_cluster srt mx now gp np h ds"
  have n: "2 \<le> n_txns h" "n_txns h \<noteq> 0"
    using two hg_prepare_ids(2) [OF srt, of mx ls nfaulty nnodes gam g] by (simp_all add: h_def)
  have g': "g' = build_hypergraph srt c"
    using finalize_graph [OF fin] n(1) by (simp add: h_def c_def)
  have ne: "hyperedges c \<noteq> []" and full: "[] \<notin> set (clusters c)"
    using hg_cluster_members [OF srt n(2)] by (simp_all add: c_def)
  have m: "1 \<le> margin c"
    using marg by (simp add: c_def hg_cluster_keeps h_def hg_prepare_def compute_preferences_keeps)
  have ids: "id_to_cmd g' = id_to_cmd h"
    unfolding g' build_hypergraph_spec [OF ne] by (simp add: c_def hg_cluster_keeps)
  have cl: "clusters g' = clusters c" "length (hyperedges g') = length (hyperedges c)"
    by (simp_all add: g' clusters_def build_hypergraph_spec [OF ne])
  have E: "beats_rel g' = he_edges (build_hypergraph srt c)"
    unfolding g' by (rule beats_rel_edges [OF m ne])
  have "u < length (hyperedges c)" "v < length (hyperedges c)"
    using uv cl(2) by (simp_all add: beats_rel_def)
  then have "before (hg_output (build_hypergraph srt c)) a b"
    using hg_output_before [OF srt ne full, of u v a b] acyc uv a b by (simp add: E cl)
  then have "before (map (\<lambda>tid. id_to_cmd h ! tid) (hg_output (build_hypergraph srt c)))
      (id_to_cmd h ! a) (id_to_cmd h ! b)"
    by (rule before_map)
  moreover have "r = map (\<lambda>tid. id_to_cmd h ! tid) (hg_output (build_hypergraph srt c))"
    using finalize_stages [of srt mx now ls nfaulty nnodes gam gp np g ds] fin n
    by (simp add: h_def c_def)
  ultimately show ?thesis
    by (simp add: ids)
qed

subsection \<open>Two lists that agree on two commands\<close>

abbreviation two_lists :: "ordered_list list" where
  "two_lists \<equiv> [\<lparr>ol_cmds = [h256 7, h256 5], timestamps = [1, 2]\<rparr>,
                 \<lparr>ol_cmds = [h256 7, h256 5], timestamps = [1, 2]\<rparr>]"

abbreviation two_graph :: hyper_graph where
  "two_graph \<equiv> \<lparr>pref = [0, 2, 0, 0], canonical_pos = [0, 1],
     hyperedges = [\<lparr>he_members = [0], internal_order = [0]\<rparr>, \<lparr>he_members = [1], internal_order = [1]\<rparr>],
     he_adj = [[1], []], he_indeg = [0, 1], cmd_to_id = [h256 7 \<mapsto> 0, h256 5 \<mapsto> 1],
     id_to_cmd = [h256 7, h256 5], n_txns = 2, threshold = 1, gamma = 1, hg_k = 15 / 10,
     margin = 12 / 10, n_nodes = 2, n_f = 0\<rparr>"

lemma two_prepare: "hg_prepare sort_key 2 two_lists 0 2 1 hg_new
    = two_graph\<lparr>canonical_pos := [], hyperedges := [], he_adj := [], he_indeg := []\<rparr>"
  by (simp add: hg_prepare_def compute_preferences_def sort_if_needed_def hg_new_def mapped_ids_def
      map_filter_def hg_threshold_def double_to_int_def numeral_eq_Suc Let_def)

lemma replicate_2: "replicate 2 x = [x, x]"
  by (simp add: numeral_2_eq_2)

lemma two_canonical: "compute_canonical_positions 2
      (two_graph\<lparr>canonical_pos := [], hyperedges := [], he_adj := [], he_indeg := []\<rparr>)
    = two_graph\<lparr>hyperedges := [], he_adj := [], he_indeg := []\<rparr>"
  by (simp add: compute_canonical_positions_def prefers_def upt_rec replicate_2)

lemma two_detect: "fst (detect_clusters_refined sort_key now 100 100
      (two_graph\<lparr>hyperedges := [], he_adj := [], he_indeg := []\<rparr>) ds)
    = two_graph\<lparr>hyperedges := [\<lparr>he_members = [0], internal_order = []\<rparr>, \<lparr>he_members = [1], internal_order = []\<rparr>],
        he_adj := [], he_indeg := []\<rparr>"
  by (simp add: detect_clusters_refined_def split_beta Let_def compute_delta_one upt_rec)

lemma two_build: "build_hypergraph sort_key
      (two_graph\<lparr>hyperedges := [\<lparr>he_members = [0], internal_order = []\<rparr>, \<lparr>he_members = [1], internal_order = []\<rparr>],
        he_adj := [], he_indeg := []\<rparr>) = two_graph"
  by (simp add: build_hypergraph_def order_members_def link_clusters_def support_def add_edge_def Let_def upt_rec)

lemma two_beats: "beats_rel two_graph = {(0, 1)}"
  by (auto simp: beats_rel_def beats_def support_def less_Suc_eq)

lemma finalize_respects_clusters_witness:
  "before (fst (finalize sort_key 2 0 two_lists 0 2 1 100 100 hg_new (delta_init 0))) (h256 7) (h256 5)"
proof -
  obtain r ls g' ds' where F: "finalize sort_key 2 0 two_lists 0 2 1 100 100 hg_new (delta_init 0) = (r, ls, g', ds')"
    by (metis prod_cases4)
  have g': "g' = two_graph"
    using finalize_graph [OF F] by (simp only: two_prepare hg_cluster_def two_canonical two_detect two_build) simp
  have "before r (id_to_cmd g' ! 0) (id_to_cmd g' ! 1)"
  proof (rule finalize_respects_clusters [OF std_sort_ok_sort_key _ F])
    show "1 \<le> margin hg_new"
      by (simp add: hg_new_def)
    show "2 \<le> min 2 (card (all_cmds two_lists))"
      by simp
    show "acyclic (beats_rel g')"
      unfolding g' two_beats by (rule acyclic_insert [THEN iffD2]) (simp add: acyclic_def)
    show "(0, 1) \<in> beats_rel g'"
      by (simp only: g' two_beats insertI1)
  qed (simp_all add: g' clusters_def)
  then show ?thesis
    by (simp add: F g')
qed

end
