(* ===== verification/Ordering_Round.thy ===== *)
theory Ordering_Round
  imports Replica_Safety Fair_Order
begin

text \<open>
  The leader's ordering round across components: the queues of local orders stay well formed in
  every reachable state, so \<open>flashorder_propose\<close> is defined there, and what it returns names
  every command of the collected orders once.
\<close>

subsection \<open>The queues of a reachable state\<close>

definition same_queues :: "core \<Rightarrow> core \<Rightarrow> bool" where
  "same_queues c c' \<longleftrightarrow> ordered_list_cache (storage c') = ordered_list_cache (storage c)"

lemma same_queues_refl [simp]: "same_queues c c"
  by (simp add: same_queues_def)

lemma same_queues_trans: "same_queues a b \<Longrightarrow> same_queues b c \<Longrightarrow> same_queues a c"
  by (simp add: same_queues_def)

lemma storage_queues [simp]:
  "ordered_list_cache (remove_local_order_seen_execute_level cmd st) = ordered_list_cache st"
  "ordered_list_cache (remove_local_order_seen_propose_level cmd st) = ordered_list_cache st"
  "ordered_list_cache (remove_from_proposed_cmds_cache cmd st) = ordered_list_cache st"
  "ordered_list_cache (add_to_proposed_cmds_cache cmd st) = ordered_list_cache st"
  by (simp_all add: remove_local_order_seen_execute_level_def remove_local_order_seen_propose_level_def
      remove_from_proposed_cmds_cache_def add_to_proposed_cmds_cache_def)

lemma fold_queues:
  "(\<And>x st. ordered_list_cache (f x st) = ordered_list_cache st) \<Longrightarrow>
   ordered_list_cache (fold f xs st) = ordered_list_cache st"
  by (induction xs arbitrary: st) simp_all

lemma same_queues_simps [simp]:
  "same_queues c (upd_blk r f c') = same_queues c c'" "same_queues c (emit ev c') = same_queues c c'"
  "same_queues c (c'\<lparr>b_exec := r\<rparr>) = same_queues c c'" "same_queues c (c'\<lparr>b_lock := r\<rparr>) = same_queues c c'"
  "same_queues c (c'\<lparr>hqc := q\<rparr>) = same_queues c c'" "same_queues c (c'\<lparr>vheight := h\<rparr>) = same_queues c c'"
  "same_queues c (c'\<lparr>tails := t\<rparr>) = same_queues c c'" "same_queues c (c'\<lparr>qc_waiting := t\<rparr>) = same_queues c c'"
  "same_queues c (c\<lparr>storage := st\<rparr>) \<longleftrightarrow> ordered_list_cache st = ordered_list_cache (storage c)"
  by (simp_all add: same_queues_def upd_blk_def emit_def)

lemma decide_cmds_queues: "same_queues c (decide_cmds r i cmds c)"
  by (induction cmds arbitrary: i c) (auto simp: Let_def same_queues_def emit_def)

lemma commit_queues: "same_queues c (fold commit_blk rs c)"
proof (induction rs arbitrary: c)
  case (Cons r rs)
  have "same_queues c (commit_blk r c)"
    using decide_cmds_queues [of "emit (Do_Consensus r) (upd_blk r (\<lambda>b. b\<lparr>decision := 1\<rparr>) c)" r 0]
    by (simp add: commit_blk_def Let_def) (simp add: same_queues_def upd_blk_def emit_def)
  with Cons show ?case
    by (simp add: same_queues_trans)
qed simp

lemma commit_chain_queues: "commit_chain b c = Ok u c' \<Longrightarrow> same_queues c c'"
  using commit_queues by (auto simp: commit_chain_def split: sum.splits if_splits)

lemma update_commit_queues: "update_commit b2 b1 c = Ok u c' \<Longrightarrow> same_queues c c'"
  using commit_chain_queues by (auto simp: update_commit_def split: option.splits if_splits)

lemma update_lock_queues:
  assumes "update_lock b c = Ok u c'"
  shows "same_queues c c'"
proof (cases "qc_ref (blk c b)")
  case None
  with assms show ?thesis by (simp add: update_lock_def)
next
  case (Some b1)
  let ?c1 = "if height (blk c (b_lock c)) < height (blk c b1) then c\<lparr>b_lock := b1\<rparr> else c"
  have "same_queues c ?c1"
    by simp
  moreover have "c' = c \<or> update_commit b b1 ?c1 = Ok u c'"
    using assms Some by (auto simp: update_lock_def split: if_splits)
  ultimately show ?thesis
    using update_commit_queues same_queues_trans by (metis same_queues_refl)
qed

lemma update_hqc_queues: "update_hqc r q c = Ok u c' \<Longrightarrow> same_queues c c'"
  by (erule update_hqc_Ok) simp

lemma update_queues:
  assumes "update r c = Ok u c'"
  shows "same_queues c c'"
proof -
  let ?c0 = "c\<lparr>storage := fold remove_local_order_seen_propose_level (blk_cmds (blk c r)) (storage c)\<rparr>"
  have 0: "same_queues c ?c0"
    by (simp add: fold_queues)
  consider "c' = ?c0" | b q c1 u1 u2 where "update_hqc b q ?c0 = Ok u1 c1" "update_lock b c1 = Ok u2 c'"
    using assms unfolding update_def Let_def by (auto split: option.splits if_splits elim!: res_bind_OkE)
  then show ?thesis
  proof cases
    case 1
    with 0 show ?thesis by simp
  next
    case 2
    then show ?thesis
      using same_queues_trans [OF same_queues_trans [OF 0 update_hqc_queues] update_lock_queues] by blast
  qed
qed

lemma deliver_parents_queues: "deliver_parents r hs c = Ok u c' \<Longrightarrow> same_queues c c'"
proof (induction hs arbitrary: c)
  case (Cons h hs)
  then obtain p where "deliver_parents r hs (upd_blk r (\<lambda>b. b\<lparr>parents := parents b @ [p]\<rparr>) c) = Ok u c'"
    by (auto split: sum.splits)
  then show ?case
    using Cons.IH by (force simp: same_queues_def upd_blk_def)
qed simp

lemma on_deliver_blk_queues:
  assumes "on_deliver_blk r c = Ok d c'"
  shows "same_queues c c'"
proof (cases "delivered (blk c r)")
  case True
  with assms show ?thesis by (simp add: on_deliver_blk_def)
next
  case False
  obtain c1 p ps q where 1: "deliver_parents r (parent_hashes (blk c r)) (upd_blk r (\<lambda>b. b\<lparr>parents := []\<rparr>) c) = Ok () c1"
    and c': "c' = deliver_done r (upd_blk r (\<lambda>b. b\<lparr>height := height (blk c1 p) + 1, qc_ref := q\<rparr>) c1)"
    by (rule on_deliver_blk_cases [OF assms False])
  have "same_queues c c1"
    using deliver_parents_queues [OF 1] by (simp add: same_queues_def upd_blk_def)
  then show ?thesis
    by (simp add: c' deliver_done_def same_queues_def upd_blk_def)
qed

lemma on_qc_finish_queues: "same_queues c (on_qc_finish r c)"
  by (simp add: on_qc_finish_def)

lemma on_receive_proposal_queues:
  assumes "on_receive_proposal e pro c = Ok u c'"
  shows "same_queues c c'"
proof -
  let ?r = "prop_blk pro" and ?self = "prop_proposer pro = core_id c"
  obtain c1 u1 op c2 where 1: "(if ?self then Ok () c
           else if \<not> delivered (blk c ?r) then Exc (Runtime_Error ''block not delivered'') c
           else update ?r c) = Ok u1 c1"
    and 2: "vote_opinion ?r c1 = Ok op c2"
    using assms unfolding on_receive_proposal_def Let_def by (auto elim!: res_bind_OkE)
  let ?c3 = "emit (Resolve_Receive_Proposal pro)
      (case qc_ref (blk c2 ?r) of Some q \<Rightarrow> if ?self then c2 else on_qc_finish q c2 | None \<Rightarrow> c2)"
  have "same_queues c c1"
    using 1 update_queues by (auto split: if_splits)
  moreover have "same_queues c1 c2"
    using 2 by (auto elim: vote_opinion_cases)
  moreover have 3: "same_queues c2 ?c3"
    by (simp add: on_qc_finish_queues split: option.split)
  moreover have "same_queues ?c3 c'"
    using assms 1 2 unfolding on_receive_proposal_def Let_def by (auto split: if_splits)
  ultimately show ?thesis
    using same_queues_trans by blast
qed

lemma on_receive_vote_queues:
  assumes "on_receive_vote e v c = Ok u c'"
  shows "same_queues c c'"
proof -
  obtain r where r: "get_delivered_blk (vote_blk_hash v) c = Inr r"
    using assms by (auto simp: on_receive_vote_def split: sum.splits)
  from r assms show ?thesis
  proof (cases rule: on_receive_vote_cases)
    case late
    then show ?thesis by simp
  next
    case (counted qc c2)
    have "same_queues c c2"
      by (simp add: counted(2))
    then show ?thesis
      using counted(3) same_queues_trans [OF same_queues_trans [OF _ update_hqc_queues] on_qc_finish_queues]
      by (auto split: if_splits)
  qed
qed

lemma fetch_blk_queues: "fetch_blk b c = (r, c') \<Longrightarrow> same_queues c c'"
  by (erule fetch_blk_cases) (simp_all add: same_queues_def)

lemma on_propose_queues:
  assumes "on_propose e cmds ps ex c = Ok r c'"
  shows "same_queues c c'"
proof -
  obtain ct b c1 sq c2 pro d c3 u4 c4 u5 c5
  where r: "ct = c\<lparr>tails := tails c - set ps\<rparr>" "fetch_blk b ct = (r, c1)" "c2 = upd_blk r (\<lambda>b. b\<lparr>self_qc := sq b\<rparr>) c1"
    "on_deliver_blk r c2 = Ok d c3" "update r c3 = Ok u4 c4" "on_receive_proposal e pro c4 = Ok u5 c5"
    "c' = emit (Do_Broadcast_Proposal pro) (emit (Resolve_Propose pro) c5)"
    by (rule on_propose_runs [OF assms])
  note steps = fetch_blk_queues [OF r(2)] on_deliver_blk_queues [OF r(4)] update_queues [OF r(5)]
    on_receive_proposal_queues [OF r(6)]
  have "same_queues c ct" "same_queues c1 c2" "same_queues c5 c'"
    unfolding r(1,3,7) same_queues_simps by (simp_all add: same_queues_def)
  with steps show ?thesis
    using same_queues_trans by meson
qed

lemma storage_wf_queues: "storage_wf (storage c) \<Longrightarrow> same_queues c c' \<Longrightarrow> storage_wf (storage c')"
  by (simp add: storage_wf_def same_queues_def)

lemma flashorder_propose_queues:
  assumes "storage_wf (storage c)" and "flashorder_propose e iter mx now c = Ok order c'"
  shows "storage_wf (storage c')"
proof (cases "collect_ordered_lists iter (storage c) = []")
  case True
  with assms show ?thesis by (simp add: flashorder_propose_def)
next
  case False
  obtain st where st: "pop_all_front_ordered_lists (storage c) = Ok () st" "storage_wf st"
    using pop_all_front_ok [OF assms(1)] by blast
  have "ordered_list_cache (storage c') = ordered_list_cache st"
    using assms(2) False st(1) unfolding flashorder_propose_def
    by (auto simp: Let_def fold_queues split: prod.splits)
  with st(2) show ?thesis
    by (simp add: storage_wf_def)
qed

lemma core_step_queues:
  assumes "core_step e c c'" and wf: "storage_wf (storage c)"
  shows "storage_wf (storage c')"
  using assms(1)
proof cases
  case (fetch b r)
  then show ?thesis using storage_wf_queues [OF wf fetch_blk_queues] by blast
next
  case (deliver r d)
  then show ?thesis using storage_wf_queues [OF wf on_deliver_blk_queues] by blast
next
  case (receive_proposal pro u)
  then show ?thesis using storage_wf_queues [OF wf on_receive_proposal_queues] by blast
next
  case (receive_vote v u)
  then show ?thesis using storage_wf_queues [OF wf on_receive_vote_queues] by blast
next
  case (propose cmds ps ex r)
  then show ?thesis using storage_wf_queues [OF wf on_propose_queues] by blast
next
  case (local_order p hs ts)
  have "same_queues c c'"
    by (simp add: local_order on_local_order_def update_local_order_seen_def fold_queues)
  then show ?thesis by (rule storage_wf_queues [OF wf])
next
  case (receive_local_order lo)
  then show ?thesis
    using add_local_order_wf [OF wf] by (simp add: on_receive_local_order_def Let_def)
next
  case (order_cmds iter mx now hs)
  then show ?thesis using flashorder_propose_queues [OF wf] by blast
next
  case (wait_qc r)
  have "same_queues c c'"
    by (simp add: wait_qc async_qc_finish_def)
  then show ?thesis by (rule storage_wf_queues [OF wf])
qed

lemma fresh_queues:
  assumes "core_start e rid reps nfaulty fair gen net = Inr c"
  shows "storage_wf (storage c)"
proof -
  have *: "same_queues c (fold (\<lambda>(i, peer, pk). add_replica i peer pk) reps c)" for c
  proof (induction reps arbitrary: c)
    case (Cons a reps)
    obtain i peer pk where a: "a = (i, peer, pk)" by (cases a)
    have "same_queues c (add_replica i peer pk c)"
      by (simp add: add_replica_def same_queues_def upd_blk_def)
    with Cons.IH [of "add_replica i peer pk c"] show ?case
      by (simp add: a same_queues_trans)
  qed simp
  obtain c0 where c0: "core_new e rid = Inr c0"
    "c = on_init e nfaulty fair gen net (fold (\<lambda>(i, peer, pk). add_replica i peer pk) reps c0)"
    using assms by (cases "core_new e rid") (simp_all add: core_start_def)
  have "storage_wf (storage c0)"
    using c0(1) by (cases "block_genesis (e_sha e) True 1")
      (auto simp: core_new_def Let_def add_blk_def storage_wf_def storage_new_def)
  moreover have "same_queues c0 c"
    using * [of c0] by (simp add: c0(2) on_init_def Let_def same_queues_def upd_blk_def)
  ultimately show ?thesis
    by (rule storage_wf_queues)
qed

lemma reachable_queues: "core_reachable e c \<Longrightarrow> storage_wf (storage c)"
  by (induction rule: core_reachable.induct) (auto intro: fresh_queues core_step_queues)

subsection \<open>The round\<close>

lemma fold_proposed:
  "proposed_cmds_cache (fold add_to_proposed_cmds_cache cs st) = proposed_cmds_cache st \<union> set cs"
  by (induction cs arbitrary: st) (auto simp: add_to_proposed_cmds_cache_def)

text \<open>
  C10: in every reachable state with pending local orders \<open>flashorder_propose\<close> returns; the order it
  returns names every command of the oldest pending orders exactly once (up to the table's size),
  all of them are marked as proposed, and exactly the oldest order of every replica is consumed.
\<close>

theorem order_round:
  assumes "core_reachable e c" and "iter_ok iter" and "std_sort_ok (e_srt e)"
    and "\<exists>r. queue_of r (storage c) \<noteq> []"
  shows "\<exists>order c'. flashorder_propose e iter mx now c = Ok order c' \<and> distinct order \<and>
    set order \<subseteq> all_cmds (collect_ordered_lists iter (storage c)) \<and>
    length order = min mx (card (all_cmds (collect_ordered_lists iter (storage c)))) \<and>
    proposed_cmds_cache (storage c') = proposed_cmds_cache (storage c) \<union> set order \<and>
    (\<forall>r. queue_of r (storage c') = tl (queue_of r (storage c)))"
proof -
  let ?ls = "collect_ordered_lists iter (storage c)"
  have wf: "storage_wf (storage c)"
    by (rule reachable_queues [OF assms(1)])
  have "length ?ls = card {r. queue_of r (storage c) \<noteq> []}"
    using collect_size [OF wf assms(2)] .
  moreover have "finite {r. queue_of r (storage c) \<noteq> []}"
    using oq.pending_view [OF wf] by simp
  ultimately have ne: "?ls \<noteq> []"
    using assms(4) by (auto simp: card_gt_0_iff simp flip: length_greater_0_conv)
  obtain st where st: "pop_all_front_ordered_lists (storage c) = Ok () st"
    "\<forall>r. queue_of r st = tl (queue_of r (storage c))" "proposed_cmds_cache st = proposed_cmds_cache (storage c)"
    using pop_all_front_ok [OF wf] by blast
  let ?ds = "case hg_statics c of None \<Rightarrow> delta_init now | Some ds \<Rightarrow> ds"
  obtain os ls g ds where F: "finalize (e_srt e) mx now ?ls
      (sint (ucast (nreplicas (config c) - nmajority (config c)) :: 32 word))
      (sint (ucast (nreplicas (config c)) :: 32 word)) (fairness_parameter (config c))
      (gen_param (config c)) (network_param (config c)) hg_new ?ds = (os, ls, g, ds)"
    by (rule prod_cases4)
  let ?c = "c\<lparr>hg_statics := Some ds, storage := fold add_to_proposed_cmds_cache os st\<rparr>"
  have run: "flashorder_propose e iter mx now c = Ok os ?c"
    using ne st(1) unfolding flashorder_propose_def Let_def F prod.case by simp
  have "distinct os \<and> set os \<subseteq> all_cmds ?ls \<and> length os = min mx (card (all_cmds ?ls))"
    using finalize_names_once [OF assms(3)] F by (metis fst_conv)
  moreover have "queue_of r (storage ?c) = queue_of r st" for r
    by (simp add: queue_of_def fold_queues)
  ultimately show ?thesis
    using run st(2,3) by (intro exI [of _ os] exI [of _ ?c]) (simp add: fold_proposed)
qed

theorem order_round_witness:
  "\<exists>order c'. flashorder_propose (run_env\<lparr>e_srt := sort_key\<rparr>) id 10000 0
      (snd (on_receive_local_order \<lparr>initiator = 1, ordered_hashes = [h256 3, h256 4], lo_timestamps = [5, 6]\<rparr> run_start))
     = Ok order c' \<and> length order = 2"
proof -
  let ?e = "run_env\<lparr>e_srt := sort_key\<rparr>"
  let ?c = "snd (on_receive_local_order \<lparr>initiator = 1, ordered_hashes = [h256 3, h256 4], lo_timestamps = [5, 6]\<rparr> run_start)"
  have "core_start ?e 0 run_replicas 1 0 0 0 = Inr run_start"
    using run_core_start by (simp add: core_start_def core_new_def on_init_def)
  then have r: "core_reachable ?e ?c"
    by (rule core_reachable.step [OF core_reachable.start core_step.receive_local_order])
  have q: "queue_of 1 (storage ?c) = [\<lparr>ol_cmds = [h256 3, h256 4], timestamps = [5, 6]\<rparr>]"
    by (simp add: on_receive_local_order_def add_local_order_def is_cmd_proposed_def run_start_simps storage_new_def queue_of_def)
  have l: "collect_ordered_lists id (storage ?c) = [\<lparr>ol_cmds = [h256 3, h256 4], timestamps = [5, 6]\<rparr>]"
    by (simp add: on_receive_local_order_def add_local_order_def is_cmd_proposed_def run_start_simps storage_new_def queue_of_def
      collect_ordered_lists_def map_filter_simps)
  have i: "iter_ok id" "std_sort_ok (e_srt ?e)"
    by (simp_all add: iter_ok_def std_sort_ok_sort_key)
  have "\<exists>r. queue_of r (storage ?c) \<noteq> []"
    by (rule exI [of _ 1]) (simp only: q list.distinct not_False_eq_True)
  from order_round [OF r i this, of 10000 0]
  have "\<exists>order c'. flashorder_propose ?e id 10000 0 ?c = Ok order c' \<and>
      length order = min 10000 (card (all_cmds (collect_ordered_lists id (storage ?c))))"
    by blast
  then show ?thesis
    unfolding l by (simp add: card_insert_if numeral_2_eq_2)
qed

end
