(* ===== verification/Unanimity.thy ===== *)
theory Unanimity
  imports Fair_Order
begin

text \<open>
  When every list carries the same commands in the same order, \<open>finalize\<close> returns that order,
  whatever the configured fairness parameter and whatever the cluster width is computed to be.
\<close>

definition agree :: "ordered_list list \<Rightarrow> uint256 list \<Rightarrow> bool" where
  "agree ls xs \<longleftrightarrow> ls \<noteq> [] \<and> length ls < 2 ^ 16 \<and> distinct xs \<and>
     (\<forall>l \<in> set ls. ol_cmds l = xs \<and> std_is_sorted (timestamps l))"

lemma agree_sort_if_needed: "agree ls xs \<Longrightarrow> l \<in> set ls \<Longrightarrow> sort_if_needed srt l = l"
  by (simp add: agree_def sort_if_needed_def)

subsection \<open>Positions in a list\<close>

lemma before_distinct_nth:
  assumes "distinct xs" and "i < length xs" and "j < length xs"
  shows "before xs (xs ! i) (xs ! j) \<longleftrightarrow> i < j"
proof
  assume "before xs (xs ! i) (xs ! j)"
  then obtain k l where "k < l" "l < length xs" "xs ! k = xs ! i" "xs ! l = xs ! j"
    by (auto simp: before_nth)
  with assms show "i < j"
    by (metis nth_eq_iff_index_eq order.strict_trans)
next
  assume "i < j"
  with assms show "before xs (xs ! i) (xs ! j)"
    by (auto simp: before_nth)
qed

lemma sorted_perm_upt:
  assumes "mset xs = mset [0..<n]" and "sorted xs"
  shows "xs = [0..<n]"
  using properties_for_sort [of xs "[0..<n]"] assms by (simp add: sorted_sort_id)

lemma before_perm_upt:
  assumes "mset xs = mset [0..<n]" and "\<And>u v. u < v \<Longrightarrow> v < n \<Longrightarrow> before xs u v"
  shows "xs = [0..<n]"
proof -
  have dist: "distinct xs" and set: "set xs = {0..<n}"
    using mset_eq_imp_distinct_iff [OF assms(1)] mset_eq_setD [OF assms(1)] by simp_all
  have "xs ! i \<le> xs ! j" if "i < j" "j < length xs" for i j
  proof (rule ccontr)
    assume "\<not> xs ! i \<le> xs ! j"
    moreover have "xs ! i < n"
      using set that nth_mem [of i xs] by auto
    ultimately have "before xs (xs ! j) (xs ! i)"
      using assms(2) by simp
    then show False
      using before_distinct_nth [OF dist] that by simp
  qed
  then have "sorted xs"
    by (simp add: sorted_iff_nth_mono_less)
  with assms(1) show ?thesis
    by (rule sorted_perm_upt)
qed

subsection \<open>Preferences and positions\<close>

lemma agree_prepare:
  assumes "agree ls xs" and "length xs \<le> mx"
  shows "id_to_cmd (hg_prepare srt mx ls nfaulty nnodes gam g) = xs"
    and "n_txns (hg_prepare srt mx ls nfaulty nnodes gam g) = length xs"
proof -
  have "\<forall>l \<in> set (map (sort_if_needed srt) ls). ol_cmds l = xs"
    using assms(1) agree_sort_if_needed [OF assms(1)] by (simp add: agree_def)
  then show "id_to_cmd (hg_prepare srt mx ls nfaulty nnodes gam g) = xs"
    using assms by (simp add: hg_prepare_def compute_preferences_keeps register_all_agree agree_def)
  then show "n_txns (hg_prepare srt mx ls nfaulty nnodes gam g) = length xs"
    using hg_prepare_inv [of mx srt ls nfaulty nnodes gam g] by (simp add: reg_inv_def)
qed

lemma agree_pref:
  assumes ag: "agree ls xs" and mx: "length xs \<le> mx" and srt: "std_sort_ok srt"
    and ij: "i < length xs" "j < length xs"
  shows "uint (pref (hg_prepare srt mx ls nfaulty nnodes gam g) ! (i * length xs + j))
    = (if i < j then int (length ls) else 0)"
proof -
  let ?h = "hg_prepare srt mx ls nfaulty nnodes gam g"
  note n = agree_prepare [OF ag mx, of srt nfaulty nnodes gam g]
  have ids: "cmd_to_id ?h (xs ! i) = Some i" "cmd_to_id ?h (xs ! j) = Some j"
    using hg_prepare_inv [of mx srt ls nfaulty nnodes gam g] n ij by (simp_all add: reg_inv_def)
  have "before (ol_cmds (sort_if_needed srt l)) (xs ! i) (xs ! j) \<longleftrightarrow> i < j" if "l \<in> set ls" for l
    using that ag ij agree_sort_if_needed [OF ag that] by (simp add: agree_def before_distinct_nth)
  then have "filter (\<lambda>l. before (ol_cmds (sort_if_needed srt l)) (xs ! i) (xs ! j)) ls
      = (if i < j then ls else [])"
    by (simp cong: filter_cong)
  moreover have "\<forall>l \<in> set ls. distinct (ol_cmds l)" and "length ls < 2 ^ 16"
    using ag by (simp_all add: agree_def)
  ultimately have "unat (pref ?h ! (i * length xs + j)) = (if i < j then length ls else 0)"
    using compute_preferences_count [OF hg_prepare_def srt _ _ ids] by (simp add: n)
  then show ?thesis
    by (simp only: uint_nat split: if_split) simp
qed

lemma hg_threshold_pos: "1 \<le> hg_threshold n gam f"
  by (simp add: hg_threshold_def)


text \<open>
  The canonical position of the \<open>i\<close>-th command is \<open>i\<close> when the lists reach the threshold, and 0
  otherwise.
\<close>

lemma hg_prepare_threshold:
  "1 \<le> threshold (hg_prepare srt mx ls nfaulty nnodes gam g)"
proof -
  have "threshold (fold (\<lambda>l. register_cmds mx (ol_cmds l)) ks h) = threshold h" for ks :: "ordered_list list" and h
    by (induction ks arbitrary: h) simp_all
  then show ?thesis
    by (simp add: hg_prepare_def compute_preferences_simps register_all_def Let_def hg_threshold_pos)
qed

lemma agree_canonical:
  fixes nfaulty nnodes gam g
  assumes ag: "agree ls xs" and mx: "length xs \<le> mx" and srt: "std_sort_ok srt" and tx: "tx < length xs"
  defines "h \<equiv> hg_prepare srt mx ls nfaulty nnodes gam g"
  shows "canonical_pos (compute_canonical_positions mx h) ! tx
    = (if threshold h \<le> int (length ls) then int tx else 0)"
proof -
  have n: "n_txns h = length xs"
    unfolding h_def by (rule agree_prepare [OF ag mx])
  have p: "uint (pref h ! (i * length xs + j)) = (if i < j then int (length ls) else 0)"
    if "i < length xs" "j < length xs" for i j
    unfolding h_def by (rule agree_pref [OF ag mx srt that])
  have t: "1 \<le> threshold h"
    unfolding h_def by (rule hg_prepare_threshold)
  have "prefers h other tx \<longleftrightarrow> other < tx \<and> threshold h \<le> int (length ls)" if "other < length xs" for other
    using p [OF that tx] t by (auto simp: prefers_def n)
  then have "{other. other < n_txns h \<and> prefers h other tx}
      = (if threshold h \<le> int (length ls) then {..<tx} else {})"
    using tx n by auto
  then show ?thesis
    using canonical_pos_nth [of h mx tx] n mx tx by (simp split: if_splits)
qed

subsection \<open>The clusters\<close>

lemma cluster_loop_one:
  "successively (close pos delta) (prev # xs) \<Longrightarrow> cluster_loop pos delta prev cur xs = [cur @ xs]"
  by (induction xs arbitrary: prev cur) (simp_all add: close_def)

lemma cluster_loop_singletons:
  "successively (\<lambda>x y. \<not> close pos delta x y) (prev # xs) \<Longrightarrow>
   cluster_loop pos delta prev cur xs = cur # map (\<lambda>x. [x]) xs"
  by (induction xs arbitrary: prev cur) (simp_all add: close_def)

definition one_or_singletons :: "nat \<Rightarrow> nat list list \<Rightarrow> bool" where
  "one_or_singletons n cs \<longleftrightarrow> cs = map (\<lambda>i. [i]) [0..<n] \<or> (\<exists>s. cs = [s] \<and> mset s = mset [0..<n])"

lemma successively_upt: "(\<And>i. Suc i < m \<Longrightarrow> P i (Suc i)) \<Longrightarrow> successively P [k..<m]"
  by (simp add: successively_conv_nth)

lemma agree_clusters:
  assumes ag: "agree ls xs" and mx: "length xs \<le> mx" and srt: "std_sort_ok srt" and two: "2 \<le> length xs"
  shows "one_or_singletons (length xs)
    (clusters (hg_cluster srt mx now gp np (hg_prepare srt mx ls nfaulty nnodes gam g) ds))"
proof -
  define h where "h = compute_canonical_positions mx (hg_prepare srt mx ls nfaulty nnodes gam g)"
  define d where "d = fst (compute_delta srt now gp np h ds)"
  define s where "s = srt (\<lambda>a. canonical_pos h ! a) [0..<length xs]"
  have n: "n_txns h = length xs"
    by (simp add: h_def agree_prepare [OF ag mx])
  have d: "1 \<le> d"
    using compute_delta_range by (simp add: d_def)
  have s: "mset s = mset [0..<length xs]"
    by (simp add: s_def std_sort_mset [OF srt])
  then have ne: "s = hd s # tl s"
    using two mset_eq_length [OF s] by (cases s) simp_all
  have cl: "clusters (hg_cluster srt mx now gp np (hg_prepare srt mx ls nfaulty nnodes gam g) ds)
      = cluster_loop (\<lambda>a. canonical_pos h ! a) d (hd s) [hd s] (tl s)"
  proof -
    have "n_txns h \<noteq> 0"
      using two n by linarith
    from clusters_detect [OF this, of srt now gp np ds] show ?thesis
      by (simp add: hg_cluster_def h_def [symmetric] n d_def s_def)
  qed
  let ?pos = "\<lambda>a. canonical_pos h ! a"
  have one: ?thesis if "successively (close ?pos d) s"
  proof -
    have "cluster_loop ?pos d (hd s) [hd s] (tl s) = [s]"
      using cluster_loop_one [of ?pos d "hd s" "tl s" "[hd s]"] that ne by simp
    then show ?thesis
      using cl s by (simp add: one_or_singletons_def)
  qed
  show ?thesis
  proof (cases "threshold (hg_prepare srt mx ls nfaulty nnodes gam g) \<le> int (length ls)")
    case False
    then have "?pos i = 0" if "i \<in> set s" for i
      using that mset_eq_setD [OF s] by (simp add: h_def agree_canonical [OF ag mx srt])
    then have "successively (close ?pos d) s"
      using d by (simp add: successively_conv_nth close_def)
    then show ?thesis by (rule one)
  next
    case True
    then have pos: "?pos i = int i" if "i < length xs" for i
      using that by (simp add: h_def agree_canonical [OF ag mx srt])
    then have "sorted_wrt (<) (map ?pos [0..<length xs])"
      by (simp add: sorted_wrt_iff_nth_less)
    then have id: "s = [0..<length xs]"
      unfolding s_def by (rule std_sort_strict [OF srt])
    show ?thesis
    proof (cases "d = 1")
      case True
      then have "successively (\<lambda>x y. \<not> close ?pos d x y) s"
        unfolding id by (intro successively_upt) (simp add: close_def pos)
      then have "cluster_loop ?pos d (hd s) [hd s] (tl s) = map (\<lambda>x. [x]) s"
        using cluster_loop_singletons [of ?pos d "hd s" "tl s" "[hd s]"] ne
        by (metis list.simps(9))
      then show ?thesis
        using cl id by (simp add: one_or_singletons_def)
    next
      case False
      with d have "successively (close ?pos d) s"
        unfolding id by (intro successively_upt) (simp add: close_def pos)
      then show ?thesis by (rule one)
    qed
  qed
qed


subsection \<open>The output\<close>

lemma sum_list_mset: "mset xs = mset ys \<Longrightarrow> (\<Sum>x \<leftarrow> xs. f x) = (\<Sum>x \<leftarrow> ys. f x :: int)"
  by (metis mset_map sum_mset_sum_list)

lemma agree_net_score:
  assumes p: "\<And>i j. i < n \<Longrightarrow> j < n \<Longrightarrow> uint (pref g ! (i * n + j)) = (if i < j then R else 0)"
    and n: "n_txns g = n" and s: "mset s = mset [0..<n]" and m: "m < n"
  shows "net_score g s m = R * (int n - 1 - 2 * int m)"
proof -
  have "net_score g s m = (\<Sum>k \<leftarrow> [0..<n]. if m \<noteq> k
      then uint (pref g ! (m * n + k)) - uint (pref g ! (k * n + m)) else 0)"
    unfolding net_score_def n by (rule sum_list_mset [OF s])
  also have "\<dots> = (\<Sum>k \<leftarrow> [0..<n]. if m < k then R else if k < m then - R else 0)"
    using m by (intro arg_cong [of _ _ sum_list] map_cong) (auto simp: p)
  also have "\<dots> = R * (int n - 1 - 2 * int m)"
  proof -
    have "(\<Sum>k \<leftarrow> [0..<l]. if m < k then R else if k < m then - R else 0)
        = (if l \<le> m then - R * int l else R * (int l - 1 - 2 * int m))" for l
      by (induction l) (auto simp: algebra_simps not_le)
    with m show ?thesis by simp
  qed
  finally show ?thesis .
qed

lemma std_sort_strict_perm:
  assumes "std_sort_ok srt" and "mset xs = mset ys" and "sorted_wrt (<) (map k ys)"
  shows "srt k xs = ys"
proof -
  have "mset (srt k xs) = mset ys"
    by (simp add: std_sort_mset [OF assms(1)] assms(2))
  moreover have "inj_on k (set ys)"
    using assms(3) by (simp add: distinct_map strict_sorted_iff)
  moreover have "sorted (map k (srt k xs))"
    by (rule std_sort_sorted [OF assms(1)])
  ultimately have eq: "map k (srt k xs) = map k ys"
    using properties_for_sort [of "map k (srt k xs)" "map k ys"] assms(3)
    by (metis mset_map sorted_sort_id strict_sorted_imp_sorted)
  have "set (srt k xs) = set ys"
    using assms(1,2) by (metis std_sort_set mset_eq_setD)
  with eq \<open>inj_on k (set ys)\<close> show ?thesis
    by (intro map_inj_on [OF eq]) simp
qed

lemma output_one:
  assumes srt: "std_sort_ok srt" and n: "n_txns g = n" and two: "2 \<le> n" and R: "0 < R"
    and p: "\<And>i j. i < n \<Longrightarrow> j < n \<Longrightarrow> uint (pref g ! (i * n + j)) = (if i < j then R else 0)"
    and cl: "clusters g = [s]" and s: "mset s = mset [0..<n]"
  shows "hg_output (build_hypergraph srt g) = [0..<n]"
proof -
  obtain he where he: "hyperedges g = [he]" and mem: "he_members he = s"
    using cl by (auto simp: clusters_def)
  then have ne: "hyperedges g \<noteq> []" by simp
  have len: "length s = n"
    using mset_eq_length [OF s] by simp
  have "mset (topological_sort (build_hypergraph srt g)) = mset [0]"
    using topological_sort_mset [OF build_hypergraph_spec(1) [OF ne, of srt]]
    by (simp add: build_hypergraph_spec [OF ne] he)
  then have order: "topological_sort (build_hypergraph srt g) = [0]"
    by simp
  have "int n - 1 - 2 * int j < int n - 1 - 2 * int i" if "i < j" for i j
    using that by simp
  then have "sorted_wrt (<) (map (\<lambda>m. - net_score g s m) [0..<n])"
    using R by (simp add: sorted_wrt_iff_nth_less agree_net_score [OF p n s])
  then have "srt (\<lambda>m. - net_score g s m) s = [0..<n]"
    by (rule std_sort_strict_perm [OF srt s])
  then have "internal_order (order_members srt g he) = [0..<n]"
    using two len by (simp add: order_members_def mem)
  then show ?thesis
    by (simp add: hg_output_def order build_hypergraph_spec(2) [OF ne] he)
qed

lemma singletons_edges:
  assumes n: "n_txns g = n" and two: "2 \<le> n" and R: "0 < R" and marg: "1 \<le> margin g"
    and p: "\<And>i j. i < n \<Longrightarrow> j < n \<Longrightarrow> uint (pref g ! (i * n + j)) = (if i < j then R else 0)"
    and cl: "clusters g = map (\<lambda>i. [i]) [0..<n]"
  shows "he_edges (build_hypergraph srt g) = {(u, v). u < v \<and> v < n}"
    and "acyclic (he_edges (build_hypergraph srt g))"
    and "length (hyperedges g) = n" and "\<And>i. i < n \<Longrightarrow> he_members (hyperedges g ! i) = [i]"
proof -
  show H: "length (hyperedges g) = n"
    using arg_cong [OF cl, of length] by (simp add: clusters_def)
  then have ne: "hyperedges g \<noteq> []"
    using two by auto
  show mem: "he_members (hyperedges g ! i) = [i]" if "i < n" for i
    using that H arg_cong [OF cl, of "\<lambda>xs. xs ! i"] by (simp add: clusters_def)
  have sup: "support g (hyperedges g ! i) (hyperedges g ! j) = (if i < j then R else 0)" if "i < n" "j < n" for i j
    using that by (simp add: support_def mem n p)
  have beats: "beats g i j \<longleftrightarrow> i < j" if "i < n" "j < n" "i \<noteq> j" for i j
  proof -
    have "\<not> margin g * of_int R < 0"
      using marg R by (simp add: not_less)
    with that R show ?thesis
      by (auto simp: beats_def sup)
  qed
  show edges: "he_edges (build_hypergraph srt g) = {(u, v). u < v \<and> v < n}"
    unfolding build_hypergraph_edges [OF marg ne] H using beats by auto
  show "acyclic (he_edges (build_hypergraph srt g))"
    unfolding edges by (rule wf_acyclic, rule wf_subset [OF wf_less]) auto
qed

lemma output_singletons:
  assumes n: "n_txns g = n" and two: "2 \<le> n" and R: "0 < R" and marg: "1 \<le> margin g"
    and p: "\<And>i j. i < n \<Longrightarrow> j < n \<Longrightarrow> uint (pref g ! (i * n + j)) = (if i < j then R else 0)"
    and cl: "clusters g = map (\<lambda>i. [i]) [0..<n]"
  shows "hg_output (build_hypergraph srt g) = [0..<n]"
proof -
  let ?b = "build_hypergraph srt g"
  note single = singletons_edges [OF n two R marg p cl]
  have ne: "hyperedges g \<noteq> []"
    using single(3) two by auto
  have "before (topological_sort ?b) u v" if "u < v" "v < n" for u v
    using that single(1,2) by (intro topological_sort_before build_hypergraph_spec(1) [OF ne]) simp_all
  moreover have "mset (topological_sort ?b) = mset [0..<n]"
    using topological_sort_mset [OF build_hypergraph_spec(1) [OF ne, of srt]]
    by (simp add: build_hypergraph_spec [OF ne] single(3))
  ultimately have order: "topological_sort ?b = [0..<n]"
    by (intro before_perm_upt)
  have "internal_order (hyperedges ?b ! i) = [i]" if "i < n" for i
    using that single(3) by (simp add: build_hypergraph_spec(2) [OF ne] order_members_def single(4))
  then have "map (\<lambda>i. internal_order (hyperedges ?b ! i)) [0..<n] = map (\<lambda>i. [i]) [0..<n]"
    by simp
  then show ?thesis
    by (simp only: hg_output_def order) (simp add: concat_map_singleton)
qed

text \<open>C4: lists that agree on an order leave the leader no choice.\<close>

theorem finalize_unanimity:
  assumes srt: "std_sort_ok srt" and marg: "1 \<le> margin g"
    and ag: "agree ls xs" and mx: "length xs \<le> mx"
  shows "fst (finalize srt mx now ls nfaulty nnodes gam gp np g ds) = xs"
proof -
  let ?h = "hg_prepare srt mx ls nfaulty nnodes gam g"
  let ?c = "hg_cluster srt mx now gp np ?h ds"
  have ids: "id_to_cmd ?h = xs" and n: "n_txns ?h = length xs"
    by (rule agree_prepare [OF ag mx])+
  show ?thesis
  proof (cases "2 \<le> length xs")
    case False
    then consider "xs = []" | x where "xs = [x]"
      by (cases xs; cases "tl xs") auto
    then show ?thesis
      by cases (simp_all add: finalize_stages n ids)
  next
    case True
    have R: "0 < int (length ls)"
      using ag by (simp add: agree_def)
    have p: "uint (pref ?c ! (i * length xs + j)) = (if i < j then int (length ls) else 0)"
      if "i < length xs" "j < length xs" for i j
      using agree_pref [OF ag mx srt that] by (simp add: hg_cluster_keeps)
    have nc: "n_txns ?c = length xs"
      by (simp add: hg_cluster_keeps n)
    have mc: "1 \<le> margin ?c"
      using marg by (simp add: hg_cluster_keeps hg_prepare_def compute_preferences_keeps)
    from agree_clusters [OF ag mx srt True, of now gp np nfaulty nnodes gam g ds]
    consider "clusters ?c = map (\<lambda>i. [i]) [0..<length xs]"
      | s where "clusters ?c = [s]" "mset s = mset [0..<length xs]"
      by (auto simp: one_or_singletons_def)
    then have "hg_output (build_hypergraph srt ?c) = [0..<length xs]"
      by cases (use output_singletons [OF nc True R mc p] output_one [OF srt nc True R p] in auto)
    with True show ?thesis
      by (simp add: finalize_stages n ids map_nth)
  qed
qed


theorem finalize_unanimity_witness:
  "fst (finalize sort_key 10 0
     [\<lparr>ol_cmds = [h256 7, h256 5, h256 9], timestamps = [1, 2, 3]\<rparr>,
      \<lparr>ol_cmds = [h256 7, h256 5, h256 9], timestamps = [4, 5, 9]\<rparr>]
     0 2 1 0 0 hg_new (delta_init 0)) = [h256 7, h256 5, h256 9]"
  by (rule finalize_unanimity [OF std_sort_ok_sort_key])
     (simp_all add: hg_new_def agree_def)

end
