(* ===== verification/Small_Bank.thy ===== *)
theory Small_Bank
  imports Prelude
begin

text \<open>
  The SmallBank application of \<open>flashorder/examples/small_bank.h\<close> and \<open>small_bank.cpp\<close>: the accounts,
  their transactions in 64-bit arithmetic, the generator of serialized transactions and the
  executor that parses them. \<open>operator[]\<close> of a vector and the payload pointer are unchecked in the
  code, so an index out of range is undefined behaviour.
\<close>

record small_bank =
  checking_accounts :: "u64 list"
  saving_accounts :: "u64 list"

abbreviation UINT64_MAX :: u64 where
  "UINT64_MAX \<equiv> - 1"

subsection \<open>The accounts\<close>

text \<open>The constructor: \<open>rnd\<close> is what successive calls of \<open>rand\<close> return.\<close>

definition bank_new :: "(nat \<Rightarrow> u64) \<Rightarrow> u64 \<Rightarrow> small_bank" where
  "bank_new rnd n =
     \<lparr>checking_accounts = map (\<lambda>i. rnd (2 * i) mod 10000) [0..<unat n],
      saving_accounts = map (\<lambda>i. rnd (2 * i + 1) mod 10000) [0..<unat n]\<rparr>"

definition has_chk :: "small_bank \<Rightarrow> u64 \<Rightarrow> bool" where
  "has_chk b u \<longleftrightarrow> unat u < length (checking_accounts b)"

definition has_sav :: "small_bank \<Rightarrow> u64 \<Rightarrow> bool" where
  "has_sav b u \<longleftrightarrow> unat u < length (saving_accounts b)"

abbreviation chk :: "small_bank \<Rightarrow> u64 \<Rightarrow> u64" where
  "chk b u \<equiv> checking_accounts b ! unat u"

abbreviation sav :: "small_bank \<Rightarrow> u64 \<Rightarrow> u64" where
  "sav b u \<equiv> saving_accounts b ! unat u"

definition set_chk :: "u64 \<Rightarrow> u64 \<Rightarrow> small_bank \<Rightarrow> small_bank" where
  "set_chk u x b = b\<lparr>checking_accounts := (checking_accounts b)[unat u := x]\<rparr>"

definition set_sav :: "u64 \<Rightarrow> u64 \<Rightarrow> small_bank \<Rightarrow> small_bank" where
  "set_sav u x b = b\<lparr>saving_accounts := (saving_accounts b)[unat u := x]\<rparr>"

definition transaction_savings :: "u64 \<Rightarrow> u64 \<Rightarrow> small_bank \<Rightarrow> (unit, small_bank) res" where
  "transaction_savings u amount b =
     (if \<not> has_sav b u then Exc Undefined_Behaviour b
      else if UINT64_MAX - sav b u < amount then Ok () b
      else Ok () (set_sav u (sav b u + amount) b))"

definition deposit_checking :: "u64 \<Rightarrow> u64 \<Rightarrow> small_bank \<Rightarrow> (unit, small_bank) res" where
  "deposit_checking u amount b =
     (if \<not> has_chk b u then Exc Undefined_Behaviour b
      else if UINT64_MAX - chk b u < amount then Ok () b
      else Ok () (set_chk u (chk b u + amount) b))"

definition write_check :: "u64 \<Rightarrow> u64 \<Rightarrow> small_bank \<Rightarrow> (unit, small_bank) res" where
  "write_check u amount b =
     (if \<not> has_chk b u then Exc Undefined_Behaviour b
      else if chk b u < amount then Ok () b
      else Ok () (set_chk u (chk b u - amount) b))"

definition amalgamate :: "u64 \<Rightarrow> small_bank \<Rightarrow> (unit, small_bank) res" where
  "amalgamate u b =
     (if \<not> (has_chk b u \<and> has_sav b u) then Exc Undefined_Behaviour b
      else if UINT64_MAX - chk b u < sav b u then Ok () b
      else Ok () (set_sav u 0 (set_chk u (chk b u + sav b u) b)))"

definition send_payment :: "u64 \<Rightarrow> u64 \<Rightarrow> u64 \<Rightarrow> small_bank \<Rightarrow> (unit, small_bank) res" where
  "send_payment from_u to_u amount b =
     (if \<not> has_chk b from_u then Exc Undefined_Behaviour b
      else if chk b from_u < amount then Ok () b
      else if \<not> has_chk b to_u then Exc Undefined_Behaviour b
      else if UINT64_MAX - chk b to_u < amount then Ok () b
      else let b = set_chk from_u (chk b from_u - amount) b
           in Ok () (set_chk to_u (chk b to_u + amount) b))"

text \<open>
  \<open>transaction_split\<close>. The sum is kept in an \<open>int\<close> (\<open>auto amount_payed = 0\<close>): 32 bits, and sign
  extended again for the division by the party size.
\<close>

definition amount_payed :: "(u64 \<times> u64) list \<Rightarrow> 32 word" where
  "amount_payed payors = foldl (\<lambda>s p. ucast ((scast s :: u64) + snd p)) 0 payors"

definition per_head :: "(u64 \<times> u64) list \<Rightarrow> u64 list \<Rightarrow> u64" where
  "per_head payors party = (scast (amount_payed payors) :: u64) div of_nat (length party)"

text \<open>The result of a validity loop: undefined, an early return (\<open>False\<close>), or passed.\<close>

fun check_payors :: "(u64 \<times> u64) list \<Rightarrow> small_bank \<Rightarrow> err + bool" where
  "check_payors [] b = Inr True"
| "check_payors ((u, amount) # ps) b =
     (if \<not> has_chk b u then Inl Undefined_Behaviour
      else if chk b u < amount then Inr False else check_payors ps b)"

fun check_party :: "u64 \<Rightarrow> u64 list \<Rightarrow> small_bank \<Rightarrow> err + bool" where
  "check_party share [] b = Inr True"
| "check_party share (u # us) b =
     (if \<not> has_chk b u then Inl Undefined_Behaviour
      else if UINT64_MAX - chk b u < share then Inr False else check_party share us b)"

definition transaction_split :: "(u64 \<times> u64) list \<Rightarrow> u64 list \<Rightarrow> small_bank \<Rightarrow> (unit, small_bank) res" where
  "transaction_split payors party b =
     (if party = [] then Exc Undefined_Behaviour b
      else let share = per_head payors party in
        case check_payors payors b of
          Inl e \<Rightarrow> Exc e b
        | Inr False \<Rightarrow> Ok () b
        | Inr True \<Rightarrow>
            (case check_party share party b of
               Inl e \<Rightarrow> Exc e b
             | Inr False \<Rightarrow> Ok () b
             | Inr True \<Rightarrow>
                 let b = fold (\<lambda>(u, amount) b. set_chk u (chk b u + amount) b) payors b
                 in Ok () (fold (\<lambda>u b. set_chk u (chk b u - share) b) party b)))"

definition query :: "u64 \<Rightarrow> small_bank \<Rightarrow> err + (u64 \<times> u64)" where
  "query u b = (if has_chk b u \<and> has_sav b u then Inr (chk b u, sav b u) else Inl Undefined_Behaviour)"

subsection \<open>The executor\<close>

text \<open>
  Reading \<open>n\<close> words, or pairs of words, from the payload pointer. The loop counter is an \<open>int\<close>: a
  count of \<open>2 ^ 31\<close> or more overflows it.
\<close>

fun read_pairs :: "nat \<Rightarrow> u64 list \<Rightarrow> err + ((u64 \<times> u64) list \<times> u64 list)" where
  "read_pairs 0 p = Inr ([], p)"
| "read_pairs (Suc n) (x # y # p) = map_sum id (\<lambda>(ps, q). ((x, y) # ps, q)) (read_pairs n p)"
| "read_pairs (Suc n) _ = Inl Undefined_Behaviour"

fun read_words :: "nat \<Rightarrow> u64 list \<Rightarrow> err + (u64 list \<times> u64 list)" where
  "read_words 0 p = Inr ([], p)"
| "read_words (Suc n) (x # p) = map_sum id (\<lambda>(ps, q). (x # ps, q)) (read_words n p)"
| "read_words (Suc n) [] = Inl Undefined_Behaviour"

text \<open>The two numbers are the balances that a query returns, zero for the other transactions.\<close>

definition no_result :: "(unit, small_bank) res \<Rightarrow> (u64 \<times> u64, small_bank) res" where
  "no_result r = res_bind r (\<lambda>u b. Ok (0, 0) b)"

definition run_split :: "u64 list \<Rightarrow> small_bank \<Rightarrow> (u64 \<times> u64, small_bank) res" where
  "run_split p b =
     (case p of
        [] \<Rightarrow> Exc Undefined_Behaviour b
      | n # p \<Rightarrow>
          if 2 ^ 31 \<le> n then Exc Undefined_Behaviour b
          else (case read_pairs (unat n) p of
             Inl e \<Rightarrow> Exc e b
           | Inr (payors, p) \<Rightarrow>
               (case p of
                  [] \<Rightarrow> Exc Undefined_Behaviour b
                | k # p \<Rightarrow>
                    if 2 ^ 31 \<le> k then Exc Undefined_Behaviour b
                    else (case read_words (unat k) p of
                       Inl e \<Rightarrow> Exc e b
                     | Inr (party, p) \<Rightarrow> no_result (transaction_split payors party b)))))"

definition execute_transaction :: "u64 list \<Rightarrow> small_bank \<Rightarrow> (u64 \<times> u64, small_bank) res" where
  "execute_transaction p b =
     (case p of
        [] \<Rightarrow> Exc Undefined_Behaviour b
      | t # p \<Rightarrow>
          if t = 4 then run_split p b
          else if 6 < t then Ok (0, 0) b
          else case p of
            [] \<Rightarrow> Exc Undefined_Behaviour b
          | u # p \<Rightarrow>
              if t = 5 then no_result (amalgamate u b)
              else if t = 6 then (case query u b of Inl e \<Rightarrow> Exc e b | Inr r \<Rightarrow> Ok r b)
              else case p of
                [] \<Rightarrow> Exc Undefined_Behaviour b
              | x # p \<Rightarrow>
                  if t = 0 then no_result (transaction_savings u x b)
                  else if t = 1 then no_result (deposit_checking u x b)
                  else if t = 2 then no_result (write_check u x b)
                  else case p of
                    [] \<Rightarrow> Exc Undefined_Behaviour b
                  | y # p \<Rightarrow> no_result (send_payment u x y b))"

subsection \<open>The generator\<close>

text \<open>
  \<open>SmallBankManager\<close>: the random sources are streams of which the manager has read a prefix. \<open>rands\<close>
  is \<open>rand()\<close>, \<open>users\<close> the zipfian distribution of user ids, \<open>mtx\<close> the uniform distribution of the
  modifying transaction types and \<open>flips\<close> the Bernoulli distribution.
\<close>

record manager =
  bank :: small_bank
  mgr_n_users :: u64
  rands :: "nat \<Rightarrow> u64"
  rand_pos :: nat
  users :: "nat \<Rightarrow> u64"
  user_pos :: nat
  mtx :: "nat \<Rightarrow> u64"
  mtx_pos :: nat
  flips :: "nat \<Rightarrow> bool"
  flip_pos :: nat

definition mgr_new :: "(nat \<Rightarrow> u64) \<Rightarrow> u64 \<Rightarrow> (nat \<Rightarrow> u64) \<Rightarrow> (nat \<Rightarrow> u64) \<Rightarrow> (nat \<Rightarrow> u64) \<Rightarrow> (nat \<Rightarrow> bool) \<Rightarrow> manager" where
  "mgr_new init n rs us ms fs =
     \<lparr>bank = bank_new init n, mgr_n_users = n, rands = rs, rand_pos = 0, users = us, user_pos = 0,
      mtx = ms, mtx_pos = 0, flips = fs, flip_pos = 0\<rparr>"

text \<open>\<open>rand() % (max - min + 1) + min\<close>; the division is undefined when the range is all of 64 bits.\<close>

definition random_number_generator :: "u64 \<Rightarrow> u64 \<Rightarrow> manager \<Rightarrow> (u64, manager) res" where
  "random_number_generator lo hi m =
     (let r = rands m (rand_pos m); m = m\<lparr>rand_pos := rand_pos m + 1\<rparr>
      in if hi - lo + 1 = 0 then Exc Undefined_Behaviour m
         else Ok (r mod (hi - lo + 1) + lo) m)"

definition next_user :: "manager \<Rightarrow> (u64, manager) res" where
  "next_user m = Ok (users m (user_pos m)) (m\<lparr>user_pos := user_pos m + 1\<rparr>)"

definition mgr_query :: "u64 \<Rightarrow> manager \<Rightarrow> (u64 \<times> u64, manager) res" where
  "mgr_query u m = (case query u (bank m) of Inl e \<Rightarrow> Exc e m | Inr r \<Rightarrow> Ok r m)"

text \<open>The four transactions with an amount.\<close>

definition gen_savings :: "manager \<Rightarrow> (u64 list, manager) res" where
  "gen_savings m =
     res_bind (next_user m) (\<lambda>u m. res_bind (mgr_query u m) (\<lambda>q m.
     res_bind (random_number_generator 0 ((UINT64_MAX - snd q) div 2) m) (\<lambda>a m. Ok [0, u, a] m)))"

definition gen_deposit :: "manager \<Rightarrow> (u64 list, manager) res" where
  "gen_deposit m =
     res_bind (next_user m) (\<lambda>u m. res_bind (mgr_query u m) (\<lambda>q m.
     res_bind (random_number_generator 0 ((UINT64_MAX - fst q) div 2) m) (\<lambda>a m. Ok [1, u, a] m)))"

definition gen_check :: "manager \<Rightarrow> (u64 list, manager) res" where
  "gen_check m =
     res_bind (next_user m) (\<lambda>u m. res_bind (mgr_query u m) (\<lambda>q m.
     res_bind (random_number_generator 0 (fst q) m) (\<lambda>a m. Ok [2, u, a] m)))"

definition gen_payment :: "manager \<Rightarrow> (u64 list, manager) res" where
  "gen_payment m =
     res_bind (next_user m) (\<lambda>u m. res_bind (next_user m) (\<lambda>v m.
     res_bind (mgr_query u m) (\<lambda>q m. res_bind (mgr_query v m) (\<lambda>r m.
     res_bind (random_number_generator 0 (min (fst q) (UINT64_MAX - fst r)) m) (\<lambda>a m. Ok [3, u, v, a] m)))))"

text \<open>
  The search for a block of \<open>k\<close> consecutive users. It draws until one fits, for ever if none does.
\<close>

partial_function (option) find_start :: "(nat \<Rightarrow> u64) \<Rightarrow> nat \<Rightarrow> u64 \<Rightarrow> u64 \<Rightarrow> (u64 \<times> nat) option" where
  "find_start us i k n = (if n < us i + k then find_start us (i + 1) k n else Some (us i, i + 1))"

text \<open>The ids the loop \<open>for (u = a; u < b; u++)\<close> visits.\<close>

definition user_range :: "u64 \<Rightarrow> u64 \<Rightarrow> u64 list" where
  "user_range a b = map of_nat [unat a..<unat b]"

text \<open>The minimum over the balances \<open>f\<close> of a list of users, from \<open>x\<close> on.\<close>

fun min_balance :: "(u64 \<Rightarrow> u64) \<Rightarrow> u64 list \<Rightarrow> u64 \<Rightarrow> manager \<Rightarrow> (u64, manager) res" where
  "min_balance f [] x m = Ok x m"
| "min_balance f (u # us) x m =
     res_bind (mgr_query u m) (\<lambda>q m. min_balance f us (min x (f (fst q))) m)"

fun gen_payors :: "u64 \<Rightarrow> u64 list \<Rightarrow> manager \<Rightarrow> (u64 list, manager) res" where
  "gen_payors hi [] m = Ok [] m"
| "gen_payors hi (u # us) m =
     res_bind (random_number_generator 0 hi m) (\<lambda>a m.
     res_bind (gen_payors hi us m) (\<lambda>p m. Ok (u # a # p) m))"

definition gen_split :: "manager \<Rightarrow> (u64 list, manager) res option" where
  "gen_split m =
     (case random_number_generator 3 10 m of
        Exc e m \<Rightarrow> Some (Exc e m)
      | Ok k m \<Rightarrow>
          (case random_number_generator 1 (k div 2) m of
             Exc e m \<Rightarrow> Some (Exc e m)
           | Ok n m \<Rightarrow>
               (case find_start (users m) (user_pos m) k (mgr_n_users m) of
                  None \<Rightarrow> None
                | Some (start, i) \<Rightarrow>
                    let m = m\<lparr>user_pos := i\<rparr>;
                        payors = user_range start (start + n);
                        others = user_range (start + n) (start + k)
                    in Some (
                      res_bind (min_balance id payors UINT64_MAX m) (\<lambda>x m.
                      res_bind (min_balance (\<lambda>c. UINT64_MAX - c) others x m) (\<lambda>x m.
                      res_bind (gen_payors (x div n) payors m) (\<lambda>p m.
                        Ok (4 # n # p @ k # user_range start (start + k)) m)))))))"

definition get_next_transaction_by_type :: "u64 \<Rightarrow> manager \<Rightarrow> (u64 list, manager) res option" where
  "get_next_transaction_by_type t m =
     (if t = 0 then Some (gen_savings m)
      else if t = 1 then Some (gen_deposit m)
      else if t = 2 then Some (gen_check m)
      else if t = 3 then Some (gen_payment m)
      else if t = 4 then gen_split m
      else if t = 5 \<or> t = 6 then Some (res_bind (next_user m) (\<lambda>u m. Ok [t, u] m))
      else Some (Ok [t] m))"

definition get_next_transaction_serialized :: "manager \<Rightarrow> (u64 list, manager) res option" where
  "get_next_transaction_serialized m =
     (if flips m (flip_pos m)
      then get_next_transaction_by_type (mtx m (mtx_pos m)) (m\<lparr>flip_pos := flip_pos m + 1, mtx_pos := mtx_pos m + 1\<rparr>)
      else get_next_transaction_by_type 6 (m\<lparr>flip_pos := flip_pos m + 1\<rparr>))"

text \<open>\<open>SmallBankManager::execute_transaction\<close> on the bank the manager owns.\<close>

definition mgr_execute :: "u64 list \<Rightarrow> manager \<Rightarrow> (u64 \<times> u64, manager) res" where
  "mgr_execute p m =
     (case execute_transaction p (bank m) of
        Ok r b \<Rightarrow> Ok r (m\<lparr>bank := b\<rparr>)
      | Exc e b \<Rightarrow> Exc e (m\<lparr>bank := b\<rparr>))"

subsection \<open>Accounting\<close>

definition assets :: "small_bank \<Rightarrow> nat" where
  "assets b = sum_list (map unat (checking_accounts b)) + sum_list (map unat (saving_accounts b))"

lemma sum_list_upd:
  "i < length xs \<Longrightarrow> sum_list (map unat (xs[i := (x :: u64)])) + unat (xs ! i) = sum_list (map unat xs) + unat x"
proof (induction xs arbitrary: i)
  case (Cons y xs)
  then show ?case by (cases i) auto
qed simp

lemma total_set:
  "has_chk b u \<Longrightarrow> assets (set_chk u x b) + unat (chk b u) = assets b + unat x"
  "has_sav b u \<Longrightarrow> assets (set_sav u x b) + unat (sav b u) = assets b + unat x"
  using sum_list_upd [of "unat u" "checking_accounts b" x] sum_list_upd [of "unat u" "saving_accounts b" x]
  by (simp_all add: assets_def has_chk_def has_sav_def set_chk_def set_sav_def)

lemma set_simps [simp]:
  "has_chk (set_chk u x b) = has_chk b" "has_sav (set_chk u x b) = has_sav b"
  "has_chk (set_sav u x b) = has_chk b" "has_sav (set_sav u x b) = has_sav b"
  "saving_accounts (set_chk u x b) = saving_accounts b" "checking_accounts (set_sav u x b) = checking_accounts b"
  by (auto simp: has_chk_def has_sav_def set_chk_def set_sav_def fun_eq_iff)

lemma chk_set: "has_chk b v \<Longrightarrow> chk (set_chk u x b) v = (if v = u then x else chk b v)"
  by (auto simp: has_chk_def set_chk_def nth_list_update word_unat_eq_iff)

text \<open>The guard against overflow is exact.\<close>

lemma unat_u64: "unat (x :: u64) < 2 ^ 64"
  using unsigned_less [of x, where 'a = nat] by simp

lemma no_overflow_iff: "\<not> UINT64_MAX - x < y \<longleftrightarrow> unat x + unat y < 2 ^ 64"
proof -
  have "unat UINT64_MAX = 2 ^ 64 - 1"
    by (simp add: unsigned_minus_1_eq_mask mask_eq_exp_minus_1)
  then have "unat (UINT64_MAX - x) = 2 ^ 64 - 1 - unat x"
    by (simp only: unat_sub [OF word_n1_ge])
  then show ?thesis
    using unat_u64 [of x] by (auto simp: word_less_nat_alt)
qed

lemma unat_add_guard: "\<not> UINT64_MAX - x < y \<Longrightarrow> unat (x + y) = unat x + unat y"
  unfolding no_overflow_iff by (simp add: unat_word_ariths)

lemma savings_total:
  assumes "has_sav b u" and "\<not> UINT64_MAX - sav b u < a"
  shows "\<exists>b'. transaction_savings u a b = Ok () b' \<and> assets b' = assets b + unat a"
  using assms total_set(2) [OF assms(1), of "sav b u + a"] unat_add_guard [OF assms(2)]
  by (simp add: transaction_savings_def)

lemma deposit_total:
  assumes "has_chk b u" and "\<not> UINT64_MAX - chk b u < a"
  shows "\<exists>b'. deposit_checking u a b = Ok () b' \<and> assets b' = assets b + unat a"
  using assms total_set(1) [OF assms(1), of "chk b u + a"] unat_add_guard [OF assms(2)]
  by (simp add: deposit_checking_def)

lemma check_total:
  assumes "has_chk b u" and "a \<le> chk b u"
  shows "\<exists>b'. write_check u a b = Ok () b' \<and> assets b' + unat a = assets b"
proof -
  have "unat (chk b u - a) + unat a = unat (chk b u)"
    using assms(2) by (simp add: unat_sub word_le_nat_alt)
  then have "assets (set_chk u (chk b u - a) b) + unat a = assets b"
    using total_set(1) [OF assms(1), of "chk b u - a"] by linarith
  then show ?thesis
    using assms by (auto simp: write_check_def)
qed

lemma amalgamate_total:
  assumes "has_chk b u" and "has_sav b u"
  shows "\<exists>b'. amalgamate u b = Ok () b' \<and> assets b' = assets b"
proof (cases "UINT64_MAX - chk b u < sav b u")
  case True
  with assms show ?thesis by (simp add: amalgamate_def)
next
  case False
  let ?b1 = "set_chk u (chk b u + sav b u) b"
  have "assets ?b1 = assets b + unat (sav b u)"
    using total_set(1) [OF assms(1), of "chk b u + sav b u"] unat_add_guard [OF False] by simp
  moreover have "assets (set_sav u 0 ?b1) + unat (sav b u) = assets ?b1"
    using total_set(2) [of ?b1 u 0] assms(2) by simp
  ultimately show ?thesis
    using False assms by (simp add: amalgamate_def)
qed

lemma payment_total:
  assumes "has_chk b u" and "has_chk b v"
  shows "\<exists>b'. send_payment u v a b = Ok () b' \<and> assets b' = assets b"
proof (cases "chk b u < a \<or> UINT64_MAX - chk b v < a")
  case True
  with assms show ?thesis by (auto simp: send_payment_def)
next
  case False
  let ?b1 = "set_chk u (chk b u - a) b"
  have le: "a \<le> chk b u" and guard: "\<not> UINT64_MAX - chk b v < a"
    using False by (simp_all add: not_less)
  have sub: "unat (chk b u - a) + unat a = unat (chk b u)"
    using le by (simp add: unat_sub word_le_nat_alt)
  have 1: "assets ?b1 + unat a = assets b"
    using total_set(1) [OF assms(1), of "chk b u - a"] sub by simp
  have "unat (chk ?b1 v + a) = unat (chk ?b1 v) + unat a"
  proof (cases "v = u")
    case True
    then show ?thesis using assms(1) sub by (simp add: chk_set)
  next
    case False
    then show ?thesis using assms(2) unat_add_guard [OF guard] by (simp add: chk_set)
  qed
  then have "assets (set_chk v (chk ?b1 v + a) ?b1) = assets b"
    using 1 total_set(1) [of ?b1 v "chk ?b1 v + a"] assms(2) by simp
  then show ?thesis
    using False assms by (auto simp: send_payment_def Let_def not_less)
qed

subsection \<open>Generated transactions\<close>

definition mgr_wf :: "manager \<Rightarrow> bool" where
  "mgr_wf m \<longleftrightarrow>
     length (checking_accounts (bank m)) = unat (mgr_n_users m) \<and> length (saving_accounts (bank m)) = unat (mgr_n_users m) \<and>
     (\<forall>i. users m i < mgr_n_users m)"

lemma mgr_wf_new: "(\<And>i. us i < n) \<Longrightarrow> mgr_wf (mgr_new init n rs us ms fs)"
  by (simp add: mgr_wf_def mgr_new_def bank_new_def)

lemma mgr_wf_user:
  assumes "mgr_wf m" and "u < mgr_n_users m"
  shows "has_chk (bank m) u" and "has_sav (bank m) u"
  using assms by (simp_all add: mgr_wf_def has_chk_def has_sav_def word_less_nat_alt)

lemma rng_le: "random_number_generator lo hi m = Ok r m' \<Longrightarrow> lo \<le> hi \<Longrightarrow> lo \<le> r \<and> r \<le> hi"
proof -
  assume g: "random_number_generator lo hi m = Ok r m'" and le: "lo \<le> hi"
  let ?d = "hi - lo + 1"
  have d: "?d \<noteq> 0" and r: "r = rands m (rand_pos m) mod ?d + lo"
    using g by (auto simp: random_number_generator_def Let_def split: if_splits)
  have "rands m (rand_pos m) mod ?d < ?d"
    using d by (simp add: word_mod_less_divisor word_neq_0_conv)
  then have "rands m (rand_pos m) mod ?d \<le> hi - lo"
    by uint_arith
  then show ?thesis
    unfolding r using le by uint_arith
qed

lemma rng_keeps:
  "random_number_generator lo hi m = Ok r m' \<Longrightarrow>
   bank m' = bank m \<and> mgr_n_users m' = mgr_n_users m \<and> users m' = users m"
  by (auto simp: random_number_generator_def Let_def split: if_splits)

lemma next_user_keeps:
  "next_user m = Ok u m' \<Longrightarrow> mgr_wf m \<Longrightarrow>
   bank m' = bank m \<and> mgr_wf m' \<and> has_chk (bank m') u \<and> has_sav (bank m') u"
  using mgr_wf_user [of m u] by (auto simp: next_user_def mgr_wf_def)

lemma mgr_query_Ok:
  "mgr_query u m = Ok q m' \<Longrightarrow> m' = m \<and> q = (chk (bank m) u, sav (bank m) u)"
  by (auto simp: mgr_query_def query_def split: if_splits)

lemma gen_savings_Ok:
  assumes "gen_savings m = Ok p m'" and "mgr_wf m"
  obtains u a where "p = [0, u, a]" "bank m' = bank m" "has_sav (bank m) u" "\<not> UINT64_MAX - sav (bank m) u < a"
proof -
  obtain u m1 q m2 a where 1: "next_user m = Ok u m1" "mgr_query u m1 = Ok q m2"
    "random_number_generator 0 ((UINT64_MAX - snd q) div 2) m2 = Ok a m'" "p = [0, u, a]"
    using assms(1) by (auto simp: gen_savings_def elim!: res_bind_OkE)
  note n = next_user_keeps [OF 1(1) assms(2)] and q = mgr_query_Ok [OF 1(2)]
  have "a \<le> (UINT64_MAX - sav (bank m) u) div 2"
    using rng_le [OF 1(3)] q n by simp
  also have "\<dots> \<le> UINT64_MAX - sav (bank m) u"
    by (simp add: word_le_nat_alt unat_div)
  finally show thesis
    using 1(4) n q rng_keeps [OF 1(3)] by (intro that) (auto simp: not_less)
qed

lemma gen_deposit_Ok:
  assumes "gen_deposit m = Ok p m'" and "mgr_wf m"
  obtains u a where "p = [1, u, a]" "bank m' = bank m" "has_chk (bank m) u" "\<not> UINT64_MAX - chk (bank m) u < a"
proof -
  obtain u m1 q m2 a where 1: "next_user m = Ok u m1" "mgr_query u m1 = Ok q m2"
    "random_number_generator 0 ((UINT64_MAX - fst q) div 2) m2 = Ok a m'" "p = [1, u, a]"
    using assms(1) by (auto simp: gen_deposit_def elim!: res_bind_OkE)
  note n = next_user_keeps [OF 1(1) assms(2)] and q = mgr_query_Ok [OF 1(2)]
  have "a \<le> (UINT64_MAX - chk (bank m) u) div 2"
    using rng_le [OF 1(3)] q n by simp
  also have "\<dots> \<le> UINT64_MAX - chk (bank m) u"
    by (simp add: word_le_nat_alt unat_div)
  finally show thesis
    using 1(4) n q rng_keeps [OF 1(3)] by (intro that) (auto simp: not_less)
qed

lemma gen_check_Ok:
  assumes "gen_check m = Ok p m'" and "mgr_wf m"
  obtains u a where "p = [2, u, a]" "bank m' = bank m" "has_chk (bank m) u" "a \<le> chk (bank m) u"
proof -
  obtain u m1 q m2 a where 1: "next_user m = Ok u m1" "mgr_query u m1 = Ok q m2"
    "random_number_generator 0 (fst q) m2 = Ok a m'" "p = [2, u, a]"
    using assms(1) by (auto simp: gen_check_def elim!: res_bind_OkE)
  note n = next_user_keeps [OF 1(1) assms(2)] and q = mgr_query_Ok [OF 1(2)]
  show thesis
    using 1(4) n q rng_keeps [OF 1(3)] rng_le [OF 1(3)] by (intro that) auto
qed

lemma gen_payment_Ok:
  assumes "gen_payment m = Ok p m'" and "mgr_wf m"
  obtains u v a where "p = [3, u, v, a]" "bank m' = bank m" "has_chk (bank m) u" "has_chk (bank m) v"
    "a \<le> chk (bank m) u" "\<not> UINT64_MAX - chk (bank m) v < a"
proof -
  obtain u m1 v m2 q m3 r m4 a where 1: "next_user m = Ok u m1" "next_user m1 = Ok v m2"
    "mgr_query u m2 = Ok q m3" "mgr_query v m3 = Ok r m4"
    "random_number_generator 0 (min (fst q) (UINT64_MAX - fst r)) m4 = Ok a m'" "p = [3, u, v, a]"
    using assms(1) by (auto simp: gen_payment_def elim!: res_bind_OkE)
  note n = next_user_keeps [OF 1(1) assms(2)]
  note n2 = next_user_keeps [OF 1(2)] and q = mgr_query_Ok [OF 1(3)] mgr_query_Ok [OF 1(4)]
  show thesis
    using 1(6) n n2 q rng_keeps [OF 1(5)] rng_le [OF 1(5)] by (intro that) (auto simp: not_less)
qed

lemma gen_user_Ok:
  assumes "res_bind (next_user m) (\<lambda>u m. Ok [t, u] m) = Ok p m'" and "mgr_wf m"
  obtains u where "p = [t, u]" "bank m' = bank m" "has_chk (bank m) u" "has_sav (bank m) u"
proof -
  obtain u m1 where 1: "next_user m = Ok u m1" "p = [t, u]" "m' = m1"
    using assms(1) by (auto elim!: res_bind_OkE)
  then show thesis
    using next_user_keeps [OF 1(1) assms(2)] by (intro that) auto
qed

lemma small_type:
  assumes "\<not> 6 < (t :: u64)"
  shows "t = 0 \<or> t = 1 \<or> t = 2 \<or> t = 3 \<or> t = 4 \<or> t = 5 \<or> t = 6"
proof -
  have "unat t \<in> {0, 1, 2, 3, 4, 5, 6}"
    using assms by (auto simp: word_less_nat_alt)
  then show ?thesis
    by (auto simp: word_unat_eq_iff)
qed



subsection \<open>The search for a block of users\<close>

lemma find_start_Some:
  "\<not> n < us j + k \<Longrightarrow> i \<le> j \<Longrightarrow> \<exists>r. find_start us i k n = Some r"
proof (induction "j - i" arbitrary: i)
  case 0
  then show ?case by (simp add: find_start.simps [of us i])
next
  case (Suc d)
  then have "\<exists>r. find_start us (i + 1) k n = Some r"
    by (intro Suc.hyps(1)) simp_all
  then show ?case
    by (cases "n < us i + k") (simp_all add: find_start.simps [of us i])
qed

lemma find_start_fits:
  assumes "find_start us i k n = Some r"
  shows "\<not> n < fst r + k \<and> i < snd r \<and> fst r = us (snd r - 1)"
proof (induction us i k n r rule: find_start.raw_induct)
  case (1 fs us i k n r)
  show ?case
  proof (cases "n < us i + k")
    case True
    then have "fs us (i + 1) k n = Some r"
      using 1(2) by simp
    then have "\<not> n < fst r + k \<and> i + 1 < snd r \<and> fst r = us (snd r - 1)"
      by (rule 1(1))
    then show ?thesis by auto
  next
    case False
    then show ?thesis using 1(2) by auto
  qed
qed (rule assms)

text \<open>
  The loop that searches for a block of users returns exactly when some later draw \<open>us j\<close> fits,
  that is \<open>us j + k\<close> is at most the number of users.
\<close>

theorem find_start_returns_iff:
  "(\<exists>r. find_start us i k n = Some r) \<longleftrightarrow> (\<exists>j \<ge> i. \<not> n < us j + k)"
proof
  assume "\<exists>r. find_start us i k n = Some r"
  then obtain u l where r: "find_start us i k n = Some (u, l)"
    by auto
  from find_start_fits [OF r] show "\<exists>j \<ge> i. \<not> n < us j + k"
    by (intro exI [of _ "l - 1"]) auto
next
  assume "\<exists>j \<ge> i. \<not> n < us j + k"
  then show "\<exists>r. find_start us i k n = Some r"
    using find_start_Some [of n us _ k i] by blast
qed

text \<open>With fewer than three users no block fits.\<close>

lemma find_start_None:
  assumes "\<And>j. us j < n" and "n < 3" and "3 \<le> k" and "k \<le> 10"
  shows "find_start us i k n = None"
proof (cases "find_start us i k n")
  case (Some r)
  have "us (snd r - 1) < n"
    by (rule assms(1))
  moreover have "\<not> n < us (snd r - 1) + k"
    using find_start_fits [OF Some] by auto
  ultimately show ?thesis
    using assms(2-4) by (simp add: word_less_nat_alt word_le_nat_alt unat_word_ariths)
qed

text \<open>
  The generator of split transactions never returns on a bank of fewer than three users: the
  party has at least three members, and no draw leaves room for them.
\<close>

theorem gen_split_diverges:
  assumes "mgr_wf m" and "mgr_n_users m < 3"
  shows "gen_split m = None"
proof -
  have Ok: "\<exists>r m'. random_number_generator lo hi m = Ok r m' \<and> users m' = users m \<and> mgr_n_users m' = mgr_n_users m"
    if "hi - lo + 1 \<noteq> 0" for lo hi m
    using that by (simp add: random_number_generator_def Let_def)
  have u: "\<And>j. users m j < mgr_n_users m"
    using assms(1) by (simp add: mgr_wf_def)
  obtain k m1 where 1: "random_number_generator 3 10 m = Ok k m1" "users m1 = users m" "mgr_n_users m1 = mgr_n_users m"
    using Ok [of 10 3 m] by auto
  have k: "3 \<le> k" "k \<le> 10"
    using rng_le [OF 1(1)] by auto
  then have "k div 2 - 1 + 1 \<noteq> 0"
    by (auto simp: word_unat_eq_iff unat_div word_le_nat_alt)
  then obtain x m2 where 2: "random_number_generator 1 (k div 2) m1 = Ok x m2" "users m2 = users m" "mgr_n_users m2 = mgr_n_users m"
    using Ok [of "k div 2" 1 m1] 1(2,3) by auto
  show ?thesis
    using 1(1) 2 find_start_None [OF u assms(2) k] by (simp add: gen_split_def)
qed

theorem gen_split_diverges_witness:
  "gen_split (mgr_new (\<lambda>i. 700) 2 (\<lambda>i. 50) (\<lambda>i. 1) (\<lambda>i. 2) (\<lambda>i. True)) = None"
  by (rule gen_split_diverges [OF mgr_wf_new]) (simp_all add: mgr_new_def)

subsection \<open>Splits\<close>

lemma check_payors_has: "check_payors ps b = Inr True \<Longrightarrow> \<forall>p \<in> set ps. has_chk b (fst p)"
  by (induction ps b rule: check_payors.induct) (auto split: if_splits)

lemma check_party_has: "check_party x us b = Inr True \<Longrightarrow> u \<in> set us \<Longrightarrow> has_chk b u"
  by (induction x us b rule: check_party.induct) (auto split: if_splits)

lemma credit_payors:
  "\<forall>p \<in> set ps. has_chk b (fst p) \<Longrightarrow>
   let b' = fold (\<lambda>(u, amount) b. set_chk u (chk b u + amount) b) ps b in
   has_chk b' = has_chk b \<and> saving_accounts b' = saving_accounts b \<and>
   (\<forall>w. has_chk b w \<longrightarrow> chk b' w = chk b w + sum_list (map snd (filter (\<lambda>p. fst p = w) ps)))"
proof (induction ps arbitrary: b)
  case (Cons p ps)
  then show ?case
    using Cons.IH [of "set_chk (fst p) (chk b (fst p) + snd p) b"]
    by (auto simp: Let_def case_prod_beta chk_set)
qed simp

lemma debit_party:
  fixes share :: u64
  shows "\<forall>u \<in> set us. has_chk b u \<Longrightarrow>
   let b' = fold (\<lambda>u b. set_chk u (chk b u - share) b) us b in
   saving_accounts b' = saving_accounts b \<and>
   (\<forall>w. has_chk b w \<longrightarrow> chk b' w = chk b w - of_nat (count_list us w) * share)"
proof (induction us arbitrary: b)
  case (Cons u us)
  then show ?case
    using Cons.IH [of "set_chk u (chk b u - share) b"]
    by (auto simp: Let_def chk_set algebra_simps)
qed simp

text \<open>
  C16: a split that passes its checks credits every payor with what it was to pay and debits every
  member of the party by the share, in 64-bit arithmetic: the opposite of what the checks before
  it guard, so that a party member without funds ends with a balance that has wrapped around.
\<close>

theorem split_effect:
  assumes "party \<noteq> []" and "check_payors payors b = Inr True"
    and "check_party (per_head payors party) party b = Inr True"
  shows "\<exists>b'. transaction_split payors party b = Ok () b' \<and> saving_accounts b' = saving_accounts b \<and>
    (\<forall>w. has_chk b w \<longrightarrow> chk b' w = chk b w + sum_list (map snd (filter (\<lambda>p. fst p = w) payors))
       - of_nat (count_list party w) * per_head payors party)"
proof -
  let ?b1 = "fold (\<lambda>(u, amount) b. set_chk u (chk b u + amount) b) payors b"
  have credit: "has_chk ?b1 = has_chk b" "saving_accounts ?b1 = saving_accounts b"
    "\<forall>w. has_chk b w \<longrightarrow> chk ?b1 w = chk b w + sum_list (map snd (filter (\<lambda>p. fst p = w) payors))"
    using credit_payors [OF check_payors_has [OF assms(2)]] by (simp_all add: Let_def)
  then have "\<forall>u \<in> set party. has_chk ?b1 u"
    using check_party_has [OF assms(3)] by simp
  with debit_party [of party ?b1 "per_head payors party"] credit show ?thesis
    using assms by (auto simp: transaction_split_def Let_def)
qed

theorem split_effect_witness:
  "\<exists>b'. transaction_split [(0, 5)] [1] \<lparr>checking_accounts = [5, 0], saving_accounts = [0, 0]\<rparr> = Ok () b' \<and>
    chk b' 0 = 10 \<and> chk b' 1 = 2 ^ 64 - 5"
proof -
  let ?b = "\<lparr>checking_accounts = [5, 0], saving_accounts = [0, 0]\<rparr>"
  have share: "per_head [(0, 5)] [1 :: u64] = 5"
    by (simp add: per_head_def amount_payed_def)
  have has: "has_chk ?b 0" "has_chk ?b 1"
    by (simp_all add: has_chk_def)
  obtain b' where *: "transaction_split [(0, 5)] [1] ?b = Ok () b'"
    "\<forall>w. has_chk ?b w \<longrightarrow> chk b' w = chk ?b w + sum_list (map snd (filter (\<lambda>p. fst p = w) [(0, 5)]))
       - of_nat (count_list [1] w) * per_head [(0, 5)] [1]"
    using split_effect [of "[1]" "[(0, 5)]" ?b] has by (auto simp: share)
  then show ?thesis
    using has by (auto simp: share)
qed

end
