(* ===== verification/Messages.thy ===== *)
theory Messages
  imports Core_Example Core_Steps
begin

text \<open>
  The messages of \<open>flashorder/include/hotstuff/consensus.h\<close>, \<open>hotstuff.h\<close> and \<open>client.h\<close> with the
  constructors and parsers of \<open>flashorder/src/hotstuff.cpp\<close>: proposals, votes, local orders, block
  requests and responses, the decision sent to a client, and the client's command.
\<close>

subsection \<open>Proposals\<close>

definition proposal_serialize :: "heap \<Rightarrow> proposal \<Rightarrow> data_stream \<Rightarrow> (unit, data_stream) res" where
  "proposal_serialize hp p s = block_serialize (hp (prop_blk p)) (ds_put (prop_proposer p) s)"

text \<open>Reading a block puts it into the storage of the core that reads.\<close>

definition blk_unserialize :: "(bytes \<Rightarrow> sig option) \<Rightarrow> env \<Rightarrow> core \<Rightarrow> data_stream \<Rightarrow> (ref \<times> core, data_stream) res" where
  "blk_unserialize psig e c s = res_bind (block_unserialize psig (e_sha e) s) (\<lambda>b s. Ok (fetch_blk b c) s)"

definition proposal_unserialize :: "(bytes \<Rightarrow> sig option) \<Rightarrow> env \<Rightarrow> core \<Rightarrow> data_stream
    \<Rightarrow> (proposal \<times> core, data_stream) res" where
  "proposal_unserialize psig e c s =
     res_bind (ds_get s) (\<lambda>rid s. res_bind (blk_unserialize psig e c s) (\<lambda>(r, c) s.
       Ok (\<lparr>prop_proposer = rid, prop_blk = r\<rparr>, c) s))"

definition msg_propose :: "heap \<Rightarrow> proposal \<Rightarrow> (unit, data_stream) res" where
  "msg_propose hp p = proposal_serialize hp p ds_new"

subsection \<open>Votes\<close>

definition vote_serialize :: "vote \<Rightarrow> data_stream \<Rightarrow> data_stream" where
  "vote_serialize v s = pc_serialize (vote_cert v) (uint256_serialize (vote_blk_hash v) (ds_put (voter v) s))"

definition vote_unserialize :: "(bytes \<Rightarrow> sig option) \<Rightarrow> data_stream \<Rightarrow> (vote, data_stream) res" where
  "vote_unserialize psig s =
     res_bind (ds_get s) (\<lambda>rid s. res_bind (uint256_unserialize s) (\<lambda>h s.
     res_bind (pc_unserialize psig s) (\<lambda>pc s. Ok \<lparr>voter = rid, vote_blk_hash = h, vote_cert = pc\<rparr> s)))"

definition vote_verify :: "(uint256 \<Rightarrow> pubkey \<Rightarrow> sig \<Rightarrow> bool) \<Rightarrow> replica_config \<Rightarrow> vote \<Rightarrow> err + bool" where
  "vote_verify vrf cf v =
     map_sum id (\<lambda>pk. pc_verify vrf pk (vote_cert v) \<and> pc_obj_hash (vote_cert v) = vote_blk_hash v)
       (get_pubkey cf (voter v))"

definition msg_vote :: "vote \<Rightarrow> data_stream" where
  "msg_vote v = vote_serialize v ds_new"

subsection \<open>Local orders\<close>

definition local_order_serialize :: "local_order \<Rightarrow> data_stream \<Rightarrow> data_stream" where
  "local_order_serialize lo s =
     put_vec ds_put (lo_timestamps lo) (put_vec uint256_serialize (ordered_hashes lo) (ds_put (initiator lo) s))"

definition local_order_unserialize :: "data_stream \<Rightarrow> (local_order, data_stream) res" where
  "local_order_unserialize s =
     res_bind (ds_get s) (\<lambda>rid s. res_bind (get_vec uint256_unserialize s) (\<lambda>hs s.
     res_bind (get_vec ds_get s) (\<lambda>ts s. Ok \<lparr>initiator = rid, ordered_hashes = hs, lo_timestamps = ts\<rparr> s)))"

definition msg_local_order :: "local_order \<Rightarrow> data_stream" where
  "msg_local_order lo = local_order_serialize lo ds_new"

subsection \<open>Decisions\<close>

definition finality_serialize :: "finality \<Rightarrow> data_stream \<Rightarrow> data_stream" where
  "finality_serialize f s =
     (let s = uint256_serialize (cmd_hash f) (ds_put (cmd_height f) (ds_put (cmd_idx f)
                (ds_put (fin_decision f) (ds_put (fin_rid f) s))))
      in if fin_decision f = 1 then uint256_serialize (fin_blk_hash f) s else s)"

text \<open>The block hash of the object \<open>f0\<close> read into stays when the decision is not 1.\<close>

definition finality_unserialize :: "finality \<Rightarrow> data_stream \<Rightarrow> (finality, data_stream) res" where
  "finality_unserialize f0 s =
     res_bind (ds_get s) (\<lambda>rid s. res_bind (ds_get s) (\<lambda>d s.
     res_bind (ds_get s) (\<lambda>idx s. res_bind (ds_get s) (\<lambda>ht s.
     res_bind (uint256_unserialize s) (\<lambda>h s.
     res_bind (if d = 1 then uint256_unserialize s else Ok (fin_blk_hash f0) s) (\<lambda>bh s.
       Ok \<lparr>fin_rid = rid, fin_decision = d, cmd_idx = idx, cmd_height = ht, cmd_hash = h, fin_blk_hash = bh\<rparr> s))))))"

text \<open>\<open>MsgRespCmd\<close>; \<open>payload\<close> is the filler of the build option \<open>HOTSTUFF_CMD_RESPSIZE\<close>, which the reader ignores.\<close>

definition msg_resp_cmd :: "bytes \<Rightarrow> finality \<Rightarrow> data_stream" where
  "msg_resp_cmd payload f = ds_put_data payload (finality_serialize f ds_new)"

definition msg_resp_cmd_parse :: "finality \<Rightarrow> data_stream \<Rightarrow> (finality, data_stream) res" where
  "msg_resp_cmd_parse f0 s = finality_unserialize f0 s"

subsection \<open>Requests for blocks and responses\<close>

definition msg_req_block :: "uint256 list \<Rightarrow> data_stream" where
  "msg_req_block hs = put_vec uint256_serialize hs ds_new"

definition msg_req_block_parse :: "data_stream \<Rightarrow> (uint256 list, data_stream) res" where
  "msg_req_block_parse s = get_vec uint256_unserialize s"

fun blocks_serialize :: "block list \<Rightarrow> data_stream \<Rightarrow> (unit, data_stream) res" where
  "blocks_serialize [] s = Ok () s"
| "blocks_serialize (b # bs) s = res_bind (block_serialize b s) (\<lambda>u s. blocks_serialize bs s)"

definition msg_resp_block :: "heap \<Rightarrow> ref list \<Rightarrow> (unit, data_stream) res" where
  "msg_resp_block hp rs = blocks_serialize (map hp rs) (ds_put (of_nat (length rs) :: u32) ds_new)"

text \<open>
  The parse of a response. A block that has been read stays in the storage when a later one fails,
  so the core is part of the state that an exception leaves.
\<close>

fun blocks_unserialize :: "(bytes \<Rightarrow> sig option) \<Rightarrow> env \<Rightarrow> nat \<Rightarrow> core \<times> data_stream
    \<Rightarrow> (ref list, core \<times> data_stream) res" where
  "blocks_unserialize psig e 0 (c, s) = Ok [] (c, s)"
| "blocks_unserialize psig e (Suc n) (c, s) =
     (case block_unserialize psig (e_sha e) s of
        Exc er s \<Rightarrow> Exc er (c, s)
      | Ok b s \<Rightarrow>
          let (r, c) = fetch_blk b c
          in res_bind (blocks_unserialize psig e n (c, s)) (\<lambda>rs cs. Ok (r # rs) cs))"

definition msg_resp_block_parse :: "(bytes \<Rightarrow> sig option) \<Rightarrow> env \<Rightarrow> core \<Rightarrow> data_stream
    \<Rightarrow> (ref list, core \<times> data_stream) res" where
  "msg_resp_block_parse psig e c s =
     (case ds_get s of
        Exc er s \<Rightarrow> Exc er (c, s)
      | Ok n s \<Rightarrow> blocks_unserialize psig e (unat (n :: u32)) (c, s))"

subsection \<open>The client's command\<close>

record command_dummy =
  cid :: u32
  cmd_n :: u32
  cmd_payload :: "u64 list"
  cd_hash :: uint256

text \<open>\<open>put_all\<close> behind a 64-bit count (\<open>size_t\<close>), unlike the vectors of the protocol.\<close>

definition command_serialize :: "command_dummy \<Rightarrow> data_stream \<Rightarrow> data_stream" where
  "command_serialize cmd s =
     put_all ds_put (cmd_payload cmd) (ds_put (of_nat (length (cmd_payload cmd)) :: u64)
       (ds_put (cmd_n cmd) (ds_put (cid cmd) s)))"

definition command_get_hash :: "(bytes \<Rightarrow> uint256) \<Rightarrow> command_dummy \<Rightarrow> uint256" where
  "command_get_hash sha cmd = sha (ds_bytes (command_serialize cmd ds_new))"

definition command_new :: "(bytes \<Rightarrow> uint256) \<Rightarrow> u32 \<Rightarrow> u32 \<Rightarrow> u64 list \<Rightarrow> command_dummy" where
  "command_new sha i n p =
     (let cmd = \<lparr>cid = i, cmd_n = n, cmd_payload = p, cd_hash = 0\<rparr> in cmd\<lparr>cd_hash := command_get_hash sha cmd\<rparr>)"

text \<open>\<open>alloc n\<close>: whether \<open>new uint64_t[n]\<close> succeeds on this host.\<close>

definition command_unserialize :: "(u64 \<Rightarrow> bool) \<Rightarrow> (bytes \<Rightarrow> uint256) \<Rightarrow> data_stream
    \<Rightarrow> (command_dummy, data_stream) res" where
  "command_unserialize alloc sha s =
     res_bind (ds_get s) (\<lambda>i s. res_bind (ds_get s) (\<lambda>n s. res_bind (ds_get s) (\<lambda>k s.
       if \<not> alloc k then Exc (Runtime_Error ''bad_alloc'') s
       else res_bind (get_n ds_get (unat k) s) (\<lambda>p s. Ok (command_new sha i n p) s))))"

definition msg_req_cmd :: "command_dummy \<Rightarrow> data_stream" where
  "msg_req_cmd cmd = command_serialize cmd ds_new"

subsection \<open>The encodings\<close>

definition vote_enc :: "vote \<Rightarrow> bytes" where
  "vote_enc v = le_bytes 2 (voter v) @ uint256_enc (vote_blk_hash v) @ uint256_enc (pc_obj_hash (vote_cert v)) @
     (case vote_cert v of PartCertSecp256k1 h sg \<Rightarrow> sg | _ \<Rightarrow> [])"

definition vote_ok :: "(bytes \<Rightarrow> sig option) \<Rightarrow> vote \<Rightarrow> bool" where
  "vote_ok psig v \<longleftrightarrow> (case vote_cert v of PartCertSecp256k1 h sg \<Rightarrow> sig_ok psig sg | _ \<Rightarrow> False)"

interpretation votec: codec vote_serialize "vote_unserialize psig" vote_enc "vote_ok psig" for psig
proof unfold_locales
  fix v s assume "vote_ok psig v"
  then show "vote_serialize v s = ds_put_data (vote_enc v) s"
    by (simp add: vote_serialize_def vote_enc_def vote_ok_def pcc.put_enc u256c.put_enc u16c.put_enc ds_put_data_append)
next
  fix s v post
  assume wf: "ds_wf s" and ok: "vote_ok psig v" and bs: "ds_bytes s = vote_enc v @ post"
  show "vote_unserialize psig s = Ok v (ds_skip (length (vote_enc v)) s)"
    unfolding vote_unserialize_def
    apply (rule u16c.get_bind [OF wf TrueI])
     apply (simp add: bs vote_enc_def)
    apply (rule u256c.get_bind [OF _ TrueI], assumption)
     apply simp
    apply (rule pcc.get_bind [where psig = psig and x = "vote_cert v" and post = post], assumption)
    using ok by (simp_all add: vote_ok_def vote_enc_def)
qed

definition local_order_enc :: "local_order \<Rightarrow> bytes" where
  "local_order_enc lo = le_bytes 2 (initiator lo) @ vec_enc uint256_enc (ordered_hashes lo) @
     vec_enc (le_bytes 8) (lo_timestamps lo)"

definition local_order_ok :: "local_order \<Rightarrow> bool" where
  "local_order_ok lo \<longleftrightarrow> length (ordered_hashes lo) < 2 ^ 32 \<and> length (lo_timestamps lo) < 2 ^ 32"

interpretation loc: codec local_order_serialize local_order_unserialize local_order_enc local_order_ok
proof unfold_locales
  fix lo s assume "local_order_ok lo"
  then show "local_order_serialize lo s = ds_put_data (local_order_enc lo) s"
    by (simp add: local_order_serialize_def local_order_enc_def local_order_ok_def vec_okI
        u256v.put_enc u64v.put_enc u16c.put_enc ds_put_data_append)
next
  fix s lo post
  assume wf: "ds_wf s" and ok: "local_order_ok lo" and bs: "ds_bytes s = local_order_enc lo @ post"
  have len: "vec_ok (\<lambda>_. True) (ordered_hashes lo)" "vec_ok (\<lambda>_. True) (lo_timestamps lo)"
    using ok by (auto simp: local_order_ok_def intro: vec_okI)
  show "local_order_unserialize s = Ok lo (ds_skip (length (local_order_enc lo)) s)"
    unfolding local_order_unserialize_def
    apply (rule u16c.get_bind [OF wf TrueI])
     apply (simp add: bs local_order_enc_def)
    apply (rule u256v.get_bind [OF _ len(1)], assumption)
     apply simp
    apply (rule u64v.get_bind [OF _ len(2)], assumption)
    by (simp_all add: local_order_enc_def)
qed

definition finality_enc :: "finality \<Rightarrow> bytes" where
  "finality_enc f = le_bytes 2 (fin_rid f) @ le_bytes 1 (fin_decision f) @ le_bytes 4 (cmd_idx f) @
     le_bytes 4 (cmd_height f) @ uint256_enc (cmd_hash f) @ (if fin_decision f = 1 then uint256_enc (fin_blk_hash f) else [])"

text \<open>A decision other than 1 does not carry its block hash.\<close>

definition finality_ok :: "finality \<Rightarrow> finality \<Rightarrow> bool" where
  "finality_ok f0 f \<longleftrightarrow> fin_decision f = 1 \<or> fin_blk_hash f = fin_blk_hash f0"

interpretation finc: codec finality_serialize "finality_unserialize f0" finality_enc "finality_ok f0" for f0
proof unfold_locales
  show "finality_serialize f s = ds_put_data (finality_enc f) s" for f s
    by (simp add: finality_serialize_def finality_enc_def u256c.put_enc u32c.put_enc u16c.put_enc u8c.put_enc
        ds_put_data_append Let_def)
next
  fix s f post
  assume wf: "ds_wf s" and ok: "finality_ok f0 f" and bs: "ds_bytes s = finality_enc f @ post"
  have tail: "(if fin_decision f = 1 then uint256_unserialize t else Ok (fin_blk_hash f0) t)
      = Ok (fin_blk_hash f) (ds_skip (length (if fin_decision f = 1 then uint256_enc (fin_blk_hash f) else [])) t)"
    if "ds_wf t" "ds_bytes t = (if fin_decision f = 1 then uint256_enc (fin_blk_hash f) else []) @ post" for t
    using that u256c.get_enc [OF that(1) TrueI] ok by (auto simp: finality_ok_def)
  show "finality_unserialize f0 s = Ok f (ds_skip (length (finality_enc f)) s)"
    unfolding finality_unserialize_def
    apply (rule u16c.get_bind [OF wf TrueI])
     apply (simp add: bs finality_enc_def)
    apply (rule u8c.get_bind [OF _ TrueI], assumption)
     apply simp
    apply (rule u32c.get_bind [OF _ TrueI], assumption)
     apply simp
    apply (rule u32c.get_bind [OF _ TrueI], assumption)
     apply simp
    apply (rule u256c.get_bind [OF _ TrueI], assumption)
     apply simp
    by (simp add: tail finality_enc_def)
qed

definition command_enc :: "command_dummy \<Rightarrow> bytes" where
  "command_enc cmd = le_bytes 4 (cid cmd) @ le_bytes 4 (cmd_n cmd) @
     le_bytes 8 (of_nat (length (cmd_payload cmd)) :: u64) @ concat (map (le_bytes 8) (cmd_payload cmd))"

definition command_ok :: "(u64 \<Rightarrow> bool) \<Rightarrow> (bytes \<Rightarrow> uint256) \<Rightarrow> command_dummy \<Rightarrow> bool" where
  "command_ok alloc sha cmd \<longleftrightarrow> length (cmd_payload cmd) < 2 ^ 64 \<and> alloc (of_nat (length (cmd_payload cmd))) \<and>
     cd_hash cmd = sha (command_enc cmd)"

lemma command_serialize_enc: "command_serialize cmd s = ds_put_data (command_enc cmd) s"
  by (simp add: command_serialize_def command_enc_def u64c.put_all_enc list_all_iff u64c.put_enc u32c.put_enc
      ds_put_data_append)

lemma command_new_enc:
  "command_new sha i n p = \<lparr>cid = i, cmd_n = n, cmd_payload = p,
     cd_hash = sha (command_enc \<lparr>cid = i, cmd_n = n, cmd_payload = p, cd_hash = 0\<rparr>)\<rparr>"
  by (simp add: command_new_def command_get_hash_def command_serialize_enc Let_def)

interpretation cmdc: codec command_serialize "command_unserialize alloc sha" command_enc "command_ok alloc sha" for alloc sha
proof unfold_locales
  show "command_serialize cmd s = ds_put_data (command_enc cmd) s" for cmd s
    by (rule command_serialize_enc)
next
  fix s cmd post
  assume wf: "ds_wf s" and ok: "command_ok alloc sha cmd" and bs: "ds_bytes s = command_enc cmd @ post"
  let ?p = "cmd_payload cmd"
  have n: "unat (of_nat (length ?p) :: u64) = length ?p"
    using ok by (simp add: command_ok_def unat_of_nat take_bit_nat_eq_self)
  have tail: "get_n ds_get (length ?p) t = Ok ?p (ds_skip (length (concat (map (le_bytes 8) ?p))) t)"
    if "ds_wf t" "ds_bytes t = concat (map (le_bytes 8) ?p) @ post" for t
    using that by (intro u64c.get_n_enc) (simp_all add: list_all_iff)
  show "command_unserialize alloc sha s = Ok cmd (ds_skip (length (command_enc cmd)) s)"
    unfolding command_unserialize_def
    apply (rule u32c.get_bind [OF wf TrueI])
     apply (simp add: bs command_enc_def)
    apply (rule u32c.get_bind [OF _ TrueI], assumption)
     apply simp
    apply (rule u64c.get_bind [OF _ TrueI], assumption)
     apply simp
    using ok by (simp add: n tail command_ok_def command_new_enc) (simp add: command_enc_def)
qed

text \<open>
  C17: votes, local orders, decisions and commands read back as they were sent, with nothing left
  over; the reader of a decision keeps its own block hash unless the decision is 1.
\<close>

theorem message_round_trips:
  assumes "vote_ok psig v" and "local_order_ok lo" and "finality_ok f0 f" and "command_ok alloc sha cmd"
  shows "(\<exists>t. vote_unserialize psig (msg_vote v) = Ok v t \<and> ds_bytes t = []) \<and>
    (\<exists>t. local_order_unserialize (msg_local_order lo) = Ok lo t \<and> ds_bytes t = []) \<and>
    (\<exists>t. msg_resp_cmd_parse f0 (msg_resp_cmd [] f) = Ok f t \<and> ds_bytes t = []) \<and>
    (\<exists>t. command_unserialize alloc sha (msg_req_cmd cmd) = Ok cmd t \<and> ds_bytes t = [])"
  using votec.round_trip [OF assms(1) ds_wf_new] loc.round_trip [OF assms(2) ds_wf_new]
    finc.round_trip [OF assms(3) ds_wf_new] cmdc.round_trip [OF assms(4) ds_wf_new]
  by (simp_all add: msg_vote_def msg_local_order_def msg_resp_cmd_def msg_resp_cmd_parse_def msg_req_cmd_def)

theorem message_round_trips_witness:
  "\<exists>t. command_unserialize (\<lambda>n. n < 100) (\<lambda>bs. h256 (of_nat (length bs)))
     (msg_req_cmd (command_new (\<lambda>bs. h256 (of_nat (length bs))) 1 2 [3, 4]))
     = Ok (command_new (\<lambda>bs. h256 (of_nat (length bs))) 1 2 [3, 4]) t \<and> ds_bytes t = []"
proof -
  let ?v = "\<lparr>voter = 1, vote_blk_hash = h256 7, vote_cert = PartCertSecp256k1 (h256 7) (replicate 64 9)\<rparr>"
  let ?lo = "\<lparr>initiator = 2, ordered_hashes = [h256 5], lo_timestamps = [100]\<rparr>"
  let ?f0 = "\<lparr>fin_rid = 0, fin_decision = 0, cmd_idx = 0, cmd_height = 0, cmd_hash = 0, fin_blk_hash = 0\<rparr>"
  let ?f = "\<lparr>fin_rid = 1, fin_decision = 1, cmd_idx = 4, cmd_height = 3, cmd_hash = h256 5, fin_blk_hash = h256 6\<rparr>"
  have "vote_ok Some ?v" "local_order_ok ?lo" "finality_ok ?f0 ?f"
    "command_ok (\<lambda>n. n < 100) (\<lambda>bs. h256 (of_nat (length bs))) (command_new (\<lambda>bs. h256 (of_nat (length bs))) 1 2 [3, 4])"
    by (simp_all add: vote_ok_def sig_ok_def local_order_ok_def finality_ok_def command_ok_def command_new_enc command_enc_def)
  from message_round_trips [OF this] show ?thesis by blast
qed

subsection \<open>Blocks on the wire\<close>

text \<open>The block that the reader makes of the bytes of \<open>b\<close>.\<close>

definition parsed :: "(bytes \<Rightarrow> uint256) \<Rightarrow> block \<Rightarrow> block" where
  "parsed sha b = block_empty\<lparr>parent_hashes := parent_hashes b, blk_cmds := blk_cmds b, blk_qc := blk_qc b,
     extra := extra b, blk_hash := sha (block_enc b)\<rparr>"

definition cache_ok :: "core \<Rightarrow> bool" where
  "cache_ok c \<longleftrightarrow> (\<forall>h r. find_blk h (storage c) = Some r \<longrightarrow> r < next_ref c \<and> blk_hash (blk c r) = h)"

text \<open>\<open>c'\<close> knows the blocks that \<open>c\<close> knows, at the same addresses.\<close>

definition knows_more :: "core \<Rightarrow> core \<Rightarrow> bool" where
  "knows_more c c' \<longleftrightarrow> (\<forall>h r. find_blk h (storage c) = Some r \<longrightarrow> find_blk h (storage c') = Some r)"

lemma knows_more_refl [simp]: "knows_more c c"
  by (simp add: knows_more_def)

lemma fetch_blk_known:
  assumes "cache_ok c" and "fetch_blk b c = (r, c')"
  shows "cache_ok c'" and "knows_more c c'" and "find_blk (blk_hash b) (storage c') = Some r"
proof -
  have "cache_ok c' \<and> knows_more c c' \<and> find_blk (blk_hash b) (storage c') = Some r"
    using assms(2)
  proof (cases rule: fetch_blk_cases)
    case cached
    with assms(1) show ?thesis by (simp add: find_blk_def)
  next
    case new
    have "x < next_ref c" "blk_hash (blk c x) = h" if "map_of (blk_cache (storage c)) h = Some x" for h x
      using that assms(1) by (simp_all add: cache_ok_def find_blk_def)
    with new(1) show ?thesis
      by (fastforce simp: new(2,3) cache_ok_def knows_more_def find_blk_def map_add_def
          split: option.splits if_splits)
  qed
  then show "cache_ok c'" and "knows_more c c'" and "find_blk (blk_hash b) (storage c') = Some r"
    by blast+
qed

lemma blocks_serialize_ok:
  "\<forall>b \<in> set bs. block_ok psig b \<Longrightarrow> blocks_serialize bs s = Ok () (ds_put_data (concat (map block_enc bs)) s)"
  by (induction bs arbitrary: s) (auto simp: block_serialize_ok ds_put_data_append)

lemma blocks_unserialize_ok:
  assumes "\<forall>b \<in> set bs. block_ok psig b" and "ds_wf s" and "ds_bytes s = concat (map block_enc bs) @ post" and "cache_ok c"
  shows "\<exists>rs c'. blocks_unserialize psig e (length bs) (c, s)
      = Ok rs (c', ds_skip (length (concat (map block_enc bs))) s) \<and> cache_ok c' \<and> knows_more c c' \<and>
    map (\<lambda>b. find_blk (e_sha e (block_enc b)) (storage c')) bs = map Some rs"
  using assms
proof (induction bs arbitrary: s c)
  case (Cons b bs)
  let ?t = "ds_skip (length (block_enc b)) s"
  obtain r c1 where f: "fetch_blk (parsed (e_sha e) b) c = (r, c1)"
    by fastforce
  note known = fetch_blk_known [OF Cons.prems(4) f]
  have 1: "block_unserialize psig (e_sha e) s = Ok (parsed (e_sha e) b) ?t"
    unfolding parsed_def using Cons.prems by (intro block_unserialize_ok) simp_all
  have "ds_wf ?t" "ds_bytes ?t = concat (map block_enc bs) @ post"
    using Cons.prems by (auto intro: ds_wf_skip)
  then obtain rs c2 where 2: "blocks_unserialize psig e (length bs) (c1, ?t)
      = Ok rs (c2, ds_skip (length (concat (map block_enc bs))) ?t)" "cache_ok c2" "knows_more c1 c2"
    "map (\<lambda>b. find_blk (e_sha e (block_enc b)) (storage c2)) bs = map Some rs"
    using Cons.IH [of ?t c1] Cons.prems known(1) by auto
  have "find_blk (e_sha e (block_enc b)) (storage c2) = Some r" "knows_more c c2"
    using known(2,3) 2(3) by (simp_all add: knows_more_def parsed_def)
  then show ?case
    using 1 2 f by (intro exI [of _ "r # rs"] exI [of _ c2]) simp
qed simp

text \<open>
  A replica that parses a response has, for every block the sender put into it, the block
  stored under the hash of its bytes, and still knows every block it knew before.
\<close>

theorem response_stores_blocks:
  assumes "\<forall>r \<in> set rs. block_ok psig (hp r)" and "length rs < 2 ^ 32" and "cache_ok c"
  shows "\<exists>s rs' c' t. msg_resp_block hp rs = Ok () s \<and> msg_resp_block_parse psig e c s = Ok rs' (c', t) \<and>
    ds_bytes t = [] \<and> cache_ok c' \<and> knows_more c c' \<and>
    map (\<lambda>r. find_blk (e_sha e (block_enc (hp r))) (storage c')) rs = map Some rs'"
proof -
  let ?s = "ds_put_data (concat (map (block_enc \<circ> hp) rs)) (ds_put_data (le_bytes 4 (of_nat (length rs) :: u32)) ds_new)"
  have ok: "\<forall>b \<in> set (map hp rs). block_ok psig b"
    using assms(1) by simp
  have 1: "msg_resp_block hp rs = Ok () ?s"
    by (simp add: msg_resp_block_def u32c.put_enc blocks_serialize_ok [OF ok])
  have 2: "ds_get ?s = Ok (of_nat (length rs) :: u32) (ds_skip 4 ?s)"
    using u32c.get_enc [OF _ TrueI, of ?s "of_nat (length rs)"] by simp
  have "unat (of_nat (length rs) :: u32) = length rs"
    using assms(2) by (simp add: unat_of_nat take_bit_nat_eq_self)
  moreover have "ds_wf (ds_skip 4 ?s)"
    by (rule ds_wf_skip) simp_all
  ultimately show ?thesis
    using blocks_unserialize_ok [OF ok _ _ assms(3), of "ds_skip 4 ?s" "[]" e] 1 2
    by (auto simp: msg_resp_block_parse_def comp_def)
qed

theorem response_stores_blocks_witness:
  "\<exists>s r c' t. msg_resp_block (\<lambda>r. block_empty\<lparr>blk_cmds := [h256 3], blk_qc := Some (QuorumCertSecp256k1 example_qc)\<rparr>) [7] = Ok () s \<and>
    msg_resp_block_parse Some run_env run_start s = Ok [r] (c', t) \<and> ds_bytes t = [] \<and> knows_more run_start c'"
proof -
  let ?hp = "\<lambda>r. block_empty\<lparr>blk_cmds := [h256 3], blk_qc := Some (QuorumCertSecp256k1 example_qc)\<rparr>"
  have "cache_ok run_start"
    by (simp add: cache_ok_def find_blk_def run_start_simps)
  moreover have "\<forall>r \<in> set [7]. block_ok Some (?hp r)"
    by (simp add: block_ok_def block_empty_def example_qc_ok)
  ultimately obtain s rs' c' t where "msg_resp_block ?hp [7] = Ok () s"
    "msg_resp_block_parse Some run_env run_start s = Ok rs' (c', t)" "ds_bytes t = []" "knows_more run_start c'"
    "map (\<lambda>r. find_blk (e_sha run_env (block_enc (?hp r))) (storage c')) [7] = map Some rs'"
    using response_stores_blocks [of "[7]" Some ?hp run_start run_env] by auto
  then show ?thesis
    by (cases rs') auto
qed

end
