(* ===== verification/Depth_First.thy ===== *)
theory Depth_First
  imports Prelude "HOL-Library.AList"
begin

text \<open>
  Graphs as the code keeps them, an \<open>unordered_map\<close> from a vertex to the \<open>unordered_set\<close> of its
  successors, and the recursive depth-first search that several classes of \<open>themis/src/graph.cpp\<close>
  and \<open>rashnu/src/graph.cpp\<close> share. A table is the list of its entries in the order in which a loop
  over it finds them.
\<close>

type_synonym 'v graph = "('v \<times> 'v list) list"

text \<open>The children of a vertex; a vertex that is no key has none.\<close>

definition kids :: "'v graph \<Rightarrow> 'v \<Rightarrow> 'v list" where
  "kids g v = (case map_of g v of None \<Rightarrow> [] | Some vs \<Rightarrow> vs)"

definition edges :: "'v graph \<Rightarrow> ('v \<times> 'v) set" where
  "edges g = {(u, v). v \<in> set (kids g u)}"

lemma kids_dom: "v \<in> set (kids g u) \<Longrightarrow> u \<in> fst ` set g"
  by (cases "map_of g u") (auto simp: kids_def dest!: map_of_SomeD intro: rev_image_eqI)

lemma kids_not_key: "u \<notin> fst ` set g \<Longrightarrow> kids g u = []"
  using kids_dom [of _ g u] by (cases "kids g u") auto

lemma kids_Cons: "kids ((u, vs) # g) v = (if v = u then vs else kids g v)"
  by (simp add: kids_def)

lemma kids_mem:
  assumes "distinct (map fst g)" and "(u, vs) \<in> set g"
  shows "kids g u = vs"
  using assms by (simp add: kids_def)

lemma kids_iff:
  assumes "distinct (map fst g)"
  shows "v \<in> set (kids g u) \<longleftrightarrow> (\<exists>vs. (u, vs) \<in> set g \<and> v \<in> set vs)"
proof
  assume "v \<in> set (kids g u)"
  then show "\<exists>vs. (u, vs) \<in> set g \<and> v \<in> set vs"
    by (cases "map_of g u") (auto simp: kids_def dest: map_of_SomeD)
qed (auto simp: kids_mem [OF assms])

subsection \<open>The search\<close>

text \<open>
  The loop over the children \<open>cs\<close> of a vertex, with what it has visited. \<open>enter\<close> is the action of the
  recursive call before its loop, \<open>leave\<close> the one behind it.
\<close>

function dfs :: "'v graph \<Rightarrow> ('v \<Rightarrow> 'a \<Rightarrow> 'a) \<Rightarrow> ('v \<Rightarrow> 'a \<Rightarrow> 'a) \<Rightarrow> 'v list \<Rightarrow> 'v set \<times> 'a \<Rightarrow> 'v set \<times> 'a" where
  "dfs g enter leave [] s = s"
| "dfs g enter leave (c # cs) s =
     (if c \<in> fst s then dfs g enter leave cs s
      else let t = dfs g enter leave (kids g c) (insert c (fst s), enter c (snd s))
           in dfs g enter leave cs (fst t, leave c (snd t)))"
  by pat_completeness auto

lemma dfs_visited_mono: "dfs_dom (g, enter, leave, cs, s) \<Longrightarrow> fst s \<subseteq> fst (dfs g enter leave cs s)"
proof (induction g enter leave cs s rule: dfs.pinduct)
  case (2 g enter leave c cs s)
  then show ?case
    using 2(3) 2(4) [OF _ refl] by (cases "c \<in> fst s") (force simp: dfs.psimps Let_def)+
qed (simp add: dfs.psimps)

termination dfs
proof (relation "measures [\<lambda>(g, enter, leave, cs, s). card (fst ` set g - fst s), \<lambda>(g, enter, leave, cs, s). length cs]")
  fix g :: "'a graph" and enter leave :: "'a \<Rightarrow> 'b \<Rightarrow> 'b" and c cs and s :: "'a set \<times> 'b"
  assume new: "c \<notin> fst s"
  let ?V = "fst ` set g"
  show "((g, enter, leave, kids g c, insert c (fst s), enter c (snd s)), (g, enter, leave, c # cs, s))
    \<in> measures [\<lambda>(g, enter, leave, cs, s). card (fst ` set g - fst s), \<lambda>(g, enter, leave, cs, s). length cs]"
  proof (cases "c \<in> ?V")
    case True
    then have "card (?V - insert c (fst s)) < card (?V - fst s)"
      using new by (intro psubset_card_mono) auto
    then show ?thesis by simp
  next
    case False
    then have "kids g c = []"
      by (rule kids_not_key)
    moreover have "?V - insert c (fst s) = ?V - fst s"
      using False by blast
    ultimately show ?thesis by simp
  qed
next
  fix g :: "'a graph" and enter leave :: "'a \<Rightarrow> 'b \<Rightarrow> 'b" and c cs and s t :: "'a set \<times> 'b"
  assume new: "c \<notin> fst s" and t: "t = dfs g enter leave (kids g c) (insert c (fst s), enter c (snd s))"
    and dom: "dfs_dom (g, enter, leave, kids g c, insert c (fst s), enter c (snd s))"
  have "card (fst ` set g - fst t) \<le> card (fst ` set g - fst s)"
    using dfs_visited_mono [OF dom] t by (intro card_mono) auto
  then show "((g, enter, leave, cs, fst t, leave c (snd t)), (g, enter, leave, c # cs, s))
    \<in> measures [\<lambda>(g, enter, leave, cs, s). card (fst ` set g - fst s), \<lambda>(g, enter, leave, cs, s). length cs]"
    by auto
qed auto

lemma dfs_mono: "fst s \<subseteq> fst (dfs g enter leave cs s)"
proof (induction g enter leave cs s rule: dfs.induct)
  case (2 g enter leave c cs s)
  then show ?case
    using 2(2) 2(3) [OF _ refl] by (cases "c \<in> fst s") (force simp: Let_def)+
qed simp

subsection \<open>What it visits\<close>

text \<open>The edges between vertices outside \<open>A\<close>.\<close>

definition avoiding :: "'v graph \<Rightarrow> 'v set \<Rightarrow> ('v \<times> 'v) set" where
  "avoiding g A = {(u, v) \<in> edges g. u \<notin> A \<and> v \<notin> A}"

lemma avoiding_mono: "A \<subseteq> B \<Longrightarrow> (avoiding g B)\<^sup>* \<subseteq> (avoiding g A)\<^sup>*"
  by (intro rtrancl_mono) (auto simp: avoiding_def)

lemma avoiding_edges: "(avoiding g A)\<^sup>* \<subseteq> (edges g)\<^sup>*"
  by (intro rtrancl_mono) (auto simp: avoiding_def)

lemma dfs_sound:
  "x \<in> fst (dfs g enter leave cs s) \<Longrightarrow> x \<in> fst s \<or> (\<exists>c \<in> set cs. c \<notin> fst s \<and> (c, x) \<in> (avoiding g (fst s))\<^sup>*)"
proof (induction g enter leave cs s rule: dfs.induct)
  case (2 g enter leave c cs s)
  show ?case
  proof (cases "c \<in> fst s")
    case True
    then show ?thesis using 2 by auto
  next
    case new: False
    let ?t = "dfs g enter leave (kids g c) (insert c (fst s), enter c (snd s))"
    have "x \<in> fst ?t \<or> (\<exists>d \<in> set cs. d \<notin> fst ?t \<and> (d, x) \<in> (avoiding g (fst ?t))\<^sup>*)"
      using 2(3) [OF new refl] 2(4) new by (simp add: Let_def)
    then show ?thesis
    proof
      assume "x \<in> fst ?t"
      then consider "x = c" | "x \<in> fst s" | d where "d \<in> set (kids g c)" "d \<notin> insert c (fst s)"
        "(d, x) \<in> (avoiding g (insert c (fst s)))\<^sup>*"
        using 2(2) [OF new] by auto
      then show ?thesis
      proof cases
        case 3
        then have "(c, d) \<in> avoiding g (fst s)" "(d, x) \<in> (avoiding g (fst s))\<^sup>*"
          using new avoiding_mono [of "fst s" "insert c (fst s)" g]
          by (auto simp: avoiding_def edges_def)
        then have "(c, x) \<in> (avoiding g (fst s))\<^sup>*"
          by (rule converse_rtrancl_into_rtrancl)
        then show ?thesis using new by auto
      qed (use new in auto)
    next
      assume "\<exists>d \<in> set cs. d \<notin> fst ?t \<and> (d, x) \<in> (avoiding g (fst ?t))\<^sup>*"
      moreover have "fst s \<subseteq> fst ?t"
        using dfs_mono [of "(insert c (fst s), enter c (snd s))" g enter leave "kids g c"] by auto
      ultimately show ?thesis
        using avoiding_mono [of "fst s" "fst ?t" g] by auto
    qed
  qed
qed simp

lemma dfs_closed:
  defines "vis s g enter leave cs \<equiv> fst (dfs g enter leave cs s)"
  shows "set cs \<subseteq> vis s g enter leave cs" and
    "x \<in> vis s g enter leave cs \<Longrightarrow> x \<notin> fst s \<Longrightarrow> set (kids g x) \<subseteq> vis s g enter leave cs"
  unfolding vis_def
proof (induction g enter leave cs s rule: dfs.induct)
  case (2 g enter leave c cs s)
  let ?t = "dfs g enter leave (kids g c) (insert c (fst s), enter c (snd s))"
  let ?r = "dfs g enter leave cs (fst ?t, leave c (snd ?t))"
  have mono: "fst ?t \<subseteq> fst ?r" "insert c (fst s) \<subseteq> fst ?t"
    using dfs_mono [of "(fst ?t, leave c (snd ?t))" g enter leave cs]
      dfs_mono [of "(insert c (fst s), enter c (snd s))" g enter leave "kids g c"] by simp_all
  {
    case 1
    then show ?case
    proof (cases "c \<in> fst s")
      case True
      then show ?thesis
        using 2(1) [OF True] dfs_mono [of s g enter leave cs] by auto
    next
      case False
      then show ?thesis
        using 2(5) [OF False refl] mono by (auto simp: Let_def)
    qed
  next
    case 2
    show ?case
    proof (cases "c \<in> fst s")
      case True
      then show ?thesis using "2.IH"(2) [OF True] 2 by simp
    next
      case False
      note IH = "2.IH"(3,4) [OF False] "2.IH"(6) [OF False refl]
      have "set (kids g x) \<subseteq> fst ?r"
      proof (cases "x \<in> fst ?t")
        case True
        then have "set (kids g x) \<subseteq> fst ?t"
          using IH(1,2) 2(2) by (cases "x = c") auto
        then show ?thesis using mono by blast
      next
        case False
        then show ?thesis
          using IH(3) 2 \<open>c \<notin> fst s\<close> by (simp add: Let_def)
      qed
      then show ?thesis
        using False by (simp add: Let_def)
    qed
  }
qed simp_all

lemma dfs_visited:
  "fst (dfs g enter leave cs s) =
     fst s \<union> {x. \<exists>c \<in> set cs. c \<notin> fst s \<and> (c, x) \<in> (avoiding g (fst s))\<^sup>*}"
  (is "?V = fst s \<union> ?R")
proof
  show "?V \<subseteq> fst s \<union> ?R"
    using dfs_sound by fastforce
  have "x \<in> ?V" if "(c, x) \<in> (avoiding g (fst s))\<^sup>*" "c \<in> set cs" for c x
    using that
  proof (induction rule: rtrancl_induct)
    case base
    then show ?case using dfs_closed(1) by fastforce
  next
    case (step y z)
    then show ?case
      using dfs_closed(2) [of y g enter leave cs s] by (auto simp: avoiding_def edges_def)
  qed
  then show "fst s \<union> ?R \<subseteq> ?V"
    using dfs_mono [of s g enter leave cs] by auto
qed

end
