(* ===== verification/Condensation.thy ===== *)
theory Condensation
  imports Depth_First
begin

text \<open>
  \<open>CondensationGraph\<close> of \<open>themis/include/hotstuff/graph.h\<close> and \<open>themis/src/graph.cpp\<close>: Kosaraju's
  algorithm, which gives the strongly connected components of the dependency graph in topological
  order. The stack of finished vertices is a list with its top first, the table \<open>visited\<close> the set
  of the vertices it maps to true.
\<close>

subsection \<open>Tables of sets\<close>

definition set_add :: "'v \<Rightarrow> 'v list \<Rightarrow> 'v list" where
  "set_add v vs = (if v \<in> set vs then vs else vs @ [v])"

text \<open>\<open>graph.insert(make_pair(v, {}))\<close> and \<open>graph[u].insert(v)\<close>.\<close>

definition graph_touch :: "'v \<Rightarrow> 'v graph \<Rightarrow> 'v graph" where
  "graph_touch v g = (if v \<in> fst ` set g then g else g @ [(v, [])])"

definition graph_insert :: "'v \<Rightarrow> 'v \<Rightarrow> 'v graph \<Rightarrow> 'v graph" where
  "graph_insert u v g = AList.update u (set_add v (kids g u)) g"

definition create_transposed_graph :: "'v graph \<Rightarrow> 'v graph" where
  "create_transposed_graph g =
     fold (\<lambda>(v, cs) t. fold (\<lambda>c t. graph_insert c v t) cs (graph_touch v t)) g []"

definition get_decendents_from_transposed_graph :: "'v \<Rightarrow> 'v graph \<Rightarrow> 'v list" where
  "get_decendents_from_transposed_graph v g = kids (create_transposed_graph g) v"

subsection \<open>The algorithm\<close>

definition create_order_by_finish_time :: "'v graph \<Rightarrow> 'v \<Rightarrow> 'v set \<times> 'v list \<Rightarrow> 'v set \<times> 'v list" where
  "create_order_by_finish_time g v s = dfs g (\<lambda>v st. st) (\<lambda>v st. v # st) [v] s"

definition generate_scc :: "'v graph \<Rightarrow> 'v \<Rightarrow> 'v set \<Rightarrow> 'v set \<times> 'v list" where
  "generate_scc t v visited = dfs t (\<lambda>v scc. scc @ [v]) (\<lambda>v scc. scc) [v] (visited, [])"

definition order_by_finish_time :: "'v graph \<Rightarrow> 'v list" where
  "order_by_finish_time g =
     snd (fold (\<lambda>v s. if v \<in> fst s then s else create_order_by_finish_time g v s) (map fst g) ({}, []))"

fun scc_loop :: "'v graph \<Rightarrow> 'v list \<Rightarrow> 'v set \<Rightarrow> 'v list list" where
  "scc_loop t [] visited = []"
| "scc_loop t (v # st) visited =
     (if v \<in> visited then scc_loop t st visited
      else let (visited, scc) = generate_scc t v visited in scc # scc_loop t st visited)"

text \<open>
  \<open>ord v\<close> is the order in which the loop over \<open>transposed_graph[v]\<close> finds its elements. A child that
  is not a key is inserted into the table while the first loop iterates over it, which may rehash
  the table under the iterator.
\<close>

definition graph_closed :: "'v graph \<Rightarrow> bool" where
  "graph_closed g \<longleftrightarrow> (\<forall>(u, vs) \<in> set g. \<forall>v \<in> set vs. v \<in> fst ` set g)"

definition get_condensation_graph :: "('v \<Rightarrow> 'v list \<Rightarrow> 'v list) \<Rightarrow> 'v graph \<Rightarrow> err + 'v list list" where
  "get_condensation_graph ord g =
     (if \<not> graph_closed g then Inl Undefined_Behaviour
      else let t = map (\<lambda>(v, us). (v, ord v us)) (create_transposed_graph g)
           in Inr (scc_loop t (order_by_finish_time g) {}))"

subsection \<open>The transposed graph\<close>

lemma keys_touch: "fst ` set (graph_touch v g) = insert v (fst ` set g)"
  by (auto simp: graph_touch_def)

lemma kids_touch [simp]: "kids (graph_touch v g) u = kids g u"
  by (auto simp: graph_touch_def kids_def map_add_def split: option.splits dest: map_of_SomeD)

lemma kids_insert: "set (kids (graph_insert u v g) w) = set (kids g w) \<union> (if w = u then {v} else {})"
  by (auto simp: graph_insert_def kids_def update_conv' set_add_def)

lemma keys_insert: "fst ` set (graph_insert u v g) = insert u (fst ` set g)"
  by (simp add: graph_insert_def dom_update)

lemma kids_insert_all:
  "set (kids (fold (\<lambda>c t. graph_insert c v t) cs t) w) = set (kids t w) \<union> (if w \<in> set cs then {v} else {})"
  by (induction cs arbitrary: t) (auto simp: kids_insert)

lemma kids_transposed:
  assumes "distinct (map fst g)"
  shows "set (kids (create_transposed_graph g) v) = {u. v \<in> set (kids g u)}"
proof -
  have "set (kids (fold (\<lambda>(v, cs) t. fold (\<lambda>c t. graph_insert c v t) cs (graph_touch v t)) es t) v)
    = set (kids t v) \<union> {u. \<exists>cs. (u, cs) \<in> set es \<and> v \<in> set cs}" for es t
    by (induction es arbitrary: t) (auto simp: kids_insert_all split: if_splits)
  from this [of g "[]"] have "set (kids (create_transposed_graph g) v) = {u. \<exists>cs. (u, cs) \<in> set g \<and> v \<in> set cs}"
    by (simp add: create_transposed_graph_def kids_def)
  then show ?thesis
    using kids_iff [OF assms] by auto
qed

lemma kids_reordered: "kids (map (\<lambda>(v, us). (v, ord v us)) t) v = (if v \<in> fst ` set t then ord v (kids t v) else [])"
  by (induction t) (auto simp: kids_def)

subsection \<open>The order of finishing\<close>

text \<open>
  What the second pass needs of the order: a vertex that reaches \<open>u\<close> through vertices not finished
  after \<open>u\<close> is reached from \<open>u\<close>.
\<close>

fun kos :: "'v graph \<Rightarrow> 'v list \<Rightarrow> bool" where
  "kos g [] \<longleftrightarrow> True"
| "kos g (u # us) \<longleftrightarrow> kos g us \<and> (\<forall>w. (w, u) \<in> (avoiding g (- set (u # us)))\<^sup>* \<longrightarrow> (u, w) \<in> (edges g)\<^sup>*)"

definition finished :: "'v graph \<Rightarrow> 'v set \<times> 'v list \<Rightarrow> bool" where
  "finished g s \<longleftrightarrow> set (snd s) \<subseteq> fst s \<and> (\<forall>x \<in> set (snd s). set (kids g x) \<subseteq> fst s) \<and> distinct (snd s) \<and> kos g (snd s)"

lemma finished_push:
  assumes s: "finished g (vis, st)" and t: "finished g (vis', new @ st)" and new: "set new = vis' - insert c vis"
    and c: "c \<notin> vis" "c \<in> vis'" and closed: "set (kids g c) \<subseteq> vis'" and reach: "\<forall>x \<in> set new. (c, x) \<in> (edges g)\<^sup>*"
  shows "finished g (vis', c # new @ st)"
proof -
  have "(c, w) \<in> (edges g)\<^sup>*" if w: "(w, c) \<in> (avoiding g (- set (c # new @ st)))\<^sup>*" for w
  proof -
    have "w \<in> insert c (set new)"
      using w
    proof (induction rule: converse_rtrancl_induct)
      case (step y z)
      then have "y \<in> insert c (set new) \<union> set st" "z \<in> set (kids g y)"
        by (auto simp: avoiding_def edges_def)
      moreover have "y \<notin> set st"
        using step.IH \<open>z \<in> set (kids g y)\<close> s c(1) new by (auto simp: finished_def)
      ultimately show ?case by blast
    qed simp
    with reach show ?thesis by auto
  qed
  then show ?thesis
    using s t c closed new by (auto simp: finished_def)
qed

lemma finish_order:
  assumes "finished g s"
  shows "\<exists>new. snd (dfs g (\<lambda>v st. st) (\<lambda>v st. v # st) cs s) = new @ snd s \<and>
    set new = fst (dfs g (\<lambda>v st. st) (\<lambda>v st. v # st) cs s) - fst s \<and>
    finished g (dfs g (\<lambda>v st. st) (\<lambda>v st. v # st) cs s)"
  using assms
proof (induction g "\<lambda>v :: 'a. \<lambda>st :: 'a list. st" "\<lambda>v st. v # st :: 'a list" cs s rule: dfs.induct)
  case (2 g c cs s)
  let ?run = "dfs g (\<lambda>v st. st) (\<lambda>v st. v # st)"
  show ?case
  proof (cases "c \<in> fst s")
    case True
    then show ?thesis using 2 by simp
  next
    case False
    let ?t = "?run (kids g c) (insert c (fst s), snd s)"
    let ?u = "?run cs (fst ?t, c # snd ?t)"
    have "finished g (insert c (fst s), snd s)"
      using 2(4) by (auto simp: finished_def)
    then obtain new where new: "snd ?t = new @ snd s" "set new = fst ?t - insert c (fst s)" "finished g ?t"
      using 2(2) [OF False] by (simp only: fst_conv snd_conv) blast
    have mono: "insert c (fst s) \<subseteq> fst ?t"
      using dfs_mono [of "(insert c (fst s), snd s)"] by simp
    have reach: "(c, x) \<in> (edges g)\<^sup>*" if "x \<in> set new" for x
    proof -
      have "x \<in> fst ?t" "x \<notin> insert c (fst s)"
        using that new(2) by auto
      with dfs_sound [OF this(1)] obtain d where "d \<in> set (kids g c)" "(d, x) \<in> (edges g)\<^sup>*"
        using avoiding_edges [of g "insert c (fst s)"] by auto
      then show ?thesis
        by (intro converse_rtrancl_into_rtrancl [of c d]) (auto simp: edges_def)
    qed
    have "finished g (fst ?t, c # new @ snd s)"
    proof (rule finished_push [where vis = "fst s"])
      show "finished g (fst s, snd s)" using 2(4) by simp
      show "finished g (fst ?t, new @ snd s)" using new(1,3) by (metis prod.collapse)
      show "set (kids g c) \<subseteq> fst ?t" by (rule dfs_closed(1))
    qed (use new(2) False mono reach in auto)
    then obtain new' where "snd ?u = new' @ c # new @ snd s" "set new' = fst ?u - fst ?t" "finished g ?u"
      using 2(3) [OF False refl] by (simp only: new(1) fst_conv snd_conv) blast
    moreover have "fst ?t \<subseteq> fst ?u"
      using dfs_mono [of "(fst ?t, c # snd ?t)"] by simp
    ultimately show ?thesis
      using False mono new(2) by (intro exI [of _ "new' @ c # new"]) (auto simp: Let_def)
  qed
qed simp

lemma fold_dfs: "fold (\<lambda>v s. if v \<in> fst s then s else dfs g e l [v] s) vs s = dfs g e l vs s"
  by (induction vs arbitrary: s) (simp_all add: Let_def)

lemma order_by_finish_time:
  assumes "graph_closed g"
  shows "set (order_by_finish_time g) = fst ` set g" and "kos g (order_by_finish_time g)"
    and "distinct (order_by_finish_time g)"
proof -
  let ?r = "dfs g (\<lambda>v st. st) (\<lambda>v st. v # st) (map fst g) ({}, [])"
  have order: "order_by_finish_time g = snd ?r"
    unfolding order_by_finish_time_def create_order_by_finish_time_def fold_dfs ..
  have "finished g ({}, [])"
    by (simp add: finished_def)
  then have r: "set (snd ?r) = fst ?r" "finished g ?r"
    using finish_order [of g "({}, [])" "map fst g"] by auto
  then show "kos g (order_by_finish_time g)" and "distinct (order_by_finish_time g)"
    by (simp_all add: order finished_def)
  have "x \<in> fst ` set g" if "(c, x) \<in> (avoiding g {})\<^sup>*" "c \<in> fst ` set g" for c x
    using that
  proof (induction rule: rtrancl_induct)
    case (step y z)
    then show ?case
      using assms by (cases "map_of g y") (auto simp: avoiding_def edges_def kids_def graph_closed_def dest!: map_of_SomeD)
  qed
  then have "fst ?r = fst ` set g"
    unfolding dfs_visited by (auto intro: rtrancl_refl)
  with r(1) show "set (order_by_finish_time g) = fst ` set g"
    by (simp add: order)
qed

subsection \<open>The components\<close>

lemma preorder_new:
  "\<exists>new. snd (dfs g (\<lambda>v scc. scc @ [v]) (\<lambda>v scc. scc) cs s) = snd s @ new \<and> distinct new \<and>
     set new = fst (dfs g (\<lambda>v scc. scc @ [v]) (\<lambda>v scc. scc) cs s) - fst s"
proof (induction g "\<lambda>v scc. scc @ [v] :: 'a list" "\<lambda>v :: 'a. \<lambda>scc :: 'a list. scc" cs s rule: dfs.induct)
  case (2 g c cs s)
  let ?run = "dfs g (\<lambda>v scc. scc @ [v]) (\<lambda>v scc. scc)"
  show ?case
  proof (cases "c \<in> fst s")
    case True
    then show ?thesis using 2 by simp
  next
    case False
    let ?t = "?run (kids g c) (insert c (fst s), snd s @ [c])"
    let ?u = "?run cs (fst ?t, snd ?t)"
    obtain n1 where n1: "snd ?t = snd s @ [c] @ n1" "distinct n1" "set n1 = fst ?t - insert c (fst s)"
      using 2(2) [OF False] by auto
    obtain n2 where n2: "snd ?u = snd ?t @ n2" "distinct n2" "set n2 = fst ?u - fst ?t"
      using 2(3) [OF False refl] by auto
    have run: "?run (c # cs) s = ?u"
      using False by (simp add: Let_def)
    have "insert c (fst s) \<subseteq> fst ?t" "fst ?t \<subseteq> fst ?u"
      using dfs_mono [of "(insert c (fst s), snd s @ [c])"] dfs_mono [of "(fst ?t, snd ?t)"] by simp_all
    then have "distinct (c # n1 @ n2)" "set (c # n1 @ n2) = fst ?u - fst s"
      using n1(2,3) n2(2,3) False by auto
    moreover have "snd ?u = snd s @ c # n1 @ n2"
      using n2(1) by (simp only: n1(1) append_assoc append_Cons append_Nil)
    ultimately show ?thesis
      unfolding run by blast
  qed
qed simp

lemma generate_scc:
  assumes "v \<notin> S"
  shows "fst (generate_scc t v S) = S \<union> {x. (v, x) \<in> (avoiding t S)\<^sup>*}"
    and "set (snd (generate_scc t v S)) = fst (generate_scc t v S) - S"
    and "distinct (snd (generate_scc t v S))"
proof -
  show 1: "fst (generate_scc t v S) = S \<union> {x. (v, x) \<in> (avoiding t S)\<^sup>*}"
    unfolding generate_scc_def dfs_visited using assms by simp
  show "set (snd (generate_scc t v S)) = fst (generate_scc t v S) - S" and "distinct (snd (generate_scc t v S))"
    using preorder_new [of t "[v]" "(S, [])"] unfolding generate_scc_def fst_conv snd_conv by auto
qed

definition mutual :: "'v graph \<Rightarrow> 'v \<Rightarrow> 'v set" where
  "mutual g u = {v. (u, v) \<in> (edges g)\<^sup>* \<and> (v, u) \<in> (edges g)\<^sup>*}"

definition pred_closed :: "'v graph \<Rightarrow> 'v set \<Rightarrow> bool" where
  "pred_closed g S \<longleftrightarrow> (\<forall>x y. (x, y) \<in> edges g \<longrightarrow> y \<in> S \<longrightarrow> x \<in> S)"

lemma pred_closed_rtrancl: "(x, y) \<in> (edges g)\<^sup>* \<Longrightarrow> pred_closed g S \<Longrightarrow> y \<in> S \<Longrightarrow> x \<in> S"
  by (induction rule: converse_rtrancl_induct) (auto simp: pred_closed_def)

lemma avoiding_converse:
  assumes "\<And>x y. (x, y) \<in> edges t \<longleftrightarrow> (y, x) \<in> edges g"
  shows "(u, x) \<in> (avoiding t S)\<^sup>* \<longleftrightarrow> (x, u) \<in> (avoiding g S)\<^sup>*"
proof -
  have "avoiding t S = (avoiding g S)\<inverse>"
    using assms by (auto simp: avoiding_def)
  then show ?thesis
    by (simp add: rtrancl_converse)
qed

lemma scc_is_mutual:
  assumes t: "\<And>x y. (x, y) \<in> edges t \<longleftrightarrow> (y, x) \<in> edges g" and kos: "kos g (u # us)"
    and V: "\<And>x y. (x, y) \<in> edges g \<Longrightarrow> x \<in> S \<union> set (u # us) \<and> y \<in> S \<union> set (u # us)"
    and S: "pred_closed g S" and u: "u \<notin> S"
  shows "{x. (u, x) \<in> (avoiding t S)\<^sup>*} = mutual g u"
proof
  show "{x. (u, x) \<in> (avoiding t S)\<^sup>*} \<subseteq> mutual g u"
  proof
    fix x assume "x \<in> {x. (u, x) \<in> (avoiding t S)\<^sup>*}"
    then have x: "(x, u) \<in> (avoiding g S)\<^sup>*"
      by (simp add: avoiding_converse [OF t])
    have "avoiding g S \<subseteq> avoiding g (- set (u # us))"
      using V by (auto simp: avoiding_def)
    with x have "(x, u) \<in> (avoiding g (- set (u # us)))\<^sup>*"
      using rtrancl_mono by blast
    with kos x show "x \<in> mutual g u"
      using avoiding_edges [of g S] by (auto simp: mutual_def)
  qed
next
  have "(x, u) \<in> (avoiding g S)\<^sup>*" if "(x, u) \<in> (edges g)\<^sup>*" "(u, x) \<in> (edges g)\<^sup>*" for x
    using that
  proof (induction rule: converse_rtrancl_induct)
    case (step x y)
    then have uy: "(u, y) \<in> (edges g)\<^sup>*"
      by (blast intro: rtrancl_into_rtrancl)
    then have "x \<notin> S" "y \<notin> S"
      using step.prems u pred_closed_rtrancl [OF _ S] by blast+
    then have "(x, y) \<in> avoiding g S"
      using step.hyps(1) by (simp add: avoiding_def)
    then show ?case
      using step.IH [OF uy] by (rule converse_rtrancl_into_rtrancl)
  qed simp
  then show "mutual g u \<subseteq> {x. (u, x) \<in> (avoiding t S)\<^sup>*}"
    by (auto simp: mutual_def avoiding_converse [OF t])
qed

lemma pred_closed_reach:
  assumes t: "\<And>x y. (x, y) \<in> edges t \<longleftrightarrow> (y, x) \<in> edges g" and S: "pred_closed g S" and u: "u \<notin> S"
  shows "pred_closed g (S \<union> {x. (u, x) \<in> (avoiding t S)\<^sup>*})"
proof -
  have "x \<in> S \<or> (u, x) \<in> (avoiding t S)\<^sup>*" if xy: "(x, y) \<in> edges g" and y: "(u, y) \<in> (avoiding t S)\<^sup>*" for x y
  proof (cases "x \<in> S")
    case False
    have "y \<notin> S"
      using y u by (cases rule: rtranclE) (auto simp: avoiding_def)
    then have "(y, x) \<in> avoiding t S"
      using False xy by (simp add: avoiding_def t)
    with y show ?thesis by (simp add: rtrancl_into_rtrancl)
  qed simp
  then show ?thesis
    using S by (auto simp: pred_closed_def)
qed

definition components :: "'v graph \<Rightarrow> 'v set \<Rightarrow> 'v list list \<Rightarrow> bool" where
  "components g V sccs \<longleftrightarrow>
     distinct (concat sccs) \<and> set (concat sccs) = V \<and> (\<forall>c \<in> set sccs. c \<noteq> [] \<and> (\<forall>u \<in> set c. set c = mutual g u)) \<and>
     sorted_wrt (\<lambda>c d. \<forall>x \<in> set c. \<forall>y \<in> set d. (y, x) \<notin> edges g) sccs"

lemma components_Cons:
  assumes "set c \<inter> V = {}" and "set c \<union> V = W" and "\<And>u. u \<in> set c \<Longrightarrow> set c = mutual g u"
    and "\<And>x y. x \<in> set c \<Longrightarrow> y \<in> V \<Longrightarrow> (y, x) \<notin> edges g" and "c \<noteq> []" and "components g V sccs" and "distinct c"
  shows "components g W (c # sccs)"
proof -
  have V: "set (concat sccs) = V"
    using assms(6) by (simp add: components_def)
  then have "y \<in> V" if "d \<in> set sccs" "y \<in> set d" for d y
    using that by auto
  with assms V show ?thesis
    unfolding components_def by auto
qed

lemma mutual_eq: "v \<in> mutual g u \<Longrightarrow> mutual g v = mutual g u"
  by (auto simp: mutual_def intro: rtrancl_trans)

lemma scc_loop_components:
  assumes t: "\<And>x y. (x, y) \<in> edges t \<longleftrightarrow> (y, x) \<in> edges g"
    and "kos g st" and "distinct st" and "pred_closed g S"
    and "\<And>x y. (x, y) \<in> edges g \<Longrightarrow> x \<in> S \<union> set st \<and> y \<in> S \<union> set st"
  shows "components g (set st - S) (scc_loop t st S)"
  using assms(2-)
proof (induction st arbitrary: S)
  case Nil
  then show ?case by (simp add: components_def)
next
  case (Cons u us)
  show ?case
  proof (cases "u \<in> S")
    case True
    have "components g (set us - S) (scc_loop t us S)"
      using Cons.prems True by (intro Cons.IH) auto
    then show ?thesis using True by simp
  next
    case u: False
    let ?T = "fst (generate_scc t u S)" and ?c = "snd (generate_scc t u S)"
    have M: "{x. (u, x) \<in> (avoiding t S)\<^sup>*} = mutual g u"
      by (rule scc_is_mutual [OF t Cons.prems(1,4,3) u])
    note gen = generate_scc [OF u, of t, unfolded M]
    have T: "pred_closed g ?T"
      using pred_closed_reach [OF t Cons.prems(3) u] by (simp add: gen(1) M)
    have uT: "u \<in> mutual g u"
      by (simp add: mutual_def)
    have rest: "components g (set us - ?T) (scc_loop t us ?T)"
      using Cons.prems T gen(1) uT by (intro Cons.IH) auto
    have notS: "x \<notin> S" if "x \<in> mutual g u" for x
      using that u pred_closed_rtrancl [OF _ Cons.prems(3)] by (auto simp: mutual_def)
    then have c: "set ?c = mutual g u"
      using gen(1,2) by auto
    have inside: "mutual g u \<subseteq> set (u # us)"
    proof
      fix x assume x: "x \<in> mutual g u"
      then have "x = u \<or> (\<exists>y. (x, y) \<in> edges g)"
        by (auto simp: mutual_def elim: converse_rtranclE)
      then show "x \<in> set (u # us)"
        using Cons.prems(4) notS [OF x] by auto
    qed
    have "set ?c \<inter> (set us - ?T) = {}" "set ?c \<union> (set us - ?T) = set (u # us) - S"
      using c gen(1) uT u inside notS by auto
    moreover have "set ?c = mutual g v" if "v \<in> set ?c" for v
      using mutual_eq [of v g u] that c by simp
    moreover have "(y, x) \<notin> edges g" if "x \<in> set ?c" "y \<in> set us - ?T" for x y
      using T that gen(2) by (auto simp: pred_closed_def)
    moreover have "?c \<noteq> []"
      using c uT by auto
    ultimately have "components g (set (u # us) - S) (?c # scc_loop t us ?T)"
      using rest gen(3) by (intro components_Cons)
    then show ?thesis
      using u by (simp add: case_prod_beta)
  qed
qed

lemma condensation_facts:
  assumes "distinct (map fst g)" and "graph_closed g" and "\<And>v us. set (ord v us) = set us"
  shows "\<exists>sccs. get_condensation_graph ord g = Inr sccs \<and> distinct (concat sccs) \<and> set (concat sccs) = fst ` set g \<and>
    (\<forall>c \<in> set sccs. \<forall>u \<in> set c. set c = {v. (u, v) \<in> (edges g)\<^sup>* \<and> (v, u) \<in> (edges g)\<^sup>*}) \<and>
    sorted_wrt (\<lambda>c d. \<forall>x \<in> set c. \<forall>y \<in> set d. (y, x) \<notin> edges g) sccs"
proof -
  let ?t = "map (\<lambda>(v, us). (v, ord v us)) (create_transposed_graph g)"
  have "set (kids ?t v) = set (kids (create_transposed_graph g) v)" for v
    by (auto simp: kids_reordered assms(3) dest: kids_dom)
  then have t: "(x, y) \<in> edges ?t \<longleftrightarrow> (y, x) \<in> edges g" for x y
    by (simp add: edges_def kids_transposed [OF assms(1)])
  note order = order_by_finish_time [OF assms(2)]
  have "x \<in> fst ` set g \<and> y \<in> fst ` set g" if "(x, y) \<in> edges g" for x y
    using that assms(2) kids_dom [of y g x] by (auto simp: edges_def kids_iff [OF assms(1)] graph_closed_def)
  then have "components g (set (order_by_finish_time g) - {}) (scc_loop ?t (order_by_finish_time g) {})"
    using order by (intro scc_loop_components [OF t]) (auto simp: pred_closed_def)
  then show ?thesis
    using assms(2) order(1) by (auto simp: get_condensation_graph_def components_def mutual_def)
qed

text \<open>
  C18: for a graph whose edges lead to keys, the condensation lists every vertex once; the lists are
  the strongly connected components; and no edge leads from a later component to an earlier one,
  so the components are in topological order.
\<close>

theorem condensation_correct:
  assumes "distinct (map fst g)" and "graph_closed g" and "\<And>v us. set (ord v us) = set us"
  shows "\<exists>sccs. get_condensation_graph ord g = Inr sccs \<and> distinct (concat sccs) \<and> set (concat sccs) = fst ` set g \<and>
    (\<forall>c \<in> set sccs. \<forall>u \<in> set c. set c = {v. (u, v) \<in> (edges g)\<^sup>* \<and> (v, u) \<in> (edges g)\<^sup>*}) \<and>
    sorted_wrt (\<lambda>c d. \<forall>x \<in> set c. \<forall>y \<in> set d. (y, x) \<notin> edges g) sccs"
  by (rule condensation_facts [OF assms])

theorem condensation_correct_witness:
  "\<exists>sccs. get_condensation_graph (\<lambda>v us. us) [(0 :: nat, [1]), (1, [0, 2]), (2, [])] = Inr sccs \<and>
    distinct (concat sccs) \<and> set (concat sccs) = {0, 1, 2}"
proof -
  have "distinct (map fst [(0 :: nat, [1 :: nat]), (1, [0, 2]), (2, [])])"
    and "graph_closed [(0 :: nat, [1]), (1, [0, 2]), (2, [])]"
    by (simp_all add: graph_closed_def)
  from condensation_correct [OF this, of "\<lambda>v us. us"] show ?thesis
    by auto
qed

end
