(* ===== verification/Graph_Codec.thy ===== *)
theory Graph_Codec
  imports Condensation Data_Stream
begin

text \<open>
  How a block of Themis carries its dependency graph (\<open>themis/src/entity.cpp\<close>, \<open>Block::serialize\<close> and
  \<open>Block::unserialize\<close>): the sorted vertices, each with a row of 15 words whose bits are the
  successors' positions, so at most 960 vertices (\<open>MAX_PROPOSAL_SIZE_SUPPORTED\<close>).
\<close>

subsection \<open>Writing\<close>

text \<open>\<open>node_to_idx[v]\<close>: the position of \<open>v\<close>, and 0 for a vertex the table does not know.\<close>

definition node_to_idx :: "uint256 list \<Rightarrow> uint256 \<Rightarrow> nat" where
  "node_to_idx keys v = (case map_of (zip keys [0..<length keys]) v of None \<Rightarrow> 0 | Some i \<Rightarrow> i)"

fun set_neighbors :: "uint256 list \<Rightarrow> uint256 list \<Rightarrow> u64 list \<Rightarrow> err + u64 list" where
  "set_neighbors keys [] vals = Inr vals"
| "set_neighbors keys (v # vs) vals =
     (let i = node_to_idx keys v; group = i div 64
      in if length vals \<le> group then Inl Undefined_Behaviour
         else set_neighbors keys vs (vals[group := or (vals ! group) (push_bit (i - 64 * group) 1)]))"

fun adj_rows :: "uint256 graph \<Rightarrow> uint256 list \<Rightarrow> uint256 list \<Rightarrow> err + (uint256 \<times> u64 list) list" where
  "adj_rows g keys [] = Inr []"
| "adj_rows g keys (k # ks) =
     (case set_neighbors keys (kids g k) (replicate 15 0) of
        Inl e \<Rightarrow> Inl e
      | Inr vals \<Rightarrow> map_sum id (\<lambda>rows. (k, vals) # rows) (adj_rows g keys ks))"

definition row_serialize :: "uint256 \<times> u64 list \<Rightarrow> data_stream \<Rightarrow> data_stream" where
  "row_serialize r s = put_all ds_put (snd r) (uint256_serialize (fst r) s)"

definition graph_serialize :: "uint256 graph \<Rightarrow> data_stream \<Rightarrow> (unit, data_stream) res" where
  "graph_serialize g s =
     (let keys = sort (map fst g)
      in case adj_rows g keys keys of
           Inl e \<Rightarrow> Exc e s
         | Inr rows \<Rightarrow> Ok () (put_vec row_serialize rows s))"

subsection \<open>Reading\<close>

definition row_unserialize :: "data_stream \<Rightarrow> (uint256 \<times> u64 list, data_stream) res" where
  "row_unserialize s =
     res_bind (uint256_unserialize s) (\<lambda>k s. res_bind (get_n ds_get 15 s) (\<lambda>vals s. Ok (k, vals) s))"

text \<open>The positions of the bits of a row, in the order of the two loops.\<close>

definition row_bits :: "u64 list \<Rightarrow> nat list" where
  "row_bits vals = filter (\<lambda>i. bit (vals ! (i div 64)) (i mod 64)) [0..<64 * 15]"

fun build_graph :: "(uint256 \<times> u64 list) list \<Rightarrow> (uint256 \<times> u64 list) list \<Rightarrow> uint256 graph \<Rightarrow> err + uint256 graph" where
  "build_graph rows [] g = Inr g"
| "build_graph rows ((k, vals) # rs) g =
     (if \<exists>i \<in> set (row_bits vals). length rows \<le> i then Inl Undefined_Behaviour
      else build_graph rows rs
        (AList.update k (fold (\<lambda>i. set_add (fst (rows ! i))) (row_bits vals) []) g))"

definition graph_unserialize :: "data_stream \<Rightarrow> (uint256 graph, data_stream) res" where
  "graph_unserialize s =
     res_bind (get_vec row_unserialize s) (\<lambda>rows s.
       case build_graph rows rows [] of Inl e \<Rightarrow> Exc e s | Inr g \<Rightarrow> Ok g s)"

subsection \<open>Rows\<close>

definition row_enc :: "uint256 \<times> u64 list \<Rightarrow> bytes" where
  "row_enc r = uint256_enc (fst r) @ concat (map (le_bytes 8) (snd r))"

interpretation rowc: codec row_serialize row_unserialize row_enc "\<lambda>r. length (snd r) = 15"
proof unfold_locales
  show "row_serialize r s = ds_put_data (row_enc r) s" for r s
    by (simp add: row_serialize_def row_enc_def u256c.put_enc u64c.put_all_enc list_all_iff ds_put_data_append)
next
  fix s and r :: "uint256 \<times> u64 list" and post
  assume wf: "ds_wf s" and len: "length (snd r) = 15" and bs: "ds_bytes s = row_enc r @ post"
  have tail: "get_n ds_get 15 t = Ok (snd r) (ds_skip (length (concat (map (le_bytes 8) (snd r)))) t)"
    if "ds_wf t" "ds_bytes t = concat (map (le_bytes 8) (snd r)) @ post" for t
    using u64c.get_n_enc [OF that(1) _ that(2)] len by (simp add: list_all_iff)
  show "row_unserialize s = Ok r (ds_skip (length (row_enc r)) s)"
    unfolding row_unserialize_def
    apply (rule u256c.get_bind [OF wf TrueI])
     apply (simp add: bs row_enc_def)
    by (simp add: tail row_enc_def)
qed

interpretation rowv: codec "put_vec row_serialize" "get_vec row_unserialize" "vec_enc row_enc"
    "vec_ok (\<lambda>r. length (snd r) = 15)"
  by (rule rowc.vec)

lemma node_to_idx_nth: "distinct keys \<Longrightarrow> i < length keys \<Longrightarrow> node_to_idx keys (keys ! i) = i"
  by (simp add: node_to_idx_def map_of_zip_nth)

lemma node_to_idx_in:
  assumes "distinct keys" and "v \<in> set keys"
  shows "node_to_idx keys v < length keys" and "keys ! node_to_idx keys v = v"
  using assms by (auto simp: in_set_conv_nth node_to_idx_nth)

lemma set_neighbors_bits:
  assumes "\<forall>v \<in> set vs. node_to_idx keys v < 64 * length vals"
  shows "\<exists>vals'. set_neighbors keys vs vals = Inr vals' \<and> length vals' = length vals \<and>
    (\<forall>i < 64 * length vals. bit (vals' ! (i div 64)) (i mod 64) \<longleftrightarrow>
       bit (vals ! (i div 64)) (i mod 64) \<or> i \<in> node_to_idx keys ` set vs)"
  using assms
proof (induction vs arbitrary: vals)
  case (Cons v vs)
  let ?j = "node_to_idx keys v"
  let ?vals = "vals[?j div 64 := or (vals ! (?j div 64)) (push_bit (?j - 64 * (?j div 64)) 1)]"
  have j: "?j div 64 < length vals" "?j - 64 * (?j div 64) = ?j mod 64"
    using Cons.prems by (simp_all add: less_mult_imp_div_less mult.commute minus_mult_div_eq_mod)
  have "bit (?vals ! (i div 64)) (i mod 64) \<longleftrightarrow> bit (vals ! (i div 64)) (i mod 64) \<or> i = ?j" if "i < 64 * length vals" for i
  proof (cases "i div 64 = ?j div 64")
    case True
    have "bit (push_bit (?j mod 64) 1 :: u64) (i mod 64) \<longleftrightarrow> i mod 64 = ?j mod 64"
      by (auto simp: bit_exp_iff possible_bit_def)
    also have "\<dots> \<longleftrightarrow> i = ?j"
      using True by (metis div_mult_mod_eq)
    finally show ?thesis
      using True j by (simp add: bit_or_iff)
  next
    case False
    then show ?thesis by auto
  qed
  then show ?case
    using Cons.IH [of ?vals] Cons.prems j(1) by (auto simp: Let_def not_le)
qed simp

lemma adj_rows_bits:
  assumes "\<forall>k \<in> set ks. \<forall>v \<in> set (kids g k). node_to_idx keys v < 64 * 15"
  shows "\<exists>rows. adj_rows g keys ks = Inr rows \<and> map fst rows = ks \<and>
    (\<forall>(k, vals) \<in> set rows. length vals = 15 \<and> set (row_bits vals) = node_to_idx keys ` set (kids g k))"
  using assms
proof (induction ks)
  case (Cons k ks)
  obtain rows where rows: "adj_rows g keys ks = Inr rows" "map fst rows = ks"
    "\<forall>(k, vals) \<in> set rows. length vals = 15 \<and> set (row_bits vals) = node_to_idx keys ` set (kids g k)"
    using Cons by auto
  obtain vals where vals: "set_neighbors keys (kids g k) (replicate 15 0) = Inr vals" "length vals = 15"
    "\<forall>i < 64 * 15. bit (vals ! (i div 64)) (i mod 64) \<longleftrightarrow> i \<in> node_to_idx keys ` set (kids g k)"
    using set_neighbors_bits [of "kids g k" keys "replicate 15 0"] Cons.prems
    by (auto simp: less_mult_imp_div_less nth_replicate)
  have "set (row_bits vals) = node_to_idx keys ` set (kids g k)"
    using vals(3) Cons.prems by (auto simp: row_bits_def)
  with rows vals show ?case by auto
qed simp

subsection \<open>Round trip\<close>

lemma set_fold_add: "set (fold (\<lambda>i. set_add (f i)) is xs) = set xs \<union> f ` set is"
  by (induction "is" arbitrary: xs) (auto simp: set_add_def)

lemma build_graph_kids:
  assumes "\<forall>(k, vals) \<in> set rs. \<forall>i \<in> set (row_bits vals). i < length rows" and "distinct (map fst rs)"
  shows "\<exists>g'. build_graph rows rs g = Inr g' \<and> fst ` set g' = fst ` set g \<union> fst ` set rs \<and>
    (\<forall>(k, vals) \<in> set rs. set (kids g' k) = (\<lambda>i. fst (rows ! i)) ` set (row_bits vals)) \<and>
    (\<forall>k. k \<notin> fst ` set rs \<longrightarrow> kids g' k = kids g k)"
  using assms
proof (induction rs arbitrary: g)
  case (Cons r rs)
  obtain k vals where r: "r = (k, vals)" by (cases r)
  let ?g = "AList.update k (fold (\<lambda>i. set_add (fst (rows ! i))) (row_bits vals) []) g"
  obtain g' where g': "build_graph rows rs ?g = Inr g'" "fst ` set g' = fst ` set ?g \<union> fst ` set rs"
    "\<forall>(k, vals) \<in> set rs. set (kids g' k) = (\<lambda>i. fst (rows ! i)) ` set (row_bits vals)"
    "\<forall>k. k \<notin> fst ` set rs \<longrightarrow> kids g' k = kids ?g k"
    using Cons.IH [of ?g] Cons.prems by auto
  have kids: "kids ?g x = (if x = k then fold (\<lambda>i. set_add (fst (rows ! i))) (row_bits vals) [] else kids g x)" for x
    by (simp add: kids_def update_conv')
  have "build_graph rows (r # rs) g = Inr g'"
    using g'(1) Cons.prems(1) r by (auto simp: not_le)
  moreover have "set (kids g' k) = (\<lambda>i. fst (rows ! i)) ` set (row_bits vals)"
    using g'(4) Cons.prems(2) r by (simp add: kids set_fold_add)
  ultimately show ?case
    using g'(2-4) r by (auto simp: kids dom_update)
qed simp

text \<open>What two graphs have in common when only the order of their tables differs.\<close>

definition same_graph :: "uint256 graph \<Rightarrow> uint256 graph \<Rightarrow> bool" where
  "same_graph g h \<longleftrightarrow> fst ` set g = fst ` set h \<and> (\<forall>v. set (kids g v) = set (kids h v))"

definition graph_ok :: "uint256 graph \<Rightarrow> bool" where
  "graph_ok g \<longleftrightarrow> distinct (map fst g) \<and> graph_closed g \<and> length g \<le> 960"

lemma kids_closed: "graph_closed g \<Longrightarrow> v \<in> set (kids g u) \<Longrightarrow> v \<in> fst ` set g"
  by (cases "map_of g u") (auto simp: kids_def graph_closed_def dest!: map_of_SomeD)

lemma graph_rows:
  assumes "graph_ok g"
  defines "keys \<equiv> sort (map fst g)"
  obtains rows where "adj_rows g keys keys = Inr rows" "map fst rows = keys" "vec_ok (\<lambda>r. length (snd r) = 15) rows"
    "\<exists>h. build_graph rows rows [] = Inr h \<and> same_graph h g"
proof -
  have keys: "distinct keys" "set keys = fst ` set g" "length keys \<le> 960"
    using assms(1) by (simp_all add: keys_def graph_ok_def)
  have idx: "node_to_idx keys v < length keys" "keys ! node_to_idx keys v = v" if "v \<in> set (kids g k)" for k v
    using that kids_closed [of g v k] assms(1) node_to_idx_in [OF keys(1), of v]
    by (auto simp: keys(2) graph_ok_def)
  have "\<forall>k \<in> set keys. \<forall>v \<in> set (kids g k). node_to_idx keys v < 64 * 15"
    using idx(1) keys(3) by (auto intro: less_le_trans)
  from adj_rows_bits [OF this] obtain rows where rows: "adj_rows g keys keys = Inr rows" "map fst rows = keys"
    "\<forall>(k, vals) \<in> set rows. length vals = 15 \<and> set (row_bits vals) = node_to_idx keys ` set (kids g k)"
    by blast
  have len: "length rows = length keys"
    using rows(2) by (metis length_map)
  have nth: "fst (rows ! i) = keys ! i" if "i < length keys" for i
    using nth_map [of i rows fst] that len unfolding rows(2) by simp
  have small: "\<forall>(k, vals) \<in> set rows. \<forall>i \<in> set (row_bits vals). i < length rows"
    using rows(3) idx(1) len by fastforce
  have dist: "distinct (map fst rows)"
    using keys(1) rows(2) by simp
  obtain h where h: "build_graph rows rows [] = Inr h" "fst ` set h = fst ` set ([] :: uint256 graph) \<union> fst ` set rows"
    "\<forall>(k, vals) \<in> set rows. set (kids h k) = (\<lambda>i. fst (rows ! i)) ` set (row_bits vals)"
    "\<forall>k. k \<notin> fst ` set rows \<longrightarrow> kids h k = kids ([] :: uint256 graph) k"
    using build_graph_kids [OF small dist, of "[]"] by (elim exE conjE) (rule that)
  have dom: "fst ` set rows = fst ` set g"
    using rows(2) keys(2) by (metis list.set_map)
  have "set (kids h k) = set (kids g k)" for k
  proof (cases "k \<in> fst ` set rows")
    case True
    then obtain vals where kv: "(k, vals) \<in> set rows" by auto
    have "set (kids h k) = (\<lambda>i. fst (rows ! i)) ` node_to_idx keys ` set (kids g k)"
      using bspec [OF h(3) kv] bspec [OF rows(3) kv] by simp
    also have "\<dots> = set (kids g k)"
      using idx [of _ k] nth by (force simp: image_iff)
    finally show ?thesis .
  next
    case False
    then show ?thesis
      using h(4) dom by (simp add: kids_not_key)
  qed
  then have "same_graph h g"
    by (simp add: same_graph_def h(2) dom)
  moreover have "vec_ok (\<lambda>r. length (snd r) = 15) rows"
    using rows(3) len keys(3) by (auto simp: vec_ok_def list_all_iff)
  ultimately show thesis
    using that rows(1,2) h(1) by blast
qed

lemma graph_serialize_ok:
  assumes "graph_ok g"
  shows "\<exists>bs. (\<forall>s. graph_serialize g s = Ok () (ds_put_data bs s)) \<and>
    (\<forall>s post. ds_wf s \<longrightarrow> ds_bytes s = bs @ post \<longrightarrow>
      (\<exists>h. graph_unserialize s = Ok h (ds_skip (length bs) s) \<and> same_graph h g))"
proof -
  obtain rows where rows: "adj_rows g (sort (map fst g)) (sort (map fst g)) = Inr rows"
    "vec_ok (\<lambda>r. length (snd r) = 15) rows" "\<exists>h. build_graph rows rows [] = Inr h \<and> same_graph h g"
    using graph_rows [OF assms] by blast
  show ?thesis
    using rows(1,3) rowv.put_enc [OF rows(2)] rowv.get_enc [OF _ rows(2)]
    by (intro exI [of _ "vec_enc row_enc rows"]) (auto simp: graph_serialize_def graph_unserialize_def)
qed

text \<open>
  A graph of at most 960 vertices whose edges lead to vertices reads back with the same
  vertices and edges, and nothing is left over.
\<close>

theorem graph_round_trip:
  assumes "distinct (map fst g)" and "graph_closed g" and "length g \<le> 960"
  shows "\<exists>s h t. graph_serialize g ds_new = Ok () s \<and> graph_unserialize s = Ok h t \<and> ds_bytes t = [] \<and>
    fst ` set h = fst ` set g \<and> (\<forall>v. set (kids h v) = set (kids g v))"
proof -
  have "graph_ok g"
    using assms by (simp add: graph_ok_def)
  from graph_serialize_ok [OF this] obtain bs where
    "graph_serialize g ds_new = Ok () (ds_put_data bs ds_new)"
    "\<exists>h. graph_unserialize (ds_put_data bs ds_new) = Ok h (ds_skip (length bs) (ds_put_data bs ds_new)) \<and> same_graph h g"
    by fastforce
  then show ?thesis
    by (auto simp: same_graph_def)
qed

theorem graph_round_trip_witness:
  "\<exists>s h t. graph_serialize [(h256 1, [h256 2]), (h256 2, [])] ds_new = Ok () s \<and> graph_unserialize s = Ok h t \<and>
    fst ` set h = {h256 1, h256 2} \<and> set (kids h (h256 1)) = {h256 2}"
proof -
  have "distinct (map fst [(h256 1, [h256 2]), (h256 2, [])])" "graph_closed [(h256 1, [h256 2]), (h256 2, [])]"
    by (simp_all add: graph_closed_def)
  from graph_round_trip [OF this] show ?thesis
    by (force simp: kids_def)
qed

text \<open>
  An edge to a vertex that the graph does not have (as \<open>update_graph\<close> may insert) is written as
  an edge to the least vertex: the reader sees a loop there.
\<close>

theorem foreign_edge_misread:
  assumes "b \<noteq> a"
  shows "\<exists>s h t. graph_serialize [(a, [b])] ds_new = Ok () s \<and> graph_unserialize s = Ok h t \<and> kids h a = [a]"
proof -
  have "node_to_idx [a] b = 0"
    using assms by (simp add: node_to_idx_def)
  moreover have "replicate 15 (0 :: u64) = 0 # replicate 14 0"
    using replicate_Suc [of 14 "0 :: u64"] by simp
  ultimately have rows: "adj_rows [(a, [b])] [a] [a] = Inr [(a, 1 # replicate 14 0)]"
    by (simp add: kids_def)
  have "filter (\<lambda>i. bit ((1 # replicate 14 0 :: u64 list) ! (i div 64)) (i mod 64)) [1..<64 * 15] = []"
  proof -
    have "\<not> bit ((1 # replicate 14 0 :: u64 list) ! (i div 64)) (i mod 64)" if "i \<in> set [1..<64 * 15]" for i
      using that by (cases "i div 64") (auto simp: bit_1_iff less_mult_imp_div_less)
    then show ?thesis
      by (simp add: filter_empty_conv)
  qed
  moreover have "[0..<64 * 15] = 0 # [1..<64 * 15]"
    unfolding One_nat_def by (rule upt_conv_Cons) simp
  ultimately have bits: "row_bits (1 # replicate 14 0) = [0]"
    unfolding row_bits_def by (simp only: filter.simps) (simp add: bit_1_iff)
  then have build: "build_graph [(a, 1 # replicate 14 0)] [(a, 1 # replicate 14 0)] [] = Inr [(a, [a])]"
    by (simp add: set_add_def)
  have ok: "vec_ok (\<lambda>r. length (snd r) = 15) [(a, 1 # replicate 14 (0 :: u64))]"
    by (simp add: vec_ok_def)
  show ?thesis
    using rows build rowv.round_trip [OF ok ds_wf_new] rowv.put_enc [OF ok]
    by (auto simp: graph_serialize_def graph_unserialize_def kids_def)
qed

theorem foreign_edge_misread_witness:
  "\<exists>s h t. graph_serialize [(h256 5, [h256 6])] ds_new = Ok () s \<and> graph_unserialize s = Ok h t \<and> kids h (h256 5) = [h256 5]"
  by (rule foreign_edge_misread) simp

subsection \<open>The bytes depend on the graph only\<close>

lemma set_neighbors_cong:
  assumes "set vs = set ws" and "\<forall>v \<in> set vs. node_to_idx keys v < 64 * length vals"
  shows "set_neighbors keys vs vals = set_neighbors keys ws vals"
proof -
  obtain a where a: "set_neighbors keys vs vals = Inr a" "length a = length vals"
    "\<forall>i < 64 * length vals. bit (a ! (i div 64)) (i mod 64) \<longleftrightarrow>
       bit (vals ! (i div 64)) (i mod 64) \<or> i \<in> node_to_idx keys ` set vs"
    using set_neighbors_bits [OF assms(2)] by blast
  obtain b where b: "set_neighbors keys ws vals = Inr b" "length b = length vals"
    "\<forall>i < 64 * length vals. bit (b ! (i div 64)) (i mod 64) \<longleftrightarrow>
       bit (vals ! (i div 64)) (i mod 64) \<or> i \<in> node_to_idx keys ` set ws"
    using set_neighbors_bits [of ws keys vals] assms by auto
  have "a = b"
  proof (rule nth_equalityI)
    fix j assume j: "j < length a"
    show "a ! j = b ! j"
    proof (rule bit_word_eqI)
      fix n assume "n < LENGTH(64)"
      then have "64 * j + n < 64 * length vals" "(64 * j + n) div 64 = j" "(64 * j + n) mod 64 = n"
        using j a(2) by simp_all
      then show "bit (a ! j) n \<longleftrightarrow> bit (b ! j) n"
        using a(3) b(3) assms(1) by metis
    qed
  qed (use a b in simp)
  with a(1) b(1) show ?thesis by simp
qed

lemma adj_rows_cong:
  assumes "\<forall>k \<in> set ks. set (kids g k) = set (kids h k) \<and> (\<forall>v \<in> set (kids g k). node_to_idx keys v < 64 * 15)"
  shows "adj_rows g keys ks = adj_rows h keys ks"
  using assms
proof (induction ks)
  case (Cons k ks)
  have "set_neighbors keys (kids g k) (replicate 15 0) = set_neighbors keys (kids h k) (replicate 15 0)"
    using Cons.prems by (intro set_neighbors_cong) auto
  moreover have "adj_rows g keys ks = adj_rows h keys ks"
    using Cons by simp
  ultimately show ?case
    by (simp only: adj_rows.simps)
qed simp

lemma graph_serialize_same:
  assumes "graph_ok g" and "distinct (map fst h)" and "same_graph h g"
  shows "graph_serialize h s = graph_serialize g s"
proof -
  have keys: "sort (map fst h) = sort (map fst g)"
    using assms by (intro sorted_distinct_set_unique) (simp_all add: same_graph_def graph_ok_def)
  let ?keys = "sort (map fst g)"
  have "node_to_idx ?keys v < 64 * 15" if "v \<in> set (kids g k)" for k v
  proof -
    have "v \<in> set ?keys" "distinct ?keys" "length ?keys \<le> 960"
      using that kids_closed [of g v k] assms(1) by (auto simp: graph_ok_def)
    then show ?thesis
      using node_to_idx_in(1) [of ?keys v] by simp
  qed
  then have "adj_rows h ?keys ?keys = adj_rows g ?keys ?keys"
    using assms(3) by (intro adj_rows_cong) (simp add: same_graph_def)
  then show ?thesis
    by (simp add: graph_serialize_def keys)
qed

lemma build_graph_distinct:
  "build_graph rows rs g = Inr h \<Longrightarrow> distinct (map fst g) \<Longrightarrow> distinct (map fst h)"
  by (induction rows rs g rule: build_graph.induct) (auto simp: distinct_update split: if_splits)

lemma graph_unserialize_distinct: "graph_unserialize s = Ok h t \<Longrightarrow> distinct (map fst h)"
  by (auto simp: graph_unserialize_def elim!: res_bind_OkE split: sum.splits intro: build_graph_distinct)

end
