(* ===== verification/Linked_Order.thy ===== *)
theory Linked_Order
  imports Condensation Ordered_List
begin

text \<open>
  \<open>OrderedList\<close> of \<open>themis/include/hotstuff/ordered_list.h\<close> and \<open>themis/src/ordered_list.cpp\<close> (the
  files of \<open>rashnu\<close> are the same): the commands seen, in order, as a doubly linked list between two
  dummy nodes with a table from the command to its node. Nodes lie in a heap; a null pointer is
  \<open>None\<close>, and following it is undefined.
\<close>

record linked_node =
  ln_cmd :: uint256
  ln_next :: "nat option"
  ln_prev :: "nat option"

record linked_list =
  nodes :: "nat \<Rightarrow> linked_node"
  next_node :: nat
  ll_head :: nat
  ll_tail :: nat
  linked_cache :: "(uint256 \<times> nat) list"

definition set_next :: "nat \<Rightarrow> nat option \<Rightarrow> linked_list \<Rightarrow> linked_list" where
  "set_next a p l = l\<lparr>nodes := (nodes l)(a := (nodes l a)\<lparr>ln_next := p\<rparr>)\<rparr>"

definition set_prev :: "nat \<Rightarrow> nat option \<Rightarrow> linked_list \<Rightarrow> linked_list" where
  "set_prev a p l = l\<lparr>nodes := (nodes l)(a := (nodes l a)\<lparr>ln_prev := p\<rparr>)\<rparr>"

text \<open>\<open>new LinkedNode(cmd)\<close>.\<close>

definition new_node :: "uint256 \<Rightarrow> linked_list \<Rightarrow> nat \<times> linked_list" where
  "new_node cmd l = (next_node l,
     l\<lparr>nodes := (nodes l)(next_node l := \<lparr>ln_cmd = cmd, ln_next = None, ln_prev = None\<rparr>),
       next_node := next_node l + 1\<rparr>)"

text \<open>The constructor; \<open>h0\<close> is \<open>get_hash(0)\<close>.\<close>

definition list_new :: "uint256 \<Rightarrow> linked_list" where
  "list_new h0 =
     (let z = \<lparr>ln_cmd = h0, ln_next = None, ln_prev = None\<rparr>;
          l = \<lparr>nodes = (\<lambda>a. z), next_node = 2, ll_head = 0, ll_tail = 1, linked_cache = []\<rparr>
      in set_prev 1 (Some 0) (set_next 0 (Some 1) l))"

definition push_back :: "uint256 \<Rightarrow> linked_list \<Rightarrow> (unit, linked_list) res" where
  "push_back cmd l =
     (if map_of (linked_cache l) cmd \<noteq> None then Ok () l
      else let (a, l) = new_node cmd l
           in case ln_prev (nodes l (ll_tail l)) of
                None \<Rightarrow> Exc Undefined_Behaviour l
              | Some prev \<Rightarrow>
                  let l = set_prev (ll_tail l) (Some a) (set_next a (Some (ll_tail l))
                            (set_prev a (Some prev) (set_next prev (Some a) l)))
                  in Ok () (l\<lparr>linked_cache := AList.update cmd a (linked_cache l)\<rparr>))"

definition remove_cmd :: "uint256 \<Rightarrow> linked_list \<Rightarrow> (unit, linked_list) res" where
  "remove_cmd cmd l =
     (case map_of (linked_cache l) cmd of
        None \<Rightarrow> Ok () l
      | Some a \<Rightarrow>
          (case (ln_prev (nodes l a), ln_next (nodes l a)) of
             (Some p, Some n) \<Rightarrow>
               let l = set_next a None (set_prev a None (set_prev n (Some p) (set_next p (Some n) l)))
               in Ok () (l\<lparr>linked_cache := AList.delete cmd (linked_cache l)\<rparr>)
           | _ \<Rightarrow> Exc Undefined_Behaviour l))"

definition get_size :: "linked_list \<Rightarrow> nat" where
  "get_size l = length (linked_cache l)"

subsection \<open>Iterators\<close>

type_synonym iterator = "nat option"

definition it_begin :: "linked_list \<Rightarrow> iterator" where
  "it_begin l = ln_next (nodes l (ll_head l))"

definition it_end :: "linked_list \<Rightarrow> iterator" where
  "it_end l = Some (ll_tail l)"

definition it_deref :: "linked_list \<Rightarrow> iterator \<Rightarrow> err + uint256" where
  "it_deref l it = (case it of None \<Rightarrow> Inl Undefined_Behaviour | Some a \<Rightarrow> Inr (ln_cmd (nodes l a)))"

definition it_next :: "linked_list \<Rightarrow> iterator \<Rightarrow> err + iterator" where
  "it_next l it = (case it of None \<Rightarrow> Inl Undefined_Behaviour | Some a \<Rightarrow> Inr (ln_next (nodes l a)))"

fun it_plus :: "linked_list \<Rightarrow> nat \<Rightarrow> iterator \<Rightarrow> err + iterator" where
  "it_plus l 0 it = Inr it"
| "it_plus l (Suc i) it = (case it_next l it of Inl e \<Rightarrow> Inl e | Inr it \<Rightarrow> it_plus l i it)"

subsection \<open>Traversals\<close>

text \<open>\<open>get_cmds\<close> as it is written: the loop does not move \<open>cur\<close>.\<close>

partial_function (option) get_cmds_loop :: "linked_list \<Rightarrow> nat option \<Rightarrow> uint256 list \<Rightarrow> (err + uint256 list) option" where
  "get_cmds_loop l cur cmds =
     (if cur = Some (ll_tail l) then Some (Inr cmds)
      else case it_deref l cur of
        Inl e \<Rightarrow> Some (Inl e)
      | Inr cmd \<Rightarrow> get_cmds_loop l cur (cmds @ [cmd]))"

definition get_cmds :: "linked_list \<Rightarrow> (err + uint256 list) option" where
  "get_cmds l = get_cmds_loop l (it_begin l) []"

text \<open>
  The addresses that \<open>for (ptr = p; ptr != tail; ptr = ptr->next)\<close> visits; the fuel is the number of
  nodes ever made.
\<close>

fun visits :: "nat \<Rightarrow> linked_list \<Rightarrow> nat option \<Rightarrow> err + nat list" where
  "visits 0 l p = Inl Endless_Loop"
| "visits (Suc n) l p =
     (if p = Some (ll_tail l) then Inr []
      else case p of
        None \<Rightarrow> Inl Undefined_Behaviour
      | Some a \<Rightarrow> map_sum id (\<lambda>as. a # as) (visits n l (ln_next (nodes l a))))"

text \<open>The test \<open>missing[u].count(v) > 0 || missing[v].count(u) > 0\<close>, which enters absent keys.\<close>

definition missing_pair :: "uint256 \<Rightarrow> uint256 \<Rightarrow> uint256 graph \<Rightarrow> bool \<times> uint256 graph" where
  "missing_pair u v m =
     (let m = graph_touch u m
      in if v \<in> set (kids m u) then (True, m)
         else let m = graph_touch v m in (u \<in> set (kids m v), m))"

fun missing_row :: "linked_list \<Rightarrow> uint256 \<Rightarrow> nat list \<Rightarrow> uint256 graph \<Rightarrow> (uint256 \<times> uint256) list \<times> uint256 graph" where
  "missing_row l u [] m = ([], m)"
| "missing_row l u (b # bs) m =
     (let v = ln_cmd (nodes l b); (hit, m) = missing_pair u v m; (rest, m) = missing_row l u bs m
      in (if hit then (u, v) # rest else rest, m))"

fun missing_rows :: "linked_list \<Rightarrow> nat list \<Rightarrow> uint256 graph \<Rightarrow> ((uint256 \<times> uint256) list, uint256 graph) res" where
  "missing_rows l [] m = Ok [] m"
| "missing_rows l (a # as) m =
     (case visits (next_node l) l (ln_next (nodes l a)) of
        Inl e \<Rightarrow> Exc e m
      | Inr bs \<Rightarrow>
          let (row, m) = missing_row l (ln_cmd (nodes l a)) bs m
          in res_bind (missing_rows l as m) (\<lambda>rest m. Ok (row @ rest) m))"

definition get_curr_missing_edges :: "linked_list \<Rightarrow> uint256 graph \<Rightarrow> ((uint256 \<times> uint256) list, uint256 graph) res" where
  "get_curr_missing_edges l m =
     (case visits (next_node l) l (it_begin l) of
        Inl e \<Rightarrow> Exc e m
      | Inr as \<Rightarrow> missing_rows l as m)"

subsection \<open>The list it stands for\<close>

definition arrow :: "linked_list \<Rightarrow> nat \<Rightarrow> nat \<Rightarrow> bool" where
  "arrow l a b \<longleftrightarrow> ln_next (nodes l a) = Some b \<and> ln_prev (nodes l b) = Some a"

definition linked :: "linked_list \<Rightarrow> nat list \<Rightarrow> bool" where
  "linked l as \<longleftrightarrow>
     (let full = ll_head l # as @ [ll_tail l]
      in distinct full \<and> (\<forall>a \<in> set full. a < next_node l) \<and> successively (arrow l) full)"

definition holds :: "linked_list \<Rightarrow> uint256 list \<Rightarrow> bool" where
  "holds l xs \<longleftrightarrow>
     (\<exists>as. linked l as \<and> map (\<lambda>a. ln_cmd (nodes l a)) as = xs \<and> distinct xs \<and>
       distinct (map fst (linked_cache l)) \<and>
       (\<forall>c a. map_of (linked_cache l) c = Some a \<longleftrightarrow> a \<in> set as \<and> ln_cmd (nodes l a) = c))"

lemma holds_new: "holds (list_new h0) []"
  by (auto simp: holds_def linked_def list_new_def arrow_def set_next_def set_prev_def)

lemma successively_frame:
  assumes "successively P xs" and "\<And>a b. a \<in> set (butlast xs) \<Longrightarrow> b \<in> set (tl xs) \<Longrightarrow> P a b \<Longrightarrow> Q a b"
  shows "successively Q xs"
  using assms by (induction xs rule: induct_list012) auto

lemma holdsE:
  assumes "holds l xs"
  obtains as where "linked l as" "map (\<lambda>a. ln_cmd (nodes l a)) as = xs" "distinct xs"
    "distinct (map fst (linked_cache l))"
    "\<And>c a. map_of (linked_cache l) c = Some a \<longleftrightarrow> a \<in> set as \<and> ln_cmd (nodes l a) = c"
  using assms by (auto simp: holds_def)

lemma linkedD:
  assumes "linked l as"
  shows "distinct (ll_head l # as @ [ll_tail l])" "\<forall>a \<in> set (ll_head l # as @ [ll_tail l]). a < next_node l"
    "successively (arrow l) (ll_head l # as @ [ll_tail l])"
  using assms unfolding linked_def Let_def by blast+

lemma holds_cached:
  assumes "holds l xs"
  shows "map_of (linked_cache l) c = None \<longleftrightarrow> c \<notin> set xs"
proof -
  obtain as where "map (\<lambda>a. ln_cmd (nodes l a)) as = xs"
    and c: "\<And>a. map_of (linked_cache l) c = Some a \<longleftrightarrow> a \<in> set as \<and> ln_cmd (nodes l a) = c"
    using assms by (rule holdsE) blast
  then have "c \<in> set xs \<longleftrightarrow> (\<exists>a. map_of (linked_cache l) c = Some a)"
    by (auto simp: c)
  then show ?thesis by auto
qed

lemma push_back_holds:
  assumes "holds l xs"
  shows "\<exists>l'. push_back c l = Ok () l' \<and> holds l' (if c \<in> set xs then xs else xs @ [c])"
proof (cases "c \<in> set xs")
  case True
  then show ?thesis
    using assms holds_cached [OF assms, of c] by (auto simp: push_back_def)
next
  case False
  obtain as where as: "linked l as" "map (\<lambda>a. ln_cmd (nodes l a)) as = xs" "distinct xs"
    "distinct (map fst (linked_cache l))"
    "\<And>c a. map_of (linked_cache l) c = Some a \<longleftrightarrow> a \<in> set as \<and> ln_cmd (nodes l a) = c"
    using assms by (rule holdsE) blast
  let ?n = "next_node l" and ?t = "ll_tail l"
  obtain bs x where x: "ll_head l # as = bs @ [x]"
    by (metis append_butlast_last_id list.distinct(1))
  let ?full = "bs @ [x, ?t]"
  have full: "ll_head l # as @ [?t] = ?full"
    using x by (metis append.assoc append_Cons append_Nil)
  have dist: "distinct ?full" "\<forall>a \<in> set ?full. a < ?n" and chain: "successively (arrow l) ?full"
    using linkedD [OF as(1)] unfolding full by blast+
  have prev: "ln_prev (nodes l ?t) = Some x"
    using chain by (simp add: successively_append_iff arrow_def)
  have ne: "?n \<noteq> ?t" "?n \<noteq> x" "x \<noteq> ?t" "?n \<notin> set bs" "x \<notin> set bs" "?t \<notin> set bs"
    using dist by auto
  have ne': "?n \<notin> set as" "?n \<noteq> ll_head l"
    using linkedD(2) [OF as(1)] by auto
  define l' where "l' = (set_prev ?t (Some ?n) (set_next ?n (Some ?t) (set_prev ?n (Some x) (set_next x (Some ?n)
     (snd (new_node c l))))))\<lparr>linked_cache := AList.update c ?n (linked_cache l)\<rparr>"
  have run: "push_back c l = Ok () l'"
    using holds_cached [OF assms, of c] False ne(1) prev
    by (simp add: push_back_def new_node_def l'_def Let_def set_next_def set_prev_def)
  have same: "ln_cmd (nodes l' a) = (if a = ?n then c else ln_cmd (nodes l a))" for a
    using ne by (simp add: l'_def new_node_def set_next_def set_prev_def)
  have "successively (arrow l') (bs @ [x])"
  proof (rule successively_frame)
    show "successively (arrow l) (bs @ [x])"
      using chain by (simp add: successively_append_iff)
    fix a b assume "a \<in> set (butlast (bs @ [x]))" "b \<in> set (tl (bs @ [x]))" "arrow l a b"
    moreover have "b \<in> set (bs @ [x])"
      using \<open>b \<in> set (tl (bs @ [x]))\<close> by (rule list.set_sel(2) [rotated]) simp
    ultimately show "arrow l' a b"
      using ne dist by (auto simp: arrow_def l'_def new_node_def set_next_def set_prev_def)
  qed
  moreover have "arrow l' x ?n" "arrow l' ?n ?t"
    using ne by (simp_all add: arrow_def l'_def new_node_def set_next_def set_prev_def)
  ultimately have chain': "successively (arrow l') (bs @ [x, ?n, ?t])"
    by (simp add: successively_append_iff)
  have full': "ll_head l' # (as @ [?n]) @ [ll_tail l'] = bs @ [x, ?n, ?t]"
    using x by (simp add: l'_def new_node_def set_next_def set_prev_def)
  have "linked l' (as @ [?n])"
    unfolding linked_def Let_def full' using chain' dist ne
    by (auto simp: l'_def new_node_def set_next_def set_prev_def)
  moreover have "map (\<lambda>a. ln_cmd (nodes l' a)) (as @ [?n]) = xs @ [c]"
    using ne'(1) as(2) by (auto simp: same)
  moreover have cache: "linked_cache l' = AList.update c ?n (linked_cache l)"
    by (simp add: l'_def)
  moreover have "map_of (linked_cache l') c' = Some a \<longleftrightarrow> a \<in> set (as @ [?n]) \<and> ln_cmd (nodes l' a) = c'" for c' a
    using as(5) ne'(1) False as(2) by (auto simp: cache update_conv' same)
  ultimately have "holds l' (xs @ [c])"
    using as(3,4) False by (auto simp: holds_def distinct_update)
  then show ?thesis
    using run False by auto
qed

lemma remove_holds:
  assumes "holds l xs"
  shows "\<exists>l'. remove_cmd c l = Ok () l' \<and> holds l' (remove1 c xs)"
proof (cases "c \<in> set xs")
  case False
  then show ?thesis
    using assms holds_cached [OF assms, of c] by (auto simp: remove_cmd_def remove1_idem)
next
  case True
  obtain as where as: "linked l as" "map (\<lambda>a. ln_cmd (nodes l a)) as = xs" "distinct xs"
    "distinct (map fst (linked_cache l))"
    "\<And>c a. map_of (linked_cache l) c = Some a \<longleftrightarrow> a \<in> set as \<and> ln_cmd (nodes l a) = c"
    using assms by (rule holdsE) blast
  obtain a where a: "map_of (linked_cache l) c = Some a" "a \<in> set as" "ln_cmd (nodes l a) = c"
    using True as(2,5) by auto
  then obtain us vs where uv: "as = us @ a # vs"
    by (auto simp: in_set_conv_decomp)
  obtain us' p where p: "ll_head l # us = us' @ [p]"
    by (metis append_butlast_last_id list.distinct(1))
  obtain n vs' where n: "vs @ [ll_tail l] = n # vs'"
    by (cases vs) auto
  let ?full = "us' @ [p, a, n] @ vs'"
  have full: "ll_head l # as @ [ll_tail l] = ?full"
    using p n uv by (metis append.assoc append_Cons append_Nil)
  note d = linkedD [OF as(1), unfolded full]
  have arrows: "arrow l p a" "arrow l a n" and left: "successively (arrow l) (us' @ [p])"
    and right: "successively (arrow l) (n # vs')"
    using d(3) by (simp_all add: successively_append_iff)
  define l' where "l' = (set_next a None (set_prev a None (set_prev n (Some p) (set_next p (Some n) l))))
    \<lparr>linked_cache := AList.delete c (linked_cache l)\<rparr>"
  have ne: "p \<noteq> a" "p \<noteq> n" "a \<noteq> n" "p \<notin> set us'" "p \<notin> set vs'" "a \<notin> set us'" "a \<notin> set vs'" "n \<notin> set us'" "n \<notin> set vs'"
    using d(1) by auto
  have run: "remove_cmd c l = Ok () l'"
    using a arrows by (simp add: remove_cmd_def l'_def arrow_def Let_def set_next_def set_prev_def)
  have same: "ln_cmd (nodes l' x) = ln_cmd (nodes l x)" for x
    by (simp add: l'_def set_next_def set_prev_def)
  have cache: "linked_cache l' = AList.delete c (linked_cache l)"
    by (simp add: l'_def)
  have frame: "arrow l' x y" if "x \<noteq> p" "x \<noteq> a" "y \<noteq> n" "y \<noteq> a" "arrow l x y" for x y
    using that by (auto simp: l'_def arrow_def set_next_def set_prev_def)
  have "successively (arrow l') (us' @ [p])"
  proof (rule successively_frame [OF left])
    fix x y assume "x \<in> set (butlast (us' @ [p]))" "y \<in> set (tl (us' @ [p]))" "arrow l x y"
    moreover have "y \<in> set (us' @ [p])"
      using \<open>y \<in> set (tl (us' @ [p]))\<close> by (rule list.set_sel(2) [rotated]) simp
    ultimately show "arrow l' x y"
      using ne by (intro frame) auto
  qed
  moreover have "successively (arrow l') (n # vs')"
  proof (rule successively_frame [OF right])
    fix x y assume "x \<in> set (butlast (n # vs'))" "y \<in> set (tl (n # vs'))" "arrow l x y"
    moreover have "x \<in> set (n # vs')"
      using \<open>x \<in> set (butlast (n # vs'))\<close> by (rule in_set_butlastD)
    ultimately show "arrow l' x y"
      using ne by (intro frame) auto
  qed
  moreover have "arrow l' p n"
    using ne by (simp add: l'_def arrow_def set_next_def set_prev_def)
  ultimately have chain: "successively (arrow l') (us' @ [p, n] @ vs')"
    by (simp add: successively_append_iff)
  have full': "ll_head l' # (us @ vs) @ [ll_tail l'] = us' @ [p, n] @ vs'"
    using p n by (simp add: l'_def set_next_def set_prev_def)
  have "linked l' (us @ vs)"
    unfolding linked_def Let_def full' using chain d(1,2) by (auto simp: l'_def set_next_def set_prev_def)
  moreover have "map (\<lambda>x. ln_cmd (nodes l' x)) (us @ vs) = remove1 c xs"
    using as(2,3) a(3) uv by (auto simp: same remove1_append)
  moreover have "map_of (linked_cache l') c' = Some x \<longleftrightarrow> x \<in> set (us @ vs) \<and> ln_cmd (nodes l' x) = c'" for c' x
  proof -
    have "inj_on (\<lambda>a. ln_cmd (nodes l a)) (set as)" "distinct as"
      using as(2,3) by (auto simp: distinct_map)
    then have "x \<in> set (us @ vs) \<longleftrightarrow> x \<in> set as \<and> ln_cmd (nodes l x) \<noteq> c"
      using a(2,3) uv by (auto simp: inj_on_def)
    then show ?thesis
      by (auto simp: cache delete_conv' same as(5))
  qed
  ultimately have "holds l' (remove1 c xs)"
    using as(3,4) by (auto simp: holds_def cache distinct_delete)
  then show ?thesis
    using run by blast
qed

lemma get_size_holds:
  assumes "holds l xs"
  shows "get_size l = length xs"
proof -
  obtain as where as: "map (\<lambda>a. ln_cmd (nodes l a)) as = xs" "distinct xs" "distinct (map fst (linked_cache l))"
    "\<And>c a. map_of (linked_cache l) c = Some a \<longleftrightarrow> a \<in> set as \<and> ln_cmd (nodes l a) = c"
    using assms by (rule holdsE) blast
  have "set (map fst (linked_cache l)) = dom (map_of (linked_cache l))"
    by (simp add: dom_map_of_conv_image_fst)
  also have "\<dots> = set xs"
    using as(1,4) by (auto simp: dom_def)
  finally have "card (set (map fst (linked_cache l))) = card (set xs)"
    by simp
  then show ?thesis
    using as(2,3) by (simp add: distinct_card get_size_def del: set_map)
qed

subsection \<open>Traversals find it\<close>

lemma visits_chain:
  assumes "successively (arrow l) (a # as @ [ll_tail l])" and "ll_tail l \<notin> set as" and "length as < n"
  shows "visits n l (ln_next (nodes l a)) = Inr as"
  using assms
proof (induction as arbitrary: a n)
  case Nil
  then show ?case by (cases n) (auto simp: arrow_def)
next
  case (Cons b as)
  then obtain m where "n = Suc m" by (cases n) auto
  then show ?case
    using Cons by (auto simp: arrow_def)
qed

lemma linked_length:
  assumes "linked l as"
  shows "length as < next_node l"
proof -
  have "set (ll_head l # as @ [ll_tail l]) \<subseteq> {..<next_node l}"
    using linkedD(2) [OF assms] by auto
  then have "card (set (ll_head l # as @ [ll_tail l])) \<le> next_node l"
    using card_mono [of "{..<next_node l}"] by simp
  then show ?thesis
    using distinct_card [OF linkedD(1) [OF assms]] by simp
qed

lemma visits_all:
  assumes "linked l as"
  shows "visits (next_node l) l (it_begin l) = Inr as"
  using visits_chain [OF linkedD(3) [OF assms] _ linked_length [OF assms]] linkedD(1) [OF assms]
  by (simp add: it_begin_def)

lemma visits_behind:
  assumes "linked l (us @ a # vs)"
  shows "visits (next_node l) l (ln_next (nodes l a)) = Inr vs"
  using linkedD [OF assms] linked_length [OF assms]
  by (intro visits_chain) (auto simp: successively_append_iff successively_Cons)

text \<open>The ordered pairs of a list that a relation relates in one direction or the other.\<close>

fun pairs :: "('a \<Rightarrow> 'a \<Rightarrow> bool) \<Rightarrow> 'a list \<Rightarrow> ('a \<times> 'a) list" where
  "pairs P [] = []"
| "pairs P (x # xs) = map (Pair x) (filter (\<lambda>y. P x y \<or> P y x) xs) @ pairs P xs"

lemma pairs_iff: "distinct xs \<Longrightarrow> (x, y) \<in> set (pairs P xs) \<longleftrightarrow> before xs x y \<and> (P x y \<or> P y x)"
  by (induction xs) (auto simp: before_Cons dest: before_in_set)

lemma missing_pair_kids:
  "fst (missing_pair u v m) \<longleftrightarrow> v \<in> set (kids m u) \<or> u \<in> set (kids m v)" "kids (snd (missing_pair u v m)) = kids m"
  by (auto simp: missing_pair_def Let_def fun_eq_iff)

lemma missing_row_kids:
  "fst (missing_row l u bs m) = map (Pair u) (filter (\<lambda>v. v \<in> set (kids m u) \<or> u \<in> set (kids m v))
     (map (\<lambda>b. ln_cmd (nodes l b)) bs)) \<and> kids (snd (missing_row l u bs m)) = kids m"
  by (induction bs arbitrary: m) (simp_all add: Let_def case_prod_beta missing_pair_kids)

lemma missing_rows_kids:
  assumes "linked l (us @ as)"
  shows "\<exists>m'. missing_rows l as m = Ok (pairs (\<lambda>u v. v \<in> set (kids m u)) (map (\<lambda>a. ln_cmd (nodes l a)) as)) m' \<and> kids m' = kids m"
  using assms
proof (induction as arbitrary: us m)
  case (Cons a as)
  let ?r = "missing_row l (ln_cmd (nodes l a)) as m"
  obtain m' where "missing_rows l as (snd ?r) = Ok (pairs (\<lambda>u v. v \<in> set (kids m u)) (map (\<lambda>a. ln_cmd (nodes l a)) as)) m'"
    "kids m' = kids m"
    using Cons.IH [of "us @ [a]" "snd ?r"] Cons.prems missing_row_kids [of l "ln_cmd (nodes l a)" as m] by auto
  then show ?case
    using visits_behind [OF Cons.prems] missing_row_kids [of l "ln_cmd (nodes l a)" as m]
    by (simp add: Let_def case_prod_beta)
qed simp

lemma missing_edges_holds:
  assumes "holds l xs"
  shows "\<exists>m'. get_curr_missing_edges l m = Ok (pairs (\<lambda>u v. v \<in> set (kids m u)) xs) m' \<and> kids m' = kids m"
proof -
  obtain as where as: "linked l as" "map (\<lambda>a. ln_cmd (nodes l a)) as = xs"
    using assms by (rule holdsE) blast
  show ?thesis
    using missing_rows_kids [of l "[]" as m] as(1) by (simp add: get_curr_missing_edges_def visits_all [OF as(1)] as(2))
qed

lemma get_cmds_loop_stuck:
  assumes "get_cmds_loop l cur cmds = Some r"
  shows "cur = Some (ll_tail l) \<or> cur = None"
proof (induction l cur cmds r rule: get_cmds_loop.raw_induct)
  case (1 f l cur cmds r)
  show ?case
  proof (cases "cur = Some (ll_tail l) \<or> cur = None")
    case False
    then obtain cmd where "it_deref l cur = Inr cmd"
      by (auto simp: it_deref_def)
    then have "f l cur (cmds @ [cmd]) = Some r"
      using 1(2) False by auto
    then show ?thesis by (rule 1(1))
  qed simp
qed (rule assms)

lemma get_cmds_holds:
  assumes "holds l xs"
  shows "get_cmds l = (if xs = [] then Some (Inr []) else None)"
proof -
  obtain as where as: "linked l as" "map (\<lambda>a. ln_cmd (nodes l a)) as = xs"
    using assms by (rule holdsE) blast
  note d = linkedD [OF as(1)]
  show ?thesis
  proof (cases as)
    case Nil
    then show ?thesis
      using d(3) as(2) by (simp add: get_cmds_def it_begin_def arrow_def get_cmds_loop.simps [of l])
  next
    case (Cons a bs)
    then have "it_begin l = Some a" "a \<noteq> ll_tail l" "xs \<noteq> []"
      using d(1,3) as(2) by (auto simp: it_begin_def arrow_def)
    then show ?thesis
      using get_cmds_loop_stuck [of l "it_begin l" "[]"] by (cases "get_cmds l") (auto simp: get_cmds_def)
  qed
qed

subsection \<open>The contract of a tracker\<close>

text \<open>
  The replica keeps the commands it has seen in a tracker: \<open>SeenOrderTracker\<close> in FlashOrder, this
  list in Themis and Rashnu. What the callers rely on is the set of tracked commands; the list also
  keeps them in the order in which they arrived.
\<close>

datatype track_op = Track uint256 | Untrack uint256

fun track_set :: "track_op \<Rightarrow> uint256 set \<Rightarrow> uint256 set" where
  "track_set (Track c) X = insert c X"
| "track_set (Untrack c) X = X - {c}"

fun track_list :: "track_op \<Rightarrow> uint256 list \<Rightarrow> uint256 list" where
  "track_list (Track c) xs = (if c \<in> set xs then xs else xs @ [c])"
| "track_list (Untrack c) xs = remove1 c xs"

fun run_ops :: "(uint256 \<Rightarrow> 's \<Rightarrow> (unit, 's) res) \<Rightarrow> (uint256 \<Rightarrow> 's \<Rightarrow> (unit, 's) res) \<Rightarrow> track_op list \<Rightarrow> 's \<Rightarrow> (unit, 's) res" where
  "run_ops push rem [] s = Ok () s"
| "run_ops push rem (Track c # ops) s = res_bind (push c s) (\<lambda>u s. run_ops push rem ops s)"
| "run_ops push rem (Untrack c # ops) s = res_bind (rem c s) (\<lambda>u s. run_ops push rem ops s)"

lemma set_track_list: "distinct xs \<Longrightarrow> set (fold track_list ops xs) = fold track_set ops (set xs)"
proof (induction ops arbitrary: xs)
  case (Cons x ops)
  then show ?case
    by (cases x) (simp_all add: insert_absorb set_remove1_eq)
qed simp

locale tracker =
  fixes tracks :: "'s \<Rightarrow> uint256 set \<Rightarrow> bool"
    and push :: "uint256 \<Rightarrow> 's \<Rightarrow> (unit, 's) res"
    and rem :: "uint256 \<Rightarrow> 's \<Rightarrow> (unit, 's) res"
  assumes push_tracks: "tracks s X \<Longrightarrow> \<exists>s'. push c s = Ok () s' \<and> tracks s' (insert c X)"
    and rem_tracks: "tracks s X \<Longrightarrow> \<exists>s'. rem c s = Ok () s' \<and> tracks s' (X - {c})"
begin

lemma run_tracks: "tracks s X \<Longrightarrow> \<exists>s'. run_ops push rem ops s = Ok () s' \<and> tracks s' (fold track_set ops X)"
proof (induction ops arbitrary: s X)
  case (Cons x ops)
  then show ?case
  proof (cases x)
    case (Track c)
    obtain s' where "push c s = Ok () s'" "tracks s' (insert c X)"
      using push_tracks Cons.prems by blast
    then show ?thesis using Cons.IH Track by simp
  next
    case (Untrack c)
    obtain s' where "rem c s = Ok () s'" "tracks s' (X - {c})"
      using rem_tracks Cons.prems by blast
    then show ?thesis using Cons.IH Untrack by simp
  qed
qed simp

end

locale ordered_tracker =
  fixes lists :: "'s \<Rightarrow> uint256 list \<Rightarrow> bool"
    and push :: "uint256 \<Rightarrow> 's \<Rightarrow> (unit, 's) res"
    and rem :: "uint256 \<Rightarrow> 's \<Rightarrow> (unit, 's) res"
  assumes lists_distinct: "lists s xs \<Longrightarrow> distinct xs"
    and push_lists: "lists s xs \<Longrightarrow> \<exists>s'. push c s = Ok () s' \<and> lists s' (if c \<in> set xs then xs else xs @ [c])"
    and rem_lists: "lists s xs \<Longrightarrow> \<exists>s'. rem c s = Ok () s' \<and> lists s' (remove1 c xs)"
begin

lemma run_lists: "lists s xs \<Longrightarrow> \<exists>s'. run_ops push rem ops s = Ok () s' \<and> lists s' (fold track_list ops xs)"
proof (induction ops arbitrary: s xs)
  case (Cons x ops)
  then show ?case
  proof (cases x)
    case (Track c)
    obtain s' where "push c s = Ok () s'" "lists s' (if c \<in> set xs then xs else xs @ [c])"
      using push_lists Cons.prems by blast
    then show ?thesis using Cons.IH Track by simp
  next
    case (Untrack c)
    obtain s' where "rem c s = Ok () s'" "lists s' (remove1 c xs)"
      using rem_lists Cons.prems by blast
    then show ?thesis using Cons.IH Untrack by simp
  qed
qed simp

end

sublocale ordered_tracker \<subseteq> set_view: tracker "\<lambda>s X. \<exists>xs. lists s xs \<and> set xs = X" push rem
proof unfold_locales
  fix s X c assume "\<exists>xs. lists s xs \<and> set xs = X"
  then obtain xs where xs: "lists s xs" "set xs = X" by blast
  show "\<exists>s'. push c s = Ok () s' \<and> (\<exists>xs. lists s' xs \<and> set xs = insert c X)"
  proof (cases "c \<in> set xs")
    case True
    then show ?thesis
      using push_lists [OF xs(1), of c] xs(2) by auto
  next
    case False
    moreover have "set (xs @ [c]) = insert c X"
      using xs(2) by simp
    ultimately show ?thesis
      using push_lists [OF xs(1), of c] by (simp only: if_False) blast
  qed
  show "\<exists>s'. rem c s = Ok () s' \<and> (\<exists>xs. lists s' xs \<and> set xs = X - {c})"
    using rem_lists [OF xs(1), of c] set_remove1_eq [OF lists_distinct [OF xs(1)], of c] unfolding xs(2) by blast
qed

interpretation linked_tracker: ordered_tracker holds push_back remove_cmd
proof unfold_locales
  show "distinct xs" if "holds s xs" for s xs
    using that by (auto simp: holds_def)
qed (rule push_back_holds remove_holds, assumption)+

interpretation seen_tracker: tracker "\<lambda>s X. seen s = X" "\<lambda>c s. Ok () (seen_add c s)" "\<lambda>c s. Ok () (seen_remove c s)"
  by unfold_locales (simp_all add: seen_add_def seen_remove_def)

text \<open>
  C19: from the empty list on, any sequence of insertions and removals runs without following a null
  pointer and leaves the commands of the abstract list, in order; its size is theirs, and as a set
  they are those that the tracker of FlashOrder holds after the same operations.
\<close>

theorem linked_list_refines:
  "\<exists>l. run_ops push_back remove_cmd ops (list_new h0) = Ok () l \<and> holds l (fold track_list ops []) \<and>
    get_size l = length (fold track_list ops []) \<and>
    run_ops (\<lambda>c s. Ok () (seen_add c s)) (\<lambda>c s. Ok () (seen_remove c s)) ops \<lparr>seen = {}\<rparr>
      = Ok () \<lparr>seen = set (fold track_list ops [])\<rparr>"
proof -
  obtain l where l: "run_ops push_back remove_cmd ops (list_new h0) = Ok () l" "holds l (fold track_list ops [])"
    using linked_tracker.run_lists [OF holds_new] by blast
  have "set (fold track_list ops []) = fold track_set ops {}"
    using set_track_list [of "[]" ops] by simp
  then show ?thesis
    using l get_size_holds [OF l(2)] seen_tracker.run_tracks [of "\<lparr>seen = {}\<rparr>" "{}" ops]
    by (auto intro!: seen_order_tracker.equality)
qed

text \<open>
  \<open>get_cmds\<close> returns only on an empty list; with a command in the list its loop never ends.
\<close>

theorem get_cmds_returns_iff_empty:
  "\<exists>l. run_ops push_back remove_cmd ops (list_new h0) = Ok () l \<and>
    get_cmds l = (if fold track_list ops [] = [] then Some (Inr []) else None)"
  using linked_tracker.run_lists [OF holds_new] get_cmds_holds by blast

text \<open>
  The missing edges a replica reports are exactly the pairs of commands it has seen, in the
  order in which it saw them, between which the table records a missing edge in one direction or
  the other; the table keeps its edges.
\<close>

theorem missing_edges_reported:
  "\<exists>l es m'. run_ops push_back remove_cmd ops (list_new h0) = Ok () l \<and> get_curr_missing_edges l m = Ok es m' \<and>
    kids m' = kids m \<and>
    (\<forall>x y. (x, y) \<in> set es = (before (fold track_list ops []) x y \<and> (y \<in> set (kids m x) \<or> x \<in> set (kids m y))))"
proof -
  obtain l where l: "run_ops push_back remove_cmd ops (list_new h0) = Ok () l" "holds l (fold track_list ops [])"
    using linked_tracker.run_lists [OF holds_new] by blast
  have "distinct (fold track_list ops [])"
    using l(2) by (rule linked_tracker.lists_distinct)
  then show ?thesis
    using l(1) missing_edges_holds [OF l(2), of m] by (auto simp: pairs_iff)
qed

end
