(* ===== verification/Themis_Entity.thy ===== *)
theory Themis_Entity
  imports Graph_Codec Linked_Order Storage
begin

text \<open>
  \<open>Block\<close> and \<open>EntityStorage\<close> of Themis (\<open>themis/include/hotstuff/entity.h\<close>, \<open>themis/src/entity.cpp\<close>):
  the block carries a dependency graph and the edges that complete earlier graphs, the storage
  keeps the local orders, the updates and the missing edges. The caches of blocks and commands are
  those of FlashOrder.
\<close>

subsection \<open>The block\<close>

type_synonym edge = "uint256 \<times> uint256"

record tblock =
  tb_parent_hashes :: "uint256 list"
  tb_graph :: "uint256 graph"
  tb_e_update :: "edge list"
  tb_qc :: "quorum_cert option"
  tb_extra :: bytes
  tb_hash :: uint256
  tb_parents :: "ref list"
  tb_qc_ref :: "ref option"
  tb_self_qc :: "quorum_cert option"
  tb_height :: u32
  tb_delivered :: bool
  tb_decision :: u8
  tb_voted :: "replica_id set"

definition tblock_empty :: tblock where
  "tblock_empty = \<lparr>tb_parent_hashes = [], tb_graph = [], tb_e_update = [], tb_qc = None, tb_extra = [], tb_hash = 0,
     tb_parents = [], tb_qc_ref = None, tb_self_qc = None, tb_height = 0, tb_delivered = False, tb_decision = 0, tb_voted = {}\<rparr>"

definition update_graph :: "edge \<Rightarrow> tblock \<Rightarrow> tblock" where
  "update_graph e b = b\<lparr>tb_graph := graph_insert (fst e) (snd e) (tb_graph b)\<rparr>"

definition block_remove_cmd :: "uint256 \<Rightarrow> tblock \<Rightarrow> tblock" where
  "block_remove_cmd c b =
     b\<lparr>tb_graph := map (\<lambda>(u, vs). (u, filter (\<lambda>v. v \<noteq> c) vs)) (AList.delete c (tb_graph b))\<rparr>"

text \<open>The pairs \<open>i < j\<close> of nodes, in the order of the two loops, with no edge in either direction.\<close>

fun unconnected :: "uint256 graph \<Rightarrow> uint256 list \<Rightarrow> edge list" where
  "unconnected g [] = []"
| "unconnected g (u # us) =
     map (Pair u) (filter (\<lambda>v. v \<notin> set (kids g u) \<and> u \<notin> set (kids g v)) us) @ unconnected g us"

definition get_missing_edges :: "tblock \<Rightarrow> edge list" where
  "get_missing_edges b = unconnected (tb_graph b) (map fst (tb_graph b))"

fun all_connected :: "uint256 graph \<Rightarrow> uint256 list \<Rightarrow> bool" where
  "all_connected g [] = True"
| "all_connected g (u # us) =
     ((\<forall>v \<in> set us. v \<in> set (kids g u) \<or> u \<in> set (kids g v)) \<and> all_connected g us)"

definition is_tournament_graph :: "tblock \<Rightarrow> bool" where
  "is_tournament_graph b = all_connected (tb_graph b) (map fst (tb_graph b))"

subsection \<open>Its codec\<close>

definition edge_serialize :: "edge \<Rightarrow> data_stream \<Rightarrow> data_stream" where
  "edge_serialize e s = uint256_serialize (snd e) (uint256_serialize (fst e) s)"

definition edge_unserialize :: "data_stream \<Rightarrow> (edge, data_stream) res" where
  "edge_unserialize s =
     res_bind (uint256_unserialize s) (\<lambda>u s. res_bind (uint256_unserialize s) (\<lambda>v s. Ok (u, v) s))"

definition tblock_serialize :: "tblock \<Rightarrow> data_stream \<Rightarrow> (unit, data_stream) res" where
  "tblock_serialize b s =
     res_bind (graph_serialize (tb_graph b) (put_vec uint256_serialize (tb_parent_hashes b) s)) (\<lambda>u s.
       let s = put_vec edge_serialize (tb_e_update b) s
       in case tb_qc b of
            None \<Rightarrow> Exc Undefined_Behaviour s
          | Some qc \<Rightarrow> res_bind (qc_serialize qc s) (\<lambda>u s.
              Ok () (ds_put_data (tb_extra b) (ds_put (of_nat (length (tb_extra b)) :: u32) s))))"

definition tblock_get_hash :: "(bytes \<Rightarrow> uint256) \<Rightarrow> tblock \<Rightarrow> err + uint256" where
  "tblock_get_hash sha b =
     (case tblock_serialize b ds_new of Ok u s \<Rightarrow> Inr (sha (ds_bytes s)) | Exc e s \<Rightarrow> Inl e)"

definition tblock_unserialize :: "(bytes \<Rightarrow> sig option) \<Rightarrow> (bytes \<Rightarrow> uint256) \<Rightarrow> data_stream \<Rightarrow> (tblock, data_stream) res" where
  "tblock_unserialize psig sha s =
     res_bind (get_vec uint256_unserialize s) (\<lambda>ps s.
     res_bind (graph_unserialize s) (\<lambda>g s.
     res_bind (get_vec edge_unserialize s) (\<lambda>es s.
     res_bind (qc_unserialize psig s) (\<lambda>qc s.
     res_bind (ds_get s) (\<lambda>n s.
     res_bind (if (n :: u32) = 0 then Ok [] s else ds_get_data_inplace (unat n) s) (\<lambda>ex s.
       let b = tblock_empty\<lparr>tb_parent_hashes := ps, tb_graph := g, tb_e_update := es, tb_qc := Some qc, tb_extra := ex\<rparr>
       in case tblock_get_hash sha b of
            Inl e \<Rightarrow> Exc e s
          | Inr h \<Rightarrow> Ok (b\<lparr>tb_hash := h\<rparr>) s))))))"

text \<open>The constructor of a proposed block.\<close>

definition tblock_make :: "(bytes \<Rightarrow> uint256) \<Rightarrow> (ref \<Rightarrow> tblock) \<Rightarrow> ref list \<Rightarrow> uint256 graph \<Rightarrow> edge list \<Rightarrow> quorum_cert
    \<Rightarrow> bytes \<Rightarrow> u32 \<Rightarrow> ref option \<Rightarrow> quorum_cert option \<Rightarrow> u8 \<Rightarrow> err + tblock" where
  "tblock_make sha hp ps g es qc ex ht qr sq dec =
     (let b = tblock_empty\<lparr>tb_parent_hashes := map (\<lambda>p. tb_hash (hp p)) ps, tb_graph := g, tb_e_update := es,
              tb_qc := Some qc, tb_extra := ex, tb_parents := ps, tb_qc_ref := qr, tb_self_qc := sq, tb_height := ht,
              tb_decision := dec\<rparr>
      in map_sum id (\<lambda>h. b\<lparr>tb_hash := h\<rparr>) (tblock_get_hash sha b))"

subsection \<open>The storage\<close>

record themis_storage =
  ordered_hash_cache :: "(replica_id \<times> uint256 list list) list"
  l_update_cache :: "(replica_id \<times> edge list list) list"
  local_order_seen_execute_level_cache :: linked_list
  edges_missing_cache :: "uint256 graph"
  local_order_seen_propose_level_cache :: linked_list
  t_proposed_cmds_cache :: "uint256 set"

definition themis_storage_new :: "uint256 \<Rightarrow> themis_storage" where
  "themis_storage_new h0 = \<lparr>ordered_hash_cache = [], l_update_cache = [],
     local_order_seen_execute_level_cache = list_new h0, edges_missing_cache = [],
     local_order_seen_propose_level_cache = list_new h0, t_proposed_cmds_cache = {}\<rparr>"

definition queue_at :: "'k \<Rightarrow> ('k \<times> 'q list) list \<Rightarrow> 'q list" where
  "queue_at k m = (case map_of m k of None \<Rightarrow> [] | Some q \<Rightarrow> q)"

definition t_is_cmd_proposed :: "uint256 \<Rightarrow> themis_storage \<Rightarrow> bool" where
  "t_is_cmd_proposed c st \<longleftrightarrow> c \<in> t_proposed_cmds_cache st"

definition t_add_local_order :: "replica_id \<Rightarrow> uint256 list \<Rightarrow> edge list \<Rightarrow> themis_storage \<Rightarrow> themis_storage" where
  "t_add_local_order rid ordered l_update st =
     (let unproposed = filter (\<lambda>c. \<not> t_is_cmd_proposed c st) ordered;
          st = (if unproposed = [] then st
                else st\<lparr>ordered_hash_cache := AList.update rid (queue_at rid (ordered_hash_cache st) @ [unproposed]) (ordered_hash_cache st)\<rparr>)
      in st\<lparr>l_update_cache := AList.update rid (queue_at rid (l_update_cache st) @ [l_update]) (l_update_cache st)\<rparr>)"

definition add_ordered_hash_to_front :: "replica_id \<Rightarrow> uint256 list \<Rightarrow> themis_storage \<Rightarrow> themis_storage" where
  "add_ordered_hash_to_front rid ordered st =
     st\<lparr>ordered_hash_cache := AList.update rid (ordered # queue_at rid (ordered_hash_cache st)) (ordered_hash_cache st)\<rparr>"

text \<open>\<open>front\<close> and \<open>pop_front\<close> on an empty queue are undefined; an emptied queue is erased.\<close>

definition pop_queue :: "'k \<Rightarrow> ('k \<times> 'q list) list \<Rightarrow> err + ('k \<times> 'q list) list" where
  "pop_queue k m =
     (case queue_at k m of
        [] \<Rightarrow> Inl Undefined_Behaviour
      | x # q \<Rightarrow> Inr (if q = [] then AList.delete k m else AList.update k q m))"

definition clear_front_ordered_hash :: "replica_id \<Rightarrow> themis_storage \<Rightarrow> (unit, themis_storage) res" where
  "clear_front_ordered_hash rid st =
     (case pop_queue rid (ordered_hash_cache st) of
        Inl e \<Rightarrow> Exc e st
      | Inr m \<Rightarrow> Ok () (st\<lparr>ordered_hash_cache := m\<rparr>))"

definition clear_front_l_update :: "replica_id \<Rightarrow> themis_storage \<Rightarrow> (unit, themis_storage) res" where
  "clear_front_l_update rid st =
     (case pop_queue rid (l_update_cache st) of
        Inl e \<Rightarrow> Exc e st
      | Inr m \<Rightarrow> Ok () (st\<lparr>l_update_cache := m\<rparr>))"

definition t_get_local_order_cache_size :: "themis_storage \<Rightarrow> nat" where
  "t_get_local_order_cache_size st = length (ordered_hash_cache st)"

definition get_ordered_hash_replia_vector :: "(replica_id list \<Rightarrow> replica_id list) \<Rightarrow> themis_storage \<Rightarrow> replica_id list" where
  "get_ordered_hash_replia_vector iter st = iter (map fst (ordered_hash_cache st))"

definition get_l_update_replia_vector :: "(replica_id list \<Rightarrow> replica_id list) \<Rightarrow> themis_storage \<Rightarrow> replica_id list" where
  "get_l_update_replia_vector iter st = iter (map fst (l_update_cache st))"

definition get_ordered_hash_vector :: "replica_id \<Rightarrow> themis_storage \<Rightarrow> err + uint256 list" where
  "get_ordered_hash_vector rid st =
     (case queue_at rid (ordered_hash_cache st) of [] \<Rightarrow> Inl Undefined_Behaviour | x # q \<Rightarrow> Inr x)"

definition get_l_update_vector :: "replica_id \<Rightarrow> themis_storage \<Rightarrow> err + edge list" where
  "get_l_update_vector rid st =
     (case queue_at rid (l_update_cache st) of [] \<Rightarrow> Inl Undefined_Behaviour | x # q \<Rightarrow> Inr x)"

text \<open>
  \<open>clear_ordered_hash_if_propose\<close> rotates every queue once and erases from each order the first
  proposed command; an order left empty is dropped, the queue stays.
\<close>

fun erase_first :: "('a \<Rightarrow> bool) \<Rightarrow> 'a list \<Rightarrow> 'a list" where
  "erase_first P [] = []"
| "erase_first P (x # xs) = (if P x then xs else x # erase_first P xs)"

fun rotate_queue :: "('a \<Rightarrow> bool) \<Rightarrow> nat \<Rightarrow> 'a list list \<Rightarrow> 'a list list" where
  "rotate_queue P 0 q = q"
| "rotate_queue P (Suc n) [] = []"
| "rotate_queue P (Suc n) (x # q) = (let y = erase_first P x in rotate_queue P n (if y = [] then q else q @ [y]))"

definition clear_ordered_hash_if_propose :: "themis_storage \<Rightarrow> themis_storage" where
  "clear_ordered_hash_if_propose st =
     st\<lparr>ordered_hash_cache := map (\<lambda>(k, q). (k, rotate_queue (\<lambda>c. t_is_cmd_proposed c st) (length q) q)) (ordered_hash_cache st)\<rparr>"

definition t_update_local_order_seen :: "uint256 \<Rightarrow> themis_storage \<Rightarrow> (unit, themis_storage) res" where
  "t_update_local_order_seen c st =
     (case push_back c (local_order_seen_execute_level_cache st) of
        Exc e l \<Rightarrow> Exc e (st\<lparr>local_order_seen_execute_level_cache := l\<rparr>)
      | Ok u l \<Rightarrow>
          (let st = st\<lparr>local_order_seen_execute_level_cache := l\<rparr>
           in case push_back c (local_order_seen_propose_level_cache st) of
                Exc e l \<Rightarrow> Exc e (st\<lparr>local_order_seen_propose_level_cache := l\<rparr>)
              | Ok u l \<Rightarrow> Ok () (st\<lparr>local_order_seen_propose_level_cache := l\<rparr>)))"

fun t_update_all_seen :: "uint256 list \<Rightarrow> themis_storage \<Rightarrow> (unit, themis_storage) res" where
  "t_update_all_seen [] st = Ok () st"
| "t_update_all_seen (c # cs) st = res_bind (t_update_local_order_seen c st) (\<lambda>u st. t_update_all_seen cs st)"

definition t_remove_seen_execute_level :: "uint256 \<Rightarrow> themis_storage \<Rightarrow> (unit, themis_storage) res" where
  "t_remove_seen_execute_level c st =
     (case remove_cmd c (local_order_seen_execute_level_cache st) of
        Exc e l \<Rightarrow> Exc e (st\<lparr>local_order_seen_execute_level_cache := l\<rparr>)
      | Ok u l \<Rightarrow> Ok () (st\<lparr>local_order_seen_execute_level_cache := l\<rparr>))"

definition t_remove_seen_propose_level :: "uint256 \<Rightarrow> themis_storage \<Rightarrow> (unit, themis_storage) res" where
  "t_remove_seen_propose_level c st =
     (case remove_cmd c (local_order_seen_propose_level_cache st) of
        Exc e l \<Rightarrow> Exc e (st\<lparr>local_order_seen_propose_level_cache := l\<rparr>)
      | Ok u l \<Rightarrow> Ok () (st\<lparr>local_order_seen_propose_level_cache := l\<rparr>))"

definition get_unproposed_cmds :: "themis_storage \<Rightarrow> (err + uint256 list) option" where
  "get_unproposed_cmds st = get_cmds (local_order_seen_propose_level_cache st)"

definition get_updated_missing_edges :: "themis_storage \<Rightarrow> (edge list, themis_storage) res" where
  "get_updated_missing_edges st =
     (case get_curr_missing_edges (local_order_seen_execute_level_cache st) (edges_missing_cache st) of
        Exc e m \<Rightarrow> Exc e (st\<lparr>edges_missing_cache := m\<rparr>)
      | Ok es m \<Rightarrow> Ok es (st\<lparr>edges_missing_cache := m\<rparr>))"

text \<open>The subscripts enter absent keys with an empty set.\<close>

definition add_missing_edge :: "uint256 \<Rightarrow> uint256 \<Rightarrow> themis_storage \<Rightarrow> themis_storage" where
  "add_missing_edge v1 v2 st =
     (let m = graph_touch v2 (edges_missing_cache st)
      in st\<lparr>edges_missing_cache := (if v1 \<in> set (kids m v2) then m else graph_insert v1 v2 m)\<rparr>)"

definition graph_erase :: "'v \<Rightarrow> 'v \<Rightarrow> 'v graph \<Rightarrow> 'v graph" where
  "graph_erase u v g = AList.update u (filter (\<lambda>w. w \<noteq> v) (kids g u)) g"

definition remove_missing_edge :: "uint256 \<Rightarrow> uint256 \<Rightarrow> themis_storage \<Rightarrow> themis_storage" where
  "remove_missing_edge v1 v2 st =
     (let m = graph_touch v1 (edges_missing_cache st);
          m = (if v2 \<in> set (kids m v1) then graph_erase v1 v2 m else m);
          m = graph_touch v2 m;
          m = (if v1 \<in> set (kids m v2) then graph_erase v2 v1 m else m)
      in st\<lparr>edges_missing_cache := m\<rparr>)"

definition t_add_to_proposed :: "uint256 \<Rightarrow> themis_storage \<Rightarrow> themis_storage" where
  "t_add_to_proposed c st = st\<lparr>t_proposed_cmds_cache := insert c (t_proposed_cmds_cache st)\<rparr>"

definition t_remove_from_proposed :: "uint256 \<Rightarrow> themis_storage \<Rightarrow> themis_storage" where
  "t_remove_from_proposed c st = st\<lparr>t_proposed_cmds_cache := t_proposed_cmds_cache st - {c}\<rparr>"

subsection \<open>Tournaments\<close>

lemma unconnected_Nil: "unconnected g us = [] \<longleftrightarrow> all_connected g us"
  by (induction us) (auto simp: filter_empty_conv)

lemma unconnected_iff:
  "distinct us \<Longrightarrow> (u, v) \<in> set (unconnected g us) \<longleftrightarrow> before us u v \<and> v \<notin> set (kids g u) \<and> u \<notin> set (kids g v)"
  by (induction us) (auto simp: before_Cons dest: before_in_set)

lemma before_either: "u \<in> set us \<Longrightarrow> v \<in> set us \<Longrightarrow> u \<noteq> v \<Longrightarrow> before us u v \<or> before us v u"
  by (induction us) (auto simp: before_Cons)

text \<open>
  C20: the missing edges of a block are its pairs of distinct vertices with no edge in either
  direction, each pair once; the block is a tournament graph exactly when there are none.
\<close>

theorem missing_edges_tournament:
  assumes "distinct (map fst (tb_graph b))"
  shows "(is_tournament_graph b \<longleftrightarrow> get_missing_edges b = []) \<and>
    (\<forall>u v. u \<noteq> v \<longrightarrow> ((u, v) \<in> set (get_missing_edges b) \<or> (v, u) \<in> set (get_missing_edges b)) =
       (u \<in> fst ` set (tb_graph b) \<and> v \<in> fst ` set (tb_graph b) \<and>
        v \<notin> set (kids (tb_graph b) u) \<and> u \<notin> set (kids (tb_graph b) v))) \<and>
    (\<forall>u v. (u, v) \<in> set (get_missing_edges b) \<longrightarrow> (v, u) \<notin> set (get_missing_edges b))"
proof -
  let ?us = "map fst (tb_graph b)"
  have anti: "\<not> (before us u v \<and> before us v u)" if "distinct us" for us :: "uint256 list" and u v
    using that by (induction us) (auto simp: before_Cons dest: before_in_set)
  have dom: "w \<in> fst ` set (tb_graph b) \<longleftrightarrow> w \<in> set ?us" for w
    by simp
  have "before ?us u v \<or> before ?us v u \<longleftrightarrow> u \<in> set ?us \<and> v \<in> set ?us" if "u \<noteq> v" for u v
    using that before_either [of u ?us v] before_in_set [of ?us u v] before_in_set [of ?us v u] by blast
  then show ?thesis
    unfolding dom is_tournament_graph_def get_missing_edges_def unconnected_Nil unconnected_iff [OF assms]
    using anti [OF assms] by blast
qed

theorem missing_edges_tournament_witness:
  "is_tournament_graph (tblock_empty\<lparr>tb_graph := [(h256 1, [h256 2]), (h256 2, [])]\<rparr>) \<longleftrightarrow>
    get_missing_edges (tblock_empty\<lparr>tb_graph := [(h256 1, [h256 2]), (h256 2, [])]\<rparr>) = []"
  using missing_edges_tournament [of "tblock_empty\<lparr>tb_graph := [(h256 1, [h256 2]), (h256 2, [])]\<rparr>"] by simp

subsection \<open>The table of missing edges\<close>

definition missing :: "themis_storage \<Rightarrow> uint256 \<Rightarrow> uint256 \<Rightarrow> bool" where
  "missing st u v \<longleftrightarrow> v \<in> set (kids (edges_missing_cache st) u) \<or> u \<in> set (kids (edges_missing_cache st) v)"

lemma kids_erase: "set (kids (graph_erase u v g) w) = set (kids g w) - (if w = u then {v} else {})"
  by (auto simp: graph_erase_def kids_def update_conv')

text \<open>
  Whatever the direction in which the table holds an edge, adding a pair makes exactly that
  unordered pair missing in addition, and removing a pair takes exactly it away.
\<close>

theorem missing_table_pairs:
  "(missing (add_missing_edge a b st) u v \<longleftrightarrow> missing st u v \<or> {u, v} = {a, b}) \<and>
   (missing (remove_missing_edge a b st) u v \<longleftrightarrow> missing st u v \<and> {u, v} \<noteq> {a, b})"
  by (auto simp: missing_def add_missing_edge_def remove_missing_edge_def kids_insert kids_erase Let_def doubleton_eq_iff
      split: if_splits)

subsection \<open>Rotating the queues\<close>

lemma rotate_queue_all:
  "rotate_queue P (length q) (q @ r) = r @ filter (\<lambda>x. x \<noteq> []) (map (erase_first P) q)"
proof (induction q arbitrary: r)
  case (Cons x q)
  show ?case
    using Cons.IH [of "if erase_first P x = [] then r else r @ [erase_first P x]"] by (auto simp: Let_def)
qed simp

subsection \<open>Round trip\<close>

definition edge_enc :: "edge \<Rightarrow> bytes" where
  "edge_enc e = uint256_enc (fst e) @ uint256_enc (snd e)"

interpretation edgec: codec edge_serialize edge_unserialize edge_enc "\<lambda>_. True"
proof unfold_locales
  show "edge_serialize e s = ds_put_data (edge_enc e) s" for e s
    by (simp add: edge_serialize_def edge_enc_def u256c.put_enc ds_put_data_append)
next
  fix s e post
  assume wf: "ds_wf s" and bs: "ds_bytes s = edge_enc e @ post"
  obtain u v where e: "e = (u, v)" by (cases e)
  show "edge_unserialize s = Ok e (ds_skip (length (edge_enc e)) s)"
    unfolding edge_unserialize_def
    apply (rule u256c.get_bind [OF wf TrueI])
     apply (simp add: bs edge_enc_def)
    apply (rule u256c.get_bind [OF _ TrueI, where post = post], assumption)
    by (simp_all add: edge_enc_def e)
qed

interpretation edgev: codec "put_vec edge_serialize" "get_vec edge_unserialize" "vec_enc edge_enc"
    "vec_ok (\<lambda>_. True)"
  by (rule edgec.vec)

definition tblock_ok :: "(bytes \<Rightarrow> sig option) \<Rightarrow> tblock \<Rightarrow> bool" where
  "tblock_ok psig b \<longleftrightarrow>
     length (tb_parent_hashes b) < 2 ^ 32 \<and> graph_ok (tb_graph b) \<and> length (tb_e_update b) < 2 ^ 32 \<and>
     length (tb_extra b) < 2 ^ 32 \<and> (\<exists>q. tb_qc b = Some (QuorumCertSecp256k1 q) \<and> sqc_ok psig q)"

lemma tblock_codec:
  assumes "tblock_ok psig b"
  obtains bs where "\<And>s. tblock_serialize b s = Ok () (ds_put_data bs s)"
    and "\<And>s post. ds_wf s \<Longrightarrow> ds_bytes s = bs @ post \<Longrightarrow>
      \<exists>g. same_graph g (tb_graph b) \<and> tblock_unserialize psig sha s
        = Ok (tblock_empty\<lparr>tb_parent_hashes := tb_parent_hashes b, tb_graph := g, tb_e_update := tb_e_update b,
            tb_qc := tb_qc b, tb_extra := tb_extra b, tb_hash := sha bs\<rparr>) (ds_skip (length bs) s)"
proof -
  obtain q where q: "tb_qc b = Some (QuorumCertSecp256k1 q)" "sqc_ok psig q"
    using assms by (auto simp: tblock_ok_def)
  have len: "vec_ok (\<lambda>_. True) (tb_parent_hashes b)" "vec_ok (\<lambda>_. True) (tb_e_update b)" "length (tb_extra b) < 2 ^ 32"
    and g: "graph_ok (tb_graph b)"
    using assms by (auto simp: tblock_ok_def intro: vec_okI)
  obtain gs where gs: "\<And>s. graph_serialize (tb_graph b) s = Ok () (ds_put_data gs s)"
    "\<And>s post. ds_wf s \<Longrightarrow> ds_bytes s = gs @ post \<Longrightarrow>
      \<exists>h. graph_unserialize s = Ok h (ds_skip (length gs) s) \<and> same_graph h (tb_graph b)"
    using graph_serialize_ok [OF g] by blast
  let ?ps = "vec_enc uint256_enc (tb_parent_hashes b)" and ?es = "vec_enc edge_enc (tb_e_update b)"
  let ?n = "of_nat (length (tb_extra b)) :: u32"
  let ?bs = "?ps @ gs @ ?es @ sqc_enc q @ le_bytes 4 ?n @ tb_extra b"
  have ser: "tblock_serialize c s = Ok () (ds_put_data ?bs s)"
    if "distinct (map fst (tb_graph c))" "same_graph (tb_graph c) (tb_graph b)" "tb_parent_hashes c = tb_parent_hashes b"
      "tb_e_update c = tb_e_update b" "tb_qc c = tb_qc b" "tb_extra c = tb_extra b" for c s
    using that(3-) graph_serialize_same [OF g that(1,2)]
    by (simp add: tblock_serialize_def u256v.put_enc [OF len(1)] edgev.put_enc [OF len(2)] gs(1) q(1)
        qc_serialize_ok [OF q(2)] u32c.put_enc ds_put_data_append Let_def del: qc_serialize.simps)
  have n: "unat ?n = length (tb_extra b)" "?n = 0 \<longleftrightarrow> tb_extra b = []"
  proof -
    show "unat ?n = length (tb_extra b)"
      using len(3) by (simp add: unat_of_nat take_bit_nat_eq_self)
    then show "?n = 0 \<longleftrightarrow> tb_extra b = []"
      by (metis length_0_conv unat_eq_zero)
  qed
  have unser: "\<exists>h. same_graph h (tb_graph b) \<and> tblock_unserialize psig sha s
      = Ok (tblock_empty\<lparr>tb_parent_hashes := tb_parent_hashes b, tb_graph := h, tb_e_update := tb_e_update b,
          tb_qc := tb_qc b, tb_extra := tb_extra b, tb_hash := sha ?bs\<rparr>) (ds_skip (length ?bs) s)"
    if wf: "ds_wf s" and bs: "ds_bytes s = ?bs @ post" for s post
  proof -
    have "ds_wf (ds_skip (length ?ps) s)"
      using wf bs by (intro ds_wf_skip) simp_all
    then obtain h where h: "graph_unserialize (ds_skip (length ?ps) s) = Ok h (ds_skip (length gs) (ds_skip (length ?ps) s))"
      "same_graph h (tb_graph b)"
      using gs(2) [of "ds_skip (length ?ps) s" "?es @ sqc_enc q @ le_bytes 4 ?n @ tb_extra b @ post"] bs by auto
    let ?b = "tblock_empty\<lparr>tb_parent_hashes := tb_parent_hashes b, tb_graph := h, tb_e_update := tb_e_update b,
      tb_qc := Some (QuorumCertSecp256k1 q), tb_extra := tb_extra b\<rparr>"
    have hash: "tblock_get_hash sha ?b = Inr (sha ?bs)"
      using ser [of ?b ds_new] h(2) graph_unserialize_distinct [OF h(1)] q(1) by (simp add: tblock_get_hash_def)
    have tail: "(if ?n = 0 then Ok [] t else ds_get_data_inplace (unat ?n) t) = Ok (tb_extra b) (ds_skip (length (tb_extra b)) t)"
      if "ds_wf t" "ds_bytes t = tb_extra b @ post" for t
      using ds_get_data_inplace_bytes [OF that] n by simp
    let ?s1 = "ds_skip (length ?ps) s"
    let ?s2 = "ds_skip (length gs) ?s1"
    let ?s3 = "ds_skip (length ?es) ?s2"
    let ?s4 = "ds_skip (length (sqc_enc q)) ?s3"
    let ?s5 = "ds_skip (length (le_bytes 4 ?n)) ?s4"
    have wfs: "ds_wf ?s1" "ds_wf ?s2" "ds_wf ?s3" "ds_wf ?s4" "ds_wf ?s5"
      using wf bs by (simp_all add: ds_wf_skip)
    have 1: "get_vec uint256_unserialize s = Ok (tb_parent_hashes b) ?s1"
      using u256v.get_enc [OF wf len(1)] bs by simp
    have 3: "get_vec edge_unserialize ?s2 = Ok (tb_e_update b) ?s3"
      by (rule edgev.get_enc [OF wfs(2) len(2)]) (simp add: bs)
    have 4: "qc_unserialize psig ?s3 = Ok (QuorumCertSecp256k1 q) ?s4"
      by (rule qc_unserialize_ok [OF wfs(3) q(2)]) (simp add: bs)
    have 5: "ds_get ?s4 = Ok ?n ?s5"
      by (rule u32c.get_enc [OF wfs(4) TrueI]) (simp add: bs)
    have 6: "(if ?n = 0 then Ok [] ?s5 else ds_get_data_inplace (unat ?n) ?s5) = Ok (tb_extra b) (ds_skip (length (tb_extra b)) ?s5)"
      by (rule tail [OF wfs(5)]) (simp add: bs)
    have "tblock_unserialize psig sha s = Ok (tblock_empty\<lparr>tb_parent_hashes := tb_parent_hashes b, tb_graph := h,
        tb_e_update := tb_e_update b, tb_qc := tb_qc b, tb_extra := tb_extra b, tb_hash := sha ?bs\<rparr>) (ds_skip (length ?bs) s)"
      unfolding tblock_unserialize_def 1 h(1) 3 4 5 6 res_bind.simps Let_def hash sum.case
      by (simp add: q(1) add.assoc)
    with h(2) show ?thesis by blast
  qed
  show thesis
    using that [of ?bs] ser [of b] unser g by (simp add: same_graph_def graph_ok_def)
qed

text \<open>
  A block with at most 960 vertices reads back with the same parents, updates, certificate and
  extra data and the same graph, and its reader computes the hash of the bytes its sender hashed,
  whatever the order of the vertices in the two tables.
\<close>

theorem tblock_round_trip:
  assumes "tblock_ok psig b"
  shows "\<exists>s b' t. tblock_serialize b ds_new = Ok () s \<and> tblock_unserialize psig sha s = Ok b' t \<and> ds_bytes t = [] \<and>
    tb_parent_hashes b' = tb_parent_hashes b \<and> same_graph (tb_graph b') (tb_graph b) \<and>
    tb_e_update b' = tb_e_update b \<and> tb_qc b' = tb_qc b \<and> tb_extra b' = tb_extra b \<and>
    tblock_get_hash sha b = Inr (tb_hash b')"
proof -
  obtain bs where bs: "\<And>s. tblock_serialize b s = Ok () (ds_put_data bs s)"
    "\<And>s post. ds_wf s \<Longrightarrow> ds_bytes s = bs @ post \<Longrightarrow>
      \<exists>g. same_graph g (tb_graph b) \<and> tblock_unserialize psig sha s
        = Ok (tblock_empty\<lparr>tb_parent_hashes := tb_parent_hashes b, tb_graph := g, tb_e_update := tb_e_update b,
            tb_qc := tb_qc b, tb_extra := tb_extra b, tb_hash := sha bs\<rparr>) (ds_skip (length bs) s)"
    using tblock_codec [OF assms, of sha] by blast
  obtain g where "same_graph g (tb_graph b)" "tblock_unserialize psig sha (ds_put_data bs ds_new)
      = Ok (tblock_empty\<lparr>tb_parent_hashes := tb_parent_hashes b, tb_graph := g, tb_e_update := tb_e_update b,
          tb_qc := tb_qc b, tb_extra := tb_extra b, tb_hash := sha bs\<rparr>) (ds_skip (length bs) (ds_put_data bs ds_new))"
    using bs(2) [of "ds_put_data bs ds_new" "[]"] by auto
  with bs(1) show ?thesis
    by (auto simp: tblock_get_hash_def)
qed

definition example_tblock :: tblock where
  "example_tblock = tblock_empty\<lparr>tb_parent_hashes := [h256 3], tb_graph := [(h256 1, [h256 2]), (h256 2, [])],
     tb_qc := Some (QuorumCertSecp256k1 example_qc)\<rparr>"

theorem tblock_round_trip_witness:
  "\<exists>s b' t. tblock_serialize example_tblock ds_new = Ok () s \<and> tblock_unserialize Some (\<lambda>xs. h256 9) s = Ok b' t \<and>
    tb_parent_hashes b' = [h256 3] \<and> tblock_get_hash (\<lambda>xs. h256 9) example_tblock = Inr (tb_hash b')"
proof -
  have "tblock_ok Some example_tblock"
    using example_qc_ok by (simp add: tblock_ok_def example_tblock_def tblock_empty_def graph_ok_def graph_closed_def)
  from tblock_round_trip [OF this, of "\<lambda>xs. h256 9"] show ?thesis
    by (auto simp: example_tblock_def)
qed

end
