(* ===== verification/Themis_Order.thy ===== *)
theory Themis_Order
  imports Themis_Entity Replica_Config Preferences
begin

text \<open>
  The ordering of Themis (\<open>themis/src/consensus.cpp\<close>): \<open>fair_propose\<close> builds the dependency graph of a
  proposal from the local orders at the front of the queues, \<open>fair_update\<close> the edges that complete
  older graphs, \<open>fair_finalize\<close> the total order of a complete graph.
\<close>

text \<open>The orders in which the loops over hash tables find their entries.\<close>

record iters =
  it_replicas :: "replica_id list \<Rightarrow> replica_id list"
  it_txs :: "(uint256 \<times> u16) list \<Rightarrow> (uint256 \<times> u16) list"
  it_edges :: "(edge \<times> u16) list \<Rightarrow> (edge \<times> u16) list"
  it_graph :: "uint256 graph \<Rightarrow> uint256 graph"
  it_succs :: "uint256 \<Rightarrow> uint256 list \<Rightarrow> uint256 list"

definition iters_ok :: "iters \<Rightarrow> bool" where
  "iters_ok it \<longleftrightarrow> (\<forall>xs. mset (it_replicas it xs) = mset xs) \<and> (\<forall>xs. mset (it_txs it xs) = mset xs) \<and>
     (\<forall>xs. mset (it_edges it xs) = mset xs) \<and> (\<forall>xs. mset (it_graph it xs) = mset xs) \<and>
     (\<forall>v xs. mset (it_succs it v xs) = mset xs)"

definition iters_id :: iters where
  "iters_id = \<lparr>it_replicas = id, it_txs = id, it_edges = id, it_graph = id, it_succs = (\<lambda>v. id)\<rparr>"

lemma iters_id_simps [simp]:
  "it_replicas iters_id rs = rs" "it_txs iters_id ts = ts" "it_edges iters_id es = es" "it_graph iters_id g = g"
  "it_succs iters_id v vs = vs"
  by (simp_all add: iters_id_def)

subsection \<open>Counting\<close>

text \<open>\<open>m[k]++\<close> on a table of 16-bit counters. The nested table of the edges is keyed by the pair.\<close>

definition count_up :: "'k \<Rightarrow> ('k \<times> u16) list \<Rightarrow> ('k \<times> u16) list" where
  "count_up k m = AList.update k (case map_of m k of None \<Rightarrow> 1 | Some n \<Rightarrow> n + 1) m"

definition tally :: "'k list \<Rightarrow> ('k \<times> u16) list" where
  "tally ks = fold count_up ks []"

fun later_pairs :: "'a list \<Rightarrow> ('a \<times> 'a) list" where
  "later_pairs [] = []"
| "later_pairs (x # xs) = map (Pair x) xs @ later_pairs xs"

text \<open>\<open>1.0 * n >= threshold\<close>, and the insertion of the edges that reach it.\<close>

definition reaches :: "u16 \<Rightarrow> real \<Rightarrow> bool" where
  "reaches n t \<longleftrightarrow> t \<le> real (unat n)"

definition add_edge :: "real \<Rightarrow> edge \<times> u16 \<Rightarrow> uint256 graph \<Rightarrow> uint256 graph" where
  "add_edge t e g =
     (let ((u, v), n) = e
      in if \<not> reaches n t then g
         else let g = graph_touch v g in if u \<in> set (kids g v) then g else graph_insert u v g)"

definition dependency_graph :: "iters \<Rightarrow> replica_config \<Rightarrow> uint256 list list \<Rightarrow> uint256 graph" where
  "dependency_graph it cf orders =
     (let counts = it_txs it (tally (concat orders));
          g = fold graph_touch (map fst (filter (\<lambda>(c, n). reaches n (non_blank_tx_threshold cf)) counts)) []
      in fold (add_edge (tx_edge_threshold cf)) (it_edges it (tally (concat (map later_pairs orders)))) g)"

definition solid_txs :: "replica_config \<Rightarrow> uint256 list list \<Rightarrow> uint256 set" where
  "solid_txs cf orders =
     set (map fst (filter (\<lambda>(c, n). reaches n (solid_tx_threshold cf)) (tally (concat orders))))"

subsection \<open>The proposal\<close>

fun split_solid :: "uint256 set \<Rightarrow> uint256 list list \<Rightarrow> uint256 list list \<times> uint256 list list" where
  "split_solid S [] = ([], [])"
| "split_solid S (c # cs) =
     (if \<exists>tx \<in> set c. tx \<in> S then (let (a, b) = split_solid S cs in (c # a, b)) else ([], c # cs))"

text \<open>
  Step 7 for one transaction: \<open>graph.erase(tx)\<close>, then \<open>graph[p].erase(tx)\<close> for its predecessors \<open>p\<close> in
  the graph as it was.
\<close>

definition remove_tx :: "(uint256 \<Rightarrow> uint256 list) \<Rightarrow> uint256 \<Rightarrow> uint256 graph \<Rightarrow> uint256 graph" where
  "remove_tx preds tx g = fold (\<lambda>p g. graph_erase p tx g) (preds tx) (AList.delete tx g)"

fun fronts :: "replica_id list \<Rightarrow> themis_storage \<Rightarrow> err + uint256 list list" where
  "fronts [] st = Inr []"
| "fronts (r # rs) st =
     (case get_ordered_hash_vector r st of Inl e \<Rightarrow> Inl e | Inr xs \<Rightarrow> map_sum id (Cons xs) (fronts rs st))"

fun clear_fronts :: "replica_id list \<Rightarrow> themis_storage \<Rightarrow> (unit, themis_storage) res" where
  "clear_fronts [] st = Ok () st"
| "clear_fronts (r # rs) st = res_bind (clear_front_ordered_hash r st) (\<lambda>u st. clear_fronts rs st)"

definition fair_graph :: "iters \<Rightarrow> replica_config \<Rightarrow> uint256 list list \<Rightarrow> err + uint256 graph" where
  "fair_graph it cf orders =
     (let g = it_graph it (dependency_graph it cf orders)
      in case get_condensation_graph (it_succs it) g of
           Inl e \<Rightarrow> Inl e
         | Inr sccs \<Rightarrow>
             let (kept, gone) = split_solid (solid_txs cf orders) sccs;
                 preds = (\<lambda>tx. it_succs it tx (get_decendents_from_transposed_graph tx g))
             in Inr (fold (remove_tx preds) (concat gone) g))"

definition fair_propose :: "iters \<Rightarrow> replica_config \<Rightarrow> themis_storage \<Rightarrow> (uint256 graph, themis_storage) res" where
  "fair_propose it cf st =
     (let replicas = get_ordered_hash_replia_vector (it_replicas it) st
      in case fronts replicas st of
           Inl e \<Rightarrow> Exc e st
         | Inr orders \<Rightarrow>
             (case fair_graph it cf orders of
                Inl e \<Rightarrow> Exc e st
              | Inr g \<Rightarrow> res_bind (clear_fronts replicas st) (\<lambda>u st. Ok g st)))"

subsection \<open>The update\<close>

fun update_fronts :: "replica_id list \<Rightarrow> themis_storage \<Rightarrow> err + edge list list" where
  "update_fronts [] st = Inr []"
| "update_fronts (r # rs) st =
     (case get_l_update_vector r st of Inl e \<Rightarrow> Inl e | Inr xs \<Rightarrow> map_sum id (Cons xs) (update_fronts rs st))"

fun clear_updates :: "replica_id list \<Rightarrow> themis_storage \<Rightarrow> (unit, themis_storage) res" where
  "clear_updates [] st = Ok () st"
| "clear_updates (r # rs) st = res_bind (clear_front_l_update r st) (\<lambda>u st. clear_updates rs st)"

definition edge_list :: "uint256 graph \<Rightarrow> edge list" where
  "edge_list g = concat (map (\<lambda>(u, vs). map (Pair u) vs) g)"

definition update_edges :: "iters \<Rightarrow> replica_config \<Rightarrow> edge list list \<Rightarrow> edge list" where
  "update_edges it cf updates =
     edge_list (it_graph it (fold (add_edge (tx_edge_threshold cf)) (it_edges it (tally (concat updates))) []))"

definition fair_update :: "iters \<Rightarrow> replica_config \<Rightarrow> themis_storage \<Rightarrow> (edge list, themis_storage) res" where
  "fair_update it cf st =
     (let replicas = get_l_update_replia_vector (it_replicas it) st
      in case update_fronts replicas st of
           Inl e \<Rightarrow> Exc e st
         | Inr updates \<Rightarrow> res_bind (clear_updates replicas st) (\<lambda>u st. Ok (update_edges it cf updates) st))"

subsection \<open>The final order\<close>

definition t_fair_finalize :: "iters \<Rightarrow> tblock \<Rightarrow> err + uint256 list" where
  "t_fair_finalize it b =
     (if \<not> is_tournament_graph b then Inr []
      else map_sum id concat (get_condensation_graph (it_succs it) (it_graph it (tb_graph b))))"

subsection \<open>What the counters count\<close>

lemma count_up_lookup:
  "map_of (count_up k m) j = (if j = k then Some (case map_of m k of None \<Rightarrow> 1 | Some n \<Rightarrow> n + 1) else map_of m j)"
  by (simp add: count_up_def update_conv')

lemma tally_lookup: "map_of (tally ks) k = (if k \<in> set ks then Some (of_nat (count_list ks k)) else None)"
proof -
  have "map_of (fold count_up ks m) k =
    (if k \<in> set ks then Some (of_nat (count_list ks k) + (case map_of m k of None \<Rightarrow> 0 | Some n \<Rightarrow> n)) else map_of m k)"
    for m :: "('a \<times> u16) list"
    by (induction ks arbitrary: m) (auto simp: count_up_lookup count_list_0_iff split: option.splits)
  from this [of "[]"] show ?thesis
    by (simp add: tally_def)
qed

lemma tally_distinct: "distinct (map fst (tally ks))"
proof -
  have "distinct (map fst m) \<Longrightarrow> distinct (map fst (fold count_up ks m))" for m :: "('a \<times> u16) list"
    by (induction ks arbitrary: m) (simp_all add: count_up_def distinct_update)
  from this [of "[]"] show ?thesis
    by (simp add: tally_def)
qed

lemma tally_entry: "(k, n) \<in> set (tally ks) \<longleftrightarrow> k \<in> set ks \<and> n = of_nat (count_list ks k)"
  using tally_lookup [of ks k] map_of_eq_Some_iff [OF tally_distinct [of ks], of k n]
  by (auto split: if_splits)

lemma set_it:
  assumes "iters_ok it"
  shows "set (it_replicas it rs) = set rs" and "set (it_txs it xs) = set xs" and "set (it_edges it es) = set es"
    and "set (it_graph it g) = set g" and "set (it_succs it v vs) = set vs"
  using assms by (auto simp: iters_ok_def intro!: mset_eq_setD)

lemma count_later_pairs: "count_list (later_pairs xs) (u, v) = npairs xs u v"
proof -
  have "count_list (map (Pair x) xs) (u, v) = (if x = u then count_list xs v else 0)" for x :: 'a and xs
    by (induction xs) auto
  then show ?thesis
    by (induction xs) auto
qed

lemma set_later_pairs: "(u, v) \<in> set (later_pairs xs) \<longleftrightarrow> before xs u v"
  by (induction xs) (auto simp: before_Cons)

lemma count_list_concat: "count_list (concat xss) x = (\<Sum>xs \<leftarrow> xss. count_list xs x)"
  by (induction xss) auto

text \<open>How many of the orders name a transaction, and how many put it before another one.\<close>

definition naming :: "uint256 list list \<Rightarrow> uint256 \<Rightarrow> nat" where
  "naming orders c = length (filter (\<lambda>xs. c \<in> set xs) orders)"

definition support :: "uint256 list list \<Rightarrow> uint256 \<Rightarrow> uint256 \<Rightarrow> nat" where
  "support orders u v = length (filter (\<lambda>xs. before xs u v) orders)"

lemma count_naming: "\<forall>xs \<in> set orders. distinct xs \<Longrightarrow> count_list (concat orders) c = naming orders c"
  by (induction orders) (simp_all add: naming_def count_list_distinct)

lemma count_support:
  "\<forall>xs \<in> set orders. distinct xs \<Longrightarrow> count_list (concat (map later_pairs orders)) (u, v) = support orders u v"
  by (induction orders) (simp_all add: support_def count_later_pairs npairs_distinct)

lemma naming_le: "naming orders c \<le> length orders" and support_le: "support orders u v \<le> length orders"
  by (simp_all add: naming_def support_def)

lemma support_naming:
  "support orders u v \<le> naming orders u" "support orders u v \<le> naming orders v"
proof -
  show "support orders u v \<le> naming orders u"
    by (induction orders) (auto simp: support_def naming_def dest: before_in_set)
  show "support orders u v \<le> naming orders v"
    by (induction orders) (auto simp: support_def naming_def dest: before_in_set)
qed

lemma reaches_small: "n < 2 ^ 16 \<Longrightarrow> reaches (of_nat n) t \<longleftrightarrow> t \<le> real n"
  by (simp add: reaches_def unat_of_nat take_bit_nat_eq_self)

subsection \<open>The dependency graph\<close>

lemma edges_kids: "(u, v) \<in> edges g \<longleftrightarrow> v \<in> set (kids g u)"
  by (simp add: edges_def)

lemma graph_closed_edges:
  assumes "distinct (map fst g)"
  shows "graph_closed g \<longleftrightarrow> snd ` edges g \<subseteq> fst ` set g"
  using kids_iff [OF assms] by (fastforce simp: graph_closed_def edges_def image_iff)

lemma add_edge_edges:
  "edges (add_edge t ((u, v), n) g) = (if reaches n t \<and> (v, u) \<notin> edges g then insert (u, v) (edges g) else edges g)"
  by (auto simp: add_edge_def edges_kids kids_insert Let_def split: if_splits)

lemma add_edge_keys:
  "fst ` set (add_edge t ((u, v), n) g) =
     fst ` set g \<union> (if reaches n t then insert v (if (v, u) \<in> edges g then {} else {u}) else {})"
  by (auto simp: add_edge_def edges_kids keys_insert keys_touch Let_def split: if_splits)

lemma distinct_touch: "distinct (map fst g) \<Longrightarrow> distinct (map fst (graph_touch v g))"
  by (auto simp: graph_touch_def)

lemma distinct_insert: "distinct (map fst g) \<Longrightarrow> distinct (map fst (graph_insert u v g))"
  by (simp add: graph_insert_def distinct_update)

lemma add_edge_distinct: "distinct (map fst g) \<Longrightarrow> distinct (map fst (add_edge t e g))"
  by (cases e) (auto simp: add_edge_def Let_def distinct_touch distinct_insert)

lemma add_edges_distinct: "distinct (map fst g) \<Longrightarrow> distinct (map fst (fold (add_edge t) es g))"
  by (induction es arbitrary: g) (simp_all add: add_edge_distinct)

lemma add_edges_mono: "edges g \<subseteq> edges (fold (add_edge t) es g)"
proof (induction es arbitrary: g)
  case (Cons e es)
  have "edges g \<subseteq> edges (add_edge t e g)"
    by (cases e) (auto simp: add_edge_edges)
  with Cons [of "add_edge t e g"] show ?case by auto
qed simp

lemma add_edges_source:
  "(u, v) \<in> edges (fold (add_edge t) es g) \<Longrightarrow> (u, v) \<in> edges g \<or> (\<exists>n. ((u, v), n) \<in> set es \<and> reaches n t)"
proof (induction es arbitrary: g)
  case (Cons e es)
  then have "(u, v) \<in> edges (add_edge t e g) \<or> (\<exists>n. ((u, v), n) \<in> set es \<and> reaches n t)"
    by simp
  then show ?case
    by (cases e) (auto simp: add_edge_edges split: if_splits)
qed simp

lemma add_edges_complete:
  "((u, v), n) \<in> set es \<Longrightarrow> reaches n t \<Longrightarrow>
     (u, v) \<in> edges (fold (add_edge t) es g) \<or> (v, u) \<in> edges (fold (add_edge t) es g)"
proof (induction es arbitrary: g)
  case (Cons e es)
  show ?case
  proof (cases "e = ((u, v), n)")
    case True
    have "(u, v) \<in> edges (add_edge t e g) \<or> (v, u) \<in> edges (add_edge t e g)"
      using True Cons.prems(2) by (auto simp: add_edge_edges)
    then show ?thesis
      using add_edges_mono [of "add_edge t e g" t es] by auto
  next
    case False
    then show ?thesis
      using Cons by simp
  qed
qed simp

lemma add_edges_one_way:
  assumes "\<forall>u v. (u, v) \<in> edges g \<longrightarrow> (v, u) \<in> edges g \<longrightarrow> u = v"
  shows "\<forall>u v. (u, v) \<in> edges (fold (add_edge t) es g) \<longrightarrow> (v, u) \<in> edges (fold (add_edge t) es g) \<longrightarrow> u = v"
  using assms
proof (induction es arbitrary: g)
  case (Cons e es)
  have "\<forall>u v. (u, v) \<in> edges (add_edge t e g) \<longrightarrow> (v, u) \<in> edges (add_edge t e g) \<longrightarrow> u = v"
    using Cons.prems by (cases e) (auto simp: add_edge_edges split: if_splits)
  then show ?case
    using Cons.IH by simp
qed simp

definition keys_closed :: "uint256 graph \<Rightarrow> bool" where
  "keys_closed g \<longleftrightarrow> fst ` edges g \<union> snd ` edges g \<subseteq> fst ` set g"

lemma add_edges_keys:
  assumes "keys_closed g"
  shows "keys_closed (fold (add_edge t) es g) \<and>
    fst ` set (fold (add_edge t) es g) = fst ` set g \<union> (\<Union>((u, v), n) \<in> set es. if reaches n t then {u, v} else {})"
  using assms
proof (induction es arbitrary: g)
  case (Cons e es)
  obtain u v n where e: "e = ((u, v), n)" by (metis prod.exhaust)
  have rev: "(v, u) \<in> edges g \<Longrightarrow> u \<in> fst ` set g \<and> v \<in> fst ` set g"
    using Cons.prems unfolding keys_closed_def by (metis UnI1 UnI2 fst_conv image_eqI snd_conv subsetD)
  have "keys_closed (add_edge t e g)"
    using Cons.prems by (auto simp: keys_closed_def e add_edge_edges add_edge_keys)
  note IH = Cons.IH [OF this]
  have "fst ` set (add_edge t e g) = fst ` set g \<union> (if reaches n t then {u, v} else {})"
    using rev by (auto simp: e add_edge_keys)
  with IH show ?case
    by (auto simp: e)
qed simp

lemma touch_all:
  "edges (fold graph_touch cs g) = edges g" "fst ` set (fold graph_touch cs g) = fst ` set g \<union> set cs"
  "distinct (map fst g) \<Longrightarrow> distinct (map fst (fold graph_touch cs g))"
proof -
  show "edges (fold graph_touch cs g) = edges g"
    by (induction cs arbitrary: g) (auto simp: edges_def)
  show "fst ` set (fold graph_touch cs g) = fst ` set g \<union> set cs"
    by (induction cs arbitrary: g) (auto simp: keys_touch)
  show "distinct (map fst g) \<Longrightarrow> distinct (map fst (fold graph_touch cs g))"
    by (induction cs arbitrary: g) (simp_all add: distinct_touch)
qed

lemma edges_Nil [simp]: "edges [] = {}"
  by (simp add: edges_def kids_def)

lemma dependency_distinct: "distinct (map fst (dependency_graph it cf orders))"
  unfolding dependency_graph_def Let_def by (intro add_edges_distinct touch_all(3)) simp

lemma dependency_keys:
  assumes "iters_ok it"
  shows "keys_closed (dependency_graph it cf orders)"
    and "fst ` set (dependency_graph it cf orders) =
      {c \<in> set (concat orders). reaches (of_nat (count_list (concat orders) c)) (non_blank_tx_threshold cf)} \<union>
      {w. \<exists>u v. (u, v) \<in> set (concat (map later_pairs orders)) \<and>
         reaches (of_nat (count_list (concat (map later_pairs orders)) (u, v))) (tx_edge_threshold cf) \<and> (w = u \<or> w = v)}"
proof -
  let ?cs = "map fst (filter (\<lambda>(c, n). reaches n (non_blank_tx_threshold cf)) (it_txs it (tally (concat orders))))"
  let ?g = "fold graph_touch ?cs []" and ?ps = "concat (map later_pairs orders)"
  have g: "keys_closed ?g"
    by (simp add: keys_closed_def touch_all(1))
  note all = add_edges_keys [OF g, of "tx_edge_threshold cf" "it_edges it (tally ?ps)"]
  then show "keys_closed (dependency_graph it cf orders)"
    by (simp add: dependency_graph_def Let_def)
  have "set ?cs = {c \<in> set (concat orders). reaches (of_nat (count_list (concat orders) c)) (non_blank_tx_threshold cf)}"
    using set_it(2) [OF assms] by (force simp: tally_entry image_iff)
  then have cs: "fst ` set ?g = \<dots>"
    by (simp add: touch_all(2))
  have es: "(\<Union>((u, v), n) \<in> set (it_edges it (tally ?ps)). if reaches n (tx_edge_threshold cf) then {u, v} else {}) =
    {w. \<exists>u v. (u, v) \<in> set ?ps \<and> reaches (of_nat (count_list ?ps (u, v))) (tx_edge_threshold cf) \<and> (w = u \<or> w = v)}"
    unfolding set_it(3) [OF assms] by (fastforce simp: tally_entry split: if_splits)
  show "fst ` set (dependency_graph it cf orders) =
      {c \<in> set (concat orders). reaches (of_nat (count_list (concat orders) c)) (non_blank_tx_threshold cf)} \<union>
      {w. \<exists>u v. (u, v) \<in> set ?ps \<and> reaches (of_nat (count_list ?ps (u, v))) (tx_edge_threshold cf) \<and> (w = u \<or> w = v)}"
    unfolding dependency_graph_def Let_def conjunct2 [OF all] cs es ..
qed

lemma dependency_edges:
  assumes "iters_ok it"
  shows "(u, v) \<in> edges (dependency_graph it cf orders) \<Longrightarrow> (u, v) \<in> set (concat (map later_pairs orders)) \<and>
      reaches (of_nat (count_list (concat (map later_pairs orders)) (u, v))) (tx_edge_threshold cf)"
    and "(u, v) \<in> set (concat (map later_pairs orders)) \<Longrightarrow>
      reaches (of_nat (count_list (concat (map later_pairs orders)) (u, v))) (tx_edge_threshold cf) \<Longrightarrow>
      (u, v) \<in> edges (dependency_graph it cf orders) \<or> (v, u) \<in> edges (dependency_graph it cf orders)"
    and "(u, v) \<in> edges (dependency_graph it cf orders) \<Longrightarrow> (v, u) \<in> edges (dependency_graph it cf orders) \<Longrightarrow> u = v"
proof -
  let ?ps = "concat (map later_pairs orders)" and ?D = "dependency_graph it cf orders"
  show "(u, v) \<in> edges ?D \<Longrightarrow> (u, v) \<in> set ?ps \<and> reaches (of_nat (count_list ?ps (u, v))) (tx_edge_threshold cf)"
    unfolding dependency_graph_def Let_def
    by (drule add_edges_source) (auto simp: touch_all(1) set_it(3) [OF assms] tally_entry)
  show "(u, v) \<in> set ?ps \<Longrightarrow> reaches (of_nat (count_list ?ps (u, v))) (tx_edge_threshold cf) \<Longrightarrow>
      (u, v) \<in> edges ?D \<or> (v, u) \<in> edges ?D"
    unfolding dependency_graph_def Let_def
    by (rule add_edges_complete) (simp_all only: set_it(3) [OF assms] tally_entry simp_thms)
  show "(u, v) \<in> edges ?D \<Longrightarrow> (v, u) \<in> edges ?D \<Longrightarrow> u = v"
    using add_edges_one_way [of "fold graph_touch (map fst (filter (\<lambda>(c, n). reaches n (non_blank_tx_threshold cf))
          (it_txs it (tally (concat orders))))) []"]
    unfolding dependency_graph_def Let_def by (simp add: touch_all(1))
qed

text \<open>
  C21: when every order names a transaction once, the graph of a proposal has for its vertices the
  transactions that enough orders name; an edge leads from \<open>u\<close> to \<open>v\<close> only when enough orders put \<open>u\<close>
  first, there is one whenever enough orders agree on either direction, and never both.
\<close>

theorem dependency_graph_fair:
  assumes "iters_ok it" and "\<forall>xs \<in> set orders. distinct xs" and "length orders < 2 ^ 16"
    and "non_blank_tx_threshold cf \<le> tx_edge_threshold cf" and "u \<noteq> v"
  shows "let D = dependency_graph it cf orders; t = tx_edge_threshold cf in
    fst ` set D = {c. (\<exists>xs \<in> set orders. c \<in> set xs) \<and> non_blank_tx_threshold cf \<le> real (naming orders c)} \<and>
    (v \<in> set (kids D u) \<longrightarrow> t \<le> real (support orders u v)) \<and>
    (before xs u v \<and> xs \<in> set orders \<and> t \<le> real (support orders u v) \<longrightarrow> v \<in> set (kids D u) \<or> u \<in> set (kids D v)) \<and>
    \<not> (v \<in> set (kids D u) \<and> u \<in> set (kids D v))"
proof -
  let ?D = "dependency_graph it cf orders"
  have name: "reaches (of_nat (count_list (concat orders) c)) t \<longleftrightarrow> t \<le> real (naming orders c)" for c t
    using naming_le [of orders c] assms(3) by (simp add: count_naming [OF assms(2)] reaches_small)
  have sup: "reaches (of_nat (count_list (concat (map later_pairs orders)) (u, v))) t \<longleftrightarrow> t \<le> real (support orders u v)"
    for u v t
    using support_le [of orders u v] assms(3) by (simp only: count_support [OF assms(2)]) (simp add: reaches_small)
  have pair: "(u, v) \<in> set (concat (map later_pairs orders)) \<longleftrightarrow> (\<exists>xs \<in> set orders. before xs u v)" for u v
    by (auto simp: set_later_pairs)
  have "w \<in> set (concat orders) \<and> non_blank_tx_threshold cf \<le> real (naming orders w)"
    if "before xs u v" "xs \<in> set orders" "tx_edge_threshold cf \<le> real (support orders u v)" "w = u \<or> w = v" for w u v xs
  proof -
    have "support orders u v \<le> naming orders w"
      using support_naming [of orders u v] that(4) by auto
    then show ?thesis
      using that before_in_set [OF that(1)] assms(4) by auto
  qed
  then have "fst ` set ?D = {c. (\<exists>xs \<in> set orders. c \<in> set xs) \<and> non_blank_tx_threshold cf \<le> real (naming orders c)}"
    unfolding dependency_keys(2) [OF assms(1)] name sup pair by auto
  moreover have "v \<in> set (kids ?D u) \<Longrightarrow> tx_edge_threshold cf \<le> real (support orders u v)"
    using dependency_edges(1) [OF assms(1), of u v cf orders] by (simp only: sup edges_kids)
  moreover have "v \<in> set (kids ?D u) \<or> u \<in> set (kids ?D v)"
    if "before xs u v" "xs \<in> set orders" "tx_edge_threshold cf \<le> real (support orders u v)"
    using dependency_edges(2) [OF assms(1), of u v orders cf] that by (simp only: sup pair edges_kids) blast
  moreover have "\<not> (v \<in> set (kids ?D u) \<and> u \<in> set (kids ?D v))"
    using dependency_edges(3) [OF assms(1), of u v cf orders] assms(5) by (auto simp: edges_kids)
  ultimately show ?thesis
    by (simp add: Let_def)
qed

definition example_orders :: "uint256 list list" where
  "example_orders = [[h256 1, h256 2], [h256 1, h256 2], [h256 2, h256 1]]"

text \<open>Four replicas, one of them faulty, \<open>\<gamma> = 1\<close>.\<close>

definition example_themis :: replica_config where
  "example_themis = config_new\<lparr>nreplicas := 4, nmajority := 3, solid_tx_threshold := 2,
     non_blank_tx_threshold := 2, tx_edge_threshold := 2\<rparr>"

lemma iters_id_ok: "iters_ok iters_id"
  by (simp add: iters_ok_def iters_id_def)

theorem dependency_graph_fair_witness:
  "h256 2 \<in> set (kids (dependency_graph iters_id example_themis example_orders) (h256 1)) \<or>
   h256 1 \<in> set (kids (dependency_graph iters_id example_themis example_orders) (h256 2))"
proof -
  have "before [h256 1, h256 2] (h256 1) (h256 2)"
    by (simp add: before_Cons)
  moreover have "tx_edge_threshold example_themis \<le> real (support example_orders (h256 1) (h256 2))"
    by (simp add: example_themis_def config_new_def support_def example_orders_def before_Cons)
  ultimately show ?thesis
    using dependency_graph_fair [OF iters_id_ok, of example_orders example_themis "h256 1" "h256 2" "[h256 1, h256 2]"]
    by (simp add: Let_def example_orders_def example_themis_def config_new_def)
qed

subsection \<open>The prefix that is kept\<close>

lemma split_solid:
  "split_solid S cs = (a, b) \<Longrightarrow> cs = a @ b \<and> (\<forall>c \<in> set a. \<exists>tx \<in> set c. tx \<in> S) \<and>
     (b \<noteq> [] \<longrightarrow> (\<forall>tx \<in> set (hd b). tx \<notin> S))"
proof (induction cs arbitrary: a)
  case (Cons c cs)
  show ?case
  proof (cases "\<exists>tx \<in> set c. tx \<in> S")
    case True
    then obtain a' where "split_solid S cs = (a', b)" "a = c # a'"
      using Cons.prems by (auto split: prod.splits)
    with Cons.IH [of a'] True show ?thesis by simp
  next
    case False
    with Cons.prems show ?thesis by auto
  qed
qed simp

lemma kids_delete: "kids (AList.delete u g) w = (if w = u then [] else kids g w)"
  by (simp add: kids_def delete_conv')

lemma erase_all_edges: "edges (fold (\<lambda>p g. graph_erase p tx g) ps g) = edges g - {(p, tx) | p. p \<in> set ps}"
proof (induction ps arbitrary: g)
  case (Cons p ps)
  have "edges (graph_erase p tx g) = edges g - {(p, tx)}"
    by (auto simp: edges_def kids_erase split: if_splits)
  with Cons show ?case by auto
qed simp

lemma erase_all_keys: "fst ` set (fold (\<lambda>p g. graph_erase p tx g) ps g) = fst ` set g \<union> set ps"
  by (induction ps arbitrary: g) (auto simp: graph_erase_def dom_update)

lemma remove_tx_edges:
  assumes "\<And>u. (u, tx) \<in> edges g \<Longrightarrow> u \<in> set (preds tx)"
  shows "edges (remove_tx preds tx g) = {(u, v) \<in> edges g. u \<noteq> tx \<and> v \<noteq> tx}"
  using assms by (auto simp: remove_tx_def erase_all_edges) (auto simp: edges_def kids_delete split: if_splits)

lemma remove_tx_keys: "fst ` set (remove_tx preds tx g) = (fst ` set g - {tx}) \<union> set (preds tx)"
  by (force simp: remove_tx_def erase_all_keys AList.delete_eq)

lemma remove_all_edges:
  assumes "\<And>u tx. (u, tx) \<in> edges g \<Longrightarrow> u \<in> set (preds tx)"
  shows "edges (fold (remove_tx preds) txs g) = {(u, v) \<in> edges g. u \<notin> set txs \<and> v \<notin> set txs}"
  using assms
proof (induction txs arbitrary: g)
  case (Cons tx txs)
  have "edges (fold (remove_tx preds) txs (remove_tx preds tx g))
    = {(u, v) \<in> edges (remove_tx preds tx g). u \<notin> set txs \<and> v \<notin> set txs}"
    using Cons.prems by (intro Cons.IH) (auto simp: remove_tx_edges)
  then show ?case
    using Cons.prems by (auto simp: remove_tx_edges)
qed simp

lemma remove_all_keys:
  "distinct txs \<Longrightarrow> x \<in> fst ` set (fold (remove_tx preds) txs g) \<longleftrightarrow>
     (if x \<in> set txs then \<exists>tx \<in> set txs. x \<in> set (preds tx) \<and> (x = tx \<or> before txs x tx)
      else x \<in> fst ` set g \<or> (\<exists>tx \<in> set txs. x \<in> set (preds tx)))"
proof (induction txs arbitrary: g)
  case (Cons tx txs)
  show ?case
    unfolding fold_simps(2) using Cons.prems Cons.IH [of "remove_tx preds tx g"]
    by (auto simp: remove_tx_keys before_Cons dest: before_in_set)
qed simp

lemma reordered_graph:
  assumes "iters_ok it" and "distinct (map fst g)"
  shows "distinct (map fst (it_graph it g))" and "kids (it_graph it g) v = kids g v" and "edges (it_graph it g) = edges g"
proof -
  have "mset (map fst (it_graph it g)) = mset (map fst g)"
    using assms(1) by (simp add: iters_ok_def)
  then show dist: "distinct (map fst (it_graph it g))"
    using assms(2) mset_eq_imp_distinct_iff by blast
  show kids: "kids (it_graph it g) v = kids g v" for v
    using map_of_inject_set [OF dist assms(2)] set_it(4) [OF assms(1), of g] by (simp add: kids_def)
  show "edges (it_graph it g) = edges g"
    by (simp add: edges_def kids)
qed

lemma fair_graph_facts:
  assumes "iters_ok it"
  shows "\<exists>g kept gone. fair_graph it cf orders = Inr g \<and> distinct (concat (kept @ gone)) \<and>
    set (concat (kept @ gone)) = fst ` set (dependency_graph it cf orders) \<and>
    (\<forall>c \<in> set kept. \<exists>tx \<in> set c. tx \<in> solid_txs cf orders) \<and>
    (gone \<noteq> [] \<longrightarrow> (\<forall>tx \<in> set (hd gone). tx \<notin> solid_txs cf orders)) \<and>
    (\<forall>x \<in> set (concat kept). \<forall>y \<in> set (concat gone). x \<notin> set (kids (dependency_graph it cf orders) y)) \<and>
    edges g = {(u, v) \<in> edges (dependency_graph it cf orders). u \<in> set (concat kept) \<and> v \<in> set (concat kept)} \<and>
    fst ` set g = set (concat kept) \<union>
      {x. \<exists>y. y \<in> set (kids (dependency_graph it cf orders) x) \<and> x \<in> set (concat gone) \<and>
        (x = y \<or> before (concat gone) x y)}"
proof -
  let ?D = "dependency_graph it cf orders"
  let ?g = "it_graph it ?D"
  note same = set_it(4) [OF assms, of ?D]
  note dist = reordered_graph(1) [OF assms dependency_distinct]
    and kids = reordered_graph(2) [OF assms dependency_distinct]
    and edges = reordered_graph(3) [OF assms dependency_distinct]
  have closed: "graph_closed ?g"
    using dependency_keys(1) [OF assms, of cf orders]
    by (simp add: graph_closed_edges [OF dist] edges same keys_closed_def)
  obtain sccs where sccs: "get_condensation_graph (it_succs it) ?g = Inr sccs" "distinct (concat sccs)"
    "set (concat sccs) = fst ` set ?g"
    "sorted_wrt (\<lambda>c d. \<forall>x \<in> set c. \<forall>y \<in> set d. (y, x) \<notin> edges ?g) sccs"
    using condensation_facts [OF dist closed, of "it_succs it"] set_it(5) [OF assms] by blast
  obtain kept gone where split: "split_solid (solid_txs cf orders) sccs = (kept, gone)"
    by (cases "split_solid (solid_txs cf orders) sccs")
  note parts = split_solid [OF split]
  define preds where "preds = (\<lambda>tx. it_succs it tx (get_decendents_from_transposed_graph tx ?g))"
  have preds: "set (preds tx) = {u. tx \<in> set (kids ?D u)}" for tx
    by (simp add: preds_def set_it(5) [OF assms] get_decendents_from_transposed_graph_def kids_transposed [OF dist] kids)
  let ?h = "fold (remove_tx preds) (concat gone) ?g"
  have fair: "fair_graph it cf orders = Inr ?h"
    by (simp add: fair_graph_def sccs(1) split preds_def Let_def)
  have vs: "set (concat kept) \<union> set (concat gone) = fst ` set ?D" "distinct (concat (kept @ gone))"
    using sccs(2,3) parts same by auto
  have ends: "u \<in> set (concat kept) \<union> set (concat gone) \<and> v \<in> set (concat kept) \<union> set (concat gone)" if "(u, v) \<in> edges ?D" for u v
    using that dependency_keys(1) [OF assms, of cf orders] unfolding vs(1) keys_closed_def by force
  have rear: "x \<notin> set (kids ?D y)" if "x \<in> set (concat kept)" "y \<in> set (concat gone)" for x y
    using sccs(4) that parts by (auto simp: sorted_wrt_append edges edges_kids)
  have gone: "edges ?h = {(u, v) \<in> edges ?D. u \<notin> set (concat gone) \<and> v \<notin> set (concat gone)}"
    unfolding edges [symmetric] by (rule remove_all_edges) (simp add: preds edges edges_kids)
  have "set (concat kept) \<inter> set (concat gone) = {}"
    using vs(2) by simp
  then have kept: "edges ?h = {(u, v) \<in> edges ?D. u \<in> set (concat kept) \<and> v \<in> set (concat kept)}"
    unfolding gone using ends by blast
  have keys: "x \<in> fst ` set ?h \<longleftrightarrow> x \<in> set (concat kept) \<union> {x. \<exists>y. y \<in> set (kids ?D x) \<and> x \<in> set (concat gone) \<and>
        (x = y \<or> before (concat gone) x y)}" for x
  proof (cases "x \<in> set (concat gone)")
    case True
    have "distinct (concat gone)"
      using vs(2) by simp
    with True have "x \<in> fst ` set ?h \<longleftrightarrow>
        (\<exists>y \<in> set (concat gone). x \<in> set (preds y) \<and> (x = y \<or> before (concat gone) x y))"
      by (simp only: remove_all_keys if_True)
    moreover have "y \<in> set (concat gone)" if "before (concat gone) x y" for y
      using before_in_set [OF that] by blast
    moreover have "x \<notin> set (concat kept)"
      using True vs(2) by auto
    ultimately show ?thesis
      using True unfolding preds by blast
  next
    case False
    have "x \<in> fst ` set ?D" if "x \<in> set (preds tx)" for tx
      using that kids_dom [of tx ?D x] by (simp add: preds)
    then show ?thesis
      using False remove_all_keys [of "concat gone" x preds ?g] vs same by auto
  qed
  show ?thesis
  proof (intro exI conjI)
    show "fair_graph it cf orders = Inr ?h" by (rule fair)
    show "distinct (concat (kept @ gone))" by (rule vs(2))
    show "set (concat (kept @ gone)) = fst ` set ?D" using vs(1) by simp
    show "fst ` set ?h = set (concat kept) \<union> {x. \<exists>y. y \<in> set (kids ?D x) \<and> x \<in> set (concat gone) \<and>
        (x = y \<or> before (concat gone) x y)}" using keys by blast
  qed (use parts rear kept in blast)+
qed

lemma fair_graph_total:
  assumes "iters_ok it"
  shows "\<exists>g. fair_graph it cf orders = Inr g"
  using fair_graph_facts [OF assms, of cf orders] by (elim exE conjE) (rule exI)

text \<open>
  The graph of a proposal keeps the longest prefix of components that each have a solid
  transaction, with the edges between them; of the other transactions come back, without an edge,
  those that had an edge to one removed later.
\<close>

theorem fair_graph_prefix:
  assumes "iters_ok it"
  shows "\<exists>g kept gone. fair_graph it cf orders = Inr g \<and> distinct (concat (kept @ gone)) \<and>
    set (concat (kept @ gone)) = fst ` set (dependency_graph it cf orders) \<and>
    (\<forall>c \<in> set kept. \<exists>tx \<in> set c. tx \<in> solid_txs cf orders) \<and>
    (gone \<noteq> [] \<longrightarrow> (\<forall>tx \<in> set (hd gone). tx \<notin> solid_txs cf orders)) \<and>
    (\<forall>x \<in> set (concat kept). \<forall>y \<in> set (concat gone). x \<notin> set (kids (dependency_graph it cf orders) y)) \<and>
    edges g = {(u, v) \<in> edges (dependency_graph it cf orders). u \<in> set (concat kept) \<and> v \<in> set (concat kept)} \<and>
    fst ` set g = set (concat kept) \<union>
      {x. \<exists>y. y \<in> set (kids (dependency_graph it cf orders) x) \<and> x \<in> set (concat gone) \<and>
        (x = y \<or> before (concat gone) x y)}"
  by (rule fair_graph_facts [OF assms])

theorem fair_graph_prefix_witness:
  "\<exists>g. fair_graph iters_id example_themis example_orders = Inr g \<and>
     edges g \<subseteq> edges (dependency_graph iters_id example_themis example_orders)"
proof -
  obtain g K where "fair_graph iters_id example_themis example_orders = Inr g"
    "edges g = {(u, v) \<in> edges (dependency_graph iters_id example_themis example_orders). u \<in> K \<and> v \<in> K}"
    using fair_graph_prefix [OF iters_id_ok, of example_themis example_orders] by (elim exE conjE) (rule that)
  then show ?thesis by auto
qed

text \<open>Neither end of that is what the comments of the code ask for.\<close>

definition early_orders :: "uint256 list list" where
  "early_orders = [[h256 3, h256 4], [h256 3, h256 4], [h256 4]]"

definition early_themis :: replica_config where
  "early_themis = config_new\<lparr>solid_tx_threshold := 3, non_blank_tx_threshold := 2, tx_edge_threshold := 2\<rparr>"


text \<open>
  The counters count occurrences, not replicas: the order of one replica that repeats two
  transactions makes both solid and decides the edge between them.
\<close>

theorem one_order_decides:
  "h256 6 \<in> solid_txs example_themis [[h256 5, h256 5, h256 6, h256 6]] \<and>
   h256 6 \<in> set (kids (dependency_graph iters_id example_themis [[h256 5, h256 5, h256 6, h256 6]]) (h256 5)) \<and>
   support [[h256 5, h256 5, h256 6, h256 6]] (h256 5) (h256 6) = 1"
  by (simp add: solid_txs_def dependency_graph_def tally_def count_up_def example_themis_def config_new_def reaches_def
      add_edge_def graph_touch_def graph_insert_def set_add_def kids_def Let_def support_def before_Cons)

subsection \<open>The queues of a proposal\<close>

definition queues_ok :: "('k \<times> 'q list) list \<Rightarrow> bool" where
  "queues_ok m \<longleftrightarrow> distinct (map fst m) \<and> (\<forall>(k, q) \<in> set m. q \<noteq> [])"

lemma queue_at_ok: "queues_ok m \<Longrightarrow> k \<in> fst ` set m \<Longrightarrow> queue_at k m \<noteq> []"
  by (auto simp: queues_ok_def queue_at_def)

lemma queue_at_delete: "queue_at j (AList.delete k m) = (if j = k then [] else queue_at j m)"
  by (simp add: queue_at_def delete_conv')

lemma queue_at_update: "queue_at j (AList.update k q m) = (if j = k then q else queue_at j m)"
  by (simp add: queue_at_def update_conv')

lemma queues_ok_update:
  assumes "queues_ok m" and "q \<noteq> []"
  shows "queues_ok (AList.update k q m)"
proof -
  have "set (AList.update k q m) \<subseteq> insert (k, q) (set m)"
    by (induction m) auto
  with assms show ?thesis
    by (fastforce simp: queues_ok_def distinct_update)
qed

lemma pop_queue_ok:
  assumes "queues_ok m" and "k \<in> fst ` set m"
  obtains m' where "pop_queue k m = Inr m'" "queues_ok m'" "fst ` set m' \<subseteq> fst ` set m" "fst ` set m - {k} \<subseteq> fst ` set m'"
    "\<And>j. queue_at j m' = (if j = k then tl (queue_at j m) else queue_at j m)"
proof -
  obtain x q where q: "queue_at k m = x # q"
    using queue_at_ok [OF assms] by (cases "queue_at k m") auto
  let ?m = "if q = [] then AList.delete k m else AList.update k q m"
  have "queues_ok (AList.delete k m)"
    using assms(1) by (auto simp: queues_ok_def AList.delete_eq distinct_map_filter)
  then have "queues_ok ?m"
    using assms(1) by (simp add: queues_ok_update)
  moreover have "fst ` set ?m \<subseteq> fst ` set m" "fst ` set m - {k} \<subseteq> fst ` set ?m"
    using assms(2) by (auto simp: AList.delete_eq dom_update)
  moreover have "queue_at j ?m = (if j = k then tl (queue_at j m) else queue_at j m)" for j
    using q by (simp add: queue_at_delete queue_at_update)
  ultimately show thesis
    using that [of ?m] q by (simp add: pop_queue_def)
qed

lemma fronts_ok:
  assumes "queues_ok (ordered_hash_cache st)" and "set rs \<subseteq> fst ` set (ordered_hash_cache st)"
  shows "fronts rs st = Inr (map (\<lambda>r. hd (queue_at r (ordered_hash_cache st))) rs)"
  using assms(2)
proof (induction rs)
  case (Cons r rs)
  then obtain x q where "queue_at r (ordered_hash_cache st) = x # q"
    using queue_at_ok [OF assms(1)] by (cases "queue_at r (ordered_hash_cache st)") auto
  with Cons show ?case
    by (simp add: get_ordered_hash_vector_def)
qed simp

lemma clear_fronts_ok:
  assumes "queues_ok (ordered_hash_cache st)" and "set rs \<subseteq> fst ` set (ordered_hash_cache st)" and "distinct rs"
  shows "\<exists>m. clear_fronts rs st = Ok () (st\<lparr>ordered_hash_cache := m\<rparr>) \<and> queues_ok m \<and>
    (\<forall>j. queue_at j m = (if j \<in> set rs then tl (queue_at j (ordered_hash_cache st)) else queue_at j (ordered_hash_cache st)))"
  using assms
proof (induction rs arbitrary: st)
  case Nil
  then show ?case
    by (intro exI [of _ "ordered_hash_cache st"]) simp
next
  case (Cons r rs)
  have r: "r \<in> fst ` set (ordered_hash_cache st)"
    using Cons.prems(2) by simp
  obtain m where m: "pop_queue r (ordered_hash_cache st) = Inr m" "queues_ok m"
    "fst ` set m \<subseteq> fst ` set (ordered_hash_cache st)" "fst ` set (ordered_hash_cache st) - {r} \<subseteq> fst ` set m"
    "\<And>j. queue_at j m = (if j = r then tl (queue_at j (ordered_hash_cache st)) else queue_at j (ordered_hash_cache st))"
    by (rule pop_queue_ok [OF Cons.prems(1) r]) (rule that)
  have rs: "set rs \<subseteq> fst ` set m" and new: "r \<notin> set rs"
    using Cons.prems(2,3) m(4) by auto
  obtain m' where m': "clear_fronts rs (st\<lparr>ordered_hash_cache := m\<rparr>) = Ok () (st\<lparr>ordered_hash_cache := m'\<rparr>)" "queues_ok m'"
    "\<forall>j. queue_at j m' = (if j \<in> set rs then tl (queue_at j m) else queue_at j m)"
    using Cons.IH [of "st\<lparr>ordered_hash_cache := m\<rparr>"] m(2) rs Cons.prems(3) by auto
  have "clear_fronts (r # rs) st = Ok () (st\<lparr>ordered_hash_cache := m'\<rparr>)"
    by (simp add: clear_front_ordered_hash_def m(1) m'(1))
  moreover have "queue_at j m' = (if j \<in> set (r # rs) then tl (queue_at j (ordered_hash_cache st))
      else queue_at j (ordered_hash_cache st))" for j
    using m(5) [of j] m'(3) new by auto
  ultimately show ?case
    using m'(2) by blast
qed

text \<open>
  On queues that hold at least one order each, \<open>fair_propose\<close> returns the graph of the orders at
  their fronts and takes exactly these away, each replica's later orders staying in place.
\<close>

theorem fair_propose_pops_fronts:
  assumes "iters_ok it" and "queues_ok (ordered_hash_cache st)"
  shows "\<exists>rs g m. mset rs = mset (map fst (ordered_hash_cache st)) \<and>
    fair_graph it cf (map (\<lambda>r. hd (queue_at r (ordered_hash_cache st))) rs) = Inr g \<and>
    fair_propose it cf st = Ok g (st\<lparr>ordered_hash_cache := m\<rparr>) \<and> queues_ok m \<and>
    (\<forall>r. queue_at r m = tl (queue_at r (ordered_hash_cache st)))"
proof -
  let ?m = "ordered_hash_cache st"
  let ?rs = "get_ordered_hash_replia_vector (it_replicas it) st"
  let ?os = "map (\<lambda>r. hd (queue_at r ?m)) ?rs"
  have rs: "mset ?rs = mset (map fst ?m)"
    using assms(1) by (simp add: get_ordered_hash_replia_vector_def iters_ok_def)
  then have set: "set ?rs = fst ` set ?m" and dist: "distinct ?rs"
    using assms(2) mset_eq_setD [OF rs] mset_eq_imp_distinct_iff [OF rs] by (simp_all add: queues_ok_def)
  obtain g where g: "fair_graph it cf ?os = Inr g"
    using fair_graph_total [OF assms(1)] by blast
  obtain m where m: "clear_fronts ?rs st = Ok () (st\<lparr>ordered_hash_cache := m\<rparr>)" "queues_ok m"
    "\<forall>j. queue_at j m = (if j \<in> set ?rs then tl (queue_at j ?m) else queue_at j ?m)"
    using clear_fronts_ok [OF assms(2) _ dist] set by blast
  have "queue_at j ?m = []" if "j \<notin> fst ` set ?m" for j
    using that by (simp add: queue_at_def map_of_eq_None_iff [THEN iffD2])
  then have "queue_at r m = tl (queue_at r ?m)" for r
    using m(3) set by auto
  moreover have "fair_propose it cf st = Ok g (st\<lparr>ordered_hash_cache := m\<rparr>)"
    using fronts_ok [OF assms(2), of ?rs] set g m(1) by (simp add: fair_propose_def)
  ultimately show ?thesis
    using rs g m(2) by blast
qed

definition example_queues :: themis_storage where
  "example_queues = (themis_storage_new (h256 0))\<lparr>ordered_hash_cache := [(0, [[h256 1], [h256 2]]), (1, [[h256 1]])]\<rparr>"

theorem fair_propose_pops_fronts_witness:
  "\<exists>g m. fair_propose iters_id example_themis example_queues = Ok g (example_queues\<lparr>ordered_hash_cache := m\<rparr>) \<and>
    queue_at 0 m = [[h256 2]] \<and> queue_at 1 m = []"
proof -
  have "queues_ok (ordered_hash_cache example_queues)"
    by (simp add: example_queues_def queues_ok_def)
  from fair_propose_pops_fronts [OF iters_id_ok this, of example_themis] show ?thesis
    by (elim exE conjE) (force simp: example_queues_def queue_at_def)
qed

subsection \<open>The edges of an update\<close>

lemma edge_list_edges:
  assumes "distinct (map fst g)"
  shows "set (edge_list g) = edges g"
  using kids_iff [OF assms] by (fastforce simp: edge_list_def edges_def)

lemma update_edges_set:
  assumes "iters_ok it"
  shows "set (update_edges it cf updates) =
    edges (fold (add_edge (tx_edge_threshold cf)) (it_edges it (tally (concat updates))) [])"
proof -
  let ?g = "fold (add_edge (tx_edge_threshold cf)) (it_edges it (tally (concat updates))) []"
  have "distinct (map fst ?g)"
    by (rule add_edges_distinct) simp
  moreover have "set (edge_list (it_graph it ?g)) = set (edge_list ?g)"
    using set_it(4) [OF assms, of ?g] by (simp add: edge_list_def)
  ultimately show ?thesis
    by (simp add: update_edges_def edge_list_edges)
qed

lemma count_updates:
  "\<forall>es \<in> set updates. distinct es \<Longrightarrow> count_list (concat updates) e = length (filter (\<lambda>es. e \<in> set es) updates)"
  by (induction updates) (simp_all add: count_list_distinct)

text \<open>
  An edge is in the update only when enough replicas reported it, one direction is in whenever
  enough reported it, and the two directions of a pair never are.
\<close>

theorem update_edges_agreed:
  assumes "iters_ok it" and "\<forall>es \<in> set updates. distinct es" and "length updates < 2 ^ 16" and "u \<noteq> v"
  shows "let es = update_edges it cf updates; n = length (filter (\<lambda>es. (u, v) \<in> set es) updates) in
    ((u, v) \<in> set es \<longrightarrow> 0 < n \<and> tx_edge_threshold cf \<le> real n) \<and>
    (0 < n \<and> tx_edge_threshold cf \<le> real n \<longrightarrow> (u, v) \<in> set es \<or> (v, u) \<in> set es) \<and>
    \<not> ((u, v) \<in> set es \<and> (v, u) \<in> set es)"
proof -
  let ?n = "length (filter (\<lambda>es. (u, v) \<in> set es) updates)" and ?t = "tx_edge_threshold cf"
  let ?es = "it_edges it (tally (concat updates))"
  have "?n \<le> length updates"
    by simp
  then have "?n < 2 ^ 16"
    using assms(3) by linarith
  then have n: "((u, v), n) \<in> set ?es \<and> reaches n ?t \<longleftrightarrow> (u, v) \<in> set (concat updates) \<and> n = of_nat ?n \<and> ?t \<le> real ?n" for n
    unfolding set_it(3) [OF assms(1)] tally_entry count_updates [OF assms(2)] by (auto simp: reaches_small)
  have pos: "(u, v) \<in> set (concat updates) \<longleftrightarrow> 0 < ?n"
    by (auto simp: length_greater_0_conv filter_empty_conv)
  have "(u, v) \<in> edges (fold (add_edge ?t) ?es []) \<Longrightarrow> 0 < ?n \<and> ?t \<le> real ?n"
    using add_edges_source [of u v ?t ?es "[]"] n pos by auto
  moreover have "0 < ?n \<and> ?t \<le> real ?n \<Longrightarrow>
      (u, v) \<in> edges (fold (add_edge ?t) ?es []) \<or> (v, u) \<in> edges (fold (add_edge ?t) ?es [])"
    using add_edges_complete [of u v "of_nat ?n" ?es ?t "[]"] n [of "of_nat ?n"] pos by blast
  moreover have "\<not> ((u, v) \<in> edges (fold (add_edge ?t) ?es []) \<and> (v, u) \<in> edges (fold (add_edge ?t) ?es []))"
    using add_edges_one_way [of "[]" ?t ?es] assms(4) by auto
  ultimately show ?thesis
    unfolding Let_def update_edges_set [OF assms(1)] by blast
qed

theorem update_edges_agreed_witness:
  "(h256 1, h256 2) \<in> set (update_edges iters_id example_themis [[(h256 1, h256 2)], [(h256 1, h256 2)]]) \<or>
   (h256 2, h256 1) \<in> set (update_edges iters_id example_themis [[(h256 1, h256 2)], [(h256 1, h256 2)]])"
  using update_edges_agreed [OF iters_id_ok, of "[[(h256 1, h256 2)], [(h256 1, h256 2)]]" "h256 1" "h256 2" example_themis]
  by (simp add: Let_def example_themis_def config_new_def)

subsection \<open>The order of a tournament\<close>

lemma before_components:
  "sorted_wrt (\<lambda>c d. \<forall>x \<in> set c. \<forall>y \<in> set d. (y, x) \<notin> E) cs \<Longrightarrow> (u, v) \<in> E \<Longrightarrow> u \<in> set (concat cs) \<Longrightarrow>
     v \<in> set (concat cs) \<Longrightarrow> \<forall>c \<in> set cs. \<not> (u \<in> set c \<and> v \<in> set c) \<Longrightarrow> before (concat cs) u v"
proof (induction cs)
  case (Cons c cs)
  have "u \<in> set c \<or> u \<in> set (concat cs)" "v \<in> set c \<or> v \<in> set (concat cs)"
    using Cons.prems(3,4) by auto
  moreover have "\<not> (u \<in> set (concat cs) \<and> v \<in> set c)"
    using Cons.prems(1,2) by auto
  moreover have "\<not> (u \<in> set c \<and> v \<in> set c)"
    using Cons.prems(5) by simp
  moreover have "u \<in> set (concat cs) \<Longrightarrow> v \<in> set (concat cs) \<Longrightarrow> before (concat cs) u v"
    using Cons by simp
  ultimately show ?case
    unfolding concat.simps(2) before_append by blast
qed simp

text \<open>
  C23: the final order of a complete graph lists each of its transactions once and respects every
  edge that does not lie on a cycle; an incomplete graph gets no order yet.
\<close>

theorem finalize_tournament:
  assumes "iters_ok it" and "distinct (map fst (tb_graph b))" and "graph_closed (tb_graph b)"
  shows "\<exists>order. t_fair_finalize it b = Inr order \<and>
    (if is_tournament_graph b
     then distinct order \<and> set order = fst ` set (tb_graph b) \<and>
       (\<forall>u v. v \<in> set (kids (tb_graph b) u) \<longrightarrow> (v, u) \<notin> (edges (tb_graph b))\<^sup>* \<longrightarrow> before order u v)
     else order = [])"
proof (cases "is_tournament_graph b")
  case True
  let ?g = "it_graph it (tb_graph b)"
  note same = reordered_graph [OF assms(1,2)]
  have closed: "graph_closed ?g"
    using assms(3) by (simp add: graph_closed_def set_it(4) [OF assms(1)])
  obtain sccs where sccs: "get_condensation_graph (it_succs it) ?g = Inr sccs" "distinct (concat sccs)"
    "set (concat sccs) = fst ` set ?g"
    "\<forall>c \<in> set sccs. \<forall>u \<in> set c. set c = {v. (u, v) \<in> (edges ?g)\<^sup>* \<and> (v, u) \<in> (edges ?g)\<^sup>*}"
    "sorted_wrt (\<lambda>c d. \<forall>x \<in> set c. \<forall>y \<in> set d. (y, x) \<notin> edges ?g) sccs"
    using condensation_facts [OF same(1) closed, of "it_succs it"] set_it(5) [OF assms(1)] by blast
  have "before (concat sccs) u v" if "v \<in> set (kids (tb_graph b) u)" "(v, u) \<notin> (edges (tb_graph b))\<^sup>*" for u v
  proof (rule before_components [OF sccs(5)])
    show "(u, v) \<in> edges ?g"
      using that(1) by (simp add: same(3) edges_kids)
    show "u \<in> set (concat sccs)" "v \<in> set (concat sccs)"
      using kids_dom [OF that(1)] kids_closed [OF assms(3) that(1)] sccs(3) set_it(4) [OF assms(1)] by simp_all
    show "\<forall>c \<in> set sccs. \<not> (u \<in> set c \<and> v \<in> set c)"
      using sccs(4) that(2) same(3) by fastforce
  qed
  then show ?thesis
    using True sccs(1-3) set_it(4) [OF assms(1)]
    by (intro exI [of _ "concat sccs"]) (simp add: t_fair_finalize_def)
qed (simp add: t_fair_finalize_def)

theorem finalize_tournament_witness:
  "\<exists>order. t_fair_finalize iters_id example_tblock = Inr order \<and> set order = {h256 1, h256 2} \<and> before order (h256 1) (h256 2)"
proof -
  let ?g = "[(h256 1, [h256 2]), (h256 2, [])]"
  have kids: "kids ?g u = (if u = h256 1 then [h256 2] else [])" for u
    by (simp add: kids_def)
  have away: "(h256 2, h256 1) \<notin> (edges ?g)\<^sup>*"
    by (subst rtrancl_eq_or_trancl, subst trancl_unfold_left) (auto simp: edges_def kids split: if_splits)
  have t: "is_tournament_graph example_tblock" and g: "tb_graph example_tblock = ?g"
    by (simp_all add: is_tournament_graph_def example_tblock_def kids)
  have "distinct (map fst (tb_graph example_tblock))" and "graph_closed (tb_graph example_tblock)"
    by (simp_all add: g graph_closed_def)
  from finalize_tournament [OF iters_id_ok this] obtain order where
    order: "t_fair_finalize iters_id example_tblock = Inr order" "set order = fst ` set ?g"
    "\<forall>u v. v \<in> set (kids ?g u) \<longrightarrow> (v, u) \<notin> (edges ?g)\<^sup>* \<longrightarrow> before order u v"
    unfolding if_P [OF t] g by (elim exE conjE) (rule that)
  have "before order (h256 1) (h256 2)"
    using order(3) away by (simp add: kids)
  with order(1,2) show ?thesis by auto
qed

end
