(* ===== verification/Themis_Core.thy ===== *)
theory Themis_Core
  imports Themis_Order Core
begin

text \<open>
  \<open>HotStuffCore\<close> of Themis (\<open>themis/src/consensus.cpp\<close>, three-step variant): the chain rules of
  HotStuff over blocks that carry dependency graphs, and the commit rule that waits for a graph to
  become a tournament. As in \<open>Core\<close>, the virtual outputs are recorded in order.
\<close>

record themis_order =
  to_initiator :: replica_id
  to_ordered_hashes :: "uint256 list"
  to_l_update :: "edge list"

datatype themis_event =
    T_Decide finality
  | T_Consensus ref
  | T_Broadcast proposal
  | T_Vote replica_id vote
  | T_Send_Local_Order replica_id themis_order
  | T_Resolve_QC ref
  | T_Resolve_Propose proposal
  | T_Resolve_Receive_Proposal proposal
  | T_Resolve_Hqc_Update

record tcore =
  tc_heap :: "ref \<Rightarrow> tblock"
  tc_next :: ref
  tc_b0 :: ref
  tc_hqc :: "(ref \<times> quorum_cert) option"
  tc_lock :: ref
  tc_exec :: ref
  tc_vheight :: u32
  tc_tails :: "ref set"
  tc_config :: replica_config
  tc_waiting :: "ref set"
  tc_vote_disabled :: bool
  tc_id :: replica_id
  tc_blk_cache :: "(uint256 \<times> ref) list"
  tc_storage :: themis_storage
  tc_events :: "themis_event list"

abbreviation tblk :: "tcore \<Rightarrow> ref \<Rightarrow> tblock" where
  "tblk c r \<equiv> tc_heap c r"

definition t_upd :: "ref \<Rightarrow> (tblock \<Rightarrow> tblock) \<Rightarrow> tcore \<Rightarrow> tcore" where
  "t_upd r f c = c\<lparr>tc_heap := (tc_heap c)(r := f (tc_heap c r))\<rparr>"

definition t_emit :: "themis_event \<Rightarrow> tcore \<Rightarrow> tcore" where
  "t_emit e c = c\<lparr>tc_events := tc_events c @ [e]\<rparr>"

text \<open>An operation of the storage, run on the storage of the core.\<close>

definition t_store :: "(themis_storage \<Rightarrow> ('a, themis_storage) res) \<Rightarrow> tcore \<Rightarrow> ('a, tcore) res" where
  "t_store f c = (case f (tc_storage c) of Ok a st \<Rightarrow> Ok a (c\<lparr>tc_storage := st\<rparr>) | Exc e st \<Rightarrow> Exc e (c\<lparr>tc_storage := st\<rparr>))"

subsection \<open>Blocks\<close>

definition t_find_blk :: "uint256 \<Rightarrow> tcore \<Rightarrow> ref option" where
  "t_find_blk h c = map_of (tc_blk_cache c) h"

text \<open>\<open>add_blk\<close> of a new block: the block cached under its hash, if there is one, is the result.\<close>

definition t_add_blk :: "tblock \<Rightarrow> tcore \<Rightarrow> ref \<times> tcore" where
  "t_add_blk b c =
     (case t_find_blk (tb_hash b) c of
        Some r \<Rightarrow> (r, c)
      | None \<Rightarrow> (tc_next c, c\<lparr>tc_heap := (tc_heap c)(tc_next c := b), tc_next := tc_next c + 1,
                   tc_blk_cache := map_insert (tb_hash b) (tc_next c) (tc_blk_cache c)\<rparr>))"

definition t_get_delivered_blk :: "uint256 \<Rightarrow> tcore \<Rightarrow> err + ref" where
  "t_get_delivered_blk h c =
     (case t_find_blk h c of
        None \<Rightarrow> Inl (Runtime_Error ''block not delivered'')
      | Some r \<Rightarrow> if tb_delivered (tblk c r) then Inr r else Inl (Runtime_Error ''block not delivered''))"

definition t_sanity_check_delivered :: "ref \<Rightarrow> tcore \<Rightarrow> (unit, tcore) res" where
  "t_sanity_check_delivered r c =
     (if tb_delivered (tblk c r) then Ok () c else Exc (Runtime_Error ''block not delivered'') c)"

fun t_deliver_parents :: "ref \<Rightarrow> uint256 list \<Rightarrow> tcore \<Rightarrow> (unit, tcore) res" where
  "t_deliver_parents r [] c = Ok () c"
| "t_deliver_parents r (h # hs) c =
     (case t_get_delivered_blk h c of
        Inl e \<Rightarrow> Exc e c
      | Inr p \<Rightarrow> t_deliver_parents r hs (t_upd r (\<lambda>b. b\<lparr>tb_parents := tb_parents b @ [p]\<rparr>) c))"

definition t_on_deliver_blk :: "ref \<Rightarrow> tcore \<Rightarrow> (bool, tcore) res" where
  "t_on_deliver_blk r c =
     (if tb_delivered (tblk c r) then Ok False c
      else res_bind (t_deliver_parents r (tb_parent_hashes (tblk c r)) (t_upd r (\<lambda>b. b\<lparr>tb_parents := []\<rparr>) c))
        (\<lambda>u c. case tb_parents (tblk c r) of
           [] \<Rightarrow> Exc Undefined_Behaviour c
         | p # ps \<Rightarrow>
             let c = t_upd r (\<lambda>b. b\<lparr>tb_height := tb_height (tblk c p) + 1\<rparr>) c;
                 fin = (\<lambda>c. Ok True (t_upd r (\<lambda>b. b\<lparr>tb_delivered := True\<rparr>)
                   (c\<lparr>tc_tails := insert r (tc_tails c - set (tb_parents (tblk c r)))\<rparr>)))
             in case tb_qc (tblk c r) of
                  None \<Rightarrow> fin c
                | Some qc \<Rightarrow>
                    (case t_find_blk (qc_get_obj_hash qc) c of
                       None \<Rightarrow> Exc (Runtime_Error ''block referred by qc not fetched'') c
                     | Some q \<Rightarrow> fin (t_upd r (\<lambda>b. b\<lparr>tb_qc_ref := Some q\<rparr>) c))))"

subsection \<open>The chain rules\<close>

definition t_update_hqc :: "ref \<Rightarrow> quorum_cert option \<Rightarrow> tcore \<Rightarrow> (unit, tcore) res" where
  "t_update_hqc r qc c =
     (case tc_hqc c of
        None \<Rightarrow> Exc Undefined_Behaviour c
      | Some (h, old) \<Rightarrow>
          if tb_height (tblk c h) < tb_height (tblk c r) then
            (case qc of
               None \<Rightarrow> Exc Undefined_Behaviour c
             | Some q \<Rightarrow> Ok () (t_emit T_Resolve_Hqc_Update (c\<lparr>tc_hqc := Some (r, q)\<rparr>)))
          else Ok () c)"

text \<open>The loop \<open>for (b = start; b->height > h; b = b->parents[0])\<close>, as in \<open>Core\<close>.\<close>

fun t_walk :: "nat \<Rightarrow> (ref \<Rightarrow> tblock) \<Rightarrow> u32 \<Rightarrow> ref \<Rightarrow> err + (ref list \<times> ref)" where
  "t_walk 0 hp h b = Inl Endless_Loop"
| "t_walk (Suc n) hp h b =
     (if h < tb_height (hp b) then
        (case tb_parents (hp b) of
           [] \<Rightarrow> Inl Undefined_Behaviour
         | p # _ \<Rightarrow> map_sum id (\<lambda>(bs, e). (b # bs, e)) (t_walk n hp h p))
      else Inr ([], b))"

definition t_walk_down :: "(ref \<Rightarrow> tblock) \<Rightarrow> u32 \<Rightarrow> ref \<Rightarrow> err + (ref list \<times> ref)" where
  "t_walk_down hp h b = t_walk (unat (tb_height (hp b)) + 1) hp h b"

text \<open>
  The beginning of \<open>update\<close>: every edge of the block's update is entered into the graphs of all
  blocks of its branch that are not executed yet, itself included.
\<close>

fun t_add_edges :: "edge list \<Rightarrow> ref \<Rightarrow> tcore \<Rightarrow> (unit, tcore) res" where
  "t_add_edges [] nblk c = Ok () c"
| "t_add_edges (e # es) nblk c =
     (let c = c\<lparr>tc_storage := remove_missing_edge (fst e) (snd e) (tc_storage c)\<rparr>
      in case t_walk_down (tc_heap c) (tb_height (tblk c (tc_exec c))) nblk of
           Inl er \<Rightarrow> Exc er c
         | Inr (bs, stop) \<Rightarrow> t_add_edges es nblk (fold (\<lambda>b. t_upd b (update_graph e)) bs c))"

fun t_remove_all_seen :: "uint256 list \<Rightarrow> tcore \<Rightarrow> (unit, tcore) res" where
  "t_remove_all_seen [] c = Ok () c"
| "t_remove_all_seen (v # vs) c = res_bind (t_store (t_remove_seen_propose_level v) c) (\<lambda>u c. t_remove_all_seen vs c)"

definition t_update_graphs :: "ref \<Rightarrow> tcore \<Rightarrow> (unit, tcore) res" where
  "t_update_graphs nblk c =
     res_bind (t_add_edges (tb_e_update (tblk c nblk)) nblk c) (\<lambda>u c.
       let c = c\<lparr>tc_storage := fold (\<lambda>(u, v). add_missing_edge u v) (get_missing_edges (tblk c nblk)) (tc_storage c)\<rparr>
       in t_remove_all_seen (map fst (tb_graph (tblk c nblk))) c)"

text \<open>The loop over the order of a block that is being committed.\<close>

fun t_decide_cmds :: "ref \<Rightarrow> nat \<Rightarrow> uint256 list \<Rightarrow> tcore \<Rightarrow> (unit, tcore) res" where
  "t_decide_cmds r i [] c = Ok () c"
| "t_decide_cmds r i (cmd # cmds) c =
     (let c = t_emit (T_Decide \<lparr>fin_rid = tc_id c, fin_decision = 1, cmd_idx = of_nat i,
                cmd_height = tb_height (tblk c r), cmd_hash = cmd, fin_blk_hash = tb_hash (tblk c r)\<rparr>) c
      in res_bind (t_store (t_remove_seen_execute_level cmd) c) (\<lambda>u c.
           t_decide_cmds r (i + 1) cmds (c\<lparr>tc_storage := t_remove_from_proposed cmd (tc_storage c)\<rparr>)))"

text \<open>The commit loop: it stops, without an error, at the first block whose graph is incomplete.\<close>

fun t_commit_blks :: "iters \<Rightarrow> ref list \<Rightarrow> tcore \<Rightarrow> (unit, tcore) res" where
  "t_commit_blks it [] c = Ok () c"
| "t_commit_blks it (r # rs) c =
     (case t_fair_finalize it (tblk c r) of
        Inl e \<Rightarrow> Exc e c
      | Inr order \<Rightarrow>
          if order = [] \<and> tb_graph (tblk c r) \<noteq> [] then Ok () c
          else
            let c = t_emit (T_Consensus r) (t_upd r (\<lambda>b. b\<lparr>tb_decision := 1\<rparr>) c)
            in res_bind (t_decide_cmds r 0 order c) (\<lambda>u c. t_commit_blks it rs (c\<lparr>tc_exec := r\<rparr>)))"

definition t_commit_chain :: "iters \<Rightarrow> ref \<Rightarrow> tcore \<Rightarrow> (unit, tcore) res" where
  "t_commit_chain it b c =
     (case t_walk_down (tc_heap c) (tb_height (tblk c (tc_exec c))) b of
        Inl e \<Rightarrow> Exc e c
      | Inr (queue, stop) \<Rightarrow>
          if stop \<noteq> tc_exec c then Exc (Runtime_Error ''safety breached'') c
          else t_commit_blks it (rev queue) c)"

definition t_first_parent :: "tblock \<Rightarrow> ref option" where
  "t_first_parent b = (case tb_parents b of [] \<Rightarrow> None | p # _ \<Rightarrow> Some p)"

definition t_update_commit :: "iters \<Rightarrow> ref \<Rightarrow> ref \<Rightarrow> tcore \<Rightarrow> (unit, tcore) res" where
  "t_update_commit it blk2 blk1 c =
     (case tb_qc_ref (tblk c blk1) of
        None \<Rightarrow> Ok () c
      | Some b \<Rightarrow>
          if tb_decision (tblk c b) \<noteq> 0 then Ok () c
          else case t_first_parent (tblk c blk2) of
            None \<Rightarrow> Exc Undefined_Behaviour c
          | Some p2 \<Rightarrow>
              if p2 \<noteq> blk1 then Ok () c
              else case t_first_parent (tblk c blk1) of
                None \<Rightarrow> Exc Undefined_Behaviour c
              | Some p1 \<Rightarrow> if p1 \<noteq> b then Ok () c else t_commit_chain it b c)"

definition t_update_lock :: "iters \<Rightarrow> ref \<Rightarrow> tcore \<Rightarrow> (unit, tcore) res" where
  "t_update_lock it blk2 c =
     (case tb_qc_ref (tblk c blk2) of
        None \<Rightarrow> Ok () c
      | Some blk1 \<Rightarrow>
          if tb_decision (tblk c blk1) \<noteq> 0 then Ok () c
          else t_update_commit it blk2 blk1
            (if tb_height (tblk c (tc_lock c)) < tb_height (tblk c blk1) then c\<lparr>tc_lock := blk1\<rparr> else c))"

definition t_update :: "iters \<Rightarrow> ref \<Rightarrow> tcore \<Rightarrow> (unit, tcore) res" where
  "t_update it nblk c =
     res_bind (t_update_graphs nblk c) (\<lambda>u c.
       case tb_qc_ref (tblk c nblk) of
         None \<Rightarrow> Ok () c
       | Some blk2 \<Rightarrow>
           if tb_decision (tblk c blk2) \<noteq> 0 then Ok () c
           else res_bind (t_update_hqc blk2 (tb_qc (tblk c nblk)) c) (\<lambda>u c. t_update_lock it blk2 c))"

subsection \<open>Proposals and votes\<close>

definition t_on_qc_finish :: "ref \<Rightarrow> tcore \<Rightarrow> tcore" where
  "t_on_qc_finish r c =
     (if r \<in> tc_waiting c then (t_emit (T_Resolve_QC r) c)\<lparr>tc_waiting := tc_waiting c - {r}\<rparr> else c)"

definition t_async_qc_finish :: "ref \<Rightarrow> tcore \<Rightarrow> bool \<times> tcore" where
  "t_async_qc_finish r c =
     (if nmajority (tc_config c) \<le> of_nat (card (tb_voted (tblk c r))) then (True, c)
      else (False, c\<lparr>tc_waiting := insert r (tc_waiting c)\<rparr>))"

definition t_vote_opinion :: "ref \<Rightarrow> tcore \<Rightarrow> (bool, tcore) res" where
  "t_vote_opinion r c =
     (if tc_vheight c < tb_height (tblk c r) then
        if (case tb_qc_ref (tblk c r) of Some q \<Rightarrow> tb_height (tblk c (tc_lock c)) < tb_height (tblk c q) | None \<Rightarrow> False)
        then Ok True (c\<lparr>tc_vheight := tb_height (tblk c r)\<rparr>)
        else (case t_walk_down (tc_heap c) (tb_height (tblk c (tc_lock c))) r of
                Inl e \<Rightarrow> Exc e c
              | Inr (bs, b) \<Rightarrow>
                  if b = tc_lock c then Ok True (c\<lparr>tc_vheight := tb_height (tblk c r)\<rparr>) else Ok False c)
      else Ok False c)"

definition t_on_receive_proposal :: "env \<Rightarrow> iters \<Rightarrow> proposal \<Rightarrow> tcore \<Rightarrow> (unit, tcore) res" where
  "t_on_receive_proposal e it prop c =
     (let self_prop = (prop_proposer prop = tc_id c); bnew = prop_blk prop
      in res_bind (if self_prop then Ok () c
           else res_bind (t_sanity_check_delivered bnew c) (\<lambda>u c. t_update it bnew c))
         (\<lambda>u c. res_bind (t_vote_opinion bnew c) (\<lambda>opinion c.
           let c = (case tb_qc_ref (tblk c bnew) of
                      Some q \<Rightarrow> if self_prop then c else t_on_qc_finish q c
                    | None \<Rightarrow> c);
               c = t_emit (T_Resolve_Receive_Proposal prop) c
           in if opinion \<and> \<not> tc_vote_disabled c
              then Ok () (t_emit (T_Vote (prop_proposer prop)
                     \<lparr>voter = tc_id c, vote_blk_hash = tb_hash (tblk c bnew),
                      vote_cert = create_part_cert e (tb_hash (tblk c bnew))\<rparr>) c)
              else Ok () c)))"

text \<open>The broadcast comes first here, because \<open>update\<close> changes the block.\<close>

definition t_on_propose :: "env \<Rightarrow> iters \<Rightarrow> uint256 graph \<Rightarrow> edge list \<Rightarrow> ref list \<Rightarrow> bytes \<Rightarrow> tcore \<Rightarrow> (ref, tcore) res" where
  "t_on_propose e it g es ps ex c =
     (case ps of
        [] \<Rightarrow> Exc (Runtime_Error ''empty parents'') c
      | p # _ \<Rightarrow>
          let c = c\<lparr>tc_tails := tc_tails c - set ps\<rparr>
          in case tc_hqc c of
               None \<Rightarrow> Exc Undefined_Behaviour c
             | Some (h, qc) \<Rightarrow>
                 (case tblock_make (e_sha e) (tc_heap c) ps g es qc ex (tb_height (tblk c p) + 1) (Some h) None 0 of
                    Inl er \<Rightarrow> Exc er c
                  | Inr b \<Rightarrow>
                      let (bnew, c) = t_add_blk b c;
                          c = t_upd bnew (\<lambda>b. b\<lparr>tb_self_qc :=
                                Some (create_quorum_cert (e_mem e) (tc_config c) (tb_hash b))\<rparr>) c;
                          prop = \<lparr>prop_proposer = tc_id c, prop_blk = bnew\<rparr>
                      in res_bind (t_on_deliver_blk bnew c) (\<lambda>d c.
                           if tb_height (tblk c bnew) \<le> tc_vheight c
                           then Exc (Runtime_Error ''new block should be higher than vheight'') c
                           else res_bind (t_update it bnew (t_emit (T_Broadcast prop) c)) (\<lambda>u c.
                             res_bind (t_on_receive_proposal e it prop c) (\<lambda>u c.
                               Ok bnew (t_emit (T_Resolve_Propose prop) c))))))"

definition t_on_receive_vote :: "env \<Rightarrow> vote \<Rightarrow> tcore \<Rightarrow> (unit, tcore) res" where
  "t_on_receive_vote e v c =
     (case t_get_delivered_blk (vote_blk_hash v) c of
        Inl er \<Rightarrow> Exc er c
      | Inr r \<Rightarrow>
          let qsize = of_nat (card (tb_voted (tblk c r))) :: u64
          in if nmajority (tc_config c) \<le> qsize then Ok () c
             else if voter v \<in> tb_voted (tblk c r) then Ok () c
             else
               let c = t_upd r (\<lambda>b. b\<lparr>tb_voted := insert (voter v) (tb_voted b)\<rparr>) c;
                   qc = (case tb_self_qc (tblk c r) of
                           None \<Rightarrow> create_quorum_cert (e_mem e) (tc_config c) (tb_hash (tblk c r))
                         | Some qc \<Rightarrow> qc)
               in case qc_add_part (voter v) (vote_cert v) qc of
                    Exc er qc \<Rightarrow> Exc er (t_upd r (\<lambda>b. b\<lparr>tb_self_qc := Some qc\<rparr>) c)
                  | Ok u qc \<Rightarrow>
                      let c = t_upd r (\<lambda>b. b\<lparr>tb_self_qc := Some qc\<rparr>) c
                      in if qsize + 1 = nmajority (tc_config c)
                         then res_bind (t_update_hqc r (Some qc) c) (\<lambda>u c. Ok () (t_on_qc_finish r c))
                         else Ok () c)"

subsection \<open>Local orders\<close>

definition t_on_local_order :: "replica_id \<Rightarrow> uint256 list \<Rightarrow> tcore \<Rightarrow> (unit, tcore) res" where
  "t_on_local_order proposer cmds c =
     res_bind (t_store (t_update_all_seen cmds) c) (\<lambda>u c.
     res_bind (t_store get_updated_missing_edges c) (\<lambda>l_update c.
       if cmds = [] \<and> l_update = [] then Ok () c
       else Ok () (t_emit (T_Send_Local_Order proposer
              \<lparr>to_initiator = tc_id c, to_ordered_hashes = cmds, to_l_update = l_update\<rparr>) c)))"

definition t_reorder :: "replica_id \<Rightarrow> tcore \<Rightarrow> (unit, tcore) res" where
  "t_reorder proposer c = t_on_local_order proposer [] c"

text \<open>The loop that drops from the front of each queue what has been proposed since.\<close>

fun t_refresh_fronts :: "replica_id list \<Rightarrow> themis_storage \<Rightarrow> (unit, themis_storage) res" where
  "t_refresh_fronts [] st = Ok () st"
| "t_refresh_fronts (r # rs) st =
     (case get_ordered_hash_vector r st of
        Inl e \<Rightarrow> Exc e st
      | Inr xs \<Rightarrow>
          let unproposed = filter (\<lambda>x. \<not> t_is_cmd_proposed x st) xs
          in if length unproposed < length xs
             then res_bind (clear_front_ordered_hash r st) (\<lambda>u st.
               t_refresh_fronts rs (if unproposed = [] then st else add_ordered_hash_to_front r unproposed st))
             else t_refresh_fronts rs st)"

definition t_on_receive_local_order :: "iters \<Rightarrow> themis_order \<Rightarrow> tcore \<Rightarrow> (bool, tcore) res" where
  "t_on_receive_local_order it lo c =
     (let c = c\<lparr>tc_storage := t_add_local_order (to_initiator lo) (to_ordered_hashes lo) (to_l_update lo) (tc_storage c)\<rparr>;
          enough = (\<lambda>c. nmajority (tc_config c) \<le> of_nat (t_get_local_order_cache_size (tc_storage c)))
      in if enough c
         then res_bind (t_store (t_refresh_fronts (get_ordered_hash_replia_vector (it_replicas it) (tc_storage c))) c)
           (\<lambda>u c. Ok (enough c) c)
         else Ok False c)"

text \<open>
  \<open>process_local_order\<close> of \<open>HotStuffBase\<close>: when a quorum of local orders is there, the graph and the updates of
  the next proposal. The pacemaker gives them to \<open>on_propose\<close> when it is this replica's turn.
\<close>

definition t_process_local_order :: "iters \<Rightarrow> themis_order \<Rightarrow> tcore \<Rightarrow> ((uint256 graph \<times> edge list) option, tcore) res" where
  "t_process_local_order it lo c =
     res_bind (t_on_receive_local_order it lo c) (\<lambda>enough c.
       if \<not> enough then Ok None c
       else
         res_bind (t_store (fair_propose it (tc_config c)) c) (\<lambda>g c.
         res_bind (t_store (fair_update it (tc_config c)) c) (\<lambda>es c.
           Ok (Some (g, es)) (c\<lparr>tc_storage := fold t_add_to_proposed (map fst g) (tc_storage c)\<rparr>))))"

subsection \<open>Start\<close>

definition tblock_genesis :: "(bytes \<Rightarrow> uint256) \<Rightarrow> bool \<Rightarrow> u8 \<Rightarrow> err + tblock" where
  "tblock_genesis sha dlv dec =
     (let b = tblock_empty\<lparr>tb_qc := Some (QuorumCertDummy 0), tb_delivered := dlv, tb_decision := dec\<rparr>
      in map_sum id (\<lambda>h. b\<lparr>tb_hash := h\<rparr>) (tblock_get_hash sha b))"

definition t_core_new :: "env \<Rightarrow> uint256 \<Rightarrow> replica_id \<Rightarrow> err + tcore" where
  "t_core_new e h0 rid =
     map_sum id (\<lambda>g.
       \<lparr>tc_heap = (\<lambda>_. tblock_empty)(0 := g), tc_next = 1, tc_b0 = 0, tc_hqc = None, tc_lock = 0, tc_exec = 0,
        tc_vheight = 0, tc_tails = {0}, tc_config = config_new, tc_waiting = {}, tc_vote_disabled = False,
        tc_id = rid, tc_blk_cache = [(tb_hash g, 0)], tc_storage = themis_storage_new h0, tc_events = []\<rparr>)
     (tblock_genesis (e_sha e) True 1)"

definition t_on_init :: "env \<Rightarrow> u32 \<Rightarrow> real \<Rightarrow> tcore \<Rightarrow> tcore" where
  "t_on_init e nfaulty fair c =
     (let cf = (tc_config c)\<lparr>nmajority := nreplicas (tc_config c) - ucast nfaulty, fairness_parameter := fair\<rparr>;
          cf = cf\<lparr>solid_tx_threshold := get_solid_tx_threshold cf\<rparr>;
          cf = cf\<lparr>non_blank_tx_threshold := get_non_blank_tx_threshold cf\<rparr>;
          cf = cf\<lparr>tx_edge_threshold := get_tx_edge_threshold cf\<rparr>;
          qc = create_quorum_cert (e_mem e) cf (tb_hash (tblk c (tc_b0 c)))
      in (t_upd (tc_b0 c) (\<lambda>b. b\<lparr>tb_qc := Some qc, tb_self_qc := Some qc, tb_qc_ref := Some (tc_b0 c)\<rparr>) c)
           \<lparr>tc_config := cf, tc_hqc := Some (tc_b0 c, qc)\<rparr>)"

definition t_add_replica :: "replica_id \<Rightarrow> peer_id \<Rightarrow> pubkey \<Rightarrow> tcore \<Rightarrow> tcore" where
  "t_add_replica rid peer pk c =
     t_upd (tc_b0 c) (\<lambda>b. b\<lparr>tb_voted := insert rid (tb_voted b)\<rparr>)
       (c\<lparr>tc_config := config_add_replica rid \<lparr>ri_id = rid, ri_peer_id = peer, ri_pubkey = pk\<rparr> (tc_config c)\<rparr>)"

subsection \<open>The commit loop\<close>

lemma t_store_Ok: "t_store f c = Ok a c' \<longleftrightarrow> (\<exists>st. f (tc_storage c) = Ok a st \<and> c' = c\<lparr>tc_storage := st\<rparr>)"
  by (auto simp: t_store_def split: res.splits)

lemma t_store_keeps:
  "t_store f c = Ok a c' \<Longrightarrow> tc_heap c' = tc_heap c \<and> tc_id c' = tc_id c \<and> tc_events c' = tc_events c \<and> tc_exec c' = tc_exec c \<and>
     tc_lock c' = tc_lock c \<and> tc_vheight c' = tc_vheight c \<and> tc_vote_disabled c' = tc_vote_disabled c"
  by (auto simp: t_store_Ok)

text \<open>The record of one committed block: what \<open>do_consensus\<close> and \<open>do_decide\<close> get.\<close>

definition commit_record :: "replica_id \<Rightarrow> ref \<Rightarrow> tblock \<Rightarrow> uint256 list \<Rightarrow> themis_event list" where
  "commit_record rid r b order =
     T_Consensus r # map (\<lambda>(i, cmd). T_Decide \<lparr>fin_rid = rid, fin_decision = 1, cmd_idx = of_nat i,
       cmd_height = tb_height b, cmd_hash = cmd, fin_blk_hash = tb_hash b\<rparr>) (enumerate 0 order)"

lemma t_decide_cmds_events:
  "t_decide_cmds r i cmds c = Ok u c' \<Longrightarrow> tc_heap c' = tc_heap c \<and> tc_id c' = tc_id c \<and> tc_exec c' = tc_exec c \<and>
     tc_events c' = tc_events c @ map (\<lambda>(i, cmd). T_Decide \<lparr>fin_rid = tc_id c, fin_decision = 1, cmd_idx = of_nat i,
       cmd_height = tb_height (tblk c r), cmd_hash = cmd, fin_blk_hash = tb_hash (tblk c r)\<rparr>) (enumerate i cmds)"
proof (induction cmds arbitrary: i c)
  case (Cons cmd cmds)
  let ?c = "t_emit (T_Decide \<lparr>fin_rid = tc_id c, fin_decision = 1, cmd_idx = of_nat i,
                cmd_height = tb_height (tblk c r), cmd_hash = cmd, fin_blk_hash = tb_hash (tblk c r)\<rparr>) c"
  obtain d where d: "t_store (t_remove_seen_execute_level cmd) ?c = Ok () d"
    "t_decide_cmds r (i + 1) cmds (d\<lparr>tc_storage := t_remove_from_proposed cmd (tc_storage d)\<rparr>) = Ok u c'"
    using Cons.prems by (auto simp: Let_def elim!: res_bind_OkE)
  from t_store_keeps [OF d(1)] Cons.IH [OF d(2)] show ?case
    by (simp add: t_emit_def)
qed simp

text \<open>
  C24: the loop commits a prefix of the blocks it is given, oldest first, each with the transactions
  of its graph in their final order, and \<open>b_exec\<close> becomes the last of them; the first block left, if
  any, has a graph without a final order yet.
\<close>

theorem commit_complete_prefix:
  assumes "t_commit_blks it rs c = Ok u c'" and "distinct rs"
  shows "\<exists>done rest orders. rs = done @ rest \<and> length orders = length done \<and>
    (\<forall>(r, order) \<in> set (zip done orders). t_fair_finalize it (tblk c r) = Inr order) \<and>
    tc_events c' = tc_events c @ concat (map (\<lambda>(r, order). commit_record (tc_id c) r (tblk c r) order) (zip done orders)) \<and>
    tc_exec c' = last (tc_exec c # done) \<and>
    (\<forall>r. tblk c' r = (if r \<in> set done then (tblk c r)\<lparr>tb_decision := 1\<rparr> else tblk c r)) \<and>
    (rest \<noteq> [] \<longrightarrow> t_fair_finalize it (tblk c (hd rest)) = Inr [] \<and> tb_graph (tblk c (hd rest)) \<noteq> [])"
  using assms
proof (induction rs arbitrary: c)
  case Nil
  then show ?case by (intro exI [of _ "[]"]) simp
next
  case (Cons r rs)
  obtain order where order: "t_fair_finalize it (tblk c r) = Inr order"
    using Cons.prems(1) by (auto split: sum.splits)
  show ?case
  proof (cases "order = [] \<and> tb_graph (tblk c r) \<noteq> []")
    case True
    then have "c' = c"
      using Cons.prems(1) order by simp
    then show ?thesis
      using True order by (intro exI [of _ "[]"] exI [of _ "r # rs"]) simp
  next
    case False
    let ?c = "t_emit (T_Consensus r) (t_upd r (\<lambda>b. b\<lparr>tb_decision := 1\<rparr>) c)"
    obtain d where d: "t_decide_cmds r 0 order ?c = Ok () d" "t_commit_blks it rs (d\<lparr>tc_exec := r\<rparr>) = Ok u c'"
    proof -
      have "res_bind (t_decide_cmds r 0 order ?c) (\<lambda>u c. t_commit_blks it rs (c\<lparr>tc_exec := r\<rparr>)) = Ok u c'"
        using Cons.prems(1) unfolding t_commit_blks.simps order sum.case if_not_P [OF False] Let_def .
      then show thesis
        by (rule res_bind_OkE) (rule that, simp_all)
    qed
    note dec = t_decide_cmds_events [OF d(1)]
    have heap: "tblk d x = (if x = r then (tblk c r)\<lparr>tb_decision := 1\<rparr> else tblk c x)" for x
      using dec by (simp add: t_emit_def t_upd_def)
    have same: "tblk d x = tblk c x" if "x \<in> set rs" for x
      using heap that Cons.prems(2) by auto
    have ev: "tc_events d = tc_events c @ commit_record (tc_id c) r (tblk c r) order"
      using dec by (simp add: t_emit_def t_upd_def commit_record_def)
    have id: "tc_id d = tc_id c"
      using dec by (simp add: t_emit_def t_upd_def)
    let ?d = "d\<lparr>tc_exec := r\<rparr>"
    have dist: "distinct rs"
      using Cons.prems(2) by simp
    obtain fin rest orders where IH: "rs = fin @ rest" "length orders = length fin"
      "\<forall>(r, order) \<in> set (zip fin orders). t_fair_finalize it (tblk ?d r) = Inr order"
      "tc_events c' = tc_events ?d @ concat (map (\<lambda>(r, order). commit_record (tc_id ?d) r (tblk ?d r) order) (zip fin orders))"
      "tc_exec c' = last (tc_exec ?d # fin)"
      "\<forall>r. tblk c' r = (if r \<in> set fin then (tblk ?d r)\<lparr>tb_decision := 1\<rparr> else tblk ?d r)"
      "rest \<noteq> [] \<longrightarrow> t_fair_finalize it (tblk ?d (hd rest)) = Inr [] \<and> tb_graph (tblk ?d (hd rest)) \<noteq> []"
      using Cons.IH [OF d(2) dist] by (elim exE conjE) (rule that)
    have inner: "map (\<lambda>(r, order). commit_record (tc_id d) r (tblk d r) order) (zip fin orders)
      = map (\<lambda>(r, order). commit_record (tc_id c) r (tblk c r) order) (zip fin orders)"
      using same IH(1) by (auto simp: id dest!: set_zip_leftD)
    have rest: "rest \<noteq> [] \<longrightarrow> tblk d (hd rest) = tblk c (hd rest)"
      using same IH(1) by simp
    have "t_fair_finalize it (tblk c x) = Inr y" if xy: "(x, y) \<in> set (zip fin orders)" for x y
    proof -
      have "x \<in> set rs"
        using set_zip_leftD [OF xy] IH(1) by simp
      with bspec [OF IH(3) xy] same show ?thesis by simp
    qed
    then have "\<forall>(r, order) \<in> set (zip fin orders). t_fair_finalize it (tblk c r) = Inr order"
      by blast
    moreover have "tblk c' x = (if x \<in> set (r # fin) then (tblk c x)\<lparr>tb_decision := 1\<rparr> else tblk c x)" for x
      using spec [OF IH(6), of x] IH(1) heap [of x] Cons.prems(2) by (cases "x = r") simp_all
    moreover have "tc_events c' = tc_events c @ concat (map (\<lambda>(r, order). commit_record (tc_id c) r (tblk c r) order)
        (zip (r # fin) (order # orders)))"
      using IH(4) ev inner by simp
    moreover have "rest \<noteq> [] \<longrightarrow> t_fair_finalize it (tblk c (hd rest)) = Inr [] \<and> tb_graph (tblk c (hd rest)) \<noteq> []"
      using IH(7) rest by simp
    moreover have "\<forall>(r, order) \<in> set (zip (r # fin) (order # orders)). t_fair_finalize it (tblk c r) = Inr order"
      using calculation(1) order by simp
    moreover have "tc_exec c' = last (tc_exec c # r # fin)"
      using IH(5) by simp
    moreover have "r # rs = (r # fin) @ rest" "length (order # orders) = length (r # fin)"
      using IH(1,2) by simp_all
    ultimately show ?thesis
      by blast
  qed
qed

text \<open>Three blocks: the genesis, an empty one and one whose two transactions have no edge yet.\<close>

definition example_tcore :: tcore where
  "example_tcore =
     \<lparr>tc_heap = (\<lambda>_. tblock_empty)
        (1 := tblock_empty\<lparr>tb_parents := [0], tb_height := 1\<rparr>,
         2 := tblock_empty\<lparr>tb_parents := [1], tb_height := 2, tb_graph := [(h256 1, []), (h256 2, [])]\<rparr>),
      tc_next = 3, tc_b0 = 0, tc_hqc = None, tc_lock = 0, tc_exec = 0, tc_vheight = 0, tc_tails = {2},
      tc_config = example_themis, tc_waiting = {}, tc_vote_disabled = False, tc_id = 0, tc_blk_cache = [],
      tc_storage = themis_storage_new (h256 0), tc_events = []\<rparr>"

theorem commit_complete_prefix_witness:
  "\<exists>c' fin. t_commit_blks iters_id [1, 2] example_tcore = Ok () c' \<and> tc_exec c' = last (0 # fin) \<and> tc_exec c' = 1 \<and>
    tc_events c' = [T_Consensus 1]"
proof -
  let ?c = "(t_emit (T_Consensus 1) (t_upd 1 (\<lambda>b. b\<lparr>tb_decision := 1\<rparr>) example_tcore))\<lparr>tc_exec := 1\<rparr>"
  have empty: "t_fair_finalize iters_id (tblk example_tcore 1) = Inr []"
    by (simp add: t_fair_finalize_def is_tournament_graph_def example_tcore_def tblock_empty_def get_condensation_graph_def
        graph_closed_def create_transposed_graph_def order_by_finish_time_def)
  have wait: "t_fair_finalize iters_id (tblk example_tcore 2) = Inr []" "tb_graph (tblk example_tcore 2) \<noteq> []"
    by (simp_all add: t_fair_finalize_def is_tournament_graph_def example_tcore_def kids_def)
  have run: "t_commit_blks iters_id [1, 2] example_tcore = Ok () ?c"
    using empty wait by (simp add: t_upd_def t_emit_def example_tcore_def tblock_empty_def)
  have "distinct [1, 2 :: ref]"
    by simp
  from commit_complete_prefix [OF run this] obtain fin where "tc_exec ?c = last (tc_exec example_tcore # fin)"
    by (elim exE conjE) (rule that)
  then have "tc_exec ?c = last (0 # fin)"
    by (simp add: example_tcore_def)
  moreover have "tc_exec ?c = 1" "tc_events ?c = [T_Consensus 1]"
    by (simp_all add: t_emit_def t_upd_def example_tcore_def)
  ultimately show ?thesis
    using run by blast
qed

subsection \<open>The updates of older graphs\<close>

lemma tournament_iff:
  assumes "distinct (map fst (tb_graph b))"
  shows "is_tournament_graph b \<longleftrightarrow> (\<forall>u v. u \<in> fst ` set (tb_graph b) \<longrightarrow> v \<in> fst ` set (tb_graph b) \<longrightarrow> u \<noteq> v \<longrightarrow>
    v \<in> set (kids (tb_graph b) u) \<or> u \<in> set (kids (tb_graph b) v))"
proof -
  have "all_connected g us \<longleftrightarrow> (\<forall>u \<in> set us. \<forall>v \<in> set us. u \<noteq> v \<longrightarrow> v \<in> set (kids g u) \<or> u \<in> set (kids g v))"
    if "distinct us" for g us
    using that by (induction us) auto
  from this [OF assms] show ?thesis
    by (auto simp: is_tournament_graph_def)
qed

text \<open>The fold of \<open>update_graph\<close> over the blocks of a branch.\<close>

lemma fold_update_graph:
  "\<exists>g. tblk (fold (\<lambda>b. t_upd b (update_graph e)) bs c) r = (tblk c r)\<lparr>tb_graph := g\<rparr> \<and>
     (distinct (map fst (tb_graph (tblk c r))) \<longrightarrow> distinct (map fst g)) \<and>
     edges g = edges (tb_graph (tblk c r)) \<union> (if r \<in> set bs then {e} else {}) \<and>
     fst ` set g = fst ` set (tb_graph (tblk c r)) \<union> (if r \<in> set bs then {fst e} else {})"
proof (induction bs arbitrary: c)
  case Nil
  show ?case
    by (intro exI [of _ "tb_graph (tblk c r)"]) simp
next
  case (Cons b bs)
  let ?c = "t_upd b (update_graph e) c"
  have ins: "edges (graph_insert (fst e) (snd e) h) = insert e (edges h)" for h
    by (cases e) (auto simp: edges_def kids_insert split: if_splits)
  have "\<exists>h. tblk ?c r = (tblk c r)\<lparr>tb_graph := h\<rparr> \<and>
     (distinct (map fst (tb_graph (tblk c r))) \<longrightarrow> distinct (map fst h)) \<and>
     edges h = edges (tb_graph (tblk c r)) \<union> (if r = b then {e} else {}) \<and>
     fst ` set h = fst ` set (tb_graph (tblk c r)) \<union> (if r = b then {fst e} else {})"
    by (intro exI [of _ "tb_graph (tblk ?c r)"]) (simp add: t_upd_def update_graph_def ins keys_insert distinct_insert)
  then obtain h where h: "tblk ?c r = (tblk c r)\<lparr>tb_graph := h\<rparr>"
     "distinct (map fst (tb_graph (tblk c r))) \<longrightarrow> distinct (map fst h)"
     "edges h = edges (tb_graph (tblk c r)) \<union> (if r = b then {e} else {})"
     "fst ` set h = fst ` set (tb_graph (tblk c r)) \<union> (if r = b then {fst e} else {})"
    by (elim exE conjE) (rule that)
  obtain g where g: "tblk (fold (\<lambda>b. t_upd b (update_graph e)) bs ?c) r = (tblk ?c r)\<lparr>tb_graph := g\<rparr>"
     "distinct (map fst (tb_graph (tblk ?c r))) \<longrightarrow> distinct (map fst g)"
     "edges g = edges (tb_graph (tblk ?c r)) \<union> (if r \<in> set bs then {e} else {})"
     "fst ` set g = fst ` set (tb_graph (tblk ?c r)) \<union> (if r \<in> set bs then {fst e} else {})"
    using Cons.IH [of ?c] by (elim exE conjE) (rule that)
  show ?case
  proof (intro exI [of _ g] conjI)
    show "tblk (fold (\<lambda>b. t_upd b (update_graph e)) (b # bs) c) r = (tblk c r)\<lparr>tb_graph := g\<rparr>"
      using g(1) h(1) by simp
    have graph: "tb_graph (tblk ?c r) = h"
      using h(1) by simp
    show "distinct (map fst (tb_graph (tblk c r))) \<longrightarrow> distinct (map fst g)"
      using g(2) h(2) unfolding graph by blast
    show "edges g = edges (tb_graph (tblk c r)) \<union> (if r \<in> set (b # bs) then {e} else {})"
      unfolding g(3) graph h(3) by simp
    show "fst ` set g = fst ` set (tb_graph (tblk c r)) \<union> (if r \<in> set (b # bs) then {fst e} else {})"
      unfolding g(4) graph h(4) by simp
  qed
qed

lemma t_walk_first:
  assumes "t_walk_down hp h b = Inr (bs, z)" and "h < tb_height (hp b)"
  shows "b \<in> set bs"
  using assms by (cases "tb_parents (hp b)") (auto simp: t_walk_down_def map_sum_def split: sum.splits prod.splits)

lemma t_remove_all_seen_keeps: "t_remove_all_seen vs c = Ok u c' \<Longrightarrow> tc_heap c' = tc_heap c"
proof (induction vs arbitrary: c)
  case (Cons v vs)
  then obtain d where d: "t_store (t_remove_seen_propose_level v) c = Ok () d" "t_remove_all_seen vs d = Ok u c'"
    by (auto elim!: res_bind_OkE)
  with t_store_keeps [OF d(1)] Cons.IH [OF d(2)] show ?case by simp
qed simp

text \<open>
  The update of an older graph is entered into the newer graphs of the branch, too, whether they
  have the transactions or not: a complete graph that knows another transaction than the two of the
  edge, but not the edge's source, gets the source for a vertex and is complete no more.
\<close>

theorem update_breaks_tournament:
  assumes "t_update_graphs nblk c = Ok x c'" and "tb_e_update (tblk c nblk) = [(u, v)]"
    and "tb_height (tblk c (tc_exec c)) < tb_height (tblk c nblk)"
    and "distinct (map fst (tb_graph (tblk c nblk)))" and "graph_closed (tb_graph (tblk c nblk))"
    and "w \<in> fst ` set (tb_graph (tblk c nblk))" and "w \<noteq> u" and "w \<noteq> v" and "u \<notin> fst ` set (tb_graph (tblk c nblk))"
  shows "fst ` set (tb_graph (tblk c' nblk)) = insert u (fst ` set (tb_graph (tblk c nblk))) \<and>
    \<not> is_tournament_graph (tblk c' nblk)"
proof -
  let ?c = "c\<lparr>tc_storage := remove_missing_edge u v (tc_storage c)\<rparr>" and ?g = "tb_graph (tblk c nblk)"
  obtain d where d: "t_add_edges [(u, v)] nblk c = Ok () d"
    "t_remove_all_seen (map fst (tb_graph (tblk d nblk)))
       (d\<lparr>tc_storage := fold (\<lambda>(u, v). add_missing_edge u v) (get_missing_edges (tblk d nblk)) (tc_storage d)\<rparr>) = Ok x c'"
    using assms(1) by (auto simp: t_update_graphs_def assms(2) Let_def elim!: res_bind_OkE)
  obtain bs z where w: "t_walk_down (tc_heap c) (tb_height (tblk c (tc_exec c))) nblk = Inr (bs, z)"
    and dd: "d = fold (\<lambda>b. t_upd b (update_graph (u, v))) bs ?c"
    using d(1) by (auto simp: Let_def split: sum.splits prod.splits)
  have mem: "nblk \<in> set bs"
    by (rule t_walk_first [OF w assms(3)])
  obtain g where g: "tblk d nblk = (tblk c nblk)\<lparr>tb_graph := g\<rparr>" "distinct (map fst ?g) \<longrightarrow> distinct (map fst g)"
    "edges g = edges ?g \<union> {(u, v)}" "fst ` set g = fst ` set ?g \<union> {u}"
    using fold_update_graph [of "(u, v)" bs ?c nblk] mem unfolding dd by auto
  have c': "tblk c' nblk = (tblk c nblk)\<lparr>tb_graph := g\<rparr>"
    using t_remove_all_seen_keeps [OF d(2)] g(1) by simp
  have "u \<notin> set (kids ?g w)"
    using kids_closed [OF assms(5)] assms(9) by blast
  moreover have "kids ?g u = []"
    by (rule kids_not_key [OF assms(9)])
  ultimately have "(w, u) \<notin> edges g" "(u, w) \<notin> edges g"
    using g(3) assms(7,8) by (simp_all add: edges_kids)
  then have "\<not> is_tournament_graph (tblk c' nblk)"
    using g(2,4) assms(4,6,7) by (subst tournament_iff) (auto simp: c' edges_kids)
  then show ?thesis
    using g(4) by (simp add: c')
qed

text \<open>Block 3 updates the edge of block 2; its own graph has one transaction, so it was complete itself.\<close>

definition example_late :: tcore where
  "example_late = t_upd 3 (\<lambda>b. tblock_empty\<lparr>tb_parents := [0], tb_height := 1, tb_graph := [(h256 4, [])],
     tb_e_update := [(h256 1, h256 2)]\<rparr>) example_tcore"

lemma t_remove_none_seen:
  "linked_cache (local_order_seen_propose_level_cache (tc_storage c)) = [] \<Longrightarrow> t_remove_all_seen vs c = Ok () c"
  by (induction vs) (simp_all add: t_store_def t_remove_seen_propose_level_def remove_cmd_def)

lemma add_missing_keeps_seen:
  "local_order_seen_propose_level_cache (fold (\<lambda>(u, v). add_missing_edge u v) es st) = local_order_seen_propose_level_cache st"
  by (induction es arbitrary: st) (auto simp: add_missing_edge_def Let_def)

lemma remove_missing_keeps_seen:
  "local_order_seen_propose_level_cache (remove_missing_edge u v st) = local_order_seen_propose_level_cache st"
  by (simp add: remove_missing_edge_def Let_def)

theorem update_breaks_tournament_witness:
  "is_tournament_graph (tblk example_late 3) \<and>
   (\<exists>c'. t_update_graphs 3 example_late = Ok () c' \<and> \<not> is_tournament_graph (tblk c' 3))"
proof
  show "is_tournament_graph (tblk example_late 3)"
    by (simp add: example_late_def t_upd_def is_tournament_graph_def)
  have b: "tblk example_late 3 = tblock_empty\<lparr>tb_parents := [0], tb_height := 1, tb_graph := [(h256 4, [])],
     tb_e_update := [(h256 1, h256 2)]\<rparr>" "tb_height (tblk example_late (tc_exec example_late)) = 0"
    "tb_height (tblk example_late 0) = 0"
    by (simp_all add: example_late_def example_tcore_def t_upd_def tblock_empty_def)
  have walk: "t_walk_down (tc_heap example_late) 0 3 = Inr ([3], 0)"
    by (simp add: t_walk_down_def b)
  have "tc_storage (t_upd r f c) = tc_storage c" for r f c
    by (simp add: t_upd_def)
  moreover have "linked_cache (local_order_seen_propose_level_cache (tc_storage example_late)) = []"
    by (simp add: example_late_def example_tcore_def t_upd_def themis_storage_new_def list_new_def set_prev_def set_next_def)
  ultimately have "\<exists>c'. t_update_graphs 3 example_late = Ok () c'"
    by (simp add: t_update_graphs_def b walk Let_def t_remove_none_seen add_missing_keeps_seen remove_missing_keeps_seen)
  then obtain c' where c': "t_update_graphs 3 example_late = Ok () c'" by blast
  have "\<not> is_tournament_graph (tblk c' 3)"
    using update_breaks_tournament [OF c', of "h256 1" "h256 2" "h256 4"] by (simp add: b graph_closed_def)
  with c' show "\<exists>c'. t_update_graphs 3 example_late = Ok () c' \<and> \<not> is_tournament_graph (tblk c' 3)"
    by blast
qed

subsection \<open>Voting\<close>

lemma t_update_hqc_keeps:
  "t_update_hqc r qc c = Ok u c' \<Longrightarrow> tc_heap c' = tc_heap c \<and> tc_vheight c' = tc_vheight c \<and> tc_id c' = tc_id c"
  by (auto simp: t_update_hqc_def t_emit_def split: option.splits if_splits)

lemma t_vote_opinion_cases:
  assumes "t_vote_opinion r c = Ok op c'"
  obtains "\<not> op" "c' = c"
  | "op" "tc_vheight c < tb_height (tblk c r)" "c' = c\<lparr>tc_vheight := tb_height (tblk c r)\<rparr>"
    "(\<exists>q. tb_qc_ref (tblk c r) = Some q \<and> tb_height (tblk c (tc_lock c)) < tb_height (tblk c q)) \<or>
     (\<exists>bs. t_walk_down (tc_heap c) (tb_height (tblk c (tc_lock c))) r = Inr (bs, tc_lock c))"
  using assms by (auto simp: t_vote_opinion_def split: if_splits option.splits sum.splits prod.splits)

fun is_vote :: "themis_event \<Rightarrow> bool" where
  "is_vote (T_Vote p v) = True"
| "is_vote ev = False"

lemma no_vote_emit: "\<not> is_vote ev \<Longrightarrow> filter is_vote (tc_events (t_emit ev c)) = filter is_vote (tc_events c)"
  by (simp add: t_emit_def)
text \<open>What \<open>update\<close> leaves alone.\<close>

definition t_frame :: "tcore \<Rightarrow> tcore \<Rightarrow> bool" where
  "t_frame c c' \<longleftrightarrow> tc_vheight c' = tc_vheight c \<and> tc_id c' = tc_id c \<and> tc_vote_disabled c' = tc_vote_disabled c \<and>
     filter is_vote (tc_events c') = filter is_vote (tc_events c) \<and>
     (\<forall>r. tb_height (tblk c' r) = tb_height (tblk c r) \<and> tb_hash (tblk c' r) = tb_hash (tblk c r) \<and>
        tb_parents (tblk c' r) = tb_parents (tblk c r) \<and> tb_qc_ref (tblk c' r) = tb_qc_ref (tblk c r))"

lemma t_frame_refl [simp]: "t_frame c c"
  by (simp add: t_frame_def)

lemma t_frame_trans: "t_frame a b \<Longrightarrow> t_frame b c \<Longrightarrow> t_frame a c"
  by (simp add: t_frame_def)

lemma t_frame_store: "t_frame c (c\<lparr>tc_storage := st\<rparr>)"
  by (simp add: t_frame_def)

lemma t_frame_t_store: "t_store f c = Ok a c' \<Longrightarrow> t_frame c c'"
  by (auto simp: t_store_Ok t_frame_store)

lemma t_frame_graphs: "t_frame c (fold (\<lambda>b. t_upd b (update_graph e)) bs c)"
proof (induction bs arbitrary: c)
  case (Cons b bs)
  have "t_frame c (t_upd b (update_graph e) c)"
    by (simp add: t_frame_def t_upd_def update_graph_def)
  with Cons [of "t_upd b (update_graph e) c"] show ?case
    by (auto intro: t_frame_trans)
qed simp

lemma t_frame_add_edges: "t_add_edges es r c = Ok u c' \<Longrightarrow> t_frame c c'"
proof (induction es arbitrary: c)
  case (Cons e es)
  let ?c = "c\<lparr>tc_storage := remove_missing_edge (fst e) (snd e) (tc_storage c)\<rparr>"
  obtain bs where "t_add_edges es r (fold (\<lambda>b. t_upd b (update_graph e)) bs ?c) = Ok u c'"
    using Cons.prems by (auto simp: Let_def split: sum.splits prod.splits)
  then have "t_frame (fold (\<lambda>b. t_upd b (update_graph e)) bs ?c) c'"
    by (rule Cons.IH)
  then show ?case
    using t_frame_trans [OF t_frame_store t_frame_trans [OF t_frame_graphs]] by blast
qed simp

lemma t_frame_remove_all_seen: "t_remove_all_seen vs c = Ok u c' \<Longrightarrow> t_frame c c'"
  by (induction vs arbitrary: c) (auto elim!: res_bind_OkE dest: t_frame_t_store intro: t_frame_trans)

lemma t_frame_update_graphs: "t_update_graphs r c = Ok u c' \<Longrightarrow> t_frame c c'"
  unfolding t_update_graphs_def Let_def
  by (auto elim!: res_bind_OkE dest!: t_frame_add_edges t_frame_remove_all_seen intro: t_frame_trans [OF _ t_frame_trans [OF t_frame_store]])

lemma t_frame_update_hqc: "t_update_hqc r qc c = Ok u c' \<Longrightarrow> t_frame c c'"
  by (auto simp: t_update_hqc_def t_emit_def t_frame_def split: option.splits if_splits)

lemma t_frame_decide: "t_decide_cmds r i cmds c = Ok u c' \<Longrightarrow> t_frame c c'"
proof (induction cmds arbitrary: i c)
  case (Cons cmd cmds)
  let ?c = "t_emit (T_Decide \<lparr>fin_rid = tc_id c, fin_decision = 1, cmd_idx = of_nat i,
                cmd_height = tb_height (tblk c r), cmd_hash = cmd, fin_blk_hash = tb_hash (tblk c r)\<rparr>) c"
  obtain d where d: "t_store (t_remove_seen_execute_level cmd) ?c = Ok () d"
    "t_decide_cmds r (i + 1) cmds (d\<lparr>tc_storage := t_remove_from_proposed cmd (tc_storage d)\<rparr>) = Ok u c'"
    using Cons.prems by (auto simp: Let_def elim!: res_bind_OkE)
  have "t_frame c ?c"
    by (simp add: t_frame_def t_emit_def)
  from t_frame_trans [OF this t_frame_trans [OF t_frame_t_store [OF d(1)] t_frame_trans [OF t_frame_store Cons.IH [OF d(2)]]]]
  show ?case .
qed simp

lemma t_frame_commit: "t_commit_blks it rs c = Ok u c' \<Longrightarrow> t_frame c c'"
proof (induction rs arbitrary: c)
  case (Cons r rs)
  obtain order where order: "t_fair_finalize it (tblk c r) = Inr order"
    using Cons.prems by (auto split: sum.splits)
  show ?case
  proof (cases "order = [] \<and> tb_graph (tblk c r) \<noteq> []")
    case True
    then show ?thesis using Cons.prems order by simp
  next
    case False
    let ?c = "t_emit (T_Consensus r) (t_upd r (\<lambda>b. b\<lparr>tb_decision := 1\<rparr>) c)"
    have "res_bind (t_decide_cmds r 0 order ?c) (\<lambda>u c. t_commit_blks it rs (c\<lparr>tc_exec := r\<rparr>)) = Ok u c'"
      using Cons.prems unfolding t_commit_blks.simps order sum.case if_not_P [OF False] Let_def .
    then obtain d where d: "t_decide_cmds r 0 order ?c = Ok () d" "t_commit_blks it rs (d\<lparr>tc_exec := r\<rparr>) = Ok u c'"
      by (auto elim!: res_bind_OkE)
    have "t_frame c ?c" "t_frame d (d\<lparr>tc_exec := r\<rparr>)"
      by (simp_all add: t_frame_def t_emit_def t_upd_def)
    then show ?thesis
      using t_frame_decide [OF d(1)] Cons.IH [OF d(2)] by (blast intro: t_frame_trans)
  qed
qed simp

lemma t_frame_update: "t_update it r c = Ok u c' \<Longrightarrow> t_frame c c'"
proof -
  have chain: "t_commit_chain it b c = Ok u c' \<Longrightarrow> t_frame c c'" for b c c' and u :: unit
    by (auto simp: t_commit_chain_def split: sum.splits prod.splits if_splits dest: t_frame_commit)
  have commit: "t_update_commit it b2 b1 c = Ok u c' \<Longrightarrow> t_frame c c'" for b2 b1 c c' and u :: unit
    by (auto simp: t_update_commit_def split: option.splits if_splits dest: chain)
  have lock: "t_frame c c'" if "t_update_lock it b2 c = Ok u c'" for b2 c c' and u :: unit
  proof (cases "tb_qc_ref (tblk c b2)")
    case (Some b1)
    let ?c = "if tb_height (tblk c (tc_lock c)) < tb_height (tblk c b1) then c\<lparr>tc_lock := b1\<rparr> else c"
    have "t_frame c ?c"
      by (simp add: t_frame_def)
    moreover have "c' = c \<or> t_update_commit it b2 b1 ?c = Ok u c'"
      using that Some by (simp add: t_update_lock_def split: if_splits)
    ultimately show ?thesis
      using commit [of b2 b1 ?c u c'] t_frame_trans [of c ?c c'] t_frame_refl [of c] by metis
  qed (use that in \<open>simp add: t_update_lock_def\<close>)
  assume "t_update it r c = Ok u c'"
  then show ?thesis
    by (auto simp: t_update_def elim!: res_bind_OkE split: option.splits if_splits
        dest!: t_frame_update_graphs t_frame_update_hqc lock) (metis t_frame_trans)
qed

text \<open>
  A replica that handles a proposal votes at most once, only for a block above every height it
  voted for, which it then remembers, and only if the block's certificate refers to a block above the
  lock or the lock lies on the block's branch; graphs and updates have no influence on that.
\<close>

theorem themis_vote_rule:
  assumes "t_on_receive_proposal e it prop c = Ok u c'"
  shows "let r = prop_blk prop in
    (filter is_vote (tc_events c') = filter is_vote (tc_events c)) \<or>
    (filter is_vote (tc_events c') = filter is_vote (tc_events c) @
       [T_Vote (prop_proposer prop) \<lparr>voter = tc_id c, vote_blk_hash = tb_hash (tblk c r),
          vote_cert = create_part_cert e (tb_hash (tblk c r))\<rparr>] \<and>
     \<not> tc_vote_disabled c \<and> tc_vheight c < tb_height (tblk c r) \<and> tc_vheight c' = tb_height (tblk c r) \<and>
     ((\<exists>q. tb_qc_ref (tblk c' r) = Some q \<and> tb_height (tblk c' (tc_lock c')) < tb_height (tblk c' q)) \<or>
      (\<exists>bs. t_walk_down (tc_heap c') (tb_height (tblk c' (tc_lock c'))) r = Inr (bs, tc_lock c'))))"
proof -
  let ?r = "prop_blk prop" and ?self = "prop_proposer prop = tc_id c"
  obtain c1 op c2 where c1: "(if ?self then Ok () c
      else res_bind (t_sanity_check_delivered ?r c) (\<lambda>u c. t_update it ?r c)) = Ok () c1"
    and op: "t_vote_opinion ?r c1 = Ok op c2"
    and c': "(let c = (case tb_qc_ref (tblk c2 ?r) of Some q \<Rightarrow> if ?self then c2 else t_on_qc_finish q c2 | None \<Rightarrow> c2);
               c = t_emit (T_Resolve_Receive_Proposal prop) c
           in if op \<and> \<not> tc_vote_disabled c
              then Ok () (t_emit (T_Vote (prop_proposer prop) \<lparr>voter = tc_id c, vote_blk_hash = tb_hash (tblk c ?r),
                      vote_cert = create_part_cert e (tb_hash (tblk c ?r))\<rparr>) c)
              else Ok () c) = Ok u c'"
    using assms unfolding t_on_receive_proposal_def Let_def by (auto elim!: res_bind_OkE)
  have f1: "t_frame c c1"
    using c1 by (auto simp: t_sanity_check_delivered_def split: if_splits dest: t_frame_update)
  define c3 where "c3 = (case tb_qc_ref (tblk c2 ?r) of Some q \<Rightarrow> if ?self then c2 else t_on_qc_finish q c2 | None \<Rightarrow> c2)"
  have c3: "tc_heap c3 = tc_heap c2" "tc_lock c3 = tc_lock c2" "tc_vheight c3 = tc_vheight c2" "tc_id c3 = tc_id c2"
    "tc_vote_disabled c3 = tc_vote_disabled c2" "filter is_vote (tc_events c3) = filter is_vote (tc_events c2)"
    by (auto simp: c3_def t_on_qc_finish_def t_emit_def split: option.splits)
  have end': "c' = (if op \<and> \<not> tc_vote_disabled c3 then t_emit (T_Vote (prop_proposer prop) \<lparr>voter = tc_id c3,
        vote_blk_hash = tb_hash (tblk c3 ?r), vote_cert = create_part_cert e (tb_hash (tblk c3 ?r))\<rparr>)
      (t_emit (T_Resolve_Receive_Proposal prop) c3) else t_emit (T_Resolve_Receive_Proposal prop) c3)"
    using c' unfolding Let_def c3_def [symmetric] by (auto simp: t_emit_def split: if_splits)
  from op show ?thesis
  proof (cases rule: t_vote_opinion_cases)
    case 1
    then show ?thesis
      using f1 c3 end' by (simp add: t_frame_def t_emit_def Let_def)
  next
    case 2
    then show ?thesis
      using f1 c3 end' by (auto simp: t_frame_def t_emit_def Let_def)
  qed
qed

definition example_proposal :: proposal where
  "example_proposal = \<lparr>prop_proposer = 0, prop_blk = 1\<rparr>"

theorem themis_vote_rule_witness:
  "\<exists>e c'. t_on_receive_proposal e iters_id example_proposal example_tcore = Ok () c' \<and>
     length (filter is_vote (tc_events c')) = 1 \<and> tc_vheight c' = 1"
proof -
  let ?e = "\<lparr>e_sha = \<lambda>xs. 0, e_sign = \<lambda>h. [], e_mem = \<lambda>n. 0, e_srt = \<lambda>k xs. xs\<rparr>"
  have b: "tblk example_tcore 1 = tblock_empty\<lparr>tb_parents := [0], tb_height := 1\<rparr>" "tblk example_tcore 0 = tblock_empty"
    "tc_lock example_tcore = 0" "tc_id example_tcore = 0" "tc_vheight example_tcore = 0" "tc_vote_disabled example_tcore = False"
    "tc_events example_tcore = []" "tb_height tblock_empty = 0" "tb_qc_ref tblock_empty = None"
    by (simp_all add: example_tcore_def tblock_empty_def)
  have op: "t_vote_opinion 1 example_tcore = Ok True (example_tcore\<lparr>tc_vheight := 1\<rparr>)"
    using b by (simp add: t_vote_opinion_def t_walk_down_def)
  have "\<exists>c'. t_on_receive_proposal ?e iters_id example_proposal example_tcore = Ok () c' \<and>
      length (filter is_vote (tc_events c')) = 1"
    using b op by (simp add: t_on_receive_proposal_def example_proposal_def Let_def t_emit_def)
  then obtain c' where c': "t_on_receive_proposal ?e iters_id example_proposal example_tcore = Ok () c'"
    "length (filter is_vote (tc_events c')) = 1" by blast
  have "tc_vheight c' = 1"
    using themis_vote_rule [OF c'(1)] c'(2) b by (auto simp: Let_def example_proposal_def)
  with c' show ?thesis by blast
qed

subsection \<open>The fronts of the queues\<close>

definition refreshed :: "(uint256 \<Rightarrow> bool) \<Rightarrow> uint256 list list \<Rightarrow> uint256 list list" where
  "refreshed P q = (case q of [] \<Rightarrow> [] | x # q' \<Rightarrow>
     if \<forall>c \<in> set x. \<not> P c then q else if \<forall>c \<in> set x. P c then q' else filter (\<lambda>c. \<not> P c) x # q')"

lemma t_refresh_fronts_ok:
  assumes "queues_ok (ordered_hash_cache st)" and "set rs \<subseteq> fst ` set (ordered_hash_cache st)" and "distinct rs"
  shows "\<exists>m. t_refresh_fronts rs st = Ok () (st\<lparr>ordered_hash_cache := m\<rparr>) \<and> queues_ok m \<and>
    (\<forall>j. queue_at j m = (if j \<in> set rs then refreshed (\<lambda>c. t_is_cmd_proposed c st) (queue_at j (ordered_hash_cache st))
       else queue_at j (ordered_hash_cache st)))"
  using assms
proof (induction rs arbitrary: st)
  case Nil
  then show ?case
    by (intro exI [of _ "ordered_hash_cache st"]) simp
next
  case (Cons r rs)
  let ?m = "ordered_hash_cache st" and ?P = "\<lambda>c. t_is_cmd_proposed c st"
  have r: "r \<in> fst ` set ?m"
    using Cons.prems(2) by simp
  obtain x q where q: "queue_at r ?m = x # q"
    using queue_at_ok [OF Cons.prems(1) r] by (cases "queue_at r ?m") auto
  let ?y = "filter (\<lambda>c. \<not> ?P c) x"
  obtain m where m: "t_refresh_fronts (r # rs) st = t_refresh_fronts rs (st\<lparr>ordered_hash_cache := m\<rparr>)" "queues_ok m"
    "fst ` set ?m - {r} \<subseteq> fst ` set m"
    "\<And>j. queue_at j m = (if j = r then refreshed ?P (queue_at j ?m) else queue_at j ?m)"
  proof (cases "\<forall>c \<in> set x. \<not> ?P c")
    case True
    then have "?y = x"
      by (simp add: filter_id_conv)
    then have "t_refresh_fronts (r # rs) st = t_refresh_fronts rs (st\<lparr>ordered_hash_cache := ?m\<rparr>)"
      by (simp add: get_ordered_hash_vector_def q Let_def)
    then show thesis
      using that [of ?m] Cons.prems(1) True q by (auto simp: refreshed_def)
  next
    case False
    then have len: "length ?y < length x"
      by (metis length_filter_less)
    obtain m where pop: "pop_queue r ?m = Inr m" "queues_ok m" "fst ` set m \<subseteq> fst ` set ?m" "fst ` set ?m - {r} \<subseteq> fst ` set m"
      "\<And>j. queue_at j m = (if j = r then tl (queue_at j ?m) else queue_at j ?m)"
      by (rule pop_queue_ok [OF Cons.prems(1) r]) (rule that)
    let ?n = "if ?y = [] then m else AList.update r (?y # queue_at r m) m"
    have "t_refresh_fronts (r # rs) st = t_refresh_fronts rs (st\<lparr>ordered_hash_cache := ?n\<rparr>)"
      using len by (simp add: get_ordered_hash_vector_def q clear_front_ordered_hash_def pop(1) add_ordered_hash_to_front_def Let_def)
    moreover have "queues_ok ?n"
      using pop(2) by (simp add: queues_ok_update)
    moreover have "fst ` set ?m - {r} \<subseteq> fst ` set ?n"
      using pop(4) by (auto simp: dom_update)
    moreover have "queue_at j ?n = (if j = r then refreshed ?P (queue_at j ?m) else queue_at j ?m)" for j
      using False pop(5) [of j] pop(5) [of r] q by (auto simp: refreshed_def queue_at_update filter_empty_conv)
    ultimately show thesis
      by (rule that)
  qed
  have rs: "set rs \<subseteq> fst ` set m" and new: "r \<notin> set rs"
    using Cons.prems(2,3) m(3) by auto
  obtain m' where m': "t_refresh_fronts rs (st\<lparr>ordered_hash_cache := m\<rparr>) = Ok () (st\<lparr>ordered_hash_cache := m'\<rparr>)" "queues_ok m'"
    "\<forall>j. queue_at j m' = (if j \<in> set rs then refreshed ?P (queue_at j m) else queue_at j m)"
    using Cons.IH [of "st\<lparr>ordered_hash_cache := m\<rparr>"] m(2) rs Cons.prems(3) by (auto simp: t_is_cmd_proposed_def)
  have "queue_at j m' = (if j \<in> set (r # rs) then refreshed ?P (queue_at j ?m) else queue_at j ?m)" for j
    using m(4) [of j] m'(3) new by auto
  with m(1) m' show ?case by (intro exI [of _ m']) simp
qed

text \<open>
  When enough replicas have sent an order, the handler strips the front of every queue of what
  has been proposed and drops a front that was proposed entirely. It does so once: the order behind
  a dropped front comes to the front as it is.
\<close>

theorem local_order_refresh:
  fixes lo c
  defines "st \<equiv> t_add_local_order (to_initiator lo) (to_ordered_hashes lo) (to_l_update lo) (tc_storage c)"
  assumes "iters_ok it" and "queues_ok (ordered_hash_cache (tc_storage c))"
    and "nmajority (tc_config c) \<le> of_nat (length (ordered_hash_cache st))"
  shows "\<exists>b c'. t_on_receive_local_order it lo c = Ok b c' \<and>
    (\<forall>r. queue_at r (ordered_hash_cache (tc_storage c')) =
       refreshed (\<lambda>x. t_is_cmd_proposed x (tc_storage c)) (queue_at r (ordered_hash_cache st)))"
proof -
  let ?c = "c\<lparr>tc_storage := st\<rparr>"
  let ?rs = "get_ordered_hash_replia_vector (it_replicas it) st"
  have proposed: "t_is_cmd_proposed x st = t_is_cmd_proposed x (tc_storage c)" for x
    by (simp add: st_def t_add_local_order_def t_is_cmd_proposed_def Let_def)
  have ok: "queues_ok (ordered_hash_cache st)"
    using assms(3) by (simp add: st_def t_add_local_order_def queues_ok_update Let_def)
  have rs: "mset ?rs = mset (map fst (ordered_hash_cache st))"
    using assms(2) by (simp add: get_ordered_hash_replia_vector_def iters_ok_def)
  then have set: "set ?rs = fst ` set (ordered_hash_cache st)" and dist: "distinct ?rs"
    using ok mset_eq_setD [OF rs] mset_eq_imp_distinct_iff [OF rs] by (simp_all add: queues_ok_def)
  obtain m where m: "t_refresh_fronts ?rs st = Ok () (st\<lparr>ordered_hash_cache := m\<rparr>)"
    "\<forall>j. queue_at j m = (if j \<in> set ?rs then refreshed (\<lambda>c. t_is_cmd_proposed c st) (queue_at j (ordered_hash_cache st))
       else queue_at j (ordered_hash_cache st))"
    using t_refresh_fronts_ok [OF ok _ dist] set by blast
  have "queue_at j (ordered_hash_cache st) = []" if "j \<notin> set ?rs" for j
    using that set by (simp add: queue_at_def map_of_eq_None_iff [THEN iffD2])
  then have "queue_at r m = refreshed (\<lambda>x. t_is_cmd_proposed x (tc_storage c)) (queue_at r (ordered_hash_cache st))" for r
    using m(2) by (cases "r \<in> set ?rs") (simp_all add: proposed refreshed_def)
  moreover have "\<exists>b. t_on_receive_local_order it lo c = Ok b (?c\<lparr>tc_storage := st\<lparr>ordered_hash_cache := m\<rparr>\<rparr>)"
    using assms(4) m(1) by (simp add: t_on_receive_local_order_def Let_def t_get_local_order_cache_size_def t_store_def
        st_def [symmetric])
  ultimately show ?thesis by fastforce
qed

definition example_stale :: tcore where
  "example_stale = example_tcore\<lparr>tc_config := example_themis\<lparr>nmajority := 1\<rparr>,
     tc_storage := (themis_storage_new (h256 0))\<lparr>ordered_hash_cache := [(2, [[h256 7], [h256 7, h256 8]])],
       t_proposed_cmds_cache := {h256 7}\<rparr>\<rparr>"

text \<open>Here the handler leaves the proposed command 7 at the front.\<close>

theorem local_order_refresh_witness:
  "\<exists>b c'. t_on_receive_local_order iters_id \<lparr>to_initiator = 3, to_ordered_hashes = [], to_l_update = []\<rparr> example_stale = Ok b c' \<and>
     queue_at 2 (ordered_hash_cache (tc_storage c')) = [[h256 7, h256 8]] \<and> t_is_cmd_proposed (h256 7) (tc_storage example_stale)"
proof -
  let ?lo = "\<lparr>to_initiator = 3, to_ordered_hashes = [], to_l_update = []\<rparr>"
  let ?st = "t_add_local_order (to_initiator ?lo) (to_ordered_hashes ?lo) (to_l_update ?lo) (tc_storage example_stale)"
  have st: "ordered_hash_cache ?st = [(2, [[h256 7], [h256 7, h256 8]])]"
    by (simp add: t_add_local_order_def example_stale_def Let_def)
  have q: "queues_ok (ordered_hash_cache (tc_storage example_stale))"
    "nmajority (tc_config example_stale) \<le> of_nat (length (ordered_hash_cache ?st))"
    unfolding st by (simp_all add: example_stale_def queues_ok_def example_themis_def)
  obtain b c' where "t_on_receive_local_order iters_id ?lo example_stale = Ok b c'"
    "\<forall>r. queue_at r (ordered_hash_cache (tc_storage c')) =
       refreshed (\<lambda>x. t_is_cmd_proposed x (tc_storage example_stale)) (queue_at r (ordered_hash_cache ?st))"
    using local_order_refresh [OF iters_id_ok q] by blast
  moreover have "t_is_cmd_proposed (h256 7) (tc_storage example_stale)"
    by (simp add: example_stale_def t_is_cmd_proposed_def)
  ultimately show ?thesis
    unfolding st by (auto simp: refreshed_def queue_at_def)
qed

end
