(* ===== verification/Rashnu_Graph.thy ===== *)
theory Rashnu_Graph
  imports Graph_Codec Themis_Order
begin

text \<open>
  The graph algorithms of Rashnu (\<open>rashnu/include/hotstuff/graph.h\<close>, \<open>rashnu/src/graph.cpp\<close>): the
  dependency graph of a local order, its transitive reduction, the weakly connected components, and
  the counts a parallel executor needs. \<open>CondensationGraph\<close> and the bitmap codec are copies of those
  of Themis.
\<close>

subsection \<open>The dependency graph of a local order\<close>

text \<open>
  A command depends on keys of the application's state, each read (\<open>r\<close>) or written (\<open>w\<close>). Reading an
  absent entry of \<open>dependency_types\<close> gives the null character.
\<close>

record local_order_dag =
  ld_order :: "uint256 list"
  ld_dependencies :: "(uint256 \<times> u64 list) list"
  ld_types :: "(uint256 \<times> (u64 \<times> char) list) list"

definition dag_new :: "uint256 list \<Rightarrow> local_order_dag" where
  "dag_new order = \<lparr>ld_order = order, ld_dependencies = [], ld_types = []\<rparr>"

definition dep_of :: "local_order_dag \<Rightarrow> uint256 \<Rightarrow> u64 list" where
  "dep_of l c = (case map_of (ld_dependencies l) c of None \<Rightarrow> [] | Some ds \<Rightarrow> ds)"

definition types_of :: "local_order_dag \<Rightarrow> uint256 \<Rightarrow> (u64 \<times> char) list" where
  "types_of l c = (case map_of (ld_types l) c of None \<Rightarrow> [] | Some ts \<Rightarrow> ts)"

definition type_of :: "local_order_dag \<Rightarrow> uint256 \<Rightarrow> u64 \<Rightarrow> char" where
  "type_of l c d = (case map_of (types_of l c) d of None \<Rightarrow> CHR 0x00 | Some t \<Rightarrow> t)"

definition add_dependency :: "uint256 \<Rightarrow> (u64 \<times> char) list \<Rightarrow> local_order_dag \<Rightarrow> local_order_dag" where
  "add_dependency c info l =
     fold (\<lambda>(d, t) l. l\<lparr>ld_dependencies := AList.update c (set_add d (dep_of l c)) (ld_dependencies l),
                        ld_types := AList.update c (AList.update d t (types_of l c)) (ld_types l)\<rparr>) info l"

definition conflict :: "local_order_dag \<Rightarrow> uint256 \<Rightarrow> uint256 \<Rightarrow> u64 \<Rightarrow> bool" where
  "conflict l prev cmd d \<longleftrightarrow>
     d \<in> set (dep_of l prev) \<and>
     (type_of l cmd d = CHR ''w'' \<or> type_of l cmd d = CHR ''r'' \<and> type_of l prev d = CHR ''w'')"

text \<open>\<open>prevs\<close> are the commands before the current one, the nearest first.\<close>

fun dag_rows :: "local_order_dag \<Rightarrow> uint256 list \<Rightarrow> uint256 list \<Rightarrow> uint256 graph \<Rightarrow> uint256 graph" where
  "dag_rows l prevs [] g = g"
| "dag_rows l prevs (cmd # cmds) g =
     dag_rows l (cmd # prevs) cmds
       (fold (\<lambda>d. fold (\<lambda>prev g. if conflict l prev cmd d then graph_insert prev cmd g else g) prevs) (dep_of l cmd) g)"

definition create_dag :: "local_order_dag \<Rightarrow> uint256 graph" where
  "create_dag l = dag_rows l [] (ld_order l) (fold (\<lambda>c. AList.update c []) (ld_order l) [])"

subsection \<open>Transitive reduction\<close>

text \<open>
  \<open>reduce_by_dfs(u, v, visited)\<close>: the search goes through the rows of the graph; of these only the row
  of \<open>u\<close> changes on the way, by the loss of vertices that are visited already. The state holds the
  visited vertices, the row of \<open>u\<close>, and whether an element was erased from that row inside a loop
  over it, which is undefined.
\<close>

definition reduce_enter :: "uint256 graph \<Rightarrow> uint256 \<Rightarrow> uint256 \<Rightarrow> uint256 list \<times> uint256 list \<times> bool
    \<Rightarrow> uint256 list \<times> uint256 list \<times> bool" where
  "reduce_enter h u w st =
     (let (vis, row, ub) = st; vis = w # vis
      in (vis, filter (\<lambda>x. x \<noteq> w) row, ub \<or> w = u \<and> (\<exists>x \<in> set (kids h u). x \<notin> set vis)))"

definition reduce_by_dfs :: "uint256 graph \<Rightarrow> uint256 \<Rightarrow> uint256 \<Rightarrow> err + uint256 graph" where
  "reduce_by_dfs h u v =
     (let (vis, row, ub) = snd (dfs h (reduce_enter h u) (\<lambda>w st. st) (kids h v)
            ({v}, [v], kids h u, v = u \<and> (\<exists>x \<in> set (kids h u). x \<noteq> v)))
      in if ub then Inl Undefined_Behaviour else Inr (AList.update u row h))"

fun reduce_row :: "uint256 \<Rightarrow> uint256 list \<Rightarrow> uint256 graph \<Rightarrow> err + uint256 graph" where
  "reduce_row u [] h = Inr h"
| "reduce_row u (v # vs) h = (case reduce_by_dfs h u v of Inl e \<Rightarrow> Inl e | Inr h \<Rightarrow> reduce_row u vs h)"

fun reduce_rows :: "uint256 list \<Rightarrow> uint256 graph \<Rightarrow> err + uint256 graph" where
  "reduce_rows [] h = Inr h"
| "reduce_rows (u # us) h = (case reduce_row u (kids h u) h of Inl e \<Rightarrow> Inl e | Inr h \<Rightarrow> reduce_rows us h)"

text \<open>As in \<open>Condensation\<close>, a child that is no key would be entered into the table under the iterator.\<close>

definition reduce :: "uint256 graph \<Rightarrow> err + uint256 graph" where
  "reduce g = (if \<not> graph_closed g then Inl Undefined_Behaviour else reduce_rows (map fst g) g)"

subsection \<open>Weakly connected components\<close>

definition create_undirected_graph :: "'v graph \<Rightarrow> 'v graph" where
  "create_undirected_graph g =
     fold (\<lambda>(u, vs) t. fold (\<lambda>v t. graph_insert v u (graph_insert u v t)) vs t) g
       (fold (\<lambda>(u, vs). AList.update u []) g [])"

definition wcc_dfs :: "'v graph \<Rightarrow> 'v \<Rightarrow> 'v set \<Rightarrow> 'v set \<times> 'v list" where
  "wcc_dfs t v visited = dfs t (\<lambda>v c. c @ [v]) (\<lambda>v c. c) (kids t v) (insert v visited, [v])"

fun wcc_loop :: "'v graph \<Rightarrow> 'v list \<Rightarrow> 'v set \<Rightarrow> 'v list list" where
  "wcc_loop t [] visited = []"
| "wcc_loop t (v # vs) visited =
     (if v \<in> visited then wcc_loop t vs visited
      else let (visited, c) = wcc_dfs t v visited in c # wcc_loop t vs visited)"

definition get_wcc :: "('v graph \<Rightarrow> 'v graph) \<Rightarrow> 'v graph \<Rightarrow> 'v list list" where
  "get_wcc iter g = (let t = iter (create_undirected_graph g) in wcc_loop t (map fst t) {})"

subsection \<open>The codec\<close>

definition gfc_serialize :: "uint256 graph \<Rightarrow> data_stream \<Rightarrow> (unit, data_stream) res" where
  "gfc_serialize g s =
     (let keys = sort (map fst g)
      in case adj_rows g keys keys of
           Inl e \<Rightarrow> Exc e s
         | Inr rows \<Rightarrow> Ok () (put_vec row_serialize rows s))"

definition gfc_unserialize :: "data_stream \<Rightarrow> (uint256 graph, data_stream) res" where
  "gfc_unserialize s =
     res_bind (get_vec row_unserialize s) (\<lambda>rows s.
       case build_graph rows rows [] of Inl e \<Rightarrow> Exc e s | Inr g \<Rightarrow> Ok g s)"

subsection \<open>Counts for the executor\<close>

record graph_operation =
  go_graph :: "uint256 graph"
  go_roots :: "uint256 set"
  n_incoming :: "(uint256 \<times> nat) list"
  leaf_count :: nat

definition incr :: "'k \<Rightarrow> ('k \<times> nat) list \<Rightarrow> ('k \<times> nat) list" where
  "incr k m = AList.update k (case map_of m k of None \<Rightarrow> 1 | Some n \<Rightarrow> n + 1) m"

definition graph_operation_new :: "uint256 graph \<Rightarrow> graph_operation" where
  "graph_operation_new g =
     (let m = fold (\<lambda>(v, cs). AList.update v 0) g [];
          (n, m) = fold (\<lambda>(v, cs) (n, m). if cs = [] then (n + 1, m) else (n, fold incr cs m)) g (0, m)
      in \<lparr>go_graph = g, go_roots = set (map fst (filter (\<lambda>(v, k). k = 0) m)), n_incoming = m, leaf_count = n\<rparr>)"

definition get_roots :: "graph_operation \<Rightarrow> uint256 set" where
  "get_roots op = go_roots op"

definition get_incoming_count :: "graph_operation \<Rightarrow> (uint256 \<times> nat) list" where
  "get_incoming_count op = n_incoming op"

definition get_leaf_count :: "graph_operation \<Rightarrow> nat" where
  "get_leaf_count op = leaf_count op"

subsection \<open>What the search removes\<close>

lemma dfs_reduce:
  fixes h u cs s
  assumes "set (fst (snd s)) = fst s"
  defines "s' \<equiv> dfs h (reduce_enter h u) (\<lambda>w st. st) cs s"
  shows "set (fst (snd s')) = fst s' \<and> fst (snd (snd s')) = filter (\<lambda>w. w \<notin> fst s' - fst s) (fst (snd (snd s))) \<and>
    (u \<notin> fst s' - fst s \<longrightarrow> snd (snd (snd s')) = snd (snd (snd s)))"
  using assms(1) unfolding s'_def
proof (induction h "reduce_enter h u" "\<lambda>w :: uint256. \<lambda>st :: uint256 list \<times> uint256 list \<times> bool. st" cs s rule: dfs.induct)
  case (2 h c cs s)
  let ?run = "dfs h (reduce_enter h u) (\<lambda>w st. st)"
  show ?case
  proof (cases "c \<in> fst s")
    case True
    then show ?thesis using 2 by simp
  next
    case False
    let ?e = "(insert c (fst s), reduce_enter h u c (snd s))"
    let ?t = "?run (kids h c) ?e"
    let ?r = "?run cs ?t"
    obtain S vis row ub where s: "s = (S, vis, row, ub)" by (cases s) auto
    have enter: "set (fst (snd ?e)) = fst ?e" "fst (snd (snd ?e)) = filter (\<lambda>x. x \<noteq> c) row"
      "c \<noteq> u \<longrightarrow> snd (snd (snd ?e)) = ub"
      using 2(4) by (auto simp: s reduce_enter_def Let_def)
    have t: "set (fst (snd ?t)) = fst ?t" "fst (snd (snd ?t)) = filter (\<lambda>w. w \<notin> fst ?t - insert c S) (filter (\<lambda>x. x \<noteq> c) row)"
      "u \<notin> fst ?t - insert c S \<longrightarrow> snd (snd (snd ?t)) = snd (snd (snd ?e))"
      using 2(2) [OF False enter(1)] enter(2) by (simp_all add: s)
    have r: "set (fst (snd ?r)) = fst ?r" "fst (snd (snd ?r)) = filter (\<lambda>w. w \<notin> fst ?r - fst ?t) (fst (snd (snd ?t)))"
      "u \<notin> fst ?r - fst ?t \<longrightarrow> snd (snd (snd ?r)) = snd (snd (snd ?t))"
      using 2(3) [OF False refl] t(1) by simp_all
    have mono: "insert c S \<subseteq> fst ?t" "fst ?t \<subseteq> fst ?r"
      using dfs_mono [of ?e h "reduce_enter h u" "\<lambda>w st. st" "kids h c"] dfs_mono [of ?t h "reduce_enter h u" "\<lambda>w st. st" cs]
      by (simp_all add: s)
    have run: "?run (c # cs) s = ?r"
      using False by (simp add: Let_def)
    have "fst (snd (snd ?r)) = filter (\<lambda>w. w \<notin> fst ?r - S) row"
      unfolding r(2) t(2) filter_filter using mono False by (intro filter_cong) (auto simp: s)
    moreover have "snd (snd (snd ?r)) = ub" if "u \<notin> fst ?r - S"
      using that mono r(3) t(3) enter(3) False by (auto simp: s)
    ultimately show ?thesis
      unfolding run using r(1) by (simp add: s)
  qed
qed simp
lemma before_trans: "distinct xs \<Longrightarrow> before xs a b \<Longrightarrow> before xs b c \<Longrightarrow> before xs a c"
  by (induction xs) (auto simp: before_Cons dest: before_in_set)

lemma before_irrefl: "distinct xs \<Longrightarrow> \<not> before xs a a"
  by (induction xs) (auto simp: before_Cons dest: before_in_set)

lemma acyclic_before:
  assumes "distinct xs" and "E \<subseteq> {(a, b). before xs a b}"
  shows "acyclic E"
proof -
  have "before xs a b" if "(a, b) \<in> E\<^sup>+" for a b
    using that assms(2) by (induction rule: trancl_induct) (auto intro: before_trans [OF assms(1)])
  then show ?thesis
    using before_irrefl [OF assms(1)] by (auto simp: acyclic_def)
qed

subsection \<open>Transitive reduction on relations\<close>

definition essential :: "('v \<times> 'v) set \<Rightarrow> ('v \<times> 'v) set" where
  "essential E = {(u, w) \<in> E. \<not> (\<exists>v. (u, v) \<in> E \<and> (v, w) \<in> E\<^sup>+)}"

lemma essential_trancl:
  assumes "finite E" and "acyclic E"
  shows "(essential E)\<^sup>+ = E\<^sup>+"
proof
  show "(essential E)\<^sup>+ \<subseteq> E\<^sup>+"
    by (rule trancl_mono_subset) (auto simp: essential_def)
  define between where "between u w = {x. (u, x) \<in> E\<^sup>+ \<and> (x, w) \<in> E\<^sup>+}" for u w
  have fin: "finite (between u w)" for u w
  proof (rule finite_subset)
    show "between u w \<subseteq> fst ` (E\<^sup>+)"
      by (auto simp: between_def intro: rev_image_eqI)
    show "finite (fst ` (E\<^sup>+))"
      using assms(1) by (simp add: finite_trancl)
  qed
  have irrefl: "(x, x) \<notin> E\<^sup>+" for x
    using assms(2) by (simp add: acyclic_def)
  have "(u, w) \<in> E\<^sup>+ \<Longrightarrow> (u, w) \<in> (essential E)\<^sup>+" for u w
  proof (induction "card (between u w)" arbitrary: u w rule: less_induct)
    case less
    show ?case
    proof (cases "\<exists>x. x \<in> between u w")
      case True
      then obtain x where x: "(u, x) \<in> E\<^sup>+" "(x, w) \<in> E\<^sup>+"
        by (auto simp: between_def)
      have "between u x \<subset> between u w" "between x w \<subset> between u w"
        using x irrefl by (auto simp: between_def intro: trancl_trans)
      then have "card (between u x) < card (between u w)" "card (between x w) < card (between u w)"
        using fin by (simp_all add: psubset_card_mono)
      then show ?thesis
        using less.hyps x by (blast intro: trancl_trans)
    next
      case False
      then have "(u, w) \<in> E"
        using less.prems by (auto simp: between_def elim: tranclE)
      moreover have "\<not> (\<exists>v. (u, v) \<in> E \<and> (v, w) \<in> E\<^sup>+)"
        using False by (auto simp: between_def)
      ultimately show ?thesis
        by (auto simp: essential_def)
    qed
  qed
  then show "E\<^sup>+ \<subseteq> (essential E)\<^sup>+"
    by auto
qed

lemma sandwich_trancl:
  assumes "finite E" and "acyclic E" and "essential E \<subseteq> H" and "H \<subseteq> E"
  shows "H\<^sup>+ = E\<^sup>+"
  using trancl_mono_subset [OF assms(3)] trancl_mono_subset [OF assms(4)] essential_trancl [OF assms(1,2)] by blast

subsection \<open>Transitive reduction on tables\<close>

lemma finite_edges: "finite (edges g)"
proof (rule finite_subset)
  show "edges g \<subseteq> Sigma (fst ` set g) (\<lambda>u. set (kids g u))"
  proof
    fix e assume "e \<in> edges g"
    then show "e \<in> Sigma (fst ` set g) (\<lambda>u. set (kids g u))"
      using kids_dom [of "snd e" g "fst e"] by (cases e) (simp add: edges_def)
  qed
qed simp

lemma avoiding_acyclic:
  assumes "acyclic (edges h)"
  shows "{x. \<exists>c \<in> set (kids h v). c \<notin> {v} \<and> (c, x) \<in> (avoiding h {v})\<^sup>*} = {x. (v, x) \<in> (edges h)\<^sup>+}"
proof -
  have irrefl: "(x, x) \<notin> (edges h)\<^sup>+" for x
    using assms by (simp add: acyclic_def)
  have walk: "(c, x) \<in> (avoiding h {v})\<^sup>*" if "(c, x) \<in> (edges h)\<^sup>*" "(v, c) \<in> (edges h)\<^sup>+" for c x
    using that
  proof (induction rule: rtrancl_induct)
    case (step y z)
    have "(v, y) \<in> (edges h)\<^sup>+" "(v, z) \<in> (edges h)\<^sup>+"
      using step by (meson rtrancl_into_trancl1 trancl_rtrancl_trancl rtrancl_into_rtrancl)+
    then have "y \<noteq> v" "z \<noteq> v"
      using irrefl by blast+
    then have "(y, z) \<in> avoiding h {v}"
      using step.hyps(2) by (simp add: avoiding_def)
    with step show ?case by (simp add: rtrancl_into_rtrancl)
  qed simp
  have ne: "c \<noteq> v" if "c \<in> set (kids h v)" for c
    using that irrefl [of v] by (auto simp: edges_def)
  have into: "\<exists>c \<in> set (kids h v). c \<notin> {v} \<and> (c, x) \<in> (avoiding h {v})\<^sup>*" if vx: "(v, x) \<in> (edges h)\<^sup>+" for x
  proof -
    obtain c where c: "(v, c) \<in> edges h" "(c, x) \<in> (edges h)\<^sup>*"
      using tranclD [OF vx] by blast
    with walk [OF c(2) r_into_trancl [OF c(1)]] ne [of c] show ?thesis
      by (auto simp: edges_kids)
  qed
  have out: "(v, x) \<in> (edges h)\<^sup>+" if "c \<in> set (kids h v)" "(c, x) \<in> (avoiding h {v})\<^sup>*" for c x
    using that avoiding_edges [of h "{v}"] by (intro rtrancl_into_trancl2 [of v c]) (auto simp: edges_kids)
  from into out show ?thesis by blast
qed

lemma reduce_by_dfs_acyclic:
  assumes "acyclic (edges h)" and "(u, v) \<in> (edges h)\<^sup>+"
  shows "reduce_by_dfs h u v = Inr (AList.update u (filter (\<lambda>w. (v, w) \<notin> (edges h)\<^sup>+) (kids h u)) h)"
proof -
  let ?run = "dfs h (reduce_enter h u) (\<lambda>w st. st) (kids h v) ({v}, [v], kids h u, False)"
  have irrefl: "(x, x) \<notin> (edges h)\<^sup>+" for x
    using assms(1) by (simp add: acyclic_def)
  have "v \<noteq> u" and away: "(v, u) \<notin> (edges h)\<^sup>+"
    using assms(2) irrefl by (blast intro: trancl_trans)+
  have "fst ?run = {v} \<union> {x. \<exists>c \<in> set (kids h v). c \<notin> {v} \<and> (c, x) \<in> (avoiding h {v})\<^sup>*}"
    by (simp add: dfs_visited)
  then have vis: "fst ?run - {v} = {x. (v, x) \<in> (edges h)\<^sup>+}"
    unfolding avoiding_acyclic [OF assms(1)] using irrefl by auto
  have "fst (snd (snd ?run)) = filter (\<lambda>w. (v, w) \<notin> (edges h)\<^sup>+) (kids h u) \<and> \<not> snd (snd (snd ?run))"
    using dfs_reduce [of "({v}, [v], kids h u, False)" h u "kids h v"] away by (simp add: vis)
  then show ?thesis
    using \<open>v \<noteq> u\<close> by (simp add: reduce_by_dfs_def case_prod_beta Let_def)
qed

lemma edges_update_row: "edges (AList.update u vs h) = {(x, y) \<in> edges h. x \<noteq> u} \<union> {u} \<times> set vs"
proof -
  have "kids (AList.update u vs h) x = (if x = u then vs else kids h x)" for x
    by (simp add: kids_def update_conv')
  then show ?thesis
    by (auto simp: edges_def split: if_splits)
qed

text \<open>One row, in a graph between \<open>E\<close> and its essential edges.\<close>

lemma reduce_row_acyclic:
  assumes "acyclic E" and "finite E" and "essential E \<subseteq> edges h" and "edges h \<subseteq> E" and "\<forall>v \<in> set vs. (u, v) \<in> E"
    and "u \<in> fst ` set h"
  shows "\<exists>h'. reduce_row u vs h = Inr h' \<and> map fst h' = map fst h \<and>
    edges h' = {(x, w) \<in> edges h. x = u \<longrightarrow> \<not> (\<exists>v \<in> set vs. (v, w) \<in> E\<^sup>+)}"
  using assms(3-)
proof (induction vs arbitrary: h)
  case Nil
  show ?case
    by (intro exI [of _ h]) auto
next
  case (Cons v vs)
  let ?h = "AList.update u (filter (\<lambda>w. (v, w) \<notin> E\<^sup>+) (kids h u)) h"
  have reach: "(edges h)\<^sup>+ = E\<^sup>+"
    by (rule sandwich_trancl [OF assms(2,1) Cons.prems(1,2)])
  have "acyclic (edges h)"
    using assms(1) by (simp add: acyclic_def reach)
  then have step: "reduce_by_dfs h u v = Inr ?h"
    using reduce_by_dfs_acyclic [of h u v] Cons.prems(3) by (auto simp: reach)
  have keys: "map fst ?h = map fst h"
    using Cons.prems(4) by (simp add: update_keys)
  have edges: "edges ?h = {(x, w) \<in> edges h. x = u \<longrightarrow> (v, w) \<notin> E\<^sup>+}"
    by (auto simp: edges_update_row edges_kids)
  have "essential E \<subseteq> edges ?h"
    using Cons.prems(1,3) by (auto simp: edges essential_def)
  moreover have "edges ?h \<subseteq> E"
    using Cons.prems(2) by (auto simp: edges)
  moreover have "u \<in> fst ` set ?h"
    using Cons.prems(4) keys by (metis list.set_map)
  moreover have "\<forall>v \<in> set vs. (u, v) \<in> E"
    using Cons.prems(3) by simp
  ultimately obtain h' where "reduce_row u vs ?h = Inr h'" "map fst h' = map fst ?h"
    "edges h' = {(x, w) \<in> edges ?h. x = u \<longrightarrow> \<not> (\<exists>v \<in> set vs. (v, w) \<in> E\<^sup>+)}"
    using Cons.IH [of ?h] by blast
  then show ?case
    using step keys by (intro exI [of _ h']) (auto simp: edges)
qed

lemma reduce_rows_acyclic:
  assumes "acyclic E" and "finite E" and "essential E \<subseteq> edges h" and "edges h \<subseteq> E" and "set us \<subseteq> fst ` set h"
    and "distinct us" and "\<forall>u \<in> set us. \<forall>v. (u, v) \<in> E \<longrightarrow> (u, v) \<in> edges h"
  shows "\<exists>h'. reduce_rows us h = Inr h' \<and> map fst h' = map fst h \<and>
    edges h' = {(x, w) \<in> edges h. x \<in> set us \<longrightarrow> (x, w) \<in> essential E}"
  using assms(3-)
proof (induction us arbitrary: h)
  case Nil
  show ?case
    by (intro exI [of _ h]) auto
next
  case (Cons u us)
  have row: "set (kids h u) = {v. (u, v) \<in> E}"
    using Cons.prems(2,5) by (auto simp: edges_kids)
  obtain h1 where h1: "reduce_row u (kids h u) h = Inr h1" "map fst h1 = map fst h"
    "edges h1 = {(x, w) \<in> edges h. x = u \<longrightarrow> \<not> (\<exists>v \<in> set (kids h u). (v, w) \<in> E\<^sup>+)}"
    using reduce_row_acyclic [OF assms(1,2) Cons.prems(1,2), of "kids h u" u] row Cons.prems(3) by auto
  have e1: "edges h1 = {(x, w) \<in> edges h. x = u \<longrightarrow> (x, w) \<in> essential E}"
    using Cons.prems(1,2) unfolding h1(3) row by (auto simp: essential_def)
  have "essential E \<subseteq> edges h1" "edges h1 \<subseteq> E"
    using Cons.prems(1,2) by (auto simp: e1)
  moreover have "set us \<subseteq> fst ` set h1"
    using Cons.prems(3) h1(2) by (metis insert_subset list.set(2) list.set_map)
  moreover have "\<forall>x \<in> set us. \<forall>v. (x, v) \<in> E \<longrightarrow> (x, v) \<in> edges h1"
    using Cons.prems(4,5) by (auto simp: e1)
  ultimately obtain h' where "reduce_rows us h1 = Inr h'" "map fst h' = map fst h1"
    "edges h' = {(x, w) \<in> edges h1. x \<in> set us \<longrightarrow> (x, w) \<in> essential E}"
    using Cons.IH [of h1] Cons.prems(4) by (meson distinct.simps(2))
  then show ?case
    using h1(1,2) by (intro exI [of _ h']) (auto simp: e1)
qed

lemma reduction_minimal_facts:
  assumes "distinct (map fst g)" and "graph_closed g" and "acyclic (edges g)"
  shows "\<exists>h. reduce g = Inr h \<and> map fst h = map fst g \<and>
    edges h = {(u, w) \<in> edges g. \<not> (\<exists>v. (u, v) \<in> edges g \<and> (v, w) \<in> (edges g)\<^sup>+)} \<and> (edges h)\<^sup>+ = (edges g)\<^sup>+"
proof -
  have ess: "essential (edges g) \<subseteq> edges g"
    by (auto simp: essential_def)
  obtain h where h: "reduce_rows (map fst g) g = Inr h" "map fst h = map fst g"
    "edges h = {(x, w) \<in> edges g. x \<in> set (map fst g) \<longrightarrow> (x, w) \<in> essential (edges g)}"
    using reduce_rows_acyclic [OF assms(3) finite_edges ess subset_refl _ assms(1)] by auto
  have "x \<in> set (map fst g)" if "(x, w) \<in> edges g" for x w
    using that kids_dom [of w g x] by (simp add: edges_kids)
  then have "edges h = essential (edges g)"
    using ess unfolding h(3) by blast
  then show ?thesis
    using h(1,2) assms(2) essential_trancl [OF finite_edges assms(3)] by (simp add: reduce_def essential_def)
qed

text \<open>
  On an acyclic graph the reduction removes exactly the edges that a longer path makes redundant,
  and what is reachable stays the same.
\<close>

theorem reduction_minimal:
  assumes "distinct (map fst g)" and "graph_closed g" and "acyclic (edges g)"
  shows "\<exists>h. reduce g = Inr h \<and> map fst h = map fst g \<and>
    edges h = {(u, w) \<in> edges g. \<not> (\<exists>v. (u, v) \<in> edges g \<and> (v, w) \<in> (edges g)\<^sup>+)} \<and> (edges h)\<^sup>+ = (edges g)\<^sup>+"
  by (rule reduction_minimal_facts [OF assms])

theorem reduction_minimal_witness:
  "\<exists>h. reduce [(h256 1, [h256 2, h256 3]), (h256 2, [h256 3]), (h256 3, [])] = Inr h \<and>
     (h256 1, h256 3) \<notin> edges h \<and> (h256 1, h256 3) \<in> (edges h)\<^sup>+"
proof -
  let ?g = "[(h256 1, [h256 2, h256 3]), (h256 2, [h256 3]), (h256 3, [])]"
  have e: "edges ?g = {(h256 1, h256 2), (h256 1, h256 3), (h256 2, h256 3)}"
    by (auto simp: edges_def kids_def split: if_splits)
  have "edges ?g \<subseteq> {(a, b). before [h256 1, h256 2, h256 3] a b}"
    unfolding e by (simp add: before_Cons)
  then have "acyclic (edges ?g)"
    by (rule acyclic_before [rotated]) simp
  moreover have "distinct (map fst ?g)" "graph_closed ?g"
    by (simp_all add: graph_closed_def)
  ultimately obtain h where h: "reduce ?g = Inr h"
    "edges h = {(u, w) \<in> edges ?g. \<not> (\<exists>v. (u, v) \<in> edges ?g \<and> (v, w) \<in> (edges ?g)\<^sup>+)}" "(edges h)\<^sup>+ = (edges ?g)\<^sup>+"
    using reduction_minimal [of ?g] by blast
  have "(h256 2, h256 3) \<in> (edges ?g)\<^sup>+" "(h256 1, h256 2) \<in> edges ?g" "(h256 1, h256 3) \<in> (edges ?g)\<^sup>+"
    by (simp_all add: e r_into_trancl)
  then have "(h256 1, h256 3) \<in> (edges h)\<^sup>+" "(h256 1, h256 3) \<notin> edges h"
    unfolding h(3) by (blast, unfold h(2), blast)
  with h(1) show ?thesis by blast
qed

subsection \<open>The dependencies of an order\<close>

lemma graph_insert_edges: "edges (graph_insert u v g) = insert (u, v) (edges g)"
  by (auto simp: edges_def kids_insert split: if_splits)

lemma dag_inner:
  "edges (fold (\<lambda>p g. if conflict l p c d then graph_insert p c g else g) ps g) =
     edges g \<union> {(p, c) | p. p \<in> set ps \<and> conflict l p c d} \<and>
   fst ` set (fold (\<lambda>p g. if conflict l p c d then graph_insert p c g else g) ps g) =
     fst ` set g \<union> {p \<in> set ps. conflict l p c d} \<and>
   (distinct (map fst g) \<longrightarrow> distinct (map fst (fold (\<lambda>p g. if conflict l p c d then graph_insert p c g else g) ps g)))"
  by (induction ps arbitrary: g) (auto simp: graph_insert_edges keys_insert distinct_insert)

lemma dag_outer:
  fixes l c ds ps g
  defines "r \<equiv> fold (\<lambda>d. fold (\<lambda>p g. if conflict l p c d then graph_insert p c g else g) ps) ds g"
  shows "edges r = edges g \<union> {(p, c) | p. p \<in> set ps \<and> (\<exists>d \<in> set ds. conflict l p c d)} \<and>
    fst ` set r = fst ` set g \<union> {p \<in> set ps. \<exists>d \<in> set ds. conflict l p c d} \<and>
    (distinct (map fst g) \<longrightarrow> distinct (map fst r))"
  unfolding r_def
proof (induction ds arbitrary: g)
  case (Cons d ds)
  show ?case
    using Cons.IH [of "fold (\<lambda>p g. if conflict l p c d then graph_insert p c g else g) ps g"] dag_inner [of l c d ps g]
    by auto
qed simp

lemma dag_rows_facts:
  "edges (dag_rows l prevs cs g) = edges g \<union>
     {(p, c). (p \<in> set prevs \<and> c \<in> set cs \<or> before cs p c) \<and> (\<exists>d \<in> set (dep_of l c). conflict l p c d)} \<and>
   (set prevs \<union> set cs \<subseteq> fst ` set g \<longrightarrow> fst ` set (dag_rows l prevs cs g) = fst ` set g) \<and>
   (distinct (map fst g) \<longrightarrow> distinct (map fst (dag_rows l prevs cs g)))"
proof (induction cs arbitrary: prevs g)
  case (Cons c cs)
  let ?g = "fold (\<lambda>d. fold (\<lambda>p g. if conflict l p c d then graph_insert p c g else g) prevs) (dep_of l c) g"
  note one = dag_outer [where l = l and c = c and ds = "dep_of l c" and ps = prevs and g = g]
  note IH = Cons.IH [of "c # prevs" ?g]
  have "edges (dag_rows l prevs (c # cs) g) = edges g \<union>
     {(p, e). (p \<in> set prevs \<and> e \<in> set (c # cs) \<or> before (c # cs) p e) \<and> (\<exists>d \<in> set (dep_of l e). conflict l p e d)}"
    unfolding dag_rows.simps conjunct1 [OF IH] conjunct1 [OF one] before_Cons by auto
  moreover have "set prevs \<union> set (c # cs) \<subseteq> fst ` set g \<longrightarrow> fst ` set (dag_rows l prevs (c # cs) g) = fst ` set g"
  proof
    assume keys: "set prevs \<union> set (c # cs) \<subseteq> fst ` set g"
    then have "fst ` set ?g = fst ` set g"
      unfolding conjunct1 [OF conjunct2 [OF one]] by blast
    with IH keys show "fst ` set (dag_rows l prevs (c # cs) g) = fst ` set g"
      by simp
  qed
  moreover have "distinct (map fst g) \<longrightarrow> distinct (map fst (dag_rows l prevs (c # cs) g))"
    using IH one by simp
  ultimately show ?case by blast
qed simp

text \<open>
  C25: the graph of a local order has an edge from one command to a later one exactly when they share
  a key that the later one writes, or reads while the earlier one writes it; so it is acyclic, has the
  commands for its vertices, and its reduction is defined.
\<close>

theorem dag_of_order:
  assumes "distinct (ld_order l)"
  shows "fst ` set (create_dag l) = set (ld_order l) \<and>
    (\<forall>u v. v \<in> set (kids (create_dag l) u) \<longleftrightarrow> before (ld_order l) u v \<and>
       (\<exists>d. d \<in> set (dep_of l u) \<and> d \<in> set (dep_of l v) \<and>
          (type_of l v d = CHR ''w'' \<or> type_of l v d = CHR ''r'' \<and> type_of l u d = CHR ''w''))) \<and>
    (\<exists>h. reduce (create_dag l) = Inr h \<and> acyclic (edges h) \<and> (edges h)\<^sup>* = (edges (create_dag l))\<^sup>*)"
proof -
  let ?g = "fold (\<lambda>c. AList.update c []) (ld_order l) ([] :: uint256 graph)" and ?d = "create_dag l"
  have start: "edges (fold (\<lambda>c. AList.update c []) cs g) \<subseteq> edges g \<and>
      fst ` set (fold (\<lambda>c. AList.update c []) cs g) = fst ` set g \<union> set cs \<and>
      (distinct (map fst g) \<longrightarrow> distinct (map fst (fold (\<lambda>c. AList.update c []) cs g)))" for cs and g :: "uint256 graph"
  proof (induction cs arbitrary: g)
    case (Cons c cs)
    show ?case
      using Cons.IH [of "AList.update c [] g"] by (auto simp: edges_update_row dom_update distinct_update)
  qed simp
  have g: "edges ?g = {}" "fst ` set ?g = set (ld_order l)" "distinct (map fst ?g)"
    using start [of "ld_order l" "[]"] by auto
  have edges: "edges ?d = {(p, c). before (ld_order l) p c \<and> (\<exists>d \<in> set (dep_of l c). conflict l p c d)}"
    and keys: "fst ` set ?d = set (ld_order l)" and dist: "distinct (map fst ?d)"
    using dag_rows_facts [of l "[]" "ld_order l" ?g] g by (simp_all add: create_dag_def)
  have closed: "graph_closed ?d"
    unfolding graph_closed_edges [OF dist] edges keys using before_in_set [of "ld_order l"] by auto
  have acyc: "acyclic (edges ?d)"
    by (rule acyclic_before [OF assms]) (auto simp: edges)
  obtain h where h: "reduce ?d = Inr h" "(edges h)\<^sup>+ = (edges ?d)\<^sup>+"
    using reduction_minimal_facts [OF dist closed acyc] by (elim exE conjE) (rule that)
  have "acyclic (edges h)"
    using acyc by (simp add: acyclic_def h(2))
  moreover have "(edges h)\<^sup>* = (edges ?d)\<^sup>*"
    unfolding rtrancl_trancl_reflcl h(2) ..
  moreover have "v \<in> set (kids ?d u) \<longleftrightarrow> before (ld_order l) u v \<and>
       (\<exists>d. d \<in> set (dep_of l u) \<and> d \<in> set (dep_of l v) \<and>
          (type_of l v d = CHR ''w'' \<or> type_of l v d = CHR ''r'' \<and> type_of l u d = CHR ''w''))" for u v
    unfolding edges_kids [symmetric] edges conflict_def by blast
  ultimately show ?thesis
    using keys h(1) by (intro conjI allI exI [of _ h])
qed

text \<open>A transfer writes key 7 and key 8, an audit reads key 8, an unrelated command writes key 9.\<close>

definition example_dag :: local_order_dag where
  "example_dag = add_dependency (h256 3) [(9, CHR ''w'')] (add_dependency (h256 2) [(8, CHR ''r'')]
     (add_dependency (h256 1) [(7, CHR ''w''), (8, CHR ''w'')] (dag_new [h256 1, h256 2, h256 3])))"

theorem dag_of_order_witness:
  "h256 2 \<in> set (kids (create_dag example_dag) (h256 1)) \<and> h256 3 \<notin> set (kids (create_dag example_dag) (h256 1))"
proof -
  have deps: "ld_order example_dag = [h256 1, h256 2, h256 3]" "dep_of example_dag (h256 1) = [7, 8]"
    "dep_of example_dag (h256 2) = [8]" "dep_of example_dag (h256 3) = [9]"
    "type_of example_dag (h256 2) 8 = CHR ''r''" "type_of example_dag (h256 1) 8 = CHR ''w''"
    by (simp_all add: example_dag_def add_dependency_def dag_new_def dep_of_def type_of_def types_of_def set_add_def)
  have "distinct (ld_order example_dag)"
    by (simp add: deps)
  from dag_of_order [OF this] show ?thesis
    by (simp add: deps before_Cons)
qed

subsection \<open>The weakly connected components\<close>

lemma undirected_edges:
  fixes g :: "'v graph"
  assumes "distinct (map fst g)"
  shows "edges (create_undirected_graph g) = edges g \<union> (edges g)\<inverse>"
    and "distinct (map fst (create_undirected_graph g))"
    and "graph_closed g \<Longrightarrow> fst ` set (create_undirected_graph g) = fst ` set g"
proof -
  let ?clear = "\<lambda>es t. fold (\<lambda>(u, vs). AList.update u []) es (t :: 'v graph)"
  let ?both = "\<lambda>u vs t. fold (\<lambda>v t. graph_insert v u (graph_insert u v t)) vs (t :: 'v graph)"
  let ?all = "\<lambda>es t. fold (\<lambda>(u, vs) t. fold (\<lambda>v t. graph_insert v u (graph_insert u v t)) vs t) es (t :: 'v graph)"
  have clear: "edges (?clear es t) \<subseteq> edges t" "fst ` set (?clear es t) = fst ` set t \<union> fst ` set es"
    "distinct (map fst t) \<longrightarrow> distinct (map fst (?clear es t))" for es t
  proof (induction es arbitrary: t)
    case (Cons e es)
    { case 1 then show ?case
        using Cons(1) [of "AList.update (fst e) [] t"] by (cases e) (auto simp: edges_update_row)
    next
      case 2 then show ?case
        using Cons(2) [of "AList.update (fst e) [] t"] by (cases e) (auto simp: dom_update)
    next
      case 3 then show ?case
        using Cons(3) [of "AList.update (fst e) [] t"] by (cases e) (auto simp: distinct_update) }
  qed simp_all
  have insert: "edges (graph_insert u v t) = insert (u, v) (edges t)" for u v and t :: "'v graph"
    by (auto simp: edges_def kids_insert split: if_splits)
  have both: "edges (?both u vs t) = edges t \<union> {u} \<times> set vs \<union> set vs \<times> {u}"
    "fst ` set (?both u vs t) = fst ` set t \<union> set vs \<union> (if vs = [] then {} else {u})"
    "distinct (map fst t) \<longrightarrow> distinct (map fst (?both u vs t))" for u vs t
  proof (induction vs arbitrary: t)
    case (Cons v vs)
    { case 1 show ?case using Cons(1) [of "graph_insert v u (graph_insert u v t)"] by (auto simp: insert)
    next
      case 2 show ?case using Cons(2) [of "graph_insert v u (graph_insert u v t)"] by (auto simp: keys_insert)
    next
      case 3 show ?case using Cons(3) [of "graph_insert v u (graph_insert u v t)"]
          by (simp add: graph_insert_def distinct_update) }
  qed simp_all
  have all: "edges (?all es t) = edges t \<union> {(u, v). \<exists>vs. (u, vs) \<in> set es \<and> v \<in> set vs} \<union> {(v, u). \<exists>vs. (u, vs) \<in> set es \<and> v \<in> set vs}"
    "fst ` set t \<supseteq> {w. \<exists>(u, vs) \<in> set es. w = u \<or> w \<in> set vs} \<longrightarrow> fst ` set (?all es t) = fst ` set t"
    "distinct (map fst t) \<longrightarrow> distinct (map fst (?all es t))" for es t
  proof (induction es arbitrary: t)
    case (Cons e es)
    obtain u vs where e: "e = (u, vs)" by (cases e)
    { case 1 show ?case using Cons(1) [of "?both u vs t"] both(1) [of u vs t] by (auto simp: e)
    next
      case 2
      show ?case
      proof
        assume "{w. \<exists>(u, vs) \<in> set (e # es). w = u \<or> w \<in> set vs} \<subseteq> fst ` set t"
        then have k: "insert u (set vs) \<subseteq> fst ` set t" "{w. \<exists>(u, vs) \<in> set es. w = u \<or> w \<in> set vs} \<subseteq> fst ` set t"
          by (auto simp: e)
        then have "fst ` set (?both u vs t) = fst ` set t"
          using both(2) [of u vs t] by auto
        with k(2) Cons(2) [of "?both u vs t"] show "fst ` set (?all (e # es) t) = fst ` set t"
          by (simp add: e)
      qed
    next
      case 3 show ?case using Cons(3) [of "?both u vs t"] both(3) [of t u vs] by (simp add: e) }
  qed simp_all
  let ?t = "?clear g []"
  have t: "edges ?t = {}" "fst ` set ?t = fst ` set g" "distinct (map fst ?t)"
    using clear(1,2) [of g "[]"] clear(3) [of "[]" g] by auto
  have "(\<exists>vs. (u, vs) \<in> set g \<and> v \<in> set vs) \<longleftrightarrow> (u, v) \<in> edges g" for u v
    by (simp add: edges_def kids_iff [OF assms])
  then show "edges (create_undirected_graph g) = edges g \<union> (edges g)\<inverse>"
    unfolding create_undirected_graph_def all(1) t(1) by auto
  show "distinct (map fst (create_undirected_graph g))"
    using all(3) [of ?t g] t(3) by (simp add: create_undirected_graph_def)
  assume "graph_closed g"
  then have "{w. \<exists>(u, vs) \<in> set g. w = u \<or> w \<in> set vs} \<subseteq> fst ` set ?t"
    unfolding t(2) by (force simp: graph_closed_def)
  then show "fst ` set (create_undirected_graph g) = fst ` set g"
    using all(2) [of g ?t] t(2) by (simp add: create_undirected_graph_def)
qed


lemma wcc_dfs_generate: "v \<notin> S \<Longrightarrow> wcc_dfs t v S = generate_scc t v S"
  by (simp add: wcc_dfs_def generate_scc_def Let_def)

lemma wcc_loop_scc: "wcc_loop t vs S = scc_loop t vs S"
  by (induction t vs S rule: wcc_loop.induct) (auto simp: wcc_dfs_generate split: prod.split)

text \<open>
  In whatever order the table is traversed, the weakly connected components list every vertex
  once, and each is exactly the set of vertices joined to any one of its own by edges taken in either
  direction.
\<close>

theorem wcc_correct:
  assumes "distinct (map fst g)" and "graph_closed g" and "\<And>t. mset (iter t) = mset t"
  shows "distinct (concat (get_wcc iter g)) \<and> set (concat (get_wcc iter g)) = fst ` set g \<and>
    (\<forall>c \<in> set (get_wcc iter g). \<forall>u \<in> set c. set c = {v. (u, v) \<in> (edges g \<union> (edges g)\<inverse>)\<^sup>*})"
proof -
  let ?u = "create_undirected_graph g" and ?E = "edges g \<union> (edges g)\<inverse>"
  let ?t = "iter ?u"
  note und = undirected_edges(1,2) [OF assms(1)] undirected_edges(3) [OF assms(1,2)]
  have set: "set ?t = set ?u"
    by (rule mset_eq_setD [OF assms(3)])
  have dist: "distinct (map fst ?t)"
    using und(2) assms(3) [of ?u] by (metis mset_map mset_eq_imp_distinct_iff)
  have E: "edges ?t = ?E"
    unfolding und(1) [symmetric] by (auto simp: edges_def kids_iff [OF dist] kids_iff [OF und(2)] set)
  have sym: "sym (?E\<^sup>*)"
    by (intro sym_rtrancl sym_Un_converse)
  have kos: "kos ?t vs" for vs
    using sym avoiding_edges [of ?t] by (induction vs) (auto simp: E dest: symD)
  have keys: "x \<in> fst ` set ?t" if "(x, y) \<in> ?E" for x y
  proof (rule kids_dom)
    have "(x, y) \<in> edges ?t"
      unfolding E by (rule that)
    then show "y \<in> set (kids ?t x)"
      by (simp add: edges_def)
  qed
  have comps: "components ?t (set (map fst ?t) - {}) (scc_loop ?t (map fst ?t) {})"
    by (rule scc_loop_components [OF _ kos dist]) (use keys in \<open>auto simp: E pred_closed_def\<close>)
  have mutual: "mutual ?t u = {v. (u, v) \<in> ?E\<^sup>*}" for u
    using sym by (auto simp: mutual_def E dest: symD)
  have V: "set (map fst ?t) = fst ` set g"
    using und(3) by (simp add: set)
  show ?thesis
    using comps unfolding components_def mutual V by (simp add: get_wcc_def Let_def wcc_loop_scc)
qed

theorem wcc_correct_witness:
  "\<exists>c \<in> set (get_wcc (\<lambda>t. t) [(1 :: nat, [2]), (2, []), (3, [])]). set c = {3}"
proof -
  let ?g = "[(1 :: nat, [2 :: nat]), (2, []), (3, [])]"
  have "distinct (map fst ?g)" and "graph_closed ?g"
    by (simp_all add: graph_closed_def)
  note w = wcc_correct [OF this, of "\<lambda>t. t", OF refl]
  have e: "edges ?g \<union> (edges ?g)\<inverse> = {(1, 2), (2, 1)}"
    by (auto simp: edges_def kids_def split: if_splits)
  have r: "{v. (3, v) \<in> {(1, 2), (2, 1 :: nat)}\<^sup>*} = {3}"
    by (auto elim: converse_rtranclE)
  have "3 \<in> set (concat (get_wcc (\<lambda>t. t) ?g))"
    unfolding conjunct1 [OF conjunct2 [OF w]] by simp
  then obtain c where c: "c \<in> set (get_wcc (\<lambda>t. t) ?g)" "3 \<in> set c"
    unfolding set_concat by blast
  then have "set c = {v. (3, v) \<in> {(1, 2), (2, 1)}\<^sup>*}"
    using conjunct2 [OF conjunct2 [OF w]] unfolding e by blast
  then show ?thesis
    unfolding r using c(1) by blast
qed

subsection \<open>The counts\<close>

definition counted :: "(uint256 \<times> nat) list \<Rightarrow> uint256 \<Rightarrow> nat" where
  "counted m v = (case map_of m v of None \<Rightarrow> 0 | Some n \<Rightarrow> n)"

lemma incr_count: "counted (fold incr cs m) v = counted m v + count (mset cs) v"
  by (induction cs arbitrary: m) (auto simp: counted_def incr_def update_conv' split: option.splits)

lemma incr_keys: "fst ` set (fold incr cs m) = fst ` set m \<union> set cs"
  by (induction cs arbitrary: m) (auto simp: incr_def dom_update)

lemma incr_distinct: "distinct (map fst m) \<Longrightarrow> distinct (map fst (fold incr cs m))"
  by (induction cs arbitrary: m) (auto simp: incr_def distinct_update)


lemma counts_fold:
  fixes es :: "uint256 graph" and n :: nat and m :: "(uint256 \<times> nat) list"
  defines "r \<equiv> fold (\<lambda>(v, cs) (n, m). if cs = [] then (n + 1, m) else (n, fold incr cs m)) es (n, m)"
  shows "fst r = n + length (filter (\<lambda>(v, cs). cs = []) es)"
    and "counted (snd r) v = counted m v + (\<Sum>(u, cs) \<leftarrow> es. count (mset cs) v)"
    and "fst ` set (snd r) = fst ` set m \<union> (\<Union>(u, cs) \<in> set es. set cs)"
    and "distinct (map fst m) \<Longrightarrow> distinct (map fst (snd r))"
  unfolding r_def
proof (induction es arbitrary: n m)
  case (Cons e es)
  obtain u cs where e: "e = (u, cs)" by (cases e)
  { case 1 show ?case by (auto simp: e Cons)
  next
    case 2 show ?case by (simp add: e Cons incr_count)
  next
    case 3 show ?case by (auto simp: e Cons incr_keys)
  next
    case 4 then show ?case by (simp add: e Cons incr_distinct) }
qed simp_all

lemma clear_counts:
  "(\<forall>v. counted (fold (\<lambda>(v, cs). AList.update v 0) es m) v \<le> counted m v) \<and>
   fst ` set (fold (\<lambda>(v, cs). AList.update v 0) es m) = fst ` set m \<union> fst ` set es \<and>
   (distinct (map fst m) \<longrightarrow> distinct (map fst (fold (\<lambda>(v, cs). AList.update v 0) es m)))"
proof (induction es arbitrary: m)
  case (Cons e es)
  have "counted (AList.update (fst e) 0 m) v \<le> counted m v" for v
    by (simp add: counted_def update_conv')
  then show ?case
    using Cons.IH [of "AList.update (fst e) 0 m"]
    by (cases e) (auto simp: dom_update distinct_update intro: order_trans)
qed simp

lemma indegree:
  assumes "distinct (map fst g)" and "\<forall>(u, vs) \<in> set g. distinct vs"
  shows "(\<Sum>(u, cs) \<leftarrow> g. count (mset cs) v) = card {u. (u, v) \<in> edges g}"
  using assms
proof (induction g)
  case Nil
  then show ?case by (simp add: edges_def kids_def)
next
  case (Cons e g)
  obtain u cs where e: "e = (u, cs)" by (cases e)
  have u: "kids g u = []"
    using Cons.prems(1) by (intro kids_not_key) (simp add: e)
  have "{x. (x, v) \<in> edges (e # g)} = {x. (x, v) \<in> edges g} \<union> (if v \<in> set cs then {u} else {})"
    using u by (auto simp: e edges_def kids_Cons split: if_splits)
  moreover have "finite {x. (x, v) \<in> edges g}"
    by (rule finite_subset [OF _ finite_imageI [OF finite_edges [of g], of fst]]) (auto intro: rev_image_eqI)
  moreover have "u \<notin> {x. (x, v) \<in> edges g}"
    using u by (simp add: edges_def)
  moreover have "count (mset cs) v = (if v \<in> set cs then 1 else 0)"
    using Cons.prems(2) by (simp add: e distinct_count_atmost_1)
  moreover have "(\<Sum>(u, cs) \<leftarrow> g. count (mset cs) v) = card {u. (u, v) \<in> edges g}"
    using Cons.prems by (intro Cons.IH) auto
  ultimately show ?case
    by (simp add: e)
qed

text \<open>
  For a graph whose edges lead to keys, the roots are the vertices without a predecessor, the
  incoming count of a vertex is the number of its predecessors, and the leaf count is the number of
  vertices without a successor.
\<close>

theorem executor_counts:
  assumes "distinct (map fst g)" and "graph_closed g" and "\<forall>(u, vs) \<in> set g. distinct vs"
  shows "get_roots (graph_operation_new g) = {v \<in> fst ` set g. \<forall>u. (u, v) \<notin> edges g} \<and>
    (\<forall>v \<in> fst ` set g. map_of (get_incoming_count (graph_operation_new g)) v = Some (card {u. (u, v) \<in> edges g})) \<and>
    get_leaf_count (graph_operation_new g) = card {v \<in> fst ` set g. kids g v = []}"
proof -
  let ?m0 = "fold (\<lambda>(v, cs). AList.update v 0) g [] :: (uint256 \<times> nat) list"
  define r where "r = fold (\<lambda>(v, cs) (n, m). if cs = [] then (n + 1, m) else (n, fold incr cs m)) g (0 :: nat, ?m0)"
  have m0: "counted ?m0 v = 0" "fst ` set ?m0 = fst ` set g" "distinct (map fst ?m0)" for v
    using clear_counts [of g "[]"] by (simp_all add: counted_def)
  have "(\<Union>(u, cs) \<in> set g. set cs) \<subseteq> fst ` set g"
    using assms(2) by (auto simp: graph_closed_def)
  then have keys: "fst ` set (snd r) = fst ` set g"
    unfolding r_def counts_fold(3) m0(2) by (rule Un_absorb2)
  have cnt: "counted (snd r) v = card {u. (u, v) \<in> edges g}" for v
    using counts_fold(2) [of g 0 ?m0 v] m0(1) indegree [OF assms(1,3)] by (simp add: r_def)
  have dist: "distinct (map fst (snd r))"
    using counts_fold(4) [OF m0(3)] by (simp add: r_def)
  have some: "map_of (snd r) v = Some (card {u. (u, v) \<in> edges g})" if "v \<in> fst ` set g" for v
    using that keys cnt [of v] by (cases "map_of (snd r) v") (auto simp: counted_def map_of_eq_None_iff)
  have fin: "finite {u. (u, v) \<in> edges g}" for v
    by (rule finite_subset [OF _ finite_imageI [OF finite_edges [of g], of fst]]) (auto intro: rev_image_eqI)
  have op: "graph_operation_new g = \<lparr>go_graph = g, go_roots = set (map fst (filter (\<lambda>(v, k). k = 0) (snd r))),
      n_incoming = snd r, leaf_count = fst r\<rparr>"
    by (simp add: graph_operation_new_def r_def Let_def split_beta)
  have "set (map fst (filter (\<lambda>(v, k). k = 0) (snd r))) = {v. map_of (snd r) v = Some 0}"
    using dist by (force simp: map_of_eq_Some_iff)
  also have "\<dots> = {v \<in> fst ` set g. \<forall>u. (u, v) \<notin> edges g}"
  proof -
    have "map_of (snd r) v = Some 0 \<longleftrightarrow> v \<in> fst ` set g \<and> (\<forall>u. (u, v) \<notin> edges g)" for v
    proof (cases "v \<in> fst ` set g")
      case True
      then show ?thesis using some fin [of v] by auto
    next
      case False
      then show ?thesis using keys map_of_eq_None_iff [of "snd r" v] by simp
    qed
    then show ?thesis by simp
  qed
  finally have roots: "get_roots (graph_operation_new g) = {v \<in> fst ` set g. \<forall>u. (u, v) \<notin> edges g}"
    by (simp add: op get_roots_def)
  have "{v \<in> fst ` set g. kids g v = []} = fst ` set (filter (\<lambda>(v, cs). cs = []) g)"
    using kids_mem [OF assms(1)] by (force simp: image_iff)
  moreover have "card (fst ` set (filter (\<lambda>(v, cs). cs = []) g)) = length (filter (\<lambda>(v, cs). cs = []) g)"
    using assms(1) distinct_card [OF distinct_map_filter [OF assms(1)]] by simp
  ultimately have "get_leaf_count (graph_operation_new g) = card {v \<in> fst ` set g. kids g v = []}"
    using counts_fold(1) [of g 0 ?m0] by (simp add: op get_leaf_count_def r_def)
  with roots some show ?thesis
    by (simp add: op get_incoming_count_def)
qed

theorem executor_counts_witness:
  "h256 1 \<in> get_roots (graph_operation_new [(h256 1, [h256 2]), (h256 2, [])])"
proof -
  have "distinct (map fst [(h256 1, [h256 2]), (h256 2, [])])" "graph_closed [(h256 1, [h256 2]), (h256 2, [])]"
    "\<forall>(u, vs) \<in> set [(h256 1, [h256 2]), (h256 2, [])]. distinct vs"
    by (simp_all add: graph_closed_def)
  note c = executor_counts [OF this]
  show ?thesis
    unfolding conjunct1 [OF c] by (simp add: edges_def kids_def)
qed

end
