(* ===== verification/Thread_Pool.thy ===== *)
theory Thread_Pool
  imports Rashnu_Graph Core
begin

text \<open>
  The parallel executor of Rashnu (\<open>BlockingQueue\<close> and \<open>ThreadPool\<close> in \<open>rashnu/src/consensus.cpp\<close>):
  a pool of threads executes the commands of a committed block as the threads find them ready in the
  block's graph.

  A thread is its program point with its local variables, and one step is the code between two
  accesses of shared data; the scheduler picks the thread. The points \<open>Wait\<close> (the predicate of
  \<open>cond.wait\<close> was false, the thread does not sleep yet) and \<open>Check\<close>, \<open>Terminate\<close>, \<open>Notify_All\<close> lie
  inside a critical section, of \<open>mtx\<close> and of \<open>mtx_leaf_count\<close>; the other critical sections are single
  steps.
\<close>

subsection \<open>State\<close>

datatype worker =
    Loop
  | Pop
  | Wait
  | Sleep
  | Popped "uint256 option"
  | Count uint256
  | Next_Id uint256
  | Decide uint256 u32
  | Remove_Seen uint256
  | Remove_Proposed uint256
  | Branch uint256
  | Push "uint256 list"
  | Notify_One "uint256 list"
  | Leaf
  | Check
  | Terminate
  | Notify_All
  | Done

text \<open>What the threads ask of the core and of its storage.\<close>

datatype pool_call =
    Call_Decide finality
  | Call_Remove_Seen uint256
  | Call_Remove_Proposed uint256

text \<open>\<open>d_queue\<close> has its front first: values are pushed in front and taken from the back.\<close>

record thread_pool =
  tp_rid :: replica_id
  tp_cmd_id :: u32
  tp_cmd_height :: u32
  tp_blk_hash :: uint256
  tp_graph :: "uint256 graph"
  tp_incoming :: "(uint256 \<times> nat) list"
  tp_leaf_count :: nat
  d_queue :: "uint256 list"
  terminate :: bool
  workers :: "worker list"
  calls :: "pool_call list"

text \<open>
  \<open>iter\<close> is the order in which the container of the roots is walked. The constructor does not
  initialise \<open>cmd_id\<close>: its first value is a parameter. The threads start at \<open>execute\<close>.
\<close>

definition thread_pool_new :: "(uint256 set \<Rightarrow> uint256 list) \<Rightarrow> u32 \<Rightarrow> nat \<Rightarrow> uint256 graph \<Rightarrow> replica_id \<Rightarrow> u32 \<Rightarrow>
    uint256 \<Rightarrow> thread_pool" where
  "thread_pool_new iter cid pool_size g rid hgt bh =
     (let op = graph_operation_new g
      in \<lparr>tp_rid = rid, tp_cmd_id = cid, tp_cmd_height = hgt, tp_blk_hash = bh, tp_graph = g,
          tp_incoming = get_incoming_count op, tp_leaf_count = get_leaf_count op,
          d_queue = rev (iter (get_roots op)), terminate = False, workers = replicate pool_size Loop, calls = []\<rparr>)"

definition incoming :: "thread_pool \<Rightarrow> uint256 \<Rightarrow> nat" where
  "incoming s v = (case map_of (tp_incoming s) v of None \<Rightarrow> 0 | Some n \<Rightarrow> n)"

definition mtx_free :: "thread_pool \<Rightarrow> bool" where
  "mtx_free s \<longleftrightarrow> Wait \<notin> set (workers s)"

definition mtx_leaf_count_free :: "thread_pool \<Rightarrow> bool" where
  "mtx_leaf_count_free s \<longleftrightarrow> Check \<notin> set (workers s) \<and> Terminate \<notin> set (workers s) \<and> Notify_All \<notin> set (workers s)"

definition goto :: "nat \<Rightarrow> worker \<Rightarrow> thread_pool \<Rightarrow> thread_pool" where
  "goto i w s = s\<lparr>workers := (workers s)[i := w]\<rparr>"

subsection \<open>The queue\<close>

definition bq_push :: "uint256 \<Rightarrow> thread_pool \<Rightarrow> thread_pool" where
  "bq_push v s = s\<lparr>d_queue := v # d_queue s\<rparr>"

text \<open>
  The body of \<open>pop\<close> under the mutex. At termination it returns a hash read from a one-byte array,
  here \<open>None\<close>; the caller drops it.
\<close>

definition bq_pop :: "nat \<Rightarrow> thread_pool \<Rightarrow> thread_pool" where
  "bq_pop i s =
     (if d_queue s = [] \<and> \<not> terminate s then goto i Wait s
      else if terminate s then goto i (Popped None) s
      else goto i (Popped (Some (last (d_queue s)))) (s\<lparr>d_queue := butlast (d_queue s)\<rparr>))"

text \<open>\<open>notify_one\<close> wakes a sleeping thread \<open>j\<close>, when there is one. A thread woken tests the predicate again.\<close>

definition notify_one :: "nat \<Rightarrow> thread_pool \<Rightarrow> thread_pool option" where
  "notify_one j s =
     (if Sleep \<notin> set (workers s) then Some s
      else if j < length (workers s) \<and> workers s ! j = Sleep then Some (goto j Pop s) else None)"

definition notify_all :: "thread_pool \<Rightarrow> thread_pool" where
  "notify_all s = s\<lparr>workers := map (\<lambda>w. if w = Sleep then Pop else w) (workers s)\<rparr>"

subsection \<open>A step of a thread\<close>

text \<open>
  The step of thread \<open>i\<close>, at the point given first; \<open>None\<close> when the thread is blocked, sleeps or has
  returned. \<open>n_incoming[tx]\<close> and \<open>graph[tx]\<close> would enter an absent key with the default value.
\<close>

fun execute :: "worker \<Rightarrow> nat \<Rightarrow> nat \<Rightarrow> thread_pool \<Rightarrow> thread_pool option" where
  "execute Loop i j s = Some (goto i (if terminate s then Done else Pop) s)"
| "execute Pop i j s = (if mtx_free s then Some (bq_pop i s) else None)"
| "execute Wait i j s = Some (goto i Sleep s)"
| "execute Sleep i j s = None"
| "execute (Popped tx) i j s =
     (if terminate s then Some (goto i Done s) else map_option (\<lambda>tx. goto i (Count tx) s) tx)"
| "execute (Count tx) i j s =
     (let n = incoming s tx; s' = s\<lparr>tp_incoming := AList.update tx (n - 1) (tp_incoming s)\<rparr>
      in Some (if n > 0 then if n - 1 > 0 then goto i Loop s' else goto i (Next_Id tx) s' else goto i (Next_Id tx) s))"
| "execute (Next_Id tx) i j s = Some (goto i (Decide tx (tp_cmd_id s)) (s\<lparr>tp_cmd_id := tp_cmd_id s + 1\<rparr>))"
| "execute (Decide tx n) i j s =
     Some (goto i (Remove_Seen tx) (s\<lparr>calls := calls s @
       [Call_Decide \<lparr>fin_rid = tp_rid s, fin_decision = 1, cmd_idx = n, cmd_height = tp_cmd_height s,
                     cmd_hash = tx, fin_blk_hash = tp_blk_hash s\<rparr>]\<rparr>))"
| "execute (Remove_Seen tx) i j s =
     Some (goto i (Remove_Proposed tx) (s\<lparr>calls := calls s @ [Call_Remove_Seen tx]\<rparr>))"
| "execute (Remove_Proposed tx) i j s =
     Some (goto i (Branch tx) (s\<lparr>calls := calls s @ [Call_Remove_Proposed tx]\<rparr>))"
| "execute (Branch tx) i j s =
     Some (goto i (if kids (tp_graph s) tx = [] then Leaf else Push (kids (tp_graph s) tx)) s)"
| "execute (Push []) i j s = Some (goto i Loop s)"
| "execute (Push (v # vs)) i j s = (if mtx_free s then Some (goto i (Notify_One vs) (bq_push v s)) else None)"
| "execute (Notify_One vs) i j s = map_option (goto i (if vs = [] then Loop else Push vs)) (notify_one j s)"
| "execute Leaf i j s =
     (if mtx_leaf_count_free s
      then Some (goto i Check (s\<lparr>tp_leaf_count := (tp_leaf_count s + 2 ^ 64 - 1) mod 2 ^ 64\<rparr>)) else None)"
| "execute Check i j s =
     (if mtx_free s then Some (goto i (if d_queue s = [] \<and> tp_leaf_count s = 0 then Terminate else Loop) s) else None)"
| "execute Terminate i j s = Some (goto i Notify_All (s\<lparr>terminate := True\<rparr>))"
| "execute Notify_All i j s = Some (goto i Done (notify_all s))"
| "execute Done i j s = None"

subsection \<open>Schedules\<close>

text \<open>A choice of the scheduler: a step of a thread, or a spurious wake-up of a sleeping thread.\<close>

datatype choice = Step nat nat | Wake nat

fun pick :: "choice \<Rightarrow> thread_pool \<Rightarrow> thread_pool option" where
  "pick (Step i j) s = (if i < length (workers s) then execute (workers s ! i) i j s else None)"
| "pick (Wake i) s = (if i < length (workers s) \<and> workers s ! i = Sleep then Some (goto i Pop s) else None)"

fun schedule :: "choice list \<Rightarrow> thread_pool \<Rightarrow> thread_pool option" where
  "schedule [] s = Some s"
| "schedule (c # cs) s = (case pick c s of None \<Rightarrow> None | Some s \<Rightarrow> schedule cs s)"

text \<open>\<open>start_execute_parallel\<close> returns when it has joined every thread.\<close>

definition joined :: "thread_pool \<Rightarrow> bool" where
  "joined s \<longleftrightarrow> (\<forall>w \<in> set (workers s). w = Done)"

definition stuck :: "thread_pool \<Rightarrow> bool" where
  "stuck s \<longleftrightarrow> (\<forall>i j. pick (Step i j) s = None)"

definition executed :: "thread_pool \<Rightarrow> uint256 list" where
  "executed s = concat (map (\<lambda>c. case c of Call_Decide f \<Rightarrow> [cmd_hash f] | _ \<Rightarrow> []) (calls s))"

subsection \<open>The execution of a block\<close>

text \<open>
  \<open>fair_finalize\<close> gives the block's graph unless the block has missing edges; \<open>update\<close> stops at a block
  without an order, and runs a pool on the others.
\<close>

definition THREAD_POOL_SIZE :: nat where
  "THREAD_POOL_SIZE = 20"

definition is_weakly_connected :: "(uint256 \<times> uint256) list \<Rightarrow> bool" where
  "is_weakly_connected e_missing \<longleftrightarrow> length e_missing = 0"

definition fair_finalize_par :: "uint256 graph \<Rightarrow> (uint256 \<times> uint256) list \<Rightarrow> uint256 graph" where
  "fair_finalize_par g e_missing = (if \<not> is_weakly_connected e_missing then [] else g)"

definition update_parallel :: "(uint256 set \<Rightarrow> uint256 list) \<Rightarrow> u32 \<Rightarrow> replica_id \<Rightarrow> uint256 graph \<Rightarrow>
    (uint256 \<times> uint256) list \<Rightarrow> u32 \<Rightarrow> uint256 \<Rightarrow> thread_pool option" where
  "update_parallel iter cid rid g e_missing hgt bh =
     (let order = fair_finalize_par g e_missing
      in if order = [] \<and> g \<noteq> [] then None
         else Some (thread_pool_new iter cid THREAD_POOL_SIZE order rid hgt bh))"

end
