(* ===== verification/Pool_Facts.thy ===== *)
theory Pool_Facts
  imports Thread_Pool
begin

text \<open>
  The parallel executor executes every command of an acyclic block once, in an order the graph
  allows, under every schedule.
\<close>

subsection \<open>Sums over the threads\<close>

definition wsum :: "(worker \<Rightarrow> nat) \<Rightarrow> worker list \<Rightarrow> nat" where
  "wsum f ws = sum_list (map f ws)"

lemma wsum_update:
  "i < length ws \<Longrightarrow> wsum f (ws[i := w]) + f (ws ! i) = wsum f ws + f w"
  using elem_le_sum_list [of i "map f ws"] by (simp add: wsum_def map_update sum_list_update)

lemma wsum_ge: "i < length ws \<Longrightarrow> f (ws ! i) \<le> wsum f ws"
  using elem_le_sum_list [of i "map f ws"] by (simp add: wsum_def)

lemma wsum_update_same: "i < length ws \<Longrightarrow> f w = f (ws ! i) \<Longrightarrow> wsum f (ws[i := w]) = wsum f ws"
  using wsum_update [of i ws f w] by simp

lemma wsum_replicate: "wsum f (replicate n w) = n * f w"
  by (simp add: wsum_def sum_list_replicate)

lemma wsum_pos: "0 < wsum f ws \<longleftrightarrow> (\<exists>w \<in> set ws. 0 < f w)"
  by (induction ws) (auto simp: wsum_def)

lemma wsum_map: "(\<And>w. f (h w) = f w) \<Longrightarrow> wsum f (map h ws) = wsum f ws"
  by (simp add: wsum_def comp_def)

subsection \<open>What the pool holds of a command\<close>

text \<open>The commands a thread carries towards \<open>Count\<close>.\<close>

fun cargo :: "worker \<Rightarrow> uint256 list" where
  "cargo (Popped (Some v)) = [v]"
| "cargo (Count v) = [v]"
| "cargo (Push vs) = vs"
| "cargo (Notify_One vs) = vs"
| "cargo _ = []"

text \<open>The command a thread has begun, and not yet expanded; \<open>fresh\<close> when it is not yet executed.\<close>

fun busy :: "uint256 \<Rightarrow> worker \<Rightarrow> nat" where
  "busy v (Next_Id t) = of_bool (t = v)"
| "busy v (Decide t n) = of_bool (t = v)"
| "busy v (Remove_Seen t) = of_bool (t = v)"
| "busy v (Remove_Proposed t) = of_bool (t = v)"
| "busy v (Branch t) = of_bool (t = v)"
| "busy v _ = 0"

fun fresh :: "uint256 \<Rightarrow> worker \<Rightarrow> nat" where
  "fresh v (Next_Id t) = of_bool (t = v)"
| "fresh v (Decide t n) = of_bool (t = v)"
| "fresh v _ = 0"

definition load :: "thread_pool \<Rightarrow> uint256 \<Rightarrow> nat" where
  "load s v = count_list (d_queue s) v + wsum (\<lambda>w. count_list (cargo w) v) (workers s)"

definition running :: "thread_pool \<Rightarrow> uint256 \<Rightarrow> nat" where
  "running s v = wsum (busy v) (workers s)"

definition begun :: "thread_pool \<Rightarrow> uint256 \<Rightarrow> nat" where
  "begun s v = count_list (executed s) v + wsum (fresh v) (workers s)"

definition expanded :: "thread_pool \<Rightarrow> uint256 \<Rightarrow> bool" where
  "expanded s v \<longleftrightarrow> 0 < begun s v \<and> running s v = 0"

lemmas pool_views = load_def running_def begun_def

text \<open>A step leaves these as they are, or counts, begins or expands one command.\<close>

definition silent :: "thread_pool \<Rightarrow> thread_pool \<Rightarrow> bool" where
  "silent s s' \<longleftrightarrow> load s' = load s \<and> running s' = running s \<and> begun s' = begun s \<and> incoming s' = incoming s"

definition counts :: "uint256 \<Rightarrow> thread_pool \<Rightarrow> thread_pool \<Rightarrow> bool" where
  "counts t s s' \<longleftrightarrow> 1 < incoming s t \<and> (\<forall>v. load s v = load s' v + of_bool (v = t)) \<and> running s' = running s \<and>
     begun s' = begun s \<and> incoming s' = (incoming s)(t := incoming s t - 1)"

definition begins :: "uint256 \<Rightarrow> thread_pool \<Rightarrow> thread_pool \<Rightarrow> bool" where
  "begins t s s' \<longleftrightarrow> incoming s t \<le> 1 \<and> (\<forall>v. load s v = load s' v + of_bool (v = t)) \<and>
     (\<forall>v. running s' v = running s v + of_bool (v = t)) \<and> (\<forall>v. begun s' v = begun s v + of_bool (v = t)) \<and>
     incoming s' = (incoming s)(t := 0)"

definition expands :: "uint256 \<Rightarrow> thread_pool \<Rightarrow> thread_pool \<Rightarrow> bool" where
  "expands t s s' \<longleftrightarrow> (\<forall>v. load s' v = load s v + count_list (kids (tp_graph s) t) v) \<and>
     (\<forall>v. running s v = running s' v + of_bool (v = t)) \<and> begun s' = begun s \<and> incoming s' = incoming s"

definition drops :: "thread_pool \<Rightarrow> thread_pool \<Rightarrow> bool" where
  "drops s s' \<longleftrightarrow> terminate s \<and> (\<forall>v. load s' v \<le> load s v) \<and> running s' = running s \<and> begun s' = begun s \<and> incoming s' = incoming s"

lemma goto_sel [simp]:
  "workers (goto i w s) = (workers s)[i := w]" "d_queue (goto i w s) = d_queue s" "calls (goto i w s) = calls s"
  "tp_incoming (goto i w s) = tp_incoming s" "tp_graph (goto i w s) = tp_graph s" "terminate (goto i w s) = terminate s"
  "tp_leaf_count (goto i w s) = tp_leaf_count s" "executed (goto i w s) = executed s" "incoming (goto i w s) = incoming s"
  by (simp_all add: goto_def executed_def incoming_def fun_eq_iff)

lemma executed_simps [simp]:
  "executed (s\<lparr>d_queue := q\<rparr>) = executed s" "executed (s\<lparr>tp_incoming := m\<rparr>) = executed s"
  "executed (s\<lparr>tp_cmd_id := k\<rparr>) = executed s" "executed (s\<lparr>tp_leaf_count := n\<rparr>) = executed s"
  "executed (s\<lparr>terminate := b\<rparr>) = executed s" "executed (s\<lparr>workers := ws\<rparr>) = executed s"
  "executed (s\<lparr>calls := cs @ [c]\<rparr>) = executed (s\<lparr>calls := cs\<rparr>) @ (case c of Call_Decide f \<Rightarrow> [cmd_hash f] | _ \<Rightarrow> [])"
  "executed (s\<lparr>calls := calls s\<rparr>) = executed s"
  by (simp_all add: executed_def)

lemma incoming_simps [simp]:
  "incoming (s\<lparr>d_queue := q\<rparr>) = incoming s" "incoming (s\<lparr>tp_cmd_id := c\<rparr>) = incoming s"
  "incoming (s\<lparr>tp_leaf_count := n\<rparr>) = incoming s" "incoming (s\<lparr>terminate := b\<rparr>) = incoming s"
  "incoming (s\<lparr>workers := ws\<rparr>) = incoming s" "incoming (s\<lparr>calls := cs\<rparr>) = incoming s"
  "incoming (s\<lparr>tp_incoming := AList.update v n (tp_incoming s)\<rparr>) = (incoming s)(v := n)"
  by (simp_all add: incoming_def fun_eq_iff update_conv')

lemma count_list_last: "xs \<noteq> [] \<Longrightarrow> count_list xs v = count_list (butlast xs) v + of_bool (v = last xs)"
  by (induction xs rule: rev_induct) auto

lemma view_simps [simp]:
  "load (s\<lparr>tp_incoming := m\<rparr>) = load s" "load (s\<lparr>tp_cmd_id := k\<rparr>) = load s" "load (s\<lparr>tp_leaf_count := n\<rparr>) = load s"
  "load (s\<lparr>terminate := b\<rparr>) = load s" "load (s\<lparr>calls := cs\<rparr>) = load s"
  "running (s\<lparr>tp_incoming := m\<rparr>) = running s" "running (s\<lparr>tp_cmd_id := k\<rparr>) = running s"
  "running (s\<lparr>tp_leaf_count := n\<rparr>) = running s" "running (s\<lparr>terminate := b\<rparr>) = running s"
  "running (s\<lparr>calls := cs\<rparr>) = running s" "running (s\<lparr>d_queue := q\<rparr>) = running s"
  "begun (s\<lparr>tp_incoming := m\<rparr>) = begun s" "begun (s\<lparr>tp_cmd_id := k\<rparr>) = begun s"
  "begun (s\<lparr>tp_leaf_count := n\<rparr>) = begun s" "begun (s\<lparr>terminate := b\<rparr>) = begun s"
  "begun (s\<lparr>d_queue := q\<rparr>) = begun s"
  by (simp_all add: pool_views fun_eq_iff)

lemma load_queue: "load (s\<lparr>d_queue := q\<rparr>) v + count_list (d_queue s) v = load s v + count_list q v"
  by (simp add: load_def)

lemma begun_calls:
  "begun (s\<lparr>calls := calls s @ [c]\<rparr>) v = begun s v + (case c of Call_Decide f \<Rightarrow> of_bool (cmd_hash f = v) | _ \<Rightarrow> 0)"
  by (simp add: begun_def split: pool_call.split)

lemma load_goto:
  "i < length (workers s) \<Longrightarrow> load (goto i w s) v + count_list (cargo (workers s ! i)) v = load s v + count_list (cargo w) v"
  using wsum_update [of i "workers s" "\<lambda>w. count_list (cargo w) v" w] by (simp add: load_def)

lemma running_goto:
  "i < length (workers s) \<Longrightarrow> running (goto i w s) v + busy v (workers s ! i) = running s v + busy v w"
  using wsum_update [of i "workers s" "busy v" w] by (simp add: running_def)

lemma begun_goto:
  "i < length (workers s) \<Longrightarrow> begun (goto i w s) v + fresh v (workers s ! i) = begun s v + fresh v w"
  using wsum_update [of i "workers s" "fresh v" w] by (simp add: begun_def)

lemma silentI:
  "(\<And>v. load s' v = load s v) \<Longrightarrow> (\<And>v. running s' v = running s v) \<Longrightarrow> (\<And>v. begun s' v = begun s v) \<Longrightarrow>
    incoming s' = incoming s \<Longrightarrow> silent s s'"
  by (simp add: silent_def fun_eq_iff)

lemma silent_move:
  assumes "i < length (workers s)"
    and "\<And>v. count_list (cargo w) v = count_list (cargo (workers s ! i)) v" and "\<And>v. busy v w = busy v (workers s ! i)"
    and "\<And>v. fresh v w = fresh v (workers s ! i)"
  shows "silent s (goto i w s)"
  using assms(2-) load_goto [OF assms(1), of w] running_goto [OF assms(1), of w] begun_goto [OF assms(1), of w]
  by (intro silentI) simp_all

lemma notify_one_cases:
  assumes "notify_one j s = Some s'"
  obtains "s' = s" "Sleep \<notin> set (workers s)"
  | "j < length (workers s)" "workers s ! j = Sleep" "s' = goto j Pop s"
  using assms that unfolding notify_one_def by (metis option.distinct(1) option.inject)

lemma silent_refl: "silent s s"
  by (simp add: silent_def)

lemma silent_wake: "notify_one j s = Some s' \<Longrightarrow> silent s s'"
  by (erule notify_one_cases) (simp_all add: silent_refl silent_move)

lemma silent_trans: "silent r s \<Longrightarrow> silent s t \<Longrightarrow> silent r t"
  by (simp add: silent_def)

lemma silent_notify_all: "silent s (notify_all s)"
  unfolding silent_def pool_views fun_eq_iff
  by (auto simp: notify_all_def intro!: wsum_map)

subsection \<open>The kinds of step\<close>

lemma execute_frame:
  assumes "execute w i j s = Some s'"
  shows "tp_graph s' = tp_graph s \<and> length (workers s') = length (workers s) \<and> (terminate s \<longrightarrow> terminate s') \<and>
    executed s' = executed s @ (case w of Decide t n \<Rightarrow> [t] | _ \<Rightarrow> [])"
proof (cases w)
  case (Notify_One vs)
  then show ?thesis
    using assms by (auto simp: notify_one_def split: if_splits)
next
  case (Push vs)
  then show ?thesis
    using assms by (cases vs) (auto simp: bq_push_def split: if_splits)
next
  case (Popped tx)
  then show ?thesis
    using assms by (cases tx) (auto split: if_splits)
qed (use assms in \<open>auto simp: bq_pop_def notify_all_def Let_def split: if_splits\<close>)

lemmas execute_graph = execute_frame [THEN conjunct1]
lemmas execute_length = execute_frame [THEN conjunct2, THEN conjunct1]
lemmas terminate_mono = execute_frame [THEN conjunct2, THEN conjunct2, THEN conjunct1, THEN mp]
lemmas execute_executed = execute_frame [THEN conjunct2, THEN conjunct2, THEN conjunct2]

lemma silent_fields:
  "silent (s\<lparr>tp_cmd_id := k\<rparr>) s' \<longleftrightarrow> silent s s'" "silent (s\<lparr>tp_leaf_count := n\<rparr>) s' \<longleftrightarrow> silent s s'"
  "silent (s\<lparr>terminate := b\<rparr>) s' \<longleftrightarrow> silent s s'"
  by (simp_all add: silent_def)

lemma silent_call:
  "(\<And>f. c \<noteq> Call_Decide f) \<Longrightarrow> silent (s\<lparr>calls := calls s @ [c]\<rparr>) s' \<longleftrightarrow> silent s s'"
  by (cases c) (auto simp: silent_def fun_eq_iff begun_calls)

lemma execute_count_cases:
  assumes "execute (Count t) i j s = Some s'" and "i < length (workers s)" and "workers s ! i = Count t"
  defines "u \<equiv> s\<lparr>tp_incoming := AList.update t (incoming s t - 1) (tp_incoming s)\<rparr>"
  shows "s' = goto i Loop u \<and> counts t s s' \<or> (s' = goto i (Next_Id t) s \<or> s' = goto i (Next_Id t) u) \<and> begins t s s'"
proof -
  let ?s = "s\<lparr>tp_incoming := AList.update t (incoming s t - 1) (tp_incoming s)\<rparr>"
  have i: "i < length (workers ?s)" using assms(2) by simp
  have at: "workers ?s ! i = Count t" using assms(3) by simp
  consider "1 < incoming s t" "s' = goto i Loop ?s" | "incoming s t = 1" "s' = goto i (Next_Id t) ?s"
    | "incoming s t = 0" "s' = goto i (Next_Id t) s"
    using assms(1) by (auto simp: Let_def split: if_splits)
  then show ?thesis
  proof cases
    case 1
    have "load s v = load s' v + of_bool (v = t)" "running s' v = running s v" "begun s' v = begun s v" for v
      using 1 load_goto [OF i, of Loop v] running_goto [OF i, of Loop v] begun_goto [OF i, of Loop v] at by auto
    then have "counts t s s'"
      using 1 by (simp add: counts_def fun_eq_iff)
    then show ?thesis using 1 by (simp add: u_def)
  next
    case 2
    have "load s v = load s' v + of_bool (v = t)" "running s' v = running s v + of_bool (v = t)"
      "begun s' v = begun s v + of_bool (v = t)" for v
      using 2 load_goto [OF i, of "Next_Id t" v] running_goto [OF i, of "Next_Id t" v] begun_goto [OF i, of "Next_Id t" v] at
      by auto
    then have "begins t s s'"
      using 2 by (simp add: begins_def fun_eq_iff)
    then show ?thesis using 2 by (simp add: u_def)
  next
    case 3
    have "load s v = load s' v + of_bool (v = t)" "running s' v = running s v + of_bool (v = t)"
      "begun s' v = begun s v + of_bool (v = t)" for v
      using 3 load_goto [OF assms(2), of "Next_Id t" v] running_goto [OF assms(2), of "Next_Id t" v]
        begun_goto [OF assms(2), of "Next_Id t" v] assms(3) by auto
    then have "begins t s s'"
      using 3 by (simp add: begins_def fun_eq_iff)
    then show ?thesis using 3 by (simp add: u_def)
  qed
qed

lemma execute_count:
  assumes "execute (Count t) i j s = Some s'" and "i < length (workers s)" and "workers s ! i = Count t"
  shows "counts t s s' \<or> begins t s s'"
  using execute_count_cases [OF assms] by blast

lemma execute_branch:
  assumes "execute (Branch t) i j s = Some s'" and "i < length (workers s)" and "workers s ! i = Branch t"
  shows "expands t s s'"
proof -
  define w where "w = (if kids (tp_graph s) t = [] then Leaf else Push (kids (tp_graph s) t))"
  have s': "s' = goto i w s" and w: "cargo w = kids (tp_graph s) t" "busy v w = 0" "fresh v w = 0" for v
    using assms(1) by (auto simp: w_def)
  have "load s' v = load s v + count_list (kids (tp_graph s) t) v" "running s v = running s' v + of_bool (v = t)"
    "begun s' v = begun s v" for v
    using load_goto [OF assms(2), of w v] running_goto [OF assms(2), of w v] begun_goto [OF assms(2), of w v]
    unfolding assms(3) s' w by auto
  then show ?thesis
    by (simp add: expands_def fun_eq_iff s')
qed

lemma execute_silent:
  assumes "execute (workers s ! i) i j s = Some s'" and i: "i < length (workers s)"
    and "\<forall>t. workers s ! i \<noteq> Count t \<and> workers s ! i \<noteq> Branch t" and "\<forall>t. workers s ! i \<noteq> Popped t"
  shows "silent s s'"
proof -
  note moves = load_goto [OF i] running_goto [OF i] begun_goto [OF i]
  show ?thesis
  proof (cases "workers s ! i")
    case Pop
    let ?s = "s\<lparr>d_queue := butlast (d_queue s)\<rparr>"
    let ?w = "Popped (Some (last (d_queue s)))"
    consider w where "s' = goto i w s" "w = Wait \<or> w = Popped None" | "d_queue s \<noteq> []" "s' = goto i ?w ?s"
      using assms(1) Pop by (auto simp: bq_pop_def split: if_splits)
    then show ?thesis
    proof cases
      case 1
      then show ?thesis by (auto intro!: silent_move [OF i] simp: Pop)
    next
      case 2
      have "i < length (workers ?s)" "workers ?s ! i = Pop" using i Pop by simp_all
      then have "load s' v = load s v" "running s' v = running s v" "begun s' v = begun s v" for v
        using load_goto [of i ?s ?w v] running_goto [of i ?s ?w v] begun_goto [of i ?s ?w v]
          load_queue [of "butlast (d_queue s)" s v] count_list_last [OF 2(1), of v]
        by (auto simp: 2 split: if_splits)
      then show ?thesis
        by (intro silentI) (simp_all add: 2)
    qed
  next
    case (Push vs)
    show ?thesis
    proof (cases vs)
      case Nil
      then show ?thesis
        using assms(1) Push by (auto intro!: silent_move [OF i])
    next
      case (Cons v vs')
      let ?s = "s\<lparr>d_queue := v # d_queue s\<rparr>"
      have s': "s' = goto i (Notify_One vs') ?s"
        using assms(1) Push Cons by (auto simp: bq_push_def split: if_splits)
      then have "load s' x = load s x" "running s' x = running s x" "begun s' x = begun s x" for x
        using load_goto [of i ?s "Notify_One vs'" x] running_goto [of i ?s "Notify_One vs'" x]
          begun_goto [of i ?s "Notify_One vs'" x] load_queue [of "v # d_queue s" s x] i Push Cons
        by (auto split: if_splits)
      then show ?thesis
        by (intro silentI) (simp_all add: s')
    qed
  next
    case (Notify_One vs)
    then obtain u where u: "notify_one j s = Some u" "s' = goto i (if vs = [] then Loop else Push vs) u"
      using assms(1) by auto
    have "i < length (workers u)" "workers u ! i = Notify_One vs"
      using u(1) i Notify_One by (auto elim!: notify_one_cases simp: nth_list_update)
    then have "silent u s'"
      unfolding u(2) by (intro silent_move) auto
    with silent_wake [OF u(1)] show ?thesis by (rule silent_trans)
  next
    case Notify_All
    have "i < length (workers (notify_all s))" "workers (notify_all s) ! i = Notify_All"
      using i Notify_All by (simp_all add: notify_all_def)
    then have "silent (notify_all s) (goto i Done (notify_all s))"
      by (intro silent_move) auto
    then show ?thesis
      using assms(1) Notify_All silent_trans [OF silent_notify_all] by simp
  next
    case (Decide t n)
    define s0 where "s0 = s\<lparr>calls := calls s @ [Call_Decide \<lparr>fin_rid = tp_rid s, fin_decision = 1, cmd_idx = n,
      cmd_height = tp_cmd_height s, cmd_hash = t, fin_blk_hash = tp_blk_hash s\<rparr>]\<rparr>"
    have s': "s' = goto i (Remove_Seen t) s0"
      using assms(1) Decide by (simp add: s0_def)
    have s0: "i < length (workers s0)" "workers s0 ! i = Decide t n" "load s0 = load s" "running s0 = running s"
      "begun s0 v = begun s v + of_bool (t = v)" "incoming s0 = incoming s" for v
      using i Decide begun_calls by (simp_all add: s0_def)
    then have "load s' v = load s v" "running s' v = running s v" "begun s' v = begun s v" for v
      using load_goto [of i s0 "Remove_Seen t" v] running_goto [of i s0 "Remove_Seen t" v]
        begun_goto [of i s0 "Remove_Seen t" v] by (simp_all add: s')
    then show ?thesis
      by (intro silentI) (simp_all add: s' s0)
    next
    case (Next_Id t)
    then have "workers (s\<lparr>tp_cmd_id := tp_cmd_id s + 1\<rparr>) ! i = Next_Id t" by simp
    with i silent_move [of i "s\<lparr>tp_cmd_id := tp_cmd_id s + 1\<rparr>" "Decide t (tp_cmd_id s)"]
    show ?thesis
      using assms(1) Next_Id by (auto simp: silent_fields)
  next
    case Leaf
    let ?s = "s\<lparr>tp_leaf_count := (tp_leaf_count s + 2 ^ 64 - 1) mod 2 ^ 64\<rparr>"
    from Leaf have "workers ?s ! i = Leaf" by simp
    with i silent_move [of i ?s Check] show ?thesis
      using assms(1) Leaf by (auto simp: silent_fields split: if_splits)
  next
    case Terminate
    let ?s = "s\<lparr>terminate := True\<rparr>"
    from Terminate have "workers ?s ! i = Terminate" by simp
    with i silent_move [of i ?s Notify_All] show ?thesis
      using assms(1) Terminate by (auto simp: silent_fields)
  next
    case (Remove_Seen t)
    have "workers (s\<lparr>calls := calls s @ [Call_Remove_Seen t]\<rparr>) ! i = Remove_Seen t" using Remove_Seen by simp
    with i silent_move [of i "s\<lparr>calls := calls s @ [Call_Remove_Seen t]\<rparr>" "Remove_Proposed t"] show ?thesis
      using assms(1) Remove_Seen by (simp add: silent_call)
  next
    case (Remove_Proposed t)
    have "workers (s\<lparr>calls := calls s @ [Call_Remove_Proposed t]\<rparr>) ! i = Remove_Proposed t" using Remove_Proposed by simp
    with i silent_move [of i "s\<lparr>calls := calls s @ [Call_Remove_Proposed t]\<rparr>" "Branch t"] show ?thesis
      using assms(1) Remove_Proposed by (simp add: silent_call)
  qed (use assms in \<open>auto intro!: silent_move [OF i] split: if_splits\<close>)
qed

lemma execute_popped:
  assumes "execute (Popped tx) i j s = Some s'" and i: "i < length (workers s)" and "workers s ! i = Popped tx"
  shows "silent s s' \<or> drops s s'"
proof (cases "terminate s")
  case True
  then have s': "s' = goto i Done s" using assms(1) by simp
  then have "load s' v \<le> load s v" "running s' v = running s v" "begun s' v = begun s v" for v
    using load_goto [OF i, of Done v] running_goto [OF i, of Done v] begun_goto [OF i, of Done v] assms(3) by (cases tx; simp)+
  then show ?thesis
    using True by (simp add: drops_def fun_eq_iff s')
next
  case False
  then show ?thesis
    using assms by (cases tx) (auto intro!: silent_move [OF i])
qed

lemma execute_kinds:
  assumes "execute (workers s ! i) i j s = Some s'" and i: "i < length (workers s)"
  obtains "silent s s'" | "drops s s'" | t where "counts t s s'" | t where "begins t s s'"
  | t where "workers s ! i = Branch t" "expands t s s'"
  using execute_silent [OF assms] execute_popped [of _ i j s s', OF _ i] execute_count [of _ i j s s', OF _ i]
    execute_branch [of _ i j s s', OF _ i] assms(1) that by metis

subsection \<open>The counting invariant\<close>

definition preds :: "'v graph \<Rightarrow> 'v \<Rightarrow> 'v set" where
  "preds g v = {u. (u, v) \<in> edges g}"

definition good_graph :: "uint256 graph \<Rightarrow> bool" where
  "good_graph g \<longleftrightarrow> distinct (map fst g) \<and> graph_closed g \<and> (\<forall>(u, vs) \<in> set g. distinct vs)"

lemma finite_preds: "finite (preds g v)"
  using finite_subset [OF _ finite_imageI [OF finite_edges [of g], of fst], of "preds g v"] by (force simp: preds_def)

lemma good_kids:
  assumes "good_graph g"
  shows "distinct (kids g u)" and "set (kids g u) \<subseteq> fst ` set g"
  using assms by (cases "map_of g u"; fastforce simp: good_graph_def kids_def graph_closed_def dest!: map_of_SomeD)+

lemma count_kids: "good_graph g \<Longrightarrow> count_list (kids g t) v = of_bool (t \<in> preds g v)"
  by (simp add: count_list_distinct good_kids(1) preds_def edges_def)

text \<open>
  The edges into a command that have been counted or are on their way are those of the commands
  expanded; a command begins with the last of them. At termination commands on their way are dropped.
\<close>

definition counted_preds :: "uint256 graph \<Rightarrow> thread_pool \<Rightarrow> uint256 \<Rightarrow> nat" where
  "counted_preds g s v = card {u \<in> preds g v. expanded s u}"

definition counting_at :: "uint256 graph \<Rightarrow> thread_pool \<Rightarrow> uint256 \<Rightarrow> bool" where
  "counting_at g s v \<longleftrightarrow> running s v \<le> begun s v \<and> begun s v \<le> 1 \<and>
     (v \<notin> fst ` set g \<longrightarrow> load s v = 0 \<and> begun s v = 0) \<and>
     (if preds g v = {} then incoming s v = 0 \<and> load s v + begun s v \<le> 1
      else load s v + card (preds g v) \<le> incoming s v + counted_preds g s v \<and> begun s v = of_bool (incoming s v = 0))"

definition counting :: "uint256 graph \<Rightarrow> thread_pool \<Rightarrow> bool" where
  "counting g s \<longleftrightarrow> tp_graph s = g \<and> (\<forall>v. counting_at g s v)"

definition exact_at :: "uint256 graph \<Rightarrow> thread_pool \<Rightarrow> uint256 \<Rightarrow> bool" where
  "exact_at g s v \<longleftrightarrow> (if preds g v = {} then load s v + begun s v = 1
     else load s v + card (preds g v) = incoming s v + counted_preds g s v)"

definition exact :: "uint256 graph \<Rightarrow> thread_pool \<Rightarrow> bool" where
  "exact g s \<longleftrightarrow> terminate s \<or> (\<forall>v \<in> fst ` set g. exact_at g s v)"

lemma expanded_cong: "running s' = running s \<Longrightarrow> begun s' = begun s \<Longrightarrow> expanded s' = expanded s"
  by (simp add: expanded_def fun_eq_iff)

lemma counted_cong: "running s' = running s \<Longrightarrow> begun s' = begun s \<Longrightarrow> counted_preds g s' = counted_preds g s"
  using expanded_cong [of s' s] by (simp add: counted_preds_def [abs_def])

lemma counted_le: "counted_preds g s v \<le> card (preds g v)"
  unfolding counted_preds_def by (rule card_mono) (auto simp: finite_preds)

lemma silent_at:
  assumes "silent s s'"
  shows "counting_at g s' v = counting_at g s v" and "exact_at g s' v = exact_at g s v"
  using assms counted_cong [of s' s] by (simp_all add: silent_def counting_at_def exact_at_def)

lemma drops_at:
  assumes "drops s s'" and "counting_at g s v"
  shows "counting_at g s' v"
proof -
  have "counted_preds g s' = counted_preds g s"
    using assms(1) by (intro counted_cong) (simp_all add: drops_def)
  moreover have "load s' v \<le> load s v" "running s' v = running s v" "begun s' v = begun s v" "incoming s' v = incoming s v"
    using assms(1) by (simp_all add: drops_def)
  ultimately show ?thesis
    using assms(2) by (cases "preds g v = {}") (auto simp only: counting_at_def if_True if_False simp_thms)
qed

lemma counts_at:
  assumes "counts t s s'" and "counting_at g s v"
  shows "counting_at g s' v" and "exact_at g s v \<Longrightarrow> exact_at g s' v"
proof -
  have c: "counted_preds g s' = counted_preds g s"
    using assms(1) by (intro counted_cong) (simp_all add: counts_def)
  have d: "load s v = load s' v + of_bool (v = t)" "running s' v = running s v" "begun s' v = begun s v"
    "incoming s' v = (if v = t then incoming s t - 1 else incoming s v)" "1 < incoming s t"
    using assms(1) by (simp_all add: counts_def)
  show "counting_at g s' v"
    using assms(2) d by (cases "v = t") (auto simp: counting_at_def c split: if_splits)
  show "exact_at g s' v" if "exact_at g s v"
    using that assms(2) d by (cases "v = t") (auto simp: counting_at_def exact_at_def c split: if_splits)
qed

lemma begins_at:
  assumes "begins t s s'" and "counting g s"
  shows "counting_at g s' v" and "exact_at g s v \<Longrightarrow> exact_at g s' v" and "expanded s' = expanded s"
proof -
  have d: "load s v = load s' v + of_bool (v = t)" "running s' v = running s v + of_bool (v = t)"
    "begun s' v = begun s v + of_bool (v = t)" "incoming s' v = (if v = t then 0 else incoming s v)" "incoming s t \<le> 1" for v
    using assms(1) by (simp_all add: begins_def)
  have at: "counting_at g s v" for v
    using assms(2) by (simp add: counting_def)
  have none: "begun s t = 0"
    using at [of t] d(1) [of t] d(5) counted_le [of g s t] by (auto simp: counting_at_def split: if_splits)
  have "expanded s' u = expanded s u" for u
    using none d(2,3) [of u] by (cases "u = t") (simp_all add: expanded_def)
  then show e: "expanded s' = expanded s" by (simp add: fun_eq_iff)
  then have c: "counted_preds g s' = counted_preds g s"
    by (simp add: counted_preds_def fun_eq_iff)
  have last: "incoming s t = 1" if "preds g t \<noteq> {}"
    using at [of t] d(5) none that by (simp add: counting_at_def split: if_splits)
  show "counting_at g s' v"
    using at [of v] d(1-4) [of v] d(5) none last counted_le [of g s v]
    by (cases "v = t") (auto simp: counting_at_def c split: if_splits)
  show "exact_at g s' v" if "exact_at g s v"
    using that d(1-4) [of v] none last by (cases "v = t") (auto simp: exact_at_def c split: if_splits)
qed

lemma expands_at:
  assumes "expands t s s'" and "counting g s" and "good_graph g"
  shows "counting_at g s' v" and "exact_at g s v \<Longrightarrow> exact_at g s' v" and "expanded s' u \<longleftrightarrow> expanded s u \<or> u = t"
proof -
  have d: "load s' v = load s v + of_bool (t \<in> preds g v)" "running s v = running s' v + of_bool (v = t)"
    "begun s' v = begun s v" "incoming s' v = incoming s v" for v
    using assms by (simp_all add: expands_def counting_def count_kids)
  have at: "counting_at g s v" for v
    using assms(2) by (simp add: counting_def)
  have t: "running s t = 1" "begun s t = 1" "t \<in> fst ` set g"
    using at [of t] d(2) [of t] by (auto simp: counting_at_def)
  show e: "expanded s' u \<longleftrightarrow> expanded s u \<or> u = t" for u
    using d(2,3) [of u] t by (auto simp: expanded_def)
  have "{u \<in> preds g v. expanded s' u} = (if t \<in> preds g v then insert t else id) {u \<in> preds g v. expanded s u}" for v
    by (auto simp: e)
  moreover have "t \<notin> {u \<in> preds g v. expanded s u}" for v
    using t(1) by (simp add: expanded_def)
  ultimately have c: "counted_preds g s' v = counted_preds g s v + of_bool (t \<in> preds g v)" for v
    by (simp add: counted_preds_def finite_preds)
  have inside: "v \<in> fst ` set g" if "t \<in> preds g v" for v
    using that good_kids(2) [OF assms(3), of t] by (auto simp: preds_def edges_def)
  show "counting_at g s' v"
    using at [of v] d [of v] inside [of v] by (auto simp: counting_at_def c split: if_splits)
  show "exact_at g s' v" if "exact_at g s v"
    using that d [of v] by (auto simp: exact_at_def c split: if_splits)
qed

lemma counting_execute:
  assumes "execute (workers s ! i) i j s = Some s'" and "i < length (workers s)" and "counting g s" and "good_graph g"
  shows "counting g s'" and "exact g s \<Longrightarrow> exact g s'"
proof -
  have at: "counting_at g s v" for v
    using assms(3) by (simp add: counting_def)
  have g: "tp_graph s' = g"
    using execute_graph [OF assms(1)] assms(3) by (simp add: counting_def)
  have all: "counting_at g s' v \<and> (exact_at g s v \<or> terminate s \<longrightarrow> exact_at g s' v \<or> terminate s)" for v
    using assms(1,2)
  proof (cases rule: execute_kinds)
    case 1 then show ?thesis using at silent_at by blast
  next
    case 2 then show ?thesis using at drops_at by (auto simp: drops_def)
  next
    case 3 then show ?thesis using at counts_at by blast
  next
    case 4 then show ?thesis using assms(3) begins_at by blast
  next
    case 5 then show ?thesis using assms(3,4) expands_at by blast
  qed
  then show "counting g s'"
    using g by (simp add: counting_def)
  show "exact g s'" if "exact g s"
    using that all terminate_mono [OF assms(1)] by (auto simp: exact_def)
qed

lemma silent_pick:
  assumes "pick (Wake i) s = Some s'"
  shows "silent s s'" and "s' = goto i Pop s" and "i < length (workers s)" and "workers s ! i = Sleep"
  using assms by (auto intro: silent_move split: if_splits)

lemma pick_step:
  assumes "pick (Step i j) s = Some s'"
  shows "i < length (workers s)" and "execute (workers s ! i) i j s = Some s'"
  using assms by (simp_all split: if_splits)

lemma counting_pick:
  assumes "pick c s = Some s'" and "good_graph g" and "counting g s" and "exact g s"
  shows "counting g s' \<and> exact g s'"
proof (cases c)
  case (Step i j)
  then show ?thesis
    using counting_execute [OF pick_step(2,1) [OF assms(1) [unfolded Step]] assms(3,2)] assms(4) by blast
next
  case (Wake i)
  note w = silent_pick [OF assms(1) [unfolded Wake]]
  show ?thesis
    using assms(3,4) silent_at [OF w(1)] by (simp add: counting_def exact_def w(2) goto_def)
qed

text \<open>An invariant of the scheduler's choices is one of schedules.\<close>

lemma schedule_invariant:
  assumes "schedule cs s = Some s'" and "I s" and "\<And>c s s'. pick c s = Some s' \<Longrightarrow> I s \<Longrightarrow> I s'"
  shows "I s'"
  using assms(1,2)
proof (induction cs arbitrary: s)
  case (Cons c cs)
  then show ?case
    using assms(3) by (cases "pick c s") auto
qed simp

subsection \<open>The start\<close>

lemma begun_le: "0 < wsum (fresh v) ws \<Longrightarrow> 0 < wsum (busy v) ws"
proof -
  have "fresh v w \<le> busy v w" for w by (cases w) simp_all
  then show "0 < wsum (fresh v) ws \<Longrightarrow> 0 < wsum (busy v) ws"
    by (auto simp: wsum_pos) (metis le_zero_eq not_gr_zero)
qed

lemma new_sel [simp]:
  "tp_graph (thread_pool_new iter cid n g rid hgt bh) = g"
  "d_queue (thread_pool_new iter cid n g rid hgt bh) = rev (iter (get_roots (graph_operation_new g)))"
  "workers (thread_pool_new iter cid n g rid hgt bh) = replicate n Loop"
  "tp_incoming (thread_pool_new iter cid n g rid hgt bh) = get_incoming_count (graph_operation_new g)"
  "tp_leaf_count (thread_pool_new iter cid n g rid hgt bh) = get_leaf_count (graph_operation_new g)"
  "terminate (thread_pool_new iter cid n g rid hgt bh) = False"
  "calls (thread_pool_new iter cid n g rid hgt bh) = []"
  by (simp_all add: thread_pool_new_def Let_def)

definition good_iter :: "(uint256 set \<Rightarrow> uint256 list) \<Rightarrow> bool" where
  "good_iter iter \<longleftrightarrow> (\<forall>S. finite S \<longrightarrow> set (iter S) = S \<and> distinct (iter S))"

lemma preds_inside: "good_graph g \<Longrightarrow> preds g v \<noteq> {} \<Longrightarrow> v \<in> fst ` set g"
  using good_kids(2) [of g] by (force simp: preds_def edges_def)

lemma incoming_keys:
  assumes "graph_closed g"
  shows "fst ` set (get_incoming_count (graph_operation_new g)) = fst ` set g"
proof -
  have "(\<Union>(u, cs) \<in> set g. set cs) \<subseteq> fst ` set g"
    using assms by (auto simp: graph_closed_def)
  then show ?thesis
    using clear_counts [of g "[]"] counts_fold(3) [of g 0 "fold (\<lambda>(v, cs). AList.update v 0) g []"]
    by (simp add: graph_operation_new_def get_incoming_count_def Let_def split_beta Un_absorb2)
qed

lemma counting_new:
  fixes iter cid n g rid hgt bh
  assumes "good_graph g" and "good_iter iter"
  defines "s \<equiv> thread_pool_new iter cid n g rid hgt bh"
  shows "counting g s" and "exact g s"
proof -
  let ?op = "graph_operation_new g"
  have c: "get_roots ?op = {v \<in> fst ` set g. preds g v = {}}"
    "\<And>v. v \<in> fst ` set g \<Longrightarrow> map_of (get_incoming_count ?op) v = Some (card (preds g v))"
    using executor_counts [of g] assms(1) unfolding good_graph_def preds_def by simp_all blast
  have roots: "set (iter (get_roots ?op)) = get_roots ?op" "distinct (iter (get_roots ?op))"
    using assms(2) by (auto simp: good_iter_def c(1))
  have v: "load s v = of_bool (v \<in> get_roots ?op)" "running s v = 0" "begun s v = 0" for v
    using roots by (simp_all add: s_def pool_views wsum_replicate executed_def count_list_distinct)
  have keys: "map_of (get_incoming_count ?op) v = None" if "v \<notin> fst ` set g" for v
    using that incoming_keys [of g] assms(1) by (simp add: good_graph_def map_of_eq_None_iff)
  have inc: "incoming s v = card (preds g v)" for v
    using c(2) [of v] keys [of v] preds_inside [OF assms(1), of v]
    by (cases "v \<in> fst ` set g"; cases "preds g v = {}") (auto simp: incoming_def s_def)
  have exp: "counted_preds g s v = 0" for v
    by (simp add: counted_preds_def expanded_def v)
  have root: "v \<in> get_roots ?op \<longleftrightarrow> v \<in> fst ` set g \<and> preds g v = {}" for v
    by (simp add: c(1))
  have "counting_at g s v" for v
    using finite_preds [of g v] unfolding counting_at_def v inc exp root by (auto simp: card_eq_0_iff)
  then show "counting g s"
    by (simp add: counting_def s_def)
  have "exact_at g s v" if "v \<in> fst ` set g" for v
    using that unfolding exact_at_def v inc exp root by simp
  then show "exact g s"
    by (simp add: exact_def)
qed

lemma counting_schedule:
  assumes "schedule cs (thread_pool_new iter cid n g rid hgt bh) = Some s" and "good_graph g" and "good_iter iter"
  shows "counting g s" and "exact g s"
  using schedule_invariant [OF assms(1), of "\<lambda>s. counting g s \<and> exact g s"] counting_new [OF assms(2,3)]
    counting_pick [OF _ assms(2)] by blast+

subsection \<open>The order of execution\<close>

lemma begun_preds:
  assumes "counting g s" and "0 < begun s v" and "u \<in> preds g v"
  shows "expanded s u"
proof -
  have at: "counting_at g s v"
    using assms(1) by (simp add: counting_def)
  then have "card (preds g v) \<le> counted_preds g s v"
    using assms(2,3) by (auto simp: counting_at_def split: if_splits)
  then have "{u \<in> preds g v. expanded s u} = preds g v"
    unfolding counted_preds_def by (intro card_seteq finite_preds) auto
  then show ?thesis
    using assms(3) by blast
qed

lemma expanded_executed: "expanded s v \<Longrightarrow> v \<in> set (executed s)"
  using begun_le [of v "workers s"] count_list_0_iff [of "executed s" v]
  by (auto simp: expanded_def begun_def running_def)

lemma begun_idle: "running s v = 0 \<Longrightarrow> begun s v = count_list (executed s) v"
  using begun_le [of v "workers s"] by (auto simp: begun_def running_def)

definition schedule_order :: "uint256 graph \<Rightarrow> uint256 list \<Rightarrow> bool" where
  "schedule_order g xs \<longleftrightarrow> distinct xs \<and> (\<forall>k < length xs. preds g (xs ! k) \<subseteq> set (take k xs))"

lemma schedule_order_snoc:
  "schedule_order g (xs @ [v]) \<longleftrightarrow> schedule_order g xs \<and> v \<notin> set xs \<and> preds g v \<subseteq> set xs"
  by (auto simp: schedule_order_def All_less_Suc nth_append)

lemma order_pick:
  assumes "pick c s = Some s'" and "counting g s" and "schedule_order g (executed s)"
  shows "schedule_order g (executed s')"
proof (cases "\<exists>i j t n. c = Step i j \<and> workers s ! i = Decide t n")
  case True
  then obtain i j t n where c: "c = Step i j" "workers s ! i = Decide t n" by blast
  note p = pick_step [OF assms(1) [unfolded c(1)]]
  have at: "counting_at g s t"
    using assms(2) by (simp add: counting_def)
  have "1 \<le> wsum (fresh t) (workers s)" "1 \<le> running s t"
    using wsum_ge [OF p(1), of "fresh t"] wsum_ge [OF p(1), of "busy t"] c(2) by (simp_all add: running_def)
  with at have new: "t \<notin> set (executed s)" "0 < begun s t"
    by (auto simp: counting_at_def begun_def simp flip: count_list_0_iff)
  moreover have "preds g t \<subseteq> set (executed s)"
    using begun_preds [OF assms(2) new(2)] expanded_executed by blast
  ultimately show ?thesis
    using assms(3) execute_executed [OF p(2)] by (simp add: c(2) schedule_order_snoc)
next
  case False
  have "executed s' = executed s"
  proof (cases c)
    case (Step i j)
    then show ?thesis
      using False execute_executed [OF pick_step(2) [OF assms(1) [unfolded Step]]] by (auto split: worker.splits)
  next
    case (Wake i)
    then show ?thesis
      using silent_pick(2) [OF assms(1) [unfolded Wake]] by simp
  qed
  then show ?thesis using assms(3) by simp
qed

lemma order_schedule:
  assumes "schedule cs (thread_pool_new iter cid n g rid hgt bh) = Some s" and "good_graph g" and "good_iter iter"
  shows "schedule_order g (executed s)"
proof -
  have "schedule_order g (executed (thread_pool_new iter cid n g rid hgt bh))"
    by (simp add: executed_def schedule_order_def)
  then have "(counting g s \<and> exact g s) \<and> schedule_order g (executed s)"
    using counting_new [OF assms(2,3)] counting_pick [OF _ assms(2)] order_pick
    by (intro schedule_invariant [OF assms(1), of "\<lambda>s. (counting g s \<and> exact g s) \<and> schedule_order g (executed s)"]) blast+
  then show ?thesis by simp
qed

lemma executed_inside:
  assumes "counting g s"
  shows "set (executed s) \<subseteq> fst ` set g"
proof
  fix v assume "v \<in> set (executed s)"
  then have "0 < begun s v"
    by (simp add: begun_def flip: neq0_conv add: count_list_0_iff)
  with assms show "v \<in> fst ` set g"
    by (auto simp: counting_def counting_at_def)
qed

text \<open>A command on or behind a cycle never gets its turn.\<close>

lemma schedule_order_acyclic:
  assumes "schedule_order g xs" and "v \<in> set xs" and "(u, v) \<in> (edges g)\<^sup>+"
  shows "\<exists>k l. k < l \<and> l < length xs \<and> xs ! k = u \<and> xs ! l = v"
  using assms(3,2)
proof (induction rule: trancl_induct)
  case (base v)
  then obtain l where "l < length xs" "xs ! l = v" by (auto simp: in_set_conv_nth)
  with base assms(1) have "u \<in> set (take l xs)" by (auto simp: schedule_order_def preds_def)
  then obtain k where "k < l" "xs ! k = u" using \<open>l < length xs\<close> by (auto simp: in_set_conv_nth)
  then show ?case using \<open>l < length xs\<close> \<open>xs ! l = v\<close> by blast
next
  case (step w v)
  then obtain l where l: "l < length xs" "xs ! l = v" by (auto simp: in_set_conv_nth)
  with step assms(1) have "w \<in> set (take l xs)" by (auto simp: schedule_order_def preds_def)
  then obtain m where m: "m < l" "xs ! m = w" using l by (auto simp: in_set_conv_nth)
  then have "w \<in> set xs" using l by auto
  then obtain k m' where "k < m'" "m' < length xs" "xs ! k = u" "xs ! m' = w" using step.IH by blast
  moreover have "m' = m"
    using assms(1) m l calculation by (auto simp: schedule_order_def nth_eq_iff_index_eq)
  ultimately show ?case using l m by (metis less_trans)
qed

lemma cycle_not_executed:
  assumes "schedule_order g xs" and "(u, u) \<in> (edges g)\<^sup>+" and "(u, v) \<in> (edges g)\<^sup>*"
  shows "v \<notin> set xs"
proof
  assume v: "v \<in> set xs"
  have "(u, v) \<in> (edges g)\<^sup>+" using assms(2,3) by (rule trancl_rtrancl_trancl)
  then obtain l where "l < length xs" "xs ! l = u"
    using schedule_order_acyclic [OF assms(1) v] by (meson less_trans)
  then have "u \<in> set xs" by auto
  then obtain k l where "k < l" "l < length xs" "xs ! k = u" "xs ! l = u"
    using schedule_order_acyclic [OF assms(1) _ assms(2)] by blast
  then show False using assms(1) by (auto simp: schedule_order_def nth_eq_iff_index_eq)
qed

end
