(* ===== verification/Pool_Ends.thy ===== *)
theory Pool_Ends
  imports Pool_Facts
begin

text \<open>
  How a run of the executor ends: on an acyclic graph that is not empty every schedule comes to an
  end, with every command executed and the flag \<open>terminate\<close> set; but a thread may then sleep for
  ever, and on a graph without roots no thread ever returns.
\<close>

subsection \<open>The leaves\<close>

definition leaves :: "uint256 graph \<Rightarrow> uint256 set" where
  "leaves g = {v \<in> fst ` set g. kids g v = []}"

definition open_leaves :: "uint256 graph \<Rightarrow> thread_pool \<Rightarrow> nat" where
  "open_leaves g s = card {v \<in> leaves g. \<not> expanded s v}"

definition at_point :: "worker \<Rightarrow> worker \<Rightarrow> nat" where
  "at_point p w = of_bool (w = p)"

definition leaf_counting :: "uint256 graph \<Rightarrow> thread_pool \<Rightarrow> bool" where
  "leaf_counting g s \<longleftrightarrow>
     tp_leaf_count s = open_leaves g s + wsum (at_point Leaf) (workers s) \<and> tp_leaf_count s \<le> 2 ^ 64"

text \<open>
  No thread waits on a queue that has elements; threads return only after termination; a queue with
  elements has a thread that will look at it; the thread that brings \<open>leaf_count\<close> to zero terminates
  the pool.
\<close>

definition asleep :: "worker \<Rightarrow> bool" where
  "asleep w \<longleftrightarrow> w = Sleep \<or> w = Wait \<or> w = Done"

definition alert :: "thread_pool \<Rightarrow> bool" where
  "alert s \<longleftrightarrow> (Wait \<in> set (workers s) \<longrightarrow> d_queue s = []) \<and> (Done \<in> set (workers s) \<or> Notify_All \<in> set (workers s) \<or> Popped None \<in> set (workers s) \<longrightarrow> terminate s) \<and>
     (d_queue s \<noteq> [] \<longrightarrow> terminate s \<or> (\<exists>w \<in> set (workers s). \<not> asleep w))"

definition due :: "thread_pool \<Rightarrow> bool" where
  "due s \<longleftrightarrow> (tp_leaf_count s = 0 \<longrightarrow> terminate s \<or> Check \<in> set (workers s) \<or> Terminate \<in> set (workers s))"

definition over :: "thread_pool \<Rightarrow> bool" where
  "over s \<longleftrightarrow> (terminate s \<or> Terminate \<in> set (workers s) \<or> Notify_All \<in> set (workers s) \<longrightarrow> tp_leaf_count s = 0)"

lemma set_move: "i < length ws \<Longrightarrow> w \<in> set (ws[i := x]) \<Longrightarrow> w = x \<or> w \<in> set ws"
  using set_update_subset_insert by fastforce

lemma mem_move: "i < length ws \<Longrightarrow> x \<in> set (ws[i := x])"
  by (simp add: set_update_memI)

lemma mem_other: "i < length ws \<Longrightarrow> w \<in> set ws \<Longrightarrow> w \<noteq> ws ! i \<Longrightarrow> w \<in> set (ws[i := x])"
  by (metis in_set_conv_nth length_list_update nth_list_update_neq)

lemma alert_fields [simp]:
  "alert (s\<lparr>tp_incoming := m\<rparr>) = alert s" "alert (s\<lparr>tp_cmd_id := k\<rparr>) = alert s" "alert (s\<lparr>tp_leaf_count := n\<rparr>) = alert s"
  "alert (s\<lparr>calls := cs\<rparr>) = alert s"
  by (simp_all add: alert_def)

lemma alert_move:
  assumes "alert s" and "i < length (workers s)" and "\<not> asleep w" and "w = Notify_All \<or> w = Popped None \<longrightarrow> terminate s"
  shows "alert (goto i w s)"
  using assms set_move [OF assms(2), of _ w] mem_move [OF assms(2), of w]
  by (auto simp: alert_def asleep_def)

lemma alert_sleep:
  assumes "alert s" and "i < length (workers s)" and "d_queue s = [] \<or> terminate s" and "w = Done \<longrightarrow> terminate s"
    and "w = Wait \<longrightarrow> d_queue s = []" and "w \<noteq> Notify_All" and "w \<noteq> Popped None"
  shows "alert (goto i w s)"
  using assms set_move [OF assms(2), of _ w] by (auto simp: alert_def)

lemma alert_queue:
  assumes "alert s" and "i < length (workers s)" and "mtx_free s" and "\<not> asleep w" and "w \<noteq> Notify_All" and "w \<noteq> Popped None"
  shows "alert (goto i w (s\<lparr>d_queue := q\<rparr>))"
  using assms set_move [OF assms(2), of _ w] mem_move [OF assms(2), of w]
  by (auto simp: alert_def asleep_def mtx_free_def)

lemma alert_execute:
  assumes "execute (workers s ! i) i j s = Some s'" and i: "i < length (workers s)" and "alert s"
  shows "alert s'"
proof (cases "workers s ! i")
  case Loop
  then show ?thesis
    using assms alert_move [OF assms(3) i, of Pop] alert_sleep [OF assms(3) i, of Done] by (auto simp: asleep_def)
next
  case Pop
  then show ?thesis
    using assms alert_move [OF assms(3) i, of "Popped None"] alert_sleep [OF assms(3) i, of Wait] alert_queue [OF assms(3) i]
    by (auto simp: bq_pop_def asleep_def split: if_splits)
next
  case Wait
  then have "d_queue s = []" using assms(3) i nth_mem [OF i] by (simp add: alert_def)
  then show ?thesis using assms alert_sleep [OF assms(3) i, of Sleep] Wait by auto
next
  case (Popped tx)
  then show ?thesis
    using assms alert_move [OF assms(3) i, of "Count (the tx)"] alert_sleep [OF assms(3) i, of Done]
    by (cases tx) (auto simp: asleep_def split: if_splits)
next
  case (Count t)
  then show ?thesis
    using assms by (auto simp: Let_def asleep_def intro!: alert_move split: if_splits)
next
  case (Push vs)
  then show ?thesis
    using assms alert_move [OF assms(3) i, of Loop] alert_queue [OF assms(3) i]
    by (cases vs) (auto simp: bq_push_def asleep_def split: if_splits)
next
  case (Notify_One vs)
  then obtain u where u: "notify_one j s = Some u" "s' = goto i (if vs = [] then Loop else Push vs) u"
    using assms(1) by auto
  have "alert u" "i < length (workers u)"
    using u(1) i assms(3) by (auto elim!: notify_one_cases simp: asleep_def intro: alert_move)
  then show ?thesis
    unfolding u(2) by (intro alert_move) (auto simp: asleep_def)
next
  case Terminate
  then have "s' = goto i Notify_All (s\<lparr>terminate := True\<rparr>)" "alert (s\<lparr>terminate := True\<rparr>)"
    using assms by (auto simp: alert_def)
  then show ?thesis
    using alert_move [of "s\<lparr>terminate := True\<rparr>" i Notify_All] i by (simp add: asleep_def)
next
  case Notify_All
  then have t: "terminate s" using assms(3) nth_mem [OF i] by (simp add: alert_def)
  with assms(3) have "alert (notify_all s)" by (auto simp: alert_def notify_all_def)
  then show ?thesis
    using alert_sleep [of "notify_all s" i Done] assms(1) Notify_All t i by (auto simp: notify_all_def)
next
  case (Branch t)
  then show ?thesis
    using assms alert_move [OF assms(3) i, of Leaf] alert_move [OF assms(3) i, of "Push (kids (tp_graph s) t)"]
    by (auto simp: asleep_def split: if_splits)
qed (use assms in \<open>auto simp: asleep_def intro!: alert_move split: if_splits\<close>)

lemma alert_pick:
  assumes "pick c s = Some s'" and "alert s"
  shows "alert s'"
proof (cases c)
  case (Step i j)
  then show ?thesis
    using alert_execute [OF pick_step(2,1) assms(2)] assms(1) by blast
next
  case (Wake i)
  note w = silent_pick [OF assms(1) [unfolded Wake]]
  show ?thesis
    using alert_move [OF assms(2) w(3), of Pop] by (simp add: w(2) asleep_def)
qed

subsection \<open>The ends of the graph\<close>

lemma acyclic_reaches_leaf:
  assumes "good_graph g" and "acyclic (edges g)" and "v \<in> fst ` set g"
  shows "\<exists>l \<in> leaves g. (v, l) \<in> (edges g)\<^sup>*"
proof -
  have "wf ((edges g)\<inverse>)"
    using finite_edges assms(2) by (intro finite_acyclic_wf_converse)
  then show ?thesis
    using assms(3)
  proof (induction v rule: wf_induct_rule)
    case (less v)
    show ?case
    proof (cases "kids g v")
      case Nil
      then show ?thesis using less.prems by (auto simp: leaves_def)
    next
      case (Cons w ws)
      then have "(v, w) \<in> edges g" by (simp add: edges_def)
      moreover have "w \<in> fst ` set g" using good_kids(2) [OF assms(1), of v] Cons by auto
      ultimately show ?thesis using less.IH [of w] by (metis converseI converse_rtrancl_into_rtrancl)
    qed
  qed
qed

lemma expanded_back:
  assumes "counting g s" and "(u, v) \<in> (edges g)\<^sup>*" and "expanded s v"
  shows "expanded s u"
  using assms(2,3)
proof (induction rule: converse_rtrancl_induct)
  case (step x y)
  then have "0 < begun s y" by (simp add: expanded_def)
  then show ?case using begun_preds [OF assms(1)] step(1) by (auto simp: preds_def)
qed

lemma finite_leaves: "finite (leaves g)"
  by (simp add: leaves_def)

lemma leaves_expanded:
  assumes "good_graph g" and "acyclic (edges g)" and "counting g s" and "leaf_counting g s" and "tp_leaf_count s = 0"
    and "v \<in> fst ` set g"
  shows "expanded s v"
proof -
  obtain l where l: "l \<in> leaves g" "(v, l) \<in> (edges g)\<^sup>*"
    using acyclic_reaches_leaf [OF assms(1,2,6)] by blast
  have "open_leaves g s = 0"
    using assms(4,5) by (simp add: leaf_counting_def)
  then have "expanded s l"
    using l(1) finite_leaves [of g] by (auto simp: open_leaves_def)
  then show ?thesis
    using expanded_back [OF assms(3) l(2)] by blast
qed

lemma drained:
  assumes "counting g s" and "\<forall>v \<in> fst ` set g. expanded s v"
  shows "load s v = 0" and "running s v = 0" and "v \<in> fst ` set g \<Longrightarrow> begun s v = 1"
proof -
  have at: "counting_at g s v"
    using assms(1) by (simp add: counting_def)
  have e: "expanded s v" if "v \<in> fst ` set g" using assms(2) that by blast
  have "counted_preds g s v \<le> card (preds g v)" by (rule counted_le)
  with at e show "load s v = 0" "running s v = 0" "v \<in> fst ` set g \<Longrightarrow> begun s v = 1"
    by (cases "v \<in> fst ` set g"; force simp: counting_at_def expanded_def split: if_splits)+
qed

subsection \<open>Leaves and termination in a step\<close>

lemma at_point_mem: "p \<in> set ws \<longleftrightarrow> 0 < wsum (at_point p) ws"
  by (auto simp: wsum_pos at_point_def)

fun special :: "worker \<Rightarrow> bool" where
  "special Leaf = True"
| "special Check = True"
| "special Terminate = True"
| "special Notify_All = True"
| "special _ = False"

lemma at_plain [simp]: "special p \<Longrightarrow> \<not> special w \<Longrightarrow> at_point p w = 0"
  by (auto simp: at_point_def)

lemma execute_plain:
  assumes "execute (workers s ! i) i j s = Some s'" and i: "i < length (workers s)"
    and "\<not> special (workers s ! i)" and "\<forall>t. workers s ! i \<noteq> Branch t" and "special p"
  shows "wsum (at_point p) (workers s') = wsum (at_point p) (workers s) \<and> tp_leaf_count s' = tp_leaf_count s \<and>
    terminate s' = terminate s"
proof -
  have plain: "\<not> special w \<Longrightarrow> wsum (at_point p) ((workers s)[i := w]) = wsum (at_point p) (workers s)" for w
    using i assms(3,5) by (intro wsum_update_same) simp_all
  show ?thesis
  proof (cases "workers s ! i")
    case (Notify_One vs)
    then obtain u where u: "notify_one j s = Some u" "s' = goto i (if vs = [] then Loop else Push vs) u"
      using assms(1) by auto
    have "wsum (at_point p) (workers u) = wsum (at_point p) (workers s) \<and> tp_leaf_count u = tp_leaf_count s \<and>
        terminate u = terminate s \<and> i < length (workers u) \<and> workers u ! i = workers s ! i"
      using u(1)
    proof (rule notify_one_cases)
      assume "j < length (workers s)" "workers s ! j = Sleep" "u = goto j Pop s"
      then show ?thesis
        using assms(5) Notify_One i wsum_update_same [of j "workers s" "at_point p" Pop]
        by (auto simp: nth_list_update)
    qed (use i in simp)
    then show ?thesis
      using wsum_update_same [of i "workers u" "at_point p" "if vs = [] then Loop else Push vs"] assms(3,5) Notify_One
      by (auto simp: u(2))
  next
    case (Push vs)
    then show ?thesis
      using assms(1) plain [of Loop] plain [of "Notify_One (tl vs)"]
      by (cases vs) (auto simp: bq_push_def split: if_splits)
  next
    case (Popped tx)
    then show ?thesis
      using assms(1) plain [of Done] plain [of "Count (the tx)"] by (cases tx) (auto split: if_splits)
  qed (use assms in \<open>auto simp: bq_pop_def Let_def plain split: if_splits\<close>)
qed

lemma execute_expanded:
  assumes "execute (workers s ! i) i j s = Some s'" and "i < length (workers s)" and "counting g s" and "good_graph g"
  shows "expanded s' u \<longleftrightarrow> expanded s u \<or> workers s ! i = Branch u"
proof (cases "workers s ! i")
  case (Branch t)
  then show ?thesis
    using execute_branch [of t i j s s'] assms expands_at(3) [of t s s' g u] by auto
next
  case (Count t)
  then consider "counts t s s'" | "begins t s s'"
    using execute_count [of t i j s s'] assms by auto
  then show ?thesis
  proof cases
    case 1
    then show ?thesis using expanded_cong [of s' s] Count by (simp add: counts_def)
  next
    case 2
    then show ?thesis using begins_at(3) [OF 2 assms(3)] Count by simp
  qed
next
  case (Popped tx)
  then show ?thesis
    using execute_popped [of tx i j s s'] assms expanded_cong [of s' s] by (auto simp: silent_def drops_def)
qed (use execute_silent [OF assms(1,2)] expanded_cong [of s' s] in \<open>auto simp: silent_def\<close>)


lemma open_leaves_less:
  assumes "good_graph g" and "expanded s' = (\<lambda>u. expanded s u \<or> u = t)" and "\<not> expanded s t" and "t \<in> fst ` set g"
  shows "open_leaves g s = open_leaves g s' + of_bool (kids g t = [])"
proof -
  have "{v \<in> leaves g. \<not> expanded s' v} = {v \<in> leaves g. \<not> expanded s v} - {t}"
    by (auto simp: assms(2))
  moreover have "t \<in> {v \<in> leaves g. \<not> expanded s v} \<longleftrightarrow> kids g t = []"
    using assms(3,4) by (simp add: leaves_def)
  moreover have "finite {v \<in> leaves g. \<not> expanded s v}"
    using finite_leaves [of g] by simp
  ultimately show ?thesis
    using card.remove [of "{v \<in> leaves g. \<not> expanded s v}" t] by (cases "kids g t = []") (simp_all add: open_leaves_def)
qed

lemma leaves_drained:
  assumes "good_graph g" and "acyclic (edges g)" and "counting g s" and "leaf_counting g s" and "tp_leaf_count s = 0"
  shows "d_queue s = []" and "v \<in> fst ` set g \<Longrightarrow> running s v = 0 \<and> begun s v = 1"
proof -
  note d = drained [OF assms(3)] leaves_expanded [OF assms]
  have "count_list (d_queue s) v = 0" for v
    using d(1) [of v] d(4) by (simp add: load_def)
  then show "d_queue s = []"
    by (metis count_list_0_iff list.set_intros(1) neq_Nil_conv)
  show "running s v = 0 \<and> begun s v = 1" if "v \<in> fst ` set g"
    using d(2,3) [of v] d(4) that by simp
qed

lemma leaf_move:
  assumes "leaf_counting g s" and "i < length (workers s)" and "workers s ! i \<noteq> Leaf" and "w \<noteq> Leaf"
    and "workers s' = (workers s)[i := w]" and "tp_leaf_count s' = tp_leaf_count s" and "open_leaves g s' = open_leaves g s"
  shows "leaf_counting g s'"
  using assms wsum_update_same [OF assms(2), of "at_point Leaf" w] by (simp add: leaf_counting_def at_point_def)

lemma leaf_execute:
  assumes "execute (workers s ! i) i j s = Some s'" and i: "i < length (workers s)" and "counting g s" and "good_graph g"
    and "leaf_counting g s" and "alert s" and "over s"
  shows "leaf_counting g s' \<and> over s' \<and> (acyclic (edges g) \<and> due s \<longrightarrow> due s')"
proof (cases "special (workers s ! i)")
  case False
  show ?thesis
  proof (cases "\<exists>t. workers s ! i = Branch t")
    case True
    then obtain t where t: "workers s ! i = Branch t" by blast
    have gr: "tp_graph s = g" using assms(3) by (simp add: counting_def)
    have s': "s' = goto i (if kids g t = [] then Leaf else Push (kids g t)) s"
      using assms(1) unfolding t gr execute.simps by simp
    have "1 \<le> running s t" using wsum_ge [OF i, of "busy t"] by (simp add: running_def t)
    then have e: "\<not> expanded s t" "t \<in> fst ` set g"
      using assms(3) by (auto simp: expanded_def counting_def counting_at_def)
    have "open_leaves g s = open_leaves g s' + of_bool (kids g t = [])"
      using execute_expanded [OF assms(1-4)] t by (intro open_leaves_less assms(4) e) (auto simp: fun_eq_iff)
    moreover have "wsum (at_point p) (workers s') = wsum (at_point p) (workers s) + of_bool (kids g t = [] \<and> p = Leaf)"
      if "special p" for p
      using wsum_update [OF i, of "at_point p" "if kids g t = [] then Leaf else Push (kids g t)"] that
      by (auto simp: s' t at_point_def [of p Leaf])
    moreover have "tp_leaf_count s' = tp_leaf_count s" "terminate s' = terminate s"
      by (simp_all add: s')
    ultimately show ?thesis
      using assms(5,7) by (simp add: leaf_counting_def over_def due_def at_point_mem)
  next
    case br: False
    have "expanded s' = expanded s"
      using execute_expanded [OF assms(1-4)] br by (auto simp: fun_eq_iff)
    then have "open_leaves g s' = open_leaves g s" by (simp add: open_leaves_def)
    moreover have "wsum (at_point p) (workers s') = wsum (at_point p) (workers s)" if "special p" for p
      using execute_plain [OF assms(1) i False _ that] br by blast
    moreover have "tp_leaf_count s' = tp_leaf_count s" "terminate s' = terminate s"
      using execute_plain [OF assms(1) i False, of Leaf] br by auto
    ultimately show ?thesis
      using assms(5,7) by (simp add: leaf_counting_def over_def due_def at_point_mem)
  qed
next
  case True
  have "\<nexists>t. workers s ! i = Branch t" using True by auto
  then have "expanded s' = expanded s"
    using execute_expanded [OF assms(1-4)] by (auto simp: fun_eq_iff)
  then have o: "open_leaves g s' = open_leaves g s" by (simp add: open_leaves_def)
  have gone: "at_point p (workers s ! i) = of_bool (workers s ! i = p)" for p
    by (simp add: at_point_def)
  consider "workers s ! i = Leaf" | "workers s ! i = Check" | "workers s ! i = Terminate" | "workers s ! i = Notify_All"
    using True by (cases "workers s ! i") auto
  then show ?thesis
  proof cases
    case 1
    let ?n = "tp_leaf_count s"
    have n: "0 < ?n" "?n \<le> 2 ^ 64"
      using assms(5) wsum_ge [OF i, of "at_point Leaf"] by (auto simp: leaf_counting_def 1 at_point_def)
    have dec: "(?n + 2 ^ 64 - 1) mod 2 ^ 64 = ?n - 1"
      using n by (simp add: mod_if)
    have s': "s' = goto i Check (s\<lparr>tp_leaf_count := ?n - 1\<rparr>)" and free: "mtx_leaf_count_free s"
      using assms(1) dec by (auto simp: 1 split: if_splits)
    have "wsum (at_point Leaf) (workers s') + 1 = wsum (at_point Leaf) (workers s)"
      using wsum_update [OF i, of "at_point Leaf" Check] by (simp add: s' 1 at_point_def)
    then have "leaf_counting g s'"
      using assms(5) o n(2) unfolding leaf_counting_def s' by (simp, linarith)
    moreover have "\<not> terminate s" "Terminate \<notin> set (workers s')" "Notify_All \<notin> set (workers s')"
      using assms(7) n free set_move [OF i, of _ Check] by (auto simp: over_def due_def s' mtx_leaf_count_free_def)
    ultimately show ?thesis
      using mem_move [OF i, of Check] by (simp add: over_def due_def s')
  next
    case 2
    define w where "w = (if d_queue s = [] \<and> tp_leaf_count s = 0 then Terminate else Loop)"
    have s': "s' = goto i w s"
      using assms(1) unfolding w_def by (auto simp: 2 split: if_splits)
    have "over s'"
      using assms(7) set_move [OF i, of Terminate w] set_move [OF i, of Notify_All w]
      by (auto simp: over_def s' w_def split: if_splits)
    moreover have "due s'" if "acyclic (edges g)" "due s"
      using leaves_drained(1) [OF assms(4) that(1) assms(3,5)] mem_move [OF i, of w] by (auto simp: due_def s' w_def)
    moreover have "leaf_counting g s'"
      by (rule leaf_move [OF assms(5) i]) (use o in \<open>auto simp: s' w_def 2\<close>)
    ultimately show ?thesis by blast
  next
    case 3
    then have s': "s' = goto i Notify_All (s\<lparr>terminate := True\<rparr>)"
      using assms(1) by simp
    have "leaf_counting g s'"
      by (rule leaf_move [OF assms(5) i]) (use o in \<open>auto simp: s' 3\<close>)
    moreover have "over s'" "due s'"
      using assms(7) nth_mem [OF i] by (simp_all add: over_def due_def s' 3)
    ultimately show ?thesis by blast
  next
    case 4
    then have s': "s' = goto i Done (notify_all s)"
      using assms(1) by simp
    have "wsum (at_point Leaf) (workers (notify_all s)) = wsum (at_point Leaf) (workers s)"
      unfolding notify_all_def by (simp add: wsum_map at_point_def)
    moreover have "expanded (notify_all s) = expanded s"
      using silent_notify_all [of s] by (intro expanded_cong) (simp_all add: silent_def)
    ultimately have l: "leaf_counting g (notify_all s)"
      using assms(5) by (simp add: leaf_counting_def notify_all_def open_leaves_def)
    have "leaf_counting g s'"
      by (rule leaf_move [OF l, of i Done]) (use o i \<open>expanded (notify_all s) = expanded s\<close> in
        \<open>auto simp: s' 4 notify_all_def open_leaves_def\<close>)
    moreover have "terminate s" "tp_leaf_count s = 0"
      using assms(6,7) nth_mem [OF i] by (auto simp: alert_def over_def due_def 4)
    ultimately show ?thesis
      by (simp add: over_def due_def s' notify_all_def)
  qed
qed

subsection \<open>Stuck pools\<close>

definition settled :: "uint256 graph \<Rightarrow> thread_pool \<Rightarrow> bool" where
  "settled g s \<longleftrightarrow> counting g s \<and> exact g s \<and> leaf_counting g s \<and> alert s \<and> over s"

lemma settled_pick:
  assumes "pick c s = Some s'" and "settled g s" and "good_graph g"
  shows "settled g s' \<and> (acyclic (edges g) \<and> due s \<longrightarrow> due s')"
proof (cases c)
  case (Step i j)
  note e = pick_step(2,1) [OF assms(1) [unfolded Step]]
  have "leaf_counting g s' \<and> over s' \<and> (acyclic (edges g) \<and> due s \<longrightarrow> due s')"
    using assms(2,3) by (intro leaf_execute [OF e]) (auto simp: settled_def)
  then show ?thesis
    using assms(2) counting_pick [OF assms(1,3)] alert_pick [OF assms(1)] unfolding settled_def by blast
next
  case (Wake i)
  note w = silent_pick [OF assms(1) [unfolded Wake]]
  have "expanded s' = expanded s" using w(1) by (intro expanded_cong) (simp_all add: silent_def)
  then have "leaf_counting g s \<Longrightarrow> leaf_counting g s'"
    using w(3,4) by (elim leaf_move [of g s i Pop]) (auto simp: w(2) open_leaves_def)
  moreover have "wsum (at_point p) (workers s') = wsum (at_point p) (workers s)" if "special p" for p
    using w(3,4) that wsum_update_same [of i "workers s" "at_point p" Pop] by (simp add: w(2))
  then have "over s \<Longrightarrow> over s'" "due s \<Longrightarrow> due s'"
    by (simp_all add: over_def due_def at_point_mem w(2))
  ultimately show ?thesis
    using assms(2) counting_pick [OF assms(1,3)] alert_pick [OF assms(1)] unfolding settled_def by blast
qed

lemma settled_new:
  assumes "good_graph g" and "good_iter iter" and "0 < n" and "length g \<le> 2 ^ 64"
  shows "settled g (thread_pool_new iter cid n g rid hgt bh)"
    and "acyclic (edges g) \<Longrightarrow> g \<noteq> [] \<Longrightarrow> due (thread_pool_new iter cid n g rid hgt bh)"
proof -
  let ?s = "thread_pool_new iter cid n g rid hgt bh"
  have c: "tp_leaf_count ?s = card (leaves g)"
    using executor_counts [of g] assms(1) by (simp add: good_graph_def leaves_def)
  have "card (leaves g) \<le> card (fst ` set g)" by (rule card_mono) (auto simp: leaves_def)
  also have "\<dots> \<le> length g" using card_image_le [of "set g" fst] card_length [of g] by simp
  finally have le: "card (leaves g) \<le> 2 ^ 64" using assms(4) by linarith
  have "\<not> expanded ?s v" for v by (simp add: expanded_def begun_def executed_def wsum_replicate)
  then have "leaf_counting g ?s"
    using le unfolding leaf_counting_def c by (simp add: open_leaves_def wsum_replicate at_point_def)
  moreover have "alert ?s" "over ?s"
    using assms(3) unfolding alert_def over_def by (auto simp: asleep_def)
  ultimately show "settled g ?s"
    using counting_new [OF assms(1,2)] by (simp add: settled_def)
  show "due ?s" if ac: "acyclic (edges g)" and ne: "g \<noteq> []"
  proof -
    obtain v where "v \<in> fst ` set g" using ne by (cases g) auto
    then have "leaves g \<noteq> {}" using acyclic_reaches_leaf [OF assms(1) ac] by blast
    then show ?thesis using finite_leaves [of g] unfolding due_def c by (simp add: card_gt_0_iff)
  qed
qed

lemma settled_schedule:
  assumes "schedule cs (thread_pool_new iter cid n g rid hgt bh) = Some s" and "good_graph g" and "good_iter iter"
    and "0 < n" and "length g \<le> 2 ^ 64"
  shows "settled g s" and "acyclic (edges g) \<Longrightarrow> g \<noteq> [] \<Longrightarrow> due s"
proof -
  show "settled g s"
    using schedule_invariant [OF assms(1), of "settled g"] settled_new(1) [OF assms(2-5)] settled_pick [OF _ _ assms(2)]
    by blast
  show "due s" if "acyclic (edges g)" "g \<noteq> []"
    using schedule_invariant [OF assms(1), of "\<lambda>s. settled g s \<and> due s"] settled_new [OF assms(2-5)] that
      settled_pick [OF _ _ assms(2)] by blast
qed

lemma stuck_workers:
  assumes "stuck s" and "alert s" and "w \<in> set (workers s)"
  shows "w = Sleep \<or> w = Done"
proof -
  have no: "execute w i j s = None" if "i < length (workers s)" "workers s ! i = w" for i j w
    using assms(1) that unfolding stuck_def by (metis pick.simps(1))
  have none: "w \<notin> set (workers s)" if "\<And>i. execute w i j s \<noteq> None" for w j
    using no [of _ w j] that by (metis in_set_conv_nth)
  have mtx: "mtx_free s"
    unfolding mtx_free_def by (rule none) simp
  have locks: "mtx_leaf_count_free s"
    unfolding mtx_leaf_count_free_def using mtx by (intro conjI none) simp_all
  obtain i where i: "i < length (workers s)" "workers s ! i = w" using assms(3) by (auto simp: in_set_conv_nth)
  obtain j where j: "Sleep \<in> set (workers s) \<longrightarrow> j < length (workers s) \<and> workers s ! j = Sleep"
    by (metis in_set_conv_nth)
  have "w \<noteq> Popped None \<or> terminate s" using assms(2,3) by (auto simp: alert_def)
  with no [OF i, of j] mtx locks j show ?thesis
    by (cases "(w, i, j, s)" rule: execute.cases) (auto simp: notify_one_def Let_def split: if_splits)
qed

lemma stuck_complete:
  assumes "settled g s" and "stuck s" and "good_graph g" and "acyclic (edges g)" and "due s"
  shows "terminate s" and "set (executed s) = fst ` set g" and "\<forall>w \<in> set (workers s). w = Sleep \<or> w = Done"
proof -
  have inv: "counting g s" "exact g s" "leaf_counting g s" "alert s" "over s"
    using assms(1) by (simp_all add: settled_def)
  show w: "\<forall>w \<in> set (workers s). w = Sleep \<or> w = Done"
    using stuck_workers [OF assms(2) inv(4)] by blast
  have none: "wsum f (workers s) = 0" if "f Sleep = 0" "f Done = 0" for f
    using w that wsum_pos [of f "workers s"] by (metis neq0_conv)
  have idle: "running s v = 0" "begun s v = count_list (executed s) v" for v
    unfolding running_def begun_def by (simp_all add: none)
  have leaf: "tp_leaf_count s = 0 \<Longrightarrow> terminate s"
    using assms(5) w by (auto simp: due_def)
  show t: "terminate s"
  proof (rule ccontr)
    assume run: "\<not> terminate s"
    then have asleep: "\<forall>w \<in> set (workers s). w = Sleep" "d_queue s = []"
      using inv(4) w by (auto simp: alert_def asleep_def)
    have load: "load s v = 0" for v
      unfolding load_def by (simp add: none asleep(2))
    have all: "expanded s v" if "v \<in> fst ` set g" for v
    proof -
      have "wf (edges g)" using finite_edges assms(4) by (rule finite_acyclic_wf)
      then show ?thesis
        using that
      proof (induction v rule: wf_induct_rule)
        case (less v)
        have "counting_at g s v" "exact_at g s v"
          using inv(1,2) run less.prems unfolding counting_def exact_def by blast+
        moreover have "expanded s u" if "u \<in> preds g v" for u
        proof -
          have "(u, v) \<in> edges g" using that by (simp add: preds_def)
          then show ?thesis using less.IH [of u] kids_dom [of v g u] by (simp add: edges_def)
        qed
        then have "counted_preds g s v = card (preds g v)"
          unfolding counted_preds_def by (intro arg_cong [of _ _ card]) blast
        ultimately have "0 < begun s v"
          by (simp add: counting_at_def exact_at_def load split: if_splits)
        then show ?case using idle by (simp add: expanded_def)
      qed
    qed
    then have "open_leaves g s = 0" by (auto simp: open_leaves_def leaves_def)
    moreover have "wsum (at_point Leaf) (workers s) = 0" by (rule none) (simp_all add: at_point_def)
    ultimately have "tp_leaf_count s = 0" using inv(3) by (simp add: leaf_counting_def)
    with leaf run show False by blast
  qed
  then have "tp_leaf_count s = 0" using inv(5) by (simp add: over_def)
  then have "begun s v = 1" if "v \<in> fst ` set g" for v
    using leaves_drained(2) [OF assms(3,4) inv(1,3)] that by blast
  then have "fst ` set g \<subseteq> set (executed s)"
    using idle(2) by (metis count_list_0_iff subsetI zero_neq_one)
  then show "set (executed s) = fst ` set g"
    using executed_inside [OF inv(1)] by blast
qed

subsection \<open>Every schedule ends\<close>

text \<open>What a pool of \<open>N\<close> threads can still do, counted in steps.\<close>

fun weight :: "nat \<Rightarrow> uint256 graph \<Rightarrow> worker \<Rightarrow> nat" where
  "weight N g Done = 0"
| "weight N g Sleep = 0"
| "weight N g Wait = 1"
| "weight N g Pop = 2"
| "weight N g Loop = 3"
| "weight N g (Popped None) = 1"
| "weight N g (Popped (Some tx)) = 5"
| "weight N g (Count tx) = 4"
| "weight N g (Push vs) = 4 + 8 * length vs"
| "weight N g (Notify_One vs) = 7 + 8 * length vs"
| "weight N g Notify_All = 2 * N + 1"
| "weight N g Terminate = 2 * N + 2"
| "weight N g Check = 2 * N + 4"
| "weight N g Leaf = 2 * N + 5"
| "weight N g (Branch tx) = 2 * N + 6 + 8 * length (kids g tx)"
| "weight N g (Remove_Proposed tx) = 2 * N + 7 + 8 * length (kids g tx)"
| "weight N g (Remove_Seen tx) = 2 * N + 8 + 8 * length (kids g tx)"
| "weight N g (Decide tx n) = 2 * N + 9 + 8 * length (kids g tx)"
| "weight N g (Next_Id tx) = 2 * N + 10 + 8 * length (kids g tx)"

definition unbegun :: "nat \<Rightarrow> uint256 graph \<Rightarrow> thread_pool \<Rightarrow> nat" where
  "unbegun N g s = (\<Sum>v \<in> {v \<in> fst ` set g. begun s v = 0}. 2 * N + 7 + 8 * length (kids g v))"

definition motion :: "nat \<Rightarrow> uint256 graph \<Rightarrow> thread_pool \<Rightarrow> nat" where
  "motion N g s = wsum (weight N g) (workers s) + 4 * length (d_queue s)"

definition work :: "nat \<Rightarrow> uint256 graph \<Rightarrow> thread_pool \<Rightarrow> nat" where
  "work N g s = motion N g s + unbegun N g s"

lemma motion_goto:
  "i < length (workers s) \<Longrightarrow> motion N g (goto i w s) + weight N g (workers s ! i) = motion N g s + weight N g w"
  using wsum_update [of i "workers s" "weight N g" w] by (simp add: motion_def)

lemma motion_fields [simp]:
  "motion N g (s\<lparr>tp_incoming := m\<rparr>) = motion N g s" "motion N g (s\<lparr>tp_cmd_id := k\<rparr>) = motion N g s"
  "motion N g (s\<lparr>tp_leaf_count := n\<rparr>) = motion N g s" "motion N g (s\<lparr>calls := cs\<rparr>) = motion N g s"
  "motion N g (s\<lparr>terminate := b\<rparr>) = motion N g s"
  by (simp_all add: motion_def)

lemma motion_queue: "motion N g (s\<lparr>d_queue := q\<rparr>) + 4 * length (d_queue s) = motion N g s + 4 * length q"
  by (simp add: motion_def)

lemma motion_less:
  assumes "i < length (workers s)" and "weight N g w < weight N g (workers s ! i)"
    and "workers u = workers s" and "motion N g u = motion N g s"
  shows "motion N g (goto i w u) < motion N g s"
  using motion_goto [of i u N g w] assms by simp

lemma wsum_wake:
  "wsum (weight N g) (map (\<lambda>w. if w = Sleep then Pop else w) ws) \<le> wsum (weight N g) ws + 2 * length ws"
  by (induction ws) (auto simp: wsum_def)

lemma motion_execute:
  assumes "execute (workers s ! i) i j s = Some s'" and i: "i < length (workers s)" and "tp_graph s = g"
    and "length (workers s) \<le> N" and "\<forall>t. workers s ! i \<noteq> Count t"
  shows "motion N g s' < motion N g s"
proof (cases "workers s ! i")
  case Pop
  let ?u = "s\<lparr>d_queue := butlast (d_queue s)\<rparr>"
  have "motion N g (goto i (Popped (Some t)) ?u) < motion N g s" if "d_queue s \<noteq> []" for t
  proof -
    have "length (d_queue s) = length (butlast (d_queue s)) + 1"
      using that by (cases "d_queue s" rule: rev_cases) simp_all
    then show ?thesis
      using motion_goto [of i ?u N g "Popped (Some t)"] motion_queue [of N g "butlast (d_queue s)" s] i Pop by simp
  qed
  then show ?thesis
    using assms(1) Pop motion_less [OF i, of N g Wait s] motion_less [OF i, of N g "Popped None" s] by (auto simp: bq_pop_def split: if_splits)
next
  case (Push vs)
  show ?thesis
  proof (cases vs)
    case Nil
    then show ?thesis using assms(1) Push i by (auto intro!: motion_less)
  next
    case (Cons v vs')
    let ?u = "s\<lparr>d_queue := v # d_queue s\<rparr>"
    have "s' = goto i (Notify_One vs') ?u"
      using assms(1) Push Cons by (auto simp: bq_push_def split: if_splits)
    then show ?thesis
      using motion_goto [of i ?u N g "Notify_One vs'"] motion_queue [of N g "v # d_queue s" s] i Push Cons by simp
  qed
next
  case (Notify_One vs)
  then obtain u where u: "notify_one j s = Some u" "s' = goto i (if vs = [] then Loop else Push vs) u"
    using assms(1) by auto
  have "motion N g u \<le> motion N g s + 2 \<and> i < length (workers u) \<and> workers u ! i = workers s ! i"
    using u(1)
  proof (rule notify_one_cases)
    assume "j < length (workers s)" "workers s ! j = Sleep" "u = goto j Pop s"
    then show ?thesis
      using motion_goto [of j s N g Pop] i Notify_One by (auto simp: nth_list_update)
  qed (use i in simp)
  then show ?thesis
    using motion_goto [of i u N g "if vs = [] then Loop else Push vs"] Notify_One by (auto simp: u(2) split: if_splits)
next
  case Notify_All
  let ?u = "notify_all s"
  have u: "motion N g ?u \<le> motion N g s + 2 * N" "i < length (workers ?u)" "workers ?u ! i = Notify_All"
    using wsum_wake [of N g "workers s"] assms(4) i Notify_All by (simp_all add: motion_def notify_all_def)
  then show ?thesis
    using motion_goto [OF u(2), of N g Done] assms(1) Notify_All by auto
next
  case (Popped tx)
  then show ?thesis
    using assms(1) i by (cases tx) (auto intro!: motion_less split: if_splits)
next
  case (Branch t)
  then show ?thesis
    using assms(1,3) i by (auto intro!: motion_less split: if_splits)
next
  case (Count t)
  then show ?thesis using assms(5) by blast
next
  case Leaf
  then show ?thesis
    using assms(1) i motion_less [OF i, of N g Check "s\<lparr>tp_leaf_count := (tp_leaf_count s + 2 ^ 64 - 1) mod 2 ^ 64\<rparr>"]
    by (auto split: if_splits)
next
  case Check
  then show ?thesis
    using assms(1) i motion_less [OF i, of N g Loop s] motion_less [OF i, of N g Terminate s] by (auto split: if_splits)
qed (use assms in \<open>auto intro!: motion_less split: if_splits\<close>)

lemma unbegun_cong: "begun s' = begun s \<Longrightarrow> unbegun N g s' = unbegun N g s"
  by (simp add: unbegun_def)

lemma work_execute:
  assumes "execute (workers s ! i) i j s = Some s'" and i: "i < length (workers s)" and "counting g s" and "good_graph g"
    and "length (workers s) \<le> N"
  shows "work N g s' < work N g s"
proof (cases "\<exists>t. workers s ! i = Count t")
  case True
  then obtain t where t: "workers s ! i = Count t" by blast
  let ?u = "s\<lparr>tp_incoming := AList.update t (incoming s t - 1) (tp_incoming s)\<rparr>"
  consider "s' = goto i Loop ?u" "counts t s s'" | u where "u = s \<or> u = ?u" "s' = goto i (Next_Id t) u" "begins t s s'"
    using execute_count_cases [OF assms(1) [unfolded t] i t] by blast
  then show ?thesis
  proof cases
    case 1
    have "unbegun N g s' = unbegun N g s"
      using 1(2) by (intro unbegun_cong) (simp add: counts_def)
    then show ?thesis
      using motion_less [OF i, of N g Loop ?u] t by (simp add: work_def 1(1))
  next
    case 2
    let ?S = "{v \<in> fst ` set g. begun s v = 0}"
    have b: "begun s' v = begun s v + of_bool (v = t)" for v
      using 2(3) by (simp add: begins_def)
    have "begun s' t \<le> 1"
      using begins_at(1) [OF 2(3) assms(3), of t] by (simp add: counting_at_def)
    moreover have "t \<in> fst ` set g"
      using 2(3) assms(3) by (force simp: begins_def counting_def counting_at_def)
    ultimately have t': "t \<in> ?S" using b [of t] by simp
    have "{v \<in> fst ` set g. begun s' v = 0} = ?S - {t}"
      by (auto simp: b)
    then have "unbegun N g s = unbegun N g s' + (2 * N + 7 + 8 * length (kids g t))"
      unfolding unbegun_def using sum.remove [OF _ t', of "\<lambda>v. 2 * N + 7 + 8 * length (kids g v)"] by simp
    moreover have "motion N g s' + 4 = motion N g s + (2 * N + 10 + 8 * length (kids g t))"
      using motion_goto [of i u N g "Next_Id t"] 2(1) i t by (auto simp: 2(2))
    ultimately show ?thesis by (simp add: work_def)
  qed
next
  case False
  have "begun s' = begun s"
  proof (cases "workers s ! i")
    case (Popped tx)
    then show ?thesis using execute_popped [of tx i j s s'] assms(1) i by (auto simp: silent_def drops_def)
  next
    case (Branch t)
    then show ?thesis using execute_branch [of t i j s s'] assms(1) i by (simp add: expands_def)
  qed (use execute_silent [OF assms(1) i] False in \<open>auto simp: silent_def\<close>)
  then have "unbegun N g s' = unbegun N g s" by (rule unbegun_cong)
  moreover have "motion N g s' < motion N g s"
    using motion_execute [OF assms(1) i _ assms(5)] assms(3) False by (auto simp: counting_def)
  ultimately show ?thesis by (simp add: work_def)
qed

subsection \<open>Runs\<close>

definition wakes :: "choice list \<Rightarrow> nat" where
  "wakes cs = length (filter (\<lambda>c. case c of Wake i \<Rightarrow> True | Step i j \<Rightarrow> False) cs)"

lemma pick_length:
  assumes "pick c s = Some s'"
  shows "length (workers s') = length (workers s)"
proof (cases c)
  case (Step i j)
  then show ?thesis using execute_length [OF pick_step(2)] assms by blast
next
  case (Wake i)
  then show ?thesis using silent_pick(2) [OF assms [unfolded Wake]] by simp
qed

lemma schedule_length:
  assumes "schedule cs s = Some s'" and "counting g s \<and> exact g s" and "good_graph g" and "length (workers s) \<le> N"
  shows "length cs + work N g s' \<le> work N g s + 3 * wakes cs"
  using assms(1,2,4)
proof (induction cs arbitrary: s)
  case (Cons c cs)
  then obtain t where t: "pick c s = Some t" "schedule cs t = Some s'" by (auto split: option.splits)
  have "length (workers t) \<le> N \<and> (case c of Wake i \<Rightarrow> work N g t = work N g s + 2 | Step i j \<Rightarrow> work N g t < work N g s)"
  proof (cases c)
    case (Step i j)
    note e = pick_step(2,1) [OF t(1) [unfolded Step]]
    show ?thesis
      using work_execute [OF e _ assms(3) Cons.prems(3)] Cons.prems(2,3) execute_length [OF e(1)] Step by simp
  next
    case (Wake i)
    note w = silent_pick [OF t(1) [unfolded Wake]]
    have "unbegun N g t = unbegun N g s" using w(1) by (intro unbegun_cong) (simp add: silent_def)
    then show ?thesis
      using motion_goto [OF w(3), of N g Pop] w(2,4) Cons.prems(3) Wake by (simp add: work_def)
  qed
  moreover have "length (workers t) \<le> N \<Longrightarrow> length cs + work N g s' \<le> work N g t + 3 * wakes cs"
    using Cons.IH [OF t(2)] counting_pick [OF t(1) assms(3)] Cons.prems(2) by blast
  ultimately show ?case
    by (cases c) (simp_all add: wakes_def)
qed (simp add: wakes_def)

lemma work_new:
  assumes "good_graph g" and "good_iter iter"
  shows "work n g (thread_pool_new iter cid n g rid hgt bh) \<le>
    n * (2 * length g + 3) + 11 * length g + 8 * sum_list (map (length \<circ> snd) g)"
proof -
  let ?s = "thread_pool_new iter cid n g rid hgt bh"
  have keys: "distinct (map fst g)" using assms(1) by (simp add: good_graph_def)
  have V: "card (fst ` set g) = length g"
    using distinct_card [OF keys] by simp
  have "unbegun n g ?s = (\<Sum>v \<in> fst ` set g. 2 * n + 7 + 8 * length (kids g v))"
    by (simp add: unbegun_def begun_def executed_def wsum_replicate)
  also have "\<dots> = sum_list (map ((\<lambda>v. 2 * n + 7 + 8 * length (kids g v)) \<circ> fst) g)"
    using sum_list_distinct_conv_sum_set [OF keys, of "\<lambda>v. 2 * n + 7 + 8 * length (kids g v)"] by simp
  also have "\<dots> = sum_list (map (\<lambda>e. 2 * n + 7 + 8 * length (snd e)) g)"
    using keys by (intro arg_cong [of _ _ sum_list] map_cong) (auto simp: kids_def)
  also have "\<dots> = (2 * n + 7) * length g + 8 * sum_list (map (length \<circ> snd) g)"
    by (induction g) (simp_all add: algebra_simps)
  finally have u: "unbegun n g ?s = (2 * n + 7) * length g + 8 * sum_list (map (length \<circ> snd) g)" .
  have roots: "get_roots (graph_operation_new g) \<subseteq> fst ` set g"
    using executor_counts [of g] assms(1) by (auto simp: good_graph_def)
  then have "finite (get_roots (graph_operation_new g))" by (rule finite_subset) simp
  then have "length (iter (get_roots (graph_operation_new g))) = card (get_roots (graph_operation_new g))"
    using assms(2) distinct_card unfolding good_iter_def by metis
  also have "\<dots> \<le> length g" using card_mono [OF _ roots] V by simp
  finally show ?thesis
    by (simp add: work_def motion_def u wsum_replicate algebra_simps)
qed

lemma asleep_stuck:
  assumes "\<forall>w \<in> set (workers s). w = Sleep \<or> w = Done"
  shows "stuck s"
proof -
  have "execute (workers s ! i) i j s = None" if "i < length (workers s)" for i j
    using assms nth_mem [OF that] by (metis execute.simps(4) execute.simps(19))
  then show ?thesis by (simp add: stuck_def)
qed

lemma quiet_pick:
  assumes "pick c s = Some s'" and "d_queue s = [] \<and> \<not> terminate s \<and> set (workers s) \<subseteq> {Loop, Pop, Wait, Sleep}"
  shows "d_queue s' = [] \<and> \<not> terminate s' \<and> set (workers s') \<subseteq> {Loop, Pop, Wait, Sleep}"
proof (cases c)
  case (Step i j)
  note e = pick_step [OF assms(1) [unfolded Step]]
  have move: "w \<in> {Loop, Pop, Wait, Sleep} \<Longrightarrow> set ((workers s)[i := w]) \<subseteq> {Loop, Pop, Wait, Sleep}" for w
    using assms(2) set_move [OF e(1), of _ w] by blast
  have "workers s ! i \<in> {Loop, Pop, Wait, Sleep}"
    using assms(2) nth_mem [OF e(1)] by blast
  then consider "workers s ! i = Loop" | "workers s ! i = Pop" | "workers s ! i = Wait" | "workers s ! i = Sleep"
    by blast
  then have "\<exists>w \<in> {Loop, Pop, Wait, Sleep}. s' = goto i w s"
    using e(2) assms(2) by cases (simp_all add: bq_pop_def split: if_splits)
  then show ?thesis
    using assms(2) move by force
next
  case (Wake i)
  note w = silent_pick [OF assms(1) [unfolded Wake]]
  have "set ((workers s)[i := Pop]) \<subseteq> {Loop, Pop, Wait, Sleep}"
    using assms(2) set_move [OF w(3), of _ Pop] by blast
  then show ?thesis
    using assms(2) by (simp add: w(2))
qed

end
