(* ===== verification/Executor.thy ===== *)
theory Executor
  imports Pool_Ends
begin

text \<open>What the parallel executor of Rashnu promises, and where it hangs.\<close>

subsection \<open>Safety\<close>

text \<open>
  C32: whatever the schedule, with spurious wake-ups, the pool executes only commands of the block's
  graph, none twice, each after all its predecessors; a command on a cycle of the graph or behind one
  is never executed.
\<close>

theorem executor_order:
  assumes "schedule cs (thread_pool_new iter cid n g rid hgt bh) = Some s" and "good_graph g" and "good_iter iter"
  shows "distinct (executed s) \<and> set (executed s) \<subseteq> fst ` set g \<and>
    (\<forall>k < length (executed s). {u. (u, executed s ! k) \<in> edges g} \<subseteq> set (take k (executed s))) \<and>
    set (executed s) \<inter> {v. \<exists>u. (u, u) \<in> (edges g)\<^sup>+ \<and> (u, v) \<in> (edges g)\<^sup>*} = {}"
proof -
  have ord: "schedule_order g (executed s)"
    by (rule order_schedule [OF assms])
  show ?thesis
    using ord executed_inside [OF counting_schedule(1) [OF assms]] cycle_not_executed [OF ord]
    by (auto simp: schedule_order_def preds_def)
qed

lemma good_sorted: "good_iter sorted_list_of_set"
  by (simp add: good_iter_def)

abbreviation chain_graph :: "uint256 graph" where
  "chain_graph \<equiv> [(h256 1, [h256 2]), (h256 2, [])]"

lemma good_chain: "good_graph chain_graph"
  by (simp add: good_graph_def graph_closed_def)

lemma chain_pool:
  "thread_pool_new sorted_list_of_set 0 1 chain_graph 0 1 (h256 9) =
     \<lparr>tp_rid = 0, tp_cmd_id = 0, tp_cmd_height = 1, tp_blk_hash = h256 9, tp_graph = chain_graph,
      tp_incoming = [(h256 1, 0), (h256 2, 1)], tp_leaf_count = 1, d_queue = [h256 1], terminate = False,
      workers = [Loop], calls = []\<rparr>"
proof -
  have "get_roots (graph_operation_new chain_graph) = {h256 1}"
    unfolding conjunct1 [OF executor_counts [OF good_chain [unfolded good_graph_def, THEN conjunct1]
          good_chain [unfolded good_graph_def, THEN conjunct2, THEN conjunct1]
          good_chain [unfolded good_graph_def, THEN conjunct2, THEN conjunct2]]]
    by (auto simp: edges_def kids_def)
  then show ?thesis
    unfolding thread_pool_new_def
    by (simp add: graph_operation_new_def get_incoming_count_def get_leaf_count_def incr_def Let_def)
qed

lemma chain_run:
  "map_option executed (schedule (replicate 24 (Step 0 0)) (thread_pool_new sorted_list_of_set 0 1 chain_graph 0 1 (h256 9)))
    = Some [h256 1, h256 2]"
  and chain_stops: "map_option workers (schedule (replicate 24 (Step 0 0)) (thread_pool_new sorted_list_of_set 0 1 chain_graph 0 1 (h256 9)))
    = Some [Done]"
proof -
  have cs: "replicate 24 c = [c, c, c, c, c, c, c, c, c, c, c, c, c, c, c, c, c, c, c, c, c, c, c, c]" for c :: choice
    by (simp add: numeral_eq_Suc)
  show "map_option executed (schedule (replicate 24 (Step 0 0)) (thread_pool_new sorted_list_of_set 0 1 chain_graph 0 1 (h256 9)))
      = Some [h256 1, h256 2]"
    "map_option workers (schedule (replicate 24 (Step 0 0)) (thread_pool_new sorted_list_of_set 0 1 chain_graph 0 1 (h256 9)))
      = Some [Done]"
    unfolding chain_pool cs
    by (simp_all add: goto_def bq_pop_def bq_push_def mtx_free_def mtx_leaf_count_free_def notify_one_def notify_all_def
      incoming_def kids_def executed_def Let_def)
qed

theorem executor_order_witness:
  "\<exists>s. schedule (replicate 24 (Step 0 0)) (thread_pool_new sorted_list_of_set 0 1 chain_graph 0 1 (h256 9)) = Some s \<and>
    distinct (executed s) \<and> executed s = [h256 1, h256 2]"
proof -
  obtain s where s: "schedule (replicate 24 (Step 0 0)) (thread_pool_new sorted_list_of_set 0 1 chain_graph 0 1 (h256 9)) = Some s"
    "executed s = [h256 1, h256 2]"
    using chain_run by auto
  with executor_order [OF s(1) good_chain good_sorted] show ?thesis by blast
qed

subsection \<open>Completion\<close>

text \<open>
  C33: on an acyclic graph that is not empty every schedule is finite, in the number of threads,
  commands, edges and spurious wake-ups; and when no thread can go on, every command has been
  executed once, the flag \<open>terminate\<close> is set and every thread has returned or sleeps.
\<close>

theorem executor_completes:
  assumes "schedule cs (thread_pool_new iter cid n g rid hgt bh) = Some s" and "good_graph g" and "good_iter iter"
    and "acyclic (edges g)" and "g \<noteq> []" and "0 < n" and "length g \<le> 2 ^ 64"
  shows "length cs \<le> n * (2 * length g + 3) + 11 * length g + 8 * sum_list (map (length \<circ> snd) g) + 3 * wakes cs \<and>
    (stuck s \<longrightarrow> terminate s \<and> mset (executed s) = mset (map fst g) \<and> (\<forall>w \<in> set (workers s). w = Sleep \<or> w = Done))"
proof (intro conjI impI)
  let ?s = "thread_pool_new iter cid n g rid hgt bh"
  show "length cs \<le> n * (2 * length g + 3) + 11 * length g + 8 * sum_list (map (length \<circ> snd) g) + 3 * wakes cs"
    using schedule_length [OF assms(1) _ assms(2), of n] counting_new [OF assms(2,3), of cid n rid hgt bh]
      work_new [OF assms(2,3), of n cid rid hgt bh] by simp
  assume stuck: "stuck s"
  have inv: "settled g s" "due s"
    using settled_schedule [OF assms(1-3,6,7)] assms(4,5) by blast+
  note c = stuck_complete [OF inv(1) stuck assms(2,4) inv(2)]
  show "terminate s" "\<forall>w \<in> set (workers s). w = Sleep \<or> w = Done"
    by (rule c)+
  have "distinct (executed s)"
    using order_schedule [OF assms(1-3)] by (simp add: schedule_order_def)
  moreover have "distinct (map fst g)"
    using assms(2) by (simp add: good_graph_def)
  ultimately show "mset (executed s) = mset (map fst g)"
    using c(2) set_eq_iff_mset_eq_distinct [of "executed s" "map fst g"] by simp
qed

lemma acyclic_chain: "acyclic (edges chain_graph)"
  by (rule acyclic_before [of "[h256 1, h256 2]"]) (auto simp: edges_def kids_def before_Cons split: if_splits)

theorem executor_completes_witness:
  "\<exists>s. schedule (replicate 24 (Step 0 0)) (thread_pool_new sorted_list_of_set 0 1 chain_graph 0 1 (h256 9)) = Some s \<and>
    stuck s \<and> mset (executed s) = {#h256 1, h256 2#}"
proof -
  obtain s where s: "schedule (replicate 24 (Step 0 0)) (thread_pool_new sorted_list_of_set 0 1 chain_graph 0 1 (h256 9)) = Some s"
    "workers s = [Done]"
    using chain_stops by auto
  have "stuck s" by (rule asleep_stuck) (simp add: s(2))
  with s executor_completes [OF s(1) good_chain good_sorted acyclic_chain] show ?thesis by auto
qed

subsection \<open>Where it hangs\<close>

definition lost_wakeup_choices :: "choice list" where
  "lost_wakeup_choices = Step 1 0 # replicate 11 (Step 0 0) @ [Step 1 0, Step 0 0, Step 0 0, Step 1 0] @
     map (\<lambda>i. Step i 0) [2..<20]"

lemma single_pool:
  "thread_pool_new sorted_list_of_set 0 20 [(h256 1, [])] 0 1 (h256 9) =
     \<lparr>tp_rid = 0, tp_cmd_id = 0, tp_cmd_height = 1, tp_blk_hash = h256 9, tp_graph = [(h256 1, [])],
      tp_incoming = [(h256 1, 0)], tp_leaf_count = 1, d_queue = [h256 1], terminate = False,
      workers = replicate 20 Loop, calls = []\<rparr>"
proof -
  have "{x. x = (h256 1, 0 :: nat) \<and> (case x of (v, k) \<Rightarrow> k = 0)} = {(h256 1, 0)}" by auto
  then show ?thesis
    by (simp add: thread_pool_new_def graph_operation_new_def get_roots_def get_incoming_count_def get_leaf_count_def Let_def)
qed

lemma single_run:
  "map_option (\<lambda>s. (terminate s, executed s, workers s))
     (schedule lost_wakeup_choices (thread_pool_new sorted_list_of_set 0 20 [(h256 1, [])] 0 1 (h256 9))) =
   Some (True, [h256 1], Done # Sleep # replicate 18 Done)"
proof -
  have ws: "replicate 20 w = [w, w, w, w, w, w, w, w, w, w, w, w, w, w, w, w, w, w, w, w]" for w :: worker
    by (simp add: numeral_eq_Suc)
  have ws': "replicate 18 w = [w, w, w, w, w, w, w, w, w, w, w, w, w, w, w, w, w, w]" for w :: worker
    by (simp add: numeral_eq_Suc)
  have cs: "replicate 11 c = [c, c, c, c, c, c, c, c, c, c, c]" for c :: choice
    by (simp add: numeral_eq_Suc)
  show ?thesis
    unfolding single_pool lost_wakeup_choices_def ws ws' cs
    by (simp add: upt_rec goto_def bq_pop_def mtx_free_def mtx_leaf_count_free_def notify_all_def
      incoming_def kids_def executed_def Let_def)
qed

text \<open>
  C34: the flag is set, and the sleeping threads are notified, without the mutex of the queue: a thread
  that has found the queue empty may go to sleep after the notification. Such a run of the pool of
  twenty threads on a block of one command executes the command and ends with a thread that sleeps,
  which no other thread will wake, so that \<open>start_execute_parallel\<close> never joins it.
\<close>

theorem executor_lost_wakeup:
  "\<exists>pool cs s. update_parallel sorted_list_of_set 0 0 [(h256 1, [])] [] 1 (h256 9) = Some pool \<and>
    schedule cs pool = Some s \<and> terminate s \<and> executed s = [h256 1] \<and> stuck s \<and> \<not> joined s"
proof -
  let ?p = "thread_pool_new sorted_list_of_set 0 20 [(h256 1, [])] 0 1 (h256 9)"
  obtain s where s: "schedule lost_wakeup_choices ?p = Some s" "terminate s" "executed s = [h256 1]"
    "workers s = Done # Sleep # replicate 18 Done"
    using single_run by auto
  have "stuck s" by (rule asleep_stuck) (auto simp: s(4))
  moreover have "\<not> joined s" by (simp add: joined_def s(4))
  moreover have "update_parallel sorted_list_of_set 0 0 [(h256 1, [])] [] 1 (h256 9) = Some ?p"
    by (simp add: update_parallel_def fair_finalize_par_def is_weakly_connected_def THREAD_POOL_SIZE_def)
  ultimately show ?thesis using s by blast
qed

text \<open>
  C35: on a graph without a root, as that of the empty block that the leader proposes when a timer
  expires, and on a graph with a leaf behind a cycle, the pool that \<open>update\<close> runs never terminates: no
  schedule lets a thread return, so \<open>update\<close> does not return either.
\<close>

theorem executor_hangs:
  assumes "good_graph g" and "good_iter iter" and "length g \<le> 2 ^ 64"
    and "(\<forall>v \<in> fst ` set g. \<exists>u. (u, v) \<in> edges g) \<or>
      (\<exists>u v. (u, u) \<in> (edges g)\<^sup>+ \<and> (u, v) \<in> (edges g)\<^sup>* \<and> kids g v = [])"
  shows "\<exists>pool. update_parallel iter cid rid g [] hgt bh = Some pool \<and>
    (\<forall>cs s. schedule cs pool = Some s \<longrightarrow> \<not> terminate s \<and> Done \<notin> set (workers s) \<and> \<not> joined s)"
proof -
  let ?p = "thread_pool_new iter cid THREAD_POOL_SIZE g rid hgt bh"
  have start: "update_parallel iter cid rid g [] hgt bh = Some ?p"
    by (simp add: update_parallel_def fair_finalize_par_def is_weakly_connected_def Let_def)
  have size: "0 < THREAD_POOL_SIZE" by (simp add: THREAD_POOL_SIZE_def)
  have "\<not> terminate s" if run: "schedule cs ?p = Some s" for cs s
    using assms(4)
  proof
    assume none: "\<forall>v \<in> fst ` set g. \<exists>u. (u, v) \<in> edges g"
    have "get_roots (graph_operation_new g) = {}"
      using executor_counts [of g] assms(1) none by (auto simp: good_graph_def)
    then have "d_queue ?p = []"
      using assms(2) by (auto simp: good_iter_def)
    then have "d_queue ?p = [] \<and> \<not> terminate ?p \<and> set (workers ?p) \<subseteq> {Loop, Pop, Wait, Sleep}"
      by (simp add: set_replicate_conv_if)
    then show ?thesis
      using schedule_invariant [OF run, of "\<lambda>s. d_queue s = [] \<and> \<not> terminate s \<and> set (workers s) \<subseteq> {Loop, Pop, Wait, Sleep}"]
        quiet_pick by blast
  next
    assume "\<exists>u v. (u, u) \<in> (edges g)\<^sup>+ \<and> (u, v) \<in> (edges g)\<^sup>* \<and> kids g v = []"
    then obtain u v where v: "(u, u) \<in> (edges g)\<^sup>+" "(u, v) \<in> (edges g)\<^sup>*" "kids g v = []" by blast
    have inv: "settled g s" by (rule settled_schedule(1) [OF run assms(1,2) size assms(3)])
    have "(u, v) \<in> (edges g)\<^sup>+" using v(1,2) by (rule trancl_rtrancl_trancl)
    then obtain w where "(w, v) \<in> edges g" by (meson tranclD2)
    then have "v \<in> leaves g"
      using v(3) good_kids(2) [OF assms(1), of w] by (auto simp: leaves_def edges_def)
    moreover have "\<not> expanded s v"
      using cycle_not_executed [OF order_schedule [OF run assms(1,2)] v(1,2)] expanded_executed by blast
    ultimately have "0 < open_leaves g s"
      using finite_leaves [of g] by (auto simp: open_leaves_def card_gt_0_iff)
    then show ?thesis
      using inv by (auto simp: settled_def leaf_counting_def over_def)
  qed
  moreover have "Done \<notin> set (workers s) \<and> \<not> joined s" if "schedule cs ?p = Some s" "\<not> terminate s" for cs s
  proof -
    have "Done \<notin> set (workers s)"
      using settled_schedule(1) [OF that(1) assms(1,2) size assms(3)] that(2) by (auto simp: settled_def alert_def)
    moreover have "length (workers s) = THREAD_POOL_SIZE"
      using schedule_invariant [OF that(1), of "\<lambda>s. length (workers s) = THREAD_POOL_SIZE"] pick_length by auto
    ultimately show ?thesis using size by (cases "workers s") (auto simp: joined_def)
  qed
  ultimately show ?thesis using start by blast
qed

theorem executor_hangs_witness:
  "\<exists>pool. update_parallel sorted_list_of_set 0 0 [] [] 1 (h256 9) = Some pool \<and> \<not> terminate pool"
proof -
  have "good_graph []" by (simp add: good_graph_def graph_closed_def)
  from executor_hangs [OF this good_sorted] obtain pool where p: "update_parallel sorted_list_of_set 0 0 [] [] 1 (h256 9) = Some pool"
    "\<forall>cs s. schedule cs pool = Some s \<longrightarrow> \<not> terminate s \<and> Done \<notin> set (workers s) \<and> \<not> joined s"
    by fastforce
  from p(2) have "\<not> terminate pool" using schedule.simps(1) by blast
  with p(1) show ?thesis by blast
qed

end
