(* ===== verification/Rashnu_Entity.thy ===== *)
theory Rashnu_Entity
  imports Rashnu_Graph Thread_Pool
begin

text \<open>
  \<open>Block\<close> and \<open>EntityStorage\<close> of Rashnu (\<open>rashnu/include/hotstuff/entity.h\<close>, \<open>rashnu/src/entity.cpp\<close>):
  a block names the edges that its dependency graph misses, and the storage queues a dependency
  graph per local order. The seen commands, the updates, the missing edges and the proposed commands
  are kept as in Themis, by the same code.
\<close>

subsection \<open>The block\<close>

record rblock = tblock +
  rb_e_missing :: "edge list"

definition rblock_empty :: rblock where
  "rblock_empty = tblock.extend tblock_empty \<lparr>rb_e_missing = []\<rparr>"

text \<open>\<open>update_graph\<close> takes the first missing edge between the two commands, in either direction, off the list.\<close>

definition same_pair :: "edge \<Rightarrow> edge \<Rightarrow> bool" where
  "same_pair e m \<longleftrightarrow> fst m = fst e \<and> snd m = snd e \<or> fst m = snd e \<and> snd m = fst e"

definition ra_update_graph :: "edge \<Rightarrow> rblock \<Rightarrow> rblock" where
  "ra_update_graph e b =
     (if fst e \<in> fst ` set (tb_graph b) \<and> snd e \<in> fst ` set (tb_graph b)
      then b\<lparr>tb_graph := graph_insert (fst e) (snd e) (tb_graph b), rb_e_missing := erase_first (same_pair e) (rb_e_missing b)\<rparr>
      else b)"

definition ra_remove_cmd :: "uint256 \<Rightarrow> rblock \<Rightarrow> rblock" where
  "ra_remove_cmd c b =
     b\<lparr>tb_graph := map (\<lambda>(u, vs). (u, filter (\<lambda>v. v \<noteq> c) vs)) (AList.delete c (tb_graph b))\<rparr>"

definition ra_get_missing_edges :: "rblock \<Rightarrow> edge list" where
  "ra_get_missing_edges b = rb_e_missing b"

subsection \<open>Its codec\<close>

definition rblock_serialize :: "rblock \<Rightarrow> data_stream \<Rightarrow> (unit, data_stream) res" where
  "rblock_serialize b s =
     res_bind (gfc_serialize (tb_graph b) (put_vec uint256_serialize (tb_parent_hashes b) s)) (\<lambda>u s.
       let s = put_vec edge_serialize (tb_e_update b) (put_vec edge_serialize (rb_e_missing b) s)
       in case tb_qc b of
            None \<Rightarrow> Exc Undefined_Behaviour s
          | Some qc \<Rightarrow> res_bind (qc_serialize qc s) (\<lambda>u s.
              Ok () (ds_put_data (tb_extra b) (ds_put (of_nat (length (tb_extra b)) :: u32) s))))"

definition rblock_get_hash :: "(bytes \<Rightarrow> uint256) \<Rightarrow> rblock \<Rightarrow> err + uint256" where
  "rblock_get_hash sha b =
     (case rblock_serialize b ds_new of Ok u s \<Rightarrow> Inr (sha (ds_bytes s)) | Exc e s \<Rightarrow> Inl e)"

definition rblock_unserialize :: "(bytes \<Rightarrow> sig option) \<Rightarrow> (bytes \<Rightarrow> uint256) \<Rightarrow> data_stream \<Rightarrow> (rblock, data_stream) res" where
  "rblock_unserialize psig sha s =
     res_bind (get_vec uint256_unserialize s) (\<lambda>ps s.
     res_bind (gfc_unserialize s) (\<lambda>g s.
     res_bind (get_vec edge_unserialize s) (\<lambda>ms s.
     res_bind (get_vec edge_unserialize s) (\<lambda>es s.
     res_bind (qc_unserialize psig s) (\<lambda>qc s.
     res_bind (ds_get s) (\<lambda>n s.
     res_bind (if (n :: u32) = 0 then Ok [] s else ds_get_data_inplace (unat n) s) (\<lambda>ex s.
       let b = rblock_empty\<lparr>tb_parent_hashes := ps, tb_graph := g, rb_e_missing := ms, tb_e_update := es,
                 tb_qc := Some qc, tb_extra := ex\<rparr>
       in case rblock_get_hash sha b of
            Inl e \<Rightarrow> Exc e s
          | Inr h \<Rightarrow> Ok (b\<lparr>tb_hash := h\<rparr>) s)))))))"

text \<open>The constructor of a proposed block.\<close>

definition rblock_make :: "(bytes \<Rightarrow> uint256) \<Rightarrow> (ref \<Rightarrow> rblock) \<Rightarrow> ref list \<Rightarrow> uint256 graph \<Rightarrow> edge list \<Rightarrow> edge list \<Rightarrow>
    quorum_cert \<Rightarrow> bytes \<Rightarrow> u32 \<Rightarrow> ref option \<Rightarrow> quorum_cert option \<Rightarrow> u8 \<Rightarrow> err + rblock" where
  "rblock_make sha hp ps g ms es qc ex ht qr sq dec =
     (let b = rblock_empty\<lparr>tb_parent_hashes := map (\<lambda>p. tb_hash (hp p)) ps, tb_graph := g, rb_e_missing := ms,
              tb_e_update := es, tb_qc := Some qc, tb_extra := ex, tb_parents := ps, tb_qc_ref := qr, tb_self_qc := sq,
              tb_height := ht, tb_decision := dec\<rparr>
      in map_sum id (\<lambda>h. b\<lparr>tb_hash := h\<rparr>) (rblock_get_hash sha b))"

subsection \<open>The storage\<close>

text \<open>
  \<open>rs_base\<close> holds the members that Themis has too; its queue of ordered hashes is replaced by the
  queue of graphs. The mutexes of the single methods are left out: each method is one step.
\<close>

record rashnu_storage =
  ordered_dag_cache :: "(replica_id \<times> uint256 graph list) list"
  dependency_cache :: "(uint256 \<times> (u64 \<times> char) list) list"
  rs_base :: themis_storage

definition rashnu_storage_new :: "uint256 \<Rightarrow> rashnu_storage" where
  "rashnu_storage_new h0 = \<lparr>ordered_dag_cache = [], dependency_cache = [], rs_base = themis_storage_new h0\<rparr>"

definition on_base :: "(themis_storage \<Rightarrow> ('a, themis_storage) res) \<Rightarrow> rashnu_storage \<Rightarrow> ('a, rashnu_storage) res" where
  "on_base f st = (case f (rs_base st) of Ok a t \<Rightarrow> Ok a (st\<lparr>rs_base := t\<rparr>) | Exc e t \<Rightarrow> Exc e (st\<lparr>rs_base := t\<rparr>))"

definition ra_is_cmd_proposed :: "uint256 \<Rightarrow> rashnu_storage \<Rightarrow> bool" where
  "ra_is_cmd_proposed c st = t_is_cmd_proposed c (rs_base st)"

definition ra_add_to_proposed :: "uint256 \<Rightarrow> rashnu_storage \<Rightarrow> rashnu_storage" where
  "ra_add_to_proposed c st = st\<lparr>rs_base := t_add_to_proposed c (rs_base st)\<rparr>"

definition ra_remove_from_proposed :: "uint256 \<Rightarrow> rashnu_storage \<Rightarrow> rashnu_storage" where
  "ra_remove_from_proposed c st = st\<lparr>rs_base := t_remove_from_proposed c (rs_base st)\<rparr>"

definition ra_add_missing_edge :: "uint256 \<Rightarrow> uint256 \<Rightarrow> rashnu_storage \<Rightarrow> rashnu_storage" where
  "ra_add_missing_edge u v st = st\<lparr>rs_base := add_missing_edge u v (rs_base st)\<rparr>"

definition ra_remove_missing_edge :: "uint256 \<Rightarrow> uint256 \<Rightarrow> rashnu_storage \<Rightarrow> rashnu_storage" where
  "ra_remove_missing_edge u v st = st\<lparr>rs_base := remove_missing_edge u v (rs_base st)\<rparr>"

definition ra_update_all_seen :: "uint256 list \<Rightarrow> rashnu_storage \<Rightarrow> (unit, rashnu_storage) res" where
  "ra_update_all_seen cs = on_base (t_update_all_seen cs)"

definition ra_remove_seen_execute_level :: "uint256 \<Rightarrow> rashnu_storage \<Rightarrow> (unit, rashnu_storage) res" where
  "ra_remove_seen_execute_level c = on_base (t_remove_seen_execute_level c)"

definition ra_remove_seen_propose_level :: "uint256 \<Rightarrow> rashnu_storage \<Rightarrow> (unit, rashnu_storage) res" where
  "ra_remove_seen_propose_level c = on_base (t_remove_seen_propose_level c)"

definition ra_get_updated_missing_edges :: "rashnu_storage \<Rightarrow> (edge list, rashnu_storage) res" where
  "ra_get_updated_missing_edges = on_base get_updated_missing_edges"

definition ra_clear_front_l_update :: "replica_id \<Rightarrow> rashnu_storage \<Rightarrow> (unit, rashnu_storage) res" where
  "ra_clear_front_l_update rid = on_base (clear_front_l_update rid)"

definition ra_get_l_update_vector :: "replica_id \<Rightarrow> rashnu_storage \<Rightarrow> err + edge list" where
  "ra_get_l_update_vector rid st = get_l_update_vector rid (rs_base st)"

definition ra_get_l_update_replicas :: "(replica_id list \<Rightarrow> replica_id list) \<Rightarrow> rashnu_storage \<Rightarrow> replica_id list" where
  "ra_get_l_update_replicas iter st = get_l_update_replia_vector iter (rs_base st)"

subsection \<open>Dependencies of commands\<close>

definition update_dependency_cache :: "uint256 \<Rightarrow> (u64 \<times> char) list \<Rightarrow> rashnu_storage \<Rightarrow> rashnu_storage" where
  "update_dependency_cache c d st = st\<lparr>dependency_cache := AList.update c d (dependency_cache st)\<rparr>"

definition get_cmd_dependency :: "uint256 \<Rightarrow> rashnu_storage \<Rightarrow> (u64 \<times> char) list" where
  "get_cmd_dependency c st = (case map_of (dependency_cache st) c of None \<Rightarrow> [] | Some d \<Rightarrow> d)"

definition erase_cmd_dependency :: "uint256 \<Rightarrow> rashnu_storage \<Rightarrow> rashnu_storage" where
  "erase_cmd_dependency c st = st\<lparr>dependency_cache := AList.delete c (dependency_cache st)\<rparr>"

subsection \<open>The queues of local orders\<close>

text \<open>
  The rest of a graph when the commands that \<open>P\<close> holds of have been proposed: an edge to such a command
  is replaced by edges to its successors, whatever these are. A child that is no vertex would be
  entered into the table under the iterator of the loop.
\<close>

definition drop_row :: "uint256 list \<Rightarrow> uint256 graph \<Rightarrow> uint256 list \<Rightarrow> uint256 list" where
  "drop_row keep g tos =
     fold (\<lambda>to row. if to \<notin> set keep then fold set_add (kids g to) row else set_add to row) tos []"

definition drop_proposed :: "(uint256 \<Rightarrow> bool) \<Rightarrow> uint256 graph \<Rightarrow> err + uint256 graph" where
  "drop_proposed P g =
     (let keep = filter (\<lambda>c. \<not> P c) (map fst g)
      in if length keep = length g then Inr g
         else if \<not> (\<forall>(u, tos) \<in> set g. u \<in> set keep \<longrightarrow> set tos \<subseteq> fst ` set g) then Inl Undefined_Behaviour
         else Inr (map (\<lambda>(u, tos). (u, drop_row keep g tos)) (filter (\<lambda>(u, tos). u \<in> set keep) g)))"

definition ra_add_local_order :: "replica_id \<Rightarrow> uint256 graph \<Rightarrow> edge list \<Rightarrow> rashnu_storage \<Rightarrow> (unit, rashnu_storage) res" where
  "ra_add_local_order rid dag l_update st =
     (case drop_proposed (\<lambda>c. ra_is_cmd_proposed c st) dag of
        Inl e \<Rightarrow> Exc e st
      | Inr g \<Rightarrow>
          let st = (if g = [] then st
                else st\<lparr>ordered_dag_cache := AList.update rid (queue_at rid (ordered_dag_cache st) @ [g]) (ordered_dag_cache st)\<rparr>);
              t = rs_base st
          in Ok () (st\<lparr>rs_base := t\<lparr>l_update_cache :=
                 AList.update rid (queue_at rid (l_update_cache t) @ [l_update]) (l_update_cache t)\<rparr>\<rparr>))"

definition add_ordered_dag_to_front :: "replica_id \<Rightarrow> uint256 graph \<Rightarrow> rashnu_storage \<Rightarrow> rashnu_storage" where
  "add_ordered_dag_to_front rid g st =
     st\<lparr>ordered_dag_cache := AList.update rid (g # queue_at rid (ordered_dag_cache st)) (ordered_dag_cache st)\<rparr>"

definition clear_front_ordered_dag :: "replica_id \<Rightarrow> rashnu_storage \<Rightarrow> (unit, rashnu_storage) res" where
  "clear_front_ordered_dag rid st =
     (case pop_queue rid (ordered_dag_cache st) of
        Inl e \<Rightarrow> Exc e st
      | Inr m \<Rightarrow> Ok () (st\<lparr>ordered_dag_cache := m\<rparr>))"

definition ra_get_local_order_cache_size :: "rashnu_storage \<Rightarrow> nat" where
  "ra_get_local_order_cache_size st = length (ordered_dag_cache st)"

definition get_ordered_dag_replicas :: "(replica_id list \<Rightarrow> replica_id list) \<Rightarrow> rashnu_storage \<Rightarrow> replica_id list" where
  "get_ordered_dag_replicas iter st = iter (map fst (ordered_dag_cache st))"

definition get_ordered_dag :: "replica_id \<Rightarrow> rashnu_storage \<Rightarrow> err + uint256 graph" where
  "get_ordered_dag rid st =
     (case queue_at rid (ordered_dag_cache st) of [] \<Rightarrow> Inl Undefined_Behaviour | x # q \<Rightarrow> Inr x)"

end
