(* ===== verification/Rashnu_Order.thy ===== *)
theory Rashnu_Order
  imports Rashnu_Entity
begin

text \<open>
  The ordering of Rashnu (\<open>rashnu/src/consensus.cpp\<close>): \<open>fair_propose\<close> builds a proposal's dependency graph
  and its missing edges from the graphs at the front of the queues. The loops over hash tables run in
  the order that \<open>iters\<close> gives, as for Themis.
\<close>

subsection \<open>The proposal\<close>

definition ra_dependency_graph :: "iters \<Rightarrow> replica_config \<Rightarrow> uint256 graph list \<Rightarrow> uint256 graph" where
  "ra_dependency_graph it cf dags =
     (let counts = it_txs it (tally (concat (map (map fst) dags)));
          g = fold graph_touch (map fst (filter (\<lambda>(c, n). reaches n (non_blank_tx_threshold cf)) counts)) []
      in fold (add_edge (tx_edge_threshold cf)) (it_edges it (tally (concat (map edge_list dags)))) g)"

definition ra_missing :: "iters \<Rightarrow> replica_config \<Rightarrow> uint256 graph list \<Rightarrow> edge list" where
  "ra_missing it cf dags =
     map fst (filter (\<lambda>(e, n). \<not> reaches n (tx_edge_threshold cf) \<and> n > 0)
       (it_edges it (tally (concat (map edge_list dags)))))"

definition ra_solid_txs :: "replica_config \<Rightarrow> uint256 graph list \<Rightarrow> uint256 set" where
  "ra_solid_txs cf dags =
     set (map fst (filter (\<lambda>(c, n). reaches n (solid_tx_threshold cf)) (tally (concat (map (map fst) dags)))))"

definition ra_fair_graph :: "iters \<Rightarrow> replica_config \<Rightarrow> uint256 graph list \<Rightarrow> err + uint256 graph" where
  "ra_fair_graph it cf dags =
     (let g = it_graph it (ra_dependency_graph it cf dags)
      in case get_condensation_graph (it_succs it) g of
           Inl e \<Rightarrow> Inl e
         | Inr sccs \<Rightarrow>
             let (kept, gone) = split_solid (ra_solid_txs cf dags) sccs;
                 preds = (\<lambda>tx. it_succs it tx (get_decendents_from_transposed_graph tx g))
             in Inr (fold (remove_tx preds) (concat gone) g))"

fun dag_fronts :: "replica_id list \<Rightarrow> rashnu_storage \<Rightarrow> err + uint256 graph list" where
  "dag_fronts [] st = Inr []"
| "dag_fronts (r # rs) st =
     (case get_ordered_dag r st of Inl e \<Rightarrow> Inl e | Inr g \<Rightarrow> map_sum id (Cons g) (dag_fronts rs st))"

fun clear_dag_fronts :: "replica_id list \<Rightarrow> rashnu_storage \<Rightarrow> (unit, rashnu_storage) res" where
  "clear_dag_fronts [] st = Ok () st"
| "clear_dag_fronts (r # rs) st = res_bind (clear_front_ordered_dag r st) (\<lambda>u st. clear_dag_fronts rs st)"

definition ra_fair_propose :: "iters \<Rightarrow> replica_config \<Rightarrow> rashnu_storage \<Rightarrow> (uint256 graph \<times> edge list, rashnu_storage) res" where
  "ra_fair_propose it cf st =
     (let replicas = get_ordered_dag_replicas (it_replicas it) st
      in case dag_fronts replicas st of
           Inl e \<Rightarrow> Exc e st
         | Inr dags \<Rightarrow>
             (case ra_fair_graph it cf dags of
                Inl e \<Rightarrow> Exc e st
              | Inr g \<Rightarrow> res_bind (clear_dag_fronts replicas st) (\<lambda>u st. Ok (g, ra_missing it cf dags) st)))"

subsection \<open>The update\<close>

fun ra_update_fronts :: "replica_id list \<Rightarrow> rashnu_storage \<Rightarrow> err + edge list list" where
  "ra_update_fronts [] st = Inr []"
| "ra_update_fronts (r # rs) st =
     (case ra_get_l_update_vector r st of Inl e \<Rightarrow> Inl e | Inr xs \<Rightarrow> map_sum id (Cons xs) (ra_update_fronts rs st))"

fun ra_clear_updates :: "replica_id list \<Rightarrow> rashnu_storage \<Rightarrow> (unit, rashnu_storage) res" where
  "ra_clear_updates [] st = Ok () st"
| "ra_clear_updates (r # rs) st = res_bind (ra_clear_front_l_update r st) (\<lambda>u st. ra_clear_updates rs st)"

definition ra_fair_update :: "iters \<Rightarrow> replica_config \<Rightarrow> rashnu_storage \<Rightarrow> (edge list, rashnu_storage) res" where
  "ra_fair_update it cf st =
     (let replicas = ra_get_l_update_replicas (it_replicas it) st
      in case ra_update_fronts replicas st of
           Inl e \<Rightarrow> Exc e st
         | Inr updates \<Rightarrow> res_bind (ra_clear_updates replicas st) (\<lambda>u st. Ok (update_edges it cf updates) st))"

subsection \<open>The order of a block\<close>

text \<open>
  \<open>fair_finalize_old\<close>, the total order of the sequential variant; \<open>fair_finalize\<close> of the parallel one
  is \<open>fair_finalize_par\<close>.
\<close>

definition fair_finalize_old :: "iters \<Rightarrow> rblock \<Rightarrow> err + uint256 list" where
  "fair_finalize_old it b =
     (if \<not> is_weakly_connected (rb_e_missing b) then Inr []
      else map_sum id concat (get_condensation_graph (it_succs it) (it_graph it (tb_graph b))))"

subsection \<open>Dropping proposed commands\<close>

lemma set_fold_set_add: "set (fold set_add xs row) = set xs \<union> set row"
  by (induction xs arbitrary: row) (auto simp: set_add_def)

lemma distinct_fold_add: "distinct row \<Longrightarrow> distinct (fold set_add xs row)"
  by (induction xs arbitrary: row) (auto simp: set_add_def)

lemma set_drop_row:
  "set (drop_row keep g tos) = {w. w \<in> set tos \<and> w \<in> set keep \<or> (\<exists>to \<in> set tos. to \<notin> set keep \<and> (to, w) \<in> edges g)}"
proof -
  have "set (fold (\<lambda>to row. if to \<notin> set keep then fold set_add (kids g to) row else set_add to row) tos row) =
      set row \<union> {w. w \<in> set tos \<and> w \<in> set keep \<or> (\<exists>to \<in> set tos. to \<notin> set keep \<and> (to, w) \<in> edges g)}" for row
    by (induction tos arbitrary: row) (auto simp: set_fold_set_add edges_kids set_add_def)
  from this [of "[]"] show ?thesis
    by (simp add: drop_row_def)
qed

lemma closed_dst:
  assumes "distinct (map fst g)" and "graph_closed g" and "(u, w) \<in> edges g"
  shows "w \<in> set (map fst g)"
  using assms graph_closed_edges [OF assms(1)] by force

definition unproposed :: "(uint256 \<Rightarrow> bool) \<Rightarrow> uint256 graph \<Rightarrow> uint256 list" where
  "unproposed P g = filter (\<lambda>c. \<not> P c) (map fst g)"

lemma drop_proposed_edges:
  assumes "distinct (map fst g)" and "graph_closed g"
  obtains h where "drop_proposed P g = Inr h" and "map fst h = unproposed P g"
    and "edges h = {(u, w). u \<in> set (unproposed P g) \<and> ((u, w) \<in> edges g \<and> w \<in> set (unproposed P g) \<or>
      (\<exists>to. (u, to) \<in> edges g \<and> to \<notin> set (unproposed P g) \<and> (to, w) \<in> edges g))}"
proof -
  let ?keep = "unproposed P g"
  have keys: "w \<in> set (map fst g)" if "(u, w) \<in> edges g" for u w
    using closed_dst [OF assms that] .
  have src: "u \<in> set (map fst g)" if "(u, w) \<in> edges g" for u w
    using that kids_dom [of w g u] by (simp add: edges_kids)
  show thesis
  proof (cases "length ?keep = length g")
    case True
    then have all: "\<forall>c \<in> set (map fst g). \<not> P c"
      using length_filter_less [of _ "map fst g" "\<lambda>c. \<not> P c"] by (force simp: unproposed_def)
    then have keep: "?keep = map fst g"
      by (simp add: unproposed_def)
    have "drop_proposed P g = Inr g"
      using True by (simp add: drop_proposed_def unproposed_def)
    then show thesis
      by (rule that) (use keys src keep in auto)
  next
    case False
    let ?h = "map (\<lambda>(u, tos). (u, drop_row ?keep g tos)) (filter (\<lambda>(u, tos). u \<in> set ?keep) g)"
    have closed: "\<forall>(u, tos) \<in> set g. u \<in> set ?keep \<longrightarrow> set tos \<subseteq> fst ` set g"
      using assms(2) by (auto simp: graph_closed_def)
    then have res: "drop_proposed P g = Inr ?h"
      using False unfolding drop_proposed_def unproposed_def by (simp add: Let_def)
    have names: "map fst ?h = filter (\<lambda>u. u \<in> set ?keep) (map fst g)"
      by (induction g) (auto simp: filter_map comp_def split_beta)
    then have hkeys: "map fst ?h = ?keep"
      by (auto simp: unproposed_def intro!: filter_cong)
    have row: "kids ?h u = (if u \<in> set ?keep then drop_row ?keep g (kids g u) else [])" for u
    proof -
      have "map_of (map (\<lambda>(u, tos). (u, drop_row K g' tos)) (filter (\<lambda>(u, tos). u \<in> set K) xs)) u =
          (if u \<in> set K then map_option (drop_row K g') (map_of xs u) else None)" for K g' xs
        by (induction xs) auto
      then show ?thesis
        by (auto simp: kids_def drop_row_def split: option.splits)
    qed
    show thesis
    proof (rule that [OF res hkeys])
      show "edges ?h = {(u, w). u \<in> set ?keep \<and> ((u, w) \<in> edges g \<and> w \<in> set ?keep \<or>
        (\<exists>to. (u, to) \<in> edges g \<and> to \<notin> set ?keep \<and> (to, w) \<in> edges g))}"
        unfolding edges_def [of ?h] row by (auto simp: set_drop_row edges_kids)
    qed
  qed
qed

text \<open>
  C39: when no two proposed commands stand next to each other in a local order's graph, dropping them
  leaves exactly the other commands, with the same order between them.
\<close>

theorem drop_proposed_order:
  assumes "distinct (map fst g)" and "graph_closed g" and "\<forall>u w. (u, w) \<in> edges g \<longrightarrow> \<not> (P u \<and> P w)"
  shows "\<exists>h. drop_proposed P g = Inr h \<and> map fst h = filter (\<lambda>c. \<not> P c) (map fst g) \<and> graph_closed h \<and>
    (edges h)\<^sup>+ = {(u, w) \<in> (edges g)\<^sup>+. \<not> P u \<and> \<not> P w}"
proof -
  obtain h where h: "drop_proposed P g = Inr h" "map fst h = unproposed P g"
    "edges h = {(u, w). u \<in> set (unproposed P g) \<and> ((u, w) \<in> edges g \<and> w \<in> set (unproposed P g) \<or>
      (\<exists>to. (u, to) \<in> edges g \<and> to \<notin> set (unproposed P g) \<and> (to, w) \<in> edges g))}"
    using drop_proposed_edges [OF assms(1,2)] .
  have keep: "u \<in> set (unproposed P g) \<longleftrightarrow> u \<in> set (map fst g) \<and> \<not> P u" for u
    by (auto simp: unproposed_def)
  have keys: "u \<in> set (map fst g) \<and> w \<in> set (map fst g)" if "(u, w) \<in> edges g" for u w
    using closed_dst [OF assms(1,2) that] that kids_dom [of w g u] by (simp add: edges_kids)
  have hstep: "(u, w) \<in> edges h \<longleftrightarrow> \<not> P u \<and> \<not> P w \<and> ((u, w) \<in> edges g \<or> (\<exists>to. P to \<and> (u, to) \<in> edges g \<and> (to, w) \<in> edges g))" for u w
    using keys assms(3) unfolding h(3) by (auto simp: keep)
  have out: "(u, w) \<in> (edges g)\<^sup>+ \<and> \<not> P u \<and> \<not> P w" if "(u, w) \<in> (edges h)\<^sup>+" for u w
    using that
  proof (induction rule: trancl_induct)
    case (base w)
    then show ?case by (auto simp: hstep intro: trancl_into_trancl)
  next
    case (step v w)
    have "(v, w) \<in> (edges g)\<^sup>+ \<and> \<not> P w"
      using step.hyps(2) by (auto simp: hstep intro: trancl_into_trancl)
    then show ?case using step.IH by (meson trancl_trans)
  qed
  have into: "(\<not> P w \<longrightarrow> (u, w) \<in> (edges h)\<^sup>+) \<and> (P w \<longrightarrow> (\<exists>x. \<not> P x \<and> (u, x) \<in> (edges h)\<^sup>* \<and> (x, w) \<in> edges g))"
    if "(u, w) \<in> (edges g)\<^sup>+" "\<not> P u" for u w
    using that
  proof (induction rule: trancl_induct)
    case (base w)
    then show ?case by (auto simp: hstep)
  next
    case (step v w)
    show ?case
    proof (cases "P v")
      case True
      then obtain x where x: "\<not> P x" "(u, x) \<in> (edges h)\<^sup>*" "(x, v) \<in> edges g"
        using step by blast
      have "\<not> P w" using True step.hyps(2) assms(3) by blast
      then have "(x, w) \<in> edges h" using x True step.hyps(2) by (auto simp: hstep)
      then show ?thesis using x(2) \<open>\<not> P w\<close> by (auto intro: rtrancl_into_trancl1)
    next
      case False
      then have uv: "(u, v) \<in> (edges h)\<^sup>+" using step by blast
      show ?thesis
      proof (cases "P w")
        case True
        then show ?thesis using False uv step.hyps(2) by (meson trancl_into_rtrancl)
      next
        case w: False
        then have "(v, w) \<in> edges h" using False step.hyps(2) by (simp add: hstep)
        then show ?thesis using uv w by (auto intro: trancl_into_trancl)
      qed
    qed
  qed
  have dh: "distinct (map fst h)"
    unfolding h(2) unproposed_def by (rule distinct_filter [OF assms(1)])
  have "w \<in> set (map fst h)" if "(u, w) \<in> edges h" for u w
    using that assms(3) keys unfolding h(2) keep by (auto simp: hstep)
  then have "graph_closed h"
    using graph_closed_edges [OF dh] by force
  moreover have "(edges h)\<^sup>+ = {(u, w) \<in> (edges g)\<^sup>+. \<not> P u \<and> \<not> P w}"
    using out into by blast
  ultimately show ?thesis
    using h(1,2) unfolding unproposed_def by blast
qed

abbreviation order_chain :: "uint256 graph" where
  "order_chain \<equiv> [(h256 1, [h256 2]), (h256 2, [h256 3]), (h256 3, [h256 4]), (h256 4, [])]"

lemma order_chain_ok: "distinct (map fst order_chain)" "graph_closed order_chain"
  by (simp_all add: graph_closed_def)

lemma order_chain_edges: "edges order_chain = {(h256 1, h256 2), (h256 2, h256 3), (h256 3, h256 4)}"
  by (auto simp: edges_def kids_def split: if_splits)

theorem drop_proposed_order_witness:
  "\<exists>h. drop_proposed (\<lambda>c. c = h256 2 \<or> c = h256 4) order_chain = Inr h \<and> map fst h = [h256 1, h256 3] \<and>
    (h256 1, h256 3) \<in> (edges h)\<^sup>+"
proof -
  let ?P = "\<lambda>c. c = h256 2 \<or> c = h256 4"
  have apart: "\<forall>u w. (u, w) \<in> edges order_chain \<longrightarrow> \<not> (?P u \<and> ?P w)"
    by (simp add: order_chain_edges)
  obtain h where h: "drop_proposed ?P order_chain = Inr h" "map fst h = filter (\<lambda>c. \<not> ?P c) (map fst order_chain)"
    "(edges h)\<^sup>+ = {(u, w) \<in> (edges order_chain)\<^sup>+. \<not> ?P u \<and> \<not> ?P w}"
    using drop_proposed_order [OF order_chain_ok apart] by blast
  have "(h256 1, h256 2) \<in> (edges order_chain)\<^sup>+" "(h256 2, h256 3) \<in> (edges order_chain)\<^sup>+"
    unfolding order_chain_edges by blast+
  then have "(h256 1, h256 3) \<in> (edges order_chain)\<^sup>+" by (rule trancl_trans)
  with h show ?thesis by simp
qed

text \<open>
  Two proposed commands next to each other break the order: the successor of the first one is
  kept as a child although it was proposed and is no vertex, and the commands around the two are not
  ordered any more.
\<close>

lemma drop_adjacent_loses:
  "drop_proposed (\<lambda>c. c = h256 2 \<or> c = h256 3) order_chain = Inr [(h256 1, [h256 3]), (h256 4, [])] \<and>
   (h256 1, h256 4) \<in> (edges order_chain)\<^sup>+ \<and> (h256 1, h256 4) \<notin> (edges [(h256 1, [h256 3]), (h256 4, [])])\<^sup>+"
proof (intro conjI)
  show "drop_proposed (\<lambda>c. c = h256 2 \<or> c = h256 3) order_chain = Inr [(h256 1, [h256 3]), (h256 4, [])]"
    by (simp add: drop_proposed_def drop_row_def kids_def set_add_def)
  have "(h256 1, h256 2) \<in> edges order_chain" "(h256 2, h256 3) \<in> edges order_chain" "(h256 3, h256 4) \<in> edges order_chain"
    unfolding order_chain_edges by blast+
  then show "(h256 1, h256 4) \<in> (edges order_chain)\<^sup>+"
    by (meson r_into_trancl trancl_into_trancl)
  have e: "edges [(h256 1, [h256 3]), (h256 4, [])] = {(h256 1, h256 3)}"
    by (auto simp: edges_def kids_def split: if_splits)
  show "(h256 1, h256 4) \<notin> (edges [(h256 1, [h256 3]), (h256 4, [])])\<^sup>+"
    unfolding e by (auto elim: tranclE)
qed

subsection \<open>Missing edges\<close>

lemma ra_update_graph_missing:
  "fst ` set (tb_graph (ra_update_graph e b)) = fst ` set (tb_graph b) \<and>
   (m \<in> set (rb_e_missing b) \<longrightarrow> fst m \<notin> fst ` set (tb_graph b) \<or> snd m \<notin> fst ` set (tb_graph b) \<longrightarrow>
     m \<in> set (rb_e_missing (ra_update_graph e b)))"
proof -
  have "m \<in> set (erase_first Q xs)" if "m \<in> set xs" "\<not> Q m" for Q and xs :: "edge list"
    using that by (induction xs) auto
  moreover have "\<not> same_pair e m" if "fst e \<in> K" "snd e \<in> K" "fst m \<notin> K \<or> snd m \<notin> K"
    for K :: "uint256 set"
    using that unfolding same_pair_def by metis
  ultimately show ?thesis
    by (simp add: ra_update_graph_def keys_insert insert_absorb) metis
qed

text \<open>
  C38: a missing edge of which an end is no vertex of the block's graph is never taken off the block by
  the updates: the block has no final order, whatever edges are updated, and holds up the blocks after it.
\<close>

theorem foreign_missing_stalls:
  assumes "m \<in> set (rb_e_missing b)" and "fst m \<notin> fst ` set (tb_graph b) \<or> snd m \<notin> fst ` set (tb_graph b)"
  shows "let b' = fold ra_update_graph es b in
    m \<in> set (rb_e_missing b') \<and> fair_finalize_par (tb_graph b') (rb_e_missing b') = [] \<and> fair_finalize_old it b' = Inr []"
proof -
  have "m \<in> set (rb_e_missing (fold ra_update_graph es b))"
    using assms
  proof (induction es arbitrary: b)
    case (Cons e es)
    then show ?case
      using ra_update_graph_missing [of e b m] by (metis fold_simps(2))
  qed simp
  then show ?thesis
    by (auto simp: Let_def fair_finalize_par_def fair_finalize_old_def is_weakly_connected_def)
qed

text \<open>
  Here one of three replicas has seen command 2, after a conflicting command 1: the proposal has the
  vertex 1 and misses the edge to 2, for good.
\<close>

definition example_dags :: rashnu_storage where
  "example_dags = (rashnu_storage_new (h256 0))
     \<lparr>ordered_dag_cache := [(0, [[(h256 1, [h256 2]), (h256 2, [])]]), (1, [[(h256 1, [])]]), (2, [[(h256 1, [])]])]\<rparr>"

theorem foreign_missing_stalls_witness:
  "\<exists>g ms st. ra_fair_propose iters_id example_themis example_dags = Ok (g, ms) st \<and> g = [(h256 1, [])] \<and>
    (let b' = fold ra_update_graph [(h256 1, h256 2)] (rblock_empty\<lparr>tb_graph := g, rb_e_missing := ms\<rparr>)
     in fair_finalize_par (tb_graph b') (rb_e_missing b') = [])"
proof -
  let ?dags = "[[(h256 1, [h256 2]), (h256 2, [])], [(h256 1, [])], [(h256 1, [])]] :: uint256 graph list"
  have g: "ra_dependency_graph iters_id example_themis ?dags = [(h256 1, [])]"
    by (simp add: ra_dependency_graph_def tally_def count_up_def example_themis_def config_new_def reaches_def iters_id_def
      edge_list_def add_edge_def graph_touch_def Let_def)
  have ms: "ra_missing iters_id example_themis ?dags = [(h256 1, h256 2)]"
    by (simp add: ra_missing_def tally_def count_up_def example_themis_def config_new_def reaches_def edge_list_def)
  have solid: "ra_solid_txs example_themis ?dags = {h256 1}"
    by (simp add: ra_solid_txs_def tally_def count_up_def example_themis_def config_new_def reaches_def)
  have sccs: "get_condensation_graph (it_succs iters_id) [(h256 1, [])] = Inr [[h256 1]]"
    by (simp add: get_condensation_graph_def graph_closed_def create_transposed_graph_def graph_touch_def order_by_finish_time_def
        create_order_by_finish_time_def generate_scc_def kids_def Let_def)
  have fair: "ra_fair_graph iters_id example_themis ?dags = Inr [(h256 1, [])]"
    by (simp add: ra_fair_graph_def g sccs solid Let_def)
  have "\<exists>st. ra_fair_propose iters_id example_themis example_dags = Ok ([(h256 1, [])], [(h256 1, h256 2)]) st"
    by (simp add: ra_fair_propose_def get_ordered_dag_replicas_def get_ordered_dag_def example_dags_def queue_at_def fair ms
      clear_front_ordered_dag_def pop_queue_def)
  moreover have "let b' = fold ra_update_graph [(h256 1, h256 2)] (rblock_empty\<lparr>tb_graph := [(h256 1, [])], rb_e_missing := [(h256 1, h256 2)]\<rparr>) in
      (h256 1, h256 2) \<in> set (rb_e_missing b') \<and> fair_finalize_par (tb_graph b') (rb_e_missing b') = [] \<and>
      fair_finalize_old iters_id b' = Inr []"
    by (rule foreign_missing_stalls) simp_all
  ultimately show ?thesis
    unfolding Let_def by blast
qed

end
