(* ===== verification/Rashnu_Core.thy ===== *)
theory Rashnu_Core
  imports Rashnu_Order Core Pool_Ends
begin

text \<open>
  \<open>HotStuffCore\<close> of Rashnu (\<open>rashnu/src/consensus.cpp\<close>, three-step variant): the chain rules of HotStuff over
  blocks that carry dependency graphs. A committed block is executed by the pool of \<open>Thread_Pool\<close>; the
  virtual outputs are recorded in order, as in \<open>Core\<close>.
\<close>

record rashnu_order =
  ro_initiator :: replica_id
  ro_ordered_dag :: "uint256 graph"
  ro_l_update :: "edge list"

datatype rashnu_event =
    R_Decide finality
  | R_Consensus ref
  | R_Broadcast proposal
  | R_Vote replica_id vote
  | R_Send_Local_Order replica_id rashnu_order
  | R_Resolve_QC ref
  | R_Resolve_Propose proposal
  | R_Resolve_Receive_Proposal proposal
  | R_Resolve_Hqc_Update

record rcore =
  rc_heap :: "ref \<Rightarrow> rblock"
  rc_next :: ref
  rc_b0 :: ref
  rc_hqc :: "(ref \<times> quorum_cert) option"
  rc_lock :: ref
  rc_exec :: ref
  rc_vheight :: u32
  rc_tails :: "ref set"
  rc_config :: replica_config
  rc_waiting :: "ref set"
  rc_vote_disabled :: bool
  rc_id :: replica_id
  rc_blk_cache :: "(uint256 \<times> ref) list"
  rc_storage :: rashnu_storage
  rc_events :: "rashnu_event list"

abbreviation rblk :: "rcore \<Rightarrow> ref \<Rightarrow> rblock" where
  "rblk c r \<equiv> rc_heap c r"

definition ra_upd :: "ref \<Rightarrow> (rblock \<Rightarrow> rblock) \<Rightarrow> rcore \<Rightarrow> rcore" where
  "ra_upd r f c = c\<lparr>rc_heap := (rc_heap c)(r := f (rc_heap c r))\<rparr>"

definition ra_emit :: "rashnu_event \<Rightarrow> rcore \<Rightarrow> rcore" where
  "ra_emit e c = c\<lparr>rc_events := rc_events c @ [e]\<rparr>"

text \<open>An operation of the storage, run on the storage of the core.\<close>

definition ra_store :: "(rashnu_storage \<Rightarrow> ('a, rashnu_storage) res) \<Rightarrow> rcore \<Rightarrow> ('a, rcore) res" where
  "ra_store f c = (case f (rc_storage c) of Ok a st \<Rightarrow> Ok a (c\<lparr>rc_storage := st\<rparr>) | Exc e st \<Rightarrow> Exc e (c\<lparr>rc_storage := st\<rparr>))"

subsection \<open>Blocks\<close>

definition ra_find_blk :: "uint256 \<Rightarrow> rcore \<Rightarrow> ref option" where
  "ra_find_blk h c = map_of (rc_blk_cache c) h"

text \<open>\<open>add_blk\<close> of a new block: the block cached under its hash, if there is one, is the result.\<close>

definition ra_add_blk :: "rblock \<Rightarrow> rcore \<Rightarrow> ref \<times> rcore" where
  "ra_add_blk b c =
     (case ra_find_blk (tb_hash b) c of
        Some r \<Rightarrow> (r, c)
      | None \<Rightarrow> (rc_next c, c\<lparr>rc_heap := (rc_heap c)(rc_next c := b), rc_next := rc_next c + 1,
                   rc_blk_cache := map_insert (tb_hash b) (rc_next c) (rc_blk_cache c)\<rparr>))"

definition ra_get_delivered_blk :: "uint256 \<Rightarrow> rcore \<Rightarrow> err + ref" where
  "ra_get_delivered_blk h c =
     (case ra_find_blk h c of
        None \<Rightarrow> Inl (Runtime_Error ''block not delivered'')
      | Some r \<Rightarrow> if tb_delivered (rblk c r) then Inr r else Inl (Runtime_Error ''block not delivered''))"

definition ra_sanity_check_delivered :: "ref \<Rightarrow> rcore \<Rightarrow> (unit, rcore) res" where
  "ra_sanity_check_delivered r c =
     (if tb_delivered (rblk c r) then Ok () c else Exc (Runtime_Error ''block not delivered'') c)"

fun ra_deliver_parents :: "ref \<Rightarrow> uint256 list \<Rightarrow> rcore \<Rightarrow> (unit, rcore) res" where
  "ra_deliver_parents r [] c = Ok () c"
| "ra_deliver_parents r (h # hs) c =
     (case ra_get_delivered_blk h c of
        Inl e \<Rightarrow> Exc e c
      | Inr p \<Rightarrow> ra_deliver_parents r hs (ra_upd r (\<lambda>b. b\<lparr>tb_parents := tb_parents b @ [p]\<rparr>) c))"

definition ra_on_deliver_blk :: "ref \<Rightarrow> rcore \<Rightarrow> (bool, rcore) res" where
  "ra_on_deliver_blk r c =
     (if tb_delivered (rblk c r) then Ok False c
      else res_bind (ra_deliver_parents r (tb_parent_hashes (rblk c r)) (ra_upd r (\<lambda>b. b\<lparr>tb_parents := []\<rparr>) c))
        (\<lambda>u c. case tb_parents (rblk c r) of
           [] \<Rightarrow> Exc Undefined_Behaviour c
         | p # ps \<Rightarrow>
             let c = ra_upd r (\<lambda>b. b\<lparr>tb_height := tb_height (rblk c p) + 1\<rparr>) c;
                 fin = (\<lambda>c. Ok True (ra_upd r (\<lambda>b. b\<lparr>tb_delivered := True\<rparr>)
                   (c\<lparr>rc_tails := insert r (rc_tails c - set (tb_parents (rblk c r)))\<rparr>)))
             in case tb_qc (rblk c r) of
                  None \<Rightarrow> fin c
                | Some qc \<Rightarrow>
                    (case ra_find_blk (qc_get_obj_hash qc) c of
                       None \<Rightarrow> Exc (Runtime_Error ''block referred by qc not fetched'') c
                     | Some q \<Rightarrow> fin (ra_upd r (\<lambda>b. b\<lparr>tb_qc_ref := Some q\<rparr>) c))))"

subsection \<open>The chain rules\<close>

definition ra_update_hqc :: "ref \<Rightarrow> quorum_cert option \<Rightarrow> rcore \<Rightarrow> (unit, rcore) res" where
  "ra_update_hqc r qc c =
     (case rc_hqc c of
        None \<Rightarrow> Exc Undefined_Behaviour c
      | Some (h, old) \<Rightarrow>
          if tb_height (rblk c h) < tb_height (rblk c r) then
            (case qc of
               None \<Rightarrow> Exc Undefined_Behaviour c
             | Some q \<Rightarrow> Ok () (ra_emit R_Resolve_Hqc_Update (c\<lparr>rc_hqc := Some (r, q)\<rparr>)))
          else Ok () c)"

text \<open>The loop \<open>for (b = start; b->height > h; b = b->parents[0])\<close>, as in \<open>Core\<close>.\<close>

fun ra_walk :: "nat \<Rightarrow> (ref \<Rightarrow> rblock) \<Rightarrow> u32 \<Rightarrow> ref \<Rightarrow> err + (ref list \<times> ref)" where
  "ra_walk 0 hp h b = Inl Endless_Loop"
| "ra_walk (Suc n) hp h b =
     (if h < tb_height (hp b) then
        (case tb_parents (hp b) of
           [] \<Rightarrow> Inl Undefined_Behaviour
         | p # _ \<Rightarrow> map_sum id (\<lambda>(bs, e). (b # bs, e)) (ra_walk n hp h p))
      else Inr ([], b))"

definition ra_walk_down :: "(ref \<Rightarrow> rblock) \<Rightarrow> u32 \<Rightarrow> ref \<Rightarrow> err + (ref list \<times> ref)" where
  "ra_walk_down hp h b = ra_walk (unat (tb_height (hp b)) + 1) hp h b"

text \<open>
  The beginning of \<open>update\<close>: every edge of the block's update is entered into the graphs of all
  blocks of its branch that are not executed yet, itself included.
\<close>

fun ra_add_edges :: "edge list \<Rightarrow> ref \<Rightarrow> rcore \<Rightarrow> (unit, rcore) res" where
  "ra_add_edges [] nblk c = Ok () c"
| "ra_add_edges (e # es) nblk c =
     (let c = c\<lparr>rc_storage := ra_remove_missing_edge (fst e) (snd e) (rc_storage c)\<rparr>
      in case ra_walk_down (rc_heap c) (tb_height (rblk c (rc_exec c))) nblk of
           Inl er \<Rightarrow> Exc er c
         | Inr (bs, stop) \<Rightarrow> ra_add_edges es nblk (fold (\<lambda>b. ra_upd b (ra_update_graph e)) bs c))"

fun ra_remove_all_seen :: "uint256 list \<Rightarrow> rcore \<Rightarrow> (unit, rcore) res" where
  "ra_remove_all_seen [] c = Ok () c"
| "ra_remove_all_seen (v # vs) c = res_bind (ra_store (ra_remove_seen_propose_level v) c) (\<lambda>u c. ra_remove_all_seen vs c)"

definition ra_update_graphs :: "ref \<Rightarrow> rcore \<Rightarrow> (unit, rcore) res" where
  "ra_update_graphs nblk c =
     res_bind (ra_add_edges (tb_e_update (rblk c nblk)) nblk c) (\<lambda>u c.
       let c = c\<lparr>rc_storage := fold (\<lambda>(u, v). ra_add_missing_edge u v) (ra_get_missing_edges (rblk c nblk)) (rc_storage c)\<rparr>
       in ra_remove_all_seen (map fst (tb_graph (rblk c nblk))) c)"

text \<open>The loop over the order of a block that is being committed.\<close>

fun ra_decide_cmds :: "ref \<Rightarrow> nat \<Rightarrow> uint256 list \<Rightarrow> rcore \<Rightarrow> (unit, rcore) res" where
  "ra_decide_cmds r i [] c = Ok () c"
| "ra_decide_cmds r i (cmd # cmds) c =
     (let c = ra_emit (R_Decide \<lparr>fin_rid = rc_id c, fin_decision = 1, cmd_idx = of_nat i,
                cmd_height = tb_height (rblk c r), cmd_hash = cmd, fin_blk_hash = tb_hash (rblk c r)\<rparr>) c
      in res_bind (ra_store (ra_remove_seen_execute_level cmd) c) (\<lambda>u c.
           ra_decide_cmds r (i + 1) cmds (c\<lparr>rc_storage := ra_remove_from_proposed cmd (rc_storage c)\<rparr>)))"

text \<open>
  The environment of a pool: the order in which its roots are walked, the first value of \<open>cmd_id\<close>, which
  is not initialised, and the choices of the scheduler. A run that does not join every thread does not return.
\<close>

record pool_env =
  pe_iter :: "uint256 set \<Rightarrow> uint256 list"
  pe_cmd_id :: u32
  pe_choices :: "thread_pool \<Rightarrow> choice list"

definition start_execute_parallel :: "pool_env \<Rightarrow> thread_pool \<Rightarrow> thread_pool option" where
  "start_execute_parallel pe p =
     (case schedule (pe_choices pe p) p of None \<Rightarrow> None | Some s \<Rightarrow> if joined s then Some s else None)"

text \<open>What the threads ask of the core is done in the order in which they ask it.\<close>

fun ra_calls :: "pool_call list \<Rightarrow> rcore \<Rightarrow> (unit, rcore) res" where
  "ra_calls [] c = Ok () c"
| "ra_calls (Call_Decide f # cs) c = ra_calls cs (ra_emit (R_Decide f) c)"
| "ra_calls (Call_Remove_Seen x # cs) c = res_bind (ra_store (ra_remove_seen_execute_level x) c) (\<lambda>u c. ra_calls cs c)"
| "ra_calls (Call_Remove_Proposed x # cs) c = ra_calls cs (c\<lparr>rc_storage := ra_remove_from_proposed x (rc_storage c)\<rparr>)"

definition PARALLEL_EXC :: bool where
  "PARALLEL_EXC = True"

text \<open>
  The execution of one block: in parallel, or in sequence (the branch that \<open>PARALLEL_EXC\<close> switches off).
  \<open>None\<close> is the \<open>break\<close> at a block without a final order.
\<close>

definition ra_commit_par :: "pool_env \<Rightarrow> ref \<Rightarrow> rcore \<Rightarrow> (unit, rcore) res option" where
  "ra_commit_par pe r c =
     (let order = fair_finalize_par (tb_graph (rblk c r)) (rb_e_missing (rblk c r))
      in if order = [] \<and> tb_graph (rblk c r) \<noteq> [] then None
         else
           let c = ra_emit (R_Consensus r) (ra_upd r (\<lambda>b. b\<lparr>tb_decision := 1\<rparr>) c);
               pool = thread_pool_new (pe_iter pe) (pe_cmd_id pe) THREAD_POOL_SIZE order (rc_id c)
                 (tb_height (rblk c r)) (tb_hash (rblk c r))
           in Some (case start_execute_parallel pe pool of
                None \<Rightarrow> Exc Endless_Loop c
              | Some s \<Rightarrow> ra_calls (calls s) c))"

definition ra_commit_seq :: "iters \<Rightarrow> ref \<Rightarrow> rcore \<Rightarrow> (unit, rcore) res option" where
  "ra_commit_seq it r c =
     (case fair_finalize_old it (rblk c r) of
        Inl e \<Rightarrow> Some (Exc e c)
      | Inr order \<Rightarrow>
          if order = [] \<and> tb_graph (rblk c r) \<noteq> [] then None
          else Some (ra_decide_cmds r 0 order (ra_emit (R_Consensus r) (ra_upd r (\<lambda>b. b\<lparr>tb_decision := 1\<rparr>) c))))"

text \<open>The commit loop: it stops, without an error, at the first block that still misses edges.\<close>

fun ra_commit_blks :: "pool_env \<Rightarrow> iters \<Rightarrow> ref list \<Rightarrow> rcore \<Rightarrow> (unit, rcore) res" where
  "ra_commit_blks pe it [] c = Ok () c"
| "ra_commit_blks pe it (r # rs) c =
     (case if PARALLEL_EXC then ra_commit_par pe r c else ra_commit_seq it r c of
        None \<Rightarrow> Ok () c
      | Some x \<Rightarrow> res_bind x (\<lambda>u c. ra_commit_blks pe it rs (c\<lparr>rc_exec := r\<rparr>)))"

definition ra_commit_chain :: "pool_env \<Rightarrow> iters \<Rightarrow> ref \<Rightarrow> rcore \<Rightarrow> (unit, rcore) res" where
  "ra_commit_chain pe it b c =
     (case ra_walk_down (rc_heap c) (tb_height (rblk c (rc_exec c))) b of
        Inl e \<Rightarrow> Exc e c
      | Inr (queue, stop) \<Rightarrow>
          if stop \<noteq> rc_exec c then Exc (Runtime_Error ''safety breached'') c
          else ra_commit_blks pe it (rev queue) c)"

definition ra_first_parent :: "rblock \<Rightarrow> ref option" where
  "ra_first_parent b = (case tb_parents b of [] \<Rightarrow> None | p # _ \<Rightarrow> Some p)"

definition ra_update_commit :: "pool_env \<Rightarrow> iters \<Rightarrow> ref \<Rightarrow> ref \<Rightarrow> rcore \<Rightarrow> (unit, rcore) res" where
  "ra_update_commit pe it blk2 blk1 c =
     (case tb_qc_ref (rblk c blk1) of
        None \<Rightarrow> Ok () c
      | Some b \<Rightarrow>
          if tb_decision (rblk c b) \<noteq> 0 then Ok () c
          else case ra_first_parent (rblk c blk2) of
            None \<Rightarrow> Exc Undefined_Behaviour c
          | Some p2 \<Rightarrow>
              if p2 \<noteq> blk1 then Ok () c
              else case ra_first_parent (rblk c blk1) of
                None \<Rightarrow> Exc Undefined_Behaviour c
              | Some p1 \<Rightarrow> if p1 \<noteq> b then Ok () c else ra_commit_chain pe it b c)"

definition ra_update_lock :: "pool_env \<Rightarrow> iters \<Rightarrow> ref \<Rightarrow> rcore \<Rightarrow> (unit, rcore) res" where
  "ra_update_lock pe it blk2 c =
     (case tb_qc_ref (rblk c blk2) of
        None \<Rightarrow> Ok () c
      | Some blk1 \<Rightarrow>
          if tb_decision (rblk c blk1) \<noteq> 0 then Ok () c
          else ra_update_commit pe it blk2 blk1
            (if tb_height (rblk c (rc_lock c)) < tb_height (rblk c blk1) then c\<lparr>rc_lock := blk1\<rparr> else c))"

definition ra_update :: "pool_env \<Rightarrow> iters \<Rightarrow> ref \<Rightarrow> rcore \<Rightarrow> (unit, rcore) res" where
  "ra_update pe it nblk c =
     res_bind (ra_update_graphs nblk c) (\<lambda>u c.
       case tb_qc_ref (rblk c nblk) of
         None \<Rightarrow> Ok () c
       | Some blk2 \<Rightarrow>
           if tb_decision (rblk c blk2) \<noteq> 0 then Ok () c
           else res_bind (ra_update_hqc blk2 (tb_qc (rblk c nblk)) c) (\<lambda>u c. ra_update_lock pe it blk2 c))"

subsection \<open>Proposals and votes\<close>

definition ra_on_qc_finish :: "ref \<Rightarrow> rcore \<Rightarrow> rcore" where
  "ra_on_qc_finish r c =
     (if r \<in> rc_waiting c then (ra_emit (R_Resolve_QC r) c)\<lparr>rc_waiting := rc_waiting c - {r}\<rparr> else c)"

definition ra_async_qc_finish :: "ref \<Rightarrow> rcore \<Rightarrow> bool \<times> rcore" where
  "ra_async_qc_finish r c =
     (if nmajority (rc_config c) \<le> of_nat (card (tb_voted (rblk c r))) then (True, c)
      else (False, c\<lparr>rc_waiting := insert r (rc_waiting c)\<rparr>))"

definition ra_vote_opinion :: "ref \<Rightarrow> rcore \<Rightarrow> (bool, rcore) res" where
  "ra_vote_opinion r c =
     (if rc_vheight c < tb_height (rblk c r) then
        if (case tb_qc_ref (rblk c r) of Some q \<Rightarrow> tb_height (rblk c (rc_lock c)) < tb_height (rblk c q) | None \<Rightarrow> False)
        then Ok True (c\<lparr>rc_vheight := tb_height (rblk c r)\<rparr>)
        else (case ra_walk_down (rc_heap c) (tb_height (rblk c (rc_lock c))) r of
                Inl e \<Rightarrow> Exc e c
              | Inr (bs, b) \<Rightarrow>
                  if b = rc_lock c then Ok True (c\<lparr>rc_vheight := tb_height (rblk c r)\<rparr>) else Ok False c)
      else Ok False c)"

definition ra_on_receive_proposal :: "env \<Rightarrow> pool_env \<Rightarrow> iters \<Rightarrow> proposal \<Rightarrow> rcore \<Rightarrow> (unit, rcore) res" where
  "ra_on_receive_proposal e pe it prop c =
     (let self_prop = (prop_proposer prop = rc_id c); bnew = prop_blk prop
      in res_bind (if self_prop then Ok () c
           else res_bind (ra_sanity_check_delivered bnew c) (\<lambda>u c. ra_update pe it bnew c))
         (\<lambda>u c. res_bind (ra_vote_opinion bnew c) (\<lambda>opinion c.
           let c = (case tb_qc_ref (rblk c bnew) of
                      Some q \<Rightarrow> if self_prop then c else ra_on_qc_finish q c
                    | None \<Rightarrow> c);
               c = ra_emit (R_Resolve_Receive_Proposal prop) c
           in if opinion \<and> \<not> rc_vote_disabled c
              then Ok () (ra_emit (R_Vote (prop_proposer prop)
                     \<lparr>voter = rc_id c, vote_blk_hash = tb_hash (rblk c bnew),
                      vote_cert = create_part_cert e (tb_hash (rblk c bnew))\<rparr>) c)
              else Ok () c)))"

text \<open>The broadcast comes last: the block that is sent is the one that \<open>update\<close> has changed.\<close>

definition ra_on_propose :: "env \<Rightarrow> pool_env \<Rightarrow> iters \<Rightarrow> uint256 graph \<Rightarrow> edge list \<Rightarrow> edge list \<Rightarrow> ref list \<Rightarrow> bytes \<Rightarrow>
    rcore \<Rightarrow> (ref, rcore) res" where
  "ra_on_propose e pe it g ms es ps ex c =
     (case ps of
        [] \<Rightarrow> Exc (Runtime_Error ''empty parents'') c
      | p # _ \<Rightarrow>
          let c = c\<lparr>rc_tails := rc_tails c - set ps\<rparr>
          in case rc_hqc c of
               None \<Rightarrow> Exc Undefined_Behaviour c
             | Some (h, qc) \<Rightarrow>
                 (case rblock_make (e_sha e) (rc_heap c) ps g ms es qc ex (tb_height (rblk c p) + 1) (Some h) None 0 of
                    Inl er \<Rightarrow> Exc er c
                  | Inr b \<Rightarrow>
                      let (bnew, c) = ra_add_blk b c;
                          c = ra_upd bnew (\<lambda>b. b\<lparr>tb_self_qc :=
                                Some (create_quorum_cert (e_mem e) (rc_config c) (tb_hash b))\<rparr>) c;
                          prop = \<lparr>prop_proposer = rc_id c, prop_blk = bnew\<rparr>
                      in res_bind (ra_on_deliver_blk bnew c) (\<lambda>d c.
                         res_bind (ra_update pe it bnew c) (\<lambda>u c.
                           if tb_height (rblk c bnew) \<le> rc_vheight c
                           then Exc (Runtime_Error ''new block should be higher than vheight'') c
                           else res_bind (ra_on_receive_proposal e pe it prop c) (\<lambda>u c.
                             Ok bnew (ra_emit (R_Broadcast prop) (ra_emit (R_Resolve_Propose prop) c)))))))"

definition ra_on_receive_vote :: "env \<Rightarrow> vote \<Rightarrow> rcore \<Rightarrow> (unit, rcore) res" where
  "ra_on_receive_vote e v c =
     (case ra_get_delivered_blk (vote_blk_hash v) c of
        Inl er \<Rightarrow> Exc er c
      | Inr r \<Rightarrow>
          let qsize = of_nat (card (tb_voted (rblk c r))) :: u64
          in if nmajority (rc_config c) \<le> qsize then Ok () c
             else if voter v \<in> tb_voted (rblk c r) then Ok () c
             else
               let c = ra_upd r (\<lambda>b. b\<lparr>tb_voted := insert (voter v) (tb_voted b)\<rparr>) c;
                   qc = (case tb_self_qc (rblk c r) of
                           None \<Rightarrow> create_quorum_cert (e_mem e) (rc_config c) (tb_hash (rblk c r))
                         | Some qc \<Rightarrow> qc)
               in case qc_add_part (voter v) (vote_cert v) qc of
                    Exc er qc \<Rightarrow> Exc er (ra_upd r (\<lambda>b. b\<lparr>tb_self_qc := Some qc\<rparr>) c)
                  | Ok u qc \<Rightarrow>
                      let c = ra_upd r (\<lambda>b. b\<lparr>tb_self_qc := Some qc\<rparr>) c
                      in if qsize + 1 = nmajority (rc_config c)
                         then res_bind (ra_update_hqc r (Some qc) c) (\<lambda>u c. Ok () (ra_on_qc_finish r c))
                         else Ok () c)"

subsection \<open>Local orders\<close>

definition local_dag :: "uint256 list \<Rightarrow> rashnu_storage \<Rightarrow> uint256 graph" where
  "local_dag cmds st = create_dag (fold (\<lambda>x. add_dependency x (get_cmd_dependency x st)) cmds (dag_new cmds))"

definition ra_on_local_order :: "replica_id \<Rightarrow> uint256 list \<Rightarrow> rcore \<Rightarrow> (unit, rcore) res" where
  "ra_on_local_order proposer cmds c =
     res_bind (ra_store (ra_update_all_seen cmds) c) (\<lambda>u c.
     res_bind (ra_store ra_get_updated_missing_edges c) (\<lambda>l_update c.
       if cmds = [] \<and> l_update = [] then Ok () c
       else Ok () (ra_emit (R_Send_Local_Order proposer
              \<lparr>ro_initiator = rc_id c, ro_ordered_dag = local_dag cmds (rc_storage c), ro_l_update = l_update\<rparr>) c)))"

definition ra_reorder :: "replica_id \<Rightarrow> rcore \<Rightarrow> (unit, rcore) res" where
  "ra_reorder proposer c = ra_on_local_order proposer [] c"

text \<open>The loop that drops from the front of each queue what has been proposed since.\<close>

fun ra_refresh_fronts :: "replica_id list \<Rightarrow> rashnu_storage \<Rightarrow> (unit, rashnu_storage) res" where
  "ra_refresh_fronts [] st = Ok () st"
| "ra_refresh_fronts (r # rs) st =
     (case get_ordered_dag r st of
        Inl e \<Rightarrow> Exc e st
      | Inr g \<Rightarrow>
          let keep = filter (\<lambda>x. \<not> ra_is_cmd_proposed x st) (map fst g)
          in if length keep < length g
             then if keep = [] then res_bind (clear_front_ordered_dag r st) (\<lambda>u st. ra_refresh_fronts rs st)
               else (case drop_proposed (\<lambda>x. ra_is_cmd_proposed x st) g of
                       Inl e \<Rightarrow> Exc e st
                     | Inr g' \<Rightarrow> res_bind (clear_front_ordered_dag r st) (\<lambda>u st.
                         ra_refresh_fronts rs (add_ordered_dag_to_front r g' st)))
             else ra_refresh_fronts rs st)"

definition ra_on_receive_local_order :: "iters \<Rightarrow> rashnu_order \<Rightarrow> rcore \<Rightarrow> (bool, rcore) res" where
  "ra_on_receive_local_order it lo c =
     res_bind (ra_store (ra_add_local_order (ro_initiator lo) (ro_ordered_dag lo) (ro_l_update lo)) c) (\<lambda>u c.
       let enough = (\<lambda>c. nmajority (rc_config c) \<le> of_nat (ra_get_local_order_cache_size (rc_storage c)))
       in if enough c
          then res_bind (ra_store (ra_refresh_fronts (get_ordered_dag_replicas (it_replicas it) (rc_storage c))) c)
            (\<lambda>u c. Ok (enough c) c)
          else Ok False c)"

text \<open>
  \<open>process_local_order\<close> of \<open>HotStuffBase\<close>: when a quorum of local orders is there, the graph, the missing edges and
  the updates of the next proposal. The pacemaker gives them to \<open>on_propose\<close> when it is this replica's turn.
\<close>

definition ra_process_local_order :: "iters \<Rightarrow> rashnu_order \<Rightarrow> rcore \<Rightarrow> ((uint256 graph \<times> edge list \<times> edge list) option, rcore) res" where
  "ra_process_local_order it lo c =
     res_bind (ra_on_receive_local_order it lo c) (\<lambda>enough c.
       if \<not> enough then Ok None c
       else
         res_bind (ra_store (ra_fair_propose it (rc_config c)) c) (\<lambda>(g, ms) c.
         res_bind (ra_store (ra_fair_update it (rc_config c)) c) (\<lambda>es c.
           Ok (Some (g, ms, es)) (c\<lparr>rc_storage := fold ra_add_to_proposed (map fst g) (rc_storage c)\<rparr>))))"

subsection \<open>The codec of a local order\<close>

definition ra_order_serialize :: "rashnu_order \<Rightarrow> data_stream \<Rightarrow> (unit, data_stream) res" where
  "ra_order_serialize lo s =
     res_bind (gfc_serialize (ro_ordered_dag lo) (ds_put (ro_initiator lo) s)) (\<lambda>u s.
       Ok () (put_vec edge_serialize (ro_l_update lo) s))"

definition ra_order_unserialize :: "data_stream \<Rightarrow> (rashnu_order, data_stream) res" where
  "ra_order_unserialize s =
     res_bind (ds_get s) (\<lambda>rid s. res_bind (gfc_unserialize s) (\<lambda>g s.
     res_bind (get_vec edge_unserialize s) (\<lambda>es s.
       Ok \<lparr>ro_initiator = rid, ro_ordered_dag = g, ro_l_update = es\<rparr> s)))"

subsection \<open>Start\<close>

definition rblock_genesis :: "(bytes \<Rightarrow> uint256) \<Rightarrow> bool \<Rightarrow> u8 \<Rightarrow> err + rblock" where
  "rblock_genesis sha dlv dec =
     (let b = rblock_empty\<lparr>tb_qc := Some (QuorumCertDummy 0), tb_delivered := dlv, tb_decision := dec\<rparr>
      in map_sum id (\<lambda>h. b\<lparr>tb_hash := h\<rparr>) (rblock_get_hash sha b))"

definition ra_core_new :: "env \<Rightarrow> uint256 \<Rightarrow> replica_id \<Rightarrow> err + rcore" where
  "ra_core_new e h0 rid =
     map_sum id (\<lambda>g.
       \<lparr>rc_heap = (\<lambda>_. rblock_empty)(0 := g), rc_next = 1, rc_b0 = 0, rc_hqc = None, rc_lock = 0, rc_exec = 0,
        rc_vheight = 0, rc_tails = {0}, rc_config = config_new, rc_waiting = {}, rc_vote_disabled = False,
        rc_id = rid, rc_blk_cache = [(tb_hash g, 0)], rc_storage = rashnu_storage_new h0, rc_events = []\<rparr>)
     (rblock_genesis (e_sha e) True 1)"

definition ra_on_init :: "env \<Rightarrow> u32 \<Rightarrow> real \<Rightarrow> rcore \<Rightarrow> rcore" where
  "ra_on_init e nfaulty fair c =
     (let cf = (rc_config c)\<lparr>nmajority := nreplicas (rc_config c) - ucast nfaulty, fairness_parameter := fair\<rparr>;
          cf = cf\<lparr>solid_tx_threshold := get_solid_tx_threshold cf\<rparr>;
          cf = cf\<lparr>non_blank_tx_threshold := get_non_blank_tx_threshold cf\<rparr>;
          cf = cf\<lparr>tx_edge_threshold := get_tx_edge_threshold cf\<rparr>;
          qc = create_quorum_cert (e_mem e) cf (tb_hash (rblk c (rc_b0 c)))
      in (ra_upd (rc_b0 c) (\<lambda>b. b\<lparr>tb_qc := Some qc, tb_self_qc := Some qc, tb_qc_ref := Some (rc_b0 c)\<rparr>) c)
           \<lparr>rc_config := cf, rc_hqc := Some (rc_b0 c, qc)\<rparr>)"

definition ra_add_replica :: "replica_id \<Rightarrow> peer_id \<Rightarrow> pubkey \<Rightarrow> rcore \<Rightarrow> rcore" where
  "ra_add_replica rid peer pk c =
     ra_upd (rc_b0 c) (\<lambda>b. b\<lparr>tb_voted := insert rid (tb_voted b)\<rparr>)
       (c\<lparr>rc_config := config_add_replica rid \<lparr>ri_id = rid, ri_peer_id = peer, ri_pubkey = pk\<rparr> (rc_config c)\<rparr>)"


end
