(* ===== verification/Rashnu_Commit.thy ===== *)
theory Rashnu_Commit
  imports Rashnu_Core
begin

text \<open>What the commit rule of Rashnu does with the blocks of a chain.\<close>

subsection \<open>One block\<close>

definition decided :: "rashnu_event list \<Rightarrow> uint256 list" where
  "decided es = concat (map (\<lambda>e. case e of R_Decide f \<Rightarrow> [cmd_hash f] | _ \<Rightarrow> []) es)"

lemma decided_simps [simp]:
  "decided [] = []" "decided (xs @ ys) = decided xs @ decided ys" "decided [R_Decide f] = [cmd_hash f]"
  "decided [R_Consensus r] = []"
  by (simp_all add: decided_def)

lemma ra_store_Ok: "ra_store f c = Ok a c' \<longleftrightarrow> (\<exists>st. f (rc_storage c) = Ok a st \<and> c' = c\<lparr>rc_storage := st\<rparr>)"
  by (auto simp: ra_store_def split: res.splits)

lemma ra_calls_events:
  "ra_calls cs c = Ok u c' \<Longrightarrow> rc_heap c' = rc_heap c \<and>
     decided (rc_events c') = decided (rc_events c) @ concat (map (\<lambda>c. case c of Call_Decide f \<Rightarrow> [cmd_hash f] | _ \<Rightarrow> []) cs)"
  by (induction cs c rule: ra_calls.induct) (auto simp: ra_emit_def ra_store_Ok elim!: res_bind_OkE)

text \<open>What a run that returns has executed: an order of the graph, all of it when the graph has no cycle.\<close>

definition execution_of :: "uint256 graph \<Rightarrow> uint256 list \<Rightarrow> bool" where
  "execution_of g xs \<longleftrightarrow> schedule_order g xs \<and> set xs \<subseteq> fst ` set g \<and> (acyclic (edges g) \<longrightarrow> set xs = fst ` set g) \<and>
     (\<forall>u v. (u, u) \<in> (edges g)\<^sup>+ \<and> (u, v) \<in> (edges g)\<^sup>* \<longrightarrow> v \<notin> set xs)"

lemma joined_execution:
  assumes "schedule cs (thread_pool_new iter cid n g rid hgt bh) = Some s" and "joined s"
    and "good_graph g" and "good_iter iter" and "0 < n" and "length g \<le> 2 ^ 64"
  shows "execution_of g (executed s)"
proof -
  have stuck: "stuck s"
    using assms(2) by (intro asleep_stuck) (auto simp: joined_def)
  have inv: "settled g s"
    by (rule settled_schedule(1) [OF assms(1,3-6)])
  have sub: "set (executed s) \<subseteq> fst ` set g"
    using inv executed_inside by (simp add: settled_def)
  have "set (executed s) = fst ` set g" if "acyclic (edges g)"
  proof (cases "g = []")
    case False
    then show ?thesis
      using stuck_complete(2) [OF inv stuck assms(3) that] settled_schedule(2) [OF assms(1,3-6) that] by blast
  qed (use sub in simp)
  then show ?thesis
    using order_schedule [OF assms(1,3,4)] cycle_not_executed sub unfolding execution_of_def by blast
qed

definition executable :: "rblock \<Rightarrow> bool" where
  "executable b \<longleftrightarrow> good_graph (tb_graph b) \<and> length (tb_graph b) \<le> 2 ^ 64"

lemma ra_commit_par_Ok:
  assumes "ra_commit_par pe r c = Some (Ok u d)" and "executable (rblk c r)" and "good_iter (pe_iter pe)"
  shows "rb_e_missing (rblk c r) = [] \<or> tb_graph (rblk c r) = []"
    and "rc_heap d = (rc_heap c)(r := (rblk c r)\<lparr>tb_decision := 1\<rparr>)"
    and "\<exists>xs. decided (rc_events d) = decided (rc_events c) @ xs \<and> execution_of (tb_graph (rblk c r)) xs"
proof -
  let ?g = "tb_graph (rblk c r)"
  let ?o = "fair_finalize_par ?g (rb_e_missing (rblk c r))"
  let ?c = "ra_emit (R_Consensus r) (ra_upd r (\<lambda>b. b\<lparr>tb_decision := 1\<rparr>) c)"
  let ?p = "thread_pool_new (pe_iter pe) (pe_cmd_id pe) THREAD_POOL_SIZE ?o (rc_id ?c) (tb_height (rblk ?c r)) (tb_hash (rblk ?c r))"
  have go: "\<not> (?o = [] \<and> ?g \<noteq> [])"
    using assms(1) by (auto simp: ra_commit_par_def Let_def split: if_splits)
  then have o: "?o = ?g"
    by (auto simp: fair_finalize_par_def)
  show "rb_e_missing (rblk c r) = [] \<or> ?g = []"
    using go by (auto simp: fair_finalize_par_def is_weakly_connected_def split: if_splits)
  have "(case start_execute_parallel pe ?p of None \<Rightarrow> Exc Endless_Loop ?c | Some s \<Rightarrow> ra_calls (calls s) ?c) = Ok u d"
    using assms(1) go unfolding ra_commit_par_def Let_def by (simp split: if_splits)
  then obtain s where s: "start_execute_parallel pe ?p = Some s" "ra_calls (calls s) ?c = Ok u d"
    by (auto split: option.splits)
  then have run: "schedule (pe_choices pe ?p) ?p = Some s" "joined s"
    by (auto simp: start_execute_parallel_def split: option.splits if_splits)
  note d = ra_calls_events [OF s(2)]
  show "rc_heap d = (rc_heap c)(r := (rblk c r)\<lparr>tb_decision := 1\<rparr>)"
    using d by (simp add: ra_emit_def ra_upd_def)
  have "execution_of ?g (executed s)"
    using joined_execution [OF run(1)] run(2) assms(2,3) unfolding o executable_def THREAD_POOL_SIZE_def by simp
  moreover have "decided (rc_events d) = decided (rc_events c) @ executed s"
    using d by (simp add: ra_emit_def ra_upd_def executed_def)
  ultimately show "\<exists>xs. decided (rc_events d) = decided (rc_events c) @ xs \<and> execution_of ?g xs"
    by blast
qed

subsection \<open>The loop\<close>

text \<open>
  C36: the loop commits a prefix of the blocks it is given, oldest first, and stops at the first block
  that misses edges; the commands it has decided for a block are distinct commands of the block's
  graph, each after its predecessors, and all of them when the graph has no cycle, whatever the
  scheduler; a command on a cycle of the graph or behind one is not decided, though its block is committed.
\<close>

theorem rashnu_commit:
  assumes "ra_commit_blks pe it rs c = Ok u c'" and "distinct rs"
    and "list_all (\<lambda>r. executable (rblk c r)) rs" and "good_iter (pe_iter pe)"
  shows "\<exists>done rest orders. rs = done @ rest \<and> list_all2 (\<lambda>r xs. execution_of (tb_graph (rblk c r)) xs) done orders \<and>
    decided (rc_events c') = decided (rc_events c) @ concat orders \<and> rc_exec c' = last (rc_exec c # done) \<and>
    (\<forall>r. rblk c' r = (if r \<in> set done then (rblk c r)\<lparr>tb_decision := 1\<rparr> else rblk c r)) \<and>
    (rest \<noteq> [] \<longrightarrow> rb_e_missing (rblk c (hd rest)) \<noteq> [] \<and> tb_graph (rblk c (hd rest)) \<noteq> [])"
  using assms
proof (induction rs arbitrary: c)
  case Nil
  then show ?case by (intro exI [of _ "[]"]) simp
next
  case (Cons r rs)
  show ?case
  proof (cases "ra_commit_par pe r c")
    case None
    then have "c' = c" and "rb_e_missing (rblk c r) \<noteq> [] \<and> tb_graph (rblk c r) \<noteq> []"
      using Cons.prems(1) by (auto simp: PARALLEL_EXC_def ra_commit_par_def fair_finalize_par_def is_weakly_connected_def Let_def
          split: if_splits)
    then show ?thesis
      by (intro exI [of _ "[]"] exI [of _ "r # rs"]) simp
  next
    case (Some x)
    then obtain v d where x: "x = Ok v d" and rest: "ra_commit_blks pe it rs (d\<lparr>rc_exec := r\<rparr>) = Ok u c'"
      using Cons.prems(1) by (auto simp: PARALLEL_EXC_def elim!: res_bind_OkE)
    have ex: "executable (rblk c r)" using Cons.prems(3) by simp
    note d = ra_commit_par_Ok [OF Some [unfolded x] ex Cons.prems(4)]
    have same: "rblk d q = rblk c q" if "q \<in> set rs" for q
      using d(2) that Cons.prems(2) by auto
    have "list_all (\<lambda>r. executable (rblk (d\<lparr>rc_exec := r'\<rparr>) r)) rs" for r'
      using Cons.prems(3) same by (auto simp: list_all_iff)
    note ih = Cons.IH [OF rest _ this Cons.prems(4)]
    obtain dn rst ords where ih: "rs = dn @ rst" "list_all2 (\<lambda>r xs. execution_of (tb_graph (rblk d r)) xs) dn ords"
      "decided (rc_events c') = decided (rc_events d) @ concat ords" "rc_exec c' = last (r # dn)"
      "\<forall>q. rblk c' q = (if q \<in> set dn then (rblk d q)\<lparr>tb_decision := 1\<rparr> else rblk d q)"
      "rst \<noteq> [] \<longrightarrow> rb_e_missing (rblk d (hd rst)) \<noteq> [] \<and> tb_graph (rblk d (hd rst)) \<noteq> []"
      using ih Cons.prems(2) unfolding rcore.simps by force
    obtain xs where xs: "decided (rc_events d) = decided (rc_events c) @ xs" "execution_of (tb_graph (rblk c r)) xs"
      using d(3) by blast
    have "list_all2 (\<lambda>r xs. execution_of (tb_graph (rblk c r)) xs) dn ords"
      using ih(1,2) same by (auto simp: list_all2_conv_all_nth)
    moreover have "rblk c' q = (if q \<in> set (r # dn) then (rblk c q)\<lparr>tb_decision := 1\<rparr> else rblk c q)" for q
      using ih(1,5) same [of q] d(2) Cons.prems(2) by auto
    moreover have "rst \<noteq> [] \<longrightarrow> rb_e_missing (rblk c (hd rst)) \<noteq> [] \<and> tb_graph (rblk c (hd rst)) \<noteq> []"
      using ih(1,6) same [of "hd rst"] by (cases rst) auto
    ultimately show ?thesis
      using ih(1,3,4) xs by (intro exI [of _ "r # dn"] exI [of _ rst] exI [of _ "xs # ords"]) simp
  qed
qed

text \<open>A block whose graph has a Condorcet cycle of three commands, beside a command of its own.\<close>

abbreviation condorcet_graph :: "uint256 graph" where
  "condorcet_graph \<equiv> [(h256 1, [h256 2]), (h256 2, [h256 3]), (h256 3, [h256 1]), (h256 4, [])]"

definition example_rcore :: rcore where
  "example_rcore =
     \<lparr>rc_heap = (\<lambda>_. rblock_empty)(2 := rblock_empty\<lparr>tb_parents := [0], tb_height := 1, tb_graph := condorcet_graph\<rparr>),
      rc_next = 3, rc_b0 = 0, rc_hqc = None, rc_lock = 0, rc_exec = 0, rc_vheight = 0, rc_tails = {2},
      rc_config = example_themis, rc_waiting = {}, rc_vote_disabled = False, rc_id = 0, rc_blk_cache = [],
      rc_storage = rashnu_storage_new (h256 0), rc_events = []\<rparr>"

definition example_env :: pool_env where
  "example_env = \<lparr>pe_iter = sorted_list_of_set, pe_cmd_id = 0,
     pe_choices = \<lambda>p. replicate 13 (Step 0 0) @ map (\<lambda>i. Step i 0) [1..<20]\<rparr>"

lemma condorcet_pool:
  "thread_pool_new sorted_list_of_set 0 THREAD_POOL_SIZE condorcet_graph 0 1 0 =
     \<lparr>tp_rid = 0, tp_cmd_id = 0, tp_cmd_height = 1, tp_blk_hash = 0, tp_graph = condorcet_graph,
      tp_incoming = [(h256 1, 1), (h256 2, 1), (h256 3, 1), (h256 4, 0)], tp_leaf_count = 1, d_queue = [h256 4], terminate = False,
      workers = replicate 20 Loop, calls = []\<rparr>"
proof -
  have "{x. (x = (h256 1, Suc 0) \<or> x = (h256 2, Suc 0) \<or> x = (h256 3, Suc 0) \<or> x = (h256 4, 0)) \<and>
      (case x of (v, k) \<Rightarrow> k = 0)} = {(h256 4, 0)}" by auto
  then show ?thesis
    by (simp add: thread_pool_new_def graph_operation_new_def get_roots_def get_incoming_count_def get_leaf_count_def
      incr_def THREAD_POOL_SIZE_def Let_def)
qed

abbreviation condorcet_run :: thread_pool where
  "condorcet_run \<equiv> \<lparr>tp_rid = 0, tp_cmd_id = 1, tp_cmd_height = 1, tp_blk_hash = 0, tp_graph = condorcet_graph,
      tp_incoming = [(h256 1, 1), (h256 2, 1), (h256 3, 1), (h256 4, 0)], tp_leaf_count = 0, d_queue = [], terminate = True,
      workers = replicate 20 Done,
      calls = [Call_Decide \<lparr>fin_rid = 0, fin_decision = 1, cmd_idx = 0, cmd_height = 1, cmd_hash = h256 4, fin_blk_hash = 0\<rparr>,
               Call_Remove_Seen (h256 4), Call_Remove_Proposed (h256 4)]\<rparr>"

lemma condorcet_schedule:
  "start_execute_parallel example_env (thread_pool_new sorted_list_of_set 0 THREAD_POOL_SIZE condorcet_graph 0 1 0) = Some condorcet_run"
proof -
  have ws: "replicate 20 w = [w, w, w, w, w, w, w, w, w, w, w, w, w, w, w, w, w, w, w, w]" for w :: worker
    by (simp add: numeral_eq_Suc)
  have cs: "replicate 13 c = [c, c, c, c, c, c, c, c, c, c, c, c, c]" for c :: choice
    by (simp add: numeral_eq_Suc)
  show ?thesis
    unfolding condorcet_pool start_execute_parallel_def example_env_def ws cs
    by (simp add: upt_rec goto_def bq_pop_def mtx_free_def mtx_leaf_count_free_def notify_all_def
      incoming_def kids_def joined_def Let_def)
qed

lemma example_executable: "executable (rblk example_rcore 2)"
  by (simp add: executable_def example_rcore_def good_graph_def graph_closed_def)

text \<open>The block is committed with one of its four commands.\<close>

theorem rashnu_commit_witness:
  "\<exists>c'. ra_commit_blks example_env iters_id [2] example_rcore = Ok () c' \<and> rc_exec c' = 2 \<and>
    decided (rc_events c') = [h256 4] \<and> tb_decision (rblk c' 2) = 1"
proof -
  have b: "tb_graph (rblk example_rcore 2) = condorcet_graph" "rb_e_missing (rblk example_rcore 2) = []"
    by (simp_all add: example_rcore_def rblock_empty_def tblock.defs)
  let ?c = "ra_emit (R_Consensus 2) (ra_upd 2 (\<lambda>b. b\<lparr>tb_decision := 1\<rparr>) example_rcore)"
  have c: "rc_id ?c = 0" "tb_height (rblk ?c 2) = 1" "tb_hash (rblk ?c 2) = 0" "rc_events example_rcore = []"
    by (simp_all add: example_rcore_def ra_emit_def ra_upd_def rblock_empty_def tblock_empty_def tblock.defs)
  have env: "pe_iter example_env = sorted_list_of_set" "pe_cmd_id example_env = 0"
    by (simp_all add: example_env_def)
  have par: "ra_commit_par example_env 2 example_rcore = Some (ra_calls (calls condorcet_run) ?c)"
    by (simp add: ra_commit_par_def b fair_finalize_par_def is_weakly_connected_def Let_def c env condorcet_schedule)
  have "linked_cache (local_order_seen_execute_level_cache (rs_base (rc_storage (ra_emit ev ?c)))) = []" for ev
    by (simp add: example_rcore_def ra_emit_def ra_upd_def rashnu_storage_new_def themis_storage_new_def list_new_def
        set_prev_def set_next_def)
  then have "\<exists>d. ra_calls (calls condorcet_run) ?c = Ok () d"
    by (simp add: ra_store_def ra_remove_seen_execute_level_def on_base_def t_remove_seen_execute_level_def remove_cmd_def)
  then have "\<exists>c'. ra_commit_blks example_env iters_id [2] example_rcore = Ok () c'"
    using par by (auto simp: PARALLEL_EXC_def)
  then obtain c' where c': "ra_commit_blks example_env iters_id [2] example_rcore = Ok () c'" by blast
  obtain fin rest orders where r: "[2] = fin @ rest"
    "list_all2 (\<lambda>r xs. execution_of (tb_graph (rblk example_rcore r)) xs) fin orders"
    "decided (rc_events c') = decided (rc_events example_rcore) @ concat orders" "rc_exec c' = last (rc_exec example_rcore # fin)"
    "\<forall>r. rblk c' r = (if r \<in> set fin then (rblk example_rcore r)\<lparr>tb_decision := 1\<rparr> else rblk example_rcore r)"
    "rest \<noteq> [] \<longrightarrow> rb_e_missing (rblk example_rcore (hd rest)) \<noteq> []"
    using rashnu_commit [OF c'] example_executable by (auto simp: env good_iter_def)
  have "rest = []" using r(1,6) b(2) by (cases rest) (auto simp: Cons_eq_append_conv)
  then obtain xs where xs: "fin = [2]" "orders = [xs]" "execution_of condorcet_graph xs"
    using r(1,2) b(1) by (auto simp: list_all2_Cons1)
  have "v \<notin> set xs" if "v = h256 1 \<or> v = h256 2 \<or> v = h256 3" for v
  proof -
    have "(h256 1, h256 2) \<in> edges condorcet_graph" "(h256 2, h256 3) \<in> edges condorcet_graph" "(h256 3, h256 1) \<in> edges condorcet_graph"
      by (simp_all add: edges_def kids_def)
    then have "(h256 1, h256 1) \<in> (edges condorcet_graph)\<^sup>+" "(h256 1, v) \<in> (edges condorcet_graph)\<^sup>*"
      using that by (meson r_into_trancl trancl_into_trancl r_into_rtrancl rtrancl.rtrancl_refl rtrancl.rtrancl_into_rtrancl)+
    then show ?thesis using xs(3) unfolding execution_of_def by blast
  qed
  moreover have "set xs \<subseteq> {h256 1, h256 2, h256 3, h256 4}" "distinct xs"
    using xs(3) by (auto simp: execution_of_def schedule_order_def)
  ultimately have xs4: "xs = [] \<or> xs = [h256 4]"
    by (cases xs; cases "tl xs") auto
  have four: "h256 4 \<in> set (decided (rc_events c'))"
    using c' par by (auto simp: PARALLEL_EXC_def ra_emit_def ra_store_Ok decided_def elim!: res_bind_OkE)
  show ?thesis
    using c' r(3-5) xs(1,2) xs4 four c(4) by (intro exI [of _ c']) auto
qed

end
