(* ===== verification/Rashnu_Propose.thy ===== *)
theory Rashnu_Propose
  imports Rashnu_Commit
begin

text \<open>What the handlers of Rashnu do with the graph of a block that was proposed.\<close>

subsection \<open>What stays of the blocks\<close>

definition heap_grows :: "(ref \<Rightarrow> rblock) \<Rightarrow> (ref \<Rightarrow> rblock) \<Rightarrow> bool" where
  "heap_grows hp hp' \<longleftrightarrow> (\<forall>r. tb_hash (hp' r) = tb_hash (hp r) \<and> tb_height (hp' r) = tb_height (hp r) \<and>
     fst ` set (tb_graph (hp' r)) = fst ` set (tb_graph (hp r)) \<and> edges (tb_graph (hp r)) \<subseteq> edges (tb_graph (hp' r)))"

lemma heap_grows_refl [simp]: "heap_grows hp hp"
  by (simp add: heap_grows_def)

lemma heap_grows_trans: "heap_grows a b \<Longrightarrow> heap_grows b c \<Longrightarrow> heap_grows a c"
  unfolding heap_grows_def by (metis order_trans)

lemma heap_growsD:
  assumes "heap_grows hp hp'"
  shows "tb_hash (hp' r) = tb_hash (hp r)" and "tb_height (hp' r) = tb_height (hp r)"
    and "fst ` set (tb_graph (hp' r)) = fst ` set (tb_graph (hp r))"
    and "e \<in> edges (tb_graph (hp r)) \<Longrightarrow> e \<in> edges (tb_graph (hp' r))"
  using assms unfolding heap_grows_def by blast+

lemma ra_update_graph_grows:
  "tb_hash (ra_update_graph e b) = tb_hash b \<and> tb_height (ra_update_graph e b) = tb_height b \<and>
   fst ` set (tb_graph (ra_update_graph e b)) = fst ` set (tb_graph b) \<and>
   edges (tb_graph (ra_update_graph e b)) =
     (if fst e \<in> fst ` set (tb_graph b) \<and> snd e \<in> fst ` set (tb_graph b) then insert e (edges (tb_graph b)) else edges (tb_graph b))"
  by (auto simp: ra_update_graph_def keys_insert graph_insert_edges)

lemma ra_upd_sel [simp]:
  "rblk (ra_upd r f c) q = (if q = r then f (rblk c r) else rblk c q)" "rc_exec (ra_upd r f c) = rc_exec c"
  "rc_events (ra_upd r f c) = rc_events c" "rc_storage (ra_upd r f c) = rc_storage c"
  by (simp_all add: ra_upd_def)

lemma ra_emit_sel [simp]:
  "rc_heap (ra_emit ev c) = rc_heap c" "rc_events (ra_emit ev c) = rc_events c @ [ev]"
  by (simp_all add: ra_emit_def)

lemma fold_updates_grow:
  "heap_grows (rc_heap c) (rc_heap (fold (\<lambda>b. ra_upd b (ra_update_graph e)) bs c)) \<and>
   rc_exec (fold (\<lambda>b. ra_upd b (ra_update_graph e)) bs c) = rc_exec c \<and>
   (\<forall>b \<in> set bs. fst e \<in> fst ` set (tb_graph (rblk c b)) \<and> snd e \<in> fst ` set (tb_graph (rblk c b)) \<longrightarrow>
      e \<in> edges (tb_graph (rblk (fold (\<lambda>b. ra_upd b (ra_update_graph e)) bs c) b)))"
proof (induction bs arbitrary: c)
  case (Cons b bs)
  let ?c = "ra_upd b (ra_update_graph e) c"
  have step: "heap_grows (rc_heap c) (rc_heap ?c)"
    using ra_update_graph_grows [of e "rblk c b"] by (auto simp: heap_grows_def)
  have now: "e \<in> edges (tb_graph (rblk ?c b))" if "fst e \<in> fst ` set (tb_graph (rblk c b))" "snd e \<in> fst ` set (tb_graph (rblk c b))"
    using that ra_update_graph_grows [of e "rblk c b"] by simp
  note IH = Cons.IH [of ?c]
  have "heap_grows (rc_heap c) (rc_heap (fold (\<lambda>b. ra_upd b (ra_update_graph e)) bs ?c))"
    using IH step heap_grows_trans by blast
  moreover have "e \<in> edges (tb_graph (rblk (fold (\<lambda>b. ra_upd b (ra_update_graph e)) bs ?c) q))"
    if "q = b \<or> q \<in> set bs" "fst e \<in> fst ` set (tb_graph (rblk c q))" "snd e \<in> fst ` set (tb_graph (rblk c q))" for q
  proof (cases "q = b")
    case True
    show ?thesis
      using heap_growsD(4) [OF conjunct1 [OF IH] now, of] that True by simp
  next
    case False
    then show ?thesis
      using conjunct2 [OF conjunct2 [OF IH]] heap_growsD(3) [OF step, of q] that by auto
  qed
  ultimately show ?case using IH by auto
qed simp

lemma ra_walk_first:
  assumes "ra_walk_down hp h b = Inr (bs, z)" and "h < tb_height (hp b)"
  shows "b \<in> set bs"
  using assms by (cases "tb_parents (hp b)") (auto simp: ra_walk_down_def map_sum_def split: sum.splits prod.splits)

lemma ra_add_edges_grow:
  assumes "ra_add_edges es r c = Ok u c'"
  shows "heap_grows (rc_heap c) (rc_heap c') \<and>
    (tb_height (rblk c (rc_exec c)) < tb_height (rblk c r) \<longrightarrow>
      (\<forall>e \<in> set es. fst e \<in> fst ` set (tb_graph (rblk c r)) \<and> snd e \<in> fst ` set (tb_graph (rblk c r)) \<longrightarrow>
        e \<in> edges (tb_graph (rblk c' r))))"
  using assms
proof (induction es arbitrary: c)
  case (Cons e es)
  let ?c = "c\<lparr>rc_storage := ra_remove_missing_edge (fst e) (snd e) (rc_storage c)\<rparr>"
  obtain bs z where walk: "ra_walk_down (rc_heap c) (tb_height (rblk c (rc_exec c))) r = Inr (bs, z)"
    and rest: "ra_add_edges es r (fold (\<lambda>b. ra_upd b (ra_update_graph e)) bs ?c) = Ok u c'"
    using Cons.prems by (auto simp: Let_def split: sum.splits prod.splits)
  let ?d = "fold (\<lambda>b. ra_upd b (ra_update_graph e)) bs ?c"
  have step: "heap_grows (rc_heap c) (rc_heap ?d)" "rc_exec ?d = rc_exec c"
    "\<And>b. b \<in> set bs \<Longrightarrow> fst e \<in> fst ` set (tb_graph (rblk c b)) \<Longrightarrow> snd e \<in> fst ` set (tb_graph (rblk c b)) \<Longrightarrow> e \<in> edges (tb_graph (rblk ?d b))"
    using fold_updates_grow [of ?c e bs] by simp_all
  note IH = Cons.IH [OF rest]
  have "e' \<in> edges (tb_graph (rblk c' r))"
    if "tb_height (rblk c (rc_exec c)) < tb_height (rblk c r)" "e' = e \<or> e' \<in> set es"
      "fst e' \<in> fst ` set (tb_graph (rblk c r))" "snd e' \<in> fst ` set (tb_graph (rblk c r))" for e'
  proof (cases "e' = e")
    case True
    then show ?thesis
      using heap_growsD(4) [OF conjunct1 [OF IH] step(3) [OF ra_walk_first [OF walk that(1)]]] that(3,4) by simp
  next
    case False
    have "tb_height (rblk ?d (rc_exec ?d)) < tb_height (rblk ?d r)"
      using heap_growsD(2) [OF step(1)] step(2) that(1) by simp
    then show ?thesis
      using conjunct2 [OF IH] heap_growsD(3) [OF step(1), of r] that False by auto
  qed
  moreover have "heap_grows (rc_heap c) (rc_heap c')"
    using IH step(1) heap_grows_trans by blast
  ultimately show ?case by auto
qed simp

lemma ra_store_heap: "ra_store f c = Ok a c' \<Longrightarrow> rc_heap c' = rc_heap c"
  by (auto simp: ra_store_Ok)

lemma ra_remove_all_seen_heap: "ra_remove_all_seen vs c = Ok u c' \<Longrightarrow> rc_heap c' = rc_heap c"
  by (induction vs arbitrary: c) (auto elim!: res_bind_OkE dest!: ra_store_heap)

lemma ra_update_hqc_heap: "ra_update_hqc r qc c = Ok u c' \<Longrightarrow> rc_heap c' = rc_heap c"
  by (auto simp: ra_update_hqc_def ra_emit_def split: option.splits if_splits)

lemma ra_commit_grows: "ra_commit_blks pe it rs c = Ok u c' \<Longrightarrow> heap_grows (rc_heap c) (rc_heap c')"
proof (induction rs arbitrary: c)
  case (Cons r rs)
  show ?case
  proof (cases "ra_commit_par pe r c")
    case None
    then show ?thesis using Cons.prems by (simp add: PARALLEL_EXC_def)
  next
    case (Some x)
    then obtain v d where x: "x = Ok v d" and rest: "ra_commit_blks pe it rs (d\<lparr>rc_exec := r\<rparr>) = Ok u c'"
      using Cons.prems by (auto simp: PARALLEL_EXC_def elim!: res_bind_OkE)
    have "rc_heap d = rc_heap (ra_upd r (\<lambda>b. b\<lparr>tb_decision := 1\<rparr>) c)"
      using Some [unfolded x] by (auto simp: ra_commit_par_def Let_def split: if_splits option.splits dest!: ra_calls_events)
    then have "heap_grows (rc_heap c) (rc_heap d)"
      by (simp add: heap_grows_def)
    then show ?thesis using Cons.IH [OF rest] heap_grows_trans [of "rc_heap c" "rc_heap d" "rc_heap c'"] by simp
  qed
qed simp

lemma ra_update_grows:
  assumes "ra_update pe it r c = Ok u c'"
  shows "heap_grows (rc_heap c) (rc_heap c') \<and>
    (tb_height (rblk c (rc_exec c)) < tb_height (rblk c r) \<longrightarrow>
      (\<forall>e \<in> set (tb_e_update (rblk c r)). fst e \<in> fst ` set (tb_graph (rblk c r)) \<and> snd e \<in> fst ` set (tb_graph (rblk c r)) \<longrightarrow>
        e \<in> edges (tb_graph (rblk c' r))))"
proof -
  have chain: "ra_commit_chain pe it b c = Ok u c' \<Longrightarrow> heap_grows (rc_heap c) (rc_heap c')" for b c c' and u :: unit
    by (auto simp: ra_commit_chain_def split: sum.splits prod.splits if_splits dest: ra_commit_grows)
  have commit: "ra_update_commit pe it b2 b1 c = Ok u c' \<Longrightarrow> heap_grows (rc_heap c) (rc_heap c')" for b2 b1 c c' and u :: unit
    by (auto simp: ra_update_commit_def split: option.splits if_splits dest: chain)
  have lock: "ra_update_lock pe it b2 c = Ok u c' \<Longrightarrow> heap_grows (rc_heap c) (rc_heap c')" for b2 c c' and u :: unit
    by (auto simp: ra_update_lock_def split: option.splits if_splits dest!: commit)
  obtain d where d: "ra_update_graphs r c = Ok () d"
    and cont: "(case tb_qc_ref (rblk d r) of None \<Rightarrow> Ok () d | Some b2 \<Rightarrow> if tb_decision (rblk d b2) \<noteq> 0 then Ok () d
        else res_bind (ra_update_hqc b2 (tb_qc (rblk d r)) d) (\<lambda>u c. ra_update_lock pe it b2 c)) = Ok u c'"
    using assms by (auto simp: ra_update_def elim!: res_bind_OkE)
  have rest: "rc_heap c' = rc_heap d \<or> (\<exists>b2 f. ra_update_hqc b2 (tb_qc (rblk d r)) d = Ok () f \<and> ra_update_lock pe it b2 f = Ok u c')"
    using cont by (auto elim!: res_bind_OkE split: option.splits if_splits)
  obtain g where g: "ra_add_edges (tb_e_update (rblk c r)) r c = Ok () g" and dg: "rc_heap d = rc_heap g"
    using d by (auto simp: ra_update_graphs_def elim!: res_bind_OkE dest!: ra_remove_all_seen_heap)
  have "heap_grows (rc_heap g) (rc_heap c')"
    using rest dg ra_update_hqc_heap lock by (metis heap_grows_refl)
  then show ?thesis
    using ra_add_edges_grow [OF g] heap_grows_trans [of "rc_heap c" "rc_heap g" "rc_heap c'"] heap_growsD(4) [of "rc_heap g" "rc_heap c'" _ r]
    by blast
qed

subsection \<open>The proposal of a leader\<close>

lemma ra_deliver_parents_Ok:
  "ra_deliver_parents r hs c = Ok u c' \<Longrightarrow>
    \<exists>ps. c' = ra_upd r (\<lambda>b. b\<lparr>tb_parents := tb_parents b @ ps\<rparr>) c \<and> map Inr ps = map (\<lambda>h. ra_get_delivered_blk h c) hs"
proof (induction hs arbitrary: c)
  case Nil
  then show ?case by (intro exI [of _ "[]"]) (simp add: ra_upd_def)
next
  case (Cons h hs)
  then obtain p where p: "ra_get_delivered_blk h c = Inr p"
    "ra_deliver_parents r hs (ra_upd r (\<lambda>b. b\<lparr>tb_parents := tb_parents b @ [p]\<rparr>) c) = Ok u c'"
    by (auto split: sum.splits)
  have same: "ra_get_delivered_blk k (ra_upd r (\<lambda>b. b\<lparr>tb_parents := tb_parents b @ [p]\<rparr>) c) = ra_get_delivered_blk k c" for k
    by (auto simp: ra_get_delivered_blk_def ra_find_blk_def ra_upd_def split: option.splits)
  from Cons.IH [OF p(2)] obtain ps where ps:
    "c' = ra_upd r (\<lambda>b. b\<lparr>tb_parents := tb_parents b @ ps\<rparr>) (ra_upd r (\<lambda>b. b\<lparr>tb_parents := tb_parents b @ [p]\<rparr>) c)"
    "map Inr ps = map (\<lambda>h. ra_get_delivered_blk h c) hs"
    unfolding same by blast
  then show ?case
    using p(1) by (intro exI [of _ "p # ps"]) (simp add: ra_upd_def)
qed

lemma ra_on_deliver_blk_Ok:
  assumes "ra_on_deliver_blk r c = Ok True c'"
  shows "\<exists>p. ra_find_blk (hd (tb_parent_hashes (rblk c r))) c = Some p \<and>
    (p \<noteq> r \<longrightarrow> tb_height (rblk c' r) = tb_height (rblk c p) + 1) \<and> tb_hash (rblk c' r) = tb_hash (rblk c r) \<and>
    tb_graph (rblk c' r) = tb_graph (rblk c r) \<and> tb_e_update (rblk c' r) = tb_e_update (rblk c r) \<and>
    (\<forall>q. q \<noteq> r \<longrightarrow> rblk c' q = rblk c q) \<and> rc_exec c' = rc_exec c"
proof -
  let ?c = "ra_upd r (\<lambda>b. b\<lparr>tb_parents := []\<rparr>) c"
  obtain d p ps where d: "ra_deliver_parents r (tb_parent_hashes (rblk c r)) ?c = Ok () d" "tb_parents (rblk d r) = p # ps"
    and fin: "c' = ra_upd r (\<lambda>b. b\<lparr>tb_delivered := True\<rparr>) (ra_upd r (\<lambda>b. b\<lparr>tb_height := tb_height (rblk d p) + 1\<rparr>) d
        \<lparr>rc_tails := rc_tails c'\<rparr>) \<or>
      (\<exists>q. c' = ra_upd r (\<lambda>b. b\<lparr>tb_delivered := True\<rparr>) (ra_upd r (\<lambda>b. b\<lparr>tb_qc_ref := Some q\<rparr>)
        (ra_upd r (\<lambda>b. b\<lparr>tb_height := tb_height (rblk d p) + 1\<rparr>) d)\<lparr>rc_tails := rc_tails c'\<rparr>))"
    using assms unfolding ra_on_deliver_blk_def Let_def
    by (force elim!: res_bind_OkE split: list.splits option.splits if_splits simp: ra_upd_def)
  obtain qs where qs: "d = ra_upd r (\<lambda>b. b\<lparr>tb_parents := tb_parents b @ qs\<rparr>) ?c"
    "map Inr qs = map (\<lambda>h. ra_get_delivered_blk h ?c) (tb_parent_hashes (rblk c r))"
    using ra_deliver_parents_Ok [OF d(1)] by blast
  have "qs = p # ps" using d(2) qs(1) by simp
  then have "ra_get_delivered_blk (hd (tb_parent_hashes (rblk c r))) ?c = Inr p"
    using qs(2) by (cases "tb_parent_hashes (rblk c r)") auto
  then have "ra_find_blk (hd (tb_parent_hashes (rblk c r))) c = Some p"
    by (auto simp: ra_get_delivered_blk_def ra_find_blk_def ra_upd_def split: option.splits if_splits)
  moreover define T where "T = rc_tails c'"
  have "(p \<noteq> r \<longrightarrow> tb_height (rblk c' r) = tb_height (rblk c p) + 1) \<and> tb_hash (rblk c' r) = tb_hash (rblk c r) \<and>
    tb_graph (rblk c' r) = tb_graph (rblk c r) \<and> tb_e_update (rblk c' r) = tb_e_update (rblk c r) \<and>
    (\<forall>q. q \<noteq> r \<longrightarrow> rblk c' q = rblk c q) \<and> rc_exec c' = rc_exec c"
    using fin unfolding qs(1) T_def [symmetric] by (elim disjE exE) (simp_all add: ra_upd_def)
  ultimately show ?thesis by blast
qed

lemma ra_receive_grows:
  assumes "ra_on_receive_proposal e pe it prop c = Ok u c'"
  shows "heap_grows (rc_heap c) (rc_heap c')"
proof -
  have vote: "rc_heap d = rc_heap c" if "ra_vote_opinion r c = Ok op d" for r op c d
    using that by (auto simp: ra_vote_opinion_def split: if_splits option.splits sum.splits prod.splits)
  have upd: "heap_grows (rc_heap c) (rc_heap d)" if "ra_update pe it r c = Ok () d" for r c d
    using ra_update_grows [OF that] by (rule conjunct1)
  have finish: "rc_heap (ra_on_qc_finish q c) = rc_heap c" for q c
    by (simp add: ra_on_qc_finish_def)
  let ?r = "prop_blk prop"
  obtain c1 op c2 where c1: "(if prop_proposer prop = rc_id c then Ok () c
      else res_bind (ra_sanity_check_delivered ?r c) (\<lambda>u c. ra_update pe it ?r c)) = Ok () c1"
    and op: "ra_vote_opinion ?r c1 = Ok op c2" and c': "rc_heap c' = rc_heap c2"
    using assms unfolding ra_on_receive_proposal_def Let_def
    by (auto elim!: res_bind_OkE split: if_splits option.splits simp: finish)
  have "heap_grows (rc_heap c) (rc_heap c1)"
  proof (cases "prop_proposer prop = rc_id c")
    case False
    with c1 have "ra_update pe it ?r c = Ok () c1"
      by (auto simp: ra_sanity_check_delivered_def elim!: res_bind_OkE split: if_splits)
    then show ?thesis by (rule upd)
  qed (use c1 in simp)
  then show ?thesis using vote [OF op] c' by simp
qed

text \<open>
  C37: the leader enters the edges of the block's own update into the block's graph before it sends
  the block: when it has proposed a new block, the block it broadcasts keeps the hash of the graph it
  was made with, and its graph has every edge of the update between two commands of the block.
\<close>

theorem proposal_changed:
  assumes "ra_on_propose e pe it g ms es (p # ps) ex c = Ok r c'" and "rc_hqc c = Some (h, qc)"
    and "r = rc_next c" and "r \<notin> snd ` set (rc_blk_cache c)" and "rc_exec c \<noteq> r"
    and "ra_find_blk (tb_hash (rblk c p)) c = Some p"
    and "tb_height (rblk c (rc_exec c)) < tb_height (rblk c p) + 1"
  shows "\<exists>b pr. rblock_make (e_sha e) (rc_heap c) (p # ps) g ms es qc ex (tb_height (rblk c p) + 1) (Some h) None 0 = Inr b \<and>
    rc_events c' \<noteq> [] \<and> last (rc_events c') = R_Broadcast \<lparr>prop_proposer = pr, prop_blk = r\<rparr> \<and>
    tb_hash (rblk c' r) = tb_hash b \<and> edges g \<subseteq> edges (tb_graph (rblk c' r)) \<and>
    {(u, v) \<in> set es. u \<in> fst ` set g \<and> v \<in> fst ` set g} \<subseteq> edges (tb_graph (rblk c' r))"
proof -
  let ?c = "c\<lparr>rc_tails := rc_tails c - set (p # ps)\<rparr>"
  obtain b where b: "rblock_make (e_sha e) (rc_heap c) (p # ps) g ms es qc ex (tb_height (rblk c p) + 1) (Some h) None 0 = Inr b"
    using assms(1,2) by (auto simp: ra_on_propose_def Let_def split: sum.splits)
  then have made: "tb_graph b = g" "tb_e_update b = es" "tb_parent_hashes b = map (\<lambda>p. tb_hash (rblk c p)) (p # ps)"
    "\<not> tb_delivered b"
    by (auto simp: rblock_make_def Let_def map_sum_def rblock_empty_def tblock_empty_def tblock.defs split: sum.splits)
  obtain bnew c1 where add: "ra_add_blk b ?c = (bnew, c1)"
    by fastforce
  let ?c2 = "ra_upd bnew (\<lambda>b. b\<lparr>tb_self_qc := Some (create_quorum_cert (e_mem e) (rc_config c1) (tb_hash b))\<rparr>) c1"
  let ?pro = "\<lparr>prop_proposer = rc_id ?c2, prop_blk = bnew\<rparr>"
  obtain d c3 c4 c5 where run: "ra_on_deliver_blk bnew ?c2 = Ok d c3" "ra_update pe it bnew c3 = Ok () c4"
    "ra_on_receive_proposal e pe it ?pro c4 = Ok () c5"
    "c' = ra_emit (R_Broadcast ?pro) (ra_emit (R_Resolve_Propose ?pro) c5)" "r = bnew"
    using assms(1,2) b add unfolding ra_on_propose_def Let_def
    by (auto elim!: res_bind_OkE split: if_splits)
  define c2 where "c2 = ?c2"
  note run = run [folded c2_def]
  have pr: "p \<noteq> r"
    using assms(4,6) by (force simp: ra_find_blk_def dest!: map_of_SomeD)
  have none: "ra_find_blk (tb_hash b) ?c = None"
  proof (rule ccontr)
    assume "ra_find_blk (tb_hash b) ?c \<noteq> None"
    then obtain q where q: "ra_find_blk (tb_hash b) ?c = Some q" by blast
    then have "bnew = q" using add by (simp add: ra_add_blk_def)
    with q run(5) assms(4) show False
      by (force simp: ra_find_blk_def dest!: map_of_SomeD)
  qed
  have c1: "bnew = r" "c1 = ?c\<lparr>rc_heap := (rc_heap c)(r := b), rc_next := r + 1, rc_blk_cache := map_insert (tb_hash b) r (rc_blk_cache c)\<rparr>"
    using none assms(3) add by (auto simp: ra_add_blk_def)
  have c2: "tb_graph (rblk c2 r) = g" "tb_e_update (rblk c2 r) = es" "tb_hash (rblk c2 r) = tb_hash b" "\<not> tb_delivered (rblk c2 r)"
    "hd (tb_parent_hashes (rblk c2 r)) = tb_hash (rblk c p)" "q \<noteq> r \<Longrightarrow> rblk c2 q = rblk c q"
    "rc_exec c2 = rc_exec c" "ra_find_blk k c2 = (if k = tb_hash b then Some r else ra_find_blk k c)" for k q
    using made none by (auto simp: c2_def c1 ra_find_blk_def ra_upd_def map_insert_def map_add_def split: option.splits)
  have "d = True"
    using run(1) c1(1) c2(4) unfolding ra_on_deliver_blk_def Let_def
    by (auto elim!: res_bind_OkE split: list.splits option.splits)
  then have "ra_on_deliver_blk r c2 = Ok True c3"
    using run(1) c1(1) by simp
  from ra_on_deliver_blk_Ok [OF this] obtain q where q: "ra_find_blk (hd (tb_parent_hashes (rblk c2 r))) c2 = Some q"
    "q \<noteq> r \<longrightarrow> tb_height (rblk c3 r) = tb_height (rblk c2 q) + 1" "tb_hash (rblk c3 r) = tb_hash (rblk c2 r)"
    "tb_graph (rblk c3 r) = tb_graph (rblk c2 r)" "tb_e_update (rblk c3 r) = tb_e_update (rblk c2 r)"
    "\<forall>q. q \<noteq> r \<longrightarrow> rblk c3 q = rblk c2 q" "rc_exec c3 = rc_exec c2"
    by blast
  have "q = p" using q(1) none assms(6) unfolding c2(5,8) by (simp add: ra_find_blk_def split: if_splits)
  then have hgt: "tb_height (rblk c3 (rc_exec c3)) < tb_height (rblk c3 r)"
    using q(2,6,7) pr assms(5,7) c2(6,7) by simp
  note up = ra_update_grows [OF run(2)]
  have heap: "heap_grows (rc_heap c4) (rc_heap c')"
    using ra_receive_grows [OF run(3)] run(4) by simp
  note c1(1) [simp]
  have "edges g \<subseteq> edges (tb_graph (rblk c' r))"
    using up heap_growsD(4) [OF heap, of _ r] heap_growsD(4) [OF conjunct1 [OF up], of _ r] q(4) c2(1) by auto
  moreover have "{(u, v) \<in> set es. u \<in> fst ` set g \<and> v \<in> fst ` set g} \<subseteq> edges (tb_graph (rblk c' r))"
  proof
    fix x assume x: "x \<in> {(u, v) \<in> set es. u \<in> fst ` set g \<and> v \<in> fst ` set g}"
    then have "x \<in> set (tb_e_update (rblk c3 r))" "fst x \<in> fst ` set (tb_graph (rblk c3 r))" "snd x \<in> fst ` set (tb_graph (rblk c3 r))"
      unfolding q(4,5) c2(1,2) by (simp_all add: case_prod_unfold)
    then have "x \<in> edges (tb_graph (rblk c4 r))"
      using conjunct2 [OF up] hgt by auto
    then show "x \<in> edges (tb_graph (rblk c' r))"
      by (rule heap_growsD(4) [OF heap])
  qed
  moreover have "tb_hash (rblk c' r) = tb_hash b"
    using up heap_growsD(1) [OF heap, of r] heap_growsD(1) [OF conjunct1 [OF up], of r] q(3) c2(3) by simp
  ultimately show ?thesis
    using b run(4) by simp
qed

text \<open>A leader that knows the genesis block only, and the update of a missing edge of its new block.\<close>

abbreviation two_commands :: "uint256 graph" where
  "two_commands \<equiv> [(h256 1, []), (h256 2, [])]"

definition example_genesis :: rblock where
  "example_genesis = rblock_empty\<lparr>tb_qc := Some (QuorumCertDummy 0), tb_qc_ref := Some 0, tb_delivered := True, tb_decision := 1\<rparr>"

definition example_leader :: rcore where
  "example_leader = example_rcore\<lparr>rc_heap := (\<lambda>_. rblock_empty)(0 := example_genesis), rc_next := 2, rc_tails := {0},
     rc_hqc := Some (0, QuorumCertDummy 0), rc_blk_cache := [(0, 0)]\<rparr>"

definition example_crypto :: env where
  "example_crypto = \<lparr>e_sha = \<lambda>xs. h256 5, e_sign = \<lambda>h. [], e_mem = \<lambda>n. 0, e_srt = \<lambda>k xs. xs\<rparr>"

definition example_new :: rblock where
  "example_new = rblock_empty\<lparr>tb_parent_hashes := [0], tb_graph := two_commands, rb_e_missing := [(h256 1, h256 2)],
     tb_e_update := [(h256 1, h256 2)], tb_qc := Some (QuorumCertDummy 0), tb_parents := [0], tb_qc_ref := Some 0,
     tb_height := 1, tb_hash := h256 5\<rparr>"

lemma example_make:
  "rblock_make (e_sha example_crypto) (rc_heap example_leader) [0] two_commands [(h256 1, h256 2)] [(h256 1, h256 2)]
     (QuorumCertDummy 0) [] (tb_height (rblk example_leader 0) + 1) (Some 0) None 0 = Inr example_new"
proof -
  have "\<exists>s. gfc_serialize two_commands t = Ok () s" for t
    by (simp add: gfc_serialize_def kids_def Let_def)
  then obtain f where f: "\<And>t. gfc_serialize two_commands t = Ok () (f t)" by metis
  have "rblock_get_hash sha b = Inr (h256 5)" if "tb_graph b = two_commands" "tb_qc b = Some (QuorumCertDummy 0)"
    "sha = (\<lambda>xs. h256 5)" for sha b
    using that by (simp add: rblock_get_hash_def rblock_serialize_def f Let_def)
  then show ?thesis
    by (simp add: rblock_make_def Let_def example_crypto_def example_leader_def example_genesis_def example_new_def
      rblock_empty_def tblock_empty_def tblock.defs)
qed

lemma ra_remove_none_seen:
  "linked_cache (local_order_seen_propose_level_cache (rs_base (rc_storage c))) = [] \<Longrightarrow> ra_remove_all_seen vs c = Ok () c"
  by (induction vs) (simp_all add: ra_store_def ra_remove_seen_propose_level_def on_base_def t_remove_seen_propose_level_def remove_cmd_def)

text \<open>The run of \<open>on_propose\<close>: the block is made and added, delivered, and updated.\<close>

definition leader_added :: rcore where
  "leader_added = ra_upd 2 (\<lambda>b. b\<lparr>tb_self_qc := Some (create_quorum_cert (e_mem example_crypto) (rc_config example_leader) (tb_hash b))\<rparr>)
     (example_leader\<lparr>rc_tails := {}, rc_heap := (rc_heap example_leader)(2 := example_new), rc_next := 3,
       rc_blk_cache := [(0, 0), (h256 5, 2)]\<rparr>)"

definition leader_delivered :: rcore where
  "leader_delivered = ra_upd 2 (\<lambda>b. b\<lparr>tb_parents := [0], tb_height := 1, tb_delivered := True, tb_qc_ref := Some 0\<rparr>)
     (leader_added\<lparr>rc_tails := {2}\<rparr>)"

definition leader_updated :: rcore where
  "leader_updated = ra_upd 2 (ra_update_graph (h256 1, h256 2))
     (leader_delivered\<lparr>rc_storage := ra_remove_missing_edge (h256 1) (h256 2) (rc_storage leader_delivered)\<rparr>)"

lemma leader:
  "rc_hqc example_leader = Some (0, QuorumCertDummy 0)" "rc_next example_leader = 2" "rc_exec example_leader = 0"
  "rc_blk_cache example_leader = [(0, 0)]" "rblk example_leader 0 = example_genesis" "rc_vheight example_leader = 0"
  "rc_lock example_leader = 0" "rc_id example_leader = 0" "rc_tails example_leader = {0}" "rc_vote_disabled example_leader = False"
  "tb_height example_genesis = 0" "tb_hash example_genesis = 0" "tb_delivered example_genesis" "tb_decision example_genesis = 1"
  by (simp_all add: example_leader_def example_rcore_def example_genesis_def rblock_empty_def tblock_empty_def tblock.defs)

lemma leader_adds:
  "ra_add_blk example_new (example_leader\<lparr>rc_tails := {}\<rparr>) =
     (2, example_leader\<lparr>rc_tails := {}, rc_heap := (rc_heap example_leader)(2 := example_new), rc_next := 3,
       rc_blk_cache := [(0, 0), (h256 5, 2)]\<rparr>)"
  by (simp add: ra_add_blk_def ra_find_blk_def leader example_new_def map_insert_def zero_uint256_def)

lemma leader_delivers: "ra_on_deliver_blk 2 leader_added = Ok True leader_delivered"
  by (simp add: ra_on_deliver_blk_def leader_delivered_def leader_added_def ra_upd_def leader example_new_def rblock_empty_def
    tblock_empty_def tblock.defs ra_get_delivered_blk_def ra_find_blk_def Let_def zero_uint256_def)

lemma leader_delivered_block:
  "tb_graph (rblk leader_delivered 2) = two_commands" "rb_e_missing (rblk leader_delivered 2) = [(h256 1, h256 2)]"
  "tb_e_update (rblk leader_delivered 2) = [(h256 1, h256 2)]" "tb_parents (rblk leader_delivered 2) = [0]"
  "tb_height (rblk leader_delivered 2) = 1" "tb_qc_ref (rblk leader_delivered 2) = Some 0" "rblk leader_delivered 0 = example_genesis"
  by (simp_all add: leader_delivered_def leader_added_def leader example_new_def rblock_empty_def)

lemma leader_delivered_fields:
  "rc_exec leader_delivered = 0" "rc_lock leader_delivered = 0" "rc_id leader_delivered = 0" "rc_vheight leader_delivered = 0"
  "rc_storage leader_delivered = rashnu_storage_new (h256 0)" "rc_vote_disabled leader_delivered = False"
  by (simp_all add: leader_delivered_def leader_added_def ra_upd_def leader) (simp add: example_leader_def example_rcore_def)

lemma leader_updated_block:
  "tb_parents (rblk leader_updated 2) = [0]" "tb_height (rblk leader_updated 2) = 1" "tb_qc_ref (rblk leader_updated 2) = Some 0"
  "rblk leader_updated 0 = example_genesis" "rb_e_missing (rblk leader_updated 2) = []"
proof -
  have same: "tb_parents (ra_update_graph e b) = tb_parents b" "tb_qc_ref (ra_update_graph e b) = tb_qc_ref b" for e b
    by (simp_all add: ra_update_graph_def)
  show "tb_parents (rblk leader_updated 2) = [0]" "tb_height (rblk leader_updated 2) = 1" "tb_qc_ref (rblk leader_updated 2) = Some 0"
    "rblk leader_updated 0 = example_genesis" "rb_e_missing (rblk leader_updated 2) = []"
    by (simp_all add: leader_updated_def leader_delivered_block same ra_update_graph_grows)
      (simp add: ra_update_graph_def leader_delivered_block same_pair_def)
qed

lemma leader_walk:
  "tb_height (hp 2) = 1 \<Longrightarrow> tb_parents (hp 2) = [0] \<Longrightarrow> tb_height (hp 0) = 0 \<Longrightarrow> ra_walk_down hp 0 2 = Inr ([2], 0)"
  by (simp add: ra_walk_down_def)

lemma leader_updates: "ra_update example_env iters_id 2 leader_delivered = Ok () leader_updated"
proof -
  have "linked_cache (local_order_seen_propose_level_cache (rs_base (rc_storage leader_updated))) = []"
    by (simp add: leader_updated_def leader_delivered_fields ra_remove_missing_edge_def remove_missing_edge_def Let_def
      rashnu_storage_new_def themis_storage_new_def list_new_def set_prev_def set_next_def)
  then have seen: "ra_remove_all_seen vs leader_updated = Ok () leader_updated" for vs
    by (rule ra_remove_none_seen)
  have "ra_add_edges [(h256 1, h256 2)] 2 leader_delivered = Ok () leader_updated"
    using leader_walk [of "rc_heap leader_delivered"] leader_delivered_block(4,5,7) leader_delivered_fields(1) leader
    by (simp add: leader_updated_def)
  then have "ra_update_graphs 2 leader_delivered = Ok () leader_updated"
    using leader_delivered_block(3) leader_updated_block(5) seen by (simp add: ra_update_graphs_def ra_get_missing_edges_def)
  then show ?thesis
    using leader_updated_block(3,4) leader by (simp add: ra_update_def)
qed

lemma leader_run:
  "\<exists>c'. ra_on_propose example_crypto example_env iters_id two_commands [(h256 1, h256 2)] [(h256 1, h256 2)] [0] [] example_leader
    = Ok 2 c'"
proof -
  have c4: "rc_exec leader_updated = 0" "rc_lock leader_updated = 0" "rc_id leader_updated = 0" "rc_vheight leader_updated = 0"
    "rc_vote_disabled leader_updated = False" and id2: "rc_id leader_added = 0"
    using leader_delivered_fields leader by (simp_all add: leader_updated_def leader_added_def ra_upd_def)
  have vote: "ra_vote_opinion 2 leader_updated = Ok True (leader_updated\<lparr>rc_vheight := 1\<rparr>)"
    using leader_updated_block c4 leader leader_walk [of "rc_heap leader_updated"] by (simp add: ra_vote_opinion_def)
  have "\<exists>c5. ra_on_receive_proposal example_crypto example_env iters_id \<lparr>prop_proposer = 0, prop_blk = 2\<rparr> leader_updated = Ok () c5"
    using vote leader_updated_block c4 by (simp add: ra_on_receive_proposal_def Let_def)
  then obtain c5 where c5:
    "ra_on_receive_proposal example_crypto example_env iters_id \<lparr>prop_proposer = 0, prop_blk = 2\<rparr> leader_updated = Ok () c5"
    by blast
  show ?thesis
    using example_make leader_adds leader_delivers leader_updates c5 leader_updated_block(2) c4(3,4) id2 leader
    by (simp add: ra_on_propose_def Let_def leader_added_def [symmetric])
qed

theorem proposal_changed_witness:
  "\<exists>c'. ra_on_propose example_crypto example_env iters_id two_commands [(h256 1, h256 2)] [(h256 1, h256 2)] [0] [] example_leader
      = Ok 2 c' \<and> tb_hash (rblk c' 2) = h256 5 \<and> (h256 1, h256 2) \<in> edges (tb_graph (rblk c' 2)) \<and>
    (h256 1, h256 2) \<notin> edges two_commands"
proof -
  let ?e = "(h256 1, h256 2)"
  obtain c' where c': "ra_on_propose example_crypto example_env iters_id two_commands [?e] [?e] [0] [] example_leader = Ok 2 c'"
    using leader_run by blast
  have "\<exists>b pr. rblock_make (e_sha example_crypto) (rc_heap example_leader) [0] two_commands [?e] [?e] (QuorumCertDummy 0) []
        (tb_height (rblk example_leader 0) + 1) (Some 0) None 0 = Inr b \<and>
    rc_events c' \<noteq> [] \<and> last (rc_events c') = R_Broadcast \<lparr>prop_proposer = pr, prop_blk = 2\<rparr> \<and>
    tb_hash (rblk c' 2) = tb_hash b \<and> edges two_commands \<subseteq> edges (tb_graph (rblk c' 2)) \<and>
    {(u, v) \<in> set [?e]. u \<in> fst ` set two_commands \<and> v \<in> fst ` set two_commands} \<subseteq> edges (tb_graph (rblk c' 2))"
    by (rule proposal_changed [OF c' leader(1)]) (simp_all add: leader ra_find_blk_def)
  then have "tb_hash (rblk c' 2) = h256 5" "?e \<in> edges (tb_graph (rblk c' 2))"
    unfolding example_make by (auto simp: example_new_def)
  moreover have "?e \<notin> edges two_commands" by (simp add: edges_def kids_def)
  ultimately show ?thesis using c' by blast
qed

end
