(* ===== verification/Promise.thy ===== *)
theory Promise
  imports Prelude
begin

text \<open>
  The promises of \<open>include/hotstuff/promise.hpp\<close> (the copies of all four programs are the same), without
  \<open>CPPROMISE_USE_STACK_FREE\<close>. A promise is an entry of a store; a lambda given to \<open>then\<close> is a name of
  the client's type \<open>'k\<close>. Settling a promise runs its callbacks at once: the model returns what they
  do, as a list of actions in the order in which the loop runs them. The client runs the list from the
  left and puts what a callback starts in front of the rest, as the nested calls do.
\<close>

type_synonym pid = nat

text \<open>\<open>std::any\<close>: nothing, a value, or the vector of values that \<open>all\<close> collects.\<close>

datatype 'v pm_any = Empty | Any 'v | Values "'v pm_any list"

datatype 'v pm_state = Pending | Fulfilled "'v pm_any" | Rejected "'v pm_any"

text \<open>
  A callback: run a continuation and settle the promise that \<open>then\<close> returned, pass the result or the
  reason on to it, or count a value in for \<open>all\<close>.
\<close>

datatype 'k callback = Run 'k pid | Pass pid | All_Value nat nat pid

record ('k, 'v) promise =
  pm_state :: "'v pm_state"
  fulfilled_callbacks :: "'k callback list"
  rejected_callbacks :: "'k callback list"

text \<open>The \<open>shared_ptr\<close>s of \<open>all\<close>: how many values are missing, and the values.\<close>

record 'v all_ctx =
  missing :: nat
  results :: "'v pm_any list"

record ('k, 'v) pstore =
  pms :: "pid \<Rightarrow> ('k, 'v) promise"
  next_pid :: nat
  ctxs :: "nat \<Rightarrow> 'v all_ctx"
  next_ctx :: nat

datatype ('k, 'v) pact =
    Invoke 'k "'v pm_any" pid
  | Invoke_Rejected 'k "'v pm_any" pid
  | Resolve pid "'v pm_any"
  | Reject pid "'v pm_any"
  | Collect nat nat pid "'v pm_any"

subsection \<open>The operations\<close>

definition promise_new :: "('k, 'v) pstore \<Rightarrow> pid \<times> ('k, 'v) pstore" where
  "promise_new st =
     (next_pid st, st\<lparr>pms := (pms st)(next_pid st := \<lparr>pm_state = Pending, fulfilled_callbacks = [], rejected_callbacks = []\<rparr>),
        next_pid := next_pid st + 1\<rparr>)"

fun on_fulfilled :: "'v pm_any \<Rightarrow> 'k callback \<Rightarrow> ('k, 'v) pact" where
  "on_fulfilled v (Run k npm) = Invoke k v npm"
| "on_fulfilled v (Pass npm) = Resolve npm v"
| "on_fulfilled v (All_Value c i npm) = Collect c i npm v"

fun on_rejected :: "'v pm_any \<Rightarrow> 'k callback \<Rightarrow> ('k, 'v) pact" where
  "on_rejected v (Run k npm) = Invoke_Rejected k v npm"
| "on_rejected v (Pass npm) = Reject npm v"
| "on_rejected v (All_Value c i npm) = Reject npm v"

definition set_promise :: "pid \<Rightarrow> ('k, 'v) promise \<Rightarrow> ('k, 'v) pstore \<Rightarrow> ('k, 'v) pstore" where
  "set_promise p pm st = st\<lparr>pms := (pms st)(p := pm)\<rparr>"

definition resolve :: "pid \<Rightarrow> 'v pm_any \<Rightarrow> ('k, 'v) pstore \<Rightarrow> ('k, 'v) pact list \<times> ('k, 'v) pstore" where
  "resolve p v st =
     (let pm = pms st p
      in if pm_state pm = Pending
         then (map (on_fulfilled v) (fulfilled_callbacks pm),
               set_promise p (pm\<lparr>pm_state := Fulfilled v, fulfilled_callbacks := []\<rparr>) st)
         else ([], st))"

definition reject :: "pid \<Rightarrow> 'v pm_any \<Rightarrow> ('k, 'v) pstore \<Rightarrow> ('k, 'v) pact list \<times> ('k, 'v) pstore" where
  "reject p v st =
     (let pm = pms st p
      in if pm_state pm = Pending
         then (map (on_rejected v) (rejected_callbacks pm),
               set_promise p (pm\<lparr>pm_state := Rejected v, rejected_callbacks := []\<rparr>) st)
         else ([], st))"

text \<open>
  A pair of callbacks is added to a pending promise; of a settled one the matching callback runs at
  once.
\<close>

definition attach :: "pid \<Rightarrow> 'k callback \<Rightarrow> 'k callback \<Rightarrow> ('k, 'v) pstore \<Rightarrow> ('k, 'v) pact list \<times> ('k, 'v) pstore" where
  "attach p f r st =
     (case pm_state (pms st p) of
        Pending \<Rightarrow> ([], set_promise p ((pms st p)
          \<lparr>fulfilled_callbacks := fulfilled_callbacks (pms st p) @ [f],
           rejected_callbacks := rejected_callbacks (pms st p) @ [r]\<rparr>) st)
      | Fulfilled v \<Rightarrow> ([on_fulfilled v f], st)
      | Rejected v \<Rightarrow> ([on_rejected v r], st))"

text \<open>\<open>then\<close> with one and with two continuations, and \<open>fail\<close>: the promise they return and what runs.\<close>

definition pm_then :: "pid \<Rightarrow> 'k \<Rightarrow> ('k, 'v) pstore \<Rightarrow> pid \<times> ('k, 'v) pact list \<times> ('k, 'v) pstore" where
  "pm_then p k st = (let (npm, st) = promise_new st in (npm, attach p (Run k npm) (Pass npm) st))"

definition pm_then2 :: "pid \<Rightarrow> 'k \<Rightarrow> 'k \<Rightarrow> ('k, 'v) pstore \<Rightarrow> pid \<times> ('k, 'v) pact list \<times> ('k, 'v) pstore" where
  "pm_then2 p k r st = (let (npm, st) = promise_new st in (npm, attach p (Run k npm) (Run r npm) st))"

definition pm_fail :: "pid \<Rightarrow> 'k \<Rightarrow> ('k, 'v) pstore \<Rightarrow> pid \<times> ('k, 'v) pact list \<times> ('k, 'v) pstore" where
  "pm_fail p r st = (let (npm, st) = promise_new st in (npm, attach p (Pass npm) (Run r npm) st))"

text \<open>
  The loops of \<open>all\<close> and \<open>race\<close>. The continuations given to \<open>pm->then\<close> there settle \<open>npm\<close> themselves;
  the promises that those calls return are dropped.
\<close>

fun attach_all :: "(nat \<Rightarrow> 'k callback) \<Rightarrow> 'k callback \<Rightarrow> nat \<Rightarrow> pid list \<Rightarrow> ('k, 'v) pstore
    \<Rightarrow> ('k, 'v) pact list \<times> ('k, 'v) pstore" where
  "attach_all f r i [] st = ([], st)"
| "attach_all f r i (p # ps) st =
     (let (as, st) = attach p (f i) r st; (bs, st) = attach_all f r (i + 1) ps st in (as @ bs, st))"

definition pm_all :: "pid list \<Rightarrow> ('k, 'v) pstore \<Rightarrow> err + pid \<times> ('k, 'v) pact list \<times> ('k, 'v) pstore" where
  "pm_all ps st =
     (if ps = [] then Inl (Runtime_Error ''mismatching promise value types'')
      else let (npm, st) = promise_new st; c = next_ctx st;
               st = st\<lparr>ctxs := (ctxs st)(c := \<lparr>missing = length ps, results = replicate (length ps) Empty\<rparr>),
                       next_ctx := c + 1\<rparr>
           in Inr (npm, attach_all (\<lambda>i. All_Value c i npm) (Pass npm) 0 ps st))"

definition pm_race :: "pid list \<Rightarrow> ('k, 'v) pstore \<Rightarrow> pid \<times> ('k, 'v) pact list \<times> ('k, 'v) pstore" where
  "pm_race ps st =
     (let (npm, st) = promise_new st in (npm, attach_all (\<lambda>i. Pass npm) (Pass npm) 0 ps st))"

text \<open>The body of the continuation that \<open>all\<close> gives to its \<open>i\<close>-th promise.\<close>

definition collect :: "nat \<Rightarrow> nat \<Rightarrow> pid \<Rightarrow> 'v pm_any \<Rightarrow> ('k, 'v) pstore \<Rightarrow> ('k, 'v) pact list \<times> ('k, 'v) pstore" where
  "collect c i npm v st =
     (let x = ctxs st c; x = x\<lparr>results := (results x)[i := v], missing := missing x - 1\<rparr>
      in (if missing x = 0 then [Resolve npm (Values (results x))] else [], st\<lparr>ctxs := (ctxs st)(c := x)\<rparr>))"


subsection \<open>A continuation runs once\<close>

text \<open>A sequence of calls on the promises of a store, and what they make run.\<close>

datatype ('k, 'v) pm_op = Op_Then pid 'k | Op_Resolve pid "'v pm_any" | Op_Reject pid "'v pm_any"

fun perform :: "('k, 'v) pm_op \<Rightarrow> ('k, 'v) pstore \<Rightarrow> ('k, 'v) pact list \<times> ('k, 'v) pstore" where
  "perform (Op_Then p k) st = snd (pm_then p k st)"
| "perform (Op_Resolve p v) st = resolve p v st"
| "perform (Op_Reject p v) st = reject p v st"

fun perform_all :: "('k, 'v) pm_op list \<Rightarrow> ('k, 'v) pstore \<Rightarrow> ('k, 'v) pact list" where
  "perform_all [] st = []"
| "perform_all (x # xs) st = (let (as, st) = perform x st in as @ perform_all xs st)"

text \<open>The values that \<open>k\<close> is invoked with.\<close>

fun invoked :: "'k \<Rightarrow> ('k, 'v) pact list \<Rightarrow> 'v pm_any list" where
  "invoked k [] = []"
| "invoked k (Invoke k' v npm # as) = (if k' = k then v # invoked k as else invoked k as)"
| "invoked k (_ # as) = invoked k as"

text \<open>How the first call that settles \<open>p\<close> settles it.\<close>

fun settled :: "pid \<Rightarrow> ('k, 'v) pm_op list \<Rightarrow> 'v pm_state" where
  "settled p [] = Pending"
| "settled p (Op_Then q k # xs) = settled p xs"
| "settled p (Op_Resolve q v # xs) = (if q = p then Fulfilled v else settled p xs)"
| "settled p (Op_Reject q v # xs) = (if q = p then Rejected v else settled p xs)"

definition waiting :: "'k \<Rightarrow> 'k callback list \<Rightarrow> nat" where
  "waiting k cbs = length (filter (\<lambda>cb. case cb of Run k' npm \<Rightarrow> k' = k | _ \<Rightarrow> False) cbs)"

lemma invoked_append: "invoked k (as @ bs) = invoked k as @ invoked k bs"
  by (induction as rule: invoked.induct) auto

lemma invoked_fulfilled: "invoked k (map (on_fulfilled v) cbs) = replicate (waiting k cbs) v"
proof (induction cbs)
  case (Cons cb cbs)
  then show ?case by (cases cb) (auto simp: waiting_def)
qed (simp add: waiting_def)

lemma invoked_rejected: "invoked k (map (on_rejected v) cbs) = []"
proof (induction cbs)
  case (Cons cb cbs)
  then show ?case by (cases cb) auto
qed simp

lemma waiting_append: "waiting k (xs @ ys) = waiting k xs + waiting k ys"
  by (simp add: waiting_def)

lemma waiting_simps [simp]:
  "waiting k [] = 0" "waiting k [Run k' npm] = (if k' = k then 1 else 0)" "waiting k [Pass npm] = 0"
  by (simp_all add: waiting_def)

lemmas pm_defs = pm_then_def promise_new_def attach_def set_promise_def resolve_def reject_def Let_def

lemma perform_other:
  assumes "\<And>q. q \<noteq> p \<Longrightarrow> waiting k (fulfilled_callbacks (pms st q)) = 0" and "\<And>q. x = Op_Then q k \<Longrightarrow> q = p" and "q \<noteq> p"
  shows "waiting k (fulfilled_callbacks (pms (snd (perform x st)) q)) = 0"
  using assms by (cases x) (auto simp: pm_defs waiting_append split: pm_state.split)

lemma perform_next: "next_pid st \<le> next_pid (snd (perform x st))"
  by (cases x) (auto simp: pm_defs split: pm_state.split)

lemma perform_then:
  assumes "p < next_pid st"
  shows "pms (snd (perform (Op_Then q k) st)) p =
      (if q = p \<and> pm_state (pms st p) = Pending
       then (pms st p)\<lparr>fulfilled_callbacks := fulfilled_callbacks (pms st p) @ [Run k (next_pid st)],
                       rejected_callbacks := rejected_callbacks (pms st p) @ [Pass (next_pid st)]\<rparr>
       else pms st p)"
    and "fst (perform (Op_Then p k) st) =
      (case pm_state (pms st p) of Pending \<Rightarrow> [] | Fulfilled v \<Rightarrow> [Invoke k v (next_pid st)] | Rejected v \<Rightarrow> [Reject (next_pid st) v])"
  using assms by (auto simp: pm_defs split: pm_state.split)

lemma invoked_then: "k' \<noteq> k \<Longrightarrow> invoked k (fst (perform (Op_Then q k') st)) = []"
  by (auto simp: pm_defs split: pm_state.split)

lemma perform_all_invoked:
  assumes "p < next_pid st" and "\<And>q. q \<noteq> p \<Longrightarrow> waiting k (fulfilled_callbacks (pms st q)) = 0"
    and "\<And>q. Op_Then q k \<in> set xs \<Longrightarrow> q = p"
  shows "invoked k (perform_all xs st) =
    (case pm_state (pms st p) of
       Pending \<Rightarrow> (case settled p xs of
           Fulfilled v \<Rightarrow> replicate (waiting k (fulfilled_callbacks (pms st p)) + count_list xs (Op_Then p k)) v
         | _ \<Rightarrow> [])
     | Fulfilled v \<Rightarrow> replicate (count_list xs (Op_Then p k)) v
     | Rejected v \<Rightarrow> [])"
  using assms
proof (induction xs arbitrary: st)
  case Nil
  then show ?case by (auto split: pm_state.split)
next
  case (Cons x xs)
  let ?t = "perform x st"
  have IH: "invoked k (perform_all xs (snd ?t)) =
    (case pm_state (pms (snd ?t) p) of
       Pending \<Rightarrow> (case settled p xs of
           Fulfilled v \<Rightarrow> replicate (waiting k (fulfilled_callbacks (pms (snd ?t) p)) + count_list xs (Op_Then p k)) v
         | _ \<Rightarrow> [])
     | Fulfilled v \<Rightarrow> replicate (count_list xs (Op_Then p k)) v
     | Rejected v \<Rightarrow> [])"
    using Cons.prems(1,3) perform_next [of st x] perform_other [OF Cons.prems(2), where x = x]
    by (intro Cons.IH) auto
  have step: "invoked k (perform_all (x # xs) st) = invoked k (fst ?t) @ invoked k (perform_all xs (snd ?t))"
    by (simp add: split_beta invoked_append)
  show ?case
  proof (cases x)
    case (Op_Then q k')
    have "q = p" if "k' = k"
      using Cons.prems(3) that by (simp add: Op_Then)
    then show ?thesis
      unfolding step IH unfolding Op_Then
      using Cons.prems(1) invoked_then [of k' k q st]
      by (cases "k' = k"; cases "q = p")
         (auto simp: perform_then waiting_append count_list_append simp del: perform.simps split: pm_state.split)
  next
    case (Op_Resolve q v)
    then show ?thesis
      unfolding step IH using Cons.prems(2) [of q]
      by (auto simp: resolve_def set_promise_def Let_def invoked_fulfilled replicate_add split: pm_state.split)
  next
    case (Op_Reject q v)
    then show ?thesis
      unfolding step IH
      by (auto simp: reject_def set_promise_def Let_def invoked_rejected split: pm_state.split)
  qed
qed


text \<open>
  C26: a continuation that is given to \<open>then\<close> of a pending promise runs once for each time it is given,
  with the value of the first call that settles the promise, whether it is given before or after that
  call; when the first such call rejects the promise, or there is none, it never runs.
\<close>

theorem continuation_runs_once:
  assumes "pm_state (pms st p) = Pending" and "p < next_pid st" and "\<And>q. fulfilled_callbacks (pms st q) = []"
    and "\<And>q. Op_Then q k \<in> set xs \<Longrightarrow> q = p"
  shows "invoked k (perform_all xs st) =
    (case settled p xs of Fulfilled v \<Rightarrow> replicate (count_list xs (Op_Then p k)) v | _ \<Rightarrow> [])"
  using perform_all_invoked [of p st k xs] assms by (auto split: pm_state.split)

definition pstore_new :: "('k, 'v) pstore" where
  "pstore_new = \<lparr>pms = \<lambda>p. \<lparr>pm_state = Pending, fulfilled_callbacks = [], rejected_callbacks = []\<rparr>, next_pid = 0,
     ctxs = \<lambda>c. \<lparr>missing = 0, results = []\<rparr>, next_ctx = 0\<rparr>"

theorem continuation_runs_once_witness:
  "invoked ''k'' (perform_all [Op_Then 0 ''k'', Op_Resolve 0 (Any (7 :: nat)), Op_Reject 0 Empty, Op_Resolve 0 (Any 8), Op_Then 0 ''k'']
     (snd (promise_new pstore_new))) = [Any 7, Any 7]"
proof -
  let ?xs = "[Op_Then 0 ''k'', Op_Resolve 0 (Any (7 :: nat)), Op_Reject 0 Empty, Op_Resolve 0 (Any 8), Op_Then 0 ''k'']"
  let ?st = "snd (promise_new pstore_new) :: (string, nat) pstore"
  have "pm_state (pms ?st 0) = Pending" "0 < next_pid ?st" "\<And>q. fulfilled_callbacks (pms ?st q) = []"
    and "\<And>q. Op_Then q ''k'' \<in> set ?xs \<Longrightarrow> q = 0"
    by (auto simp: promise_new_def pstore_new_def)
  then have "invoked ''k'' (perform_all ?xs ?st) =
      (case settled 0 ?xs of Fulfilled v \<Rightarrow> replicate (count_list ?xs (Op_Then 0 ''k'')) v | _ \<Rightarrow> [])"
    by (rule continuation_runs_once)
  then show ?thesis by (simp add: numeral_2_eq_2)
qed

subsection \<open>The values of \<open>all\<close>\<close>

text \<open>The store runs what \<open>all\<close> has registered; the rest is for the client.\<close>

fun run_collects :: "('k, 'v) pact list \<Rightarrow> ('k, 'v) pstore \<Rightarrow> ('k, 'v) pact list \<times> ('k, 'v) pstore" where
  "run_collects [] st = ([], st)"
| "run_collects (Collect c i npm v # as) st =
     (let (bs, st) = collect c i npm v st; (cs, st) = run_collects as st in (bs @ cs, st))"
| "run_collects (a # as) st = (let (cs, st) = run_collects as st in (a # cs, st))"

fun resolve_each :: "(pid \<times> 'v pm_any) list \<Rightarrow> ('k, 'v) pstore \<Rightarrow> ('k, 'v) pact list \<times> ('k, 'v) pstore" where
  "resolve_each [] st = ([], st)"
| "resolve_each ((p, v) # pvs) st =
     (let (as, st) = resolve p v st; (bs, st) = run_collects as st; (cs, st) = resolve_each pvs st in (bs @ cs, st))"

lemma attach_all_pending:
  assumes "distinct ps" and "\<And>p. p \<in> set ps \<Longrightarrow> pm_state (pms st p) = Pending \<and> fulfilled_callbacks (pms st p) = []"
  shows "\<exists>st'. attach_all f r i ps st = ([], st') \<and> ctxs st' = ctxs st \<and> (\<forall>q. q \<notin> set ps \<longrightarrow> pms st' q = pms st q) \<and>
    (\<forall>j < length ps. pm_state (pms st' (ps ! j)) = Pending \<and> fulfilled_callbacks (pms st' (ps ! j)) = [f (i + j)])"
  using assms
proof (induction ps arbitrary: i st)
  case (Cons p ps)
  define st1 where "st1 = snd (attach p (f i) r st)"
  have p: "attach p (f i) r st = ([], st1)" "ctxs st1 = ctxs st" "pm_state (pms st1 p) = Pending"
    "fulfilled_callbacks (pms st1 p) = [f i]" "\<And>q. q \<noteq> p \<Longrightarrow> pms st1 q = pms st q"
    using Cons.prems(2) [of p] by (auto simp: st1_def attach_def set_promise_def)
  have "\<exists>st'. attach_all f r (i + 1) ps st1 = ([], st') \<and> ctxs st' = ctxs st1 \<and> (\<forall>q. q \<notin> set ps \<longrightarrow> pms st' q = pms st1 q) \<and>
    (\<forall>j < length ps. pm_state (pms st' (ps ! j)) = Pending \<and> fulfilled_callbacks (pms st' (ps ! j)) = [f (i + 1 + j)])"
  proof (rule Cons.IH)
    fix q assume "q \<in> set ps"
    then show "pm_state (pms st1 q) = Pending \<and> fulfilled_callbacks (pms st1 q) = []"
      using Cons.prems(1) Cons.prems(2) [of q] p(5) [of q] by (cases "q = p") auto
  qed (use Cons.prems(1) in simp)
  then obtain st' where st': "attach_all f r (i + 1) ps st1 = ([], st')" "ctxs st' = ctxs st1"
    "\<forall>q. q \<notin> set ps \<longrightarrow> pms st' q = pms st1 q"
    "\<forall>j < length ps. pm_state (pms st' (ps ! j)) = Pending \<and> fulfilled_callbacks (pms st' (ps ! j)) = [f (i + 1 + j)]"
    by (elim exE conjE) (rule that)
  have "pms st' p = pms st1 p"
    using st'(3) Cons.prems(1) by simp
  then have "\<forall>j < length (p # ps). pm_state (pms st' ((p # ps) ! j)) = Pending \<and> fulfilled_callbacks (pms st' ((p # ps) ! j)) = [f (i + j)]"
    using p(3,4) st'(4) by (auto simp: nth_Cons split: nat.split)
  moreover have "\<forall>q. q \<notin> set (p # ps) \<longrightarrow> pms st' q = pms st q"
    using st'(3) p(5) by auto
  ultimately show ?case
    using p(1,2) st'(1,2) by (intro exI [of _ st']) simp
qed simp

text \<open>
  The state of a collection of which the promises \<open>got\<close> are resolved: the values that they bring are
  in place, the other promises still wait.
\<close>

definition collecting :: "pid list \<Rightarrow> nat \<Rightarrow> pid \<Rightarrow> (pid \<times> 'v pm_any) list \<Rightarrow> ('k, 'v) pstore \<Rightarrow> bool" where
  "collecting ps c npm got st \<longleftrightarrow>
     ctxs st c = \<lparr>missing = length ps - length got,
       results = map (\<lambda>p. case map_of got p of None \<Rightarrow> Empty | Some v \<Rightarrow> v) ps\<rparr> \<and>
     (\<forall>j < length ps. ps ! j \<notin> fst ` set got \<longrightarrow>
        pm_state (pms st (ps ! j)) = Pending \<and> fulfilled_callbacks (pms st (ps ! j)) = [All_Value c j npm])"

lemma collecting_step:
  assumes "collecting ps c npm got st" and "distinct ps" and "p \<in> set ps" and "p \<notin> fst ` set got" and "length got < length ps"
  shows "\<exists>st'. run_collects (fst (resolve p v st)) (snd (resolve p v st)) =
      (if length ps = Suc (length got)
       then [Resolve npm (Values (map (\<lambda>q. case map_of ((p, v) # got) q of None \<Rightarrow> Empty | Some v \<Rightarrow> v) ps))] else [], st') \<and>
    collecting ps c npm ((p, v) # got) st'"
proof -
  obtain j where j: "j < length ps" "ps ! j = p"
    using assms(3) by (auto simp: in_set_conv_nth)
  let ?val = "\<lambda>got q. case map_of got q of None \<Rightarrow> Empty | Some v \<Rightarrow> v"
  let ?st = "set_promise p (pms st p\<lparr>pm_state := Fulfilled v, fulfilled_callbacks := []\<rparr>) st"
  have p: "pm_state (pms st p) = Pending" "fulfilled_callbacks (pms st p) = [All_Value c j npm]"
    and c: "ctxs st c = \<lparr>missing = length ps - length got, results = map (?val got) ps\<rparr>"
    using assms(1,4) j by (auto simp: collecting_def)
  have res: "resolve p v st = ([Collect c j npm v], ?st)"
    using p by (simp add: resolve_def)
  have upd: "(map (?val got) ps)[j := v] = map (?val ((p, v) # got)) ps"
  proof (rule nth_equalityI)
    fix i assume "i < length ((map (?val got) ps)[j := v])"
    then show "(map (?val got) ps)[j := v] ! i = map (?val ((p, v) # got)) ps ! i"
      using j nth_eq_iff_index_eq [OF assms(2), of i j] by (auto simp: nth_list_update)
  qed simp
  let ?x = "\<lparr>missing = length ps - Suc (length got), results = map (?val ((p, v) # got)) ps\<rparr>"
  let ?st' = "?st\<lparr>ctxs := (ctxs ?st)(c := ?x)\<rparr>"
  have col: "collect c j npm v ?st =
      (if length ps = Suc (length got) then [Resolve npm (Values (results ?x))] else [], ?st')"
    using assms(5) c upd by (auto simp: collect_def set_promise_def Let_def)
  have "collecting ps c npm ((p, v) # got) ?st'"
    using assms(1) by (auto simp: collecting_def set_promise_def)
  then show ?thesis
    unfolding res fst_conv snd_conv run_collects.simps col by auto
qed

lemma collecting_all:
  assumes "collecting ps c npm got st" and "distinct ps" and "distinct (map fst (rev pvs @ got))"
    and "fst ` set (rev pvs @ got) = set ps" and "pvs \<noteq> []"
  shows "fst (resolve_each pvs st) =
    [Resolve npm (Values (map (\<lambda>p. the (map_of (rev pvs @ got) p)) ps))]"
  using assms
proof (induction pvs arbitrary: got st)
  case (Cons pv pvs)
  obtain p v where pv: "pv = (p, v)" by (cases pv)
  have p: "p \<in> set ps" "p \<notin> fst ` set got"
    using Cons.prems(3,4) by (auto simp: pv)
  have len: "length ps = length (rev (pv # pvs) @ got)"
    using distinct_card [OF Cons.prems(2)] distinct_card [OF Cons.prems(3)] Cons.prems(4)
    by (simp only: set_map length_map)
  obtain st' where st': "run_collects (fst (resolve p v st)) (snd (resolve p v st)) =
      (if length ps = Suc (length got)
       then [Resolve npm (Values (map (\<lambda>q. case map_of ((p, v) # got) q of None \<Rightarrow> Empty | Some v \<Rightarrow> v) ps))] else [], st')"
    "collecting ps c npm ((p, v) # got) st'"
    using collecting_step [OF Cons.prems(1,2) p, of v] len by auto
  have step: "fst (resolve_each (pv # pvs) st) =
      (if pvs = [] then [Resolve npm (Values (map (\<lambda>q. case map_of ((p, v) # got) q of None \<Rightarrow> Empty | Some v \<Rightarrow> v) ps))] else [])
      @ fst (resolve_each pvs st')"
    using st'(1) len by (simp add: pv split_beta)
  show ?case
  proof (cases "pvs = []")
    case True
    have "map_of ((p, v) # got) q \<noteq> None" if "q \<in> set ps" for q
      using that Cons.prems(4) unfolding map_of_eq_None_iff by (simp add: True pv)
    then have "(case map_of ((p, v) # got) q of None \<Rightarrow> Empty | Some v \<Rightarrow> v) = the (map_of ((p, v) # got) q)" if "q \<in> set ps" for q
      using that by fastforce
    then show ?thesis
      unfolding step by (simp add: True pv cong: map_cong)
  next
    case False
    then show ?thesis
      unfolding step using Cons.IH [OF st'(2) Cons.prems(2)] Cons.prems(3,4) by (simp add: pv)
  qed
qed simp

text \<open>
  \<open>all\<close> of distinct pending promises resolves, once all of them are resolved in any order, with
  their values in the order of the list, and not before.
\<close>

theorem all_resolves:
  assumes "ps \<noteq> []" and "distinct ps" and "\<forall>p \<in> set ps. p < next_pid st \<and> pm_state (pms st p) = Pending \<and> fulfilled_callbacks (pms st p) = []"
    and "distinct (map fst pvs)" and "fst ` set pvs = set ps"
  shows "\<exists>npm st'. pm_all ps st = Inr (npm, [], st') \<and>
    fst (resolve_each pvs st') = [Resolve npm (Values (map (\<lambda>p. the (map_of pvs p)) ps))]"
proof -
  define npm where "npm = next_pid st"
  define c where "c = next_ctx st"
  define st0 where "st0 = (snd (promise_new st))\<lparr>ctxs := (ctxs st)(c := \<lparr>missing = length ps, results = replicate (length ps) Empty\<rparr>), next_ctx := c + 1\<rparr>"
  have pend: "pm_state (pms st0 p) = Pending \<and> fulfilled_callbacks (pms st0 p) = []" if "p \<in> set ps" for p
    using assms(3) that by (auto simp: st0_def promise_new_def)
  have "\<exists>st'. attach_all (\<lambda>i. All_Value c i npm) (Pass npm) 0 ps st0 = ([], st') \<and> ctxs st' = ctxs st0 \<and>
    (\<forall>q. q \<notin> set ps \<longrightarrow> pms st' q = pms st0 q) \<and>
    (\<forall>j < length ps. pm_state (pms st' (ps ! j)) = Pending \<and> fulfilled_callbacks (pms st' (ps ! j)) = [All_Value c (0 + j) npm])"
    by (rule attach_all_pending [OF assms(2)]) (rule pend)
  then obtain st' where st': "attach_all (\<lambda>i. All_Value c i npm) (Pass npm) 0 ps st0 = ([], st')" "ctxs st' = ctxs st0"
    "\<forall>j < length ps. pm_state (pms st' (ps ! j)) = Pending \<and> fulfilled_callbacks (pms st' (ps ! j)) = [All_Value c (0 + j) npm]"
    by (elim exE conjE) (rule that)
  have "pm_all ps st = Inr (npm, [], st')"
    using assms(1) st'(1) by (simp add: pm_all_def promise_new_def Let_def st0_def npm_def c_def)
  moreover have "collecting ps c npm [] st'"
    using st'(2,3) by (simp add: collecting_def st0_def map_replicate_const)
  then have "fst (resolve_each pvs st') = [Resolve npm (Values (map (\<lambda>p. the (map_of (rev pvs @ []) p)) ps))]"
    using assms(1,2,4,5) by (intro collecting_all) (auto simp: rev_map [symmetric])
  moreover have "map_of (rev pvs) = map_of pvs"
    using assms(4) by (metis map_of_inject_set distinct_rev rev_map set_rev)
  ultimately show ?thesis
    by (intro exI [of _ npm] exI [of _ st']) simp
qed

theorem all_resolves_witness:
  "\<exists>npm st'. pm_all [0, 1] (snd (promise_new (snd (promise_new pstore_new)))) = Inr (npm, [], st') \<and>
    fst (resolve_each [(1, Any (8 :: nat)), (0, Any 7)] (st' :: (string, nat) pstore)) = [Resolve npm (Values [Any 7, Any 8])]"
proof -
  let ?st = "snd (promise_new (snd (promise_new pstore_new))) :: (string, nat) pstore"
  have "\<forall>p \<in> set [0, 1]. p < next_pid ?st \<and> pm_state (pms ?st p) = Pending \<and> fulfilled_callbacks (pms ?st p) = []"
    by (simp add: promise_new_def pstore_new_def)
  from all_resolves [OF _ _ this, of "[(1, Any 8), (0, Any 7)]"] show ?thesis
    by auto
qed

text \<open>\<open>all\<close> of no promises throws; so does a request for no blocks.\<close>

theorem all_of_nothing_throws: "pm_all [] st = Inl (Runtime_Error ''mismatching promise value types'')"
  by (simp add: pm_all_def)

end
