(* ===== verification/Replica_State.thy ===== *)
theory Replica_State
  imports Messages Promise
begin

text \<open>
  The state of a FlashOrder replica: the core, its pace maker, the tables of \<open>HotStuffBase\<close>
  (\<open>flashorder/include/hotstuff/hotstuff.h\<close>), the promises, the verification pool
  (\<open>hotstuff/task.h\<close>) and what has been sent.

  The lambdas of the code are the constructors of \<open>kont\<close>. A call that runs other code of the replica
  on its way (a promise it resolves, a virtual output of the core) is a list of actions. The actions
  that an action leads to go in front of the rest, so that they run inside it, as nested calls do.
  The core records its outputs while a handler runs and they are acted on behind it, in their order.
  What an output runs while the call still has work to do (the pace maker's part of a new certificate
  or of a commit, the callbacks of a decision) calls no handler of the core and looks at no part of
  the core that this work changes; an output that does (a certificate, a vote) comes behind the work.
  An exception ends the handler: \<open>Raise\<close> one of the replica, \<open>Threw\<close> one that comes out of the core.
\<close>

datatype val = V_Blk ref | V_Bool bool | V_Rid replica_id | V_Prop proposal

datatype kont =
    K_Return_Prop                       \<comment> \<open>\<open>async_wait_proposal\<close>, \<open>async_wait_receive_proposal\<close>\<close>
  | K_Return_Hqc                        \<comment> \<open>\<open>async_hqc_update\<close>\<close>
  | K_Hqc_Tail                          \<comment> \<open>\<open>PMHighTail::reg_hqc_update\<close>\<close>
  | K_Proposal_Tail                     \<comment> \<open>\<open>PMHighTail::reg_proposal\<close>\<close>
  | K_Receive_Tail                      \<comment> \<open>\<open>PMHighTail::reg_receive_proposal\<close>\<close>
  | K_Qc_Finish pid                     \<comment> \<open>\<open>schedule_next\<close>, with the beat it resolves\<close>
  | K_Proposed                          \<comment> \<open>\<open>update_last_proposed\<close>\<close>
  | K_Reg_Proposal                      \<comment> \<open>\<open>PMRoundRobinProposer::reg_proposal\<close>\<close>
  | K_Reg_Receive                       \<comment> \<open>\<open>PMRoundRobinProposer::reg_receive_proposal\<close>\<close>
  | K_Manual nat                        \<comment> \<open>\<open>do_new_consensus\<close>\<close>
  | K_Propose "uint256 list"            \<comment> \<open>\<open>process_local_order\<close>\<close>
  | K_Send_Vote vote                    \<comment> \<open>\<open>do_vote\<close>\<close>
  | K_Fetched peer_id                   \<comment> \<open>\<open>async_deliver_blk\<close>, the block is there\<close>
  | K_Deliver ref                       \<comment> \<open>\<open>async_deliver_blk\<close>, all it needs is there\<close>
  | K_Receive_Proposal proposal         \<comment> \<open>\<open>propose_handler\<close>\<close>
  | K_Receive_Vote vote                 \<comment> \<open>\<open>vote_handler\<close>\<close>
  | K_Respond peer_id                   \<comment> \<open>\<open>req_blk_handler\<close>\<close>
  | K_All_True                          \<comment> \<open>\<open>QuorumCertSecp256k1::verify\<close>\<close>
  | K_Vote_Valid vote                   \<comment> \<open>\<open>Vote::verify\<close>\<close>

datatype action =
    P "(kont, val) pact"
  | Then pid kont
  | Ev event
  | Raise err | Threw err
  | Schedule_Next | Wait_Qc_Finish pid | Set_Locked | Update_Last_Proposed | Wait_Proposal
  | New_Consensus nat | Wait_Manual nat ref | Set_Rotate_Timer
  | Gather ref peer_id "uint256 list" "pid list"
  | Vote_Arrived vote pid
  | Fetched_Blk ref

datatype pm_kind = Dummy | Dummy_Fixed replica_id | Round_Robin

text \<open>The timer of the round-robin gadget: what it calls, and after how long.\<close>

datatype timer = No_Timer | Exp_Timer real | Rotate_Timer real

text \<open>
  A promise member that has not been assigned is \<open>None\<close>: nobody else holds it. The members from
  \<open>base_timeout\<close> on are those of \<open>PMRoundRobinProposer\<close>.
\<close>

record pacemaker =
  pm_kind :: pm_kind
  hqc_tail :: ref
  pending_beats :: "pid list"
  last_proposed :: ref
  pm_locked :: bool
  pm_qc_finish :: "pid option"
  pm_wait_propose :: "pid option"
  pm_qc_manual :: "pid option"
  base_timeout :: real
  exp_timeout :: real
  prop_delay :: real
  timer :: timer
  pm_proposer :: replica_id
  prop_blks :: "replica_id \<Rightarrow> ref option"
  rotating :: bool

record fetch_context =
  fc_promise :: pid
  fc_replicas :: "peer_id list"

datatype message =
    MsgPropose data_stream
  | MsgVote data_stream
  | MsgReqBlock data_stream
  | MsgRespBlock data_stream
  | MsgLocalOrder data_stream

record veri_task =
  vt_msg :: uint256
  vt_pubkey :: pubkey
  vt_sig :: sig

text \<open>
  \<open>waiting_commands\<close> is the queue that clients fill, \<open>callbacks\<close> what the commit callbacks of commands
  have been called with, \<open>executed\<close> what \<open>state_machine_execute\<close> has been called with.
\<close>

record replica =
  r_core :: core
  r_pm :: pacemaker
  promises :: "(kont, val) pstore"
  propose_waiting :: pid
  receive_proposal_waiting :: pid
  hqc_update_waiting :: pid
  qc_promise :: "ref \<Rightarrow> pid"
  blk_size :: nat
  peers :: "peer_id list"
  blk_fetch_waiting :: "(uint256 \<times> fetch_context) list"
  blk_delivery_waiting :: "(uint256 \<times> pid) list"
  decision_waiting :: "(uint256 \<times> nat) list"
  cmd_pending :: "(uint256 \<times> nat) list"
  local_order_buffer :: "uint256 list"
  timestamp_buffer :: "u64 list"
  veri_tasks :: "(pid \<times> veri_task) list"
  clock :: int
  sent :: "(peer_id \<times> message) list"
  executed :: "finality list"
  callbacks :: "(nat \<times> finality) list"

text \<open>
  What the replica takes from outside beyond what the core takes: the check of a signature, the parser
  of a signature, the order in which \<open>get_tails\<close> is traversed (a set of pointers) and the one of the
  replicas in the table of local orders.
\<close>

record renv =
  r_env :: env
  r_vrf :: "uint256 \<Rightarrow> pubkey \<Rightarrow> sig \<Rightarrow> bool"
  r_psig :: "bytes \<Rightarrow> sig option"
  r_tails :: "ref set \<Rightarrow> ref list"
  r_iter :: "replica_id list \<Rightarrow> replica_id list"

abbreviation get_id :: "replica \<Rightarrow> replica_id" where
  "get_id s \<equiv> core_id (r_core s)"

subsection \<open>Promises of the replica\<close>

definition new_promise :: "replica \<Rightarrow> pid \<times> replica" where
  "new_promise s = (let (p, st) = promise_new (promises s) in (p, s\<lparr>promises := st\<rparr>))"

text \<open>\<open>promise_t([](promise_t &pm) { pm.resolve(v); })\<close>\<close>

definition resolved_promise :: "val pm_any \<Rightarrow> replica \<Rightarrow> pid \<times> replica" where
  "resolved_promise v s =
     (let (p, s) = new_promise s in (p, s\<lparr>promises := snd (resolve p v (promises s))\<rparr>))"

definition r_then :: "pid \<Rightarrow> kont \<Rightarrow> replica \<Rightarrow> pid \<times> action list \<times> replica" where
  "r_then p k s = (let (npm, as, st) = pm_then p k (promises s) in (npm, map P as, s\<lparr>promises := st\<rparr>))"

text \<open>\<open>.then(k)\<close> whose result is dropped.\<close>

definition do_then :: "pid \<Rightarrow> kont \<Rightarrow> replica \<Rightarrow> action list \<times> replica" where
  "do_then p k s = snd (r_then p k s)"

definition reject_member :: "pid option \<Rightarrow> action list" where
  "reject_member h = (case h of None \<Rightarrow> [] | Some p \<Rightarrow> [P (Reject p Empty)])"

subsection \<open>Calls of the core\<close>

text \<open>The outputs of the call run, then what follows it, or the exception goes on.\<close>

definition new_events :: "core \<Rightarrow> core \<Rightarrow> action list" where
  "new_events c c' = map Ev (drop (length (events c)) (events c'))"

definition core_call :: "(core \<Rightarrow> ('a, core) res) \<Rightarrow> ('a \<Rightarrow> action list) \<Rightarrow> replica \<Rightarrow> action list \<times> replica" where
  "core_call f k s =
     (case f (r_core s) of
        Ok a c \<Rightarrow> (new_events (r_core s) c @ k a, s\<lparr>r_core := c\<rparr>)
      | Exc e c \<Rightarrow> (new_events (r_core s) c @ [Threw e], s\<lparr>r_core := c\<rparr>))"

text \<open>
  \<open>async_qc_finish\<close>: the core keeps the blocks that wait, \<open>qc_promise\<close> the promises of its table
  \<open>qc_waiting\<close>.
\<close>

definition r_async_qc_finish :: "ref \<Rightarrow> replica \<Rightarrow> pid \<times> replica" where
  "r_async_qc_finish b s =
     (let (now, c) = async_qc_finish b (r_core s)
      in if now then resolved_promise Empty s
         else if b \<in> qc_waiting (r_core s) then (qc_promise s b, s)
         else let (p, s) = new_promise (s\<lparr>r_core := c\<rparr>) in (p, s\<lparr>qc_promise := (qc_promise s)(b := p)\<rparr>))"

definition async_wait_proposal :: "replica \<Rightarrow> pid \<times> action list \<times> replica" where
  "async_wait_proposal s = r_then (propose_waiting s) K_Return_Prop s"

definition async_wait_receive_proposal :: "replica \<Rightarrow> pid \<times> action list \<times> replica" where
  "async_wait_receive_proposal s = r_then (receive_proposal_waiting s) K_Return_Prop s"

definition async_hqc_update :: "replica \<Rightarrow> pid \<times> action list \<times> replica" where
  "async_hqc_update s = r_then (hqc_update_waiting s) K_Return_Hqc s"

text \<open>\<open>on_propose_\<close>, \<open>on_receive_proposal_\<close> and \<open>on_hqc_update\<close> put a fresh promise in place first.\<close>

definition propose_done :: "proposal \<Rightarrow> replica \<Rightarrow> action list \<times> replica" where
  "propose_done prop s =
     (let t = propose_waiting s; (p, s) = new_promise s
      in ([P (Resolve t (Any (V_Prop prop)))], s\<lparr>propose_waiting := p\<rparr>))"

definition receive_proposal_done :: "proposal \<Rightarrow> replica \<Rightarrow> action list \<times> replica" where
  "receive_proposal_done prop s =
     (let t = receive_proposal_waiting s; (p, s) = new_promise s
      in ([P (Resolve t (Any (V_Prop prop)))], s\<lparr>receive_proposal_waiting := p\<rparr>))"

definition on_hqc_update :: "replica \<Rightarrow> action list \<times> replica" where
  "on_hqc_update s =
     (let t = hqc_update_waiting s; (p, s) = new_promise s
      in ([P (Resolve t Empty)], s\<lparr>hqc_update_waiting := p\<rparr>))"

end
