(* ===== verification/Pace_Maker.thy ===== *)
theory Pace_Maker
  imports Replica_State
begin

text \<open>
  The liveness gadgets of \<open>flashorder/include/hotstuff/liveness.h\<close>: \<open>PMHighTail\<close> selects the parent of
  a new block, \<open>PMWaitQC\<close> and \<open>PMRoundRobinProposer\<close> say when to propose and who is the proposer.
  \<open>PaceMakerDummy\<close>, \<open>PaceMakerDummyFixed\<close> and \<open>PaceMakerRR\<close> put them together. The members that
  \<open>PMWaitQC\<close> and \<open>PMRoundRobinProposer\<close> both have (and the methods that differ in name only) are shared.
\<close>

definition upd_pm :: "(pacemaker \<Rightarrow> pacemaker) \<Rightarrow> replica \<Rightarrow> replica" where
  "upd_pm f s = s\<lparr>r_pm := f (r_pm s)\<rparr>"

subsection \<open>PMHighTail\<close>

definition check_ancestry :: "heap \<Rightarrow> ref \<Rightarrow> ref \<Rightarrow> err + bool" where
  "check_ancestry hp a b = map_sum id (\<lambda>(bs, e). e = a) (walk_down hp (height (hp a)) b)"

fun highest_tail :: "heap \<Rightarrow> ref \<Rightarrow> ref list \<Rightarrow> ref \<Rightarrow> err + ref" where
  "highest_tail hp h [] best = Inr best"
| "highest_tail hp h (t # ts) best =
     (case check_ancestry hp h t of
        Inl e \<Rightarrow> Inl e
      | Inr anc \<Rightarrow> highest_tail hp h ts (if anc \<and> height (hp best) < height (hp t) then t else best))"

definition reg_hqc_update :: "replica \<Rightarrow> action list \<times> replica" where
  "reg_hqc_update s = (let (p, as, s) = async_hqc_update s in (as @ [Then p K_Hqc_Tail], s))"

definition reg_proposal :: "replica \<Rightarrow> action list \<times> replica" where
  "reg_proposal s = (let (p, as, s) = async_wait_proposal s in (as @ [Then p K_Proposal_Tail], s))"

definition reg_receive_proposal :: "replica \<Rightarrow> action list \<times> replica" where
  "reg_receive_proposal s = (let (p, as, s) = async_wait_receive_proposal s in (as @ [Then p K_Receive_Tail], s))"

text \<open>The three lambdas.\<close>

definition hqc_tail_new :: "renv \<Rightarrow> ref \<Rightarrow> replica \<Rightarrow> action list \<times> replica" where
  "hqc_tail_new re h s =
     (case highest_tail (heap (r_core s)) h (r_tails re (tails (r_core s))) h of
        Inl e \<Rightarrow> ([Raise e], s)
      | Inr t \<Rightarrow> reg_hqc_update (upd_pm (\<lambda>pm. pm\<lparr>hqc_tail := t\<rparr>) s))"

definition hqc_tail_proposed :: "proposal \<Rightarrow> replica \<Rightarrow> action list \<times> replica" where
  "hqc_tail_proposed prop s = reg_proposal (upd_pm (\<lambda>pm. pm\<lparr>hqc_tail := prop_blk prop\<rparr>) s)"

definition hqc_tail_received :: "proposal \<Rightarrow> replica \<Rightarrow> action list \<times> replica" where
  "hqc_tail_received prop s =
     (case hqc (r_core s) of
        None \<Rightarrow> ([Raise Undefined_Behaviour], s)
      | Some (h, qc) \<Rightarrow>
          (case check_ancestry (heap (r_core s)) h (prop_blk prop) of
             Inl e \<Rightarrow> ([Raise e], s)
           | Inr anc \<Rightarrow> reg_receive_proposal
               (if anc \<and> height (blk (r_core s) (hqc_tail (r_pm s))) < height (blk (r_core s) (prop_blk prop))
                then upd_pm (\<lambda>pm. pm\<lparr>hqc_tail := prop_blk prop\<rparr>) s else s)))"

definition high_tail_init :: "replica \<Rightarrow> action list \<times> replica" where
  "high_tail_init s =
     (let s = upd_pm (\<lambda>pm. pm\<lparr>hqc_tail := b0 (r_core s)\<rparr>) s;
          (as, s) = reg_hqc_update s; (bs, s) = reg_proposal s; (cs, s) = reg_receive_proposal s
      in (as @ bs @ cs, s))"

definition get_parents :: "replica \<Rightarrow> ref list" where
  "get_parents s = [hqc_tail (r_pm s)]"

subsection \<open>PMWaitQC\<close>

definition schedule_next :: "replica \<Rightarrow> action list \<times> replica" where
  "schedule_next s =
     (case pending_beats (r_pm s) of
        [] \<Rightarrow> ([], s)
      | p # ps \<Rightarrow>
          if pm_locked (r_pm s) then ([], s)
          else (reject_member (pm_qc_finish (r_pm s)) @ [Wait_Qc_Finish p, Set_Locked],
                upd_pm (\<lambda>pm. pm\<lparr>pending_beats := ps\<rparr>) s))"

text \<open>The assignment of \<open>pm_qc_finish\<close> in \<open>schedule_next\<close>, and the \<open>then\<close> on it.\<close>

definition wait_qc_finish :: "pid \<Rightarrow> replica \<Rightarrow> action list \<times> replica" where
  "wait_qc_finish p s =
     (let (q, s) = r_async_qc_finish (last_proposed (r_pm s)) s
      in do_then q (K_Qc_Finish p) (upd_pm (\<lambda>pm. pm\<lparr>pm_qc_finish := Some q\<rparr>) s))"

definition wait_proposal :: "replica \<Rightarrow> action list \<times> replica" where
  "wait_proposal s =
     (let (p, as, s) = async_wait_proposal s
      in (as @ [Then p K_Proposed], upd_pm (\<lambda>pm. pm\<lparr>pm_wait_propose := Some p\<rparr>) s))"

definition update_last_proposed :: "replica \<Rightarrow> action list" where
  "update_last_proposed s = reject_member (pm_wait_propose (r_pm s)) @ [Wait_Proposal]"

definition block_proposed :: "proposal \<Rightarrow> replica \<Rightarrow> action list \<times> replica" where
  "block_proposed prop s =
     ([Schedule_Next, Update_Last_Proposed], upd_pm (\<lambda>pm. pm\<lparr>last_proposed := prop_blk prop, pm_locked := False\<rparr>) s)"

definition wait_qc_init :: "replica \<Rightarrow> action list \<times> replica" where
  "wait_qc_init s =
     ([Update_Last_Proposed], upd_pm (\<lambda>pm. pm\<lparr>last_proposed := b0 (r_core s), pm_locked := False\<rparr>) s)"

definition get_proposer :: "replica \<Rightarrow> replica_id" where
  "get_proposer s =
     (case pm_kind (r_pm s) of Dummy \<Rightarrow> get_id s | Dummy_Fixed p \<Rightarrow> p | Round_Robin \<Rightarrow> pm_proposer (r_pm s))"

text \<open>\<open>beat\<close>, and the \<open>then\<close> that its one caller puts on it.\<close>

definition beat_then :: "kont \<Rightarrow> replica \<Rightarrow> action list \<times> replica" where
  "beat_then k s =
     (if pm_kind (r_pm s) = Round_Robin \<and> (rotating (r_pm s) \<or> pm_proposer (r_pm s) \<noteq> get_id s)
      then let (p, s) = resolved_promise (Any (V_Rid (pm_proposer (r_pm s)))) s in ([Then p k], s)
      else let (p, s) = new_promise s
           in ([Schedule_Next, Then p k], upd_pm (\<lambda>pm. pm\<lparr>pending_beats := pending_beats pm @ [p]\<rparr>) s))"

definition beat_resp :: "replica_id \<Rightarrow> replica \<Rightarrow> pid \<times> replica" where
  "beat_resp last_proposer s =
     resolved_promise (Any (V_Rid (case pm_kind (r_pm s) of Dummy_Fixed p \<Rightarrow> p | _ \<Rightarrow> last_proposer))) s"

definition get_pending_size :: "replica \<Rightarrow> nat" where
  "get_pending_size s = length (pending_beats (r_pm s))"

subsection \<open>PMRoundRobinProposer\<close>

definition rr_reg_proposal :: "replica \<Rightarrow> action list \<times> replica" where
  "rr_reg_proposal s = (let (p, as, s) = async_wait_proposal s in (as @ [Then p K_Reg_Proposal], s))"

definition rr_reg_receive_proposal :: "replica \<Rightarrow> action list \<times> replica" where
  "rr_reg_receive_proposal s = (let (p, as, s) = async_wait_receive_proposal s in (as @ [Then p K_Reg_Receive], s))"

definition note_prop_blk :: "replica_id \<Rightarrow> ref \<Rightarrow> replica \<Rightarrow> replica" where
  "note_prop_blk rid b s =
     upd_pm (\<lambda>pm. if prop_blks pm rid = None then pm\<lparr>prop_blks := (prop_blks pm)(rid := Some b)\<rparr> else pm) s"

definition rr_proposed :: "proposal \<Rightarrow> replica \<Rightarrow> action list \<times> replica" where
  "rr_proposed prop s =
     (let s = note_prop_blk (get_id s) (prop_blk prop) s in if rotating (r_pm s) then rr_reg_proposal s else ([], s))"

definition rr_received :: "proposal \<Rightarrow> replica \<Rightarrow> action list \<times> replica" where
  "rr_received prop s =
     (let s = note_prop_blk (prop_proposer prop) (prop_blk prop) s
      in if rotating (r_pm s) then rr_reg_receive_proposal s else ([], s))"

definition reject_waits :: "replica \<Rightarrow> action list" where
  "reject_waits s =
     reject_member (pm_qc_finish (r_pm s)) @ reject_member (pm_wait_propose (r_pm s)) @ reject_member (pm_qc_manual (r_pm s))"

text \<open>\<open>proposer + 1\<close> is computed in \<open>int\<close>, the remainder in 64 bits.\<close>

definition next_proposer :: "replica_config \<Rightarrow> replica_id \<Rightarrow> err + replica_id" where
  "next_proposer cf p =
     (if nreplicas cf = 0 then Inl Undefined_Behaviour else Inr (ucast ((ucast p + 1) mod nreplicas cf)))"

definition rotate :: "replica \<Rightarrow> action list \<times> replica" where
  "rotate s =
     (let (as, s) = rr_reg_proposal s; (bs, s) = rr_reg_receive_proposal s
      in case next_proposer (config (r_core s)) (pm_proposer (r_pm s)) of
           Inl e \<Rightarrow> (as @ bs @ [Raise e], s)
         | Inr p \<Rightarrow>
             (as @ bs @ reject_waits s,
              upd_pm (\<lambda>pm. pm\<lparr>prop_blks := \<lambda>rid. None, rotating := True, pm_proposer := p,
                timer := Exp_Timer (exp_timeout pm), exp_timeout := exp_timeout pm * 2\<rparr>) s))"

text \<open>\<open>do_elected\<close> does nothing and the call that is posted behind it only logs.\<close>

definition stop_rotate :: "replica \<Rightarrow> action list \<times> replica" where
  "stop_rotate s =
     (reject_waits s @ [Update_Last_Proposed],
      upd_pm (\<lambda>pm. pm\<lparr>timer := No_Timer, rotating := False, pm_locked := False, last_proposed := b0 (r_core s)\<rparr>) s)"

definition new_consensus :: "renv \<Rightarrow> nat \<Rightarrow> replica \<Rightarrow> action list \<times> replica" where
  "new_consensus re x s =
     core_call (on_propose (r_env re) [] (get_parents s) []) (\<lambda>b. [Wait_Manual x b]) s"

definition wait_manual :: "nat \<Rightarrow> ref \<Rightarrow> replica \<Rightarrow> action list \<times> replica" where
  "wait_manual x b s =
     (let old = pm_qc_manual (r_pm s); (p, s) = r_async_qc_finish b s
      in (reject_member old @ [Then p (K_Manual x)], upd_pm (\<lambda>pm. pm\<lparr>pm_qc_manual := Some p\<rparr>) s))"

text \<open>What follows the certificate of the \<open>x\<close>-th block: three more blocks, in the three-step variant.\<close>

definition manual_next :: "nat \<Rightarrow> action list" where
  "manual_next x = (if 3 \<le> x then [] else [New_Consensus (x + 1)])"

definition on_exp_timeout :: "replica \<Rightarrow> action list" where
  "on_exp_timeout s = (if pm_proposer (r_pm s) = get_id s then [New_Consensus 0] else []) @ [Set_Rotate_Timer]"

text \<open>The timer fires.\<close>

definition on_timer :: "replica \<Rightarrow> action list \<times> replica" where
  "on_timer s =
     (case timer (r_pm s) of
        No_Timer \<Rightarrow> ([], s)
      | Exp_Timer d \<Rightarrow> (on_exp_timeout s, upd_pm (\<lambda>pm. pm\<lparr>timer := No_Timer\<rparr>) s)
      | Rotate_Timer d \<Rightarrow> rotate (upd_pm (\<lambda>pm. pm\<lparr>timer := No_Timer\<rparr>) s))"

definition on_consensus :: "ref \<Rightarrow> replica \<Rightarrow> action list \<times> replica" where
  "on_consensus b s =
     (if pm_kind (r_pm s) \<noteq> Round_Robin then ([], s)
      else let s = upd_pm (\<lambda>pm. pm\<lparr>timer := No_Timer, exp_timeout := base_timeout pm\<rparr>) s
           in if prop_blks (r_pm s) (pm_proposer (r_pm s)) = Some b then stop_rotate s else ([], s))"

definition impeach :: "replica \<Rightarrow> action list \<times> replica" where
  "impeach s = (if pm_kind (r_pm s) \<noteq> Round_Robin \<or> rotating (r_pm s) then ([], s) else rotate s)"

definition rr_init :: "replica \<Rightarrow> action list \<times> replica" where
  "rr_init s = stop_rotate (upd_pm (\<lambda>pm. pm\<lparr>exp_timeout := base_timeout pm\<rparr>) s)"

subsection \<open>The gadgets\<close>

definition pacemaker_dummy :: "replica_id option \<Rightarrow> pacemaker" where
  "pacemaker_dummy fixed =
     \<lparr>pm_kind = (case fixed of None \<Rightarrow> Dummy | Some p \<Rightarrow> Dummy_Fixed p), hqc_tail = 0, pending_beats = [], last_proposed = 0,
      pm_locked = False, pm_qc_finish = None, pm_wait_propose = None, pm_qc_manual = None, base_timeout = 0, exp_timeout = 0,
      prop_delay = 0, timer = No_Timer, pm_proposer = 0, prop_blks = \<lambda>rid. None, rotating = False\<rparr>"

definition pacemaker_rr :: "real \<Rightarrow> real \<Rightarrow> pacemaker" where
  "pacemaker_rr base delay =
     (pacemaker_dummy None)\<lparr>pm_kind := Round_Robin, base_timeout := base, prop_delay := delay\<rparr>"

definition pm_init :: "replica \<Rightarrow> action list \<times> replica" where
  "pm_init s =
     (let (as, s) = high_tail_init s;
          (bs, s) = (if pm_kind (r_pm s) = Round_Robin then rr_init s else wait_qc_init s)
      in (as @ bs, s))"

end
