(* ===== verification/Hot_Stuff_Base.thy ===== *)
theory Hot_Stuff_Base
  imports Pace_Maker
begin

text \<open>
  \<open>HotStuffBase\<close> of \<open>flashorder/include/hotstuff/hotstuff.h\<close> and \<open>flashorder/src/hotstuff.cpp\<close>: the
  handlers of messages, the fetching and the delivery of blocks, the queue of client commands, and the
  machine that runs them together with the core and the pace maker. The network is the list of messages
  sent; the timeouts are inputs. Statistics are left out.
\<close>

definition send_msg :: "message \<Rightarrow> peer_id \<Rightarrow> replica \<Rightarrow> replica" where
  "send_msg m p s = s\<lparr>sent := sent s @ [(p, m)]\<rparr>"

subsection \<open>Fetching\<close>

definition fc_send :: "uint256 \<Rightarrow> peer_id \<Rightarrow> replica \<Rightarrow> replica" where
  "fc_send h p s = send_msg (MsgReqBlock (msg_req_block [h])) p s"

definition fc_add_replica :: "uint256 \<Rightarrow> peer_id \<Rightarrow> bool \<Rightarrow> fetch_context \<Rightarrow> replica \<Rightarrow> fetch_context \<times> replica" where
  "fc_add_replica h p fetch_now fc s =
     (fc\<lparr>fc_replicas := (if p \<in> set (fc_replicas fc) then fc_replicas fc else fc_replicas fc @ [p])\<rparr>,
      if fc_replicas fc = [] \<and> fetch_now then fc_send h p s else s)"

text \<open>\<open>timeout_cb\<close>: every replica that is known to have the block is asked again.\<close>

definition fc_timeout :: "uint256 \<Rightarrow> replica \<Rightarrow> replica" where
  "fc_timeout h s =
     (case map_of (blk_fetch_waiting s) h of None \<Rightarrow> s | Some fc \<Rightarrow> fold (fc_send h) (fc_replicas fc) s)"

definition async_fetch_blk :: "uint256 \<Rightarrow> peer_id option \<Rightarrow> bool \<Rightarrow> replica \<Rightarrow> pid \<times> replica" where
  "async_fetch_blk h p fetch_now s =
     (case find_blk h (storage (r_core s)) of
        Some r \<Rightarrow> resolved_promise (Any (V_Blk r)) s
      | None \<Rightarrow>
          let (fc, s) = (case map_of (blk_fetch_waiting s) h of
                           Some fc \<Rightarrow> (fc, s)
                         | None \<Rightarrow> let (q, s) = new_promise s in (\<lparr>fc_promise = q, fc_replicas = []\<rparr>, s));
              (fc, s) = (case p of None \<Rightarrow> (fc, s) | Some p \<Rightarrow> fc_add_replica h p fetch_now fc s)
          in (fc_promise fc, s\<lparr>blk_fetch_waiting := AList.update h fc (blk_fetch_waiting s)\<rparr>))"

text \<open>
  \<open>on_fetch_blk\<close>. The entry is erased behind the call of \<open>resolve\<close>, through an iterator that an insertion
  made by a callback may have invalidated; no callback looks at the entry.
\<close>

definition on_fetch_blk :: "ref \<Rightarrow> replica \<Rightarrow> action list \<times> replica" where
  "on_fetch_blk r s =
     (let h = blk_hash (blk (r_core s) r)
      in case map_of (blk_fetch_waiting s) h of
           None \<Rightarrow> ([], s)
         | Some fc \<Rightarrow> ([P (Resolve (fc_promise fc) (Any (V_Blk r)))],
                       s\<lparr>blk_fetch_waiting := AList.delete h (blk_fetch_waiting s)\<rparr>))"

subsection \<open>Verification in the pool\<close>

definition vpool_verify :: "veri_task \<Rightarrow> replica \<Rightarrow> pid \<times> replica" where
  "vpool_verify t s = (let (p, s) = new_promise s in (p, s\<lparr>veri_tasks := veri_tasks s @ [(p, t)]\<rparr>))"

text \<open>A worker has finished the task of promise \<open>p\<close>.\<close>

definition vpool_done :: "renv \<Rightarrow> pid \<Rightarrow> replica \<Rightarrow> action list \<times> replica" where
  "vpool_done re p s =
     (case map_of (veri_tasks s) p of
        None \<Rightarrow> ([], s)
      | Some t \<Rightarrow> ([P (Resolve p (Any (V_Bool (r_vrf re (vt_msg t) (vt_pubkey t) (vt_sig t)))))],
                   s\<lparr>veri_tasks := AList.delete p (veri_tasks s)\<rparr>))"

definition pc_verify_async :: "pubkey \<Rightarrow> part_cert \<Rightarrow> replica \<Rightarrow> pid \<times> replica" where
  "pc_verify_async pk pc s =
     (case pc of
        PartCertDummy h \<Rightarrow> resolved_promise (Any (V_Bool True)) s
      | PartCertSecp256k1 h sg \<Rightarrow> vpool_verify \<lparr>vt_msg = h, vt_pubkey = pk, vt_sig = sg\<rparr> s)"

text \<open>The loop of \<open>QuorumCertSecp256k1::verify\<close> over the signers: a task for each.\<close>

fun qc_verify_tasks :: "secp_qc \<Rightarrow> nat list \<Rightarrow> replica \<Rightarrow> (pid list, replica) res" where
  "qc_verify_tasks q [] s = Ok [] s"
| "qc_verify_tasks q (i # is) s =
     (case bits_get (of_nat i) (sq_rids q) of
        Exc e b \<Rightarrow> Exc e s
      | Ok False b \<Rightarrow> qc_verify_tasks q is s
      | Ok True b \<Rightarrow>
          (case map_of (sq_sigs q) (of_nat i) of
             None \<Rightarrow> Exc Undefined_Behaviour s
           | Some sg \<Rightarrow>
               (case get_pubkey (config (r_core s)) (of_nat i) of
                  Inl e \<Rightarrow> Exc e s
                | Inr pk \<Rightarrow>
                    let (p, s) = vpool_verify \<lparr>vt_msg = sq_obj_hash q, vt_pubkey = pk, vt_sig = sg\<rparr> s
                    in res_bind (qc_verify_tasks q is s) (\<lambda>ps s. Ok (p # ps) s))))"

definition all_then :: "pid list \<Rightarrow> kont \<Rightarrow> replica \<Rightarrow> (pid \<times> action list, replica) res" where
  "all_then ps k s =
     (case pm_all ps (promises s) of
        Inl e \<Rightarrow> Exc e s
      | Inr (q, as, st) \<Rightarrow>
          let (p, bs, s) = r_then q k (s\<lparr>promises := st\<rparr>) in Ok (p, map P as @ bs) s)"

definition qc_verify_async :: "quorum_cert \<Rightarrow> replica \<Rightarrow> (pid \<times> action list, replica) res" where
  "qc_verify_async qc s =
     (case qc of
        QuorumCertDummy h \<Rightarrow> let (p, s) = resolved_promise (Any (V_Bool True)) s in Ok (p, []) s
      | QuorumCertSecp256k1 q \<Rightarrow>
          if of_nat (length (sq_sigs q)) < nmajority (config (r_core s))
          then let (p, s) = resolved_promise (Any (V_Bool False)) s in Ok (p, []) s
          else res_bind (qc_verify_tasks q [0..<unat (nbits (sq_rids q))] s) (\<lambda>ps s. all_then ps K_All_True s))"

text \<open>\<open>Block::verify\<close> with the pool.\<close>

definition block_verify_async :: "quorum_cert \<Rightarrow> replica \<Rightarrow> (pid \<times> action list, replica) res" where
  "block_verify_async qc s =
     (if qc_get_obj_hash qc = blk_hash (blk (r_core s) (b0 (r_core s)))
      then let (p, s) = resolved_promise (Any (V_Bool True)) s in Ok (p, []) s
      else qc_verify_async qc s)"

definition vote_verify_async :: "vote \<Rightarrow> replica \<Rightarrow> (pid \<times> action list, replica) res" where
  "vote_verify_async v s =
     (case get_pubkey (config (r_core s)) (voter v) of
        Inl e \<Rightarrow> Exc e s
      | Inr pk \<Rightarrow> let (p, s) = pc_verify_async pk (vote_cert v) s; (q, as, s) = r_then p (K_Vote_Valid v) s in Ok (q, as) s)"

subsection \<open>Delivery\<close>

definition async_deliver_blk :: "uint256 \<Rightarrow> peer_id \<Rightarrow> replica \<Rightarrow> pid \<times> action list \<times> replica" where
  "async_deliver_blk h p s =
     (if is_blk_delivered (heap (r_core s)) h (storage (r_core s))
      then let (q, s) = resolved_promise (Any (V_Blk (the (find_blk h (storage (r_core s)))))) s in (q, [], s)
      else case map_of (blk_delivery_waiting s) h of
        Some q \<Rightarrow> (q, [], s)
      | None \<Rightarrow>
          let (q, s) = new_promise s;
              s = s\<lparr>blk_delivery_waiting := (h, q) # blk_delivery_waiting s\<rparr>;
              (f, s) = async_fetch_blk h (Some p) True s
          in (q, [Then f (K_Fetched p)], s))"

text \<open>The continuation of \<open>async_deliver_blk\<close> when block \<open>r\<close> is there, up to the loop over its parents.\<close>

definition deliver_fetched :: "peer_id \<Rightarrow> ref \<Rightarrow> replica \<Rightarrow> action list \<times> replica" where
  "deliver_fetched p r s =
     (case blk_qc (blk (r_core s) r) of
        None \<Rightarrow> ([Raise (Runtime_Error ''assertion failed'')], s)
      | Some qc \<Rightarrow>
          (case (if r = b0 (r_core s) then let (q, s) = resolved_promise (Any (V_Bool True)) s in Ok (q, []) s
                 else block_verify_async qc s) of
             Exc e s \<Rightarrow> ([Raise e], s)
           | Ok (v, as) s \<Rightarrow>
               let (f, s) = async_fetch_blk (qc_get_obj_hash qc) (Some p) True s
               in (as @ [Gather r p (parent_hashes (blk (r_core s) r)) [v, f]], s)))"

definition gather :: "ref \<Rightarrow> peer_id \<Rightarrow> uint256 list \<Rightarrow> pid list \<Rightarrow> replica \<Rightarrow> action list \<times> replica" where
  "gather r p hs ps s =
     (case hs of
        h # hs \<Rightarrow> let (q, as, s) = async_deliver_blk h p s in (as @ [Gather r p hs (ps @ [q])], s)
      | [] \<Rightarrow> (case pm_all ps (promises s) of
                Inl e \<Rightarrow> ([Raise e], s)
              | Inr (q, as, st) \<Rightarrow> (map P as @ [Then q (K_Deliver r)], s\<lparr>promises := st\<rparr>)))"

text \<open>\<open>HotStuffBase::on_deliver_blk\<close>.\<close>

definition base_on_deliver_blk :: "ref \<Rightarrow> replica \<Rightarrow> action list \<times> replica" where
  "base_on_deliver_blk r s =
     (let c = r_core s; h = blk_hash (blk c r)
      in if \<exists>p \<in> set (parent_hashes (blk c r)). \<not> is_blk_delivered (heap c) p (storage c)
         then ([Raise (Runtime_Error ''assertion failed'')], s)
         else case on_deliver_blk r c of
             Exc e c \<Rightarrow> ([Threw e], s\<lparr>r_core := c\<rparr>)
           | Ok valid c \<Rightarrow>
               (case map_of (blk_delivery_waiting s) h of
                  None \<Rightarrow> ([], s\<lparr>r_core := c\<rparr>)
                | Some q \<Rightarrow>
                    ([P (if valid then Resolve q (Any (V_Blk r)) else Reject q (Any (V_Blk r)))],
                     s\<lparr>r_core := c, blk_delivery_waiting := AList.delete h (blk_delivery_waiting s)\<rparr>)))"


subsection \<open>Outputs of the core\<close>

definition do_broadcast_proposal :: "proposal \<Rightarrow> replica \<Rightarrow> action list \<times> replica" where
  "do_broadcast_proposal prop s =
     (case msg_propose (heap (r_core s)) prop of
        Exc e d \<Rightarrow> ([Raise e], s)
      | Ok u d \<Rightarrow> ([], fold (send_msg (MsgPropose d)) (peers s) s))"

definition do_vote :: "replica_id \<Rightarrow> vote \<Rightarrow> replica \<Rightarrow> action list \<times> replica" where
  "do_vote last_proposer v s = (let (p, s) = beat_resp last_proposer s in ([Then p (K_Send_Vote v)], s))"

definition send_vote :: "renv \<Rightarrow> vote \<Rightarrow> replica_id \<Rightarrow> replica \<Rightarrow> action list \<times> replica" where
  "send_vote re v proposer s =
     (if proposer = get_id s then core_call (on_receive_vote (r_env re) v) (\<lambda>u. []) s
      else case get_peer_id (config (r_core s)) proposer of
             Inl e \<Rightarrow> ([Raise e], s)
           | Inr p \<Rightarrow> ([], send_msg (MsgVote (msg_vote v)) p s))"

text \<open>
  \<open>10000\<close> is the default of the template parameter of \<open>HyperGraph\<close>. A proposal is started when the
  order is not empty.
\<close>

definition process_local_order :: "renv \<Rightarrow> local_order \<Rightarrow> replica \<Rightarrow> action list \<times> replica" where
  "process_local_order re lo s =
     (let proposer = get_proposer s; (majority, c) = on_receive_local_order lo (r_core s); s = s\<lparr>r_core := c\<rparr>
      in if majority \<and> proposer = get_id s
         then (case flashorder_propose (r_env re) (r_iter re) 10000 (clock s) c of
                 Exc e c \<Rightarrow> ([Threw e], s\<lparr>r_core := c\<rparr>)
               | Ok cmds c \<Rightarrow>
                   let s = s\<lparr>r_core := c\<rparr> in if cmds = [] then ([], s) else beat_then (K_Propose cmds) s)
         else ([], s))"

definition do_send_local_order :: "renv \<Rightarrow> replica_id \<Rightarrow> local_order \<Rightarrow> replica \<Rightarrow> action list \<times> replica" where
  "do_send_local_order re proposer lo s =
     (if proposer = get_id s then process_local_order re lo s
      else case get_peer_id (config (r_core s)) proposer of
             Inl e \<Rightarrow> ([Raise e], s)
           | Inr p \<Rightarrow> ([], send_msg (MsgLocalOrder (msg_local_order lo)) p s))"

definition do_decide :: "finality \<Rightarrow> replica \<Rightarrow> replica" where
  "do_decide fin s =
     (let s = s\<lparr>executed := executed s @ [fin]\<rparr>
      in case map_of (decision_waiting s) (cmd_hash fin) of
           None \<Rightarrow> s
         | Some cb \<Rightarrow> s\<lparr>callbacks := callbacks s @ [(cb, fin)],
                         decision_waiting := AList.delete (cmd_hash fin) (decision_waiting s)\<rparr>)"

fun on_event :: "renv \<Rightarrow> event \<Rightarrow> replica \<Rightarrow> action list \<times> replica" where
  "on_event re (Do_Decide fin) s = ([], do_decide fin s)"
| "on_event re (Do_Consensus b) s = on_consensus b s"
| "on_event re (Do_Broadcast_Proposal prop) s = do_broadcast_proposal prop s"
| "on_event re (Do_Vote p v) s = do_vote p v s"
| "on_event re (Do_Send_Local_Order p lo) s = do_send_local_order re p lo s"
| "on_event re (Resolve_QC b) s = ([P (Resolve (qc_promise s b) Empty)], s)"
| "on_event re (Resolve_Propose prop) s = propose_done prop s"
| "on_event re (Resolve_Receive_Proposal prop) s = receive_proposal_done prop s"
| "on_event re Resolve_Hqc_Update s = on_hqc_update s"

subsection \<open>The lambdas\<close>

fun blks_of :: "val pm_any list \<Rightarrow> ref list option" where
  "blks_of [] = Some []"
| "blks_of (Any (V_Blk r) # vs) = map_option (\<lambda>rs. r # rs) (blks_of vs)"
| "blks_of (v # vs) = None"

definition mismatch :: err where
  "mismatch = Runtime_Error ''mismatching promise value types''"

text \<open>The casts of \<open>any_cast\<close>; one to another type throws.\<close>

definition with_blk :: "val pm_any \<Rightarrow> (ref \<Rightarrow> action list \<times> replica) \<Rightarrow> replica \<Rightarrow> action list \<times> replica" where
  "with_blk v f s = (case v of Any (V_Blk r) \<Rightarrow> f r | _ \<Rightarrow> ([Raise mismatch], s))"

definition with_prop :: "val pm_any \<Rightarrow> (proposal \<Rightarrow> action list \<times> replica) \<Rightarrow> replica \<Rightarrow> action list \<times> replica" where
  "with_prop v f s = (case v of Any (V_Prop x) \<Rightarrow> f x | _ \<Rightarrow> ([Raise mismatch], s))"

definition with_rid :: "val pm_any \<Rightarrow> (replica_id \<Rightarrow> action list \<times> replica) \<Rightarrow> replica \<Rightarrow> action list \<times> replica" where
  "with_rid v f s = (case v of Any (V_Rid x) \<Rightarrow> f x | _ \<Rightarrow> ([Raise mismatch], s))"

text \<open>The cast of the \<open>i\<close>-th of a vector of values to \<open>bool\<close>.\<close>

definition nth_bool :: "nat \<Rightarrow> val pm_any \<Rightarrow> bool option" where
  "nth_bool i v = (case v of Values vs \<Rightarrow> (if i < length vs then (case vs ! i of Any (V_Bool b) \<Rightarrow> Some b | _ \<Rightarrow> None) else None) | _ \<Rightarrow> None)"

text \<open>What a continuation does with the value.\<close>

fun invoke :: "renv \<Rightarrow> kont \<Rightarrow> val pm_any \<Rightarrow> replica \<Rightarrow> action list \<times> replica" where
  "invoke re K_Hqc_Tail v s = with_blk v (\<lambda>h. hqc_tail_new re h s) s"
| "invoke re K_Proposal_Tail v s = with_prop v (\<lambda>prop. hqc_tail_proposed prop s) s"
| "invoke re K_Receive_Tail v s = with_prop v (\<lambda>prop. hqc_tail_received prop s) s"
| "invoke re (K_Qc_Finish p) v s = ([P (Resolve p (Any (V_Rid (get_proposer s))))], s)"
| "invoke re K_Proposed v s = with_prop v (\<lambda>prop. block_proposed prop s) s"
| "invoke re K_Reg_Proposal v s = with_prop v (\<lambda>prop. rr_proposed prop s) s"
| "invoke re K_Reg_Receive v s = with_prop v (\<lambda>prop. rr_received prop s) s"
| "invoke re (K_Manual x) v s = (manual_next x, s)"
| "invoke re (K_Propose cmds) v s = with_rid v (\<lambda>p.
     if p = get_id s then core_call (on_propose (r_env re) cmds (get_parents s) []) (\<lambda>b. []) s else ([], s)) s"
| "invoke re (K_Send_Vote vt) v s = with_rid v (\<lambda>p. send_vote re vt p s) s"
| "invoke re (K_Fetched p) v s = with_blk v (\<lambda>r. deliver_fetched p r s) s"
| "invoke re (K_Deliver r) v s =
     (case nth_bool 0 v of
        None \<Rightarrow> ([Raise mismatch], s)
      | Some ok \<Rightarrow> if ok then base_on_deliver_blk r s else ([], s))"
| "invoke re (K_Receive_Proposal prop) v s = core_call (on_receive_proposal (r_env re) prop) (\<lambda>u. []) s"
| "invoke re (K_Receive_Vote vt) v s =
     (case nth_bool 1 v of
        None \<Rightarrow> ([Raise mismatch], s)
      | Some ok \<Rightarrow> if ok then core_call (on_receive_vote (r_env re) vt) (\<lambda>u. []) s else ([], s))"
| "invoke re (K_Respond p) v s =
     (case (case v of Values vs \<Rightarrow> blks_of vs | _ \<Rightarrow> None) of
        None \<Rightarrow> ([Raise mismatch], s)
      | Some rs \<Rightarrow> (case msg_resp_block (heap (r_core s)) rs of
                      Exc e d \<Rightarrow> ([Raise e], s)
                    | Ok u d \<Rightarrow> ([], send_msg (MsgRespBlock d) p s)))"
| "invoke re K_Return_Prop v s = with_prop v (\<lambda>prop. ([], s)) s"
| "invoke re K_Return_Hqc v s = ([], s)"
| "invoke re K_All_True v s = ([], s)"
| "invoke re (K_Vote_Valid vt) v s = ([], s)"

text \<open>What it returns; the promise that \<open>then\<close> has returned is resolved with it.\<close>

fun returned :: "kont \<Rightarrow> val pm_any \<Rightarrow> replica \<Rightarrow> val pm_any" where
  "returned K_Return_Prop v s = v"
| "returned K_Return_Hqc v s = (case hqc (r_core s) of None \<Rightarrow> Empty | Some (h, qc) \<Rightarrow> Any (V_Blk h))"
| "returned K_All_True v s = Any (V_Bool (\<forall>x \<in> set (case v of Values vs \<Rightarrow> vs | _ \<Rightarrow> []). x = Any (V_Bool True)))"
| "returned (K_Vote_Valid vt) v s =
     Any (V_Bool (v = Any (V_Bool True) \<and> pc_obj_hash (vote_cert vt) = vote_blk_hash vt))"
| "returned k v s = Empty"

subsection \<open>The handlers of messages\<close>

text \<open>\<open>postponed_parse\<close> of a block or a proposal changes the storage of the core.\<close>

definition propose_handler :: "renv \<Rightarrow> peer_id option \<Rightarrow> data_stream \<Rightarrow> replica \<Rightarrow> action list \<times> replica" where
  "propose_handler re peer msg s =
     (case peer of
        None \<Rightarrow> ([], s)
      | Some p \<Rightarrow>
          (case proposal_unserialize (r_psig re) (r_env re) (r_core s) msg of
             Exc e d \<Rightarrow> ([Raise e], s)
           | Ok (prop, c) d \<Rightarrow>
               let s = s\<lparr>r_core := c\<rparr>
               in case get_peer_id (config c) (prop_proposer prop) of
                    Inl e \<Rightarrow> ([Raise e], s)
                  | Inr q \<Rightarrow>
                      if p \<noteq> q then ([], s)
                      else let (d, as, s) = async_deliver_blk (blk_hash (blk c (prop_blk prop))) p s
                           in case all_then [d] (K_Receive_Proposal prop) s of
                                Exc e s \<Rightarrow> (as @ [Raise e], s)
                              | Ok (r, bs) s \<Rightarrow> (as @ bs, s)))"

definition vote_handler :: "renv \<Rightarrow> peer_id option \<Rightarrow> data_stream \<Rightarrow> replica \<Rightarrow> action list \<times> replica" where
  "vote_handler re peer msg s =
     (case peer of
        None \<Rightarrow> ([], s)
      | Some p \<Rightarrow>
          (case vote_unserialize (r_psig re) msg of
             Exc e d \<Rightarrow> ([Raise e], s)
           | Ok v d \<Rightarrow> let (q, as, s) = async_deliver_blk (vote_blk_hash v) p s in (as @ [Vote_Arrived v q], s)))"

definition vote_arrived :: "vote \<Rightarrow> pid \<Rightarrow> replica \<Rightarrow> action list \<times> replica" where
  "vote_arrived v q s =
     (case vote_verify_async v s of
        Exc e s \<Rightarrow> ([Raise e], s)
      | Ok (r, as) s \<Rightarrow>
          (case all_then [q, r] (K_Receive_Vote v) s of
             Exc e s \<Rightarrow> (as @ [Raise e], s)
           | Ok (p, bs) s \<Rightarrow> (as @ bs, s)))"

fun fetch_all :: "uint256 list \<Rightarrow> replica \<Rightarrow> pid list \<times> replica" where
  "fetch_all [] s = ([], s)"
| "fetch_all (h # hs) s =
     (let (p, s) = async_fetch_blk h None True s; (ps, s) = fetch_all hs s in (p # ps, s))"

definition req_blk_handler :: "peer_id option \<Rightarrow> data_stream \<Rightarrow> replica \<Rightarrow> action list \<times> replica" where
  "req_blk_handler peer msg s =
     (case peer of
        None \<Rightarrow> ([], s)
      | Some p \<Rightarrow>
          (case msg_req_block_parse msg of
             Exc e d \<Rightarrow> ([Raise e], s)
           | Ok hs d \<Rightarrow>
               let (ps, s) = fetch_all hs s
               in case all_then ps (K_Respond p) s of Exc e s \<Rightarrow> ([Raise e], s) | Ok (q, as) s \<Rightarrow> (as, s)))"

definition resp_blk_handler :: "renv \<Rightarrow> data_stream \<Rightarrow> replica \<Rightarrow> action list \<times> replica" where
  "resp_blk_handler re msg s =
     (case msg_resp_block_parse (r_psig re) (r_env re) (r_core s) msg of
        Exc e (c, d) \<Rightarrow> ([Raise e], s\<lparr>r_core := c\<rparr>)
      | Ok rs (c, d) \<Rightarrow> (map Fetched_Blk rs, s\<lparr>r_core := c\<rparr>))"

definition local_order_handler :: "renv \<Rightarrow> peer_id option \<Rightarrow> data_stream \<Rightarrow> replica \<Rightarrow> action list \<times> replica" where
  "local_order_handler re peer msg s =
     (case peer of
        None \<Rightarrow> ([], s)
      | Some p \<Rightarrow>
          (case local_order_unserialize msg of
             Exc e d \<Rightarrow> ([Raise e], s)
           | Ok lo d \<Rightarrow>
               (case get_peer_id (config (r_core s)) (initiator lo) of
                  Inl e \<Rightarrow> ([Raise e], s)
                | Inr q \<Rightarrow> if p \<noteq> q then ([], s) else process_local_order re lo s)))"

subsection \<open>Client commands\<close>

definition exec_command :: "uint256 \<Rightarrow> nat \<Rightarrow> replica \<Rightarrow> replica" where
  "exec_command h cb s = s\<lparr>cmd_pending := cmd_pending s @ [(h, cb)]\<rparr>"

text \<open>
  The handler of the queue; \<open>now i\<close> is the clock at the \<open>i\<close>-th command. It returns after one batch and is
  then called again.
\<close>

definition take_command :: "u64 \<Rightarrow> uint256 \<times> nat \<Rightarrow> replica \<Rightarrow> replica" where
  "take_command now cmd s =
     (let (h, cb) = cmd;
          s = (if map_of (decision_waiting s) h = None then s\<lparr>decision_waiting := (h, cb) # decision_waiting s\<rparr>
               else s\<lparr>callbacks := callbacks s @ [(cb, \<lparr>fin_rid = get_id s, fin_decision = 0, cmd_idx = 0, cmd_height = 0,
                        cmd_hash = h, fin_blk_hash = 0\<rparr>)]\<rparr>)
      in s\<lparr>local_order_buffer := local_order_buffer s @ [h], timestamp_buffer := timestamp_buffer s @ [now]\<rparr>)"

definition send_batch :: "replica_id \<Rightarrow> replica \<Rightarrow> action list \<times> replica" where
  "send_batch proposer s =
     (let n = blk_size s; cmds = take n (local_order_buffer s); tss = take n (timestamp_buffer s);
          s = s\<lparr>local_order_buffer := drop n (local_order_buffer s), timestamp_buffer := drop n (timestamp_buffer s)\<rparr>
      in core_call (\<lambda>c. Ok () (on_local_order proposer cmds tss c)) (\<lambda>u. []) s)"

fun command_loop :: "(nat \<Rightarrow> u64) \<Rightarrow> (uint256 \<times> nat) list \<Rightarrow> replica \<Rightarrow> action list \<times> replica" where
  "command_loop now [] s = ([], s\<lparr>cmd_pending := []\<rparr>)"
| "command_loop now (cmd # cmds) s =
     (let proposer = get_proposer s; s = take_command (now 0) cmd s
      in if blk_size s \<le> length (local_order_buffer s) then send_batch proposer (s\<lparr>cmd_pending := cmds\<rparr>)
         else command_loop (\<lambda>i. now (i + 1)) cmds s)"

definition cmd_pending_handler :: "(nat \<Rightarrow> u64) \<Rightarrow> replica \<Rightarrow> action list \<times> replica" where
  "cmd_pending_handler now s = command_loop now (cmd_pending s) s"

subsection \<open>The machine\<close>

fun pact_step :: "renv \<Rightarrow> (kont, val) pact \<Rightarrow> replica \<Rightarrow> action list \<times> replica" where
  "pact_step re (Resolve p v) s = (let (as, st) = resolve p v (promises s) in (map P as, s\<lparr>promises := st\<rparr>))"
| "pact_step re (Reject p v) s = (let (as, st) = reject p v (promises s) in (map P as, s\<lparr>promises := st\<rparr>))"
| "pact_step re (Collect c i npm v) s =
     (let (as, st) = collect c i npm v (promises s) in (map P as, s\<lparr>promises := st\<rparr>))"
| "pact_step re (Invoke k v npm) s =
     (let (as, t) = invoke re k v s in (as @ [P (Resolve npm (returned k v s))], t))"
| "pact_step re (Invoke_Rejected k v npm) s = ([], s)"

text \<open>No continuation is ever given for the rejection of a promise.\<close>

fun act :: "renv \<Rightarrow> action \<Rightarrow> replica \<Rightarrow> action list \<times> replica" where
  "act re (P a) s = pact_step re a s"
| "act re (Then p k) s = do_then p k s"
| "act re (Ev e) s = on_event re e s"
| "act re (Raise e) s = ([Raise e], s)"
| "act re (Threw e) s = ([Threw e], s)"
| "act re Schedule_Next s = schedule_next s"
| "act re (Wait_Qc_Finish p) s = wait_qc_finish p s"
| "act re Set_Locked s = ([], upd_pm (\<lambda>pm. pm\<lparr>pm_locked := True\<rparr>) s)"
| "act re Update_Last_Proposed s = (update_last_proposed s, s)"
| "act re Wait_Proposal s = wait_proposal s"
| "act re (New_Consensus x) s = new_consensus re x s"
| "act re (Wait_Manual x b) s = wait_manual x b s"
| "act re Set_Rotate_Timer s = ([], upd_pm (\<lambda>pm. pm\<lparr>timer := Rotate_Timer (prop_delay pm)\<rparr>) s)"
| "act re (Gather r p hs ps) s = gather r p hs ps s"
| "act re (Vote_Arrived v q) s = vote_arrived v q s"
| "act re (Fetched_Blk r) s = on_fetch_blk r s"

fun run :: "renv \<Rightarrow> nat \<Rightarrow> action list \<Rightarrow> replica \<Rightarrow> (unit, replica) res" where
  "run re n [] s = Ok () s"
| "run re 0 (a # as) s = Exc Endless_Loop s"
| "run re (Suc n) (a # as) s =
     (case a of
        Raise e \<Rightarrow> Exc e s
      | Threw e \<Rightarrow> Exc e s
      | _ \<Rightarrow> let (bs, s) = act re a s in run re n (bs @ as) s)"

text \<open>What happens to a replica from outside.\<close>

datatype input =
    In_Propose "peer_id option" data_stream
  | In_Vote "peer_id option" data_stream
  | In_Req_Block "peer_id option" data_stream
  | In_Resp_Block data_stream
  | In_Local_Order "peer_id option" data_stream
  | In_Command uint256 nat
  | In_Queue "nat \<Rightarrow> u64"
  | In_Verified pid
  | In_Fetch_Timeout uint256
  | In_Timer
  | In_Impeach
  | In_Clock int

fun on_input :: "renv \<Rightarrow> input \<Rightarrow> replica \<Rightarrow> action list \<times> replica" where
  "on_input re (In_Propose p m) s = propose_handler re p m s"
| "on_input re (In_Vote p m) s = vote_handler re p m s"
| "on_input re (In_Req_Block p m) s = req_blk_handler p m s"
| "on_input re (In_Resp_Block m) s = resp_blk_handler re m s"
| "on_input re (In_Local_Order p m) s = local_order_handler re p m s"
| "on_input re (In_Command h cb) s = ([], exec_command h cb s)"
| "on_input re (In_Queue now) s = cmd_pending_handler now s"
| "on_input re (In_Verified p) s = vpool_done re p s"
| "on_input re (In_Fetch_Timeout h) s = ([], fc_timeout h s)"
| "on_input re In_Timer s = on_timer s"
| "on_input re In_Impeach s = impeach s"
| "on_input re (In_Clock t) s = ([], s\<lparr>clock := t\<rparr>)"

subsection \<open>Start\<close>

definition replica_new :: "env \<Rightarrow> nat \<Rightarrow> replica_id \<Rightarrow> pacemaker \<Rightarrow> err + replica" where
  "replica_new e n rid pm =
     map_sum id (\<lambda>c. let (p, st) = promise_new pstore_new; (q, st) = promise_new st; (r, st) = promise_new st in
       \<lparr>r_core = c, r_pm = pm, promises = st, propose_waiting = p, receive_proposal_waiting = q, hqc_update_waiting = r,
        qc_promise = \<lambda>b. 0, blk_size = n, peers = [], blk_fetch_waiting = [], blk_delivery_waiting = [],
        decision_waiting = [], cmd_pending = [], local_order_buffer = [], timestamp_buffer = [], veri_tasks = [],
        clock = 0, sent = [], executed = [], callbacks = []\<rparr>) (core_new e rid)"

text \<open>
  \<open>start\<close> without the set-up of the network: a replica is given by its peer id, its key, and whether its
  address is the one that this replica listens on.
\<close>

definition base_start :: "(bool \<times> peer_id \<times> pubkey) list \<Rightarrow> env \<Rightarrow> real \<Rightarrow> real \<Rightarrow> real \<Rightarrow> replica \<Rightarrow> action list \<times> replica" where
  "base_start reps e fair gen net s =
     (let c = fold (\<lambda>(i, self, p, pk). add_replica (of_nat i) p pk) (enumerate 0 reps) (r_core s);
          ps = peers s @ map (\<lambda>(self, p, pk). p) (filter (\<lambda>(self, p, pk). \<not> self) reps);
          nfaulty = of_nat (length ps div 3)
      in pm_init (s\<lparr>r_core := on_init e nfaulty fair gen net c, peers := ps\<rparr>))"

end
