(* ===== verification/Base_Refs.thy ===== *)
theory Base_Refs
  imports Hot_Stuff_Base Replica_Safety
begin

text \<open>
  The references that the promises, the continuations and the actions of a replica hold stay inside
  the heap of its core, and which operations leave the core as it is.
\<close>

subsection \<open>References stay inside the heap\<close>

fun val_ok :: "nat \<Rightarrow> val \<Rightarrow> bool" where
  "val_ok n (V_Blk r) \<longleftrightarrow> r < n"
| "val_ok n v \<longleftrightarrow> True"

fun any_ok :: "nat \<Rightarrow> val pm_any \<Rightarrow> bool" where
  "any_ok n Empty \<longleftrightarrow> True"
| "any_ok n (Any v) \<longleftrightarrow> val_ok n v"
| "any_ok n (Values vs) \<longleftrightarrow> (\<forall>v \<in> set vs. any_ok n v)"

fun kont_ok :: "nat \<Rightarrow> kont \<Rightarrow> bool" where
  "kont_ok n (K_Deliver r) \<longleftrightarrow> r < n"
| "kont_ok n (K_Receive_Proposal prop) \<longleftrightarrow> prop_blk prop < n"
| "kont_ok n k \<longleftrightarrow> True"

fun pact_ok :: "nat \<Rightarrow> (kont, val) pact \<Rightarrow> bool" where
  "pact_ok n (Invoke k v p) \<longleftrightarrow> kont_ok n k \<and> any_ok n v"
| "pact_ok n (Invoke_Rejected k v p) \<longleftrightarrow> any_ok n v"
| "pact_ok n (Resolve p v) \<longleftrightarrow> any_ok n v"
| "pact_ok n (Reject p v) \<longleftrightarrow> any_ok n v"
| "pact_ok n (Collect c i p v) \<longleftrightarrow> any_ok n v"

fun action_ok :: "nat \<Rightarrow> action \<Rightarrow> bool" where
  "action_ok n (P a) \<longleftrightarrow> pact_ok n a"
| "action_ok n (Then p k) \<longleftrightarrow> kont_ok n k"
| "action_ok n (Gather r p hs ps) \<longleftrightarrow> r < n"
| "action_ok n (Fetched_Blk r) \<longleftrightarrow> r < n"
| "action_ok n a \<longleftrightarrow> True"

fun cb_ok :: "nat \<Rightarrow> kont callback \<Rightarrow> bool" where
  "cb_ok n (Run k p) \<longleftrightarrow> kont_ok n k"
| "cb_ok n cb \<longleftrightarrow> True"

definition promise_ok :: "nat \<Rightarrow> (kont, val) promise \<Rightarrow> bool" where
  "promise_ok n pm \<longleftrightarrow>
     (case pm_state pm of Pending \<Rightarrow> True | Fulfilled v \<Rightarrow> any_ok n v | Rejected v \<Rightarrow> any_ok n v) \<and>
     (\<forall>cb \<in> set (fulfilled_callbacks pm) \<union> set (rejected_callbacks pm). cb_ok n cb)"

definition store_ok :: "nat \<Rightarrow> (kont, val) pstore \<Rightarrow> bool" where
  "store_ok n st \<longleftrightarrow> (\<forall>p. promise_ok n (pms st p)) \<and> (\<forall>c. \<forall>v \<in> set (results (ctxs st c)). any_ok n v)"

definition ok_result :: "nat \<Rightarrow> action list \<times> (kont, val) pstore \<Rightarrow> bool" where
  "ok_result n x \<longleftrightarrow> (\<forall>a \<in> set (fst x). action_ok n a) \<and> store_ok n (snd x)"

subsection \<open>They grow with the heap\<close>

lemma any_ok_mono: "any_ok n v \<Longrightarrow> n \<le> m \<Longrightarrow> any_ok m v"
proof (induction v)
  case (Any v)
  then show ?case by (cases v) auto
qed auto

lemma kont_ok_mono: "kont_ok n k \<Longrightarrow> n \<le> m \<Longrightarrow> kont_ok m k"
  by (cases k) auto

lemma pact_ok_mono: "pact_ok n a \<Longrightarrow> n \<le> m \<Longrightarrow> pact_ok m a"
  by (cases a) (auto intro: any_ok_mono kont_ok_mono)

lemma action_ok_mono: "action_ok n a \<Longrightarrow> n \<le> m \<Longrightarrow> action_ok m a"
  by (cases a) (auto intro: pact_ok_mono kont_ok_mono)

lemma cb_ok_mono: "cb_ok n cb \<Longrightarrow> n \<le> m \<Longrightarrow> cb_ok m cb"
  by (cases cb) (auto intro: kont_ok_mono)

lemma promise_ok_mono: "promise_ok n pm \<Longrightarrow> n \<le> m \<Longrightarrow> promise_ok m pm"
  by (auto simp: promise_ok_def intro: any_ok_mono cb_ok_mono split: pm_state.splits)

lemma store_ok_mono: "store_ok n st \<Longrightarrow> n \<le> m \<Longrightarrow> store_ok m st"
  unfolding store_ok_def by (blast intro: any_ok_mono promise_ok_mono)

lemma ok_result_mono: "ok_result n x \<Longrightarrow> n \<le> m \<Longrightarrow> ok_result m x"
  unfolding ok_result_def by (blast intro: action_ok_mono store_ok_mono)

subsection \<open>The promises keep them\<close>

lemma store_ok_set: "store_ok n st \<Longrightarrow> promise_ok n pm \<Longrightarrow> store_ok n (set_promise p pm st)"
  by (simp add: store_ok_def set_promise_def)

lemma store_ok_new: "store_ok n st \<Longrightarrow> store_ok n (snd (promise_new st))"
  by (simp add: store_ok_def promise_new_def promise_ok_def)

lemma on_fulfilled_ok: "cb_ok n cb \<Longrightarrow> any_ok n v \<Longrightarrow> pact_ok n (on_fulfilled v cb)"
  by (cases cb) auto

lemma on_rejected_ok: "cb_ok n cb \<Longrightarrow> any_ok n v \<Longrightarrow> pact_ok n (on_rejected v cb)"
  by (cases cb) auto

lemma store_ok_promise: "store_ok n st \<Longrightarrow> promise_ok n (pms st p)"
  by (simp add: store_ok_def)

lemma resolve_ok:
  assumes "store_ok n st" and "any_ok n v"
  shows "(\<forall>a \<in> set (fst (resolve p v st)). pact_ok n a) \<and> store_ok n (snd (resolve p v st))"
  using assms store_ok_promise [OF assms(1), of p]
  by (auto simp: resolve_def Let_def promise_ok_def intro!: on_fulfilled_ok store_ok_set)

lemma reject_ok:
  assumes "store_ok n st" and "any_ok n v"
  shows "(\<forall>a \<in> set (fst (reject p v st)). pact_ok n a) \<and> store_ok n (snd (reject p v st))"
  using assms store_ok_promise [OF assms(1), of p]
  by (auto simp: reject_def Let_def promise_ok_def intro!: on_rejected_ok store_ok_set)

lemma attach_ok:
  assumes "store_ok n st" and "cb_ok n f" and "cb_ok n r"
  shows "(\<forall>a \<in> set (fst (attach p f r st)). pact_ok n a) \<and> store_ok n (snd (attach p f r st))"
  using assms store_ok_promise [OF assms(1), of p]
  by (auto simp: attach_def promise_ok_def intro!: on_fulfilled_ok on_rejected_ok store_ok_set split: pm_state.split)

lemma attach_all_ok:
  assumes "store_ok n st" and "\<And>i. cb_ok n (f i)" and "cb_ok n r"
  shows "(\<forall>a \<in> set (fst (attach_all f r i ps st)). pact_ok n a) \<and> store_ok n (snd (attach_all f r i ps st))"
  using assms(1)
proof (induction ps arbitrary: i st)
  case (Cons p ps)
  note a = attach_ok [OF Cons.prems assms(2) assms(3), of p i]
  then show ?case
    using Cons.IH [of "snd (attach p (f i) r st)" "i + 1"] by (auto simp: split_beta)
qed simp

lemma pm_all_ok:
  assumes "store_ok n st" and "pm_all ps st = Inr (q, as, st')"
  shows "(\<forall>a \<in> set as. pact_ok n a) \<and> store_ok n st'"
proof -
  let ?st = "(snd (promise_new st))\<lparr>ctxs := (ctxs st)(next_ctx st := \<lparr>missing = length ps, results = replicate (length ps) Empty\<rparr>),
    next_ctx := next_ctx st + 1\<rparr>"
  have "store_ok n ?st"
    using store_ok_new [OF assms(1)] by (auto simp: store_ok_def promise_new_def)
  from attach_all_ok [OF this, of "\<lambda>i. All_Value (next_ctx st) i (next_pid st)" "Pass (next_pid st)" 0 ps]
  show ?thesis
    using assms(2) by (auto simp: pm_all_def promise_new_def Let_def split: if_splits)
qed

lemma collect_ok:
  assumes "store_ok n st" and "any_ok n v"
  shows "(\<forall>a \<in> set (fst (collect c i q v st)). pact_ok n a) \<and> store_ok n (snd (collect c i q v st))"
proof -
  have "\<forall>x \<in> set ((results (ctxs st c))[i := v]). any_ok n x"
    using assms set_update_subset_insert [of "results (ctxs st c)" i v] by (auto simp: store_ok_def)
  then show ?thesis
    using assms by (auto simp: collect_def Let_def store_ok_def)
qed


subsection \<open>The pace maker and the tables leave the core alone\<close>

definition quiet :: "nat \<Rightarrow> replica \<Rightarrow> action list \<times> replica \<Rightarrow> bool" where
  "quiet n s x \<longleftrightarrow>
     r_core (snd x) = r_core s \<and> list_all (action_ok n) (fst x) \<and> store_ok n (promises (snd x))"

lemma new_promise_quiet:
  assumes "store_ok n (promises s)"
  shows "r_core (snd (new_promise s)) = r_core s" and "store_ok n (promises (snd (new_promise s)))"
    and "r_pm (snd (new_promise s)) = r_pm s" and "peers (snd (new_promise s)) = peers s"
  using store_ok_new [OF assms] by (simp_all add: new_promise_def split_beta)

lemma resolved_promise_quiet:
  assumes "store_ok n (promises s)" and "any_ok n v"
  shows "r_core (snd (resolved_promise v s)) = r_core s" and "store_ok n (promises (snd (resolved_promise v s)))"
  using new_promise_quiet [OF assms(1)] resolve_ok [OF new_promise_quiet(2) [OF assms(1)] assms(2)]
  by (simp_all add: resolved_promise_def split_beta)

lemma r_then_quiet:
  assumes "store_ok n (promises s)" and "kont_ok n k"
  shows "r_core (snd (snd (r_then p k s))) = r_core s" and "store_ok n (promises (snd (snd (r_then p k s))))"
    and "list_all (action_ok n) (fst (snd (r_then p k s)))"
  using attach_ok [OF store_ok_new [OF assms(1)], of "Run k (fst (promise_new (promises s)))" "Pass (fst (promise_new (promises s)))" p] assms(2)
  by (auto simp: r_then_def pm_then_def split_beta list_all_iff)

lemma quiet_upd_pm: "quiet n s (as, upd_pm f t) \<longleftrightarrow> quiet n s (as, t)"
  by (simp add: quiet_def upd_pm_def)

lemma upd_pm_simps [simp]: "r_core (upd_pm f s) = r_core s" "promises (upd_pm f s) = promises s"
  by (simp_all add: upd_pm_def)

lemma do_then_quiet: "store_ok n (promises s) \<Longrightarrow> kont_ok n k \<Longrightarrow> quiet n s (do_then p k s)"
  using r_then_quiet [of n s k] by (auto simp: quiet_def do_then_def)

lemma reject_member_ok [simp]: "list_all (action_ok n) (reject_member h)"
  by (auto simp: reject_member_def split: option.splits)

lemmas pm_ops = reg_hqc_update_def reg_proposal_def reg_receive_proposal_def async_hqc_update_def async_wait_proposal_def
  async_wait_receive_proposal_def rr_reg_proposal_def rr_reg_receive_proposal_def wait_proposal_def

lemma reg_quiet:
  assumes "store_ok n (promises s)"
  shows "quiet n s (reg_hqc_update s)" and "quiet n s (reg_proposal s)" and "quiet n s (reg_receive_proposal s)"
    and "quiet n s (rr_reg_proposal s)" and "quiet n s (rr_reg_receive_proposal s)" and "quiet n s (wait_proposal s)"
  using r_then_quiet [OF assms] by (auto simp: quiet_def pm_ops split_beta)

lemma quiet_trans: "quiet n s (as, t) \<Longrightarrow> quiet n t (bs, u) \<Longrightarrow> quiet n s (as @ bs, u)"
  by (auto simp: quiet_def)

lemma quiet_store: "quiet n s (as, t) \<Longrightarrow> store_ok n (promises t)"
  by (simp add: quiet_def)

lemma quiet_cong: "r_core t = r_core s \<Longrightarrow> quiet n s x = quiet n t x"
  by (simp add: quiet_def)

lemma high_tail_quiet:
  assumes "store_ok n (promises s)"
  shows "quiet n s (hqc_tail_new re h s)" and "quiet n s (hqc_tail_proposed prop s)" and "quiet n s (hqc_tail_received prop s)"
  using assms reg_quiet [of n "upd_pm f s" for f] reg_quiet [OF assms]
  by (auto simp: hqc_tail_new_def hqc_tail_proposed_def hqc_tail_received_def quiet_def split: sum.splits option.splits)

lemma high_tail_init_quiet:
  assumes "store_ok n (promises s)"
  shows "quiet n s (high_tail_init s)"
proof -
  obtain as s1 bs s2 cs s3 where r: "reg_hqc_update (upd_pm (\<lambda>pm. pm\<lparr>hqc_tail := b0 (r_core s)\<rparr>) s) = (as, s1)"
    "reg_proposal s1 = (bs, s2)" "reg_receive_proposal s2 = (cs, s3)"
    by (meson surj_pair)
  have 1: "quiet n s (as, s1)"
    using reg_quiet(1) [of n "upd_pm (\<lambda>pm. pm\<lparr>hqc_tail := b0 (r_core s)\<rparr>) s"] assms r(1) by (simp add: quiet_def)
  then have 2: "quiet n s1 (bs, s2)"
    using reg_quiet(2) [of n s1] r(2) by (simp add: quiet_store)
  then have "quiet n s2 (cs, s3)"
    using reg_quiet(3) [of n s2] r(3) by (simp add: quiet_store)
  with 1 2 have "quiet n s (as @ bs @ cs, s3)"
    by (intro quiet_trans)
  then show ?thesis
    by (simp add: high_tail_init_def r)
qed

lemma wait_qc_quiet:
  assumes "store_ok n (promises s)"
  shows "quiet n s (schedule_next s)" and "quiet n s (block_proposed prop s)" and "quiet n s (wait_qc_init s)"
    and "quiet n s (update_last_proposed s, s)" and "quiet n s (stop_rotate s)" and "quiet n s (rr_init s)"
  using assms by (auto simp: quiet_def schedule_next_def block_proposed_def wait_qc_init_def update_last_proposed_def
      stop_rotate_def rr_init_def reject_waits_def split: list.splits)

lemma beat_quiet:
  assumes "store_ok n (promises s)" and "kont_ok n k"
  shows "quiet n s (beat_then k s)"
  using assms new_promise_quiet [OF assms(1)] resolved_promise_quiet [OF assms(1), of "Any (V_Rid p)" for p]
  by (auto simp: quiet_def beat_then_def split_beta)

lemma rr_quiet:
  assumes "store_ok n (promises s)"
  shows "quiet n s (rr_proposed prop s)" and "quiet n s (rr_received prop s)"
  using assms reg_quiet(4,5) [of n "note_prop_blk rid b s" for rid b] 
  by (auto simp: rr_proposed_def rr_received_def Let_def quiet_def note_prop_blk_def)

lemma rotate_quiet:
  assumes "store_ok n (promises s)"
  shows "quiet n s (rotate s)"
proof -
  obtain as s1 bs s2 where r: "rr_reg_proposal s = (as, s1)" "rr_reg_receive_proposal s1 = (bs, s2)"
    by (meson surj_pair)
  have 1: "quiet n s (as, s1)"
    using reg_quiet(4) [OF assms] by (simp add: r)
  then have "quiet n s1 (bs, s2)"
    using reg_quiet(5) [of n s1] r(2) by (simp add: quiet_store)
  with 1 have "quiet n s (as @ bs, s2)"
    by (rule quiet_trans)
  then show ?thesis
    by (auto simp: rotate_def r quiet_def reject_waits_def split: sum.split)
qed

lemma timer_quiet:
  assumes "store_ok n (promises s)"
  shows "quiet n s (on_timer s)" and "quiet n s (on_consensus b s)" and "quiet n s (impeach s)"
  using assms rotate_quiet [of n "upd_pm f s" for f] rotate_quiet [OF assms] wait_qc_quiet(5) [of n "upd_pm f s" for f]
  by (auto simp: on_timer_def on_exp_timeout_def on_consensus_def impeach_def quiet_def Let_def split: timer.split)


subsection \<open>Fetching, verification and delivery\<close>

lemma cached_ref: "tree_wf c \<Longrightarrow> find_blk h (storage c) = Some r \<Longrightarrow> r < next_ref c"
  by (simp add: tree_wf_def find_blk_def)

lemma send_simps [simp]: "r_core (send_msg m p s) = r_core s" "promises (send_msg m p s) = promises s"
  by (simp_all add: send_msg_def)

lemma fc_add_replica_simps [simp]:
  "r_core (snd (fc_add_replica h p fetch_now fc s)) = r_core s" "promises (snd (fc_add_replica h p fetch_now fc s)) = promises s"
  by (simp_all add: fc_add_replica_def fc_send_def)

lemma fold_send_simps:
  assumes "\<And>p s. r_core (f p s) = r_core s \<and> promises (f p s) = promises s"
  shows "r_core (fold f ps s) = r_core s" and "promises (fold f ps s) = promises s"
  using assms by (induction ps arbitrary: s) simp_all

lemma async_fetch_quiet:
  assumes "store_ok (next_ref (r_core s)) (promises s)" and "tree_wf (r_core s)"
  shows "r_core (snd (async_fetch_blk h p now s)) = r_core s"
    and "store_ok (next_ref (r_core s)) (promises (snd (async_fetch_blk h p now s)))"
  using new_promise_quiet [OF assms(1)] resolved_promise_quiet [OF assms(1), of "Any (V_Blk r)" for r]
    cached_ref [OF assms(2), of h] assms(1)
  by (auto simp: async_fetch_blk_def split_beta split: option.split)

lemma fetch_all_quiet:
  assumes "store_ok (next_ref (r_core s)) (promises s)" and "tree_wf (r_core s)"
  shows "r_core (snd (fetch_all hs s)) = r_core s \<and> store_ok (next_ref (r_core s)) (promises (snd (fetch_all hs s)))"
  using assms
proof (induction hs arbitrary: s)
  case (Cons h hs)
  note f = async_fetch_quiet [OF Cons.prems, of h None True]
  then show ?case
    using Cons.IH [of "snd (async_fetch_blk h None True s)"] Cons.prems(2) by (simp add: split_beta)
qed simp

lemma on_fetch_quiet: "store_ok n (promises s) \<Longrightarrow> r < n \<Longrightarrow> quiet n s (on_fetch_blk r s)"
  by (auto simp: quiet_def on_fetch_blk_def Let_def split: option.split)

lemma vpool_quiet:
  assumes "store_ok n (promises s)"
  shows "r_core (snd (vpool_verify t s)) = r_core s" and "store_ok n (promises (snd (vpool_verify t s)))"
    and "quiet n s (vpool_done re p s)"
  using new_promise_quiet [OF assms] assms
  by (auto simp: vpool_verify_def vpool_done_def quiet_def split_beta split: option.split)

fun calm :: "nat \<Rightarrow> replica \<Rightarrow> (pid \<times> action list, replica) res \<Rightarrow> bool" where
  "calm n s (Ok (p, as) t) \<longleftrightarrow> quiet n s (as, t)"
| "calm n s (Exc e t) \<longleftrightarrow> quiet n s ([], t)"

lemma qc_verify_tasks_quiet:
  assumes "store_ok n (promises s)"
  shows "r_core (res_state (qc_verify_tasks q is s)) = r_core s \<and> store_ok n (promises (res_state (qc_verify_tasks q is s)))"
  using assms
proof (induction q "is" s rule: qc_verify_tasks.induct)
  case (2 q i "is" s)
  show ?case
  proof (cases "bits_get (of_nat i) (sq_rids q)")
    case (Ok b bs)
    show ?thesis
    proof (cases b)
      case True
      show ?thesis
      proof (cases "map_of (sq_sigs q) (of_nat i)")
        case (Some sg)
        show ?thesis
        proof (cases "get_pubkey (config (r_core s)) (of_nat i)")
          case (Inr pk)
          let ?v = "vpool_verify \<lparr>vt_msg = sq_obj_hash q, vt_pubkey = pk, vt_sig = sg\<rparr> s"
          note v = vpool_quiet(1,2) [OF 2(3), of "\<lparr>vt_msg = sq_obj_hash q, vt_pubkey = pk, vt_sig = sg\<rparr>"]
          have "r_core (res_state (qc_verify_tasks q is (snd ?v))) = r_core s \<and> store_ok n (promises (res_state (qc_verify_tasks q is (snd ?v))))"
            using 2(1) [OF Ok _ Some Inr refl prod.collapse] True v by simp
          moreover have "res_state (qc_verify_tasks q (i # is) s) = res_state (qc_verify_tasks q is (snd ?v))"
            using Ok True Some Inr by (cases "qc_verify_tasks q is (snd ?v)") (simp_all add: split_beta)
          ultimately show ?thesis by simp
        qed (use 2(3) Ok True Some in simp)
      qed (use 2(3) Ok True in simp)
    next
      case False
      then show ?thesis using 2(2) [OF Ok] 2(3) Ok by simp
    qed
  qed (use 2(3) in simp)
qed simp

lemma all_then_quiet:
  assumes "store_ok n (promises s)" and "kont_ok n k"
  shows "calm n s (all_then ps k s)"
proof (cases "pm_all ps (promises s)")
  case (Inr x)
  obtain q as st where x: "x = (q, as, st)" by (cases x)
  note a = pm_all_ok [OF assms(1) Inr [unfolded x]]
  then have "store_ok n (promises (s\<lparr>promises := st\<rparr>))"
    by simp
  from r_then_quiet [OF this assms(2), of q] a show ?thesis
    by (auto simp add: all_then_def Inr x split_beta quiet_def list_all_iff)
qed (use assms in \<open>simp add: all_then_def quiet_def\<close>)

lemma calm_trans: "r_core t = r_core s \<Longrightarrow> calm n t m \<Longrightarrow> calm n s m"
  by (cases m) (auto simp: quiet_def)

lemma qc_verify_async_quiet:
  assumes "store_ok n (promises s)"
  shows "calm n s (qc_verify_async qc s)"
proof (cases qc)
  case (QuorumCertSecp256k1 q)
  let ?m = "qc_verify_tasks q [0..<unat (nbits (sq_rids q))] s"
  have "calm n s (res_bind ?m (\<lambda>ps s. all_then ps K_All_True s))"
    using qc_verify_tasks_quiet [OF assms, of q "[0..<unat (nbits (sq_rids q))]"]
    by (cases ?m) (auto simp: quiet_def intro!: calm_trans [OF _ all_then_quiet])
  then show ?thesis
    using resolved_promise_quiet [OF assms, of "Any (V_Bool b)" for b]
    by (simp add: qc_verify_async_def QuorumCertSecp256k1 split_beta quiet_def)
qed (use resolved_promise_quiet [OF assms, of "Any (V_Bool b)" for b] in \<open>simp add: qc_verify_async_def split_beta quiet_def\<close>)

lemma block_verify_async_quiet: "store_ok n (promises s) \<Longrightarrow> calm n s (block_verify_async qc s)"
  using resolved_promise_quiet [of n s "Any (V_Bool b)" for b] qc_verify_async_quiet [of n s qc]
  by (simp add: block_verify_async_def split_beta quiet_def)

lemma vote_verify_async_quiet:
  assumes "store_ok n (promises s)"
  shows "calm n s (vote_verify_async v s)"
proof -
  have pc: "r_core (snd (pc_verify_async pk pc s)) = r_core s \<and> store_ok n (promises (snd (pc_verify_async pk pc s)))" for pk pc
    using resolved_promise_quiet [OF assms, of "Any (V_Bool b)" for b] vpool_quiet(1,2) [OF assms]
    by (cases pc) (simp_all add: pc_verify_async_def)
  show ?thesis
    using r_then_quiet [of n "snd (pc_verify_async pk (vote_cert v) s)" "K_Vote_Valid v" for pk] pc assms
    by (auto simp: vote_verify_async_def split_beta quiet_def split: sum.split)
qed

lemma async_deliver_quiet:
  assumes "store_ok (next_ref (r_core s)) (promises s)" and "tree_wf (r_core s)"
  shows "quiet (next_ref (r_core s)) s (snd (async_deliver_blk h p s))"
proof -
  let ?t = "(snd (new_promise s))\<lparr>blk_delivery_waiting := (h, fst (new_promise s)) # blk_delivery_waiting (snd (new_promise s))\<rparr>"
  note n = new_promise_quiet [OF assms(1)]
  have "quiet (next_ref (r_core s)) s ([Then f (K_Fetched p)], snd (async_fetch_blk h (Some p) True ?t))" for f
    using async_fetch_quiet [of ?t h "Some p" True] n assms(2) by (simp add: quiet_def)
  moreover have "is_blk_delivered (heap (r_core s)) h (storage (r_core s)) \<Longrightarrow>
      quiet (next_ref (r_core s)) s ([], snd (resolved_promise (Any (V_Blk (the (find_blk h (storage (r_core s)))))) s))"
    using resolved_promise_quiet [OF assms(1), of "Any (V_Blk (the (find_blk h (storage (r_core s)))))"] cached_ref [OF assms(2), of h]
    by (auto simp: quiet_def is_blk_delivered_def find_blk_def split: option.splits)
  ultimately show ?thesis
    using assms(1) by (auto simp: async_deliver_blk_def split_beta quiet_def Let_def split: option.split)
qed

lemma deliver_fetched_quiet:
  assumes "store_ok (next_ref (r_core s)) (promises s)" and "tree_wf (r_core s)" and "r < next_ref (r_core s)"
  shows "quiet (next_ref (r_core s)) s (deliver_fetched p r s)"
proof (cases "blk_qc (blk (r_core s) r)")
  case (Some qc)
  define m where "m = (if r = b0 (r_core s) then let (q, s) = resolved_promise (Any (V_Bool True)) s in Ok (q, []) s
      else block_verify_async qc s)"
  have m: "calm (next_ref (r_core s)) s m"
    using resolved_promise_quiet [OF assms(1), of "Any (V_Bool True)"] block_verify_async_quiet [OF assms(1), of qc]
    by (auto simp: m_def split_beta quiet_def)
  show ?thesis
  proof (cases m)
    case (Ok x t)
    obtain v as where x: "x = (v, as)" by (cases x)
    have t: "r_core t = r_core s" "store_ok (next_ref (r_core s)) (promises t)" "list_all (action_ok (next_ref (r_core s))) as"
      using m by (simp_all add: Ok x quiet_def)
    then show ?thesis
      using async_fetch_quiet [of t "qc_get_obj_hash qc" "Some p" True] assms(2,3)
      by (simp add: deliver_fetched_def Some m_def [symmetric] Ok x split_beta quiet_def)
  next
    case (Exc e t)
    then show ?thesis
      using m by (simp add: deliver_fetched_def Some m_def [symmetric] quiet_def)
  qed
qed (use assms in \<open>simp add: deliver_fetched_def quiet_def\<close>)

lemma gather_quiet:
  assumes "store_ok (next_ref (r_core s)) (promises s)" and "tree_wf (r_core s)" and "r < next_ref (r_core s)"
  shows "quiet (next_ref (r_core s)) s (gather r p hs ps s)"
proof (cases hs)
  case (Cons h hs')
  then show ?thesis
    using async_deliver_quiet [OF assms(1,2), of h p] assms(3) by (simp add: gather_def split_beta quiet_def)
next
  case Nil
  then show ?thesis
    using pm_all_ok [OF assms(1), of ps] assms by (auto simp: gather_def quiet_def list_all_iff split: sum.split)
qed

end
