(* ===== verification/Base_Run.thy ===== *)
theory Base_Run
  imports Base_Refs
begin

text \<open>
  The runs of a replica, and that its core moves only by steps of the core: what a reachable core
  satisfies holds whatever messages, timeouts and commands arrive, and however the calls nest.
\<close>

subsection \<open>The core moves by its steps\<close>

lemma next_ref_step:
  assumes inv: "core_inv c" and st: "core_step e c c'"
  shows "next_ref c \<le> next_ref c'"
  using st
proof cases
  case (fetch b r)
  from fetch(2) show ?thesis
    by (cases rule: fetch_blk_cases) auto
next
  case (deliver r d)
  then show ?thesis
    using advance_receive_deliver(2) [OF inv] by (auto simp: grows_def)
next
  case (receive_proposal pro u)
  then obtain c1 c2 c4 op where a: "advance c c1" "vote_opinion (prop_blk pro) c1 = Ok op c2" "advance c2 c4"
    "c' = (if op \<and> \<not> vote_disabled c4 then emit (proposal_vote e pro c4) c4 else c4)"
    using on_receive_proposal_cases [OF core_inv_parts(1) [OF inv]] by metis
  have "next_ref c2 = next_ref c1"
    using a(2) by (cases rule: vote_opinion_cases) simp_all
  then show ?thesis
    using advance_keeps [OF a(1)] advance_keeps [OF a(3)] by (simp add: a(4) keeps_def emit_def)
next
  case (receive_vote v u)
  then show ?thesis
    using advance_keeps [OF advance_ops(1)] core_inv_parts(1) [OF inv] by (auto simp: keeps_def)
next
  case (propose cmds ps ex r)
  obtain ct c2 c3 c4 pro u5 c5 where p: "advance c ct" "advance ct c2" "grows c2 c3" "core_inv c3" "advance c3 c4"
    "prop_blk pro = r" "r < next_ref c4" "on_receive_proposal e pro c4 = Ok u5 c5" "advance c5 c'"
    by (rule on_propose_cases [OF inv propose])
  have "core_inv c4"
    using core_inv_advance [OF p(4,5)] .
  then obtain d1 d2 d4 op where a: "advance c4 d1" "vote_opinion (prop_blk pro) d1 = Ok op d2" "advance d2 d4"
    "c5 = (if op \<and> \<not> vote_disabled d4 then emit (proposal_vote e pro d4) d4 else d4)"
    using on_receive_proposal_cases [OF core_inv_parts(1) _ p(8)] p(6,7) by metis
  have "next_ref d2 = next_ref d1"
    using a(2) by (cases rule: vote_opinion_cases) simp_all
  then have "next_ref c5 = next_ref c4"
    using advance_keeps [OF a(1)] advance_keeps [OF a(3)] by (simp add: a(4) keeps_def emit_def)
  then show ?thesis
    using advance_keeps [OF p(1)] advance_keeps [OF p(2)] p(3) advance_keeps [OF p(5)] advance_keeps [OF p(9)]
    by (simp add: keeps_def grows_def)
next
  case (local_order p hs ts)
  then show ?thesis using advance_keeps [OF advance_ops(2), of c] by (auto simp: keeps_def)
next
  case (receive_local_order lo)
  then show ?thesis using advance_keeps [OF advance_ops(3), of c] by (auto simp: keeps_def)
next
  case (order_cmds iter mx now hs)
  then show ?thesis using advance_keeps [OF advance_ops(4)] by (auto simp: keeps_def)
next
  case (wait_qc r)
  then show ?thesis using advance_keeps [OF advance_ops(5), of c] by (auto simp: keeps_def)
qed

lemma steps_inv: "(core_step e)\<^sup>*\<^sup>* c c' \<Longrightarrow> core_inv c \<Longrightarrow> core_inv c' \<and> next_ref c \<le> next_ref c'"
proof (induction rule: rtranclp_induct)
  case (step x y)
  then show ?case
    using core_step_inv next_ref_step by (meson order_trans)
qed simp

definition moves :: "renv \<Rightarrow> replica \<Rightarrow> action list \<times> replica \<Rightarrow> bool" where
  "moves re s x \<longleftrightarrow> (\<forall>e. Threw e \<notin> set (fst x)) \<longrightarrow>
     (core_step (r_env re))\<^sup>*\<^sup>* (r_core s) (r_core (snd x)) \<and>
     list_all (action_ok (next_ref (r_core (snd x)))) (fst x) \<and>
     store_ok (next_ref (r_core (snd x))) (promises (snd x))"

lemma moves_step:
  assumes "(core_step (r_env re))\<^sup>*\<^sup>* (r_core s) (r_core t)" and "quiet (next_ref (r_core t)) t x"
  shows "moves re s x"
  using assms by (simp add: moves_def quiet_def)

lemma moves_quiet: "quiet (next_ref (r_core s)) s x \<Longrightarrow> moves re s x"
  by (rule moves_step) auto

lemma new_events_ok [simp]: "list_all (action_ok n) (new_events c c')"
  by (auto simp: new_events_def list_all_iff)

lemma moves_core_call:
  assumes "\<And>a c. f (r_core s) = Ok a c \<Longrightarrow> core_step (r_env re) (r_core s) c \<and> list_all (action_ok (next_ref c)) (k a)"
    and "core_inv (r_core s)" and "store_ok (next_ref (r_core s)) (promises s)"
  shows "moves re s (core_call f k s)"
proof (cases "f (r_core s)")
  case (Ok a c)
  then show ?thesis
    using assms(1) [OF Ok] store_ok_mono [OF assms(3)] next_ref_step [OF assms(2)]
    by (auto simp: moves_def core_call_def)
next
  case (Exc e c)
  then show ?thesis by (auto simp: moves_def core_call_def)
qed

lemma async_qc_finish_moves:
  assumes "store_ok n (promises s)"
  shows "(core_step (r_env re))\<^sup>*\<^sup>* (r_core s) (r_core (snd (r_async_qc_finish b s)))"
    and "store_ok n (promises (snd (r_async_qc_finish b s)))"
    and "next_ref (r_core (snd (r_async_qc_finish b s))) = next_ref (r_core s)"
proof -
  have st: "core_step (r_env re) (r_core s) (snd (async_qc_finish b (r_core s)))"
    by (rule core_step.wait_qc)
  have n: "next_ref (snd (async_qc_finish b (r_core s))) = next_ref (r_core s)"
    by (simp add: async_qc_finish_def)
  have same: "fst (async_qc_finish b (r_core s)) \<Longrightarrow> snd (async_qc_finish b (r_core s)) = r_core s"
    by (simp add: async_qc_finish_def split: if_splits)
  show "(core_step (r_env re))\<^sup>*\<^sup>* (r_core s) (r_core (snd (r_async_qc_finish b s)))"
    and "store_ok n (promises (snd (r_async_qc_finish b s)))"
    and "next_ref (r_core (snd (r_async_qc_finish b s))) = next_ref (r_core s)"
    using st n same resolved_promise_quiet [OF assms, of Empty]
      new_promise_quiet [of n "s\<lparr>r_core := snd (async_qc_finish b (r_core s))\<rparr>"] assms
    by (auto simp: r_async_qc_finish_def split_beta)
qed

lemma wait_moves:
  assumes "store_ok (next_ref (r_core s)) (promises s)"
  shows "moves re s (wait_qc_finish p s)" and "moves re s (wait_manual x b s)"
proof -
  note q = async_qc_finish_moves [OF assms]
  have "quiet (next_ref (r_core (snd (r_async_qc_finish b s)))) (snd (r_async_qc_finish b s)) (wait_manual x b s)" for b
    using q(2,3) [of b] by (simp add: wait_manual_def split_beta quiet_def)
  then show "moves re s (wait_manual x b s)"
    by (rule moves_step [OF q(1)])
  let ?t = "snd (r_async_qc_finish (last_proposed (r_pm s)) s)"
  have "quiet (next_ref (r_core ?t)) ?t (wait_qc_finish p s)"
    using do_then_quiet [of "next_ref (r_core ?t)" "upd_pm (\<lambda>pm. pm\<lparr>pm_qc_finish := q\<rparr>) ?t" "K_Qc_Finish p" for q] q(2,3)
    by (simp add: wait_qc_finish_def split_beta quiet_def)
  then show "moves re s (wait_qc_finish p s)"
    by (rule moves_step [OF q(1)])
qed


definition ready :: "replica \<Rightarrow> bool" where
  "ready s \<longleftrightarrow> core_inv (r_core s) \<and> store_ok (next_ref (r_core s)) (promises s)"

lemma ready_parts:
  assumes "ready s"
  shows "core_inv (r_core s)" and "tree_wf (r_core s)" and "store_ok (next_ref (r_core s)) (promises s)"
  using assms core_inv_parts(1) by (auto simp: ready_def)

lemma moves_cong: "moves re t x \<Longrightarrow> r_core t = r_core s \<Longrightarrow> moves re s x"
  by (simp add: moves_def)

lemma moves_raise: "ready s \<Longrightarrow> moves re s ([Raise e], s)"
  by (rule moves_quiet) (simp add: quiet_def ready_def)

lemma moves_none: "ready s \<Longrightarrow> moves re s ([], s)"
  by (rule moves_quiet) (simp add: quiet_def ready_def)

lemma moves_threw: "Threw e \<in> set as \<Longrightarrow> moves re s (as, t)"
  by (auto simp: moves_def)

lemma base_on_deliver_moves:
  assumes "ready s" and "r < next_ref (r_core s)" and "no_overflow (r_core s)"
  shows "moves re s (base_on_deliver_blk r s)"
proof -
  note inv = ready_parts [OF assms(1)]
  have ok: "(core_step (r_env re))\<^sup>*\<^sup>* (r_core s) c \<and> next_ref (r_core s) \<le> next_ref c" if "on_deliver_blk r (r_core s) = Ok d c" for d c
    using core_step.deliver [OF assms(2,3) that] next_ref_step [OF inv(1)] by blast
  have "moves re s (x, s\<lparr>r_core := c, blk_delivery_waiting := w\<rparr>)"
    if "on_deliver_blk r (r_core s) = Ok d c" "list_all (action_ok (next_ref (r_core s))) x" for d c x w
    using ok [OF that(1)] that(2) store_ok_mono [OF inv(3)] action_ok_mono
    by (auto simp: moves_def list_all_iff)
  moreover have "moves re s ([], s\<lparr>r_core := c\<rparr>)" if "on_deliver_blk r (r_core s) = Ok d c" for d c
    using ok [OF that] store_ok_mono [OF inv(3)] by (auto simp: moves_def)
  ultimately show ?thesis
    using assms(2) moves_raise [OF assms(1)] moves_threw [of e "[Threw e]" for e]
    by (auto simp: base_on_deliver_blk_def Let_def split: res.split option.split)
qed

lemma process_local_order_moves:
  assumes "ready s"
  shows "moves re s (process_local_order re lo s)"
proof -
  note inv = ready_parts [OF assms]
  define c1 where "c1 = snd (on_receive_local_order lo (r_core s))"
  have 1: "core_step (r_env re) (r_core s) c1"
    unfolding c1_def by (rule core_step.receive_local_order)
  then have r1: "ready (s\<lparr>r_core := c1\<rparr>)"
    using inv core_step_inv next_ref_step store_ok_mono by (auto simp: ready_def)
  have a: "moves re s ([], s\<lparr>r_core := c1\<rparr>)"
    using 1 r1 by (auto simp: moves_def ready_def)
  have b: "moves re s ([], s\<lparr>r_core := c\<rparr>)" "moves re s (beat_then (K_Propose cmds) (s\<lparr>r_core := c\<rparr>))"
    if ok: "flashorder_propose (r_env re) (r_iter re) 10000 (clock s) c1 = Ok cmds c" for cmds c
  proof -
    have 2: "core_step (r_env re) c1 c"
      using ok by (rule core_step.order_cmds)
    then have r2: "ready (s\<lparr>r_core := c\<rparr>)"
      using r1 core_step_inv next_ref_step store_ok_mono unfolding ready_def by auto
    have st: "(core_step (r_env re))\<^sup>*\<^sup>* (r_core s) c"
      using 1 2 by (meson converse_rtranclp_into_rtranclp r_into_rtranclp)
    show "moves re s ([], s\<lparr>r_core := c\<rparr>)"
      using st r2 by (simp add: moves_def ready_def)
    show "moves re s (beat_then (K_Propose cmds) (s\<lparr>r_core := c\<rparr>))"
      using beat_quiet [of "next_ref c" "s\<lparr>r_core := c\<rparr>" "K_Propose cmds"] r2 st
      by (intro moves_step [where t = "s\<lparr>r_core := c\<rparr>"]) (simp_all add: ready_def)
  qed
  show ?thesis
    using a b moves_threw [of e "[Threw e]" for e]
    by (auto simp: process_local_order_def split_beta Let_def c1_def [symmetric] split: res.split)
qed

lemma send_vote_moves:
  assumes "ready s"
  shows "moves re s (send_vote re v p s)"
proof -
  note inv = ready_parts [OF assms]
  have "moves re s (core_call (on_receive_vote (r_env re) v) (\<lambda>u. []) s)"
    using inv by (intro moves_core_call) (auto intro: core_step.receive_vote)
  moreover have "moves re s ([], send_msg m q s)" for m q
    using inv by (intro moves_quiet) (simp add: quiet_def)
  ultimately show ?thesis
    using moves_raise [OF assms] by (simp add: send_vote_def split: sum.split)
qed

lemma on_event_moves:
  assumes "ready s"
  shows "moves re s (on_event re ev s)"
proof -
  note inv = ready_parts [OF assms]
  note new = new_promise_quiet [OF inv(3)]
  show ?thesis
  proof (cases ev)
    case (Do_Decide fin)
    then show ?thesis
      using inv by (auto intro!: moves_quiet simp: quiet_def do_decide_def Let_def split: option.split)
  next
    case (Do_Consensus b)
    then show ?thesis using moves_quiet timer_quiet(2) [OF inv(3)] by simp
  next
    case (Do_Broadcast_Proposal pro)
    have "quiet (next_ref (r_core s)) s (do_broadcast_proposal pro s)"
      using inv(3) fold_send_simps [of "send_msg (MsgPropose d)" for d]
      by (auto simp: do_broadcast_proposal_def quiet_def split: res.split)
    then show ?thesis using moves_quiet Do_Broadcast_Proposal by simp
  next
    case (Do_Vote p v)
    then show ?thesis
      using resolved_promise_quiet [OF inv(3)]
      by (auto intro!: moves_quiet simp: quiet_def do_vote_def beat_resp_def split_beta)
  next
    case (Do_Send_Local_Order p lo)
    have "moves re s ([], send_msg m q s)" for m q
      using inv by (intro moves_quiet) (simp add: quiet_def)
    then show ?thesis
      using process_local_order_moves [OF assms] moves_raise [OF assms] Do_Send_Local_Order
      by (simp add: do_send_local_order_def split: sum.split)
  next
    case (Resolve_QC b)
    then show ?thesis using inv by (auto intro!: moves_quiet simp: quiet_def)
  next
    case (Resolve_Propose pro)
    then show ?thesis
      using new by (auto intro!: moves_quiet simp: quiet_def propose_done_def split_beta)
  next
    case (Resolve_Receive_Proposal pro)
    then show ?thesis
      using new by (auto intro!: moves_quiet simp: quiet_def receive_proposal_done_def split_beta)
  next
    case Resolve_Hqc_Update
    then show ?thesis
      using new by (auto intro!: moves_quiet simp: quiet_def on_hqc_update_def split_beta)
  qed
qed

lemma propose_moves:
  assumes "ready s" and "no_overflow (r_core s)" and "\<And>n b. list_all (action_ok n) (k b)"
  shows "moves re s (core_call (on_propose (r_env re) cmds ps ex) k s)"
  using ready_parts [OF assms(1)] assms(2,3)
  by (intro moves_core_call) (auto intro: core_step.propose)

lemma invoke_moves:
  assumes "ready s" and "no_overflow (r_core s)" and "kont_ok (next_ref (r_core s)) k" and "any_ok (next_ref (r_core s)) v"
  shows "moves re s (invoke re k v s)"
proof -
  note inv = ready_parts [OF assms(1)]
  note raise = moves_raise [OF assms(1)] and none = moves_none [OF assms(1)]
  note q = moves_quiet [of s]
  have blk: "moves re s (with_blk v f s)" if "\<And>r. r < next_ref (r_core s) \<Longrightarrow> moves re s (f r)" for f
    using that raise assms(4) by (auto simp: with_blk_def split: pm_any.split val.split)
  have propo: "moves re s (with_prop v f s)" if "\<And>r. moves re s (f r)" for f
    using that raise by (auto simp: with_prop_def split: pm_any.split val.split)
  have rid: "moves re s (with_rid v f s)" if "\<And>r. moves re s (f r)" for f
    using that raise by (auto simp: with_rid_def split: pm_any.split val.split)
  show ?thesis
  proof (cases k)
    case (K_Respond p)
    have "moves re s ([], send_msg m q s)" for m q
      using inv by (intro moves_quiet) (simp add: quiet_def)
    then show ?thesis using raise K_Respond by (auto split: option.split res.split)
  next
    case (K_Receive_Vote vt)
    have "moves re s (core_call (on_receive_vote (r_env re) vt) (\<lambda>u. []) s)"
      using inv by (intro moves_core_call) (auto intro: core_step.receive_vote)
    then show ?thesis using raise none K_Receive_Vote by (auto split: option.split)
  next
    case (K_Receive_Proposal pro)
    have "moves re s (core_call (on_receive_proposal (r_env re) pro) (\<lambda>u. []) s)"
      using inv assms(3) K_Receive_Proposal by (intro moves_core_call) (auto intro: core_step.receive_proposal)
    then show ?thesis using K_Receive_Proposal by simp
  next
    case (K_Deliver r)
    then show ?thesis
      using raise none base_on_deliver_moves [OF assms(1) _ assms(2)] assms(3) by (auto split: option.split)
  next
    case (K_Fetched p)
    then show ?thesis
      using blk deliver_fetched_quiet [OF inv(3,2)] q by simp
  next
    case (K_Propose cmds)
    then show ?thesis
      using rid propose_moves [OF assms(1,2), where k = "\<lambda>b. []"] none by simp
  next
    case (K_Send_Vote vt)
    then show ?thesis using rid send_vote_moves [OF assms(1)] by simp
  next
    case (K_Manual x)
    then show ?thesis using inv by (auto intro!: moves_quiet simp: quiet_def manual_next_def)
  next
    case (K_Qc_Finish p)
    then show ?thesis using inv by (auto intro!: moves_quiet simp: quiet_def)
  qed (use blk propo none q high_tail_quiet [OF inv(3)] wait_qc_quiet(2) [OF inv(3)] rr_quiet [OF inv(3)] in simp_all)
qed


subsection \<open>Messages\<close>

lemma case_sum_Ok: "(case x of Inl e \<Rightarrow> Exc e d | Inr h \<Rightarrow> Ok (f h) d) = Ok b d' \<Longrightarrow> \<exists>h. b = f h"
  by (cases x) auto

lemma block_unserialize_wire: "block_unserialize psig sha d = Ok b d' \<Longrightarrow> wire_block b"
  unfolding block_unserialize_def Let_def
  by (elim res_bind_OkE) (auto dest!: case_sum_Ok simp: wire_block_def block_empty_def)

lemma fetch_ref: "fetch_blk b c = (r, c') \<Longrightarrow> tree_wf c \<Longrightarrow> r < next_ref c'"
  by (cases rule: fetch_blk_cases) (auto simp: tree_wf_def find_blk_def)

lemma proposal_fetch:
  assumes "proposal_unserialize psig e c d = Ok (pro, c') d'" and "tree_wf c"
  shows "core_step e c c' \<and> prop_blk pro < next_ref c'"
proof -
  obtain b r d1 d2 where b: "block_unserialize psig (e_sha e) d1 = Ok b d2" "fetch_blk b c = (r, c')" "prop_blk pro = r"
    using assms(1) by (auto simp: proposal_unserialize_def blk_unserialize_def res_bind_Ok_iff)
  then show ?thesis
    using core_step.fetch [OF block_unserialize_wire [OF b(1)] b(2)] fetch_ref [OF b(2) assms(2)] by simp
qed

lemma blocks_fetch:
  "core_inv c \<Longrightarrow> (core_step e)\<^sup>*\<^sup>* c (fst (res_state (blocks_unserialize psig e n (c, d)))) \<and>
     (\<forall>rs cd. blocks_unserialize psig e n (c, d) = Ok rs cd \<longrightarrow> (\<forall>r \<in> set rs. r < next_ref (fst cd)))"
proof (induction n arbitrary: c d)
  case (Suc n)
  show ?case
  proof (cases "block_unserialize psig (e_sha e) d")
    case (Ok b d1)
    obtain r c1 where f: "fetch_blk b c = (r, c1)"
      by fastforce
    have st: "core_step e c c1"
      using block_unserialize_wire [OF Ok] f by (rule core_step.fetch)
    have r: "r < next_ref c1"
      using fetch_ref [OF f core_inv_parts(1) [OF Suc.prems]] .
    note IH = Suc.IH [OF core_step_inv [OF st Suc.prems], of d1]
    have le: "next_ref c1 \<le> next_ref (fst (res_state (blocks_unserialize psig e n (c1, d1))))"
      using steps_inv [OF conjunct1 [OF IH] core_step_inv [OF st Suc.prems]] by simp
    have eq: "blocks_unserialize psig e (Suc n) (c, d) = res_bind (blocks_unserialize psig e n (c1, d1)) (\<lambda>rs cs. Ok (r # rs) cs)"
      by (simp add: Ok f)
    show ?thesis
      using IH st r le unfolding eq
      by (cases "blocks_unserialize psig e n (c1, d1)") (auto intro: converse_rtranclp_into_rtranclp)
  qed simp
qed simp

lemma all_then_moves:
  assumes s: "(core_step (r_env re))\<^sup>*\<^sup>* (r_core s0) (r_core s)" and q: "quiet (next_ref (r_core s)) s (as, t)"
    and k: "kont_ok (next_ref (r_core s)) k"
  shows "moves re s0 (case all_then ps k t of Exc e u \<Rightarrow> (as @ [Raise e], u) | Ok (p, bs) u \<Rightarrow> (as @ bs, u))"
proof -
  have t: "r_core t = r_core s" "store_ok (next_ref (r_core s)) (promises t)"
    using q by (simp_all add: quiet_def)
  have "calm (next_ref (r_core s)) t (all_then ps k t)"
    by (rule all_then_quiet [OF t(2) k])
  then have "quiet (next_ref (r_core s)) s (case all_then ps k t of Exc e u \<Rightarrow> (as @ [Raise e], u) | Ok (p, bs) u \<Rightarrow> (as @ bs, u))"
    using q by (auto simp: quiet_def split: res.split)
  then show ?thesis
    by (rule moves_step [OF s])
qed

lemma propose_handler_moves:
  assumes "ready s"
  shows "moves re s (propose_handler re peer msg s)"
proof -
  note inv = ready_parts [OF assms]
  have step: "moves re s (case get_peer_id (config c) (prop_proposer pro) of
        Inl e \<Rightarrow> ([Raise e], s\<lparr>r_core := c\<rparr>)
      | Inr q \<Rightarrow> if p \<noteq> q then ([], s\<lparr>r_core := c\<rparr>)
          else let (d, as, s) = async_deliver_blk (blk_hash (blk c (prop_blk pro))) p (s\<lparr>r_core := c\<rparr>)
               in case all_then [d] (K_Receive_Proposal pro) s of Exc e s \<Rightarrow> (as @ [Raise e], s) | Ok (r, bs) s \<Rightarrow> (as @ bs, s))"
    if ok: "proposal_unserialize (r_psig re) (r_env re) (r_core s) msg = Ok (pro, c) d" for pro c d p
  proof -
    note f = proposal_fetch [OF ok inv(2)]
    let ?s = "s\<lparr>r_core := c\<rparr>"
    have inv': "core_inv c" and store: "store_ok (next_ref c) (promises s)"
      using f core_step_inv [OF _ inv(1)] next_ref_step [OF inv(1)] store_ok_mono [OF inv(3)] by blast+
    have steps: "(core_step (r_env re))\<^sup>*\<^sup>* (r_core s) (r_core ?s)"
      using f by auto
    have quiet: "quiet (next_ref (r_core ?s)) ?s (snd (async_deliver_blk (blk_hash (blk c (prop_blk pro))) p ?s))"
      using async_deliver_quiet [of ?s] store core_inv_parts(1) [OF inv'] by simp
    have "moves re s ([], ?s)" "moves re s ([Raise e], ?s)" for e
      using store by (auto intro!: moves_step [OF steps] simp: quiet_def)
    moreover have "moves re s (let (d, as, s) = async_deliver_blk (blk_hash (blk c (prop_blk pro))) p ?s
               in case all_then [d] (K_Receive_Proposal pro) s of Exc e s \<Rightarrow> (as @ [Raise e], s) | Ok (r, bs) s \<Rightarrow> (as @ bs, s))"
      unfolding split_beta Let_def
      by (rule all_then_moves [OF steps, unfolded split_beta]) (use quiet f in simp_all)
    ultimately show ?thesis
      by (simp split: sum.split)
  qed
  show ?thesis
    using step moves_raise [OF assms] moves_none [OF assms]
    by (auto simp: propose_handler_def Let_def split: option.split res.split)
qed

lemma resp_parse_fetch:
  assumes "core_inv c"
  shows "(core_step e)\<^sup>*\<^sup>* c (fst (res_state (msg_resp_block_parse psig e c m)))"
    and "msg_resp_block_parse psig e c m = Ok rs cd \<Longrightarrow> r \<in> set rs \<Longrightarrow> r < next_ref (fst cd)"
proof -
  note b = blocks_fetch [OF assms, where e = e and psig = psig]
  show "(core_step e)\<^sup>*\<^sup>* c (fst (res_state (msg_resp_block_parse psig e c m)))"
    using b by (auto simp: msg_resp_block_parse_def split: res.split)
  show "r < next_ref (fst cd)" if "msg_resp_block_parse psig e c m = Ok rs cd" "r \<in> set rs"
    using that b [THEN conjunct2, rule_format] by (auto simp: msg_resp_block_parse_def simp del: split_paired_All split: res.splits)
qed

lemma handlers_move:
  assumes "ready s"
  shows "moves re s (vote_handler re peer msg s)" and "moves re s (vote_arrived v q s)"
    and "moves re s (req_blk_handler peer msg s)" and "moves re s (resp_blk_handler re msg s)"
    and "moves re s (local_order_handler re peer msg s)"
proof -
  note inv = ready_parts [OF assms]
  note rn = moves_raise [OF assms] moves_none [OF assms]
  show "moves re s (vote_handler re peer msg s)"
    using rn async_deliver_quiet [OF inv(3,2)]
    by (auto simp: vote_handler_def split_beta quiet_def intro!: moves_quiet split: option.split res.split)
  show "moves re s (local_order_handler re peer msg s)"
    using rn process_local_order_moves [OF assms]
    by (auto simp: local_order_handler_def split: option.split res.split sum.split)
  have v: "calm (next_ref (r_core s)) s (vote_verify_async v s)"
    by (rule vote_verify_async_quiet [OF inv(3)])
  show "moves re s (vote_arrived v q s)"
  proof (cases "vote_verify_async v s")
    case (Ok x t)
    obtain r as where x: "x = (r, as)" by (cases x)
    have "quiet (next_ref (r_core s)) s (as, t)"
      using v by (simp add: Ok x)
    then have "moves re s (case all_then [q, r] (K_Receive_Vote v) t of Exc e u \<Rightarrow> (as @ [Raise e], u) | Ok (p, bs) u \<Rightarrow> (as @ bs, u))"
      by (intro all_then_moves) simp_all
    then show ?thesis
      by (simp add: vote_arrived_def Ok x)
  next
    case (Exc e t)
    then show ?thesis
      using v by (auto simp: vote_arrived_def quiet_def intro!: moves_quiet)
  qed
  show "moves re s (req_blk_handler peer msg s)"
  proof -
    have "moves re s (case all_then (fst (fetch_all hs s)) (K_Respond p) (snd (fetch_all hs s)) of Exc e s \<Rightarrow> ([Raise e], s) | Ok (q, as) s \<Rightarrow> (as, s))" for hs p
      using all_then_moves [of re s s "[]" "snd (fetch_all hs s)" "K_Respond p" "fst (fetch_all hs s)", unfolded append_Nil]
        fetch_all_quiet [OF inv(3,2), of hs] by (simp add: quiet_def)
    then show ?thesis
      using rn by (auto simp: req_blk_handler_def split_beta split: option.split res.split)
  qed
  show "moves re s (resp_blk_handler re msg s)"
  proof -
    let ?m = "msg_resp_block_parse (r_psig re) (r_env re) (r_core s) msg"
    have "moves re s (as, s\<lparr>r_core := fst (res_state ?m)\<rparr>)" if "list_all (action_ok (next_ref (fst (res_state ?m)))) as" for as
      using that resp_parse_fetch(1) [OF inv(1)] steps_inv [OF resp_parse_fetch(1) [OF inv(1)] inv(1)] store_ok_mono [OF inv(3)]
      by (auto simp: moves_def)
    then show ?thesis
      using resp_parse_fetch(2) [OF inv(1), of "r_psig re" "r_env re" msg]
      by (cases ?m) (auto simp: resp_blk_handler_def list_all_iff split_beta)
  qed
qed

subsection \<open>The queue of commands\<close>

lemma take_command_simps [simp]:
  "r_core (take_command now cmd s) = r_core s" "promises (take_command now cmd s) = promises s"
  by (simp_all add: take_command_def split_beta Let_def)

lemma send_batch_moves:
  assumes "ready s"
  shows "moves re s (send_batch p s)"
proof -
  note inv = ready_parts [OF assms]
  show ?thesis
    unfolding send_batch_def Let_def
    by (rule moves_cong [OF moves_core_call]) (use inv core_step.local_order in auto)
qed

lemma command_loop_moves: "ready s \<Longrightarrow> moves re s (command_loop now cmds s)"
proof (induction cmds arbitrary: now s)
  case Nil
  then show ?case
    using ready_parts [OF Nil] by (auto intro!: moves_quiet simp: quiet_def)
next
  case (Cons cmd cmds)
  let ?t = "take_command (now 0) cmd s"
  have t: "ready ?t" "ready (?t\<lparr>cmd_pending := cmds\<rparr>)"
    using Cons.prems by (simp_all add: ready_def)
  show ?case
    using send_batch_moves [OF t(2)] Cons.IH [OF t(1)] by (simp add: Let_def moves_def)
qed

subsection \<open>Every action, every input\<close>

lemma pact_step_moves:
  assumes "ready s" and "no_overflow (r_core s)" and "pact_ok (next_ref (r_core s)) a"
  shows "moves re s (pact_step re a s)"
proof (cases a)
  case (Invoke k v npm)
  have k: "kont_ok (next_ref (r_core s)) k" "any_ok (next_ref (r_core s)) v"
    using assms(3) by (simp_all add: Invoke)
  have r: "any_ok (next_ref (r_core s)) (returned k v s)"
    using k(2) ready_parts(1) [OF assms(1)] by (cases k) (auto split: option.split simp: core_inv_def refs_ok_def)
  obtain as t where i: "invoke re k v s = (as, t)" by fastforce
  have m: "moves re s (as, t)"
    using invoke_moves [OF assms(1,2) k, of re] by (simp add: i)
  show ?thesis
  proof (cases "\<exists>e. Threw e \<in> set as")
    case True
    then show ?thesis by (auto simp: moves_def Invoke i)
  next
    case False
    with m have "(core_step (r_env re))\<^sup>*\<^sup>* (r_core s) (r_core t)"
      by (simp add: moves_def)
    then have "next_ref (r_core s) \<le> next_ref (r_core t)"
      using steps_inv ready_parts(1) [OF assms(1)] by blast
    then show ?thesis
      using m r by (auto simp: moves_def Invoke i intro: any_ok_mono)
  qed
next
  case (Resolve p v)
  then show ?thesis
    using resolve_ok [OF ready_parts(3) [OF assms(1)], of v p] assms(3)
    by (auto intro!: moves_quiet simp: quiet_def split_beta list_all_iff)
next
  case (Reject p v)
  then show ?thesis
    using reject_ok [OF ready_parts(3) [OF assms(1)], of v p] assms(3)
    by (auto intro!: moves_quiet simp: quiet_def split_beta list_all_iff)
next
  case (Collect c i p v)
  then show ?thesis
    using collect_ok [OF ready_parts(3) [OF assms(1)], of v c i p] assms(3)
    by (auto intro!: moves_quiet simp: quiet_def split_beta list_all_iff)
qed (use moves_none [OF assms(1)] in simp)

lemma act_moves:
  assumes "ready s" and "no_overflow (r_core s)" and "action_ok (next_ref (r_core s)) a"
  shows "moves re s (act re a s)"
proof -
  note inv = ready_parts [OF assms(1)]
  note q = moves_quiet [of s]
  show ?thesis
  proof (cases a)
    case (P x)
    then show ?thesis using pact_step_moves [OF assms(1,2)] assms(3) by simp
  next
    case (Then p k)
    then show ?thesis using q do_then_quiet [OF inv(3)] assms(3) by simp
  next
    case (Ev e)
    then show ?thesis using on_event_moves [OF assms(1)] by simp
  next
    case (New_Consensus x)
    then show ?thesis using propose_moves [OF assms(1,2)] by (simp add: new_consensus_def)
  next
    case (Gather r p hs ps)
    then show ?thesis using q gather_quiet [OF inv(3,2)] assms(3) by simp
  next
    case (Fetched_Blk r)
    then show ?thesis using q on_fetch_quiet [OF inv(3)] assms(3) by simp
  next
    case (Vote_Arrived v p)
    then show ?thesis using handlers_move(2) [OF assms(1)] by simp
  next
    case (Set_Locked)
    then show ?thesis using q inv(3) by (simp add: quiet_def)
  next
    case (Set_Rotate_Timer)
    then show ?thesis using q inv(3) by (simp add: quiet_def)
  next
    case (Threw e)
    then show ?thesis by (simp add: moves_threw)
  qed (use q wait_qc_quiet [OF inv(3)] reg_quiet [OF inv(3)] wait_moves [OF inv(3)] moves_raise [OF assms(1)] in simp_all)
qed

lemma on_input_moves:
  assumes "ready s"
  shows "moves re s (on_input re i s)"
proof -
  note inv = ready_parts [OF assms]
  note q = moves_quiet [of s]
  show ?thesis
  proof (cases i)
    case (In_Propose p m)
    then show ?thesis using propose_handler_moves [OF assms] by simp
  next
    case (In_Command h cb)
    then show ?thesis using q inv(3) by (simp add: quiet_def exec_command_def)
  next
    case (In_Queue now)
    then show ?thesis using command_loop_moves [OF assms] by (simp add: cmd_pending_handler_def)
  next
    case (In_Verified p)
    then show ?thesis using q vpool_quiet(3) [OF inv(3)] by simp
  next
    case (In_Fetch_Timeout h)
    have "quiet (next_ref (r_core s)) s ([], fc_timeout h s)"
      using inv(3) fold_send_simps [of "fc_send h"] by (simp add: quiet_def fc_timeout_def fc_send_def split: option.split)
    then show ?thesis using q In_Fetch_Timeout by simp
  next
    case (In_Clock t)
    then show ?thesis using q inv(3) by (simp add: quiet_def)
  qed (use handlers_move [OF assms] q timer_quiet [OF inv(3)] in simp_all)
qed

subsection \<open>Runs\<close>

lemma pm_init_quiet:
  assumes "store_ok n (promises s)"
  shows "quiet n s (pm_init s)"
proof -
  obtain as t where h: "high_tail_init s = (as, t)" by fastforce
  have 1: "quiet n s (as, t)"
    using high_tail_init_quiet [OF assms] by (simp add: h)
  obtain bs u where r: "(if pm_kind (r_pm t) = Round_Robin then rr_init t else wait_qc_init t) = (bs, u)" by fastforce
  have "quiet n t (bs, u)"
    using wait_qc_quiet(3,6) [OF quiet_store [OF 1]] r by (metis (full_types))
  with 1 have "quiet n s (as @ bs, u)"
    by (rule quiet_trans)
  then show ?thesis
    by (simp add: pm_init_def h r)
qed

lemma base_start_quiet:
  assumes "replica_new e n rid pm = Inr s"
  obtains t where "core_reachable e (r_core t)" "ready t" "quiet (next_ref (r_core t)) t (base_start reps e fair gen net s)"
proof -
  obtain c where c: "core_new e rid = Inr c" "r_core s = c" "store_ok 0 (promises s)"
  proof -
    assume a: "\<And>c. core_new e rid = Inr c \<Longrightarrow> r_core s = c \<Longrightarrow> store_ok 0 (promises s) \<Longrightarrow> thesis"
    have "store_ok 0 pstore_new"
      by (simp add: store_ok_def pstore_new_def promise_ok_def)
    then have "store_ok 0 (snd (promise_new (snd (promise_new (snd (promise_new pstore_new))))))"
      by (intro store_ok_new)
    with assms show thesis
      by (cases "core_new e rid") (auto simp: replica_new_def split_beta intro: a)
  qed
  let ?reps = "map (\<lambda>(i, self, p, pk). (of_nat i, p, pk)) (enumerate 0 reps)"
  let ?ps = "peers s @ map (\<lambda>(self, p, pk). p) (filter (\<lambda>(self, p, pk). \<not> self) reps)"
  let ?c = "on_init e (of_nat (length ?ps div 3)) fair gen net (fold (\<lambda>(i, p, pk). add_replica i p pk) ?reps c)"
  let ?t = "s\<lparr>r_core := ?c, peers := ?ps\<rparr>"
  have f: "fold (\<lambda>(i, self, p, pk). add_replica (of_nat i) p pk) (enumerate 0 reps) c = fold (\<lambda>(i, p, pk). add_replica i p pk) ?reps c"
    unfolding fold_map by (rule fold_cong) auto
  have "core_start e rid ?reps (of_nat (length ?ps div 3)) fair gen net = Inr ?c"
    by (simp add: core_start_def c(1))
  then have r: "core_reachable e ?c"
    by (rule core_reachable.start)
  then have "ready ?t"
    using core_reachable_inv store_ok_mono [OF c(3)] by (simp add: ready_def)
  moreover have "quiet (next_ref (r_core ?t)) ?t (base_start reps e fair gen net s)"
    using pm_init_quiet [of "next_ref ?c" ?t] store_ok_mono [OF c(3)] by (simp add: base_start_def Let_def c(2) f)
  ultimately show thesis
    using that [of ?t] r by simp
qed

text \<open>
  The states of a replica with what it has still to run. An input is taken when there is nothing to
  run. An exception drops the rest. A call of the core that throws may leave its work half done, and the
  run ends there.
\<close>

definition threw :: "action list \<Rightarrow> bool" where
  "threw as \<longleftrightarrow> list_ex (\<lambda>a. case a of Threw e \<Rightarrow> True | _ \<Rightarrow> False) as"

inductive replica_reachable :: "renv \<Rightarrow> action list \<Rightarrow> replica \<Rightarrow> bool" for re :: renv where
  start: "replica_new (r_env re) n rid pm = Inr s \<Longrightarrow> base_start reps (r_env re) fair gen net s = (as, t) \<Longrightarrow>
     replica_reachable re as t"
| input: "replica_reachable re [] s \<Longrightarrow> on_input re i s = (as, t) \<Longrightarrow> \<not> threw as \<Longrightarrow> replica_reachable re as t"
| act: "replica_reachable re (a # as) s \<Longrightarrow> no_overflow (r_core s) \<Longrightarrow> act re a s = (bs, t) \<Longrightarrow> \<not> threw bs \<Longrightarrow>
     replica_reachable re (bs @ as) t"
| raise: "replica_reachable re (Raise e # as) s \<Longrightarrow> replica_reachable re [] s"

lemma threw_simps: "threw as \<longleftrightarrow> (\<exists>e. Threw e \<in> set as)"
proof -
  have "(case a of Threw e \<Rightarrow> True | _ \<Rightarrow> False) \<longleftrightarrow> (\<exists>e. a = Threw e)" for a
    by (cases a) simp_all
  then show ?thesis
    by (auto simp: threw_def list_ex_iff)
qed

lemma reachable_steps: "core_reachable e c \<Longrightarrow> (core_step e)\<^sup>*\<^sup>* c c' \<Longrightarrow> core_reachable e c'"
  by (rotate_tac, induction rule: rtranclp_induct) (auto intro: core_reachable.step)

lemma moves_not_threw:
  assumes "moves re s (as, t)" and "\<not> threw as" and "core_reachable (r_env re) (r_core s)"
  shows "core_reachable (r_env re) (r_core t)" and "ready t" and "list_all (action_ok (next_ref (r_core t))) as"
    and "next_ref (r_core s) \<le> next_ref (r_core t)"
  using assms reachable_steps core_reachable_inv steps_inv by (fastforce simp: moves_def threw_simps ready_def)+

lemma replica_reachable_core:
  "replica_reachable re as s \<Longrightarrow>
     core_reachable (r_env re) (r_core s) \<and> ready s \<and> list_all (action_ok (next_ref (r_core s))) as"
proof (induction rule: replica_reachable.induct)
  case (start n rid pm s reps fair gen net as t)
  obtain u where "core_reachable (r_env re) (r_core u)" "ready u" "quiet (next_ref (r_core u)) u (as, t)"
    using base_start_quiet [OF start(1), of reps fair gen net] start(2) by metis
  then show ?case
    by (simp add: quiet_def ready_def)
next
  case (input s i as t)
  then have "moves re s (as, t)"
    using on_input_moves [of s re i] by simp
  then show ?case
    using moves_not_threw input by blast
next
  case (act a as s bs t)
  then have "moves re s (bs, t)"
    using act_moves [of s a re] by simp
  then show ?case
    using moves_not_threw [OF _ act(4)] act.IH action_ok_mono by (fastforce simp: list_all_iff)
qed auto

end
