(* ===== verification/Base_Decide.thy ===== *)
theory Base_Decide
  imports Base_Run "HOL-Library.Multiset" "HOL-Library.Sublist"
begin

text \<open>
  What a replica hands to the state machine: each decision of its core at most once. With the refinement
  of the core this is the content of one chain of committed blocks.
\<close>

subsection \<open>The log of the core only grows\<close>

lemma res_state_bind:
  assumes "prefix xs (events (res_state m))" and "\<And>a c. m = Ok a c \<Longrightarrow> prefix (events c) (events (res_state (k a c)))"
  shows "prefix xs (events (res_state (res_bind m k)))"
  using assms by (cases m) (auto intro: prefix_order.trans)

lemma emit_prefix: "prefix (events c) (events (emit e c))"
  by (simp add: emit_def)

lemma decide_cmds_prefix: "prefix (events c) (events (decide_cmds r i cmds c))"
proof (induction cmds arbitrary: i c)
  case (Cons cmd cmds)
  show ?case
    unfolding decide_cmds.simps Let_def
    by (rule prefix_order.trans [OF _ Cons.IH]) (simp add: emit_def)
qed simp

lemma commit_prefix: "prefix (events c) (events (fold commit_blk rs c))"
proof (induction rs arbitrary: c)
  case (Cons r rs)
  have "prefix (events c) (events (commit_blk r c))"
    unfolding commit_blk_def Let_def
    using prefix_order.trans [OF _ decide_cmds_prefix] by (simp add: emit_def upd_blk_def)
  then show ?case
    using Cons.IH [of "commit_blk r c"] by (simp add: prefix_order.trans)
qed simp

lemma update_prefix: "prefix (events c) (events (res_state (update r c)))"
proof -
  have chain: "prefix (events c) (events (res_state (commit_chain b c)))" for b c
    by (simp add: commit_chain_def commit_prefix split: sum.split prod.split)
  have commit: "prefix (events c) (events (res_state (update_commit r2 r1 c)))" for r2 r1 c
    using chain by (auto simp: update_commit_def split: option.split)
  have lock: "prefix (events c) (events (res_state (update_lock r2 c)))" for r2 c
    using commit [where c = "c\<lparr>b_lock := l\<rparr>" for l] commit by (auto simp: update_lock_def split: option.split)
  have hqc: "prefix (events c) (events (res_state (update_hqc r2 q c)))" for r2 q c
    by (auto simp: update_hqc_def emit_def split: option.split)
  have bind: "prefix (events c) (events (res_state (res_bind (update_hqc r2 q (c\<lparr>storage := st\<rparr>)) (\<lambda>u. update_lock r2))))" for r2 q st
    by (rule res_state_bind) (use hqc [where c = "c\<lparr>storage := st\<rparr>"] lock in simp_all)
  show ?thesis
    using bind by (auto simp: update_def Let_def split: option.split)
qed

lemma qc_finish_prefix: "prefix (events c) (events (on_qc_finish r c))"
  by (simp add: on_qc_finish_def emit_def)

lemma vote_opinion_events: "events (res_state (vote_opinion r c)) = events c"
  by (auto simp: vote_opinion_def split: option.split sum.split)

lemma receive_proposal_prefix: "prefix (events c) (events (res_state (on_receive_proposal e pro c)))"
  unfolding on_receive_proposal_def Let_def
proof (intro res_state_bind)
  fix u c1 op c2
  have "prefix (events c2) (events (case qc_ref (blk c2 (prop_blk pro)) of
      Some q \<Rightarrow> if prop_proposer pro = core_id c then c2 else on_qc_finish q c2 | None \<Rightarrow> c2))" (is "prefix _ (events ?c3)")
    by (simp add: qc_finish_prefix split: option.split)
  then have "prefix (events c2) (events (emit (Resolve_Receive_Proposal pro) ?c3))" (is "prefix _ (events ?c4)")
    using prefix_order.trans [OF _ emit_prefix] by blast
  then show "prefix (events c2) (events (res_state (if op \<and> \<not> vote_disabled ?c4
      then Ok () (emit (Do_Vote (prop_proposer pro) \<lparr>voter = core_id ?c4, vote_blk_hash = blk_hash (blk ?c4 (prop_blk pro)),
             vote_cert = create_part_cert e (blk_hash (blk ?c4 (prop_blk pro)))\<rparr>) ?c4)
      else Ok () ?c4)))"
    using prefix_order.trans [OF _ emit_prefix, of "events c2" ?c4] by simp
qed (simp_all add: update_prefix vote_opinion_events)

lemma deliver_parents_events: "events (res_state (deliver_parents r hs c)) = events c"
  by (induction hs arbitrary: c) (simp_all add: upd_blk_def split: sum.split)

lemma deliver_events: "on_deliver_blk r c = Ok d c' \<Longrightarrow> events c' = events c"
  using deliver_parents_events [of r "parent_hashes (blk c r)" "upd_blk r (\<lambda>b. b\<lparr>parents := []\<rparr>) c"]
  by (auto simp: on_deliver_blk_def deliver_done_def upd_blk_def Let_def elim!: res_bind_OkE
      split: if_splits list.splits option.splits)

lemma deliver_prefix: "prefix (events c) (events (res_state (on_deliver_blk r c)))"
  using deliver_parents_events [of r "parent_hashes (blk c r)" "upd_blk r (\<lambda>b. b\<lparr>parents := []\<rparr>) c"]
  unfolding on_deliver_blk_def
  by (auto simp: deliver_done_def upd_blk_def Let_def intro!: res_state_bind split: list.split option.split)

lemma fetch_events: "fetch_blk b c = (r, c') \<Longrightarrow> events c' = events c"
  by (auto simp: fetch_blk_def Let_def split: option.splits prod.splits)

lemma propose_prefix: "prefix (events c) (events (res_state (on_propose e cmds ps ex c)))"
proof -
  have rest: "prefix (events c) (events (res_state (res_bind (on_deliver_blk r c) (\<lambda>d c. res_bind (update r c) (\<lambda>u c.
         if height (blk c r) \<le> vheight c then Exc (Runtime_Error ''new block should be higher than vheight'') c
         else res_bind (on_receive_proposal e pro c) (\<lambda>u c.
           Ok r (emit (Do_Broadcast_Proposal pro) (emit (Resolve_Propose pro) c))))))))" for r c pro
    by (intro res_state_bind deliver_prefix) (auto simp: emit_def intro!: res_state_bind update_prefix receive_proposal_prefix)
  have "prefix (events c) (events (res_state (let (r, c) = fetch_blk b (c\<lparr>tails := t\<rparr>); c = upd_blk r (\<lambda>b. b\<lparr>self_qc := Some (qc c b)\<rparr>) c;
      pro = \<lparr>prop_proposer = core_id c, prop_blk = r\<rparr>
    in res_bind (on_deliver_blk r c) (\<lambda>d c. res_bind (update r c) (\<lambda>u c.
         if height (blk c r) \<le> vheight c then Exc (Runtime_Error ''new block should be higher than vheight'') c
         else res_bind (on_receive_proposal e pro c) (\<lambda>u c.
           Ok r (emit (Do_Broadcast_Proposal pro) (emit (Resolve_Propose pro) c))))))))" for b t qc
  proof -
    obtain r c1 where f: "fetch_blk b (c\<lparr>tails := t\<rparr>) = (r, c1)" by fastforce
    define d where "d = upd_blk r (\<lambda>b. b\<lparr>self_qc := Some (qc c1 b)\<rparr>) c1"
    have "events d = events c"
      using fetch_events [OF f] by (simp add: d_def upd_blk_def)
    then show ?thesis
      using rest [of d r "\<lparr>prop_proposer = core_id d, prop_blk = r\<rparr>"] unfolding f Let_def prod.case d_def [symmetric] by simp
  qed
  note r = this
  show ?thesis
    using r unfolding on_propose_def by (auto simp: Let_def split: list.split option.split sum.split)
qed

lemma receive_vote_prefix: "prefix (events c) (events (res_state (on_receive_vote e v c)))"
proof -
  have "prefix (events c) (events (res_state (res_bind (update_hqc r q c) (\<lambda>u c. Ok () (on_qc_finish r c)))))" for r q c
    by (rule res_state_bind) (auto simp: update_hqc_def emit_def qc_finish_prefix split: option.split)
  note p = this [of "upd_blk r f (upd_blk r g c)" for r f g]
  show ?thesis
    using p by (auto simp: on_receive_vote_def Let_def upd_blk_def split: sum.split res.split)
qed

lemma local_order_prefix: "prefix (events c) (events (on_local_order p hs ts c))"
  by (simp add: on_local_order_def emit_def)

subsection \<open>What the replica executes\<close>

definition pending_decides :: "action list \<Rightarrow> finality list" where
  "pending_decides as = List.map_filter (\<lambda>a. case a of Ev (Do_Decide f) \<Rightarrow> Some f | _ \<Rightarrow> None) as"

lemma pending_append [simp]: "pending_decides (as @ bs) = pending_decides as @ pending_decides bs"
  by (simp add: pending_decides_def map_filter_append)

lemma pending_simps [simp]:
  "pending_decides [] = []"
  "pending_decides (a # as) = (case a of Ev (Do_Decide f) \<Rightarrow> [f] | _ \<Rightarrow> []) @ pending_decides as"
  by (auto simp: pending_decides_def map_filter_simps split: action.split event.split)

lemma pending_events: "pending_decides (map Ev es) = decides_of es"
  by (induction es) (simp_all add: decides_of_def map_filter_simps split: event.split)

lemma pending_new_events [simp]: "pending_decides (new_events c c') = decides_of (drop (length (events c)) (events c'))"
  by (simp add: new_events_def pending_events)

fun plain :: "action \<Rightarrow> bool" where
  "plain (Ev e) \<longleftrightarrow> False"
| "plain a \<longleftrightarrow> True"

lemma plain_pending: "list_all plain as \<Longrightarrow> pending_decides as = []"
  by (induction as) (auto split: action.split)

lemma plain_map_P [simp]: "list_all plain (map P as)"
  by (simp add: list_all_iff)

lemma plain_reject_member [simp]: "list_all plain (reject_member h)"
  by (simp add: reject_member_def split: option.split)

text \<open>What clients see: what has been executed, their callbacks, and their commands that wait.\<close>

definition clients :: "replica \<Rightarrow> finality list \<times> (nat \<times> finality) list \<times> (uint256 \<times> nat) list \<times> (uint256 \<times> nat) list" where
  "clients s = (executed s, callbacks s, decision_waiting s, cmd_pending s)"

lemma clients_simps [simp]:
  "clients (s\<lparr>r_core := a1\<rparr>) = clients s" "clients (s\<lparr>r_pm := a2\<rparr>) = clients s" "clients (s\<lparr>promises := a3\<rparr>) = clients s"
  "clients (s\<lparr>propose_waiting := a4\<rparr>) = clients s" "clients (s\<lparr>receive_proposal_waiting := a4\<rparr>) = clients s"
  "clients (s\<lparr>hqc_update_waiting := a4\<rparr>) = clients s" "clients (s\<lparr>qc_promise := a5\<rparr>) = clients s"
  "clients (s\<lparr>blk_fetch_waiting := a6\<rparr>) = clients s" "clients (s\<lparr>blk_delivery_waiting := a7\<rparr>) = clients s"
  "clients (s\<lparr>local_order_buffer := a8\<rparr>) = clients s" "clients (s\<lparr>timestamp_buffer := a9\<rparr>) = clients s"
  "clients (s\<lparr>veri_tasks := a10\<rparr>) = clients s" "clients (s\<lparr>clock := a11\<rparr>) = clients s" "clients (s\<lparr>sent := a12\<rparr>) = clients s"
  by (simp_all add: clients_def)

text \<open>No event of the core, and nothing for clients.\<close>

definition still :: "replica \<Rightarrow> action list \<times> replica \<Rightarrow> bool" where
  "still s x \<longleftrightarrow> clients (snd x) = clients s \<and> events (r_core (snd x)) = events (r_core s) \<and> list_all plain (fst x)"

definition books :: "replica \<Rightarrow> action list \<times> replica \<Rightarrow> bool" where
  "books s x \<longleftrightarrow> clients (snd x) = clients s \<and> (threw (fst x) \<or>
     decides_of (events (r_core (snd x))) = decides_of (events (r_core s)) @ pending_decides (fst x))"

lemma still_books: "still s x \<Longrightarrow> books s x"
  by (simp add: still_def books_def plain_pending)

lemma new_promise_still [simp]:
  "clients (snd (new_promise s)) = clients s" "r_core (snd (new_promise s)) = r_core s"
  "clients (snd (resolved_promise v s)) = clients s" "r_core (snd (resolved_promise v s)) = r_core s"
  by (simp_all add: new_promise_def resolved_promise_def split_beta)

lemma upd_pm_clients [simp]: "clients (upd_pm f s) = clients s"
  by (simp add: upd_pm_def)

lemma r_then_still [simp]:
  "clients (snd (snd (r_then p k s))) = clients s" "r_core (snd (snd (r_then p k s))) = r_core s"
  "list_all plain (fst (snd (r_then p k s)))"
  by (simp_all add: r_then_def split_beta)

lemma do_then_still [simp]: "still s (do_then p k s)"
  by (simp add: still_def do_then_def)

lemma reg_still:
  "still s (reg_hqc_update s)" "still s (reg_proposal s)" "still s (reg_receive_proposal s)"
  "still s (rr_reg_proposal s)" "still s (rr_reg_receive_proposal s)" "still s (wait_proposal s)"
  by (simp_all add: still_def pm_ops split_beta)

lemma still_trans: "still s (as, t) \<Longrightarrow> still t (bs, u) \<Longrightarrow> still s (as @ bs, u)"
  by (simp add: still_def)

lemma high_tail_still:
  "still s (hqc_tail_new re h s)" "still s (hqc_tail_proposed pro s)" "still s (hqc_tail_received pro s)"
  using reg_still [of "upd_pm f s" for f] reg_still [of s]
  by (auto simp: hqc_tail_new_def hqc_tail_proposed_def hqc_tail_received_def still_def split: sum.split option.split)

lemma wait_qc_still:
  "still s (schedule_next s)" "still s (block_proposed pro s)" "still s (wait_qc_init s)"
  "still s (update_last_proposed s, s)" "still s (stop_rotate s)" "still s (rr_init s)" "still s (beat_then k s)"
  by (auto simp: still_def schedule_next_def block_proposed_def wait_qc_init_def update_last_proposed_def stop_rotate_def
      rr_init_def reject_waits_def beat_then_def split_beta split: list.split)

lemma async_qc_finish_still [simp]:
  "clients (snd (r_async_qc_finish b s)) = clients s" "events (r_core (snd (r_async_qc_finish b s))) = events (r_core s)"
  by (simp_all add: r_async_qc_finish_def async_qc_finish_def split_beta)

lemma wait_still: "still s (wait_qc_finish p s)" "still s (wait_manual x b s)"
  using do_then_still [of "upd_pm f (snd (r_async_qc_finish b s))" for f b]
  by (simp_all add: still_def wait_qc_finish_def wait_manual_def split_beta)

lemma rr_still: "still s (rr_proposed pro s)" "still s (rr_received pro s)"
  using reg_still [of "note_prop_blk i b s" for i b]
  by (simp_all add: rr_proposed_def rr_received_def still_def note_prop_blk_def Let_def)

lemma rotate_still: "still s (rotate s)"
proof -
  obtain as s1 bs s2 where r: "rr_reg_proposal s = (as, s1)" "rr_reg_receive_proposal s1 = (bs, s2)"
    by (meson surj_pair)
  have "still s (as @ bs, s2)"
    using reg_still(4) [of s] reg_still(5) [of s1] still_trans by (simp add: r)
  then show ?thesis
    by (simp add: rotate_def r still_def reject_waits_def split: sum.split)
qed

lemma timer_still: "still s (on_timer s)" "still s (on_consensus b s)" "still s (impeach s)"
  using rotate_still [of "upd_pm f s" for f] rotate_still [of s] wait_qc_still(5) [of "upd_pm f s" for f]
  by (auto simp: on_timer_def on_exp_timeout_def on_consensus_def impeach_def still_def Let_def split: timer.split)

lemma high_tail_init_still: "still s (high_tail_init s)"
proof -
  obtain as s1 bs s2 cs s3 where r: "reg_hqc_update (upd_pm (\<lambda>pm. pm\<lparr>hqc_tail := b0 (r_core s)\<rparr>) s) = (as, s1)"
    "reg_proposal s1 = (bs, s2)" "reg_receive_proposal s2 = (cs, s3)"
    by (meson surj_pair)
  then show ?thesis
    using reg_still(1) [of "upd_pm (\<lambda>pm. pm\<lparr>hqc_tail := b0 (r_core s)\<rparr>) s"] reg_still(2) [of s1] reg_still(3) [of s2]
    by (simp add: still_def high_tail_init_def)
qed


lemma send_still [simp]:
  "clients (send_msg m p s) = clients s" "clients (snd (fc_add_replica h p now fc s)) = clients s"
  by (simp_all add: send_msg_def fc_add_replica_def fc_send_def)

lemma fold_clients: "(\<And>p s. clients (f p s) = clients s) \<Longrightarrow> clients (fold f ps s) = clients s"
  by (induction ps arbitrary: s) simp_all

lemma async_fetch_still [simp]:
  "clients (snd (async_fetch_blk h p now s)) = clients s" "r_core (snd (async_fetch_blk h p now s)) = r_core s"
  by (simp_all add: async_fetch_blk_def split_beta split: option.split)

lemma fetch_all_still: "clients (snd (fetch_all hs s)) = clients s \<and> r_core (snd (fetch_all hs s)) = r_core s"
  by (induction hs arbitrary: s) (simp_all add: split_beta)

lemma on_fetch_still: "still s (on_fetch_blk r s)"
  by (simp add: still_def on_fetch_blk_def Let_def split: option.split)

lemma vpool_still [simp]:
  "clients (snd (vpool_verify t s)) = clients s" "r_core (snd (vpool_verify t s)) = r_core s" "still s (vpool_done re p s)"
  by (simp_all add: vpool_verify_def vpool_done_def still_def split_beta split: option.split)

fun calm_still :: "replica \<Rightarrow> (pid \<times> action list, replica) res \<Rightarrow> bool" where
  "calm_still s (Ok (p, as) t) \<longleftrightarrow> still s (as, t)"
| "calm_still s (Exc e t) \<longleftrightarrow> still s ([], t)"

lemma res_state_bind_Ok [simp]: "res_state (res_bind m (\<lambda>a. Ok (f a))) = res_state m"
  by (cases m) simp_all

lemma qc_verify_tasks_still:
  "clients (res_state (qc_verify_tasks q is s)) = clients s \<and> r_core (res_state (qc_verify_tasks q is s)) = r_core s"
proof (induction "is" arbitrary: s)
  case (Cons i "is")
  then show ?case
    by (auto simp: split_beta Let_def split: res.split bool.split option.split sum.split)
qed simp

lemma all_then_still: "calm_still s (all_then ps k s)"
  by (simp add: all_then_def still_def split_beta split: sum.split)

lemma calm_still_trans: "clients t = clients s \<Longrightarrow> r_core t = r_core s \<Longrightarrow> calm_still t m \<Longrightarrow> calm_still s m"
  by (cases m) (auto simp: still_def)

lemma qc_verify_async_still: "calm_still s (qc_verify_async qc s)"
proof (cases qc)
  case (QuorumCertSecp256k1 q)
  let ?m = "qc_verify_tasks q [0..<unat (nbits (sq_rids q))] s"
  have "calm_still s (res_bind ?m (\<lambda>ps s. all_then ps K_All_True s))"
    using qc_verify_tasks_still [of q "[0..<unat (nbits (sq_rids q))]" s]
    by (cases ?m) (auto simp: still_def intro!: calm_still_trans [OF _ _ all_then_still])
  then show ?thesis
    by (simp add: qc_verify_async_def QuorumCertSecp256k1 split_beta still_def)
qed (simp add: qc_verify_async_def split_beta still_def)

lemma block_verify_async_still: "calm_still s (block_verify_async qc s)"
  by (simp add: block_verify_async_def qc_verify_async_still split_beta still_def)

lemma vote_verify_async_still: "calm_still s (vote_verify_async v s)"
proof -
  have "clients (snd (pc_verify_async pk pc s)) = clients s \<and> r_core (snd (pc_verify_async pk pc s)) = r_core s" for pk pc
    by (cases pc) (simp_all add: pc_verify_async_def)
  then show ?thesis
    by (simp add: vote_verify_async_def split_beta still_def split: sum.split)
qed

lemma async_deliver_still: "still s (snd (async_deliver_blk h p s))"
  by (simp add: async_deliver_blk_def still_def split_beta Let_def split: option.split)

lemma deliver_fetched_still: "still s (deliver_fetched p r s)"
proof (cases "blk_qc (blk (r_core s) r)")
  case (Some qc)
  define m where "m = (if r = b0 (r_core s) then let (q, s) = resolved_promise (Any (V_Bool True)) s in Ok (q, []) s
      else block_verify_async qc s)"
  have "calm_still s m"
    using block_verify_async_still [of s qc] by (simp add: m_def split_beta still_def)
  then show ?thesis
    by (cases m) (auto simp: deliver_fetched_def Some m_def [symmetric] split_beta still_def)
qed (simp add: deliver_fetched_def still_def)

lemma gather_still: "still s (gather r p hs ps s)"
  using async_deliver_still [of s _ p]
  by (auto simp: gather_def still_def split_beta split: list.split sum.split)

subsection \<open>Calls of the core\<close>

lemma books_core_call:
  assumes "\<And>a c. f (r_core s) = Ok a c \<Longrightarrow> prefix (events (r_core s)) (events c)" and "\<And>a. list_all plain (k a)"
  shows "books s (core_call f k s)"
proof (cases "f (r_core s)")
  case (Ok a c)
  obtain es where "events c = events (r_core s) @ es"
    using assms(1) [OF Ok] by (auto simp: prefix_def)
  then show ?thesis
    using plain_pending [OF assms(2), of a] by (simp add: books_def core_call_def Ok)
next
  case (Exc e c)
  then show ?thesis by (auto simp: books_def core_call_def threw_simps)
qed

lemma prefix_Ok: "prefix xs (events (res_state m)) \<Longrightarrow> m = Ok a c \<Longrightarrow> prefix xs (events c)"
  by simp

lemmas core_books = books_core_call [OF prefix_Ok]

lemma propose_books: "(\<And>b. list_all plain (k b)) \<Longrightarrow> books s (core_call (on_propose e cmds ps ex) k s)"
  by (rule books_core_call [OF prefix_Ok [OF propose_prefix]])

lemma receive_vote_books: "books s (core_call (on_receive_vote e v) (\<lambda>u. []) s)"
  by (rule books_core_call [OF prefix_Ok [OF receive_vote_prefix]]) simp_all

lemma receive_proposal_books: "books s (core_call (on_receive_proposal e pro) (\<lambda>u. []) s)"
  by (rule books_core_call [OF prefix_Ok [OF receive_proposal_prefix]]) simp_all

lemma deliver_books: "books s (base_on_deliver_blk r s)"
proof (cases "on_deliver_blk r (r_core s)")
  case (Ok d c)
  then show ?thesis
    using deliver_events [OF Ok] by (simp add: base_on_deliver_blk_def books_def Let_def split: option.split)
qed (simp add: base_on_deliver_blk_def books_def Let_def threw_simps)

lemma order_events: "flashorder_propose e iter mx now c = Ok cmds c' \<Longrightarrow> events c' = events c"
proof (cases "collect_ordered_lists iter (storage c) = []")
  case False
  assume ok: "flashorder_propose e iter mx now c = Ok cmds c'"
  obtain os ls g ds where F: "finalize (e_srt e) mx now (collect_ordered_lists iter (storage c))
      (sint (ucast (nreplicas (config c) - nmajority (config c)) :: 32 word))
      (sint (ucast (nreplicas (config c)) :: 32 word)) (fairness_parameter (config c))
      (gen_param (config c)) (network_param (config c)) hg_new
      (case hg_statics c of None \<Rightarrow> delta_init now | Some ds \<Rightarrow> ds) = (os, ls, g, ds)"
    by (rule prod_cases4)
  show ?thesis
    using ok False unfolding flashorder_propose_def Let_def F prod.case by (auto split: res.splits)
qed (simp add: flashorder_propose_def)

lemma books_cong: "books t x \<Longrightarrow> clients t = clients s \<Longrightarrow> events (r_core t) = events (r_core s) \<Longrightarrow> books s x"
  by (simp add: books_def)

lemma process_local_order_books: "books s (process_local_order re lo s)"
proof -
  define c1 where "c1 = snd (on_receive_local_order lo (r_core s))"
  have c1: "events c1 = events (r_core s)"
    by (simp add: c1_def on_receive_local_order_def Let_def)
  have "books s ([], s\<lparr>r_core := c1\<rparr>)"
    by (simp add: books_def c1)
  moreover have "books s (case flashorder_propose (r_env re) (r_iter re) 10000 (clock s) c1 of
      Exc e c \<Rightarrow> ([Threw e], s\<lparr>r_core := c\<rparr>)
    | Ok cmds c \<Rightarrow> if cmds = [] then ([], s\<lparr>r_core := c\<rparr>) else beat_then (K_Propose cmds) (s\<lparr>r_core := c\<rparr>))"
  proof (cases "flashorder_propose (r_env re) (r_iter re) 10000 (clock s) c1")
    case (Ok cmds c)
    have c: "events c = events (r_core s)"
      using order_events [OF Ok] c1 by simp
    have "books s (beat_then (K_Propose cmds) (s\<lparr>r_core := c\<rparr>))"
      by (rule books_cong [OF still_books [OF wait_qc_still(7)]]) (simp_all add: c)
    then show ?thesis
      by (simp add: Ok books_def c)
  qed (simp add: books_def threw_simps)
  ultimately show ?thesis
    by (cases "flashorder_propose (r_env re) (r_iter re) 10000 (clock s) c1")
      (simp_all add: process_local_order_def split_beta Let_def c1_def [symmetric])
qed

lemma still_raise: "still s ([Raise e], s)" "still s ([], s)"
  by (simp_all add: still_def)

lemma books_plain:
  "books s ([], upd_pm f s)" "books s ([Threw e], s)" "books s ([], s\<lparr>clock := x\<rparr>)"
  "books s (update_last_proposed s, s)" "books s (vpool_done re p s)"
  by (simp_all add: books_def threw_simps plain_pending update_last_proposed_def reject_member_def
      vpool_done_def split: option.split)

lemma send_vote_books: "books s (send_vote re v p s)"
  using receive_vote_books by (simp add: send_vote_def still_books still_def split: sum.split)

lemma on_event_books:
  assumes "\<And>fin. ev \<noteq> Do_Decide fin"
  shows "books s (on_event re ev s)"
proof (cases ev)
  case (Do_Consensus b)
  then show ?thesis by (simp add: still_books timer_still)
next
  case (Do_Broadcast_Proposal pro)
  have "still s (do_broadcast_proposal pro s)"
    using fold_clients [of "send_msg (MsgPropose d)" for d] fold_send_simps [of "send_msg (MsgPropose d)" for d]
    by (simp add: do_broadcast_proposal_def still_def split: res.split)
  then show ?thesis by (simp add: Do_Broadcast_Proposal still_books)
next
  case (Do_Vote p v)
  then show ?thesis by (simp add: still_books still_def do_vote_def beat_resp_def split_beta)
next
  case (Do_Send_Local_Order p lo)
  then show ?thesis
    using process_local_order_books by (simp add: do_send_local_order_def still_books still_def split: sum.split)
next
  case (Resolve_Propose pro)
  then show ?thesis by (simp add: still_books still_def propose_done_def split_beta Let_def)
next
  case (Resolve_Receive_Proposal pro)
  then show ?thesis by (simp add: still_books still_def receive_proposal_done_def split_beta Let_def)
next
  case Resolve_Hqc_Update
  then show ?thesis by (simp add: still_books still_def on_hqc_update_def split_beta Let_def)
qed (use assms in \<open>simp_all add: still_books still_def\<close>)

lemma invoke_books: "books s (invoke re k v s)"
proof -
  have blk: "books s (with_blk v f s)" if "\<And>r. books s (f r)" for f
    using that still_books [OF still_raise(1)] by (auto simp: with_blk_def split: pm_any.split val.split)
  have propo: "books s (with_prop v f s)" if "\<And>r. books s (f r)" for f
    using that still_books [OF still_raise(1)] by (auto simp: with_prop_def split: pm_any.split val.split)
  have rid: "books s (with_rid v f s)" if "\<And>r. books s (f r)" for f
    using that still_books [OF still_raise(1)] by (auto simp: with_rid_def split: pm_any.split val.split)
  note none = still_raise [THEN still_books]
  show ?thesis
  proof (cases k)
    case (K_Respond p)
    then show ?thesis by (auto simp: still_books still_def split: option.split res.split)
  next
    case (K_Receive_Vote vt)
    then show ?thesis using receive_vote_books none by (auto split: option.split)
  next
    case (K_Receive_Proposal pro)
    then show ?thesis using receive_proposal_books by simp
  next
    case (K_Deliver r)
    then show ?thesis using none deliver_books by (auto split: option.split)
  next
    case (K_Propose cmds)
    then show ?thesis using rid propose_books none by simp
  next
    case (K_Send_Vote vt)
    then show ?thesis using rid send_vote_books by simp
  next
    case (K_Manual x)
    then show ?thesis by (simp add: still_books still_def manual_next_def)
  next
    case (K_Qc_Finish p)
    then show ?thesis by (simp add: still_books still_def)
  qed (use blk propo none high_tail_still wait_qc_still rr_still deliver_fetched_still still_books in simp_all)
qed


subsection \<open>Actions and inputs\<close>

lemma pact_step_books: "books s (pact_step re a s)"
proof (cases a)
  case (Invoke k v npm)
  obtain as t where i: "invoke re k v s = (as, t)" by fastforce
  show ?thesis
    using invoke_books [of s re k v] by (auto simp: books_def Invoke i threw_simps)
qed (auto simp: books_def split_beta plain_pending)

lemma act_books:
  assumes "\<And>fin. a \<noteq> Ev (Do_Decide fin)"
  shows "books s (act re a s)"
proof (cases a)
  case (Ev e)
  then show ?thesis using on_event_books assms by simp
next
  case (New_Consensus x)
  then show ?thesis using propose_books by (simp add: new_consensus_def)
next
  case (Vote_Arrived v p)
  have "still s (vote_arrived v p s)"
  proof (cases "vote_verify_async v s")
    case (Ok x t)
    obtain r as where x: "x = (r, as)" by (cases x)
    show ?thesis
      using vote_verify_async_still [of s v] all_then_still [of t "[p, r]" "K_Receive_Vote v"]
      by (cases "all_then [p, r] (K_Receive_Vote v) t") (auto simp: vote_arrived_def Ok x still_def)
  qed (use vote_verify_async_still [of s v] in \<open>simp add: vote_arrived_def still_def\<close>)
  then show ?thesis using Vote_Arrived by (simp add: still_books)
qed (simp_all add: pact_step_books still_books wait_qc_still reg_still wait_still gather_still on_fetch_still still_raise books_plain)

lemma parse_events:
  "proposal_unserialize psig e c d = Ok (pro, c') d' \<Longrightarrow> events c' = events c"
  "events (fst (res_state (msg_resp_block_parse psig e c d))) = events c"
proof -
  show "events c' = events c" if "proposal_unserialize psig e c d = Ok (pro, c') d'"
    using that fetch_events by (fastforce simp: proposal_unserialize_def blk_unserialize_def res_bind_Ok_iff)
  have "events (fst (res_state (blocks_unserialize psig e n (c, d)))) = events c" for n d
  proof (induction n arbitrary: c d)
    case (Suc n)
    show ?case
    proof (cases "block_unserialize psig (e_sha e) d")
      case (Ok b d1)
      obtain r c1 where f: "fetch_blk b c = (r, c1)" by fastforce
      show ?thesis
        using Suc.IH [of c1 d1] fetch_events [OF f] by (simp add: Ok f)
    qed simp
  qed simp
  then show "events (fst (res_state (msg_resp_block_parse psig e c d))) = events c"
    by (auto simp: msg_resp_block_parse_def split: res.split)
qed

lemma propose_handler_still: "still s (propose_handler re peer msg s)"
proof (cases peer)
  case (Some p)
  show ?thesis
  proof (cases "proposal_unserialize (r_psig re) (r_env re) (r_core s) msg")
    case (Ok x d)
    obtain pro c where x: "x = (pro, c)" by (cases x)
    let ?s = "s\<lparr>r_core := c\<rparr>"
    have ev: "events c = events (r_core s)"
      using parse_events(1) Ok x by blast
    obtain dp as t where dl: "async_deliver_blk (blk_hash (blk c (prop_blk pro))) p ?s = (dp, as, t)"
      by (rule prod_cases3)
    have "still ?s (as, t)" "calm_still t (all_then [dp] (K_Receive_Proposal pro) t)"
      using async_deliver_still [of ?s _ p] dl all_then_still by (metis snd_conv, blast)
    then have "still s (case all_then [dp] (K_Receive_Proposal pro) t of Exc e s \<Rightarrow> (as @ [Raise e], s) | Ok (r, bs) s \<Rightarrow> (as @ bs, s))"
      using ev by (cases "all_then [dp] (K_Receive_Proposal pro) t") (auto simp: still_def)
    then show ?thesis
      using ev by (auto simp: propose_handler_def Some Ok x dl still_def Let_def split: sum.split)
  qed (simp add: propose_handler_def Some still_def)
qed (simp add: propose_handler_def still_def)

lemma handlers_books:
  "books s (vote_handler re peer msg s)" "books s (req_blk_handler peer msg s)"
  "books s (resp_blk_handler re msg s)" "books s (local_order_handler re peer msg s)"
proof -
  show "books s (vote_handler re peer msg s)"
    using async_deliver_still [of s] by (auto simp: vote_handler_def split_beta still_def intro!: still_books split: option.split res.split)
  show "books s (local_order_handler re peer msg s)"
    using process_local_order_books still_raise [THEN still_books]
    by (auto simp: local_order_handler_def split: option.split res.split sum.split)
  show "books s (req_blk_handler peer msg s)"
  proof -
    have "still s (case all_then (fst (fetch_all hs s)) k (snd (fetch_all hs s)) of Exc e s \<Rightarrow> ([Raise e], s) | Ok (q, as) s \<Rightarrow> (as, s))" for hs k
      using fetch_all_still [of hs s] all_then_still [of "snd (fetch_all hs s)" "fst (fetch_all hs s)" k]
      by (cases "all_then (fst (fetch_all hs s)) k (snd (fetch_all hs s))") (auto simp: still_def)
    then have "still s (req_blk_handler (Some p) msg s)" for p
      using still_raise by (cases "msg_req_block_parse msg") (simp_all add: req_blk_handler_def split_beta)
    then show ?thesis
      by (cases peer) (simp_all add: still_books req_blk_handler_def still_raise)
  qed
  show "books s (resp_blk_handler re msg s)"
    using parse_events(2) [of "r_psig re" "r_env re" "r_core s" msg]
    by (cases "msg_resp_block_parse (r_psig re) (r_env re) (r_core s) msg")
       (auto intro!: still_books simp: resp_blk_handler_def still_def list_all_iff split_beta)
qed

subsection \<open>The queue of commands\<close>

text \<open>What is recorded for the state machine.\<close>

definition logs :: "replica \<Rightarrow> action list \<times> replica \<Rightarrow> bool" where
  "logs s x \<longleftrightarrow> executed (snd x) = executed s \<and> (threw (fst x) \<or>
     decides_of (events (r_core (snd x))) = decides_of (events (r_core s)) @ pending_decides (fst x))"

lemma clients_eqD:
  assumes "clients t = clients s"
  shows "executed t = executed s" "callbacks t = callbacks s" "decision_waiting t = decision_waiting s" "cmd_pending t = cmd_pending s"
  using assms by (simp_all add: clients_def)

lemma books_logs: "books s x \<Longrightarrow> logs s x"
  by (simp add: books_def logs_def clients_def)

lemma logs_cong: "logs t x \<Longrightarrow> executed t = executed s \<Longrightarrow> events (r_core t) = events (r_core s) \<Longrightarrow> logs s x"
  by (simp add: logs_def)

lemma take_command_executed [simp]: "executed (take_command now cmd s) = executed s"
  by (simp add: take_command_def split_beta Let_def)

lemma send_batch_books: "books s (send_batch p s)"
  unfolding send_batch_def Let_def
  by (rule books_cong [OF books_core_call]) (auto simp: local_order_prefix)

lemma command_loop_logs: "logs s (command_loop now cmds s)"
proof (induction cmds arbitrary: now s)
  case (Cons cmd cmds)
  let ?t = "take_command (now 0) cmd s"
  show ?case
    using logs_cong [OF Cons.IH [where s = ?t], of s] logs_cong [OF books_logs [OF send_batch_books [of "?t\<lparr>cmd_pending := cmds\<rparr>"]], of s]
    by (simp add: Let_def)
qed (simp add: logs_def)

lemma on_input_books:
  assumes "\<And>h cb. i \<noteq> In_Command h cb" and "\<And>now. i \<noteq> In_Queue now"
  shows "books s (on_input re i s)"
proof (cases i)
  case (In_Propose p m)
  then show ?thesis using propose_handler_still by (simp add: still_books)
next
  case (In_Fetch_Timeout h)
  then show ?thesis
    using fold_clients [of "fc_send h"] fold_send_simps [of "fc_send h"]
    by (simp add: still_books still_def fc_timeout_def fc_send_def split: option.split)
qed (use assms in \<open>simp_all add: handlers_books timer_still still_books books_plain\<close>)

lemma on_input_logs: "logs s (on_input re i s)"
proof (cases i)
  case (In_Command h cb)
  then show ?thesis by (simp add: logs_def exec_command_def)
next
  case (In_Queue now)
  then show ?thesis using command_loop_logs by (simp add: cmd_pending_handler_def)
qed (rule books_logs, rule on_input_books; simp)+

lemma base_start_books:
  assumes "replica_new e n rid pm = Inr s" and "base_start reps e fair gen net s = (as, t)"
  shows "clients t = ([], [], [], []) \<and> pending_decides as = []"
proof -
  have "clients s = ([], [], [], [])"
    using assms(1) by (cases "core_new e rid") (auto simp: replica_new_def clients_def split_beta)
  moreover have "still u (pm_init u)" for u
  proof -
    obtain as v where h: "high_tail_init u = (as, v)" by fastforce
    then show ?thesis
      using high_tail_init_still [of u] wait_qc_still(3,6) [of v] by (auto simp: pm_init_def still_def split_beta)
  qed
  then have "clients (snd (base_start reps e fair gen net s)) = clients s \<and> list_all plain (fst (base_start reps e fair gen net s))"
    by (simp add: base_start_def Let_def still_def clients_def)
  with assms(2) have "clients t = clients s \<and> list_all plain as"
    by simp
  ultimately show ?thesis
    by (simp add: plain_pending)
qed

text \<open>
  The state machine is called for decisions of the core only, and for none of them twice: what a
  replica has executed, with what it has still to execute, is contained in what its core has decided.
\<close>

lemma executes_decisions:
  "replica_reachable re as s \<Longrightarrow> mset (executed s) + mset (pending_decides as) \<subseteq># mset (decides_of (events (r_core s)))"
proof (induction rule: replica_reachable.induct)
  case (start n rid pm s reps fair gen net as t)
  then show ?case using base_start_books [OF start] by (simp add: clients_def)
next
  case (input s i as t)
  then show ?case using on_input_logs [of s re i] by (auto simp: logs_def)
next
  case (act a as s bs t)
  show ?case
  proof (cases "\<exists>fin. a = Ev (Do_Decide fin)")
    case True
    then obtain fin where "a = Ev (Do_Decide fin)" by blast
    moreover have "executed (do_decide fin s) = executed s @ [fin]" "r_core (do_decide fin s) = r_core s"
      by (simp_all add: do_decide_def Let_def split: option.split)
    ultimately show ?thesis using act by (auto simp: union_assoc)
  next
    case False
    then have "logs s (bs, t)"
      using books_logs [OF act_books [of a s re]] act(3) by auto
    moreover have "pending_decides (a # as) = pending_decides as"
      using False by (auto split: action.split event.split)
    ultimately show ?thesis
      using subset_mset.add_right_mono [OF act.IH, of "mset (pending_decides bs)"] act(4) by (simp add: logs_def ac_simps)
  qed
next
  case (raise e as s)
  then show ?case
    using subset_mset.order_trans [OF mset_subset_eq_add_left raise.IH] by simp
qed

subsection \<open>Callbacks of clients\<close>

text \<open>The callbacks that a replica has been given: those in the queue, those that wait, those called.\<close>

definition held :: "replica \<Rightarrow> nat multiset" where
  "held s = mset (map snd (cmd_pending s)) + mset (map snd (decision_waiting s)) + mset (map fst (callbacks s))"

fun submitted :: "input \<Rightarrow> nat multiset" where
  "submitted (In_Command h cb) = {#cb#}"
| "submitted i = {#}"

definition client_ok :: "replica \<Rightarrow> bool" where
  "client_ok s \<longleftrightarrow> distinct (map fst (decision_waiting s)) \<and>
     (\<forall>(cb, fin) \<in> set (callbacks s). fin_decision fin \<noteq> 0 \<longrightarrow> fin \<in> set (executed s))"

lemma held_clients: "clients t = clients s \<Longrightarrow> held t = held s" "clients t = clients s \<Longrightarrow> client_ok t = client_ok s"
  by (simp_all add: clients_def held_def client_ok_def)

lemma mset_delete:
  "distinct (map fst al) \<Longrightarrow> map_of al k = Some v \<Longrightarrow> add_mset v (mset (map snd (AList.delete k al))) = mset (map snd al)"
proof (induction al)
  case (Cons x al)
  show ?case
  proof (cases "fst x = k")
    case True
    then have "AList.delete k al = al"
      using Cons.prems(1) by (intro delete_id) auto
    then show ?thesis
      using True Cons.prems by auto
  qed (use Cons in \<open>auto split: if_splits\<close>)
qed simp

lemma decide_clients:
  assumes "client_ok s"
  shows "held (do_decide fin s) = held s \<and> client_ok (do_decide fin s)"
proof (cases "map_of (decision_waiting s) (cmd_hash fin)")
  case (Some cb)
  have d: "distinct (map fst (decision_waiting s))"
    using assms by (simp add: client_ok_def)
  show ?thesis
    using mset_delete [OF d Some] assms distinct_delete [OF d, of "cmd_hash fin"]
    by (auto simp: do_decide_def Some held_def client_ok_def Let_def)
qed (use assms in \<open>auto simp: do_decide_def held_def client_ok_def Let_def\<close>)

lemma take_command_clients:
  assumes "client_ok s"
  shows "client_ok (take_command now (h, cb) s)"
    and "mset (map snd (decision_waiting (take_command now (h, cb) s))) + mset (map fst (callbacks (take_command now (h, cb) s))) =
      add_mset cb (mset (map snd (decision_waiting s)) + mset (map fst (callbacks s)))"
  using assms by (auto simp: take_command_def client_ok_def Let_def map_of_eq_None_iff)

lemma command_loop_clients:
  assumes "client_ok s"
  shows "client_ok (snd (command_loop now cmds s)) \<and> held (snd (command_loop now cmds s)) =
    mset (map snd cmds) + mset (map snd (decision_waiting s)) + mset (map fst (callbacks s))"
  using assms
proof (induction cmds arbitrary: now s)
  case (Cons cmd cmds)
  obtain h cb where cmd: "cmd = (h, cb)" by (cases cmd)
  let ?t = "take_command (now 0) cmd s"
  have ok: "client_ok ?t"
    using take_command_clients(1) Cons.prems by (simp add: cmd)
  note t = take_command_clients(2) [OF Cons.prems, of "now 0" h cb, folded cmd]
  have "clients (snd (send_batch p (?t\<lparr>cmd_pending := cmds\<rparr>))) = clients (?t\<lparr>cmd_pending := cmds\<rparr>)" for p
    using send_batch_books by (simp add: books_def)
  note b = held_clients [OF this]
  have "client_ok (?t\<lparr>cmd_pending := cmds\<rparr>)"
    using ok by (simp add: client_ok_def)
  then show ?case
    using b Cons.IH [OF ok] t by (simp add: Let_def held_def cmd ac_simps)
qed (simp add: client_ok_def held_def)

lemma act_clients:
  assumes "client_ok s"
  shows "held (snd (act re a s)) = held s \<and> client_ok (snd (act re a s))"
proof (cases "\<exists>fin. a = Ev (Do_Decide fin)")
  case True
  then show ?thesis using decide_clients [OF assms] by auto
next
  case False
  then have "clients (snd (act re a s)) = clients s"
    using act_books [of a s re] by (auto simp: books_def)
  then show ?thesis using assms held_clients by blast
qed

lemma input_clients:
  assumes "client_ok s"
  shows "held (snd (on_input re i s)) = held s + submitted i \<and> client_ok (snd (on_input re i s))"
proof (cases i)
  case (In_Command h cb)
  then show ?thesis using assms by (simp add: exec_command_def held_def client_ok_def)
next
  case (In_Queue now)
  then show ?thesis using command_loop_clients [OF assms] by (simp add: cmd_pending_handler_def held_def)
qed (use assms on_input_books [of i s re] held_clients [of "snd (on_input re i s)" s] in \<open>auto simp: books_def\<close>)

lemma reachable_clients: "replica_reachable re as s \<Longrightarrow> client_ok s"
proof (induction rule: replica_reachable.induct)
  case (start n rid pm s reps fair gen net as t)
  then show ?case using base_start_books [OF start] by (simp add: clients_def client_ok_def)
next
  case (input s i as t)
  then show ?case using input_clients [of s re i] by simp
next
  case (act a as s bs t)
  then show ?case using act_clients [of s re a] by simp
qed

text \<open>
  C30: no commit callback of a client is lost and none is called twice: every step keeps the callbacks
  that the replica has been given, in its queue, in the table of those that wait, or among those it has
  called. One that was called with a decision was called for a command that has been executed.
\<close>

theorem callbacks_conserved:
  assumes "replica_reachable re as s"
  shows "held (snd (act re a s)) = held s \<and> held (snd (on_input re i s)) = held s + submitted i \<and>
    (\<forall>(cb, fin) \<in> set (callbacks s). fin_decision fin \<noteq> 0 \<longrightarrow> fin \<in> set (executed s))"
  using act_clients [OF reachable_clients [OF assms]] input_clients [OF reachable_clients [OF assms]] reachable_clients [OF assms]
  by (auto simp: client_ok_def)

subsection \<open>A replica that has started\<close>

definition run_renv :: renv where
  "run_renv = \<lparr>r_env = run_env, r_vrf = \<lambda>h k s. True, r_psig = Some, r_tails = sorted_list_of_set, r_iter = id\<rparr>"

definition run_peers :: "(bool \<times> peer_id \<times> pubkey) list" where
  "run_peers = [(True, [0], [0]), (False, [1], [1]), (False, [2], [2]), (False, [3], [3])]"

lemma run_replica:
  obtains as t where "replica_reachable run_renv as t" "r_core t = run_start"
proof -
  obtain s where s: "replica_new (r_env run_renv) 1 0 (pacemaker_dummy None) = Inr s" "r_core s = run_blank" "peers s = []"
    "store_ok 0 (promises s)"
  proof -
    have "store_ok 0 pstore_new"
      by (simp add: store_ok_def pstore_new_def promise_ok_def)
    then have "store_ok 0 (snd (promise_new (snd (promise_new (snd (promise_new pstore_new))))))"
      by (intro store_ok_new)
    then show thesis
      by (intro that) (auto simp: replica_new_def run_renv_def run_new split_beta)
  qed
  let ?ps = "[[1], [2], [3]] :: peer_id list"
  have f: "fold (\<lambda>(i, self, p, pk). add_replica (of_nat i) p pk) (enumerate 0 run_peers) run_blank
      = fold (\<lambda>(i, p, pk). add_replica i p pk) run_replicas run_blank"
    by (simp add: run_peers_def run_replicas_def numeral_2_eq_2 numeral_3_eq_3)
  have b: "base_start run_peers run_env 0 0 0 s = pm_init (s\<lparr>r_core := run_start, peers := ?ps\<rparr>)"
    unfolding base_start_def Let_def s(2) f run_reps by (simp add: s(3) run_peers_def run_init)
  have "quiet 0 (s\<lparr>r_core := run_start, peers := ?ps\<rparr>) (pm_init (s\<lparr>r_core := run_start, peers := ?ps\<rparr>))"
    using s(4) by (intro pm_init_quiet) simp
  then have "r_core (snd (base_start run_peers run_env 0 0 0 s)) = run_start"
    by (simp add: b quiet_def)
  moreover have "replica_reachable run_renv (fst (base_start run_peers run_env 0 0 0 s)) (snd (base_start run_peers run_env 0 0 0 s))"
    by (rule replica_reachable.start [OF s(1), where reps = run_peers and fair = 0 and gen = 0 and net = 0]) (simp add: run_renv_def)
  ultimately show thesis
    using that by blast
qed







theorem callbacks_conserved_witness: "\<exists>as t. replica_reachable run_renv as t \<and> held (snd (on_input run_renv (In_Command (h256 1) 7) t)) = add_mset 7 (held t)"
proof -
  obtain as t where t: "replica_reachable run_renv as t"
    by (rule run_replica)
  show ?thesis
    using callbacks_conserved [OF t, of Set_Locked "In_Command (h256 1) 7"] t by auto
qed

end
