(* ===== verification/Base_Queue.thy ===== *)
theory Base_Queue
  imports Base_Run
begin

text \<open>
  The queue of client commands: a replica sends its order to the proposer in batches of \<open>blk_size\<close>.
\<close>

lemma take_command_fields:
  "local_order_buffer (take_command now (h, cb) s) = local_order_buffer s @ [h]"
  "timestamp_buffer (take_command now (h, cb) s) = timestamp_buffer s @ [now]"
  "blk_size (take_command now (h, cb) s) = blk_size s" "r_core (take_command now (h, cb) s) = r_core s"
  "get_proposer (take_command now (h, cb) s) = get_proposer s" 
  by (simp_all add: take_command_def Let_def get_proposer_def split: pm_kind.split)

lemma command_loop_few:
  "length (local_order_buffer s) + length cmds < blk_size s \<Longrightarrow> command_loop now cmds s = (as, t) \<Longrightarrow>
    as = [] \<and> local_order_buffer t = local_order_buffer s @ map fst cmds \<and>
    timestamp_buffer t = timestamp_buffer s @ map now [0..<length cmds] \<and> cmd_pending t = [] \<and> r_core t = r_core s"
proof (induction cmds arbitrary: now s)
  case (Cons cmd cmds)
  obtain h cb where cmd: "cmd = (h, cb)" by (cases cmd)
  let ?t = "take_command (now 0) (h, cb) s"
  have "command_loop (\<lambda>i. now (i + 1)) cmds ?t = (as, t)"
    using Cons.prems by (simp add: cmd Let_def take_command_fields)
  from Cons.IH [OF _ this] Cons.prems(1) show ?case
    by (simp add: cmd take_command_fields upt_conv_Cons map_Suc_upt [symmetric] comp_def del: upt_Suc map_Suc_upt)
qed auto

lemma send_batch_full:
  assumes "length (local_order_buffer s) = blk_size s" and "length (timestamp_buffer s) = blk_size s" and "0 < blk_size s"
  shows "\<exists>c. send_batch p s = ([Ev (Do_Send_Local_Order p \<lparr>initiator = get_id s, ordered_hashes = local_order_buffer s,
      lo_timestamps = timestamp_buffer s\<rparr>)],
    s\<lparr>local_order_buffer := [], timestamp_buffer := [], r_core := c\<rparr>)"
  using assms by (auto simp: send_batch_def Let_def core_call_def on_local_order_def new_events_def emit_def)

lemma command_loop_batch:
  assumes "command_loop now cmds s = (as, t)" and "length (local_order_buffer s) < blk_size s"
    and "blk_size s \<le> length (local_order_buffer s) + length cmds" and "length (timestamp_buffer s) = length (local_order_buffer s)"
  shows "let k = blk_size s - length (local_order_buffer s) in
    as = [Ev (Do_Send_Local_Order (get_proposer s) \<lparr>initiator = get_id s,
      ordered_hashes = local_order_buffer s @ map fst (take k cmds),
      lo_timestamps = timestamp_buffer s @ map now [0..<k]\<rparr>)] \<and>
    local_order_buffer t = [] \<and> timestamp_buffer t = [] \<and> cmd_pending t = drop k cmds"
  using assms
proof (induction cmds arbitrary: now s)
  case (Cons cmd cmds)
  obtain h cb where cmd: "cmd = (h, cb)" by (cases cmd)
  let ?t = "take_command (now 0) (h, cb) s" and ?k = "blk_size s - length (local_order_buffer s)"
  show ?case
  proof (cases "blk_size s \<le> length (local_order_buffer s) + 1")
    case True
    then have k: "?k = 1" "length (local_order_buffer ?t) = blk_size s"
      using Cons.prems(2) by (simp_all add: take_command_fields)
    let ?u = "?t\<lparr>cmd_pending := cmds\<rparr>"
    have "send_batch (get_proposer s) ?u = (as, t)"
      using Cons.prems(1) k(2) by (simp add: cmd Let_def take_command_fields)
    moreover have "length (local_order_buffer ?u) = blk_size ?u" "length (timestamp_buffer ?u) = blk_size ?u" "0 < blk_size ?u"
      using k(2) Cons.prems(2,4) by (simp_all add: take_command_fields)
    ultimately show ?thesis
      using send_batch_full [of ?u "get_proposer s"] by (auto simp: k(1) cmd take_command_fields)
  next
    case False
    then have l: "command_loop (\<lambda>i. now (i + 1)) cmds ?t = (as, t)"
      using Cons.prems(1) by (simp add: cmd Let_def take_command_fields)
    have k: "?k = Suc (?k - 1)"
      using False by simp
    have "map now [0..<Suc m] = now 0 # map (\<lambda>i. now (i + 1)) [0..<m]" for m
      by (simp add: upt_conv_Cons map_Suc_upt [symmetric] comp_def del: upt_Suc map_Suc_upt)
    from this [of "?k - 1"] have "map now [0..<?k] = now 0 # map (\<lambda>i. now (i + 1)) [0..<?k - 1]"
      by (simp only: k [symmetric])
    moreover have "take ?k (cmd # cmds) = cmd # take (?k - 1) cmds" "drop ?k (cmd # cmds) = drop (?k - 1) cmds"
      using k by (metis take_Suc_Cons, metis drop_Suc_Cons)
    ultimately show ?thesis
      using Cons.IH [OF l] Cons.prems False by (simp add: Let_def cmd take_command_fields)
  qed
qed simp

text \<open>
  C31: the queue sends the order of a replica in batches of exactly \<open>blk_size\<close> commands, as they came and
  each with its time: fewer commands are kept; of more, the first complete batch goes to the proposer and
  the others stay in the queue.
\<close>

theorem queue_batches:
  assumes "length (local_order_buffer s) < blk_size s" and "length (timestamp_buffer s) = length (local_order_buffer s)"
    and "cmd_pending_handler now s = (as, t)"
  shows "let k = blk_size s - length (local_order_buffer s); cmds = cmd_pending s in
    if length cmds < k
    then as = [] \<and> local_order_buffer t = local_order_buffer s @ map fst cmds \<and>
      timestamp_buffer t = timestamp_buffer s @ map now [0..<length cmds] \<and> cmd_pending t = [] \<and> r_core t = r_core s
    else as = [Ev (Do_Send_Local_Order (get_proposer s) \<lparr>initiator = get_id s,
        ordered_hashes = local_order_buffer s @ map fst (take k cmds), lo_timestamps = timestamp_buffer s @ map now [0..<k]\<rparr>)] \<and>
      local_order_buffer t = [] \<and> timestamp_buffer t = [] \<and> cmd_pending t = drop k cmds"
proof (cases "length (local_order_buffer s) + length (cmd_pending s) < blk_size s")
  case True
  then show ?thesis
    using command_loop_few [OF True, of now as t] assms(1,3) by (simp add: cmd_pending_handler_def Let_def)
next
  case False
  then show ?thesis
    using command_loop_batch [of now "cmd_pending s" s as t] assms by (simp add: cmd_pending_handler_def Let_def)
qed

theorem queue_batches_witness:
  "\<exists>s t. blk_size s = 2 \<and> cmd_pending s = [(h256 1, 1), (h256 2, 2), (h256 3, 3)] \<and>
    cmd_pending_handler of_nat s = ([Ev (Do_Send_Local_Order (get_proposer s) \<lparr>initiator = get_id s,
      ordered_hashes = [h256 1, h256 2], lo_timestamps = [0, 1]\<rparr>)], t) \<and> cmd_pending t = [(h256 3, 3)]"
proof -
  define s :: replica where "s = undefined\<lparr>blk_size := 2, cmd_pending := [(h256 1, 1), (h256 2, 2), (h256 3, 3)],
    local_order_buffer := [], timestamp_buffer := []\<rparr>"
  have f: "blk_size s = 2" "cmd_pending s = [(h256 1, 1), (h256 2, 2), (h256 3, 3)]" "local_order_buffer s = []" "timestamp_buffer s = []"
    by (simp_all add: s_def)
  obtain as t where h: "cmd_pending_handler of_nat s = (as, t)" by fastforce
  show ?thesis
    using queue_batches [OF _ _ h] h f by (intro exI [of _ s] exI [of _ t]) (simp add: Let_def numeral_2_eq_2)
qed

end
