(* ===== verification/Pace_Facts.thy ===== *)
theory Pace_Facts
  imports Base_Run
begin

text \<open>
  What the liveness gadgets guarantee: the parent that \<open>PMHighTail\<close> selects, and the rotation of
  \<open>PMRoundRobinProposer\<close>.
\<close>

subsection \<open>The highest tail\<close>

text \<open>\<open>b\<close> stands above \<open>a\<close> on a chain of first parents.\<close>

definition ancestor :: "heap \<Rightarrow> ref \<Rightarrow> ref \<Rightarrow> bool" where
  "ancestor hp a b \<longleftrightarrow>
     (\<exists>rs. chain hp (a # rs) \<and> last (a # rs) = b \<and> (\<forall>r \<in> set rs. height (hp a) < height (hp r)))"

lemma walk_unique:
  "walk n hp h b = Inr (bs, e) \<Longrightarrow> chain hp (a # rs) \<Longrightarrow> last (a # rs) = b \<Longrightarrow> \<forall>r \<in> set rs. h < height (hp r) \<Longrightarrow>
    height (hp a) \<le> h \<Longrightarrow> e = a"
proof (induction n arbitrary: b bs rs)
  case (Suc n)
  show ?case
  proof (cases rs rule: rev_cases)
    case Nil
    then show ?thesis using Suc.prems by (simp add: leD)
  next
    case (snoc rs' x)
    then have x: "x = b" "h < height (hp b)"
      using Suc.prems(3,4) by simp_all
    have ch: "chain hp (a # rs')" "first_parent (hp b) = Some (last (a # rs'))"
      using Suc.prems(2) successively_append_iff [of _ "a # rs'" "[b]"] by (simp_all add: chain_def snoc x(1))
    obtain p ps where p: "parents (hp b) = p # ps" "p = last (a # rs')"
      using ch(2) by (cases "parents (hp b)") (simp_all add: first_parent_def)
    obtain bs' where "walk n hp h p = Inr (bs', e)"
      using Suc.prems(1) x(2) p(1) by (cases "walk n hp h p") auto
    then show ?thesis
      using Suc.IH ch(1) p(2) Suc.prems(4,5) by (auto simp: snoc)
  qed
qed simp

lemma check_ancestry_correct:
  assumes "tree_wf c" and "b < next_ref c"
  shows "check_ancestry (heap c) a b = Inr (ancestor (heap c) a b)"
proof -
  obtain bs e where w: "walk_down (heap c) (height (blk c a)) b = Inr (bs, e)" "chain (heap c) (e # rev bs)"
    "\<forall>x \<in> set bs. x < next_ref c \<and> delivered (blk c x) \<and> height (blk c a) < height (blk c x)" "last (e # rev bs) = b"
    using walk_down_ok [OF assms] by metis
  have "e = a \<longleftrightarrow> ancestor (heap c) a b"
  proof
    assume "e = a"
    then show "ancestor (heap c) a b"
      unfolding ancestor_def by (intro exI [of _ "rev bs"]) (use w(2-4) in simp)
  next
    assume "ancestor (heap c) a b"
    then obtain rs where "chain (heap c) (a # rs)" "last (a # rs) = b" "\<forall>r \<in> set rs. height (blk c a) < height (blk c r)"
      by (auto simp: ancestor_def)
    then show "e = a"
      using w(1) unfolding walk_down_def by (blast intro: walk_unique)
  qed
  then show ?thesis
    by (simp add: check_ancestry_def w(1))
qed

lemma highest_tail_from:
  assumes "tree_wf c" and "\<forall>t \<in> set ts. t < next_ref c"
  shows "\<exists>t. highest_tail (heap c) h ts best = Inr t \<and> (t = best \<or> t \<in> set ts \<and> ancestor (heap c) h t) \<and>
    height (blk c best) \<le> height (blk c t) \<and>
    (\<forall>x \<in> set ts. ancestor (heap c) h x \<longrightarrow> height (blk c x) \<le> height (blk c t))"
  using assms(2)
proof (induction ts arbitrary: best)
  case (Cons x ts)
  let ?b = "if ancestor (heap c) h x \<and> height (blk c best) < height (blk c x) then x else best"
  obtain t where t: "highest_tail (heap c) h ts ?b = Inr t" "t = ?b \<or> t \<in> set ts \<and> ancestor (heap c) h t"
    "height (blk c ?b) \<le> height (blk c t)" "\<forall>x \<in> set ts. ancestor (heap c) h x \<longrightarrow> height (blk c x) \<le> height (blk c t)"
    using Cons.IH [of ?b] Cons.prems by auto
  have "highest_tail (heap c) h (x # ts) best = Inr t"
    using t(1) check_ancestry_correct [OF assms(1), of x h] Cons.prems by simp
  moreover have "t = best \<or> t \<in> set (x # ts) \<and> ancestor (heap c) h t"
    using t(2) by (auto split: if_splits)
  moreover have "height (blk c best) \<le> height (blk c t)"
    using t(3) by (auto split: if_splits)
  moreover have "ancestor (heap c) h x \<longrightarrow> height (blk c x) \<le> height (blk c t)"
    using t(3) by (auto split: if_splits)
  ultimately show ?case
    using t(4) by auto
qed simp

text \<open>
  In a reachable state \<open>PMHighTail\<close> finds the highest of the tails that extend the block with the
  highest certificate, or this block itself when there is none, and the search reads no missing parent.
\<close>

theorem highest_tail_correct:
  assumes "core_reachable e c" and "\<forall>t \<in> set ts. t < next_ref c"
  shows "\<exists>t. highest_tail (heap c) h ts h = Inr t \<and> t \<in> insert h (set ts) \<and> ancestor (heap c) h t \<and>
    (\<forall>x \<in> set ts. ancestor (heap c) h x \<longrightarrow> height (blk c x) \<le> height (blk c t))"
proof -
  have "ancestor (heap c) h h"
    unfolding ancestor_def by (intro exI [of _ "[]"]) (simp add: chain_def)
  then show ?thesis
    using highest_tail_from [OF core_inv_parts(1) [OF core_reachable_inv [OF assms(1)]] assms(2), of h h] by blast
qed

theorem highest_tail_correct_witness:
  "\<exists>t. highest_tail (heap run_proposed) 0 [1] 0 = Inr t \<and> t \<in> {0, 1} \<and> ancestor (heap run_proposed) 0 t"
  using highest_tail_correct [OF run_reachable(2), of "[1]" 0] by (auto simp: run_proposed_next)

subsection \<open>Rotation\<close>

lemma upd_pm_r_pm [simp]: "r_pm (upd_pm f s) = f (r_pm s)"
  by (simp add: upd_pm_def)

lemma reg_pm [simp]:
  "r_pm (snd (rr_reg_proposal s)) = r_pm s" "r_pm (snd (rr_reg_receive_proposal s)) = r_pm s"
  "r_core (snd (rr_reg_proposal s)) = r_core s" "r_core (snd (rr_reg_receive_proposal s)) = r_core s"
  by (simp_all add: pm_ops r_then_def split_beta)

lemma next_proposer_unat:
  assumes "0 < nreplicas cf" and "unat (nreplicas cf) \<le> 2 ^ 16" 
  obtains q where "next_proposer cf p = Inr q" and "unat q = (unat p + 1) mod unat (nreplicas cf)"
proof -
  let ?n = "nreplicas cf"
  have p: "unat p < 2 ^ 16"
    using unsigned_less [of p] by simp
  have 1: "unat (ucast p + 1 :: u64) = unat p + 1"
    using p by (simp add: unat_word_ariths unsigned_ucast_eq take_bit_nat_eq_self)
  have n: "0 < unat ?n"
    using assms(1) by (simp add: word_less_nat_alt)
  have "(unat p + 1) mod unat ?n < 2 ^ 16"
    using assms(2) n by (meson mod_less_divisor less_le_trans)
  then have "unat (ucast ((ucast p + 1 :: u64) mod ?n) :: replica_id) = (unat p + 1) mod unat ?n"
    by (simp add: unat_mod 1 unsigned_ucast_eq take_bit_nat_eq_self)
  moreover have "?n \<noteq> 0"
    using assms(1) by auto
  ultimately show thesis
    by (intro that) (simp_all add: next_proposer_def)
qed

lemma rotate_pm:
  assumes "next_proposer (config (r_core s)) (pm_proposer (r_pm s)) = Inr q"
  shows "r_core (snd (rotate s)) = r_core s"
    and "r_pm (snd (rotate s)) = (r_pm s)\<lparr>prop_blks := \<lambda>rid. None, rotating := True, pm_proposer := q,
      timer := Exp_Timer (exp_timeout (r_pm s)), exp_timeout := exp_timeout (r_pm s) * 2\<rparr>"
  using assms by (simp_all add: rotate_def split_beta)

primrec rotate_times :: "nat \<Rightarrow> replica \<Rightarrow> replica" where
  "rotate_times 0 s = s"
| "rotate_times (Suc k) s = snd (rotate (rotate_times k s))"

lemma rotations:
  assumes "0 < nreplicas (config (r_core s))" and "unat (nreplicas (config (r_core s))) \<le> 2 ^ 16"
    and "unat (pm_proposer (r_pm s)) < unat (nreplicas (config (r_core s)))"
  shows "let t = rotate_times k s in
    r_core t = r_core s \<and> unat (pm_proposer (r_pm t)) = (unat (pm_proposer (r_pm s)) + k) mod unat (nreplicas (config (r_core s))) \<and>
    exp_timeout (r_pm t) = exp_timeout (r_pm s) * 2 ^ k \<and>
    (0 < k \<longrightarrow> rotating (r_pm t) \<and> timer (r_pm t) = Exp_Timer (exp_timeout (r_pm s) * 2 ^ (k - 1)))"
proof (induction k)
  case (Suc k)
  define t where "t = rotate_times k s"
  have t: "r_core t = r_core s" "unat (pm_proposer (r_pm t)) = (unat (pm_proposer (r_pm s)) + k) mod unat (nreplicas (config (r_core s)))"
    "exp_timeout (r_pm t) = exp_timeout (r_pm s) * 2 ^ k"
    using Suc.IH by (simp_all add: t_def Let_def)
  obtain q where q: "next_proposer (config (r_core t)) (pm_proposer (r_pm t)) = Inr q"
    "unat q = (unat (pm_proposer (r_pm t)) + 1) mod unat (nreplicas (config (r_core t)))"
    using next_proposer_unat assms(1,2) t(1) by metis
  have "rotate_times (Suc k) s = snd (rotate t)"
    by (simp add: t_def)
  then show ?case
    using t q(2) rotate_pm [OF q(1)] by (simp add: Let_def mod_Suc_eq)
qed (use assms(3) in simp)

text \<open>
  C27: rotation is round robin: after \<open>k\<close> rotations the proposer is the \<open>k\<close>-th replica after the first,
  each of them waits twice as long as the one before, and within as many rotations as there are replicas
  every replica has had its turn.
\<close>

theorem rotation_round_robin:
  assumes "0 < nreplicas (config (r_core s))" and "unat (nreplicas (config (r_core s))) \<le> 2 ^ 16"
    and "unat (pm_proposer (r_pm s)) < unat (nreplicas (config (r_core s)))"
  shows "(let t = rotate_times k s in
      unat (pm_proposer (r_pm t)) = (unat (pm_proposer (r_pm s)) + k) mod unat (nreplicas (config (r_core s))) \<and>
      exp_timeout (r_pm t) = exp_timeout (r_pm s) * 2 ^ k \<and>
      (0 < k \<longrightarrow> rotating (r_pm t) \<and> timer (r_pm t) = Exp_Timer (exp_timeout (r_pm s) * 2 ^ (k - 1)))) \<and>
    (\<forall>i < unat (nreplicas (config (r_core s))). \<exists>j < unat (nreplicas (config (r_core s))).
      unat (pm_proposer (r_pm (rotate_times j s))) = i)"
proof (intro conjI allI impI)
  let ?n = "unat (nreplicas (config (r_core s)))" and ?p = "unat (pm_proposer (r_pm s))"
  show "let t = rotate_times k s in unat (pm_proposer (r_pm t)) = (?p + k) mod ?n \<and>
      exp_timeout (r_pm t) = exp_timeout (r_pm s) * 2 ^ k \<and>
      (0 < k \<longrightarrow> rotating (r_pm t) \<and> timer (r_pm t) = Exp_Timer (exp_timeout (r_pm s) * 2 ^ (k - 1)))"
    using rotations [OF assms, of k] by (simp add: Let_def)
  fix i assume i: "i < ?n"
  define j where "j = (if ?p \<le> i then i - ?p else i + ?n - ?p)"
  have "j < ?n" "(?p + j) mod ?n = i"
    using i assms(3) by (auto simp: j_def)
  then show "\<exists>j < ?n. unat (pm_proposer (r_pm (rotate_times j s))) = i"
    using rotations [OF assms, of j] by (intro exI [of _ j]) (simp add: Let_def)
qed

theorem rotation_round_robin_witness:
  "\<exists>s. r_core s = run_start \<and> unat (pm_proposer (r_pm (rotate_times 6 s))) = 2 \<and> exp_timeout (r_pm (rotate_times 6 s)) = 64"
proof -
  define s :: replica where "s = undefined\<lparr>r_core := run_start, r_pm := (pacemaker_rr 1 1)\<lparr>exp_timeout := 1\<rparr>\<rparr>"
  have "nreplicas (config (r_core s)) = 4" "unat (pm_proposer (r_pm s)) = 0" "exp_timeout (r_pm s) = 1" "r_core s = run_start"
    by (simp_all add: s_def run_start_def run_blank_def run_cfg_def upd_blk_def pacemaker_rr_def pacemaker_dummy_def)
  then show ?thesis
    using rotation_round_robin [of s 6] by (intro exI [of _ s]) (simp add: Let_def)
qed

end
